(* ===== verification/Serverbox_Prelude.thy ===== *)
theory Serverbox_Prelude
  imports Main "HOL-Library.Word" "HOL-Library.Multiset" "HOL-Library.Monad_Syntax"
begin

text \<open>
  Shared vocabulary of the development: names for machine integers and pointers, assertions as
  values, and the lemmas on option values, lists and link fields that several components use.

  A C++ pointer that may be \<^verbatim>\<open>nullptr\<close> is an \<open>option\<close>. An operation that can fail an
  \<^verbatim>\<open>MG_BOX_ASSERT\<close> or \<^verbatim>\<open>MG_DEV_ASSERT\<close>, or follow a null pointer, returns an \<open>option\<close>
  whose \<open>None\<close> is the aborted run; the correctness theorems then show \<open>Some\<close>.
\<close>

section \<open>Types\<close>

type_synonym u8 = "8 word"
type_synonym u16 = "16 word"
type_synonym u32 = "32 word"
type_synonym u64 = "64 word"
type_synonym 'a ptr = "'a option"

named_theorems chain_simps \<open>link chains under updates, appends and case splits\<close>
named_theorems step_defs \<open>definitions unfolded when a step of a protocol is examined\<close>

section \<open>Assertions\<close>

definition mg_assert :: "bool \<Rightarrow> unit option" where
  "mg_assert b = (if b then Some () else None)"

lemma mg_assert_simps [simp]:
  "mg_assert True = Some ()" "mg_assert False = None"
  by (simp_all add: mg_assert_def)

lemma mg_assert_bind [simp]: "Option.bind (mg_assert b) f = (if b then f () else None)"
  by (simp add: mg_assert_def)

section \<open>Link chains\<close>

text \<open>
  An intrusive list keeps its structure in a link field of the elements themselves. The field is
  a function from elements to pointers; \<open>lchain f xs q\<close> says that following the field from the
  head of \<open>xs\<close> visits exactly \<open>xs\<close> and then arrives at \<open>q\<close>.
\<close>

definition first_or :: "'a list \<Rightarrow> 'a ptr \<Rightarrow> 'a ptr" where
  "first_or xs q = (case xs of [] \<Rightarrow> q | y # _ \<Rightarrow> Some y)"

definition last_or :: "'a list \<Rightarrow> 'a ptr \<Rightarrow> 'a ptr" where
  "last_or xs p = (if xs = [] then p else Some (last xs))"

lemma first_or_simps [simp]:
  "first_or [] q = q" "first_or (x # xs) q = Some x"
  "first_or (xs @ ys) q = first_or xs (first_or ys q)"
  by (auto simp: first_or_def split: list.splits)

lemma last_or_simps [simp]:
  "last_or [] p = p" "last_or (xs @ [x]) p = Some x"
  "last_or (x # xs) p = last_or xs (Some x)"
  "last_or (xs @ ys) p = last_or ys (last_or xs p)"
  by (auto simp: last_or_def)

lemma first_or_eq_None [simp]: "first_or xs q = None \<longleftrightarrow> xs = [] \<and> q = None"
  by (cases xs) auto

lemma last_or_eq_None [simp]: "last_or xs q = None \<longleftrightarrow> xs = [] \<and> q = None"
  by (simp add: last_or_def)

lemma None_eq_first_or [simp]: "None = first_or xs q \<longleftrightarrow> xs = [] \<and> q = None"
  by (cases xs) auto

lemma first_or_rev [simp]: "first_or (rev xs) p = last_or xs p"
  by (induction xs arbitrary: p) auto

lemma last_or_rev [simp]: "last_or (rev xs) p = first_or xs p"
  by (induction xs arbitrary: p) auto

lemma first_or_nonempty: "xs \<noteq> [] \<Longrightarrow> first_or xs q = Some (hd xs)"
  by (cases xs) auto

lemma last_or_nonempty: "xs \<noteq> [] \<Longrightarrow> last_or xs p = Some (last xs)"
  by (simp add: last_or_def)

lemma first_or_None_SomeD: "first_or xs None = Some x \<Longrightarrow> \<exists>ys. xs = x # ys"
  by (cases xs) auto

lemma last_or_None_SomeD: "last_or xs None = Some x \<Longrightarrow> \<exists>ys. xs = ys @ [x]"
  by (cases xs rule: rev_cases) auto

primrec lchain :: "('a \<Rightarrow> 'a ptr) \<Rightarrow> 'a list \<Rightarrow> 'a ptr \<Rightarrow> bool" where
  "lchain f [] q = True"
| "lchain f (x # xs) q = (f x = first_or xs q \<and> lchain f xs q)"

lemma lchain_append [simp]:
  "lchain f (xs @ ys) q \<longleftrightarrow> lchain f xs (first_or ys q) \<and> lchain f ys q"
  by (induction xs) auto

lemma lchain_butlast:
  "xs \<noteq> [] \<Longrightarrow> lchain f xs q \<longleftrightarrow> lchain f (butlast xs) (Some (last xs)) \<and> f (last xs) = q"
  by (cases xs rule: rev_cases) auto

lemma lchain_upd_other [simp]: "x \<notin> set xs \<Longrightarrow> lchain (f(x := v)) xs q = lchain f xs q"
  by (induction xs) auto

lemma lchain_cong: "(\<And>x. x \<in> set xs \<Longrightarrow> f x = g x) \<Longrightarrow> lchain f xs q = lchain g xs q"
  by (induction xs) auto

lemma lchain_snoc_upd:
  "x \<notin> set xs \<Longrightarrow> lchain f xs (Some x) \<Longrightarrow> lchain (f(x := q)) (xs @ [x]) q"
  by simp

text \<open>Redirecting the last link of a chain redirects the chain.\<close>

lemma lchain_last_upd [chain_simps]:
  assumes "distinct xs" and "lchain f xs q" and "xs \<noteq> []"
  shows "lchain (f(last xs := r)) xs r"
proof -
  obtain ys y where xs: "xs = ys @ [y]"
    using assms(3) by (cases xs rule: rev_cases) auto
  with assms show ?thesis by auto
qed

lemma lchain_unique:
  "lchain f xs None \<Longrightarrow> lchain f ys None \<Longrightarrow> first_or xs None = first_or ys None \<Longrightarrow> xs = ys"
proof (induction xs arbitrary: ys)
  case Nil
  then show ?case by (cases ys) auto
next
  case (Cons x xs)
  then show ?case by (cases ys) auto
qed

section \<open>Lists\<close>

lemma set_list_update_notin: "i < length xs \<Longrightarrow> set (xs[i := x]) \<subseteq> insert x (set xs)"
  by (simp add: set_update_subset_insert)

lemma nth_mem_split:
  "i < length xs \<Longrightarrow> xs = take i xs @ xs ! i # drop (Suc i) xs"
  by (rule id_take_nth_drop)

text \<open>Moving a hole: writing \<open>xs ! p\<close> at \<open>i\<close> and \<open>v\<close> at \<open>p\<close> swaps the two elements.\<close>

lemma mset_move_hole:
  assumes "i < length xs" and "p < length xs" and "i \<noteq> p"
  shows "mset (xs[i := xs ! p, p := v]) = mset (xs[i := v])"
proof -
  have "xs[i := xs ! p, p := v] = (xs[i := v])[p := (xs[i := v]) ! i, i := (xs[i := v]) ! p]"
    using assms by (intro nth_equalityI) (auto simp: nth_list_update)
  also have "mset \<dots> = mset (xs[i := v])"
    using assms by (subst mset_swap) auto
  finally show ?thesis .
qed

lemma distinct_mset_cong: "mset xs = mset ys \<Longrightarrow> distinct xs = distinct ys"
  by (metis mset_eq_imp_distinct_iff)

section \<open>Sums over threads\<close>

text \<open>A sum over the threads when one of them changes.\<close>

lemma sum_change:
  fixes f g :: "nat \<Rightarrow> nat"
  assumes "\<And>v. v \<noteq> w \<Longrightarrow> g v = f v" and "w < n"
  shows "(\<Sum>v<n. g v) + f w = (\<Sum>v<n. f v) + g w"
proof -
  have "(\<Sum>v<n. g v) = g w + (\<Sum>v\<in>{..<n} - {w}. g v)" "(\<Sum>v<n. f v) = f w + (\<Sum>v\<in>{..<n} - {w}. f v)"
    using assms(2) by (auto intro!: sum.remove)
  moreover have "(\<Sum>v\<in>{..<n} - {w}. g v) = (\<Sum>v\<in>{..<n} - {w}. f v)" using assms(1) by (intro sum.cong) auto
  ultimately show ?thesis by simp
qed

lemma replicate_numeral: "replicate (numeral k) x = x # replicate (pred_numeral k) x"
  by (simp add: numeral_eq_Suc)

end
