(* ===== verification/Binary_Heap.thy ===== *)
theory Binary_Heap
  imports Serverbox_Prelude
begin

text \<open>
  The binary heap of \<^verbatim>\<open>mg/box/BinaryHeap.h\<close>.

  \<open>hp_data\<close> is the vector \<^verbatim>\<open>myData\<close>; \<open>hp_idx\<close> is the intrusive index field of all elements
  (\<^verbatim>\<open>T::*myIndex\<close>), so that an element which leaves the heap still has an index to look at. The
  static \<^verbatim>\<open>Methods\<close> class is the record \<open>heap_methods\<close>: the order \<^verbatim>\<open>IsLeftAbove\<close> and whether the
  index is maintained. Moving an element out of a slot leaves the (pointer) value there, as it does
  for the pointers the program stores; the slot is overwritten before it is read again.

  Indices are natural numbers here; \<open>parent_index_u32\<close> and \<open>left_child_index_u32\<close> are the code's
  32 bit computations, and the bounds lemmas show that they agree below \<open>2 ^ 31\<close> elements, which
  is what the \<^verbatim>\<open>int32_t\<close> index field can hold.
\<close>

section \<open>Data and index arithmetic\<close>

record 'a heap_methods =
  hm_above :: "'a \<Rightarrow> 'a \<Rightarrow> bool"
  hm_index :: bool

record 'a heap =
  hp_data :: "'a list"
  hp_idx :: "'a \<Rightarrow> int"

text \<open>The orders, for objects with a comparison key.\<close>

definition min_is_left_above :: "('a \<Rightarrow> 'k::linorder) \<Rightarrow> 'a \<Rightarrow> 'a \<Rightarrow> bool" where
  "min_is_left_above key l r = (key l \<le> key r)"

definition max_is_left_above :: "('a \<Rightarrow> 'k::linorder) \<Rightarrow> 'a \<Rightarrow> 'a \<Rightarrow> bool" where
  "max_is_left_above key l r = (key l \<ge> key r)"

definition set_index :: "'a heap_methods \<Rightarrow> 'a \<Rightarrow> int \<Rightarrow> ('a \<Rightarrow> int) \<Rightarrow> 'a \<Rightarrow> int" where
  "set_index m a i idx = (if hm_index m then idx(a := i) else idx)"

text \<open>With the index disabled \<^verbatim>\<open>GetIndex\<close> and \<^verbatim>\<open>IsSame\<close> are failing assertions.\<close>

definition get_index :: "'a heap_methods \<Rightarrow> 'a \<Rightarrow> 'a heap \<Rightarrow> int option" where
  "get_index m a h = (if hm_index m then Some (hp_idx h a) else None)"

definition is_same :: "'a heap_methods \<Rightarrow> 'a \<Rightarrow> 'a \<Rightarrow> bool option" where
  "is_same m a b = (if hm_index m then Some (a = b) else None)"

definition parent_index_u32 :: "u32 \<Rightarrow> u32" where
  "parent_index_u32 i = drop_bit 1 (i - 1)"

definition left_child_index_u32 :: "u32 \<Rightarrow> u32" where
  "left_child_index_u32 i = push_bit 1 i + 1"

definition parent_index :: "nat \<Rightarrow> nat" where
  "parent_index i = (i - 1) div 2"

definition left_child_index :: "nat \<Rightarrow> nat" where
  "left_child_index i = 2 * i + 1"

lemma parent_lt: "0 < i \<Longrightarrow> parent_index i < i"
  by (simp add: parent_index_def)

lemma parent_lt_pos: "0 < parent_index i \<Longrightarrow> parent_index i < i"
  by (cases i) (auto simp: parent_index_def)

lemma parent_index_0 [simp]: "parent_index 0 = 0"
  by (simp add: parent_index_def)

section \<open>Operations\<close>

text \<open>\<^verbatim>\<open>tree[to] = std::move(tree[from]); SetIndex(tree[to], to)\<close>\<close>

definition move_to :: "'a heap_methods \<Rightarrow> nat \<Rightarrow> 'a \<Rightarrow> 'a heap \<Rightarrow> 'a heap" where
  "move_to m to a h = h\<lparr>hp_data := (hp_data h)[to := a],
                        hp_idx := set_index m a (int to) (hp_idx h)\<rparr>"

text \<open>The \<^verbatim>\<open>do ... while\<close> of \<^verbatim>\<open>PrivUpdateUp\<close>: the hole is at \<open>i\<close>, the moved element is \<open>tmp\<close>.\<close>

function up_loop :: "'a heap_methods \<Rightarrow> 'a \<Rightarrow> nat \<Rightarrow> 'a heap \<Rightarrow> nat \<times> 'a heap" where
  "up_loop m tmp i h =
    (let parent = parent_index i;
         h1 = move_to m i (hp_data h ! parent) h
     in if parent \<noteq> 0 \<and> hm_above m tmp (hp_data h1 ! parent_index parent)
        then up_loop m tmp parent h1
        else (parent, h1))"
  by pat_completeness auto
termination
  by (relation "measure (\<lambda>(m, tmp, i, h). i)") (auto simp: parent_lt_pos)

definition update_up :: "'a heap_methods \<Rightarrow> nat \<Rightarrow> 'a heap \<Rightarrow> bool \<times> 'a heap" where
  "update_up m i h =
    (if i = 0 then (False, h)
     else if hm_above m (hp_data h ! parent_index i) (hp_data h ! i) then (False, h)
     else let tmp = hp_data h ! i;
              (i', h') = up_loop m tmp i h
          in (True, move_to m i' tmp h'))"

definition top_child :: "'a heap_methods \<Rightarrow> 'a list \<Rightarrow> nat \<Rightarrow> nat" where
  "top_child m tree left =
    (let right = left + 1
     in if right \<ge> length tree then left
        else if hm_above m (tree ! left) (tree ! right) then left
        else right)"

text \<open>The loop of \<^verbatim>\<open>PrivUpdateDown\<close>; \<open>topc\<close> is the child to move into the hole \<open>i\<close>.\<close>

function down_loop :: "'a heap_methods \<Rightarrow> 'a \<Rightarrow> nat \<Rightarrow> nat \<Rightarrow> 'a heap \<Rightarrow> nat \<times> 'a heap" where
  "down_loop m tmp i topc h =
    (let h1 = move_to m i (hp_data h ! topc) h;
         left = left_child_index topc
     in if left \<ge> length (hp_data h1) then (topc, h1)
        else let top' = top_child m (hp_data h1) left
             in if hm_above m (hp_data h1 ! top') tmp then down_loop m tmp topc top' h1
                else (topc, h1))"
  by pat_completeness auto
termination
  by (relation "measure (\<lambda>(m, tmp, i, topc, h). length (hp_data h) - topc)")
     (auto simp: left_child_index_def top_child_def move_to_def Let_def)

definition update_down :: "'a heap_methods \<Rightarrow> nat \<Rightarrow> 'a heap \<Rightarrow> (bool \<times> 'a heap) option" where
  "update_down m i h =
    (let left = left_child_index i
     in if left \<ge> length (hp_data h) then Some (False, h)
        else let topc = top_child m (hp_data h) left
             in if hm_above m (hp_data h ! i) (hp_data h ! topc) then Some (False, h)
                else let tmp = hp_data h ! i;
                         (i', h') = down_loop m tmp i topc h
                     in do { mg_assert (i' < length (hp_data h));
                             Some (True, move_to m i' tmp h') })"

definition priv_update :: "'a heap_methods \<Rightarrow> nat \<Rightarrow> 'a heap \<Rightarrow> 'a heap option" where
  "priv_update m i h =
    (case update_up m i h of
       (True, h') \<Rightarrow> Some h'
     | (False, h') \<Rightarrow> map_option snd (update_down m i h'))"

definition heap_push :: "'a heap_methods \<Rightarrow> 'a \<Rightarrow> 'a heap \<Rightarrow> 'a heap" where
  "heap_push m a h =
    (let index = length (hp_data h);
         h1 = h\<lparr>hp_data := hp_data h @ [a]\<rparr>;
         h2 = h1\<lparr>hp_idx := set_index m a (int index) (hp_idx h1)\<rparr>
     in snd (update_up m index h2))"

definition heap_update_top :: "'a heap_methods \<Rightarrow> 'a heap \<Rightarrow> 'a heap option" where
  "heap_update_top m h = map_option snd (update_down m 0 h)"

definition heap_update :: "'a heap_methods \<Rightarrow> 'a \<Rightarrow> 'a heap \<Rightarrow> 'a heap option" where
  "heap_update m a h =
    do { i \<leftarrow> get_index m a h;
         mg_assert (i \<ge> 0);
         mg_assert (nat i < length (hp_data h));
         same \<leftarrow> is_same m a (hp_data h ! nat i);
         mg_assert same;
         priv_update m (nat i) h }"

definition heap_remove_top :: "'a heap_methods \<Rightarrow> 'a heap \<Rightarrow> (bool \<times> 'a heap) option" where
  "heap_remove_top m h =
    (let count = length (hp_data h)
     in if count = 0 then Some (False, h)
        else let h1 = h\<lparr>hp_idx := set_index m (hp_data h ! 0) (- 1) (hp_idx h)\<rparr>
             in if count = 1 then Some (True, h1\<lparr>hp_data := butlast (hp_data h1)\<rparr>)
                else let h2 = move_to m 0 (hp_data h1 ! (count - 1)) h1;
                         h3 = h2\<lparr>hp_data := butlast (hp_data h2)\<rparr>
                     in do { (_, h4) \<leftarrow> update_down m 0 h3; Some (True, h4) })"

definition heap_remove :: "'a heap_methods \<Rightarrow> 'a \<Rightarrow> 'a heap \<Rightarrow> 'a heap option" where
  "heap_remove m a h =
    do { ii \<leftarrow> get_index m a h;
         mg_assert (ii \<ge> 0);
         let index = nat ii;
         let count = length (hp_data h);
         mg_assert (index < count);
         same \<leftarrow> is_same m a (hp_data h ! index);
         mg_assert same;
         let h1 = h\<lparr>hp_idx := set_index m (hp_data h ! index) (- 1) (hp_idx h)\<rparr>;
         if index + 1 = count then Some (h1\<lparr>hp_data := butlast (hp_data h1)\<rparr>)
         else let h2 = move_to m index (hp_data h1 ! (count - 1)) h1
              in priv_update m index (h2\<lparr>hp_data := butlast (hp_data h2)\<rparr>) }"

definition heap_pop :: "'a heap_methods \<Rightarrow> 'a heap \<Rightarrow> ('a option \<times> 'a heap) option" where
  "heap_pop m h =
    (if hp_data h = [] then Some (None, h)
     else do { (_, h') \<leftarrow> heap_remove_top m h; Some (Some (hp_data h ! 0), h') })"

text \<open>\<^verbatim>\<open>GetTop\<close> of an empty heap is undefined behaviour: \<open>None\<close>.\<close>

definition heap_get_top :: "'a heap \<Rightarrow> 'a option" where
  "heap_get_top h = (if hp_data h = [] then None else Some (hp_data h ! 0))"

definition heap_count :: "'a heap \<Rightarrow> nat" where
  "heap_count h = length (hp_data h)"

definition empty_heap :: "('a \<Rightarrow> int) \<Rightarrow> 'a heap" where
  "empty_heap idx = \<lparr>hp_data = [], hp_idx = idx\<rparr>"

declare up_loop.simps [simp del] down_loop.simps [simp del]

section \<open>Invariants\<close>

text \<open>The heap property over all parent-child edges, and the index field: a stored element holds
  its position and an element outside holds \<open>-1\<close>.\<close>

definition heap_inv :: "'a heap_methods \<Rightarrow> 'a list \<Rightarrow> bool" where
  "heap_inv m d = (\<forall>j<length d. 0 < j \<longrightarrow> hm_above m (d ! parent_index j) (d ! j))"

definition index_inv :: "'a heap_methods \<Rightarrow> 'a heap \<Rightarrow> bool" where
  "index_inv m h = (hm_index m \<longrightarrow> distinct (hp_data h) \<and>
     (\<forall>j<length (hp_data h). hp_idx h (hp_data h ! j) = int j) \<and>
     (\<forall>a. a \<notin> set (hp_data h) \<longrightarrow> hp_idx h a = - 1))"

definition heap_ok :: "'a heap_methods \<Rightarrow> 'a heap \<Rightarrow> bool" where
  "heap_ok m h = (heap_inv m (hp_data h) \<and> index_inv m h)"

text \<open>The heap property but for the edges at \<open>i\<close>: all of them (\<open>almost_heap\<close>), the one to its parent
  (\<open>up_hole\<close>) or those to its children (\<open>down_hole\<close>). Children of \<open>i\<close> stay below its parent.\<close>

definition grand_ok :: "'a heap_methods \<Rightarrow> nat \<Rightarrow> 'a list \<Rightarrow> bool" where
  "grand_ok m i d = (\<forall>j<length d. 0 < j \<and> parent_index j = i \<and> 0 < i \<longrightarrow>
     hm_above m (d ! parent_index i) (d ! j))"

definition almost_heap :: "'a heap_methods \<Rightarrow> nat \<Rightarrow> 'a list \<Rightarrow> bool" where
  "almost_heap m i d = (grand_ok m i d \<and> (\<forall>j<length d. 0 < j \<and> j \<noteq> i \<and> parent_index j \<noteq> i \<longrightarrow>
     hm_above m (d ! parent_index j) (d ! j)))"

definition up_hole :: "'a heap_methods \<Rightarrow> nat \<Rightarrow> 'a list \<Rightarrow> bool" where
  "up_hole m i d = (grand_ok m i d \<and> (\<forall>j<length d. 0 < j \<and> j \<noteq> i \<longrightarrow>
     hm_above m (d ! parent_index j) (d ! j)))"

definition down_hole :: "'a heap_methods \<Rightarrow> nat \<Rightarrow> 'a list \<Rightarrow> bool" where
  "down_hole m i d = (grand_ok m i d \<and> (\<forall>j<length d. 0 < j \<and> parent_index j \<noteq> i \<longrightarrow>
     hm_above m (d ! parent_index j) (d ! j)))"

definition index_but :: "'a heap_methods \<Rightarrow> nat \<Rightarrow> 'a heap \<Rightarrow> bool" where
  "index_but m i h = (hm_index m \<longrightarrow>
     (\<forall>j<length (hp_data h). j \<noteq> i \<longrightarrow> hp_idx h (hp_data h ! j) = int j))"

lemmas hole_defs = heap_inv_def almost_heap_def up_hole_def down_hole_def grand_ok_def

section \<open>Index arithmetic\<close>

lemma left_child_pos [simp]: "0 < left_child_index i" "i < left_child_index i"
  by (simp_all add: left_child_index_def)

lemma parent_of_child:
  "0 < j \<Longrightarrow> parent_index j = i \<longleftrightarrow> j = left_child_index i \<or> j = left_child_index i + 1"
  by (auto simp: parent_index_def left_child_index_def)

lemma parent_lt_length [simp]: "i < n \<Longrightarrow> parent_index i < n"
  by (simp add: parent_index_def)

lemma parent_neq_self: "0 < i \<Longrightarrow> parent_index i \<noteq> i"
  by (simp add: parent_index_def)

lemma top_child_cases:
  "top_child m d l = l \<and> (l + 1 < length d \<longrightarrow> hm_above m (d ! l) (d ! (l + 1))) \<or>
   top_child m d l = l + 1 \<and> l + 1 < length d \<and> \<not> hm_above m (d ! l) (d ! (l + 1))"
  by (auto simp: top_child_def Let_def)

section \<open>Moving the hole\<close>

lemma move_to_sel [simp]:
  "hp_data (move_to m i a h) = (hp_data h)[i := a]"
  "hp_idx (move_to m i a h) = (if hm_index m then (hp_idx h)(a := int i) else hp_idx h)"
  by (simp_all add: move_to_def set_index_def)

lemma index_but_move:
  assumes "index_but m i h" and "i < length (hp_data h)" and "p < length (hp_data h)" and "p \<noteq> i"
    and "hm_index m \<Longrightarrow> distinct ((hp_data h)[i := tmp])"
  shows "index_but m p (move_to m i (hp_data h ! p) h)"
proof (cases "hm_index m")
  case True
  have ne: "hp_data h ! j \<noteq> hp_data h ! p" if "j < length (hp_data h)" "j \<noteq> i" "j \<noteq> p" for j
    using assms(5)[OF True] that assms(2-4) nth_eq_iff_index_eq[of "(hp_data h)[i := tmp]" j p]
    by auto
  with assms True show ?thesis
    by (auto simp: index_but_def nth_list_update)
qed (simp add: index_but_def)

lemma index_but_fill:
  assumes "index_but m i h" and "i < length (hp_data h)"
    and "hm_index m \<Longrightarrow> distinct ((hp_data h)[i := tmp])" and "j < length (hp_data h)" and "hm_index m"
  shows "hp_idx (move_to m i tmp h) (hp_data (move_to m i tmp h) ! j) = int j"
proof (cases "j = i")
  case False
  then have "hp_data h ! j \<noteq> tmp"
    using assms nth_eq_iff_index_eq[of "(hp_data h)[i := tmp]" j i] by auto
  with False assms show ?thesis by (auto simp: index_but_def)
qed (use assms in simp)

text \<open>
  The state of a loop: the elements are \<open>M\<close> when the hole is filled with \<open>tmp\<close>. When indices are kept,
  they are right except for the hole, and the fields of elements outside \<open>M\<close> are those of \<open>f\<close>.
\<close>

definition hole_at :: "'a heap_methods \<Rightarrow> 'a \<Rightarrow> 'a multiset \<Rightarrow> ('a \<Rightarrow> int) \<Rightarrow> nat \<Rightarrow> 'a heap \<Rightarrow> bool" where
  "hole_at m tmp M f i h =
    (i < length (hp_data h) \<and> mset ((hp_data h)[i := tmp]) = M \<and> index_but m i h \<and>
     (hm_index m \<longrightarrow> distinct ((hp_data h)[i := tmp]) \<and> (\<forall>a. a \<notin># M \<longrightarrow> hp_idx h a = f a)))"

lemma hole_at_move:
  assumes H: "hole_at m tmp M f i h" and p: "p < length (hp_data h)" "p \<noteq> i"
  shows "hole_at m tmp M f p (move_to m i (hp_data h ! p) h)"
proof -
  have ms: "mset ((hp_data h)[i := hp_data h ! p, p := tmp]) = mset ((hp_data h)[i := tmp])"
    using H p by (intro mset_move_hole) (auto simp: hole_at_def)
  have "hp_data h ! p \<in> set ((hp_data h)[i := tmp])"
    using p by (metis length_list_update nth_list_update_neq nth_mem)
  then have "hp_data h ! p \<in># M" using H by (auto simp: hole_at_def simp del: mset_update)
  moreover have "index_but m p (move_to m i (hp_data h ! p) h)"
    using H p by (intro index_but_move) (auto simp: hole_at_def)
  ultimately show ?thesis
    using H p ms mset_eq_imp_distinct_iff[OF ms] by (auto simp: hole_at_def simp del: mset_update)
qed

definition filled :: "'a heap_methods \<Rightarrow> 'a multiset \<Rightarrow> ('a \<Rightarrow> int) \<Rightarrow> 'a heap \<Rightarrow> bool" where
  "filled m M f h = (mset (hp_data h) = M \<and>
     (hm_index m \<longrightarrow> distinct (hp_data h) \<and> (\<forall>j<length (hp_data h). hp_idx h (hp_data h ! j) = int j) \<and>
       (\<forall>a. a \<notin># M \<longrightarrow> hp_idx h a = f a)))"

lemma hole_at_fill:
  assumes H: "hole_at m tmp M f i h"
  shows "filled m M f (move_to m i tmp h)"
proof -
  have "tmp \<in> set ((hp_data h)[i := tmp])"
    using H by (auto simp: hole_at_def intro: set_update_memI)
  then have "tmp \<in># M" using H by (auto simp: hole_at_def simp del: mset_update)
  with H show ?thesis
    using index_but_fill[of m i h tmp]
    by (auto simp: hole_at_def filled_def simp del: mset_update)
qed

lemma filled_hole:
  assumes "filled m M f h" and "i < length (hp_data h)"
  shows "hole_at m (hp_data h ! i) M f i h"
  using assms by (auto simp: filled_def hole_at_def index_but_def)

text \<open>The contract of a \<^verbatim>\<open>Methods\<close> class: \<^verbatim>\<open>IsLeftAbove\<close> is a total preorder.\<close>

locale heap_order =
  fixes m :: "'a heap_methods"
  assumes above_total: "hm_above m a b \<or> hm_above m b a"
    and above_trans: "hm_above m a b \<Longrightarrow> hm_above m b c \<Longrightarrow> hm_above m a c"
begin

abbreviation le where "le \<equiv> hm_above m"

lemma above_refl [simp]: "le a a"
  using above_total by blast

lemma not_above: "\<not> le a b \<Longrightarrow> le b a"
  using above_total by blast

lemma up_swap:
  assumes D: "up_hole m i d" and i: "0 < i" "i < length d" and le: "le (d ! i) (d ! parent_index i)"
  shows "up_hole m (parent_index i) (d[i := d ! parent_index i, parent_index i := d ! i])"
proof -
  let ?p = "parent_index i"
  let ?d = "d[i := d ! ?p, ?p := d ! i]"
  have p: "?p < length d" "?p \<noteq> i" "0 < ?p \<Longrightarrow> parent_index ?p \<noteq> i \<and> parent_index ?p \<noteq> ?p"
    using i parent_lt[of i] parent_lt[of ?p] by auto
  have edge: "le (d ! parent_index j) (d ! j)" if "j < length d" "0 < j" "j \<noteq> i" for j
    using D that by (auto simp: up_hole_def)
  have grand: "le (d ! ?p) (d ! j)" if "j < length d" "0 < j" "parent_index j = i" for j
    using D that i by (auto simp: up_hole_def grand_ok_def)
  have "le (?d ! parent_index j) (?d ! j)" if j: "j < length d" "0 < j" "j \<noteq> ?p" for j
  proof -
    consider "j = i" | "j \<noteq> i" "parent_index j = i" | "j \<noteq> i" "parent_index j = ?p"
      | "j \<noteq> i" "parent_index j \<noteq> i" "parent_index j \<noteq> ?p" by blast
    then show ?thesis
    proof cases
      case 3
      then show ?thesis using j p i edge[of j] le above_trans by auto
    qed (use j p i edge grand le in \<open>auto simp: nth_list_update\<close>)
  qed
  moreover have "le (?d ! parent_index ?p) (?d ! j)"
    if j: "j < length d" "0 < j" "parent_index j = ?p" "0 < ?p" for j
  proof -
    have "?d ! parent_index ?p = d ! parent_index ?p" using p j(4) by auto
    moreover have "le (d ! parent_index ?p) (d ! ?p)" using edge[of ?p] p j(4) by auto
    ultimately show ?thesis
      using j p i edge[of j] parent_neq_self[of j] above_trans
      by (cases "j = i") (auto simp: nth_list_update)
  qed
  ultimately show ?thesis by (auto simp: up_hole_def grand_ok_def)
qed

lemma up_hole_done:
  assumes "up_hole m i d" and "i = 0 \<or> le (d ! parent_index i) (d ! i)"
  shows "heap_inv m d"
  using assms by (auto simp: up_hole_def heap_inv_def)

lemma top_child_le:
  assumes "left_child_index i < length d" and "0 < j" and "j < length d" and "parent_index j = i"
  shows "le (d ! top_child m d (left_child_index i)) (d ! j)"
proof -
  have "j = left_child_index i \<or> j = left_child_index i + 1"
    using assms parent_of_child by blast
  then show ?thesis
    using top_child_cases[of m d "left_child_index i"] assms(3) not_above above_total by auto
qed

lemma top_child_props:
  assumes "left_child_index i < length d"
  shows "top_child m d (left_child_index i) < length d"
    and "parent_index (top_child m d (left_child_index i)) = i"
    and "0 < top_child m d (left_child_index i)"
  using assms top_child_cases[of m d "left_child_index i"]
  by (auto simp: parent_index_def left_child_index_def)

lemma down_swap:
  assumes D: "down_hole m i d" and l: "left_child_index i < length d"
    and c: "c = top_child m d (left_child_index i)" and le: "le (d ! c) (d ! i)"
  shows "down_hole m c (d[i := d ! c, c := d ! i])"
proof -
  let ?d = "d[i := d ! c, c := d ! i]"
  have c': "c < length d" "parent_index c = i" "0 < c" "c \<noteq> i"
    using top_child_props[OF l] c parent_lt[of c] by auto
  have i: "i < length d" using l left_child_pos(2)[of i] by linarith
  have edge: "le (d ! parent_index j) (d ! j)" if "j < length d" "0 < j" "parent_index j \<noteq> i" for j
    using D that by (auto simp: down_hole_def)
  have grand: "le (d ! parent_index i) (d ! j)" if "j < length d" "0 < j" "parent_index j = i" "0 < i" for j
    using D that by (auto simp: down_hole_def grand_ok_def)
  have "le (?d ! parent_index j) (?d ! j)" if j: "j < length d" "0 < j" "parent_index j \<noteq> c" for j
  proof -
    have pj: "parent_index j \<noteq> j" using j parent_neq_self by simp
    consider "j = c" | "j = i" | "j \<noteq> c" "parent_index j = i" | "j \<noteq> c" "j \<noteq> i" "parent_index j \<noteq> i" by blast
    then show ?thesis
    proof cases
      case 2
      then show ?thesis using j pj c' i grand[of c] by (auto simp: nth_list_update)
    next
      case 3
      then show ?thesis using j pj c' i top_child_le[OF l j(2,1)] c by (auto simp: nth_list_update)
    qed (use j pj c' i edge le in \<open>auto simp: nth_list_update\<close>)
  qed
  moreover have "le (?d ! parent_index c) (?d ! j)"
    if j: "j < length d" "0 < j" "parent_index j = c" for j
  proof -
    have "j \<noteq> c" "j \<noteq> i"
      using j parent_lt[of j] parent_lt[of c] c' by auto
    then show ?thesis using j c' i edge[of j] by (auto simp: nth_list_update)
  qed
  ultimately show ?thesis by (auto simp: down_hole_def grand_ok_def)
qed

lemma down_hole_done:
  assumes "down_hole m i d"
    and "left_child_index i < length d \<Longrightarrow> le (d ! i) (d ! top_child m d (left_child_index i))"
  shows "heap_inv m d"
proof (unfold heap_inv_def, intro allI impI)
  fix j assume j: "j < length d" "0 < j"
  show "le (d ! parent_index j) (d ! j)"
  proof (cases "parent_index j = i")
    case True
    then have l: "left_child_index i < length d" using parent_of_child[OF j(2), of i] j(1) by auto
    show ?thesis using top_child_le[OF l j(2,1) True] assms(2)[OF l] above_trans True by blast
  qed (use assms(1) j in \<open>auto simp: down_hole_def\<close>)
qed

text \<open>The loops: the hole moves along a path until the element fits.\<close>

lemma up_loop_ok:
  assumes "up_loop m tmp i h = (i', h')" and "0 < i" and "hole_at m tmp M f i h"
    and "up_hole m i ((hp_data h)[i := tmp])" and "le tmp (hp_data h ! parent_index i)"
  shows "hole_at m tmp M f i' h' \<and> heap_inv m ((hp_data h')[i' := tmp])"
  using assms
proof (induction i arbitrary: h rule: less_induct)
  case (less i)
  let ?p = "parent_index i"
  let ?h = "move_to m i (hp_data h ! ?p) h"
  have n: "i < length (hp_data h)" "?p < length (hp_data h)" "?p < i" "?p \<noteq> i"
    using less.prems parent_lt[of i] by (auto simp: hole_at_def)
  have hole: "hole_at m tmp M f ?p ?h"
    using hole_at_move[OF less.prems(3) n(2,4)] .
  have up: "up_hole m ?p ((hp_data ?h)[?p := tmp])"
    using up_swap[OF less.prems(4,2)] n less.prems(5) by simp
  show ?case
  proof (cases "?p \<noteq> 0 \<and> le tmp (hp_data ?h ! parent_index ?p)")
    case True
    then have "up_loop m tmp ?p ?h = (i', h')"
      using less.prems(1) by (simp add: up_loop.simps[of m tmp i h] Let_def)
    then show ?thesis using less.IH[OF n(3) _ _ hole up] True by simp
  next
    case False
    then have eq: "i' = ?p" "h' = ?h"
      using less.prems(1) by (auto simp: up_loop.simps[of m tmp i h] Let_def split: if_splits)
    have "heap_inv m ((hp_data ?h)[?p := tmp])"
      using up
    proof (rule up_hole_done)
      show "?p = 0 \<or> le ((hp_data ?h)[?p := tmp] ! parent_index ?p) ((hp_data ?h)[?p := tmp] ! ?p)"
        using False n parent_lt[of ?p] not_above[of tmp "hp_data h ! parent_index ?p"]
        by (cases "?p = 0") auto
    qed
    with hole eq show ?thesis by simp
  qed
qed

lemma down_loop_ok:
  assumes "down_loop m tmp i c h = (i', h')" and "hole_at m tmp M f i h"
    and "down_hole m i ((hp_data h)[i := tmp])" and "left_child_index i < length (hp_data h)"
    and "c = top_child m (hp_data h) (left_child_index i)" and "le (hp_data h ! c) tmp"
  shows "hole_at m tmp M f i' h' \<and> heap_inv m ((hp_data h')[i' := tmp]) \<and> i' < length (hp_data h)"
  using assms
proof (induction "length (hp_data h) - c" arbitrary: i c h rule: less_induct)
  case less
  let ?d = "(hp_data h)[i := tmp]"
  let ?h = "move_to m i (hp_data h ! c) h"
  let ?l = "left_child_index c"
  have c: "c < length (hp_data h)" "parent_index c = i" "0 < c" "i < c"
    using top_child_props[OF less.prems(4)] less.prems(5) parent_lt[of c] by auto
  have same: "top_child m (xs[k := y]) l = top_child m xs l" if "k < l" for xs :: "'a list" and k y l
    using that by (auto simp: top_child_def Let_def)
  have hole: "hole_at m tmp M f c ?h"
    using hole_at_move[OF less.prems(2) c(1)] c(4) by simp
  have down: "down_hole m c ((hp_data ?h)[c := tmp])"
    using down_swap[OF less.prems(3), of c] less.prems(4,5,6) c by (simp add: same)
  have len: "length (hp_data ?h) = length (hp_data h)" by simp
  show ?case
  proof (cases "?l < length (hp_data h) \<and> le (hp_data ?h ! top_child m (hp_data ?h) ?l) tmp")
    case True
    let ?c = "top_child m (hp_data ?h) ?l"
    have lt: "c < ?c" "?c < length (hp_data h)"
      using top_child_props[of c "hp_data ?h"] True parent_lt[of ?c] by auto
    have "down_loop m tmp c ?c ?h = (i', h')"
      using less.prems(1) True by (simp add: down_loop.simps[of m tmp i c h] Let_def)
    moreover have "length (hp_data ?h) - ?c < length (hp_data h) - c"
      using lt c by simp
    ultimately have "hole_at m tmp M f i' h' \<and> heap_inv m ((hp_data h')[i' := tmp]) \<and> i' < length (hp_data ?h)"
      using less.hyps[OF _ _ hole down _ refl] True by simp
    then show ?thesis by simp
  next
    case False
    then have eq: "i' = c" "h' = ?h"
      using less.prems(1) by (auto simp: down_loop.simps[of m tmp i c h] Let_def split: if_splits)
    have "heap_inv m ((hp_data ?h)[c := tmp])"
      using down
    proof (rule down_hole_done)
      assume l: "?l < length ((hp_data ?h)[c := tmp])"
      then have "le tmp (hp_data ?h ! top_child m (hp_data ?h) ?l)" "top_child m (hp_data ?h) ?l \<noteq> c"
        using False not_above top_child_props[of c "hp_data ?h"] parent_neq_self by auto
      then show "le ((hp_data ?h)[c := tmp] ! c) ((hp_data ?h)[c := tmp] ! top_child m ((hp_data ?h)[c := tmp]) ?l)"
        using c by (simp add: same)
    qed
    with hole eq c show ?thesis by simp
  qed
qed

section \<open>The operations inside the contract\<close>

lemma update_up_ok:
  assumes "update_up m i h = (b, h')" and "filled m M f h" and "i < length (hp_data h)"
    and "almost_heap m i (hp_data h) \<or> up_hole m i (hp_data h)"
  shows "filled m M f h' \<and> (b \<longrightarrow> heap_inv m (hp_data h')) \<and>
         (\<not> b \<longrightarrow> h' = h \<and> (i = 0 \<or> le (hp_data h ! parent_index i) (hp_data h ! i)))"
proof (cases "i = 0 \<or> le (hp_data h ! parent_index i) (hp_data h ! i)")
  case True
  then show ?thesis using assms(1,2) by (auto simp: update_up_def split: if_splits)
next
  case False
  then have i: "0 < i" and le: "le (hp_data h ! i) (hp_data h ! parent_index i)"
    using not_above by auto
  obtain i' h1 where loop: "up_loop m (hp_data h ! i) i h = (i', h1)" by fastforce
  have "up_hole m i (hp_data h)"
  proof (cases "up_hole m i (hp_data h)")
    case False
    then have al: "almost_heap m i (hp_data h)" using assms(4) by blast
    have "le (hp_data h ! parent_index j) (hp_data h ! j)"
      if "j < length (hp_data h)" "0 < j" "j \<noteq> i" for j
      using al that le above_trans i by (cases "parent_index j = i") (auto simp: almost_heap_def grand_ok_def)
    then show ?thesis using al by (simp add: up_hole_def almost_heap_def)
  qed
  then have "hole_at m (hp_data h ! i) M f i' h1 \<and> heap_inv m ((hp_data h1)[i' := hp_data h ! i])"
    using up_loop_ok[OF loop i filled_hole[OF assms(2,3)]] le by simp
  moreover have "b" "h' = move_to m i' (hp_data h ! i) h1"
    using assms(1) False loop by (auto simp: update_up_def)
  ultimately show ?thesis using hole_at_fill by auto
qed

lemma update_down_ok:
  assumes "filled m M f h" and "down_hole m i (hp_data h)"
  obtains b h' where "update_down m i h = Some (b, h')" and "filled m M f h'" and "heap_inv m (hp_data h')"
proof (cases "left_child_index i < length (hp_data h) \<and>
    \<not> le (hp_data h ! i) (hp_data h ! top_child m (hp_data h) (left_child_index i))")
  case False
  then have "update_down m i h = Some (False, h)"
    by (auto simp: update_down_def Let_def)
  moreover have "heap_inv m (hp_data h)"
    using assms(2) False by (auto intro: down_hole_done)
  ultimately show ?thesis using assms(1) that by blast
next
  case True
  let ?c = "top_child m (hp_data h) (left_child_index i)"
  have i: "i < length (hp_data h)" using True left_child_pos(2)[of i] by linarith
  obtain i' h1 where loop: "down_loop m (hp_data h ! i) i ?c h = (i', h1)" by fastforce
  have r: "hole_at m (hp_data h ! i) M f i' h1 \<and> heap_inv m ((hp_data h1)[i' := hp_data h ! i]) \<and> i' < length (hp_data h)"
    using down_loop_ok[OF loop filled_hole[OF assms(1) i]] assms(2) True not_above by simp
  then have "update_down m i h = Some (True, move_to m i' (hp_data h ! i) h1)"
    using True loop by (auto simp: update_down_def Let_def)
  then show ?thesis by (rule that) (use r hole_at_fill in auto)
qed

lemma priv_update_ok:
  assumes "filled m M f h" and "i < length (hp_data h)" and "almost_heap m i (hp_data h)"
  obtains h' where "priv_update m i h = Some h'" and "filled m M f h'" and "heap_inv m (hp_data h')"
proof -
  obtain b h1 where up: "update_up m i h = (b, h1)" by fastforce
  note r = update_up_ok[OF up assms(1,2) disjI1[OF assms(3)]]
  show ?thesis
  proof (cases b)
    case True
    then show ?thesis using that r up by (auto simp: priv_update_def)
  next
    case False
    have "down_hole m i (hp_data h)"
      using assms(3) r False by (auto simp: almost_heap_def down_hole_def)
    then show ?thesis
      using update_down_ok[OF assms(1)] that up r False by (auto simp: priv_update_def)
  qed
qed

text \<open>What an operation does to the elements and the index fields, with the heap property kept.\<close>

lemma push_ok:
  assumes "heap_inv m (hp_data h)" and "filled m M f h" and "hm_index m \<Longrightarrow> a \<notin># M"
  shows "heap_inv m (hp_data (heap_push m a h))" and "filled m (add_mset a M) f (heap_push m a h)"
proof -
  let ?n = "length (hp_data h)"
  let ?h = "h\<lparr>hp_data := hp_data h @ [a], hp_idx := set_index m a (int ?n) (hp_idx h)\<rparr>"
  have set: "set (hp_data h) = set_mset M" using assms(2) by (auto simp: filled_def)
  have f: "filled m (add_mset a M) f ?h"
    using assms(2,3) set nth_mem[of _ "hp_data h"]
    by (auto simp: filled_def set_index_def nth_append less_Suc_eq fun_upd_def)
  have "parent_index j \<noteq> ?n" if "j < Suc ?n" "0 < j" for j
    using that parent_lt[of j] by simp
  then have up: "up_hole m ?n (hp_data ?h)"
    using assms(1) parent_lt less_trans
    by (fastforce simp: up_hole_def grand_ok_def heap_inv_def nth_append less_Suc_eq)
  obtain b h' where r: "update_up m ?n ?h = (b, h')" by fastforce
  have p: "heap_push m a h = h'" using r by (simp add: heap_push_def Let_def)
  have ok: "filled m (add_mset a M) f h' \<and> (b \<longrightarrow> heap_inv m (hp_data h')) \<and>
      (\<not> b \<longrightarrow> h' = ?h \<and> (?n = 0 \<or> le (hp_data ?h ! parent_index ?n) (hp_data ?h ! ?n)))"
    using update_up_ok[OF r f] up by simp
  then show "filled m (add_mset a M) f (heap_push m a h)" using p by simp
  show "heap_inv m (hp_data (heap_push m a h))"
    using ok p up_hole_done[OF up] by (cases b) auto
qed

lemma butlast_move_almost:
  assumes "heap_inv m d" and "i + 1 < length d"
  shows "almost_heap m i (butlast (d[i := last d]))"
proof -
  have nth: "butlast (d[i := last d]) ! j = (if j = i then last d else d ! j)" if "j < length d - 1" for j
    using that assms(2) by (auto simp: nth_butlast)
  have par: "parent_index j < length d - 1" if "j < length d - 1" for j
    using that by simp
  have edge: "le (d ! parent_index j) (d ! j)" if "0 < j" "j < length d - 1" for j
    using assms(1) that by (auto simp: heap_inv_def)
  have "le (d ! parent_index i) (d ! j)" if "0 < i" "0 < j" "j < length d - 1" "parent_index j = i" for j
    using above_trans[of "d ! parent_index i" "d ! i" "d ! j"] edge[of i] edge[of j] that assms(2) by simp
  then show ?thesis
    using edge nth par parent_neq_self by (auto simp: almost_heap_def grand_ok_def)
qed

lemma filled_remove:
  assumes "filled m M f h" and "i + 1 < length (hp_data h)" and a: "a = hp_data h ! i"
  defines "h1 \<equiv> h\<lparr>hp_idx := set_index m a (- 1) (hp_idx h)\<rparr>"
  defines "h2 \<equiv> move_to m i (hp_data h1 ! (length (hp_data h) - 1)) h1"
  shows "filled m (M - {#a#}) (f(a := - 1)) (h2\<lparr>hp_data := butlast (hp_data h2)\<rparr>)"
proof -
  let ?d = "hp_data h" and ?n = "length (hp_data h)"
  let ?d' = "butlast (?d[i := ?d ! (?n - 1)])"
  have ne: "?d \<noteq> []" using assms(2) by auto
  have dec: "?d = butlast ?d @ [last ?d]" using ne by simp
  have lst: "?d ! (?n - 1) = last ?d" using ne by (simp add: last_conv_nth)
  have in': "i \<noteq> ?n - 1" using assms(2) by linarith
  then have d': "?d' = (butlast ?d)[i := last ?d]"
    using lst by (simp add: butlast_list_update)
  have i: "i < length (butlast ?d)" "butlast ?d ! i = a"
    using assms(2) a by (auto simp: nth_butlast)
  have msd: "M = add_mset (last ?d) (mset (butlast ?d))"
    using assms(1) dec by (metis filled_def mset_append mset_single_iff union_mset_add_mset_right add.right_neutral mset.simps)
  have ms: "mset ?d' = M - {#a#}"
    using i msd nth_mem[OF i(1)] unfolding d' by (simp add: mset_update)
  have nth: "?d' ! j = (if j = i then last ?d else ?d ! j)" if "j < ?n - 1" for j
    using that in' lst by (auto simp: nth_butlast)
  show ?thesis
  proof (cases "hm_index m")
    case False
    then show ?thesis
      using assms(1) ms by (auto simp: filled_def h1_def h2_def set_index_def)
  next
    case True
    then have dist: "distinct ?d" and idx: "\<And>j. j < ?n \<Longrightarrow> hp_idx h (?d ! j) = int j"
      using assms(1) by (auto simp: filled_def)
    have "distinct (butlast ?d @ [last ?d])" using dist ne by simp
    then have "distinct ?d'" unfolding d' by (intro distinct_list_update) auto
    moreover
    have "?d ! j \<noteq> a \<and> (j < ?n - 1 \<longrightarrow> ?d ! j \<noteq> ?d ! (?n - 1))" if "j < ?n" "j \<noteq> i" for j
      using that assms(2) a nth_eq_iff_index_eq[OF dist, of j i] nth_eq_iff_index_eq[OF dist, of j "?n - 1"] by simp
    moreover have "last ?d \<noteq> a"
      using dist in' a lst assms(2) nth_eq_iff_index_eq[OF dist, of "?n - 1" i] by auto
    moreover have "x \<notin> set ?d" if "x \<notin># mset ?d - {#a#}" "x \<noteq> a" for x
      using that by (simp add: in_diff_count not_in_iff)
    moreover have "last ?d \<in> set ?d" using ne by simp
    ultimately show ?thesis
      using True assms(1) ms nth idx lst in'
      by (auto simp: filled_def h1_def h2_def set_index_def)
  qed
qed

lemma remove_at_ok:
  assumes "heap_inv m (hp_data h)" and "filled m M f h" and "i + 1 < length (hp_data h)"
  defines "h1 \<equiv> h\<lparr>hp_idx := set_index m (hp_data h ! i) (- 1) (hp_idx h)\<rparr>"
  defines "h2 \<equiv> move_to m i (hp_data h1 ! (length (hp_data h) - 1)) h1"
  defines "h3 \<equiv> h2\<lparr>hp_data := butlast (hp_data h2)\<rparr>"
  shows "filled m (M - {#hp_data h ! i#}) (f(hp_data h ! i := - 1)) h3"
    and "almost_heap m i (hp_data h3)" and "i < length (hp_data h3)"
proof -
  show "filled m (M - {#hp_data h ! i#}) (f(hp_data h ! i := - 1)) h3"
    using filled_remove[OF assms(2,3) refl] by (simp add: h1_def h2_def h3_def)
  have "hp_data h \<noteq> []" using assms(3) by auto
  then show "almost_heap m i (hp_data h3)"
    using butlast_move_almost[OF assms(1,3)] by (simp add: h1_def h2_def h3_def last_conv_nth)
  show "i < length (hp_data h3)" using assms(3) by (simp add: h1_def h2_def h3_def)
qed

lemma almost_heap_0: "almost_heap m 0 d \<Longrightarrow> down_hole m 0 d"
  by (auto simp: almost_heap_def down_hole_def)

lemma filled_last:
  assumes "filled m M f h" and "i + 1 = length (hp_data h)"
  shows "filled m (M - {#hp_data h ! i#}) (f(hp_data h ! i := - 1))
           (h\<lparr>hp_idx := set_index m (hp_data h ! i) (- 1) (hp_idx h), hp_data := butlast (hp_data h)\<rparr>)"
proof -
  obtain xs x where d: "hp_data h = xs @ [x]"
    using assms(2) by (cases "hp_data h" rule: rev_cases) auto
  then have i: "i = length xs" using assms(2) by simp
  have "hp_idx h (xs ! j) = int j" if "hm_index m" "j < length xs" for j
    using assms(1) that d by (auto simp: filled_def nth_append dest!: spec[of _ j])
  moreover have "M = add_mset x (mset xs)" "hm_index m \<Longrightarrow> distinct (xs @ [x])"
    using assms(1) d by (auto simp: filled_def)
  moreover have "xs ! j \<noteq> x" if "hm_index m" "j < length xs" for j
    using calculation(3)[OF that(1)] that(2) nth_mem[of j xs] by auto
  ultimately show ?thesis
    using assms(1) d i by (auto simp: filled_def set_index_def)
qed

lemma heap_inv_butlast: "heap_inv m d \<Longrightarrow> heap_inv m (butlast d)"
  by (auto simp: heap_inv_def nth_butlast)

lemma remove_top_ok:
  assumes "heap_inv m (hp_data h)" and "filled m M f h" and ne: "hp_data h \<noteq> []"
  obtains h' where "heap_remove_top m h = Some (True, h')" and "heap_inv m (hp_data h')"
    and "filled m (M - {#hp_data h ! 0#}) (f(hp_data h ! 0 := - 1)) h'"
proof (cases "length (hp_data h) = 1")
  case True
  then show ?thesis
    using filled_last[OF assms(2), of 0] that heap_inv_butlast[OF assms(1)]
    by (auto simp: heap_remove_top_def Let_def)
next
  case False
  then have l: "0 + 1 < length (hp_data h)"
    using ne by (cases "hp_data h") auto
  let ?h1 = "h\<lparr>hp_idx := set_index m (hp_data h ! 0) (- 1) (hp_idx h)\<rparr>"
  let ?h2 = "move_to m 0 (hp_data ?h1 ! (length (hp_data h) - 1)) ?h1"
  let ?h3 = "?h2\<lparr>hp_data := butlast (hp_data ?h2)\<rparr>"
  note r = remove_at_ok[OF assms(1,2) l]
  obtain b h' where d: "update_down m 0 ?h3 = Some (b, h')"
    and f: "filled m (M - {#hp_data h ! 0#}) (f(hp_data h ! 0 := - 1)) h'"
    and inv: "heap_inv m (hp_data h')"
    using update_down_ok[OF r(1) almost_heap_0[OF r(2)]] .
  have "heap_remove_top m h = Some (True, h')"
    using False ne d unfolding heap_remove_top_def Let_def by simp
  then show ?thesis using inv f by (rule that)
qed

lemma remove_ok:
  assumes "heap_inv m (hp_data h)" and "filled m M f h" and "hm_index m" and "a \<in># M"
  obtains h' where "heap_remove m a h = Some h'" and "heap_inv m (hp_data h')"
    and "filled m (M - {#a#}) (f(a := - 1)) h'"
proof -
  have "a \<in> set (hp_data h)" using assms(2,4) by (auto simp: filled_def)
  then obtain i where i: "i < length (hp_data h)" "hp_data h ! i = a"
    by (auto simp: in_set_conv_nth)
  then have idx: "hp_idx h a = int i" using assms(2,3) by (auto simp: filled_def)
  show ?thesis
  proof (cases "i + 1 = length (hp_data h)")
    case True
    then show ?thesis
      using filled_last[OF assms(2) True] that heap_inv_butlast[OF assms(1)] i idx assms(3)
      by (auto simp: heap_remove_def get_index_def is_same_def Let_def)
  next
    case False
    then have l: "i + 1 < length (hp_data h)" using i by simp
    let ?h1 = "h\<lparr>hp_idx := set_index m (hp_data h ! i) (- 1) (hp_idx h)\<rparr>"
    let ?h2 = "move_to m i (hp_data ?h1 ! (length (hp_data h) - 1)) ?h1"
    let ?h3 = "?h2\<lparr>hp_data := butlast (hp_data ?h2)\<rparr>"
    note r = remove_at_ok[OF assms(1,2) l]
    obtain h' where u: "priv_update m i ?h3 = Some h'"
      and f: "filled m (M - {#hp_data h ! i#}) (f(hp_data h ! i := - 1)) h'"
      and inv: "heap_inv m (hp_data h')"
      using priv_update_ok[OF r(1,3,2)] .
    have "heap_remove m a h = Some h'"
      using u i idx assms(3) False unfolding heap_remove_def get_index_def is_same_def Let_def by simp
    then show ?thesis using f inv i(2) that by simp
  qed
qed

lemma update_ok:
  assumes "filled m M f h" and "hm_index m" and i: "i < length (hp_data h)" and "almost_heap m i (hp_data h)"
  obtains h' where "heap_update m (hp_data h ! i) h = Some h'" and "heap_inv m (hp_data h')" and "filled m M f h'"
proof -
  have "hp_idx h (hp_data h ! i) = int i" using assms(1-3) by (auto simp: filled_def)
  then show ?thesis
    using priv_update_ok[OF assms(1,3,4)] that assms(2,3)
    by (auto simp: heap_update_def get_index_def is_same_def)
qed

lemma top_le:
  assumes "heap_inv m d" and "j < length d"
  shows "le (d ! 0) (d ! j)"
  using assms(2)
proof (induction j rule: less_induct)
  case (less j)
  show ?case
  proof (cases "j = 0")
    case False
    then show ?thesis
      using less assms(1) above_trans[of "d ! 0" "d ! parent_index j" "d ! j"] parent_lt[of j]
      by (auto simp: heap_inv_def)
  qed simp
qed

lemma heap_ok_filled:
  "heap_ok m h \<longleftrightarrow> heap_inv m (hp_data h) \<and> filled m (mset (hp_data h)) (\<lambda>_. - 1) h"
  by (auto simp: heap_ok_def index_inv_def filled_def)

lemma heap_ok_intro:
  "heap_inv m (hp_data h) \<Longrightarrow> filled m M f h \<Longrightarrow> f = (\<lambda>_. - 1) \<Longrightarrow> heap_ok m h \<and> mset (hp_data h) = M"
  by (auto simp: heap_ok_filled filled_def)

lemma push_heap_ok:
  assumes "heap_ok m h" and "hm_index m \<Longrightarrow> a \<notin> set (hp_data h)"
  shows "heap_ok m (heap_push m a h)" and "mset (hp_data (heap_push m a h)) = add_mset a (mset (hp_data h))"
  using heap_ok_intro[OF push_ok[of h "mset (hp_data h)" "\<lambda>_. - 1" a]] assms
  by (auto simp: heap_ok_filled)

lemma remove_top_heap_ok:
  assumes "heap_ok m h" and "hp_data h \<noteq> []"
  obtains h' where "heap_remove_top m h = Some (True, h')" and "heap_ok m h'"
    and "mset (hp_data h') = mset (hp_data h) - {#hp_data h ! 0#}"
proof -
  have "heap_inv m (hp_data h)" "filled m (mset (hp_data h)) (\<lambda>_. - 1) h"
    using assms(1) by (auto simp: heap_ok_filled)
  from remove_top_ok[OF this assms(2)] show ?thesis
    using that heap_ok_intro by (metis fun_upd_idem)
qed

lemma remove_heap_ok:
  assumes "heap_ok m h" and "hm_index m" and "a \<in> set (hp_data h)"
  obtains h' where "heap_remove m a h = Some h'" and "heap_ok m h'"
    and "mset (hp_data h') = mset (hp_data h) - {#a#}"
proof -
  have "heap_inv m (hp_data h)" "filled m (mset (hp_data h)) (\<lambda>_. - 1) h" "a \<in># mset (hp_data h)"
    using assms(1,3) by (auto simp: heap_ok_filled)
  from remove_ok[OF this(1,2) assms(2) this(3)] show ?thesis
    using that heap_ok_intro by (metis fun_upd_idem)
qed

end

lemmas heap_ok_defs = heap_ok_def heap_inv_def index_inv_def

section \<open>The contract of a priority queue\<close>

text \<open>
  What the owners of a heap rely on: the timer queues of the schedulers look at the top, remove it
  while it is expired (\<open>drain_while\<close>, at most \<open>n\<close> times), and insert. The lemmas inside are proved once for every provider.
\<close>

primrec drain_while :: "('q \<Rightarrow> 'a option) \<Rightarrow> ('q \<Rightarrow> (bool \<times> 'q) option) \<Rightarrow> ('a \<Rightarrow> bool) \<Rightarrow> nat \<Rightarrow> 'q \<Rightarrow>
    ('a list \<times> 'q) option" where
  "drain_while get del P 0 q = Some ([], q)"
| "drain_while get del P (Suc n) q =
    (case get q of
       None \<Rightarrow> Some ([], q)
     | Some a \<Rightarrow>
         if P a then do { (_, q') \<leftarrow> del q; (as, q'') \<leftarrow> drain_while get del P n q'; Some (a # as, q'') }
         else Some ([], q))"

locale prio_queue =
  fixes le :: "'a \<Rightarrow> 'a \<Rightarrow> bool"
    and elems :: "'q \<Rightarrow> 'a multiset"
    and inv :: "'q \<Rightarrow> bool"
    and fresh :: "'a \<Rightarrow> 'q \<Rightarrow> bool"
    and get :: "'q \<Rightarrow> 'a option"
    and ins :: "'a \<Rightarrow> 'q \<Rightarrow> 'q"
    and del :: "'q \<Rightarrow> (bool \<times> 'q) option"
  assumes get_None: "inv q \<Longrightarrow> get q = None \<longleftrightarrow> elems q = {#}"
    and get_Some: "inv q \<Longrightarrow> get q = Some a \<Longrightarrow> a \<in># elems q \<and> (\<forall>b \<in># elems q. le a b)"
    and del_Some: "inv q \<Longrightarrow> get q = Some a \<Longrightarrow>
      \<exists>q'. del q = Some (True, q') \<and> inv q' \<and> elems q' = elems q - {#a#}"
    and del_None: "inv q \<Longrightarrow> get q = None \<Longrightarrow> del q = Some (False, q)"
    and ins: "inv q \<Longrightarrow> fresh a q \<Longrightarrow> inv (ins a q) \<and> elems (ins a q) = add_mset a (elems q)"
begin

lemma drain_ok:
  assumes "inv q" and "size (elems q) \<le> n" and "\<And>a b. le a b \<Longrightarrow> P b \<Longrightarrow> P a"
  shows "\<exists>as q'. drain_while get del P n q = Some (as, q') \<and> inv q' \<and> sorted_wrt le as \<and>
           mset as = filter_mset P (elems q) \<and> elems q' = filter_mset (\<lambda>a. \<not> P a) (elems q)"
  using assms(1,2)
proof (induction n arbitrary: q)
  case 0
  then show ?case by auto
next
  case (Suc n)
  show ?case
  proof (cases "get q")
    case None
    then have "elems q = {#}" using get_None[OF Suc.prems(1)] by simp
    with None show ?thesis using Suc.prems by simp
  next
    case (Some a)
    note g = get_Some[OF Suc.prems(1) Some]
    show ?thesis
    proof (cases "P a")
      case False
      then have none: "\<not> P b" if "b \<in># elems q" for b using g that assms(3) by blast
      then have "filter_mset P (elems q) = {#}" "filter_mset (\<lambda>a. \<not> P a) (elems q) = elems q"
        using filter_mset_cong[of "elems q" "elems q" P "\<lambda>_. False"]
          filter_mset_cong[of "elems q" "elems q" "\<lambda>a. \<not> P a" "\<lambda>_. True"] by auto
      then show ?thesis using Suc.prems Some False by auto
    next
      case True
      obtain q1 where q1: "del q = Some (True, q1)" "inv q1" "elems q1 = elems q - {#a#}"
        using del_Some[OF Suc.prems(1) Some] by blast
      then have "size (elems q1) \<le> n"
        using Suc.prems(2) g by (simp add: size_Diff_singleton)
      from Suc.IH[OF q1(2) this] obtain as q' where
        IH: "drain_while get del P n q1 = Some (as, q')" "inv q'" "sorted_wrt le as"
          "mset as = filter_mset P (elems q1)" "elems q' = filter_mset (\<lambda>a. \<not> P a) (elems q1)" by blast
      have el: "elems q = add_mset a (elems q1)" using q1(3) g by simp
      have "\<forall>b \<in> set as. le a b"
        using IH(4) el g by (metis filter_mset_eq_conv mset_subset_eqD set_mset_mset union_single_eq_member insert_iff set_mset_add_mset_insert)
      with IH el q1(1) Some True show ?thesis by auto
    qed
  qed
qed

end

section \<open>The heap is a priority queue\<close>

sublocale heap_order \<subseteq> pq: prio_queue "hm_above m" "\<lambda>h. mset (hp_data h)" "heap_ok m"
  "\<lambda>a h. hm_index m \<longrightarrow> a \<notin> set (hp_data h)" heap_get_top "heap_push m" "heap_remove_top m"
proof (unfold_locales, goal_cases)
  case (1 q)
  then show ?case by (simp add: heap_get_top_def)
next
  case (2 q a)
  then have "hp_data q \<noteq> []" "a = hp_data q ! 0" by (auto simp: heap_get_top_def split: if_splits)
  then show ?case using 2 top_le[of "hp_data q"] by (auto simp: heap_ok_def in_set_conv_nth)
next
  case (3 q a)
  then have "hp_data q \<noteq> []" "a = hp_data q ! 0" by (auto simp: heap_get_top_def split: if_splits)
  then show ?case using 3 remove_top_heap_ok[of q] by metis
next
  case (4 q)
  then show ?case by (simp add: heap_get_top_def heap_remove_top_def split: if_splits)
next
  case (5 q a)
  then show ?case using push_heap_ok[of q a] by simp
qed

context heap_order begin

lemmas heap_drain = pq.drain_ok

end

definition min_methods :: "('a \<Rightarrow> 'k::linorder) \<Rightarrow> bool \<Rightarrow> 'a heap_methods" where
  "min_methods key ix = \<lparr>hm_above = min_is_left_above key, hm_index = ix\<rparr>"

definition max_methods :: "('a \<Rightarrow> 'k::linorder) \<Rightarrow> bool \<Rightarrow> 'a heap_methods" where
  "max_methods key ix = \<lparr>hm_above = max_is_left_above key, hm_index = ix\<rparr>"

lemma methods_sel [simp]:
  "hm_above (min_methods key ix) a b \<longleftrightarrow> key a \<le> key b"
  "hm_above (max_methods key ix) a b \<longleftrightarrow> key b \<le> key a"
  "hm_index (min_methods key ix) = ix" "hm_index (max_methods key ix) = ix"
  by (auto simp: min_methods_def max_methods_def min_is_left_above_def max_is_left_above_def)

interpretation min_heap: heap_order "min_methods key ix" for key :: "'a \<Rightarrow> 'k::linorder" and ix
  by unfold_locales auto

interpretation max_heap: heap_order "max_methods key ix" for key :: "'a \<Rightarrow> 'k::linorder" and ix
  by unfold_locales auto

section \<open>Correctness\<close>

text \<open>
  C32. \<^verbatim>\<open>Push\<close>: for every order of the \<^verbatim>\<open>Methods\<close> contract, pushing an element that is not stored
  keeps the heap property and the index fields and adds exactly that element.
\<close>
theorem heap_push_correct:
  assumes "heap_order m" and "heap_ok m h" and "hm_index m \<longrightarrow> a \<notin> set (hp_data h)"
  shows "heap_ok m (heap_push m a h) \<and>
         mset (hp_data (heap_push m a h)) = add_mset a (mset (hp_data h)) \<and>
         heap_count (heap_push m a h) = heap_count h + 1"
  using heap_order.push_heap_ok[OF assms(1,2), of a] assms(3)
  by (auto simp: heap_count_def simp flip: size_mset)

lemma heap_push_correct_witness:
  defines "h \<equiv> \<lparr>hp_data = [2, 5, 3 :: nat], hp_idx = (\<lambda>_. - 1)(2 := 0, 5 := 1, 3 := 2)\<rparr>"
  shows "heap_ok (min_methods id True) (heap_push (min_methods id True) 1 h) \<and>
         hp_data (heap_push (min_methods id True) 1 h) = [1, 2, 3, 5]"
proof -
  have "heap_ok (min_methods id True) h"
    by (simp add: heap_ok_defs h_def less_Suc_eq parent_index_def)
  then have "heap_ok (min_methods id True) (heap_push (min_methods id True) 1 h)"
    using heap_push_correct[OF min_heap.heap_order_axioms, of id True h 1] by (simp add: h_def)
  moreover have "hp_data (heap_push (min_methods id True) 1 h) = [1, 2, 3, 5]"
    by (simp add: h_def heap_push_def Let_def update_up_def up_loop.simps parent_index_def set_index_def)
  ultimately show ?thesis ..
qed

text \<open>
  \<^verbatim>\<open>Pop\<close> and \<^verbatim>\<open>RemoveTop\<close>: on a non-empty heap no assertion fails, the value handed out is above
  every stored element, exactly that element leaves, its index field becomes \<open>-1\<close>, and the heap
  stays valid.
\<close>
theorem heap_pop_correct:
  assumes "heap_order m" and "heap_ok m h" and "hp_data h \<noteq> []"
  shows "\<exists>a h'. heap_pop m h = Some (Some a, h') \<and> heap_remove_top m h = Some (True, h') \<and>
           heap_get_top h = Some a \<and> (\<forall>b \<in> set (hp_data h). hm_above m a b) \<and>
           mset (hp_data h') = mset (hp_data h) - {#a#} \<and> heap_ok m h' \<and>
           (hm_index m \<longrightarrow> hp_idx h' a = - 1)"
proof -
  obtain h' where h': "heap_remove_top m h = Some (True, h')" "heap_ok m h'"
      "mset (hp_data h') = mset (hp_data h) - {#hp_data h ! 0#}"
    using heap_order.remove_top_heap_ok[OF assms] by blast
  have "\<forall>b \<in> set (hp_data h). hm_above m (hp_data h ! 0) b"
    using heap_order.top_le[OF assms(1)] assms(2) by (auto simp: heap_ok_def in_set_conv_nth)
  moreover have "hp_idx h' (hp_data h ! 0) = - 1" if "hm_index m"
  proof -
    have "hp_data h ! 0 \<notin># mset (hp_data h')"
      using that assms(2) h'(3) by (simp add: heap_ok_def index_inv_def distinct_count_atmost_1 in_diff_count)
    then show ?thesis using h'(2) that by (auto simp: heap_ok_def index_inv_def)
  qed
  ultimately show ?thesis
    using h' assms(3) by (auto simp: heap_pop_def heap_get_top_def)
qed

lemma heap_pop_correct_witness:
  defines "h \<equiv> \<lparr>hp_data = [2, 5, 3 :: nat], hp_idx = (\<lambda>_. - 1)(2 := 0, 5 := 1, 3 := 2)\<rparr>"
  shows "\<exists>h'. heap_pop (min_methods id True) h = Some (Some 2, h') \<and> heap_ok (min_methods id True) h' \<and>
              mset (hp_data h') = {#3, 5#}"
proof -
  have "heap_ok (min_methods id True) h"
    by (simp add: heap_ok_defs h_def less_Suc_eq parent_index_def)
  then show ?thesis
    using heap_pop_correct[OF min_heap.heap_order_axioms, of id True h]
    by (auto simp: h_def heap_get_top_def)
qed

text \<open>
  \<^verbatim>\<open>Remove\<close> with the index: any stored element is found through its index field without an
  assertion failing, exactly it leaves, its index field becomes \<open>-1\<close>, and the heap stays valid.
\<close>
theorem heap_remove_correct:
  assumes "heap_order m" and "heap_ok m h" and "hm_index m" and "a \<in> set (hp_data h)"
  shows "\<exists>h'. heap_remove m a h = Some h' \<and> heap_ok m h' \<and>
           mset (hp_data h') = mset (hp_data h) - {#a#} \<and> hp_idx h' a = - 1"
proof -
  obtain h' where h': "heap_remove m a h = Some h'" "heap_ok m h'"
      "mset (hp_data h') = mset (hp_data h) - {#a#}"
    using heap_order.remove_heap_ok[OF assms] by blast
  have "a \<notin># mset (hp_data h')"
    using assms(2,3,4) h'(3) by (simp add: heap_ok_def index_inv_def distinct_count_atmost_1 in_diff_count)
  then have "a \<notin> set (hp_data h')" by simp
  with h' show ?thesis using assms(3) by (auto simp: heap_ok_def index_inv_def)
qed

lemma heap_remove_correct_witness:
  defines "h \<equiv> \<lparr>hp_data = [2, 5, 3, 7 :: nat], hp_idx = (\<lambda>_. - 1)(2 := 0, 5 := 1, 3 := 2, 7 := 3)\<rparr>"
  shows "\<exists>h'. heap_remove (min_methods id True) 5 h = Some h' \<and> heap_ok (min_methods id True) h' \<and>
              mset (hp_data h') = {#2, 3, 7#}"
proof -
  have "heap_ok (min_methods id True) h"
    by (simp add: heap_ok_defs h_def less_Suc_eq parent_index_def)
  then show ?thesis
    using heap_remove_correct[OF min_heap.heap_order_axioms, of id True h 5]
    by (auto simp: h_def add_mset_commute)
qed

text \<open>
  \<^verbatim>\<open>Update\<close>: after the key of one stored element changed (the order \<open>m'\<close> agrees with the old one
  \<open>m\<close> on all other elements), updating it finds it, restores the heap for the new order and
  neither loses nor adds an element.
\<close>
theorem heap_update_correct:
  assumes "heap_order m" and "heap_order m'" and "heap_ok m h" and "hm_index m" and "hm_index m'"
    and "\<forall>x y. x \<noteq> a \<and> y \<noteq> a \<longrightarrow> hm_above m' x y = hm_above m x y" and "a \<in> set (hp_data h)"
  shows "\<exists>h'. heap_update m' a h = Some h' \<and> heap_ok m' h' \<and> mset (hp_data h') = mset (hp_data h)"
proof -
  let ?d = "hp_data h"
  obtain i where i: "i < length ?d" "?d ! i = a" using assms(7) by (auto simp: in_set_conv_nth)
  have dist: "distinct ?d" and inv: "heap_inv m ?d"
    using assms(3,4) by (auto simp: heap_ok_def index_inv_def)
  have ne: "?d ! j \<noteq> a" if "j < length ?d" "j \<noteq> i" for j
    using that dist i nth_eq_iff_index_eq[of ?d j i] by simp
  have edge: "hm_above m (?d ! parent_index j) (?d ! j)" if "j < length ?d" "0 < j" for j
    using inv that by (simp add: heap_inv_def)
  have grand: "hm_above m (?d ! parent_index i) (?d ! j)" if "j < length ?d" "0 < j" "parent_index j = i" "0 < i" for j
    using heap_order.above_trans[OF assms(1) edge[of i]] edge[of j] that i by simp
  have "almost_heap m' i ?d"
    using edge grand assms(6) ne parent_neq_self i
    unfolding almost_heap_def grand_ok_def by (metis parent_lt_length)
  moreover have "filled m' (mset ?d) (\<lambda>_. - 1) h"
    using assms(3-5) by (auto simp: heap_ok_def index_inv_def filled_def)
  ultimately show ?thesis
    using heap_order.update_ok[OF assms(2) _ assms(5) i(1)] i(2) heap_order.heap_ok_intro[OF assms(2)] by metis
qed

lemma heap_update_correct_witness:
  defines "h \<equiv> \<lparr>hp_data = [2, 5, 3, 7 :: nat], hp_idx = (\<lambda>_. - 1)(2 := 0, 5 := 1, 3 := 2, 7 := 3)\<rparr>"
  defines "m' \<equiv> min_methods (id(2 := 6)) True"
  shows "\<exists>h'. heap_update m' 2 h = Some h' \<and> heap_ok m' h' \<and> mset (hp_data h') = {#2, 3, 5, 7#}"
proof -
  have "heap_ok (min_methods id True) h"
    by (simp add: heap_ok_defs h_def less_Suc_eq parent_index_def)
  then show ?thesis
    using heap_update_correct[OF min_heap.heap_order_axioms min_heap.heap_order_axioms, of id True h "id(2 := 6)" True 2]
    by (auto simp: h_def m'_def add_mset_commute)
qed

primrec pop_all :: "'a heap_methods \<Rightarrow> nat \<Rightarrow> 'a heap \<Rightarrow> ('a list \<times> 'a heap) option" where
  "pop_all m 0 h = Some ([], h)"
| "pop_all m (Suc n) h =
    do { (r, h') \<leftarrow> heap_pop m h;
         case r of None \<Rightarrow> Some ([], h')
                 | Some a \<Rightarrow> do { (as, h'') \<leftarrow> pop_all m n h'; Some (a # as, h'') } }"

lemma pop_all_drain: "pop_all m n h = drain_while heap_get_top (heap_remove_top m) (\<lambda>_. True) n h"
proof (induction n arbitrary: h)
  case (Suc n)
  then show ?case
    by (cases "hp_data h = []"; cases "heap_remove_top m h") (auto simp: heap_pop_def heap_get_top_def)
qed simp

text \<open>
  C33. Popping until the heap is empty hands out all elements in the order of the heap: the loop of
  \<^verbatim>\<open>Pop\<close> calls is a sort.
\<close>
theorem heap_sorts:
  assumes "heap_order m" and "heap_ok m h"
  shows "\<exists>as h'. pop_all m (heap_count h) h = Some (as, h') \<and> hp_data h' = [] \<and> heap_ok m h' \<and>
           mset as = mset (hp_data h) \<and> sorted_wrt (hm_above m) as"
  using heap_order.heap_drain[OF assms, of "heap_count h" "\<lambda>_. True"]
  by (auto simp: pop_all_drain heap_count_def)

lemma heap_sorts_witness:
  defines "h \<equiv> \<lparr>hp_data = [2, 5, 3, 7 :: nat], hp_idx = (\<lambda>_. - 1)(2 := 0, 5 := 1, 3 := 2, 7 := 3)\<rparr>"
  shows "\<exists>as h'. pop_all (min_methods id True) (heap_count h) h = Some (as, h') \<and> sorted as \<and> mset as = {#2, 3, 5, 7#}"
proof -
  have "heap_ok (min_methods id True) h"
    by (simp add: heap_ok_defs h_def less_Suc_eq parent_index_def)
  moreover have "hm_above (min_methods id True) = ((\<le>) :: nat \<Rightarrow> nat \<Rightarrow> bool)"
    by (intro ext) simp
  ultimately show ?thesis
    using heap_sorts[OF min_heap.heap_order_axioms, of id True h]
    by (fastforce simp: h_def add_mset_commute)
qed

text \<open>
  The 32 bit index computations: below \<open>2 ^ 31\<close> elements, which is what the \<^verbatim>\<open>int32_t\<close> index field
  can hold, \<^verbatim>\<open>PrivParentIndex\<close> of a non-root and \<^verbatim>\<open>PrivLeftChildIndex\<close> are exact, do not wrap around,
  and are inverse to each other.
\<close>
lemma index_u32_exact:
  assumes "i < 2 ^ 31"
  shows "unat (left_child_index_u32 (of_nat i)) = left_child_index i \<and>
         (0 < i \<longrightarrow> unat (parent_index_u32 (of_nat i)) = parent_index i) \<and>
         parent_index (left_child_index i) = i \<and> parent_index (left_child_index i + 1) = i"
proof -
  have i: "unat (of_nat i :: u32) = i"
    using assms by (simp add: unat_of_nat take_bit_nat_eq_self)
  have "unat (left_child_index_u32 (of_nat i)) = left_child_index i"
    using assms by (simp add: left_child_index_u32_def left_child_index_def unat_word_ariths push_bit_eq_mult i take_bit_eq_mod)
  moreover have "unat (parent_index_u32 (of_nat i)) = parent_index i" if "0 < i"
  proof -
    have "unat (of_nat i - 1 :: u32) = i - 1"
      using that assms i by (subst unat_sub_if') (auto simp: word_le_nat_alt)
    then show ?thesis
      by (simp add: parent_index_u32_def parent_index_def drop_bit_eq_div unat_div)
  qed
  ultimately show ?thesis by (simp add: parent_index_def left_child_index_def)
qed

lemma index_u32_exact_witness:
  "unat (left_child_index_u32 5) = 11 \<and> unat (parent_index_u32 5) = 2"
  using index_u32_exact[of 5] by (simp add: left_child_index_def parent_index_def)

end
