(* ===== verification/Intrusive_Lists.thy ===== *)
theory Intrusive_Lists
  imports Serverbox_Prelude
begin

text \<open>
  What the two intrusive list containers share. Their objects and elements live in one store; the
  abstraction is a map \<open>F\<close> from list objects to the lists of elements they hold, where no element is
  in two lists. \<open>intrusive_lists\<close> is the contract of such a store: whether an object holds a list
  depends only on the object's own members and on the links of the elements of the list, so an
  operation needs to be checked on the lists it touches only. \<open>fifo_lists\<close> is the contract the users
  of a list rely on when they take it for a queue.
\<close>

section \<open>Maps of lists\<close>

definition disjoint_lists :: "('l \<Rightarrow> 'a list option) \<Rightarrow> bool" where
  "disjoint_lists F = (\<forall>l l' xs ys. l \<noteq> l' \<longrightarrow> F l = Some xs \<longrightarrow> F l' = Some ys \<longrightarrow> set xs \<inter> set ys = {})"

definition not_linked :: "('l \<Rightarrow> 'a list option) \<Rightarrow> 'a \<Rightarrow> bool" where
  "not_linked F a = (\<forall>l xs. F l = Some xs \<longrightarrow> a \<notin> set xs)"

definition lists_world :: "('st \<Rightarrow> 'l \<Rightarrow> 'a list \<Rightarrow> bool) \<Rightarrow> 'st \<Rightarrow> ('l \<Rightarrow> 'a list option) \<Rightarrow> bool" where
  "lists_world holds st F = ((\<forall>l xs. F l = Some xs \<longrightarrow> holds st l xs) \<and> disjoint_lists F)"

lemma not_linkedD: "not_linked F a \<Longrightarrow> F l = Some xs \<Longrightarrow> a \<notin> set xs"
  by (auto simp: not_linked_def)

section \<open>The contract of a store of lists\<close>

locale intrusive_lists =
  fixes holds :: "'st \<Rightarrow> 'l \<Rightarrow> 'a list \<Rightarrow> bool"
    and head :: "'st \<Rightarrow> 'l \<Rightarrow> 'h"
    and link :: "'st \<Rightarrow> 'a \<Rightarrow> 'k"
  assumes holds_frame: "holds st l xs \<Longrightarrow> head st' l = head st l \<Longrightarrow>
      (\<And>a. a \<in> set xs \<Longrightarrow> link st' a = link st a) \<Longrightarrow> holds st' l xs"
begin

abbreviation world where "world \<equiv> lists_world holds"

lemma world_list: "world st F \<Longrightarrow> F l = Some xs \<Longrightarrow> holds st l xs"
  by (simp add: lists_world_def)

lemma world_disjoint:
  "world st F \<Longrightarrow> F l = Some xs \<Longrightarrow> F l' = Some ys \<Longrightarrow> l \<noteq> l' \<Longrightarrow> set xs \<inter> set ys = {}"
  by (auto simp: lists_world_def disjoint_lists_def)

lemma world_upd:
  assumes W: "world st F"
    and l: "holds st' l ys"
    and dis: "\<And>l' zs. l' \<noteq> l \<Longrightarrow> F l' = Some zs \<Longrightarrow> set ys \<inter> set zs = {}"
    and frame: "\<And>l'. l' \<noteq> l \<Longrightarrow> head st' l' = head st l'"
    and link: "\<And>l' zs a. l' \<noteq> l \<Longrightarrow> F l' = Some zs \<Longrightarrow> a \<in> set zs \<Longrightarrow> link st' a = link st a"
  shows "world st' (F(l \<mapsto> ys))"
proof -
  have "holds st' l' zs" if "(F(l \<mapsto> ys)) l' = Some zs" for l' zs
    using that l W frame link holds_frame[of st l' zs st'] by (auto simp: lists_world_def split: if_splits)
  moreover have "disjoint_lists (F(l \<mapsto> ys))"
    using W dis by (fastforce simp: lists_world_def disjoint_lists_def)
  ultimately show ?thesis by (simp add: lists_world_def)
qed

text \<open>For an operation on one list, only its own list is left to check: its writes go to the list's
  members, to elements of the list or to new elements.\<close>

lemma world_upd_own:
  assumes W: "world st F" and l: "F l = Some xs"
    and list: "holds st' l ys"
    and frame: "\<And>l'. l' \<noteq> l \<Longrightarrow> head st' l' = head st l'"
    and link: "\<And>b. b \<notin> A \<Longrightarrow> link st' b = link st b"
    and sub: "set ys \<subseteq> set xs \<union> N" "A \<subseteq> set xs \<union> N" and N: "\<And>b. b \<in> N \<Longrightarrow> not_linked F b"
  shows "world st' (F(l \<mapsto> ys))"
proof (rule world_upd[OF W list])
  fix l' zs assume l': "l' \<noteq> l" "F l' = Some zs"
  then have "set xs \<inter> set zs = {}" "N \<inter> set zs = {}"
    using world_disjoint[OF W l l'(2)] N not_linkedD[of F _ l' zs] by auto
  then show "set ys \<inter> set zs = {}" "\<And>b. b \<in> set zs \<Longrightarrow> link st' b = link st b"
    using sub link by blast+
qed (rule frame)

text \<open>Operations on two lists, one of which may be under construction.\<close>

lemma world_upd_two:
  assumes W: "world st F" and l: "F l = Some xs \<or> F l = None \<and> xs = []" and k: "F k = Some ys" and ne: "l \<noteq> k"
    and lists: "holds st' l xs'" "holds st' k ys'"
    and frame: "\<And>l'. l' \<noteq> l \<Longrightarrow> l' \<noteq> k \<Longrightarrow> head st' l' = head st l'"
    and link: "\<And>b. b \<notin> set xs \<union> set ys \<Longrightarrow> link st' b = link st b"
    and sub: "set xs' \<union> set ys' \<subseteq> set xs \<union> set ys" "set xs' \<inter> set ys' = {}"
  shows "world st' (F(l \<mapsto> xs', k \<mapsto> ys'))"
proof -
  have dis: "set xs \<inter> set zs = {} \<and> set ys \<inter> set zs = {}" if "l' \<noteq> l" "l' \<noteq> k" "F l' = Some zs" for l' zs
    using that world_disjoint[OF W _ that(3), of l xs] world_disjoint[OF W k that(3)] l by auto
  have "holds st' l' zs" if "l' \<noteq> l" "l' \<noteq> k" "F l' = Some zs" for l' zs
    by (rule holds_frame[OF world_list[OF W that(3)]]) (use frame[OF that(1,2)] link dis[OF that] in auto)
  moreover have "disjoint_lists (F(l \<mapsto> xs', k \<mapsto> ys'))"
    unfolding disjoint_lists_def
  proof (intro allI impI)
    fix l1 l2 us vs
    assume *: "l1 \<noteq> l2" "(F(l \<mapsto> xs', k \<mapsto> ys')) l1 = Some us" "(F(l \<mapsto> xs', k \<mapsto> ys')) l2 = Some vs"
    show "set us \<inter> set vs = {}"
      using * sub ne dis[of l1 us] dis[of l2 vs] world_disjoint[OF W, of l1 us l2 vs]
      by (auto split: if_splits)
  qed
  ultimately show ?thesis using lists ne by (auto simp: lists_world_def)
qed

end

section \<open>The contract of a queue\<close>

text \<open>
  What the schedulers and queues rely on when they keep elements in intrusive lists: appending,
  taking the first element and testing for emptiness act on the lists as on mathematical ones.
\<close>

locale fifo_lists =
  fixes world :: "'st \<Rightarrow> ('l \<Rightarrow> 'a list option) \<Rightarrow> bool"
    and append_op :: "'l \<Rightarrow> 'a \<Rightarrow> 'st \<Rightarrow> 'st"
    and pop_op :: "'l \<Rightarrow> 'st \<Rightarrow> ('a \<times> 'st) option"
    and empty_op :: "'l \<Rightarrow> 'st \<Rightarrow> bool"
  assumes append_law: "world st F \<Longrightarrow> F l = Some xs \<Longrightarrow> not_linked F a \<Longrightarrow>
      world (append_op l a st) (F(l \<mapsto> xs @ [a]))"
    and pop_law: "world st F \<Longrightarrow> F l = Some (a # xs) \<Longrightarrow>
      \<exists>st'. pop_op l st = Some (a, st') \<and> world st' (F(l \<mapsto> xs))"
    and empty_law: "world st F \<Longrightarrow> F l = Some xs \<Longrightarrow> empty_op l st \<longleftrightarrow> xs = []"
    and disjoint_law: "world st F \<Longrightarrow> disjoint_lists F"

text \<open>\<^verbatim>\<open>while (!src.IsEmpty()) dst.Append(src.PopFirst());\<close> and appending many elements.\<close>

primrec transfer_loop ::
  "('l \<Rightarrow> 'a \<Rightarrow> 'st \<Rightarrow> 'st) \<Rightarrow> ('l \<Rightarrow> 'st \<Rightarrow> ('a \<times> 'st) option) \<Rightarrow> ('l \<Rightarrow> 'st \<Rightarrow> bool) \<Rightarrow>
   nat \<Rightarrow> 'l \<Rightarrow> 'l \<Rightarrow> 'st \<Rightarrow> 'st option" where
  "transfer_loop app pop em 0 src dst st = None"
| "transfer_loop app pop em (Suc n) src dst st =
    (if em src st then Some st
     else do { (a, st1) \<leftarrow> pop src st; transfer_loop app pop em n src dst (app dst a st1) })"

context fifo_lists begin

lemma not_linked_popped:
  assumes "disjoint_lists F" and "F l = Some (a # xs)" and "distinct (a # xs)"
  shows "not_linked (F(l \<mapsto> xs)) a"
  using assms unfolding not_linked_def disjoint_lists_def
  by (metis distinct.simps(2) disjoint_iff fun_upd_apply list.set_intros(1) option.inject)

lemma append_many:
  assumes "world st F" and "F l = Some xs" and "\<And>a. a \<in> set as \<Longrightarrow> not_linked F a" and "distinct as"
  shows "world (fold (append_op l) as st) (F(l \<mapsto> xs @ as))"
  using assms
proof (induction as arbitrary: st F xs)
  case Nil
  then show ?case by (simp add: fun_upd_idem)
next
  case (Cons a as)
  have "not_linked (F(l \<mapsto> xs @ [a])) b" if "b \<in> set as" for b
    using that Cons.prems(2,4) Cons.prems(3)[of b] by (auto simp: not_linked_def)
  then show ?case
    using Cons.IH[OF append_law[OF Cons.prems(1,2)], of a "xs @ [a]"] Cons.prems(3,4)
    by (simp del: fun_upd_apply add: fun_upd_same)
qed

lemma transfer_all:
  assumes "world st F" and "F src = Some xs" and "F dst = Some ys" and "src \<noteq> dst" and "distinct xs"
    and "length xs < n"
  shows "\<exists>st'. transfer_loop append_op pop_op empty_op n src dst st = Some st' \<and>
           world st' (F(src \<mapsto> [], dst \<mapsto> ys @ xs))"
  using assms
proof (induction xs arbitrary: n st F ys)
  case Nil
  then obtain n' where "n = Suc n'" by (cases n) auto
  moreover have "F(src \<mapsto> [], dst \<mapsto> ys) = F" using Nil by auto
  ultimately show ?case using Nil empty_law[OF Nil(1,2)] by (simp del: fun_upd_apply)
next
  case (Cons a xs)
  obtain n' where n: "n = Suc n'" using Cons.prems(6) by (cases n) auto
  obtain st1 where st1: "pop_op src st = Some (a, st1)" "world st1 (F(src \<mapsto> xs))"
    using pop_law[OF Cons.prems(1,2)] by blast
  have fresh: "not_linked (F(src \<mapsto> xs)) a"
    using not_linked_popped[OF disjoint_law[OF Cons.prems(1)] Cons.prems(2,5)] .
  have w: "world (append_op dst a st1) (F(src \<mapsto> xs, dst \<mapsto> ys @ [a]))"
    using append_law[OF st1(2) _ fresh, of dst ys] Cons.prems(3,4) by simp
  have "\<exists>st'. transfer_loop append_op pop_op empty_op n' src dst (append_op dst a st1) = Some st' \<and>
      world st' (F(src \<mapsto> xs, dst \<mapsto> ys @ [a], src \<mapsto> [], dst \<mapsto> (ys @ [a]) @ xs))"
    using Cons.prems n by (intro Cons.IH[OF w]) auto
  moreover have "F(src \<mapsto> xs, dst \<mapsto> ys @ [a], src \<mapsto> [], dst \<mapsto> (ys @ [a]) @ xs) = F(src \<mapsto> [], dst \<mapsto> ys @ a # xs)"
    using Cons.prems(4) by (auto simp: fun_eq_iff)
  ultimately show ?case using n st1(1) empty_law[OF Cons.prems(1,2)] by (simp del: fun_upd_apply)
qed

end

end
