(* ===== verification/Forward_List.thy ===== *)
theory Forward_List
  imports Intrusive_Lists
begin

text \<open>
  The intrusive singly linked list of \<^verbatim>\<open>mg/box/ForwardList.h\<close>.

  All lists and all elements live in one store: \<open>fl_link\<close> is the intrusive link of each element,
  \<open>fl_first\<close> and \<open>fl_last\<close> are the two members of each list object, indexed by the address of the
  object. \<^verbatim>\<open>myLastLink\<close> is a pointer to a pointer, so it is a \<open>slot\<close>: the address of a list's own
  \<^verbatim>\<open>myFirst\<close> or of an element's link. \<^verbatim>\<open>ContainerOf\<close> is only defined on the latter.

  \<open>fl_world st F\<close> is the abstraction: every list object \<open>l\<close> with \<open>F l = Some xs\<close> holds exactly \<open>xs\<close>,
  and no element is in two lists. Each operation is shown to act on \<open>F\<close> as a list operation, with
  every other list untouched. The laws of a queue are the locale \<open>fifo_lists\<close>.
\<close>

section \<open>Store\<close>

datatype ('l, 'a) slot = HeadOf 'l | LinkOf 'a

record ('l, 'a) fl_store =
  fl_link :: "'a \<Rightarrow> 'a ptr"
  fl_first :: "'l \<Rightarrow> 'a ptr"
  fl_last :: "'l \<Rightarrow> ('l, 'a) slot"

definition set_link :: "'a \<Rightarrow> 'a ptr \<Rightarrow> ('l, 'a) fl_store \<Rightarrow> ('l, 'a) fl_store" where
  "set_link a p st = st\<lparr>fl_link := (fl_link st)(a := p)\<rparr>"

definition set_first :: "'l \<Rightarrow> 'a ptr \<Rightarrow> ('l, 'a) fl_store \<Rightarrow> ('l, 'a) fl_store" where
  "set_first l p st = st\<lparr>fl_first := (fl_first st)(l := p)\<rparr>"

definition set_last :: "'l \<Rightarrow> ('l, 'a) slot \<Rightarrow> ('l, 'a) fl_store \<Rightarrow> ('l, 'a) fl_store" where
  "set_last l s st = st\<lparr>fl_last := (fl_last st)(l := s)\<rparr>"

text \<open>\<^verbatim>\<open>*slot = p\<close>\<close>

fun write_slot :: "('l, 'a) slot \<Rightarrow> 'a ptr \<Rightarrow> ('l, 'a) fl_store \<Rightarrow> ('l, 'a) fl_store" where
  "write_slot (HeadOf l) p st = set_first l p st"
| "write_slot (LinkOf a) p st = set_link a p st"

fun container_of :: "('l, 'a) slot \<Rightarrow> 'a option" where
  "container_of (HeadOf l) = None"
| "container_of (LinkOf a) = Some a"

section \<open>Operations\<close>

definition fl_clear :: "'l \<Rightarrow> ('l, 'a) fl_store \<Rightarrow> ('l, 'a) fl_store" where
  "fl_clear l st = set_last l (HeadOf l) (set_first l None st)"

definition fl_new :: "'l \<Rightarrow> ('l, 'a) fl_store \<Rightarrow> ('l, 'a) fl_store" where
  "fl_new l st = set_last l (HeadOf l) (set_first l None st)"

definition fl_new_move :: "'l \<Rightarrow> 'l \<Rightarrow> ('l, 'a) fl_store \<Rightarrow> ('l, 'a) fl_store" where
  "fl_new_move l src st =
    (let st1 = set_first l (fl_first st src) st;
         st2 = set_last l (fl_last st1 src) st1
     in fl_clear src st2)"

definition fl_new_range :: "'l \<Rightarrow> 'a ptr \<Rightarrow> 'a ptr \<Rightarrow> ('l, 'a) fl_store \<Rightarrow> ('l, 'a) fl_store" where
  "fl_new_range l fst' lst st =
    (let st1 = set_first l fst' st
     in case lst of
          Some b \<Rightarrow> write_slot (LinkOf b) None (set_last l (LinkOf b) st1)
        | None \<Rightarrow> set_last l (HeadOf l) st1)"

definition fl_prepend :: "'l \<Rightarrow> 'a \<Rightarrow> ('l, 'a) fl_store \<Rightarrow> ('l, 'a) fl_store" where
  "fl_prepend l a st =
    (let st1 = set_link a (fl_first st l) st;
         st2 = (if fl_first st1 l = None then set_last l (LinkOf a) st1 else st1)
     in set_first l (Some a) st2)"

definition fl_prepend_list :: "'l \<Rightarrow> 'l \<Rightarrow> ('l, 'a) fl_store \<Rightarrow> ('l, 'a) fl_store option" where
  "fl_prepend_list l src st =
    (case fl_first st src of
       None \<Rightarrow> Some st
     | Some _ \<Rightarrow> do {
         b \<leftarrow> container_of (fl_last st src);
         let st1 = set_link b (fl_first st l) st;
         let st2 = (if fl_first st1 l = None then set_last l (LinkOf b) st1 else st1);
         Some (fl_clear src (set_first l (fl_first st2 src) st2)) })"

definition fl_prepend_range :: "'l \<Rightarrow> 'a ptr \<Rightarrow> 'a ptr \<Rightarrow> ('l, 'a) fl_store \<Rightarrow> ('l, 'a) fl_store option" where
  "fl_prepend_range l fst' lst st =
    (case fst' of
       None \<Rightarrow> Some st
     | Some _ \<Rightarrow> do {
         b \<leftarrow> lst;
         let st1 = set_link b (fl_first st l) st;
         let st2 = (if fl_first st1 l = None then set_last l (LinkOf b) st1 else st1);
         Some (set_first l fst' st2) })"

definition fl_pop_first :: "'l \<Rightarrow> ('l, 'a) fl_store \<Rightarrow> ('a \<times> ('l, 'a) fl_store) option" where
  "fl_pop_first l st = do {
     a \<leftarrow> fl_first st l;
     let st1 = set_first l (fl_link st a) st;
     Some (a, if fl_first st1 l = None then set_last l (HeadOf l) st1 else st1) }"

definition fl_append :: "'l \<Rightarrow> 'a \<Rightarrow> ('l, 'a) fl_store \<Rightarrow> ('l, 'a) fl_store" where
  "fl_append l a st =
    (let st1 = set_link a None st;
         st2 = write_slot (fl_last st1 l) (Some a) st1
     in set_last l (LinkOf a) st2)"

definition fl_append_list :: "'l \<Rightarrow> 'l \<Rightarrow> ('l, 'a) fl_store \<Rightarrow> ('l, 'a) fl_store" where
  "fl_append_list l src st =
    (case fl_first st src of
       None \<Rightarrow> st
     | Some a \<Rightarrow>
         let st1 = write_slot (fl_last st l) (Some a) st;
             st2 = set_last l (fl_last st1 src) st1
         in fl_clear src st2)"

definition fl_append_range :: "'l \<Rightarrow> 'a ptr \<Rightarrow> 'a ptr \<Rightarrow> ('l, 'a) fl_store \<Rightarrow> ('l, 'a) fl_store option" where
  "fl_append_range l fst' lst st =
    (case fst' of
       None \<Rightarrow> Some st
     | Some a \<Rightarrow> do {
         let st1 = write_slot (fl_last st l) (Some a) st;
         b \<leftarrow> lst;
         let st2 = set_last l (LinkOf b) st1;
         Some (write_slot (fl_last st2 l) None st2) })"

definition fl_insert :: "'l \<Rightarrow> 'a ptr \<Rightarrow> 'a \<Rightarrow> ('l, 'a) fl_store \<Rightarrow> ('l, 'a) fl_store" where
  "fl_insert l prev a st =
    (case prev of
       Some p \<Rightarrow>
         let st1 = set_link a (fl_link st p) st;
             st2 = set_link p (Some a) st1
         in if fl_link st2 a = None then set_last l (LinkOf a) st2 else st2
     | None \<Rightarrow>
         if fl_first st l = None
         then let st1 = set_last l (LinkOf a) (set_first l (Some a) st)
              in write_slot (fl_last st1 l) None st1
         else set_first l (Some a) (set_link a (fl_first st l) st))"

text \<open>The loop of \<^verbatim>\<open>Reverse\<close>; a link cycle would not end, so the recursion is partial.\<close>

partial_function (option) fl_reverse_loop ::
  "'l \<Rightarrow> 'a ptr \<Rightarrow> ('l, 'a) fl_store \<Rightarrow> ('l, 'a) fl_store option" where
  "fl_reverse_loop l item st =
    (case item of
       None \<Rightarrow> Some st
     | Some a \<Rightarrow> let next = fl_link st a in fl_reverse_loop l next (fl_prepend l a st))"

definition fl_reverse :: "'l \<Rightarrow> ('l, 'a) fl_store \<Rightarrow> ('l, 'a) fl_store option" where
  "fl_reverse l st = (let item = fl_first st l in fl_reverse_loop l item (fl_clear l st))"

definition fl_pop_all :: "'l \<Rightarrow> ('l, 'a) fl_store \<Rightarrow> 'a ptr \<times> ('l, 'a) fl_store" where
  "fl_pop_all l st = (let res = fl_first st l in (res, fl_clear l st))"

definition fl_get_first :: "'l \<Rightarrow> ('l, 'a) fl_store \<Rightarrow> 'a ptr" where
  "fl_get_first l st = fl_first st l"

definition fl_get_last :: "'l \<Rightarrow> ('l, 'a) fl_store \<Rightarrow> 'a ptr option" where
  "fl_get_last l st =
    (if fl_last st l = HeadOf l then Some None else map_option Some (container_of (fl_last st l)))"

definition fl_pop_all_last :: "'l \<Rightarrow> ('l, 'a) fl_store \<Rightarrow> ('a ptr \<times> 'a ptr \<times> ('l, 'a) fl_store) option" where
  "fl_pop_all_last l st = do { let res = fl_first st l; lst \<leftarrow> fl_get_last l st; Some (res, lst, fl_clear l st) }"

definition fl_assign :: "'l \<Rightarrow> 'l \<Rightarrow> ('l, 'a) fl_store \<Rightarrow> ('l, 'a) fl_store" where
  "fl_assign l src st =
    (let st1 = set_first l (fl_first st src) st
     in if fl_first st1 l \<noteq> None then fl_clear src (set_last l (fl_last st1 src) st1)
        else set_last l (HeadOf l) st1)"

definition fl_is_empty :: "'l \<Rightarrow> ('l, 'a) fl_store \<Rightarrow> bool" where
  "fl_is_empty l st = (fl_first st l = None)"

section \<open>Iteration\<close>

text \<open>The iterator keeps the next element, so the current one may be relinked while it is visited.
  The const iterator reads the link of the current element when it is advanced.\<close>

record 'a fl_iter =
  it_pos :: "'a ptr"
  it_next :: "'a ptr"

definition fl_iter_new :: "('l, 'a) fl_store \<Rightarrow> 'a ptr \<Rightarrow> 'a fl_iter" where
  "fl_iter_new st head = \<lparr>it_pos = head, it_next = Option.bind head (fl_link st)\<rparr>"

definition fl_iter_inc :: "('l, 'a) fl_store \<Rightarrow> 'a fl_iter \<Rightarrow> 'a fl_iter" where
  "fl_iter_inc st it = \<lparr>it_pos = it_next it, it_next = Option.bind (it_next it) (fl_link st)\<rparr>"

definition fl_iter_neq :: "'a fl_iter \<Rightarrow> 'a fl_iter \<Rightarrow> bool" where
  "fl_iter_neq x y = (it_pos x \<noteq> it_pos y)"

definition fl_begin :: "'l \<Rightarrow> ('l, 'a) fl_store \<Rightarrow> 'a fl_iter" where
  "fl_begin l st = fl_iter_new st (fl_first st l)"

definition fl_end :: "'l \<Rightarrow> ('l, 'a) fl_store \<Rightarrow> 'a fl_iter" where
  "fl_end l st = fl_iter_new st None"

definition fl_citer_inc :: "('l, 'a) fl_store \<Rightarrow> 'a \<Rightarrow> 'a ptr" where
  "fl_citer_inc st a = fl_link st a"

text \<open>\<^verbatim>\<open>for (T* a : list) body(a);\<close> the visited elements are returned. Out of fuel is \<open>None\<close>.\<close>

primrec fl_for_each ::
  "nat \<Rightarrow> ('a \<Rightarrow> ('l, 'a) fl_store \<Rightarrow> ('l, 'a) fl_store) \<Rightarrow> 'a fl_iter \<Rightarrow> 'a fl_iter \<Rightarrow>
   ('l, 'a) fl_store \<Rightarrow> ('a list \<times> ('l, 'a) fl_store) option" where
  "fl_for_each 0 body it stop st = None"
| "fl_for_each (Suc n) body it stop st =
    (if fl_iter_neq it stop then do {
       a \<leftarrow> it_pos it;
       let st1 = body a st;
       (as, st2) \<leftarrow> fl_for_each n body (fl_iter_inc st1 it) stop st1;
       Some (a # as, st2) }
     else Some ([], st))"

section \<open>The abstraction\<close>

definition fl_list :: "('l, 'a) fl_store \<Rightarrow> 'l \<Rightarrow> 'a list \<Rightarrow> bool" where
  "fl_list st l xs =
    (distinct xs \<and> fl_first st l = first_or xs None \<and> lchain (fl_link st) xs None \<and>
     fl_last st l = (if xs = [] then HeadOf l else LinkOf (last xs)))"

definition fl_world :: "('l, 'a) fl_store \<Rightarrow> ('l \<Rightarrow> 'a list option) \<Rightarrow> bool" where
  "fl_world st F = lists_world fl_list st F"

lemmas store_defs = set_link_def set_first_def set_last_def

lemma fl_listI:
  "distinct xs \<Longrightarrow> fl_first st l = first_or xs None \<Longrightarrow> lchain (fl_link st) xs None \<Longrightarrow>
   fl_last st l = (if xs = [] then HeadOf l else LinkOf (last xs)) \<Longrightarrow> fl_list st l xs"
  by (simp add: fl_list_def)

lemma fl_list_cong:
  assumes "fl_list st l xs" and "fl_first st' l = fl_first st l" and "fl_last st' l = fl_last st l"
    and "\<And>a. a \<in> set xs \<Longrightarrow> fl_link st' a = fl_link st a"
  shows "fl_list st' l xs"
  using assms lchain_cong[of xs "fl_link st'" "fl_link st"] by (auto simp: fl_list_def)

interpretation fs: intrusive_lists fl_list "\<lambda>st l. (fl_first st l, fl_last st l)" fl_link
  by unfold_locales (auto intro: fl_list_cong)

lemmas fl_world_upd = fs.world_upd [folded fl_world_def]
lemmas fl_world_upd_own = fs.world_upd_own [folded fl_world_def]
lemmas fl_world_upd_two = fs.world_upd_two [folded fl_world_def]
lemmas fl_world_list = fs.world_list [folded fl_world_def]
lemmas fl_world_disjoint = fs.world_disjoint [folded fl_world_def]

section \<open>Lemmas on single operations\<close>

lemma fl_last_cases:
  assumes "fl_list st l xs"
  obtains "xs = []" "fl_last st l = HeadOf l" "fl_first st l = None"
  | ys b where "xs = ys @ [b]" "b \<notin> set ys" "distinct ys" "fl_last st l = LinkOf b"
      "fl_first st l = first_or ys (Some b)" "lchain (fl_link st) ys (Some b)" "fl_link st b = None"
  using assms by (cases xs rule: rev_cases) (auto simp: fl_list_def)

lemma append_world:
  assumes "fl_world st F" and "F l = Some xs" and "not_linked F a"
  shows "fl_world (fl_append l a st) (F(l \<mapsto> xs @ [a]))"
proof -
  have a: "a \<notin> set xs" using assms(2,3) by (rule not_linkedD[rotated])
  have L: "fl_list st l xs" using assms(1,2) by (rule fl_world_list)
  show ?thesis
    using L a
    by (intro fl_world_upd_own[OF assms(1,2), where N = "{a}" and A = "insert a (set xs)"]; cases xs rule: rev_cases)
       (use assms(3) in \<open>auto simp: fl_list_def fl_append_def store_defs Let_def\<close>)
qed

lemma prepend_world:
  assumes "fl_world st F" and "F l = Some xs" and "not_linked F a"
  shows "fl_world (fl_prepend l a st) (F(l \<mapsto> a # xs))"
proof -
  have a: "a \<notin> set xs" using assms(2,3) by (rule not_linkedD[rotated])
  have L: "fl_list st l xs" using assms(1,2) by (rule fl_world_list)
  show ?thesis
    using L a
    by (intro fl_world_upd_own[OF assms(1,2), where N = "{a}" and A = "insert a (set xs)"])
       (use assms(3) in \<open>auto simp: fl_list_def fl_prepend_def store_defs Let_def\<close>)
qed

lemma pop_first_world:
  assumes "fl_world st F" and "F l = Some (a # xs)"
  shows "\<exists>st'. fl_pop_first l st = Some (a, st') \<and> fl_world st' (F(l \<mapsto> xs))"
proof -
  have L: "fl_list st l (a # xs)" using assms(1,2) by (rule fl_world_list)
  then have "fl_pop_first l st = Some (a, snd (the (fl_pop_first l st)))"
    by (simp add: fl_list_def fl_pop_first_def Let_def)
  moreover have "fl_world (snd (the (fl_pop_first l st))) (F(l \<mapsto> xs))"
    using L
    by (intro fl_world_upd_own[OF assms(1,2), where N = "{}" and A = "{}"])
       (auto simp: fl_list_def fl_pop_first_def store_defs Let_def)
  ultimately show ?thesis by blast
qed

lemma clear_world:
  assumes "fl_world st F"
  shows "fl_world (fl_clear l st) (F(l \<mapsto> []))"
  by (intro fl_world_upd[OF assms]) (auto simp: fl_list_def fl_clear_def store_defs)

lemma insert_world:
  assumes "fl_world st F" and "F l = Some (xs @ ys)" and "not_linked F a"
  shows "fl_world (fl_insert l (last_or xs None) a st) (F(l \<mapsto> xs @ a # ys))"
proof -
  have a: "a \<notin> set xs" "a \<notin> set ys" using not_linkedD[OF assms(3,2)] by auto
  have L: "fl_list st l (xs @ ys)" using assms(1,2) by (rule fl_world_list)
  show ?thesis
  proof (cases xs rule: rev_cases)
    case Nil
    then show ?thesis
      using L a
      by (intro fl_world_upd_own[OF assms(1,2), where N = "{a}" and A = "insert a (set (xs @ ys))"])
         (use assms(3) in \<open>auto simp: fl_list_def fl_insert_def store_defs Let_def\<close>)
  next
    case (snoc zs p)
    then show ?thesis
      using L a
      by (intro fl_world_upd_own[OF assms(1,2), where N = "{a}" and A = "insert a (set (xs @ ys))"])
         (use assms(3) in \<open>auto simp: fl_list_def fl_insert_def store_defs Let_def\<close>)
  qed
qed

lemma append_list_world:
  assumes "fl_world st F" and "F l = Some xs" and "F k = Some ys" and "l \<noteq> k"
  shows "fl_world (fl_append_list l k st) (F(l \<mapsto> xs @ ys, k \<mapsto> []))"
proof (cases ys)
  case Nil
  then have "fl_append_list l k st = st" "F(l \<mapsto> xs @ ys, k \<mapsto> []) = F"
    using assms fl_world_list[OF assms(1,3)] by (auto simp: fl_append_list_def fl_list_def)
  with assms(1) show ?thesis by simp
next
  case (Cons y ys')
  have L: "fl_list st l xs" "fl_list st k ys" using assms by (auto intro: fl_world_list)
  have d: "set xs \<inter> set ys = {}" using fl_world_disjoint assms by metis
  show ?thesis
    using L d Cons assms(4)
    by (intro fl_world_upd_two[OF assms(1) disjI1[OF assms(2)] assms(3,4)]; cases xs rule: rev_cases)
       (auto simp: fl_list_def fl_append_list_def fl_clear_def store_defs Let_def split: if_splits)
qed

lemma prepend_list_world:
  assumes "fl_world st F" and "F l = Some xs" and "F k = Some ys" and "l \<noteq> k"
  shows "\<exists>st'. fl_prepend_list l k st = Some st' \<and> fl_world st' (F(l \<mapsto> ys @ xs, k \<mapsto> []))"
proof (cases ys rule: rev_cases)
  case Nil
  then have "fl_prepend_list l k st = Some st" "F(l \<mapsto> ys @ xs, k \<mapsto> []) = F"
    using assms fl_world_list[OF assms(1,3)] by (auto simp: fl_prepend_list_def fl_list_def)
  with assms(1) show ?thesis by simp
next
  case (snoc ys' y)
  have L: "fl_list st l xs" "fl_list st k ys" using assms by (auto intro: fl_world_list)
  have d: "set xs \<inter> set ys = {}" using fl_world_disjoint assms by metis
  obtain st' where st': "fl_prepend_list l k st = Some st'"
    using L snoc by (cases ys') (auto simp: fl_prepend_list_def fl_list_def Let_def)
  have "fl_world st' (F(l \<mapsto> ys @ xs, k \<mapsto> []))"
    using L d snoc assms(4) st'
    by (intro fl_world_upd_two[OF assms(1) disjI1[OF assms(2)] assms(3,4)]; cases ys')
       (auto simp: fl_list_def fl_prepend_list_def fl_clear_def store_defs Let_def split: if_splits)
  with st' show ?thesis by blast
qed

lemma prepend_link [simp]: "fl_link (fl_prepend l a st) = (fl_link st)(a := fl_first st l)"
  by (simp add: fl_prepend_def store_defs Let_def)

lemma reverse_loop_world:
  assumes "fl_world st F" and "F l = Some ys" and "lchain (fl_link st) xs None" and "distinct xs"
    and "\<And>a. a \<in> set xs \<Longrightarrow> not_linked F a"
  shows "\<exists>st'. fl_reverse_loop l (first_or xs None) st = Some st' \<and> fl_world st' (F(l \<mapsto> rev xs @ ys))"
  using assms
proof (induction xs arbitrary: st F ys)
  case Nil
  then have "F(l \<mapsto> rev [] @ ys) = F" by auto
  then show ?case using Nil(1) by (simp add: fl_reverse_loop.simps)
next
  case (Cons a xs)
  let ?F = "F(l \<mapsto> a # ys)"
  have 1: "fl_world (fl_prepend l a st) ?F"
    using prepend_world[OF Cons.prems(1,2)] Cons.prems(5) by simp
  have 2: "not_linked ?F b" if "b \<in> set xs" for b
    using Cons.prems(2,4) Cons.prems(5)[of b] that unfolding not_linked_def by (auto split: if_splits)
  have 3: "lchain (fl_link (fl_prepend l a st)) xs None"
    using Cons.prems(3,4) by simp
  have step: "fl_reverse_loop l (Some a) st = fl_reverse_loop l (first_or xs None) (fl_prepend l a st)"
    using Cons.prems(3) by (simp add: fl_reverse_loop.simps[of l "Some a"])
  have "\<exists>st'. fl_reverse_loop l (first_or xs None) (fl_prepend l a st) = Some st' \<and>
      fl_world st' (?F(l \<mapsto> rev xs @ a # ys))"
    by (rule Cons.IH[OF 1 _ 3 _ 2]) (use Cons.prems(4) in auto)
  with step show ?case by (simp del: fun_upd_apply)
qed

lemma reverse_world:
  assumes "fl_world st F" and "F l = Some xs"
  shows "\<exists>st'. fl_reverse l st = Some st' \<and> fl_world st' (F(l \<mapsto> rev xs))"
proof -
  have L: "fl_list st l xs" using assms by (rule fl_world_list)
  let ?F = "F(l \<mapsto> [])"
  have "not_linked ?F a" if "a \<in> set xs" for a
    using that fl_world_disjoint[OF assms] unfolding not_linked_def
    by (metis disjoint_iff fun_upd_def list.distinct(1) list.set_cases map_upd_Some_unfold option.inject)
  moreover have "fl_link (fl_clear l st) = fl_link st" by (simp add: fl_clear_def store_defs)
  ultimately have "\<exists>st'. fl_reverse_loop l (first_or xs None) (fl_clear l st) = Some st' \<and>
      fl_world st' (?F(l \<mapsto> rev xs @ []))"
    using L by (intro reverse_loop_world clear_world[OF assms(1)]) (auto simp: fl_list_def)
  then show ?thesis using L by (simp add: fl_reverse_def fl_list_def)
qed

text \<open>A chain that is in no list yet, as the range operations take it: all links but the last.\<close>

definition free_chain :: "('l, 'a) fl_store \<Rightarrow> ('l \<Rightarrow> 'a list option) \<Rightarrow> 'a list \<Rightarrow> bool" where
  "free_chain st F zs = (distinct zs \<and> (\<forall>a \<in> set zs. not_linked F a) \<and>
     (zs \<noteq> [] \<longrightarrow> lchain (fl_link st) (butlast zs) (Some (last zs))))"

lemma free_chain_cases:
  assumes "free_chain st F zs"
  obtains "zs = []" "first_or zs None = None" "last_or zs None = None"
  | us z where "zs = us @ [z]" "z \<notin> set us" "distinct us" "lchain (fl_link st) us (Some z)"
  using assms by (cases zs rule: rev_cases) (auto simp: free_chain_def)

lemma append_range_world:
  assumes "fl_world st F" and "F l = Some xs" and "free_chain st F zs"
  shows "\<exists>st'. fl_append_range l (first_or zs None) (last_or zs None) st = Some st' \<and>
           fl_world st' (F(l \<mapsto> xs @ zs))"
  using assms(3)
proof (cases rule: free_chain_cases)
  case 1
  then have "F(l \<mapsto> xs @ zs) = F" using assms(2) by auto
  with 1 assms(1) show ?thesis by (simp add: fl_append_range_def)
next
  case (2 us z)
  have L: "fl_list st l xs" using assms(1,2) by (rule fl_world_list)
  have d: "set xs \<inter> set zs = {}"
    using assms(2,3) not_linkedD[of F _ l xs] by (auto simp: free_chain_def)
  obtain y where y: "first_or us (Some z) = Some y" by (cases us) auto
  obtain st' where st': "fl_append_range l (first_or zs None) (last_or zs None) st = Some st'"
    using 2 y by (simp add: fl_append_range_def Let_def)
  have "fl_world st' (F(l \<mapsto> xs @ zs))"
    using L d 2 st' y
    by (intro fl_world_upd_own[OF assms(1,2), where N = "set zs" and A = "set xs \<union> set zs"]; cases xs rule: rev_cases)
       (use assms(3) in \<open>auto simp: fl_list_def fl_append_range_def store_defs Let_def free_chain_def\<close>)
  with st' show ?thesis by blast
qed

lemma prepend_range_world:
  assumes "fl_world st F" and "F l = Some xs" and "free_chain st F zs"
  shows "\<exists>st'. fl_prepend_range l (first_or zs None) (last_or zs None) st = Some st' \<and>
           fl_world st' (F(l \<mapsto> zs @ xs))"
  using assms(3)
proof (cases rule: free_chain_cases)
  case 1
  then have "F(l \<mapsto> zs @ xs) = F" using assms(2) by auto
  with 1 assms(1) show ?thesis by (simp add: fl_prepend_range_def)
next
  case (2 us z)
  have L: "fl_list st l xs" using assms(1,2) by (rule fl_world_list)
  have d: "set xs \<inter> set zs = {}"
    using assms(2,3) not_linkedD[of F _ l xs] by (auto simp: free_chain_def)
  obtain y where y: "first_or us (Some z) = Some y" by (cases us) auto
  obtain st' where st': "fl_prepend_range l (first_or zs None) (last_or zs None) st = Some st'"
    using 2 y by (simp add: fl_prepend_range_def Let_def)
  have "fl_world st' (F(l \<mapsto> zs @ xs))"
    using L d 2 st' y
    by (intro fl_world_upd_own[OF assms(1,2), where N = "set zs" and A = "set xs \<union> set zs"]; cases xs rule: rev_cases)
       (use assms(3) in \<open>auto simp: fl_list_def fl_prepend_range_def store_defs Let_def free_chain_def split: if_splits\<close>)
  with st' show ?thesis by blast
qed

lemma new_move_world:
  assumes "fl_world st F" and "F k = Some ys" and "ys \<noteq> []" and "F l = None" and "l \<noteq> k"
  shows "fl_world (fl_new_move l k st) (F(l \<mapsto> ys, k \<mapsto> []))"
proof -
  have L: "fl_list st k ys" using assms by (auto intro: fl_world_list)
  show ?thesis
    using L assms(3,4,5)
    by (intro fl_world_upd_two[OF assms(1) disjI2 assms(2,5), of "[]"])
       (auto simp: fl_list_def fl_new_move_def fl_clear_def store_defs Let_def)
qed

lemma assign_world:
  assumes "fl_world st F" and "F l = Some xs" and "F k = Some ys" and "l \<noteq> k"
  shows "fl_world (fl_assign l k st) (F(l \<mapsto> ys, k \<mapsto> []))"
proof -
  have L: "fl_list st k ys" using assms by (auto intro: fl_world_list)
  show ?thesis
    using L assms(4)
    by (intro fl_world_upd_two[OF assms(1) disjI1[OF assms(2)] assms(3,4)])
       (auto simp: fl_list_def fl_assign_def fl_clear_def store_defs Let_def split: if_splits)
qed

text \<open>Iteration: the body may change the store in any way that keeps the links of the elements not
  visited yet (those from the cached next element on).\<close>

lemma for_each_chain:
  assumes "it_pos it = first_or xs None" and "xs \<noteq> [] \<Longrightarrow> it_next it = first_or (tl xs) None"
    and "lchain (fl_link st) (tl xs) None" and "it_pos stop = None" and "length xs < n"
    and "\<And>a st b. b \<noteq> a \<Longrightarrow> fl_link (body a st) b = fl_link st b" and "distinct xs"
  shows "fl_for_each n body it stop st = Some (xs, fold body xs st)"
  using assms
proof (induction xs arbitrary: n it st)
  case Nil
  then obtain n' where "n = Suc n'" by (cases n) auto
  with Nil show ?case by (simp add: fl_iter_neq_def)
next
  case (Cons a xs)
  obtain n' where n: "n = Suc n'" using Cons.prems(5) by (cases n) auto
  let ?st = "body a st"
  have link: "lchain (fl_link ?st) xs None"
    using Cons.prems(3,6,7) lchain_cong[of xs "fl_link ?st" "fl_link st"] by (metis distinct.simps(2) list.sel(3))
  have "fl_for_each n' body (fl_iter_inc ?st it) stop ?st = Some (xs, fold body xs ?st)"
    using Cons.prems link n by (intro Cons.IH) (cases xs; auto simp: fl_iter_inc_def)+
  then show ?case using n Cons.prems by (simp add: fl_iter_neq_def Let_def)
qed

section \<open>The queue contract holds\<close>

interpretation fl: fifo_lists fl_world fl_append fl_pop_first fl_is_empty
proof (unfold_locales, goal_cases)
  case (1 st F l xs a)
  then show ?case by (rule append_world)
next
  case (2 st F l a xs)
  then show ?case by (rule pop_first_world)
next
  case (3 st F l xs)
  then show ?case using fl_world_list[of st F l xs] by (auto simp: fl_is_empty_def fl_list_def)
next
  case (4 st F)
  then show ?case by (simp add: fl_world_def lists_world_def)
qed

section \<open>Correctness\<close>

text \<open>A store with list \<open>0\<close> holding 10, 20, 30 and list \<open>1\<close> holding 40, for the concrete instances.\<close>

definition fl_sample :: "(nat, nat) fl_store" where
  "fl_sample = fl_append 1 40 (fl_append 0 30 (fl_append 0 20 (fl_append 0 10
     \<lparr>fl_link = \<lambda>_. None, fl_first = \<lambda>_. None, fl_last = HeadOf\<rparr>)))"

definition fl_sample_lists :: "nat \<Rightarrow> nat list option" where
  "fl_sample_lists l = (if l = 0 then Some [10, 20, 30] else if l = 1 then Some [40] else None)"

lemma fl_sample_world: "fl_world fl_sample fl_sample_lists"
proof -
  let ?e = "\<lparr>fl_link = \<lambda>_. None, fl_first = \<lambda>_. None, fl_last = HeadOf\<rparr> :: (nat, nat) fl_store"
  let ?F = "[0 \<mapsto> [], 1 \<mapsto> []] :: nat \<Rightarrow> nat list option"
  have "fl_world ?e ?F"
    by (auto simp: fl_world_def lists_world_def fl_list_def disjoint_lists_def split: if_splits)
  then have "fl_world (fold (fl_append 0) [10, 20, 30] ?e) (?F(0 \<mapsto> [] @ [10, 20, 30]))"
    by (rule fl.append_many) (auto simp: not_linked_def split: if_splits)
  then have "fl_world (fold (fl_append 1) [40] (fold (fl_append 0) [10, 20, 30] ?e))
      (?F(0 \<mapsto> [] @ [10, 20, 30], 1 \<mapsto> [] @ [40]))"
    by (rule fl.append_many) (auto simp: not_linked_def split: if_splits)
  moreover have "?F(0 \<mapsto> [] @ [10, 20, 30], 1 \<mapsto> [] @ [40]) = fl_sample_lists"
    by (auto simp: fl_sample_lists_def fun_eq_iff)
  ultimately show ?thesis by (simp add: fl_sample_def)
qed

text \<open>
  C30. The element operations of \<^verbatim>\<open>ForwardList\<close> act on their list as on a mathematical list and leave
  every other list alone: \<^verbatim>\<open>Append\<close>, \<^verbatim>\<open>Prepend\<close>, \<^verbatim>\<open>Insert\<close> after any element (or in front), \<^verbatim>\<open>PopAll\<close>,
  and the accessors return the ends.
\<close>
theorem fl_element_ops:
  assumes "fl_world st F" and "F l = Some (xs @ ys)" and "not_linked F a"
  shows "fl_world (fl_append l a st) (F(l \<mapsto> xs @ ys @ [a])) \<and>
         fl_world (fl_prepend l a st) (F(l \<mapsto> a # xs @ ys)) \<and>
         fl_world (fl_insert l (last_or xs None) a st) (F(l \<mapsto> xs @ a # ys)) \<and>
         fst (fl_pop_all l st) = first_or (xs @ ys) None \<and>
         fl_world (snd (fl_pop_all l st)) (F(l \<mapsto> [])) \<and>
         fl_get_first l st = first_or (xs @ ys) None \<and>
         fl_get_last l st = Some (last_or (xs @ ys) None) \<and>
         (fl_is_empty l st \<longleftrightarrow> xs @ ys = [])"
  using append_world[OF assms] prepend_world[OF assms] insert_world[OF assms] clear_world[OF assms(1), of l]
    fl_world_list[OF assms(1,2)]
  by (auto simp: fl_pop_all_def fl_get_first_def fl_get_last_def fl_is_empty_def fl_list_def
      last_or_def last_append simp del: fun_upd_apply not_None_eq split: if_splits)

lemma fl_element_ops_witness:
  "fl_world (fl_insert 0 (Some 10) 15 fl_sample) (fl_sample_lists(0 \<mapsto> [10, 15, 20, 30])) \<and>
   fl_get_last 0 fl_sample = Some (Some 30)"
  using fl_element_ops[OF fl_sample_world, of 0 "[10]" "[20, 30]" 15]
  by (auto simp: fl_sample_lists_def not_linked_def split: if_splits)

text \<open>
  Splicing: appending or prepending a whole list moves all elements in order and leaves the
  source empty and usable; appending or prepending a free chain of elements given by its ends adds
  exactly that chain. No step follows a null pointer.
\<close>
theorem fl_splice_ops:
  assumes "fl_world st F" and "F l = Some xs" and "F k = Some ys" and "l \<noteq> k" and "free_chain st F zs"
  shows "fl_world (fl_append_list l k st) (F(l \<mapsto> xs @ ys, k \<mapsto> [])) \<and>
         (\<exists>st'. fl_prepend_list l k st = Some st' \<and> fl_world st' (F(l \<mapsto> ys @ xs, k \<mapsto> []))) \<and>
         fl_world (fl_assign l k st) (F(l \<mapsto> ys, k \<mapsto> [])) \<and>
         (\<exists>st'. fl_append_range l (first_or zs None) (last_or zs None) st = Some st' \<and>
                fl_world st' (F(l \<mapsto> xs @ zs))) \<and>
         (\<exists>st'. fl_prepend_range l (first_or zs None) (last_or zs None) st = Some st' \<and>
                fl_world st' (F(l \<mapsto> zs @ xs)))"
  using append_list_world[OF assms(1-4)] prepend_list_world[OF assms(1-4)] assign_world[OF assms(1-4)]
    append_range_world[OF assms(1,2,5)] prepend_range_world[OF assms(1,2,5)]
  by blast

lemma fl_splice_ops_witness:
  "fl_world (fl_append_list 0 1 fl_sample) (fl_sample_lists(0 \<mapsto> [10, 20, 30, 40], 1 \<mapsto> []))"
  using fl_splice_ops[OF fl_sample_world, of 0 "[10, 20, 30]" 1 "[40]" "[]"]
  by (simp add: fl_sample_lists_def free_chain_def del: fun_upd_apply)

text \<open>
  \<^verbatim>\<open>Reverse\<close> terminates on every well-formed list and reverses it in place.
\<close>
theorem fl_reverse_correct:
  assumes "fl_world st F" and "F l = Some xs"
  shows "\<exists>st'. fl_reverse l st = Some st' \<and> fl_world st' (F(l \<mapsto> rev xs))"
  using assms by (rule reverse_world)

lemma fl_reverse_correct_witness:
  "\<exists>st'. fl_reverse 0 fl_sample = Some st' \<and> fl_get_first 0 st' = Some 30 \<and> fl_get_last 0 st' = Some (Some 10)"
proof -
  obtain st' where "fl_reverse 0 fl_sample = Some st'" "fl_world st' (fl_sample_lists(0 \<mapsto> [30, 20, 10]))"
    using fl_reverse_correct[OF fl_sample_world, of 0 "[10, 20, 30]"] by (auto simp: fl_sample_lists_def)
  then show ?thesis
    using fl_world_list[of st' "fl_sample_lists(0 \<mapsto> [30, 20, 10])" 0]
    by (auto simp: fl_list_def fl_get_first_def fl_get_last_def)
qed

text \<open>
  Iterating with \<^verbatim>\<open>begin()\<close>, \<^verbatim>\<open>++\<close> and \<^verbatim>\<open>end()\<close> visits exactly the elements of the list in order
  and ends, even when the body relinks the element it is given (for instance moves it to another
  list), because the iterator has read the next element before.
\<close>
lemma fl_iteration_complete:
  assumes "fl_world st F" and "F l = Some xs" and "length xs < n"
    and "\<And>a st b. b \<noteq> a \<Longrightarrow> fl_link (body a st) b = fl_link st b"
  shows "fl_for_each n body (fl_begin l st) (fl_end l st) st = Some (xs, fold body xs st)"
proof -
  have L: "fl_list st l xs" using assms(1,2) by (rule fl_world_list)
  show ?thesis
  proof (rule for_each_chain)
    show "xs \<noteq> [] \<Longrightarrow> it_next (fl_begin l st) = first_or (tl xs) None"
      using L by (cases xs) (auto simp: fl_begin_def fl_iter_new_def fl_list_def)
    show "lchain (fl_link st) (tl xs) None"
      using L by (cases xs) (auto simp: fl_list_def)
  qed (use L assms in \<open>auto simp: fl_begin_def fl_end_def fl_iter_new_def fl_list_def\<close>)
qed

lemma fl_iteration_complete_witness:
  "\<exists>st'. fl_for_each 4 (\<lambda>a. set_link a None) (fl_begin 0 fl_sample) (fl_end 0 fl_sample) fl_sample
         = Some ([10, 20, 30], st') \<and> fl_link st' 10 = None"
  using fl_iteration_complete[OF fl_sample_world, of 0 "[10, 20, 30]" 4 "\<lambda>a. set_link a None"]
  by (auto simp: fl_sample_lists_def set_link_def)

text \<open>
  The move constructor takes over a non-empty list and leaves the source empty. From an empty
  source it copies the address of the source's head, so a later \<^verbatim>\<open>Append\<close> to the new list writes the
  source: the new list stays empty and the source is no longer well-formed.
\<close>
lemma fl_new_move_cases:
  assumes "fl_world st F" and "F k = Some ys" and "F l = None" and "l \<noteq> k" and "not_linked F a"
  shows "if ys \<noteq> [] then fl_world (fl_new_move l k st) (F(l \<mapsto> ys, k \<mapsto> []))
         else (let st' = fl_append l a (fl_new_move l k st)
               in fl_is_empty l st' \<and> fl_get_first k st' = Some a \<and> (\<forall>zs. \<not> fl_list st' k zs))"
proof (cases "ys = []")
  case True
  then show ?thesis
    using fl_world_list[OF assms(1,2)] assms(4)
    by (auto simp: fl_list_def fl_append_def fl_new_move_def fl_clear_def store_defs Let_def
        fl_is_empty_def fl_get_first_def)
next
  case False
  then show ?thesis using new_move_world[OF assms(1,2) False assms(3,4)] by simp
qed

lemma fl_new_move_cases_witness:
  "fl_is_empty 5 (fl_append 5 50 (fl_new_move 5 1 (fl_clear 1 fl_sample)))"
proof -
  have "fl_world (fl_clear 1 fl_sample) (fl_sample_lists(1 \<mapsto> []))"
    by (rule clear_world[OF fl_sample_world])
  from fl_new_move_cases[OF this, of 1 "[]" 5 50] show ?thesis
    by (auto simp: fl_sample_lists_def not_linked_def Let_def split: if_splits)
qed

end
