(* ===== verification/Doubly_List.thy ===== *)
theory Doubly_List
  imports Intrusive_Lists
begin

text \<open>
  The intrusive doubly linked list of \<^verbatim>\<open>mg/box/DoublyList.h\<close>, over one store that holds the
  \<^verbatim>\<open>myNext\<close> and \<^verbatim>\<open>myPrev\<close> links of all elements and the \<^verbatim>\<open>myFirst\<close> and \<^verbatim>\<open>myLast\<close> members of all list
  objects. \<open>dl_world st F\<close> says that each object \<open>l\<close> with \<open>F l = Some xs\<close> holds exactly \<open>xs\<close>, linked
  in both directions. The assertions of \<^verbatim>\<open>Remove\<close> are failures of the option monad.
\<close>

section \<open>Store\<close>

record ('l, 'a) dl_store =
  dl_next :: "'a \<Rightarrow> 'a ptr"
  dl_prev :: "'a \<Rightarrow> 'a ptr"
  dl_first :: "'l \<Rightarrow> 'a ptr"
  dl_last :: "'l \<Rightarrow> 'a ptr"

definition put_next :: "'a \<Rightarrow> 'a ptr \<Rightarrow> ('l, 'a) dl_store \<Rightarrow> ('l, 'a) dl_store" where
  "put_next a p st = st\<lparr>dl_next := (dl_next st)(a := p)\<rparr>"

definition put_prev :: "'a \<Rightarrow> 'a ptr \<Rightarrow> ('l, 'a) dl_store \<Rightarrow> ('l, 'a) dl_store" where
  "put_prev a p st = st\<lparr>dl_prev := (dl_prev st)(a := p)\<rparr>"

definition put_first :: "'l \<Rightarrow> 'a ptr \<Rightarrow> ('l, 'a) dl_store \<Rightarrow> ('l, 'a) dl_store" where
  "put_first l p st = st\<lparr>dl_first := (dl_first st)(l := p)\<rparr>"

definition put_last :: "'l \<Rightarrow> 'a ptr \<Rightarrow> ('l, 'a) dl_store \<Rightarrow> ('l, 'a) dl_store" where
  "put_last l p st = st\<lparr>dl_last := (dl_last st)(l := p)\<rparr>"

text \<open>\<^verbatim>\<open>if (p != nullptr) p->*myPrev = v; else myLast = v;\<close> and its mirror image\<close>

definition put_prev_or_last :: "'l \<Rightarrow> 'a ptr \<Rightarrow> 'a ptr \<Rightarrow> ('l, 'a) dl_store \<Rightarrow> ('l, 'a) dl_store" where
  "put_prev_or_last l p v st = (case p of Some b \<Rightarrow> put_prev b v st | None \<Rightarrow> put_last l v st)"

definition put_next_or_first :: "'l \<Rightarrow> 'a ptr \<Rightarrow> 'a ptr \<Rightarrow> ('l, 'a) dl_store \<Rightarrow> ('l, 'a) dl_store" where
  "put_next_or_first l p v st = (case p of Some b \<Rightarrow> put_next b v st | None \<Rightarrow> put_first l v st)"

section \<open>Operations\<close>

definition dl_clear :: "'l \<Rightarrow> ('l, 'a) dl_store \<Rightarrow> ('l, 'a) dl_store" where
  "dl_clear l st = put_last l None (put_first l None st)"

definition dl_new :: "'l \<Rightarrow> ('l, 'a) dl_store \<Rightarrow> ('l, 'a) dl_store" where
  "dl_new l st = put_last l None (put_first l None st)"

definition dl_new_move :: "'l \<Rightarrow> 'l \<Rightarrow> ('l, 'a) dl_store \<Rightarrow> ('l, 'a) dl_store" where
  "dl_new_move l src st = dl_clear src (put_last l (dl_last st src) (put_first l (dl_first st src) st))"

definition dl_new_range :: "'l \<Rightarrow> 'a ptr \<Rightarrow> 'a ptr \<Rightarrow> ('l, 'a) dl_store \<Rightarrow> ('l, 'a) dl_store option" where
  "dl_new_range l fst' lst st =
    (let st1 = put_last l lst (put_first l fst' st)
     in case fst' of
          None \<Rightarrow> Some st1
        | Some a \<Rightarrow> do { b \<leftarrow> lst; Some (put_next b None (put_prev a None st1)) })"

definition dl_prepend :: "'l \<Rightarrow> 'a \<Rightarrow> ('l, 'a) dl_store \<Rightarrow> ('l, 'a) dl_store" where
  "dl_prepend l a st =
    (let first = dl_first st l;
         st1 = put_next a first (put_prev a None st);
         st2 = put_prev_or_last l first (Some a) st1
     in put_first l (Some a) st2)"

definition dl_prepend_list :: "'l \<Rightarrow> 'l \<Rightarrow> ('l, 'a) dl_store \<Rightarrow> ('l, 'a) dl_store option" where
  "dl_prepend_list l src st =
    (case dl_first st src of
       None \<Rightarrow> Some st
     | Some a \<Rightarrow> do {
         b \<leftarrow> dl_last st src;
         let first = dl_first st l;
         let st1 = put_next b first st;
         let st2 = put_prev_or_last l first (Some b) st1;
         Some (dl_clear src (put_first l (Some a) st2)) })"

definition dl_prepend_range :: "'l \<Rightarrow> 'a ptr \<Rightarrow> 'a ptr \<Rightarrow> ('l, 'a) dl_store \<Rightarrow> ('l, 'a) dl_store option" where
  "dl_prepend_range l fst' lst st =
    (case fst' of
       None \<Rightarrow> Some st
     | Some a \<Rightarrow> do {
         let first = dl_first st l;
         let st1 = put_prev a None st;
         b \<leftarrow> lst;
         let st2 = put_next b first st1;
         let st3 = put_prev_or_last l first (Some b) st2;
         Some (put_first l (Some a) st3) })"

definition dl_pop_first :: "'l \<Rightarrow> ('l, 'a) dl_store \<Rightarrow> ('a \<times> ('l, 'a) dl_store) option" where
  "dl_pop_first l st = do {
     a \<leftarrow> dl_first st l;
     let next = dl_next st a;
     let st1 = put_first l next (put_next a None st);
     Some (a, put_prev_or_last l next None st1) }"

definition dl_pop_last :: "'l \<Rightarrow> ('l, 'a) dl_store \<Rightarrow> ('a \<times> ('l, 'a) dl_store) option" where
  "dl_pop_last l st = do {
     a \<leftarrow> dl_last st l;
     let prev = dl_prev st a;
     let st1 = put_last l prev (put_prev a None st);
     Some (a, put_next_or_first l prev None st1) }"

definition dl_append :: "'l \<Rightarrow> 'a \<Rightarrow> ('l, 'a) dl_store \<Rightarrow> ('l, 'a) dl_store" where
  "dl_append l a st =
    (let lst = dl_last st l;
         st1 = put_prev a lst (put_next a None st);
         st2 = put_next_or_first l lst (Some a) st1
     in put_last l (Some a) st2)"

definition dl_append_list :: "'l \<Rightarrow> 'l \<Rightarrow> ('l, 'a) dl_store \<Rightarrow> ('l, 'a) dl_store" where
  "dl_append_list l src st =
    (case dl_first st src of
       None \<Rightarrow> st
     | Some a \<Rightarrow>
         let lst = dl_last st l;
             st1 = put_prev a lst st;
             st2 = put_next_or_first l lst (Some a) st1;
             st3 = put_last l (dl_last st2 src) st2
         in dl_clear src st3)"

definition dl_append_range :: "'l \<Rightarrow> 'a ptr \<Rightarrow> 'a ptr \<Rightarrow> ('l, 'a) dl_store \<Rightarrow> ('l, 'a) dl_store option" where
  "dl_append_range l fst' lst st =
    (case fst' of
       None \<Rightarrow> Some st
     | Some a \<Rightarrow> do {
         let tail = dl_last st l;
         let st1 = put_prev a tail st;
         b \<leftarrow> lst;
         let st2 = put_next b None st1;
         let st3 = put_next_or_first l tail (Some a) st2;
         Some (put_last l (Some b) st3) })"

partial_function (option) dl_reverse_loop ::
  "'l \<Rightarrow> 'a ptr \<Rightarrow> ('l, 'a) dl_store \<Rightarrow> ('l, 'a) dl_store option" where
  "dl_reverse_loop l item st =
    (case item of
       None \<Rightarrow> Some st
     | Some a \<Rightarrow> let next = dl_next st a in dl_reverse_loop l next (dl_prepend l a st))"

definition dl_reverse :: "'l \<Rightarrow> ('l, 'a) dl_store \<Rightarrow> ('l, 'a) dl_store option" where
  "dl_reverse l st = (let item = dl_first st l in dl_reverse_loop l item (dl_clear l st))"

definition dl_pop_all :: "'l \<Rightarrow> ('l, 'a) dl_store \<Rightarrow> 'a ptr \<times> ('l, 'a) dl_store" where
  "dl_pop_all l st = (dl_first st l, dl_clear l st)"

definition dl_pop_all_last :: "'l \<Rightarrow> ('l, 'a) dl_store \<Rightarrow> 'a ptr \<times> 'a ptr \<times> ('l, 'a) dl_store" where
  "dl_pop_all_last l st = (dl_first st l, dl_last st l, dl_clear l st)"

definition dl_remove :: "'l \<Rightarrow> 'a \<Rightarrow> ('l, 'a) dl_store \<Rightarrow> ('l, 'a) dl_store option" where
  "dl_remove l a st = do {
     let next = dl_next st a;
     let prev = dl_prev st a;
     st1 \<leftarrow> (case next of
               Some n \<Rightarrow> Some (put_next a None (put_prev n prev st))
             | None \<Rightarrow> do { mg_assert (Some a = dl_last st l); Some (put_last l prev st) });
     (case prev of
        Some p \<Rightarrow> Some (put_prev a None (put_next p next st1))
      | None \<Rightarrow> do { mg_assert (Some a = dl_first st1 l); Some (put_first l next st1) }) }"

definition dl_assign :: "'l \<Rightarrow> 'l \<Rightarrow> ('l, 'a) dl_store \<Rightarrow> ('l, 'a) dl_store" where
  "dl_assign l src st =
    (let st1 = put_first l (dl_first st src) st;
         st2 = put_last l (dl_last st1 src) st1
     in dl_clear src st2)"

definition dl_is_empty :: "'l \<Rightarrow> ('l, 'a) dl_store \<Rightarrow> bool" where
  "dl_is_empty l st = (dl_first st l = None)"

section \<open>Iteration\<close>

record 'a dl_iter =
  dit_pos :: "'a ptr"
  dit_next :: "'a ptr"

definition dl_iter_new :: "('l, 'a) dl_store \<Rightarrow> 'a ptr \<Rightarrow> 'a dl_iter" where
  "dl_iter_new st head =
    \<lparr>dit_pos = head, dit_next = (case head of Some a \<Rightarrow> dl_next st a | None \<Rightarrow> None)\<rparr>"

definition dl_iter_inc :: "('l, 'a) dl_store \<Rightarrow> 'a dl_iter \<Rightarrow> 'a dl_iter" where
  "dl_iter_inc st it =
    \<lparr>dit_pos = dit_next it,
     dit_next = (case dit_next it of Some b \<Rightarrow> dl_next st b | None \<Rightarrow> None)\<rparr>"

section \<open>The abstraction\<close>

definition dl_list :: "('l, 'a) dl_store \<Rightarrow> 'l \<Rightarrow> 'a list \<Rightarrow> bool" where
  "dl_list st l xs =
    (distinct xs \<and> dl_first st l = first_or xs None \<and> dl_last st l = last_or xs None \<and>
     lchain (dl_next st) xs None \<and> lchain (dl_prev st) (rev xs) None)"

definition dl_world :: "('l, 'a) dl_store \<Rightarrow> ('l \<Rightarrow> 'a list option) \<Rightarrow> bool" where
  "dl_world st F = lists_world dl_list st F"

lemmas put_defs = put_next_def put_prev_def put_first_def put_last_def
  put_prev_or_last_def put_next_or_first_def

lemma dl_list_cong:
  assumes "dl_list st l xs" and "dl_first st' l = dl_first st l" and "dl_last st' l = dl_last st l"
    and "\<And>a. a \<in> set xs \<Longrightarrow> dl_next st' a = dl_next st a \<and> dl_prev st' a = dl_prev st a"
  shows "dl_list st' l xs"
  using assms lchain_cong[of xs "dl_next st'" "dl_next st"] lchain_cong[of "rev xs" "dl_prev st'" "dl_prev st"]
  by (auto simp: dl_list_def)

interpretation ds: intrusive_lists dl_list "\<lambda>st l. (dl_first st l, dl_last st l)"
  "\<lambda>st a. (dl_next st a, dl_prev st a)"
  by unfold_locales (auto intro: dl_list_cong)

lemmas dl_world_own = ds.world_upd_own [folded dl_world_def]
lemmas dl_world_two = ds.world_upd_two [folded dl_world_def]
lemmas dl_world_list = ds.world_list [folded dl_world_def]
lemmas dl_world_disjoint = ds.world_disjoint [folded dl_world_def]

lemma dl_append_world:
  assumes "dl_world st F" and "F l = Some xs" and "not_linked F a"
  shows "dl_world (dl_append l a st) (F(l \<mapsto> xs @ [a]))"
proof -
  have a: "a \<notin> set xs" using assms(2,3) by (rule not_linkedD[rotated])
  have L: "dl_list st l xs" using assms(1,2) by (rule dl_world_list)
  show ?thesis
    using L a
    by (intro dl_world_own[OF assms(1,2), where N = "{a}" and A = "insert a (set xs)"]; cases xs rule: rev_cases)
       (use assms(3) in \<open>auto simp: dl_list_def dl_append_def put_defs Let_def\<close>)
qed

lemma dl_prepend_world:
  assumes "dl_world st F" and "F l = Some xs" and "not_linked F a"
  shows "dl_world (dl_prepend l a st) (F(l \<mapsto> a # xs))"
proof -
  have a: "a \<notin> set xs" using assms(2,3) by (rule not_linkedD[rotated])
  have L: "dl_list st l xs" using assms(1,2) by (rule dl_world_list)
  show ?thesis
    using L a
    by (intro dl_world_own[OF assms(1,2), where N = "{a}" and A = "insert a (set xs)"]; cases xs)
       (use assms(3) in \<open>auto simp: dl_list_def dl_prepend_def put_defs Let_def\<close>)
qed

lemma dl_remove_world:
  assumes "dl_world st F" and "F l = Some (xs @ a # ys)"
  shows "\<exists>st'. dl_remove l a st = Some st' \<and> dl_world st' (F(l \<mapsto> xs @ ys)) \<and>
           dl_next st' a = None \<and> dl_prev st' a = None"
proof -
  have L: "dl_list st l (xs @ a # ys)" using assms by (rule dl_world_list)
  obtain st' where st': "dl_remove l a st = Some st'"
    using L by (cases xs rule: rev_cases; cases ys) (auto simp: dl_list_def dl_remove_def put_defs Let_def)
  have "dl_world st' (F(l \<mapsto> xs @ ys))"
    using L st'
    by (intro dl_world_own[OF assms, where N = "{}" and A = "set (xs @ a # ys)"]; cases xs rule: rev_cases; cases ys)
       (auto simp: dl_list_def dl_remove_def put_defs Let_def)
  moreover have "dl_next st' a = None \<and> dl_prev st' a = None"
    using L st'
    by (cases xs rule: rev_cases; cases ys) (auto simp: dl_list_def dl_remove_def put_defs Let_def)
  ultimately show ?thesis using st' by blast
qed

lemma dl_pop_first_world:
  assumes "dl_world st F" and "F l = Some (a # xs)"
  shows "\<exists>st'. dl_pop_first l st = Some (a, st') \<and> dl_world st' (F(l \<mapsto> xs))"
proof -
  have L: "dl_list st l (a # xs)" using assms by (rule dl_world_list)
  obtain st' where st': "dl_pop_first l st = Some (a, st')"
    using L by (simp add: dl_list_def dl_pop_first_def Let_def)
  have "dl_world st' (F(l \<mapsto> xs))"
    using L st'
    by (intro dl_world_own[OF assms, where N = "{}" and A = "set (a # xs)"]; cases xs)
       (auto simp: dl_list_def dl_pop_first_def put_defs Let_def)
  with st' show ?thesis by blast
qed

lemma dl_pop_last_world:
  assumes "dl_world st F" and "F l = Some (xs @ [a])"
  shows "\<exists>st'. dl_pop_last l st = Some (a, st') \<and> dl_world st' (F(l \<mapsto> xs))"
proof -
  have L: "dl_list st l (xs @ [a])" using assms by (rule dl_world_list)
  obtain st' where st': "dl_pop_last l st = Some (a, st')"
    using L by (simp add: dl_list_def dl_pop_last_def Let_def)
  have "dl_world st' (F(l \<mapsto> xs))"
    using L st'
    by (intro dl_world_own[OF assms, where N = "{}" and A = "set (xs @ [a])"]; cases xs rule: rev_cases)
       (auto simp: dl_list_def dl_pop_last_def put_defs Let_def)
  with st' show ?thesis by blast
qed

lemma dl_clear_world:
  assumes "dl_world st F" and "F l = Some xs"
  shows "dl_world (dl_clear l st) (F(l \<mapsto> []))"
  by (intro dl_world_own[OF assms, where N = "{}" and A = "{}"]) (auto simp: dl_list_def dl_clear_def put_defs)

lemma dl_append_list_world:
  assumes "dl_world st F" and "F l = Some xs" and "F k = Some ys" and "l \<noteq> k"
  shows "dl_world (dl_append_list l k st) (F(l \<mapsto> xs @ ys, k \<mapsto> []))"
proof (cases ys)
  case Nil
  then have "dl_append_list l k st = st" "F(l \<mapsto> xs @ ys, k \<mapsto> []) = F"
    using assms dl_world_list[OF assms(1,3)] by (auto simp: dl_append_list_def dl_list_def)
  with assms(1) show ?thesis by simp
next
  case (Cons y ys')
  have L: "dl_list st l xs" "dl_list st k ys" using assms by (auto intro: dl_world_list)
  have d: "set xs \<inter> set ys = {}" using dl_world_disjoint assms by metis
  show ?thesis
    using L d Cons assms(4)
    by (intro dl_world_two[OF assms(1) disjI1[OF assms(2)] assms(3,4)]; cases xs rule: rev_cases)
       (auto simp: dl_list_def dl_append_list_def dl_clear_def put_defs Let_def split: if_splits)
qed

lemma dl_prepend_list_world:
  assumes "dl_world st F" and "F l = Some xs" and "F k = Some ys" and "l \<noteq> k"
  shows "\<exists>st'. dl_prepend_list l k st = Some st' \<and> dl_world st' (F(l \<mapsto> ys @ xs, k \<mapsto> []))"
proof (cases ys rule: rev_cases)
  case Nil
  then have "dl_prepend_list l k st = Some st" "F(l \<mapsto> ys @ xs, k \<mapsto> []) = F"
    using assms dl_world_list[OF assms(1,3)] by (auto simp: dl_prepend_list_def dl_list_def)
  with assms(1) show ?thesis by simp
next
  case (snoc ys' y)
  have L: "dl_list st l xs" "dl_list st k ys" using assms by (auto intro: dl_world_list)
  have d: "set xs \<inter> set ys = {}" using dl_world_disjoint assms by metis
  obtain z where z: "first_or ys None = Some z" using snoc by (cases "first_or ys None") auto
  obtain st' where st': "dl_prepend_list l k st = Some st'"
    using L snoc z by (simp add: dl_prepend_list_def dl_list_def Let_def)
  have "dl_world st' (F(l \<mapsto> ys @ xs, k \<mapsto> []))"
    using L d snoc assms(4) st' z
    by (intro dl_world_two[OF assms(1) disjI1[OF assms(2)] assms(3,4)]; cases xs)
       (auto simp: dl_list_def dl_prepend_list_def dl_clear_def put_defs Let_def split: if_splits)
  with st' show ?thesis by blast
qed

lemma dl_assign_world:
  assumes "dl_world st F" and "F l = Some xs" and "F k = Some ys" and "l \<noteq> k"
  shows "dl_world (dl_assign l k st) (F(l \<mapsto> ys, k \<mapsto> []))"
proof -
  have L: "dl_list st k ys" using assms by (auto intro: dl_world_list)
  show ?thesis
    using L assms(4)
    by (intro dl_world_two[OF assms(1) disjI1[OF assms(2)] assms(3,4)])
       (auto simp: dl_list_def dl_assign_def dl_clear_def put_defs Let_def)
qed

lemma dl_new_move_world:
  assumes "dl_world st F" and "F l = None" and "F k = Some ys" and "l \<noteq> k"
  shows "dl_world (dl_new_move l k st) (F(l \<mapsto> ys, k \<mapsto> []))"
proof -
  have L: "dl_list st k ys" using assms by (auto intro: dl_world_list)
  show ?thesis
    using L assms(2,4)
    by (intro dl_world_two[OF assms(1) disjI2 assms(3,4), of "[]"])
       (auto simp: dl_list_def dl_new_move_def dl_clear_def put_defs Let_def)
qed

lemma dl_prepend_next [simp]:
  "dl_next (dl_prepend l a st) = (dl_next st)(a := dl_first st l)"
  by (simp add: dl_prepend_def put_defs Let_def split: option.splits)

lemma dl_reverse_loop_world:
  assumes "dl_world st F" and "F l = Some ys" and "lchain (dl_next st) xs None" and "distinct xs"
    and "\<And>a. a \<in> set xs \<Longrightarrow> not_linked F a"
  shows "\<exists>st'. dl_reverse_loop l (first_or xs None) st = Some st' \<and> dl_world st' (F(l \<mapsto> rev xs @ ys))"
  using assms
proof (induction xs arbitrary: st F ys)
  case Nil
  then have "F(l \<mapsto> rev [] @ ys) = F" by auto
  then show ?case using Nil(1) by (simp add: dl_reverse_loop.simps)
next
  case (Cons a xs)
  let ?F = "F(l \<mapsto> a # ys)"
  have 1: "dl_world (dl_prepend l a st) ?F"
    using dl_prepend_world[OF Cons.prems(1,2)] Cons.prems(5) by simp
  have 2: "not_linked ?F b" if "b \<in> set xs" for b
    using Cons.prems(2,4) Cons.prems(5)[of b] that unfolding not_linked_def by (auto split: if_splits)
  have 3: "lchain (dl_next (dl_prepend l a st)) xs None"
    using Cons.prems(3,4) by simp
  have step: "dl_reverse_loop l (Some a) st = dl_reverse_loop l (first_or xs None) (dl_prepend l a st)"
    using Cons.prems(3) by (simp add: dl_reverse_loop.simps[of l "Some a"])
  have "\<exists>st'. dl_reverse_loop l (first_or xs None) (dl_prepend l a st) = Some st' \<and>
      dl_world st' (?F(l \<mapsto> rev xs @ a # ys))"
    by (rule Cons.IH[OF 1 _ 3 _ 2]) (use Cons.prems(4) in auto)
  with step show ?case by (simp del: fun_upd_apply)
qed

lemma dl_reverse_world:
  assumes "dl_world st F" and "F l = Some xs"
  shows "\<exists>st'. dl_reverse l st = Some st' \<and> dl_world st' (F(l \<mapsto> rev xs))"
proof -
  have L: "dl_list st l xs" using assms by (rule dl_world_list)
  let ?F = "F(l \<mapsto> [])"
  have "not_linked ?F a" if "a \<in> set xs" for a
    using that dl_world_disjoint[OF assms] unfolding not_linked_def by (fastforce split: if_splits)
  moreover have "dl_next (dl_clear l st) = dl_next st" by (simp add: dl_clear_def put_defs)
  ultimately have "\<exists>st'. dl_reverse_loop l (first_or xs None) (dl_clear l st) = Some st' \<and>
      dl_world st' (?F(l \<mapsto> rev xs @ []))"
    using L by (intro dl_reverse_loop_world dl_clear_world[OF assms]) (auto simp: dl_list_def)
  then show ?thesis using L by (simp add: dl_reverse_def dl_list_def)
qed

text \<open>A chain of elements in no list, linked in both directions but for its outer ends.\<close>

definition dl_free_chain :: "('l, 'a) dl_store \<Rightarrow> ('l \<Rightarrow> 'a list option) \<Rightarrow> 'a list \<Rightarrow> bool" where
  "dl_free_chain st F zs = (distinct zs \<and> (\<forall>a \<in> set zs. not_linked F a) \<and>
     (zs \<noteq> [] \<longrightarrow> lchain (dl_next st) (butlast zs) (Some (last zs)) \<and>
                  lchain (dl_prev st) (rev (tl zs)) (Some (hd zs))))"

lemma dl_free_chain_cases:
  assumes "dl_free_chain st F zs"
  obtains "zs = []"
  | z where "zs = [z]"
  | y us z where "zs = y # us @ [z]" "y \<noteq> z" "y \<notin> set us" "z \<notin> set us" "distinct us"
      "dl_next st y = first_or us (Some z)" "lchain (dl_next st) us (Some z)"
      "dl_prev st z = last_or us (Some y)" "lchain (dl_prev st) (rev us) (Some y)"
proof (cases zs)
  case (Cons y vs)
  then show ?thesis
    using assms that by (cases vs rule: rev_cases) (auto simp: dl_free_chain_def)
qed (rule that(1))

lemma dl_free_chain_disjoint: "dl_free_chain st F zs \<Longrightarrow> F l = Some xs \<Longrightarrow> set xs \<inter> set zs = {}"
  using not_linkedD[of F _ l xs] by (auto simp: dl_free_chain_def)

lemma dl_append_range_world:
  assumes "dl_world st F" and "F l = Some xs" and "dl_free_chain st F zs"
  shows "\<exists>st'. dl_append_range l (first_or zs None) (last_or zs None) st = Some st' \<and>
           dl_world st' (F(l \<mapsto> xs @ zs))"
proof -
  have L: "dl_list st l xs" using assms(1,2) by (rule dl_world_list)
  have d: "set xs \<inter> set zs = {}" using assms(3,2) by (rule dl_free_chain_disjoint)
  have N: "\<And>b. b \<in> set zs \<Longrightarrow> not_linked F b" using assms(3) by (auto simp: dl_free_chain_def)
  obtain st' where st': "dl_append_range l (first_or zs None) (last_or zs None) st = Some st'"
    using assms(3) by (cases rule: dl_free_chain_cases) (auto simp: dl_append_range_def Let_def)
  have "dl_world st' (F(l \<mapsto> xs @ zs))"
    using assms(3) L d st'
    by (intro dl_world_own[OF assms(1,2), where N = "set zs" and A = "set xs \<union> set zs"]; cases xs rule: rev_cases)
       (use N in \<open>auto simp: dl_list_def dl_append_range_def put_defs Let_def elim!: dl_free_chain_cases\<close>)
  with st' show ?thesis by blast
qed

lemma dl_prepend_range_world:
  assumes "dl_world st F" and "F l = Some xs" and "dl_free_chain st F zs"
  shows "\<exists>st'. dl_prepend_range l (first_or zs None) (last_or zs None) st = Some st' \<and>
           dl_world st' (F(l \<mapsto> zs @ xs))"
proof -
  have L: "dl_list st l xs" using assms(1,2) by (rule dl_world_list)
  have d: "set xs \<inter> set zs = {}" using assms(3,2) by (rule dl_free_chain_disjoint)
  have N: "\<And>b. b \<in> set zs \<Longrightarrow> not_linked F b" using assms(3) by (auto simp: dl_free_chain_def)
  obtain st' where st': "dl_prepend_range l (first_or zs None) (last_or zs None) st = Some st'"
    using assms(3) by (cases rule: dl_free_chain_cases) (auto simp: dl_prepend_range_def Let_def)
  have "dl_world st' (F(l \<mapsto> zs @ xs))"
    using assms(3) L d st'
    by (intro dl_world_own[OF assms(1,2), where N = "set zs" and A = "set xs \<union> set zs"]; cases xs)
       (use N in \<open>auto simp: dl_list_def dl_prepend_range_def put_defs Let_def elim!: dl_free_chain_cases\<close>)
  with st' show ?thesis by blast
qed

section \<open>The queue contract holds\<close>

interpretation dl: fifo_lists dl_world dl_append dl_pop_first dl_is_empty
proof (unfold_locales, goal_cases)
  case (1 st F l xs a)
  then show ?case by (rule dl_append_world)
next
  case (2 st F l a xs)
  then show ?case by (rule dl_pop_first_world)
next
  case (3 st F l xs)
  then show ?case using dl_world_list[of st F l xs] by (auto simp: dl_is_empty_def dl_list_def)
next
  case (4 st F)
  then show ?case by (simp add: dl_world_def lists_world_def)
qed

section \<open>Correctness\<close>

definition dl_sample :: "(nat, nat) dl_store" where
  "dl_sample = fold (dl_append 0) [10, 20, 30]
     \<lparr>dl_next = \<lambda>_. None, dl_prev = \<lambda>_. None, dl_first = \<lambda>_. None, dl_last = \<lambda>_. None\<rparr>"

definition dl_sample_lists :: "nat \<Rightarrow> nat list option" where
  "dl_sample_lists l = (if l = 0 then Some [10, 20, 30] else if l = 1 then Some [] else None)"

lemma dl_sample_world: "dl_world dl_sample dl_sample_lists"
proof -
  let ?e = "\<lparr>dl_next = \<lambda>_. None, dl_prev = \<lambda>_. None, dl_first = \<lambda>_. None, dl_last = \<lambda>_. None\<rparr> :: (nat, nat) dl_store"
  let ?F = "[0 \<mapsto> [], 1 \<mapsto> []] :: nat \<Rightarrow> nat list option"
  have "dl_world ?e ?F"
    by (auto simp: dl_world_def lists_world_def dl_list_def disjoint_lists_def split: if_splits)
  then have "dl_world dl_sample (?F(0 \<mapsto> [] @ [10, 20, 30]))"
    unfolding dl_sample_def by (rule dl.append_many) (auto simp: not_linked_def split: if_splits)
  moreover have "?F(0 \<mapsto> [] @ [10, 20, 30]) = dl_sample_lists"
    by (auto simp: dl_sample_lists_def fun_eq_iff)
  ultimately show ?thesis by simp
qed

text \<open>
  \<^verbatim>\<open>DoublyList::Remove\<close> takes any element out of the middle or the ends of the list that holds it:
  no assertion fails, the other elements keep their order in both directions, every other list is
  unchanged, and the removed element has no links left.
\<close>
lemma dl_remove_correct:
  assumes "dl_world st F" and "F l = Some (xs @ a # ys)"
  shows "\<exists>st'. dl_remove l a st = Some st' \<and> dl_world st' (F(l \<mapsto> xs @ ys)) \<and>
           dl_next st' a = None \<and> dl_prev st' a = None"
  using assms by (rule dl_remove_world)

lemma dl_remove_correct_witness:
  "\<exists>st'. dl_remove 0 20 dl_sample = Some st' \<and> dl_list st' 0 [10, 30] \<and> dl_next st' 20 = None"
proof -
  obtain st' where "dl_remove 0 20 dl_sample = Some st'" "dl_next st' 20 = None"
      "dl_world st' (dl_sample_lists(0 \<mapsto> [10, 30]))"
    using dl_remove_correct[OF dl_sample_world, of 0 "[10]" 20 "[30]"] by (auto simp: dl_sample_lists_def)
  then show ?thesis using dl_world_list[of st' "dl_sample_lists(0 \<mapsto> [10, 30])" 0] by simp
qed



text \<open>
  Moving whole \<^verbatim>\<open>DoublyList\<close>s: \<^verbatim>\<open>Append\<close> and \<^verbatim>\<open>Prepend\<close> of a list, move assignment, and the move
  constructor (from an empty list as well) move all elements in order and leave the source empty.
\<close>
theorem dl_moves:
  assumes "dl_world st F" and "F l = Some xs" and "F k = Some ys" and "l \<noteq> k" and "F n = None" and "n \<noteq> k"
  shows "dl_world (dl_append_list l k st) (F(l \<mapsto> xs @ ys, k \<mapsto> [])) \<and>
         (\<exists>st'. dl_prepend_list l k st = Some st' \<and> dl_world st' (F(l \<mapsto> ys @ xs, k \<mapsto> []))) \<and>
         dl_world (dl_assign l k st) (F(l \<mapsto> ys, k \<mapsto> [])) \<and>
         dl_world (dl_new_move n k st) (F(n \<mapsto> ys, k \<mapsto> []))"
  using dl_append_list_world[OF assms(1-4)] dl_prepend_list_world[OF assms(1-4)]
    dl_assign_world[OF assms(1-4)] dl_new_move_world[OF assms(1,5,3,6)] by blast

lemma dl_moves_witness:
  "dl_world (dl_append_list 1 0 dl_sample) (dl_sample_lists(1 \<mapsto> [10, 20, 30], 0 \<mapsto> []))"
  using dl_moves[OF dl_sample_world, of 1 "[]" 0 "[10, 20, 30]" 2]
  by (simp add: dl_sample_lists_def del: fun_upd_apply)

end
