(* ===== verification/Mpsc_Queue.thy ===== *)
theory Mpsc_Queue
  imports Intrusive_Lists
begin

text \<open>
  The multi-producer single-consumer queue of \<^verbatim>\<open>mg/box/MultiProducerQueueIntrusive.h\<close>: a lock-free
  stack of intrusive links, which the consumer takes as a whole and reverses.

  \<open>mq\<close> is the queue with the link field of all elements. The first part translates the methods as
  run by one thread (the compare-exchange of \<^verbatim>\<open>PrivPushRange\<close> succeeds at once). The second part is
  the concurrent protocol: the load, the link store, the strong outcome and the spurious or real
  failure of the weak compare-exchange are separate steps of each producer, interleaved with other
  producers, the consumer, and with owners that write the links of elements they own.
\<close>

section \<open>The methods, run by one thread\<close>

record 'a mq =
  mq_next :: "'a \<Rightarrow> 'a ptr"
  mq_head :: "'a ptr"

definition mq_set_next :: "'a \<Rightarrow> 'a ptr \<Rightarrow> 'a mq \<Rightarrow> 'a mq" where
  "mq_set_next a p q = q\<lparr>mq_next := (mq_next q)(a := p)\<rparr>"

definition mq_is_empty :: "'a mq \<Rightarrow> bool" where
  "mq_is_empty q = (mq_head q = None)"

definition mq_push_range :: "'a \<Rightarrow> 'a \<Rightarrow> 'a mq \<Rightarrow> bool \<times> 'a mq" where
  "mq_push_range first lst q =
    (let old = mq_head q
     in (old = None, (mq_set_next lst old q)\<lparr>mq_head := Some first\<rparr>))"

definition mq_push :: "'a \<Rightarrow> 'a mq \<Rightarrow> bool \<times> 'a mq" where
  "mq_push a q = mq_push_range a a q"

definition mq_push_many_fast_reversed_range :: "'a ptr \<Rightarrow> 'a ptr \<Rightarrow> 'a mq \<Rightarrow> (bool \<times> 'a mq) option" where
  "mq_push_many_fast_reversed_range fst' lst q =
    (case fst' of
       None \<Rightarrow> Some (mq_is_empty q, q)
     | Some a \<Rightarrow> do { b \<leftarrow> lst; Some (mq_push_range a b (mq_set_next b None q)) })"

partial_function (option) mq_find_last :: "'a mq \<Rightarrow> 'a \<Rightarrow> 'a option" where
  "mq_find_last q lst = (case mq_next q lst of None \<Rightarrow> Some lst | Some next \<Rightarrow> mq_find_last q next)"

definition mq_push_many_fast_reversed :: "'a ptr \<Rightarrow> 'a mq \<Rightarrow> (bool \<times> 'a mq) option" where
  "mq_push_many_fast_reversed fst' q =
    (case fst' of
       None \<Rightarrow> Some (mq_is_empty q, q)
     | Some a \<Rightarrow> do { b \<leftarrow> mq_find_last q a; Some (mq_push_range a b q) })"

text \<open>\<^verbatim>\<open>do { next = aFirst->myNext; aFirst->myNext = prev; prev = aFirst; } while ((aFirst = next) != nullptr);\<close>\<close>

partial_function (option) mq_relink :: "'a \<Rightarrow> 'a \<Rightarrow> 'a mq \<Rightarrow> ('a \<times> 'a mq) option" where
  "mq_relink prev a q =
    (let next = mq_next q a;
         q1 = mq_set_next a (Some prev) q
     in case next of None \<Rightarrow> Some (a, q1) | Some b \<Rightarrow> mq_relink a b q1)"

definition mq_push_many :: "'a ptr \<Rightarrow> 'a mq \<Rightarrow> (bool \<times> 'a mq) option" where
  "mq_push_many fst' q =
    (case fst' of
       None \<Rightarrow> Some (mq_is_empty q, q)
     | Some lst \<Rightarrow>
         (case mq_next q lst of
            None \<Rightarrow> Some (mq_push lst q)
          | Some a \<Rightarrow> do { (first, q1) \<leftarrow> mq_relink lst a q;
                          mq_push_many_fast_reversed_range (Some first) (Some lst) q1 }))"

definition mq_pop_all_fast_reversed :: "'a mq \<Rightarrow> 'a ptr \<times> 'a mq" where
  "mq_pop_all_fast_reversed q = (mq_head q, q\<lparr>mq_head := None\<rparr>)"

partial_function (option) mq_reverse_loop :: "'a ptr \<Rightarrow> 'a ptr \<Rightarrow> 'a mq \<Rightarrow> ('a ptr \<times> 'a mq) option" where
  "mq_reverse_loop cur prev q =
    (case cur of
       None \<Rightarrow> Some (prev, q)
     | Some a \<Rightarrow> let next = mq_next q a in mq_reverse_loop next (Some a) (mq_set_next a prev q))"

text \<open>The result: the first element, the tail, the queue.\<close>

definition mq_pop_all :: "'a mq \<Rightarrow> ('a ptr \<times> 'a ptr \<times> 'a mq) option" where
  "mq_pop_all q =
    (let (cur, q1) = mq_pop_all_fast_reversed q
     in do { (res, q2) \<leftarrow> mq_reverse_loop cur None q1; Some (res, cur, q2) })"

section \<open>What a queue holds\<close>

text \<open>The stack of links from the head: the newest element first.\<close>

definition mq_stack :: "'a mq \<Rightarrow> 'a list \<Rightarrow> bool" where
  "mq_stack q xs = (distinct xs \<and> mq_head q = first_or xs None \<and> lchain (mq_next q) xs None)"

lemma mq_stack_empty: "mq_stack q xs \<Longrightarrow> mq_is_empty q \<longleftrightarrow> xs = []"
  by (simp add: mq_stack_def mq_is_empty_def)

lemma mq_stack_cong:
  "mq_stack q xs \<Longrightarrow> mq_head q' = mq_head q \<Longrightarrow> (\<And>a. a \<in> set xs \<Longrightarrow> mq_next q' a = mq_next q a) \<Longrightarrow> mq_stack q' xs"
  using lchain_cong[of xs "mq_next q'" "mq_next q"] by (auto simp: mq_stack_def)

lemma mq_push_range_stack:
  assumes "mq_stack q xs" and "distinct (zs @ [z])" and "set (zs @ [z]) \<inter> set xs = {}"
    and "lchain (mq_next q) zs (Some z)" and "mq_push_range (hd (zs @ [z])) z q = (r, q')"
  shows "(r \<longleftrightarrow> xs = []) \<and> mq_stack q' (zs @ z # xs)"
  using assms by (cases zs) (auto simp: mq_stack_def mq_push_range_def mq_set_next_def Let_def)

lemma mq_find_last_chain: "lchain (mq_next q) (a # xs) None \<Longrightarrow> mq_find_last q a = Some (last (a # xs))"
proof (induction xs arbitrary: a)
  case Nil
  then show ?case by (simp add: mq_find_last.simps[of q a])
next
  case (Cons b xs)
  then show ?case by (simp add: mq_find_last.simps[of q a])
qed

lemma mq_relink_chain:
  assumes "lchain (mq_next q) (a # xs) None" and "distinct (p # a # xs)"
  shows "\<exists>q'. mq_relink p a q = Some (last (a # xs), q') \<and> lchain (mq_next q') (rev (a # xs)) (Some p) \<and>
           mq_head q' = mq_head q \<and> (\<forall>b. b \<notin> set (a # xs) \<longrightarrow> mq_next q' b = mq_next q b)"
  using assms
proof (induction xs arbitrary: p a q)
  case Nil
  then show ?case by (simp add: mq_relink.simps[of p a] mq_set_next_def)
next
  case (Cons b xs)
  let ?q = "mq_set_next a (Some p) q"
  have "lchain (mq_next ?q) (b # xs) None"
    using Cons.prems by (auto simp: mq_set_next_def)
  then obtain q' where q': "mq_relink a b ?q = Some (last (b # xs), q')"
      "lchain (mq_next q') (rev (b # xs)) (Some a)" "mq_head q' = mq_head ?q"
      "\<forall>c. c \<notin> set (b # xs) \<longrightarrow> mq_next q' c = mq_next ?q c"
    using Cons.IH[of ?q b a] Cons.prems(2) by auto
  have "mq_next q' a = Some p" using q'(4) Cons.prems(2) by (auto simp: mq_set_next_def)
  moreover have "mq_relink p a q = mq_relink a b ?q"
    using Cons.prems(1) by (simp add: mq_relink.simps[of p a q])
  ultimately show ?case using q' Cons.prems(2) by (auto simp: mq_set_next_def)
qed

lemma mq_reverse_loop_chain:
  assumes "lchain (mq_next q) xs None" and "distinct xs" and "lchain (mq_next q) ys None"
    and "set xs \<inter> set ys = {}"
  shows "\<exists>q'. mq_reverse_loop (first_or xs None) (first_or ys None) q = Some (first_or (rev xs @ ys) None, q') \<and>
           lchain (mq_next q') (rev xs @ ys) None \<and> mq_head q' = mq_head q \<and>
           (\<forall>b. b \<notin> set xs \<longrightarrow> mq_next q' b = mq_next q b)"
  using assms
proof (induction xs arbitrary: ys q)
  case Nil
  then show ?case by (simp add: mq_reverse_loop.simps[of None])
next
  case (Cons a xs)
  let ?q = "mq_set_next a (first_or ys None) q"
  have "lchain (mq_next ?q) xs None" "lchain (mq_next ?q) (a # ys) None"
    using Cons.prems by (auto simp: mq_set_next_def)
  then obtain q' where q': "mq_reverse_loop (first_or xs None) (first_or (a # ys) None) ?q =
        Some (first_or (rev xs @ a # ys) None, q')"
      "lchain (mq_next q') (rev xs @ a # ys) None" "mq_head q' = mq_head ?q"
      "\<forall>b. b \<notin> set xs \<longrightarrow> mq_next q' b = mq_next ?q b"
    using Cons.IH[of ?q "a # ys"] Cons.prems by auto
  moreover have "mq_reverse_loop (Some a) (first_or ys None) q = mq_reverse_loop (first_or xs None) (Some a) ?q"
    using Cons.prems(1) by (simp add: mq_reverse_loop.simps[of "Some a"])
  ultimately show ?case by (auto simp: mq_set_next_def)
qed

lemma mq_pop_all_stack:
  assumes "mq_stack q xs"
  shows "\<exists>q'. mq_pop_all q = Some (first_or (rev xs) None, last_or (rev xs) None, q') \<and>
           lchain (mq_next q') (rev xs) None \<and> mq_head q' = None \<and>
           (\<forall>b. b \<notin> set xs \<longrightarrow> mq_next q' b = mq_next q b)"
  using mq_reverse_loop_chain[of "q\<lparr>mq_head := None\<rparr>" xs "[]"] assms
  by (auto simp: mq_pop_all_def mq_pop_all_fast_reversed_def mq_stack_def)

lemma mq_push_many_stack:
  assumes "mq_stack q xs" and "lchain (mq_next q) zs None" and "distinct zs" and "set zs \<inter> set xs = {}"
  shows "\<exists>q'. mq_push_many (first_or zs None) q = Some (xs = [], q') \<and> mq_stack q' (rev zs @ xs)"
proof (cases zs)
  case Nil
  then show ?thesis using assms(1) mq_stack_empty[OF assms(1)] by (simp add: mq_push_many_def)
next
  case (Cons l ys)
  show ?thesis
  proof (cases ys)
    case Nil
    then show ?thesis
      using assms Cons mq_push_range_stack[of q xs "[]" l]
      by (cases "mq_push_range l l q") (auto simp: mq_push_many_def mq_push_def)
  next
    case (Cons a ws)
    note zs = \<open>zs = l # ys\<close> \<open>ys = a # ws\<close>
    obtain q1 where q1: "mq_relink l a q = Some (last ys, q1)" "lchain (mq_next q1) (rev ys) (Some l)"
        "mq_head q1 = mq_head q" "\<forall>b. b \<notin> set ys \<longrightarrow> mq_next q1 b = mq_next q b"
      using mq_relink_chain[of q a ws l] assms zs by auto
    let ?q2 = "mq_set_next l None q1"
    have st: "mq_stack ?q2 xs"
      using assms(1)
    proof (rule mq_stack_cong)
      fix b assume "b \<in> set xs"
      then have "b \<noteq> l" "b \<notin> set ys" using assms(4) zs by auto
      then show "mq_next ?q2 b = mq_next q b" using q1(4) by (simp add: mq_set_next_def)
    qed (simp add: mq_set_next_def q1(3))
    have ch: "lchain (mq_next ?q2) (rev ys) (Some l)"
      using q1(2) assms(3) zs lchain_cong[of "rev ys" "mq_next ?q2" "mq_next q1"]
      by (auto simp: mq_set_next_def)
    obtain r q' where r: "mq_push_range (last ys) l ?q2 = (r, q')" by fastforce
    have "(r \<longleftrightarrow> xs = []) \<and> mq_stack q' (rev ys @ l # xs)"
      using r zs assms(3,4) by (intro mq_push_range_stack[OF st _ _ ch]) (auto simp: hd_rev hd_append last_rev)
    then show ?thesis
      using q1(1) r zs assms(2) by (auto simp: mq_push_many_def mq_push_many_fast_reversed_range_def)
  qed
qed

lemma mq_push_many_fast_reversed_stack:
  assumes "mq_stack q xs" and "lchain (mq_next q) zs None" and "distinct zs" and "set zs \<inter> set xs = {}"
  shows "\<exists>q'. mq_push_many_fast_reversed (first_or zs None) q = Some (xs = [], q') \<and> mq_stack q' (zs @ xs)"
proof (cases zs rule: rev_cases)
  case Nil
  then show ?thesis using assms(1) mq_stack_empty[OF assms(1)] by (simp add: mq_push_many_fast_reversed_def)
next
  case (snoc ys l)
  obtain a ws where aw: "zs = a # ws" using snoc by (cases ys) auto
  have "mq_find_last q a = Some l" using mq_find_last_chain[of q a ws] assms(2) aw snoc by (metis last_snoc)
  moreover obtain r q' where r: "mq_push_range a l q = (r, q')" by fastforce
  moreover have "(r \<longleftrightarrow> xs = []) \<and> mq_stack q' (ys @ l # xs)"
    using assms r snoc aw by (intro mq_push_range_stack[of q xs ys l]) (auto, metis list.sel(1))
  moreover have "first_or zs None = Some a" "zs @ xs = ys @ l # xs" using aw snoc by simp_all
  ultimately show ?thesis by (auto simp: mq_push_many_fast_reversed_def)
qed

section \<open>The concurrent protocol\<close>

text \<open>
  A producer in \<^verbatim>\<open>PrivPushRange(first, last)\<close> owns a chain of elements \<open>zs\<close> from \<open>first\<close> to \<open>last\<close>. It has
  loaded \<open>old\<close> (\<open>Loaded\<close>), or has stored it into the last link and is about to compare-exchange
  (\<open>Linked\<close>). \<open>sy_items\<close>, \<open>sy_log\<close> and \<open>sy_out\<close> are history: the elements pushed and not taken, all
  elements pushed in the order of the successful exchanges, and all elements handed out.
\<close>

datatype 'a mq_pc = Idle | Loaded "'a list" "'a ptr" | Linked "'a list" "'a ptr"

fun chain_of :: "'a mq_pc \<Rightarrow> 'a list" where
  "chain_of Idle = []"
| "chain_of (Loaded zs old) = zs"
| "chain_of (Linked zs old) = zs"

record ('t, 'a) mq_sys =
  sy_q :: "'a mq"
  sy_pc :: "'t \<Rightarrow> 'a mq_pc"
  sy_items :: "'a list"
  sy_log :: "'a list"
  sy_out :: "'a list"

definition unowned :: "('t, 'a) mq_sys \<Rightarrow> 'a \<Rightarrow> bool" where
  "unowned s a = (a \<notin> set (sy_items s) \<and> (\<forall>t. a \<notin> set (chain_of (sy_pc s t))))"

inductive mq_step :: "('t, 'a) mq_sys \<Rightarrow> ('t, 'a) mq_sys \<Rightarrow> bool" where
  load: "\<lbrakk>sy_pc s t = Idle; zs \<noteq> []; distinct zs; \<forall>a \<in> set zs. unowned s a;
      lchain (mq_next (sy_q s)) (butlast zs) (Some (last zs))\<rbrakk> \<Longrightarrow>
    mq_step s (s\<lparr>sy_pc := (sy_pc s)(t := Loaded zs (mq_head (sy_q s)))\<rparr>)"
| link: "sy_pc s t = Loaded zs old \<Longrightarrow>
    mq_step s (s\<lparr>sy_q := mq_set_next (last zs) old (sy_q s), sy_pc := (sy_pc s)(t := Linked zs old)\<rparr>)"
| exchange: "\<lbrakk>sy_pc s t = Linked zs old; mq_head (sy_q s) = old\<rbrakk> \<Longrightarrow>
    mq_step s (s\<lparr>sy_q := (sy_q s)\<lparr>mq_head := Some (hd zs)\<rparr>, sy_pc := (sy_pc s)(t := Idle),
      sy_items := zs @ sy_items s, sy_log := sy_log s @ rev zs\<rparr>)"
| retry: "sy_pc s t = Linked zs old \<Longrightarrow>
    mq_step s (s\<lparr>sy_pc := (sy_pc s)(t := Loaded zs (mq_head (sy_q s)))\<rparr>)"
| take_all: "\<lbrakk>mq_pop_all (sy_q s) = Some (res, last_elem, q'); res = first_or xs None; lchain (mq_next q') xs None\<rbrakk> \<Longrightarrow>
    mq_step s (s\<lparr>sy_q := q', sy_items := [], sy_out := sy_out s @ xs\<rparr>)"
| own_write: "unowned s a \<Longrightarrow> mq_step s (s\<lparr>sy_q := mq_set_next a p (sy_q s)\<rparr>)"

definition mq_init :: "('a \<Rightarrow> 'a ptr) \<Rightarrow> ('t, 'a) mq_sys" where
  "mq_init f = \<lparr>sy_q = \<lparr>mq_next = f, mq_head = None\<rparr>, sy_pc = \<lambda>_. Idle, sy_items = [], sy_log = [], sy_out = []\<rparr>"

inductive mq_reachable :: "('t, 'a) mq_sys \<Rightarrow> bool" where
  init: "mq_reachable (mq_init f)"
| step: "mq_reachable s \<Longrightarrow> mq_step s s' \<Longrightarrow> mq_reachable s'"

fun pc_ok :: "'a mq \<Rightarrow> 'a mq_pc \<Rightarrow> bool" where
  "pc_ok q Idle = True"
| "pc_ok q (Loaded zs old) = (zs \<noteq> [] \<and> distinct zs \<and> lchain (mq_next q) (butlast zs) (Some (last zs)))"
| "pc_ok q (Linked zs old) = (zs \<noteq> [] \<and> distinct zs \<and> lchain (mq_next q) (butlast zs) (Some (last zs)) \<and>
     mq_next q (last zs) = old)"

definition mq_inv :: "('t, 'a) mq_sys \<Rightarrow> bool" where
  "mq_inv s =
    (mq_stack (sy_q s) (sy_items s) \<and> (\<forall>t. pc_ok (sy_q s) (sy_pc s t)) \<and>
     (\<forall>t. set (chain_of (sy_pc s t)) \<inter> set (sy_items s) = {}) \<and>
     (\<forall>t u. t \<noteq> u \<longrightarrow> set (chain_of (sy_pc s t)) \<inter> set (chain_of (sy_pc s u)) = {}) \<and>
     sy_log s = sy_out s @ rev (sy_items s))"

lemma pc_ok_cong:
  "pc_ok q pc \<Longrightarrow> (\<And>a. a \<in> set (chain_of pc) \<Longrightarrow> mq_next q' a = mq_next q a) \<Longrightarrow> pc_ok q' pc"
  using lchain_cong[of "butlast (chain_of pc)" "mq_next q'" "mq_next q"]
  by (cases pc) (auto dest: in_set_butlastD)

lemmas mq_inv_defs = mq_inv_def unowned_def

lemma mq_inv_init: "mq_inv (mq_init f)"
  by (simp add: mq_inv_def mq_init_def mq_stack_def)

text \<open>A step changes the queue, the history and the state of one producer.\<close>

lemma mq_inv_pcI:
  assumes "mq_inv s" and pc: "sy_pc s' = (sy_pc s)(t := pc)"
    and "mq_stack (sy_q s') (sy_items s')" and "sy_log s' = sy_out s' @ rev (sy_items s')"
    and "pc_ok (sy_q s') pc" and "\<And>u. u \<noteq> t \<Longrightarrow> pc_ok (sy_q s') (sy_pc s u)"
    and "set (chain_of pc) \<inter> set (sy_items s') = {}"
    and "\<And>u. u \<noteq> t \<Longrightarrow> set (chain_of (sy_pc s u)) \<inter> set (sy_items s') = {}"
    and dis: "\<And>u. u \<noteq> t \<Longrightarrow> set (chain_of pc) \<inter> set (chain_of (sy_pc s u)) = {}"
  shows "mq_inv s'"
proof -
  have "set (chain_of (sy_pc s' v)) \<inter> set (chain_of (sy_pc s' u)) = {}" if "v \<noteq> u" for u v
  proof (cases "v = t \<or> u = t")
    case True
    then show ?thesis using that pc dis[of u] dis[of v] by auto
  next
    case False
    then show ?thesis using that pc assms(1) by (auto simp: mq_inv_def)
  qed
  moreover have "pc_ok (sy_q s') (sy_pc s' v) \<and> set (chain_of (sy_pc s' v)) \<inter> set (sy_items s') = {}" for v
    using assms by (cases "v = t") auto
  ultimately show ?thesis using assms(3,4) by (simp add: mq_inv_def)
qed

lemma mq_inv_producer:
  assumes "mq_inv s" and "chain_of (sy_pc s t) = zs"
  shows "pc_ok (sy_q s) (sy_pc s t)" and "set zs \<inter> set (sy_items s) = {}"
    and "\<And>u. u \<noteq> t \<Longrightarrow> set zs \<inter> set (chain_of (sy_pc s u)) = {}"
    and "\<And>u. pc_ok (sy_q s) (sy_pc s u)" and "\<And>u. set (chain_of (sy_pc s u)) \<inter> set (sy_items s) = {}"
    and "mq_stack (sy_q s) (sy_items s)" and "sy_log s = sy_out s @ rev (sy_items s)"
  using assms unfolding mq_inv_def by blast+

lemma mq_inv_step:
  assumes "mq_step s s'" and I: "mq_inv s"
  shows "mq_inv s'"
  using assms
proof (cases rule: mq_step.cases)
  case (load t zs)
  note P = mq_inv_producer[OF I refl]
  show ?thesis
    by (rule mq_inv_pcI[OF I, where t = t]) (use load P in \<open>auto simp: unowned_def\<close>)
next
  case (link t zs old)
  then have "chain_of (sy_pc s t) = zs" by simp
  note P = mq_inv_producer[OF I this]
  let ?q = "mq_set_next (last zs) old (sy_q s)"
  have zs: "zs \<noteq> []" "distinct zs" "lchain (mq_next (sy_q s)) (butlast zs) (Some (last zs))"
    using P(1) link by auto
  then have l: "last zs \<in> set zs" by simp
  have "last zs \<notin> set (butlast zs)"
    using zs(1,2) by (metis append_butlast_last_id distinct_append disjoint_iff list.set_intros(1))
  then have "pc_ok ?q (Linked zs old)" using zs by (simp add: mq_set_next_def)
  moreover have "pc_ok ?q (sy_pc s u)" if "u \<noteq> t" for u
    by (rule pc_ok_cong[OF P(4)]) (use P(3)[OF that] link l in \<open>auto simp: mq_set_next_def\<close>)
  moreover have "mq_stack ?q (sy_items s)"
    by (rule mq_stack_cong[OF P(6)]) (use P(2) link l in \<open>auto simp: mq_set_next_def\<close>)
  ultimately show ?thesis
    by (intro mq_inv_pcI[OF I, where t = t and pc = "Linked zs old"])
       (simp_all add: link(1) P del: pc_ok.simps)
next
  case (exchange t zs old)
  then have "chain_of (sy_pc s t) = zs" by simp
  note P = mq_inv_producer[OF I this]
  let ?q = "(sy_q s)\<lparr>mq_head := Some (hd zs)\<rparr>"
  have zs: "zs \<noteq> []" "distinct zs" "lchain (mq_next (sy_q s)) (butlast zs) (Some (last zs))"
      "mq_next (sy_q s) (last zs) = mq_head (sy_q s)"
    using P(1) exchange by auto
  then have "lchain (mq_next (sy_q s)) zs (mq_head (sy_q s))" by (simp add: lchain_butlast)
  then have "mq_stack ?q (zs @ sy_items s)"
    using zs P(2,6) exchange by (simp add: mq_stack_def first_or_nonempty)
  moreover have "pc_ok ?q (sy_pc s u)" for u
    by (rule pc_ok_cong[OF P(4)]) simp
  moreover have "set (chain_of (sy_pc s u)) \<inter> set (zs @ sy_items s) = {}" if "u \<noteq> t" for u
    using P(3)[OF that] P(5)[of u] by auto
  ultimately show ?thesis
    by (intro mq_inv_pcI[OF I, where t = t and pc = Idle])
       (simp_all add: exchange P(7) del: set_append)
next
  case (retry t zs old)
  then have "chain_of (sy_pc s t) = zs" by simp
  note P = mq_inv_producer[OF I this]
  show ?thesis
    using P(1) by (intro mq_inv_pcI[OF I, where t = t and pc = "Loaded zs (mq_head (sy_q s))"]) (simp_all add: retry P)
next
  case (take_all res last_elem q' xs)
  note P = mq_inv_producer[OF I refl]
  obtain q1 where q1: "mq_pop_all (sy_q s) = Some (first_or (rev (sy_items s)) None, last_or (rev (sy_items s)) None, q1)"
      "lchain (mq_next q1) (rev (sy_items s)) None" "mq_head q1 = None"
      "\<forall>b. b \<notin> set (sy_items s) \<longrightarrow> mq_next q1 b = mq_next (sy_q s) b"
    using mq_pop_all_stack[OF P(6)] by blast
  then have q': "q' = q1" "res = first_or (rev (sy_items s)) None" using take_all by auto
  then have xs: "xs = rev (sy_items s)" using lchain_unique[of "mq_next q1"] take_all q1(2) by auto
  have "pc_ok q' (sy_pc s u)" for u
    by (rule pc_ok_cong[OF P(4)]) (use P(5)[of u] q1(4) q' in auto)
  then show ?thesis
    using take_all I q1(3) q' xs by (auto simp: mq_inv_def mq_stack_def)
next
  case (own_write a p)
  note P = mq_inv_producer[OF I refl]
  have "pc_ok (mq_set_next a p (sy_q s)) (sy_pc s u)" for u
    by (rule pc_ok_cong[OF P(4)]) (use own_write in \<open>auto simp: unowned_def mq_set_next_def\<close>)
  moreover have "mq_stack (mq_set_next a p (sy_q s)) (sy_items s)"
    by (rule mq_stack_cong[OF P(6)]) (use own_write in \<open>auto simp: unowned_def mq_set_next_def\<close>)
  ultimately show ?thesis using own_write I by (simp add: mq_inv_def)
qed

lemma mq_reachable_inv: "mq_reachable s \<Longrightarrow> mq_inv s"
  by (induction rule: mq_reachable.induct) (auto intro: mq_inv_init mq_inv_step)

section \<open>Correctness\<close>

text \<open>
  One thread: \<^verbatim>\<open>PushMany\<close> of a null-terminated chain and \<^verbatim>\<open>Push\<close> put the elements on the queue so that
  \<^verbatim>\<open>PopAll\<close> returns everything in the order of insertion, null-terminated, with its tail; the loops end,
  and the result says whether the queue was empty. \<^verbatim>\<open>PushManyFastReversed\<close> inserts in reversed order.
\<close>
theorem mq_fifo:
  assumes "mq_stack q xs" and "lchain (mq_next q) zs None" and "distinct zs" and "set zs \<inter> set xs = {}"
  shows "(\<exists>q1 q2. mq_push_many (first_or zs None) q = Some (xs = [], q1) \<and>
            mq_pop_all q1 = Some (first_or (rev xs @ zs) None, last_or (rev xs @ zs) None, q2) \<and>
            lchain (mq_next q2) (rev xs @ zs) None \<and> mq_is_empty q2) \<and>
         (\<exists>q1 q2. mq_push_many_fast_reversed (first_or zs None) q = Some (xs = [], q1) \<and>
            mq_pop_all q1 = Some (first_or (rev xs @ rev zs) None, last_or (rev xs @ rev zs) None, q2) \<and>
            lchain (mq_next q2) (rev xs @ rev zs) None \<and> mq_is_empty q2)"
proof -
  obtain q1 where q1: "mq_push_many (first_or zs None) q = Some (xs = [], q1)" "mq_stack q1 (rev zs @ xs)"
    using mq_push_many_stack[OF assms] by blast
  obtain r1 where r1: "mq_push_many_fast_reversed (first_or zs None) q = Some (xs = [], r1)" "mq_stack r1 (zs @ xs)"
    using mq_push_many_fast_reversed_stack[OF assms] by blast
  show ?thesis
    using q1 r1 mq_pop_all_stack[OF q1(2)] mq_pop_all_stack[OF r1(2)] by (auto simp: mq_is_empty_def)
qed

lemma mq_fifo_witness:
  defines "q \<equiv> \<lparr>mq_next = (\<lambda>_. None)(1 := Some 2, 2 := Some (3::nat)), mq_head = None\<rparr>"
  shows "\<exists>q1 q2. mq_push_many (Some 1) q = Some (True, q1) \<and> mq_pop_all q1 = Some (Some 1, Some 3, q2)"
  using mq_fifo[of q "[]" "[1, 2, 3]"] by (auto simp: q_def mq_stack_def)

text \<open>
  C20. Under every interleaving of producers (with compare-exchange failures, retries and reuse of
  elements), the consumer's \<^verbatim>\<open>PopAll\<close> ends and returns exactly the elements whose push has succeeded and
  that were not taken before, each once, in the order in which the pushes succeeded.
\<close>
theorem mq_concurrent_fifo:
  assumes "mq_reachable s"
  shows "\<exists>xs q'. mq_pop_all (sy_q s) = Some (first_or xs None, last_or xs None, q') \<and>
           lchain (mq_next q') xs None \<and> distinct xs \<and> sy_log s = sy_out s @ xs \<and> mq_head q' = None"
proof -
  have I: "mq_inv s" using assms by (rule mq_reachable_inv)
  then show ?thesis
    using mq_pop_all_stack[of "sy_q s" "sy_items s"] by (auto simp: mq_inv_def mq_stack_def)
qed

lemma mq_push_run:
  assumes "mq_reachable s" and "sy_pc s t = Idle" and "unowned s a"
  shows "mq_reachable (s\<lparr>sy_q := snd (mq_push a (sy_q s)), sy_items := a # sy_items s, sy_log := sy_log s @ [a]\<rparr>)"
proof -
  let ?h = "mq_head (sy_q s)"
  let ?s1 = "s\<lparr>sy_pc := (sy_pc s)(t := Loaded [a] ?h)\<rparr>"
  let ?s2 = "?s1\<lparr>sy_q := mq_set_next (last [a]) ?h (sy_q ?s1), sy_pc := (sy_pc ?s1)(t := Linked [a] ?h)\<rparr>"
  let ?s3 = "?s2\<lparr>sy_q := (sy_q ?s2)\<lparr>mq_head := Some (hd [a])\<rparr>, sy_pc := (sy_pc ?s2)(t := Idle),
      sy_items := [a] @ sy_items ?s2, sy_log := sy_log ?s2 @ rev [a]\<rparr>"
  have "mq_step s ?s1" using assms(2,3) by (intro mq_step.load) auto
  then have "mq_reachable ?s1" using assms(1) by (rule mq_reachable.step[rotated])
  moreover have "mq_step ?s1 ?s2" by (rule mq_step.link) simp
  ultimately have "mq_reachable ?s2" by (rule mq_reachable.step)
  moreover have "mq_step ?s2 ?s3" by (rule mq_step.exchange) (auto simp: mq_set_next_def)
  ultimately have "mq_reachable ?s3" by (rule mq_reachable.step)
  moreover have "?s3 = s\<lparr>sy_q := snd (mq_push a (sy_q s)), sy_items := a # sy_items s, sy_log := sy_log s @ [a]\<rparr>"
    using assms(2) by (simp add: mq_push_def mq_push_range_def Let_def mq_set_next_def fun_upd_idem)
  ultimately show ?thesis by simp
qed

definition mq_run_sample :: "(nat, nat) mq_sys" where
  "mq_run_sample = (mq_init (\<lambda>_. None))
     \<lparr>sy_q := \<lparr>mq_next = (\<lambda>_. None)(8 := Some 7), mq_head = Some 8\<rparr>, sy_items := [8, 7], sy_log := [7, 8]\<rparr>"

lemma mq_run_sample_reachable: "mq_reachable mq_run_sample"
proof -
  let ?i = "mq_init (\<lambda>_. None) :: (nat, nat) mq_sys"
  let ?s = "?i\<lparr>sy_q := snd (mq_push 7 (sy_q ?i)), sy_items := 7 # sy_items ?i, sy_log := sy_log ?i @ [7]\<rparr>"
  have "mq_reachable ?s"
    by (rule mq_push_run[of _ 0]) (rule mq_reachable.init, auto simp: mq_init_def unowned_def)
  then have "mq_reachable (?s\<lparr>sy_q := snd (mq_push 8 (sy_q ?s)), sy_items := 8 # sy_items ?s, sy_log := sy_log ?s @ [8]\<rparr>)"
    by (rule mq_push_run[of _ 1]) (auto simp: mq_init_def unowned_def)
  then show ?thesis
    by (simp add: mq_run_sample_def mq_init_def mq_push_def mq_push_range_def mq_set_next_def fun_upd_idem)
qed

lemma mq_concurrent_fifo_witness:
  "\<exists>xs q'. mq_pop_all (sy_q mq_run_sample) = Some (first_or xs None, last_or xs None, q') \<and> xs = [7, 8]"
  using mq_concurrent_fifo[OF mq_run_sample_reachable] by (auto simp: mq_run_sample_def mq_init_def)

text \<open>
  Whenever a producer's compare-exchange is about to succeed, the value \<^verbatim>\<open>oldHead == nullptr\<close> that its
  push returns says exactly whether the queue is empty at that moment, whatever happened between its
  load and the exchange (so exactly one producer is told to wake the consumer); and the step makes the
  whole chain visible at once.
\<close>
theorem mq_push_result:
  assumes "mq_reachable s" and "sy_pc s t = Linked zs old" and "mq_head (sy_q s) = old"
  shows "(old = None \<longleftrightarrow> sy_log s = sy_out s) \<and>
         mq_stack ((sy_q s)\<lparr>mq_head := Some (hd zs)\<rparr>) (zs @ sy_items s)"
proof -
  have I: "mq_inv s" using assms(1) by (rule mq_reachable_inv)
  let ?s = "s\<lparr>sy_q := (sy_q s)\<lparr>mq_head := Some (hd zs)\<rparr>, sy_pc := (sy_pc s)(t := Idle),
      sy_items := zs @ sy_items s, sy_log := sy_log s @ rev zs\<rparr>"
  have "mq_inv ?s" using mq_step.exchange[OF assms(2,3)] I by (rule mq_inv_step)
  then have "mq_stack (sy_q ?s) (sy_items ?s)" unfolding mq_inv_def by blast
  moreover have "old = None \<longleftrightarrow> sy_log s = sy_out s"
    using I assms(3) by (auto simp: mq_inv_def mq_stack_def)
  ultimately show ?thesis by simp
qed

lemma mq_push_result_witness:
  "\<exists>s :: (nat, nat) mq_sys. mq_reachable s \<and> sy_pc s 0 = Linked [5] (Some 8) \<and> sy_log s \<noteq> sy_out s \<and>
     mq_stack ((sy_q s)\<lparr>mq_head := Some 5\<rparr>) (5 # sy_items s)"
proof -
  let ?s = mq_run_sample
  let ?s1 = "?s\<lparr>sy_pc := (sy_pc ?s)(0 := Loaded [5] (mq_head (sy_q ?s)))\<rparr>"
  let ?s2 = "?s1\<lparr>sy_q := mq_set_next (last [5]) (Some 8) (sy_q ?s1), sy_pc := (sy_pc ?s1)(0 := Linked [5] (Some 8))\<rparr>"
  have "mq_step ?s ?s1" by (rule mq_step.load) (auto simp: mq_run_sample_def mq_init_def unowned_def)
  then have "mq_reachable ?s1" using mq_run_sample_reachable by (rule mq_reachable.step[rotated])
  moreover have "mq_step ?s1 ?s2" by (rule mq_step.link) (simp add: mq_run_sample_def)
  ultimately have r: "mq_reachable ?s2" by (rule mq_reachable.step)
  from mq_push_result[OF r, of 0 "[5]" "Some 8"] r show ?thesis
    by (intro exI[of _ ?s2]) (simp add: mq_run_sample_def mq_set_next_def)
qed

end
