(* ===== verification/Mcsp_Queue.thy ===== *)
theory Mcsp_Queue
  imports Serverbox_Prelude
begin

text \<open>
  The multi-consumer single-producer queue of \<^verbatim>\<open>mg/box/MultiConsumerQueueBase.cpp\<close> (the typed
  \<^verbatim>\<open>MultiConsumerQueue.h\<close> only casts pointers): a doubly linked list of bounded sub-queues.

  \<open>subq\<close> is one \<^verbatim>\<open>MCQBaseSubQueue\<close>: indices, the saved first pending element, the cells, the consumer
  count and the list links. \<open>mcq\<close> is the queue with the store of sub-queues by address (a natural
  number) and the position of every consumer object. Each method runs as one step, as the only
  producer and the consumers holding the lock see it; the compare-exchange of a pop succeeds at once.
  Items are pointers, and \<open>None\<close>, the null pointer, is the end mark of the cells. A failing assertion,
  a null pointer that is followed and an index outside the cells make the result \<open>None\<close>. Memory
  from \<^verbatim>\<open>new\<close> is an argument: its address and the content of its cells, which is arbitrary.
\<close>

section \<open>Sub-queues\<close>

record 'a subq =
  sq_read :: nat
  sq_flush :: nat
  sq_write :: nat
  sq_pending :: "'a ptr"
  sq_cells :: "nat \<Rightarrow> 'a ptr"
  sq_size :: nat
  sq_consumers :: nat
  sq_prev :: "nat ptr"
  sq_next :: "nat ptr"

definition sq_store :: "nat \<Rightarrow> 'a ptr \<Rightarrow> 'a subq \<Rightarrow> 'a subq option" where
  "sq_store i x q = do { mg_assert (i \<le> sq_size q); Some (q\<lparr>sq_cells := (sq_cells q)(i := x)\<rparr>) }"

definition sq_reset :: "'a subq \<Rightarrow> 'a subq option" where
  "sq_reset q = do {
     mg_assert (sq_consumers q = 0);
     mg_assert (sq_prev q = None);
     mg_assert (sq_next q = None);
     mg_assert (sq_read q = sq_size q);
     mg_assert (sq_write q = sq_size q);
     mg_assert (sq_flush q = sq_size q);
     mg_assert (sq_pending q = None);
     sq_store 0 None (q\<lparr>sq_read := 0, sq_flush := 0, sq_write := 0\<rparr>) }"

definition sq_new :: "nat \<Rightarrow> (nat \<Rightarrow> 'a ptr) \<Rightarrow> 'a subq option" where
  "sq_new sz memory = sq_reset \<lparr>sq_read = sz, sq_flush = sz, sq_write = sz, sq_pending = None,
     sq_cells = memory, sq_size = sz, sq_consumers = 0, sq_prev = None, sq_next = None\<rparr>"

definition sq_delete_ok :: "'a subq \<Rightarrow> bool" where
  "sq_delete_ok q = (sq_consumers q = 0 \<and> sq_prev q = None \<and> sq_next q = None)"

definition sq_push :: "'a ptr \<Rightarrow> 'a subq \<Rightarrow> (bool \<times> 'a subq) option" where
  "sq_push item q = do {
     mg_assert (item \<noteq> None);
     let windex = sq_write q;
     if windex = sq_size q then Some (False, q)
     else do {
       let nextWindex = windex + 1;
       let findex = sq_flush q;
       q1 \<leftarrow> sq_store nextWindex None q;
       let q2 = q1\<lparr>sq_write := nextWindex, sq_flush := nextWindex\<rparr>;
       let old = sq_pending q2;
       (q4, item') \<leftarrow> (if old \<noteq> None then do {
                         mg_assert (windex > findex);
                         q3 \<leftarrow> sq_store windex item q2;
                         Some (q3\<lparr>sq_pending := None\<rparr>, old) }
                       else Some (q2, item));
       let old' = sq_cells q4 findex;
       q5 \<leftarrow> sq_store findex item' q4;
       mg_assert (old' = None);
       Some (True, q5) } }"

definition sq_push_pending :: "'a ptr \<Rightarrow> 'a subq \<Rightarrow> (bool \<times> 'a subq) option" where
  "sq_push_pending item q = do {
     mg_assert (item \<noteq> None);
     let windex = sq_write q;
     if windex = sq_size q then Some (False, q)
     else do {
       q1 \<leftarrow> (if sq_pending q = None then Some (q\<lparr>sq_pending := item\<rparr>) else sq_store windex item q);
       Some (True, q1\<lparr>sq_write := windex + 1\<rparr>) } }"

definition sq_flush_pending :: "'a subq \<Rightarrow> (bool \<times> 'a subq) option" where
  "sq_flush_pending q =
     (if sq_pending q = None then Some (False, q)
      else do {
        let windex = sq_write q;
        let findex = sq_flush q;
        mg_assert (windex > findex);
        q1 \<leftarrow> sq_store windex None q;
        let old = sq_cells q1 findex;
        q2 \<leftarrow> sq_store findex (sq_pending q1) q1;
        mg_assert (old = None);
        Some (True, q2\<lparr>sq_pending := None, sq_flush := windex\<rparr>) })"

text \<open>The result of \<^verbatim>\<open>Pop\<close>: whether the sub-queue may have more, and the item.\<close>

definition sq_pop :: "'a subq \<Rightarrow> bool \<times> 'a ptr \<times> 'a subq" where
  "sq_pop q =
     (let rindex = sq_read q
      in if rindex = sq_size q then (False, None, q)
         else case sq_cells q rindex of
                None \<Rightarrow> (True, None, q)
              | Some x \<Rightarrow> (True, Some x, q\<lparr>sq_read := rindex + 1\<rparr>))"

definition sq_is_full :: "'a subq \<Rightarrow> bool" where
  "sq_is_full q = (sq_flush q = sq_size q)"

section \<open>What a sub-queue holds\<close>

text \<open>\<open>vis\<close> are the elements the consumers can still read, \<open>pend\<close> those only the producer knows.\<close>

definition sq_ok :: "'a subq \<Rightarrow> 'a list \<Rightarrow> 'a list \<Rightarrow> bool" where
  "sq_ok q vis pend =
    (sq_flush q = sq_read q + length vis \<and> sq_write q = sq_flush q + length pend \<and> sq_write q \<le> sq_size q \<and>
     (\<forall>i < length vis. sq_cells q (sq_read q + i) = Some (vis ! i)) \<and>
     sq_cells q (sq_flush q) = None \<and>
     sq_pending q = first_or pend None \<and>
     (\<forall>i < length pend. 0 < i \<longrightarrow> sq_cells q (sq_flush q + i) = Some (pend ! i)))"

text \<open>What none of the four operations touches.\<close>

definition sq_same :: "'a subq \<Rightarrow> 'a subq \<Rightarrow> bool" where
  "sq_same q q' = (sq_size q' = sq_size q \<and> sq_consumers q' = sq_consumers q \<and>
     sq_prev q' = sq_prev q \<and> sq_next q' = sq_next q)"

lemma sq_push_ok:
  assumes "sq_ok q vis pend" and "sq_write q < sq_size q"
  shows "\<exists>q'. sq_push (Some x) q = Some (True, q') \<and> sq_ok q' (vis @ pend @ [x]) [] \<and> sq_same q q'"
proof (cases pend)
  case Nil
  then show ?thesis
    using assms by (auto simp: sq_push_def sq_store_def sq_ok_def sq_same_def Let_def nth_append less_Suc_eq)
next
  case (Cons p ps)
  have cells: "sq_cells q (sq_flush q + i) = Some (pend ! i)" if "0 < i" "i < length pend" for i
    using assms(1) that unfolding sq_ok_def by blast
  have vis: "sq_cells q (sq_read q + i) = Some (vis ! i)" if "i < length vis" for i
    using assms(1) that unfolding sq_ok_def by blast
  have idx: "sq_flush q = sq_read q + length vis" "sq_write q = sq_read q + length vis + length pend"
    "0 < length pend" "pend ! 0 = p"
    using assms(1) Cons unfolding sq_ok_def by auto
  have "((sq_cells q)(Suc (sq_write q) := None, sq_write q := Some x, sq_flush q := Some p)) (sq_read q + i) =
      Some ((vis @ pend @ [x]) ! i)" if "i < length vis + length pend + 1" for i
  proof (cases "i < length vis")
    case True
    then show ?thesis using vis[OF True] idx by (simp add: nth_append)
  next
    case False
    define j where "j = i - length vis"
    then have j: "i = length vis + j" "j \<le> length pend" using that False by linarith+
    have addr: "sq_read q + i = sq_flush q + j" and wr: "sq_write q = sq_flush q + length pend"
      using j idx by linarith+
    have rhs: "(vis @ pend @ [x]) ! i = (pend @ [x]) ! j" using j(1) by (simp add: nth_append)
    consider "j = 0" | "0 < j" "j < length pend" | "0 < j" "j = length pend" using j(2) idx(3) by linarith
    then show ?thesis
      unfolding addr rhs wr
    proof cases
      case 1
      then show "((sq_cells q)(Suc (sq_flush q + length pend) := None, sq_flush q + length pend := Some x,
          sq_flush q := Some p)) (sq_flush q + j) = Some ((pend @ [x]) ! j)"
        using idx(3,4) by (simp add: nth_append)
    next
      case 2
      then show "((sq_cells q)(Suc (sq_flush q + length pend) := None, sq_flush q + length pend := Some x,
          sq_flush q := Some p)) (sq_flush q + j) = Some ((pend @ [x]) ! j)"
        using cells[of j] by (simp add: nth_append)
    next
      case 3
      then show "((sq_cells q)(Suc (sq_flush q + length pend) := None, sq_flush q + length pend := Some x,
          sq_flush q := Some p)) (sq_flush q + j) = Some ((pend @ [x]) ! j)"
        by (simp add: nth_append)
    qed
  qed
  note mem = this
  have st: "sq_pending q = Some p" "sq_cells q (sq_flush q) = None" "sq_write q < sq_size q"
    using assms Cons unfolding sq_ok_def by auto
  let ?q = "q\<lparr>sq_cells := (sq_cells q)(Suc (sq_write q) := None, sq_write q := Some x, sq_flush q := Some p),
    sq_write := Suc (sq_write q), sq_flush := Suc (sq_write q), sq_pending := None\<rparr>"
  have "sq_push (Some x) q = Some (True, ?q)"
    using st idx by (simp add: sq_push_def sq_store_def Let_def)
  moreover have "sq_ok ?q (vis @ pend @ [x]) []"
    unfolding sq_ok_def using st idx mem by simp
  ultimately show ?thesis by (auto simp: sq_same_def)
qed

lemma sq_push_full: "sq_write q = sq_size q \<Longrightarrow> sq_push (Some x) q = Some (False, q)"
  by (simp add: sq_push_def)

lemma sq_push_pending_ok:
  assumes "sq_ok q vis pend" and "sq_write q < sq_size q"
  shows "\<exists>q'. sq_push_pending (Some x) q = Some (True, q') \<and> sq_ok q' vis (pend @ [x]) \<and> sq_same q q'"
  using assms
  by (cases pend) (auto simp: sq_push_pending_def sq_store_def sq_ok_def sq_same_def nth_append less_Suc_eq nth_Cons')

lemma sq_push_pending_full: "sq_write q = sq_size q \<Longrightarrow> sq_push_pending (Some x) q = Some (False, q)"
  by (simp add: sq_push_pending_def)

lemma sq_pop_cases:
  assumes "sq_ok q vis pend"
  shows "case vis of
      [] \<Rightarrow> sq_pop q = (sq_read q < sq_size q, None, q)
    | v # vs \<Rightarrow> \<exists>q'. sq_pop q = (True, Some v, q') \<and> sq_ok q' vs pend \<and> sq_same q q' \<and>
                    sq_flush q' = sq_flush q"
proof (cases vis)
  case Nil
  then show ?thesis using assms by (auto simp: sq_pop_def sq_ok_def Let_def)
next
  case (Cons v vs)
  have "sq_cells q (Suc (sq_read q) + i) = Some (vs ! i)" if "i < length vs" for i
    using assms that Cons by (auto simp: sq_ok_def dest!: spec[of _ "Suc i"])
  moreover have "sq_cells q (sq_read q) = Some v"
    using assms Cons by (auto simp: sq_ok_def dest!: spec[of _ 0])
  ultimately show ?thesis
    using assms Cons by (auto simp: sq_pop_def sq_ok_def sq_same_def Let_def)
qed

lemma sq_flush_pending_ok:
  assumes "sq_ok q vis pend"
  shows "\<exists>q'. sq_flush_pending q = Some (pend \<noteq> [], q') \<and> sq_ok q' (vis @ pend) [] \<and> sq_same q q' \<and>
           sq_write q' = sq_write q \<and> sq_read q' = sq_read q"
proof (cases pend)
  case Nil
  then show ?thesis using assms by (auto simp: sq_flush_pending_def sq_ok_def sq_same_def)
next
  case (Cons p ps)
  have cells: "sq_cells q (sq_flush q + i) = Some (pend ! i)" if "0 < i" "i < length pend" for i
    using assms that unfolding sq_ok_def by blast
  have vis: "sq_cells q (sq_read q + i) = Some (vis ! i)" if "i < length vis" for i
    using assms that unfolding sq_ok_def by blast
  have idx: "sq_flush q = sq_read q + length vis" "sq_write q = sq_read q + length vis + length pend"
    "0 < length pend" "pend ! 0 = p"
    using assms Cons unfolding sq_ok_def by auto
  have "((sq_cells q)(sq_write q := None, sq_flush q := Some p)) (sq_read q + i) = Some ((vis @ pend) ! i)"
    if "i < length vis + length pend" for i
  proof (cases "i < length vis")
    case True
    then show ?thesis using vis[OF True] idx by (simp add: nth_append)
  next
    case False
    define j where "j = i - length vis"
    then have j: "i = length vis + j" "j < length pend" using that False by linarith+
    have addr: "sq_read q + i = sq_flush q + j" and wr: "sq_write q = sq_flush q + length pend"
      using j idx by linarith+
    have rhs: "(vis @ pend) ! i = pend ! j" using j(1) by (simp add: nth_append)
    show ?thesis
      unfolding addr rhs wr using cells[of j] j(2) idx(3,4) by (cases "j = 0") simp_all
  qed
  note mem = this
  have st: "sq_pending q = Some p" "sq_cells q (sq_flush q) = None" "sq_write q \<le> sq_size q"
    using assms Cons unfolding sq_ok_def by auto
  let ?q = "q\<lparr>sq_cells := (sq_cells q)(sq_write q := None, sq_flush q := Some p),
    sq_pending := None, sq_flush := sq_write q\<rparr>"
  have "sq_flush_pending q = Some (True, ?q)"
    using st idx by (simp add: sq_flush_pending_def sq_store_def Let_def)
  moreover have "sq_ok ?q (vis @ pend) []"
    unfolding sq_ok_def using st idx mem by simp
  ultimately show ?thesis using Cons by (auto simp: sq_same_def)
qed

lemma sq_new_ok:
  "\<exists>q. sq_new sz memory = Some q \<and> sq_ok q [] [] \<and> sq_read q = 0 \<and> sq_flush q = 0 \<and> sq_size q = sz \<and>
       sq_consumers q = 0 \<and> sq_prev q = None \<and> sq_next q = None"
  by (auto simp: sq_new_def sq_reset_def sq_store_def sq_ok_def)

section \<open>The queue\<close>

record ('c, 'a) mcq =
  mc_sub :: "nat \<Rightarrow> 'a subq"
  mc_head :: nat
  mc_wpos :: nat
  mc_tail :: nat
  mc_count :: nat
  mc_pending_count :: nat
  mc_sub_count :: nat
  mc_consumer_count :: nat
  mc_pos :: "'c \<Rightarrow> nat ptr"

definition mc_put :: "nat \<Rightarrow> 'a subq \<Rightarrow> ('c, 'a) mcq \<Rightarrow> ('c, 'a) mcq" where
  "mc_put i q st = st\<lparr>mc_sub := (mc_sub st)(i := q)\<rparr>"

definition mc_set_next :: "nat \<Rightarrow> nat ptr \<Rightarrow> ('c, 'a) mcq \<Rightarrow> ('c, 'a) mcq" where
  "mc_set_next i p st = mc_put i ((mc_sub st i)\<lparr>sq_next := p\<rparr>) st"

definition mc_set_prev :: "nat \<Rightarrow> nat ptr \<Rightarrow> ('c, 'a) mcq \<Rightarrow> ('c, 'a) mcq" where
  "mc_set_prev i p st = mc_put i ((mc_sub st i)\<lparr>sq_prev := p\<rparr>) st"

definition mc_add_consumer :: "nat \<Rightarrow> ('c, 'a) mcq \<Rightarrow> ('c, 'a) mcq" where
  "mc_add_consumer i st = mc_put i ((mc_sub st i)\<lparr>sq_consumers := sq_consumers (mc_sub st i) + 1\<rparr>) st"

definition mc_del_consumer :: "nat \<Rightarrow> ('c, 'a) mcq \<Rightarrow> ('c, 'a) mcq" where
  "mc_del_consumer i st = mc_put i ((mc_sub st i)\<lparr>sq_consumers := sq_consumers (mc_sub st i) - 1\<rparr>) st"

definition mc_new :: "nat \<Rightarrow> nat \<Rightarrow> (nat \<Rightarrow> 'a ptr) \<Rightarrow> ('c, 'a) mcq option" where
  "mc_new sz addr memory = do {
     mg_assert (sz > 0);
     q \<leftarrow> sq_new sz memory;
     Some \<lparr>mc_sub = \<lambda>_. q, mc_head = addr, mc_wpos = addr, mc_tail = addr, mc_count = 0,
       mc_pending_count = 0, mc_sub_count = 1, mc_consumer_count = 0, mc_pos = \<lambda>_. None\<rparr> }"

definition mc_next_wpos :: "nat \<Rightarrow> (nat \<Rightarrow> 'a ptr) \<Rightarrow> ('c, 'a) mcq \<Rightarrow> ('c, 'a) mcq option" where
  "mc_next_wpos addr memory st = do {
     mg_assert (mc_pending_count st = 0);
     mg_assert (sq_is_full (mc_sub st (mc_wpos st)));
     case sq_next (mc_sub st (mc_wpos st)) of
       Some w \<Rightarrow> Some (st\<lparr>mc_wpos := w\<rparr>)
     | None \<Rightarrow> do {
         q \<leftarrow> sq_new (sq_size (mc_sub st (mc_tail st))) memory;
         let st1 = mc_put addr q (st\<lparr>mc_wpos := addr, mc_sub_count := mc_sub_count st + 1\<rparr>);
         let st2 = mc_set_prev addr (Some (mc_tail st1)) st1;
         let st3 = mc_set_next (mc_tail st2) (Some addr) st2;
         Some (st3\<lparr>mc_tail := addr\<rparr>) } }"

definition mc_flush_pending :: "('c, 'a) mcq \<Rightarrow> (bool \<times> ('c, 'a) mcq) option" where
  "mc_flush_pending st =
     (if mc_pending_count st = 0 then Some (False, st)
      else do {
        let becameNotEmpty = (mc_count st = 0);
        let st1 = st\<lparr>mc_count := mc_count st + mc_pending_count st, mc_pending_count := 0\<rparr>;
        (_, q) \<leftarrow> sq_flush_pending (mc_sub st1 (mc_wpos st1));
        Some (becameNotEmpty, mc_put (mc_wpos st1) q st1) })"

definition mc_push :: "nat \<Rightarrow> (nat \<Rightarrow> 'a ptr) \<Rightarrow> 'a ptr \<Rightarrow> ('c, 'a) mcq \<Rightarrow> (bool \<times> ('c, 'a) mcq) option" where
  "mc_push addr memory item st = do {
     let count = mc_pending_count st + 1;
     let becameNotEmpty = (mc_count st = 0);
     let st1 = st\<lparr>mc_pending_count := 0, mc_count := mc_count st + count\<rparr>;
     (ok, q) \<leftarrow> sq_push item (mc_sub st1 (mc_wpos st1));
     let st2 = mc_put (mc_wpos st1) q st1;
     if ok then Some (becameNotEmpty, st2)
     else do {
       (_, q1) \<leftarrow> sq_flush_pending (mc_sub st2 (mc_wpos st2));
       st3 \<leftarrow> mc_next_wpos addr memory (mc_put (mc_wpos st2) q1 st2);
       (_, q2) \<leftarrow> sq_push item (mc_sub st3 (mc_wpos st3));
       Some (becameNotEmpty, mc_put (mc_wpos st3) q2 st3) } }"

definition mc_push_pending :: "nat \<Rightarrow> (nat \<Rightarrow> 'a ptr) \<Rightarrow> 'a ptr \<Rightarrow> ('c, 'a) mcq \<Rightarrow> (bool \<times> ('c, 'a) mcq) option" where
  "mc_push_pending addr memory item st = do {
     (ok, q) \<leftarrow> sq_push_pending item (mc_sub st (mc_wpos st));
     let st1 = mc_put (mc_wpos st) q st;
     if ok then Some (False, st1\<lparr>mc_pending_count := mc_pending_count st1 + 1\<rparr>)
     else do {
       (becameNotEmpty, st2) \<leftarrow> mc_flush_pending st1;
       st3 \<leftarrow> mc_next_wpos addr memory st2;
       (_, q1) \<leftarrow> sq_push_pending item (mc_sub st3 (mc_wpos st3));
       let st4 = mc_put (mc_wpos st3) q1 st3;
       Some (becameNotEmpty, st4\<lparr>mc_pending_count := mc_pending_count st4 + 1\<rparr>) } }"

definition mc_collect :: "nat \<Rightarrow> ('c, 'a) mcq \<Rightarrow> ('c, 'a) mcq option" where
  "mc_collect i st =
     (if i = mc_wpos st then Some st
      else if sq_consumers (mc_sub st i) \<noteq> 0 then Some st
      else if sq_read (mc_sub st i) < sq_size (mc_sub st i) then Some st
      else do {
        next \<leftarrow> sq_next (mc_sub st i);
        let prev = sq_prev (mc_sub st i);
        st1 \<leftarrow> (case prev of
                  None \<Rightarrow> do { mg_assert (i = mc_head st); Some ((mc_set_prev next None st)\<lparr>mc_head := next\<rparr>) }
                | Some p \<Rightarrow> Some (mc_set_prev next (Some p) (mc_set_next p (Some next) st)));
        let st2 = mc_set_prev i None (mc_set_next i None st1);
        q \<leftarrow> sq_reset (mc_sub st2 i);
        let st3 = mc_put i q st2;
        let st4 = mc_set_next (mc_tail st3) (Some i) st3;
        let st5 = mc_set_prev i (Some (mc_tail st4)) st4;
        Some (st5\<lparr>mc_tail := i\<rparr>) })"

text \<open>The loop of \<^verbatim>\<open>MCQBaseConsumer::Pop\<close> with the consumer's local \<open>cur\<close>.\<close>

partial_function (option) mc_pop_loop ::
  "'c \<Rightarrow> nat \<Rightarrow> ('c, 'a) mcq \<Rightarrow> ('a ptr \<times> ('c, 'a) mcq) option" where
  "mc_pop_loop c cur st =
     (let (more, res, q) = sq_pop (mc_sub st cur);
          st0 = mc_put cur q st
      in if more
         then Some (res, if res \<noteq> None then st0\<lparr>mc_count := mc_count st0 - 1\<rparr> else st0)
         else if cur = mc_wpos st0 then Some (None, st0)
         else do {
           let st1 = mc_del_consumer cur st0;
           next \<leftarrow> sq_next (mc_sub st1 cur);
           st2 \<leftarrow> mc_collect cur st1;
           let st3 = mc_add_consumer next st2;
           mc_pop_loop c next (st3\<lparr>mc_pos := (mc_pos st3)(c := Some next)\<rparr>) })"

definition mc_pop :: "'c \<Rightarrow> ('c, 'a) mcq \<Rightarrow> ('a ptr \<times> ('c, 'a) mcq) option" where
  "mc_pop c st = do { cur \<leftarrow> mc_pos st c; mc_pop_loop c cur st }"

definition mc_attach :: "'c \<Rightarrow> ('c, 'a) mcq \<Rightarrow> ('c, 'a) mcq" where
  "mc_attach c st =
     (let st1 = st\<lparr>mc_consumer_count := mc_consumer_count st + 1\<rparr>;
          head = mc_head st1;
          st2 = mc_add_consumer head st1
      in st2\<lparr>mc_pos := (mc_pos st2)(c := Some head)\<rparr>)"

definition mc_detach :: "'c \<Rightarrow> ('c, 'a) mcq \<Rightarrow> ('c, 'a) mcq option" where
  "mc_detach c st =
     (case mc_pos st c of
        None \<Rightarrow> Some st
      | Some q \<Rightarrow> do {
          let st1 = mc_del_consumer q (st\<lparr>mc_consumer_count := mc_consumer_count st - 1\<rparr>);
          st2 \<leftarrow> mc_collect q st1;
          Some (st2\<lparr>mc_pos := (mc_pos st2)(c := None)\<rparr>) })"

text \<open>The loop of \<^verbatim>\<open>Reserve\<close>, over the addresses of the new sub-queues but the first.\<close>

primrec mc_reserve_loop ::
  "nat \<Rightarrow> (nat \<Rightarrow> 'a ptr) \<Rightarrow> nat list \<Rightarrow> nat \<Rightarrow> ('c, 'a) mcq \<Rightarrow> (nat \<times> ('c, 'a) mcq) option" where
  "mc_reserve_loop sz memory [] last_sub st = Some (last_sub, st)"
| "mc_reserve_loop sz memory (a # addrs) last_sub st = do {
     q \<leftarrow> sq_new sz memory;
     let st1 = mc_put a q st;
     let st2 = mc_set_next last_sub (Some a) st1;
     let st3 = mc_set_prev a (Some last_sub) st2;
     mc_reserve_loop sz memory addrs a st3 }"

text \<open>\<open>addrs\<close> is the sequence of addresses the allocator returns.\<close>

definition mc_reserve :: "(nat \<Rightarrow> nat) \<Rightarrow> (nat \<Rightarrow> 'a ptr) \<Rightarrow> nat \<Rightarrow> ('c, 'a) mcq \<Rightarrow> ('c, 'a) mcq option" where
  "mc_reserve addrs memory n st = do {
     let sz = sq_size (mc_sub st (mc_tail st));
     let n' = n div sz + (if n mod sz \<noteq> 0 then 1 else 0);
     let count = mc_sub_count st;
     if count \<ge> n' then Some st
     else do {
       let count' = n' - count;
       let head = addrs 0;
       q \<leftarrow> sq_new sz memory;
       let st1 = mc_put head q st;
       (last_sub, st2) \<leftarrow> mc_reserve_loop sz memory (map addrs [1..<count']) head st1;
       let st3 = st2\<lparr>mc_sub_count := mc_sub_count st2 + count'\<rparr>;
       let st4 = mc_set_prev head (Some (mc_tail st3)) st3;
       let st5 = mc_set_next (mc_tail st4) (Some head) st4;
       Some (st5\<lparr>mc_tail := last_sub\<rparr>) } }"

text \<open>The destructor: the result is the count of deleted sub-queues.\<close>

partial_function (option) mc_delete_loop :: "nat ptr \<Rightarrow> nat \<Rightarrow> ('c, 'a) mcq \<Rightarrow> nat option" where
  "mc_delete_loop head n st =
    (case head of
       None \<Rightarrow> Some n
     | Some h \<Rightarrow> do {
         let next = sq_next (mc_sub st h);
         let st1 = mc_set_next h None (mc_set_prev h None st);
         mg_assert (sq_delete_ok (mc_sub st1 h));
         mc_delete_loop next (n + 1) st1 })"

definition mc_delete :: "('c, 'a) mcq \<Rightarrow> unit option" where
  "mc_delete st = do {
     mg_assert (mc_consumer_count st = 0);
     n \<leftarrow> mc_delete_loop (Some (mc_head st)) 0 st;
     mg_assert (n = mc_sub_count st) }"

section \<open>The invariant\<close>

text \<open>
  The list of sub-queues is \<open>bs @ w # as\<close>: full ones before the write position \<open>w\<close>, reset ones after it.
  \<open>V\<close> gives what is visible in each, \<open>P\<close> is pending in \<open>w\<close>, \<open>C\<close> the attached consumers. Everything before
  the position of a consumer is exhausted (\<open>at_front\<close>), so the consumer reads the oldest element.
\<close>

definition nexts :: "('c, 'a) mcq \<Rightarrow> nat \<Rightarrow> nat ptr" where
  "nexts st i = sq_next (mc_sub st i)"

definition prevs :: "('c, 'a) mcq \<Rightarrow> nat \<Rightarrow> nat ptr" where
  "prevs st i = sq_prev (mc_sub st i)"

definition mc_linked :: "('c, 'a) mcq \<Rightarrow> nat list \<Rightarrow> bool" where
  "mc_linked st ids = (distinct ids \<and> lchain (nexts st) ids None \<and> lchain (prevs st) (rev ids) None \<and>
     Some (mc_head st) = first_or ids None \<and> Some (mc_tail st) = last_or ids None)"

definition at_front :: "nat list \<Rightarrow> (nat \<Rightarrow> 'a list) \<Rightarrow> nat \<Rightarrow> bool" where
  "at_front ids V i = (\<exists>xs ys. ids = xs @ i # ys \<and> (\<forall>j \<in> set xs. V j = []))"

definition mc_shape :: "('c, 'a) mcq \<Rightarrow> nat \<Rightarrow> nat list \<Rightarrow> nat \<Rightarrow> nat list \<Rightarrow> bool" where
  "mc_shape st sz bs w as = (mc_linked st (bs @ w # as) \<and> mc_wpos st = w \<and> sz > 0 \<and>
     (\<forall>i \<in> set (bs @ w # as). sq_size (mc_sub st i) = sz))"

definition mc_content ::
  "('c, 'a) mcq \<Rightarrow> nat \<Rightarrow> nat list \<Rightarrow> nat \<Rightarrow> nat list \<Rightarrow> (nat \<Rightarrow> 'a list) \<Rightarrow> 'a list \<Rightarrow> bool" where
  "mc_content st sz bs w as V P =
    ((\<forall>i \<in> set bs. sq_ok (mc_sub st i) (V i) [] \<and> sq_flush (mc_sub st i) = sz) \<and>
     sq_ok (mc_sub st w) (V w) P \<and>
     (\<forall>i \<in> set as. sq_ok (mc_sub st i) [] [] \<and> sq_read (mc_sub st i) = 0))"

definition mc_users :: "('c, 'a) mcq \<Rightarrow> nat list \<Rightarrow> nat \<Rightarrow> nat list \<Rightarrow> (nat \<Rightarrow> 'a list) \<Rightarrow> 'c set \<Rightarrow> bool" where
  "mc_users st bs w as V C =
    (finite C \<and> (\<forall>i \<in> set (bs @ w # as). sq_consumers (mc_sub st i) = card {c \<in> C. mc_pos st c = Some i}) \<and>
     (\<forall>c \<in> C. \<exists>i. mc_pos st c = Some i \<and> at_front (bs @ [w]) V i))"

definition mc_inv ::
  "('c, 'a) mcq \<Rightarrow> nat \<Rightarrow> nat list \<Rightarrow> nat \<Rightarrow> nat list \<Rightarrow> (nat \<Rightarrow> 'a list) \<Rightarrow> 'a list \<Rightarrow> 'c set \<Rightarrow> bool" where
  "mc_inv st sz bs w as V P C =
    (mc_shape st sz bs w as \<and> mc_content st sz bs w as V P \<and> mc_users st bs w as V C)"

lemmas mc_inv_defs = mc_inv_def mc_shape_def mc_content_def mc_users_def mc_linked_def

lemma links_put [simp]:
  "nexts (mc_put i q st) = (nexts st)(i := sq_next q)" "prevs (mc_put i q st) = (prevs st)(i := sq_prev q)"
  by (auto simp: nexts_def prevs_def mc_put_def fun_eq_iff)

lemma links_set [simp]:
  "nexts (mc_set_next i p st) = (nexts st)(i := p)" "prevs (mc_set_next i p st) = prevs st"
  "nexts (mc_set_prev i p st) = nexts st" "prevs (mc_set_prev i p st) = (prevs st)(i := p)"
  by (auto simp: nexts_def prevs_def mc_put_def mc_set_next_def mc_set_prev_def fun_eq_iff)

lemma put_sel [simp]:
  "mc_sub (mc_put i q st) = (mc_sub st)(i := q)" "mc_head (mc_put i q st) = mc_head st"
  "mc_tail (mc_put i q st) = mc_tail st" "mc_wpos (mc_put i q st) = mc_wpos st"
  "mc_pos (mc_put i q st) = mc_pos st" "mc_count (mc_put i q st) = mc_count st"
  "mc_pending_count (mc_put i q st) = mc_pending_count st" "mc_sub_count (mc_put i q st) = mc_sub_count st"
  "mc_consumer_count (mc_put i q st) = mc_consumer_count st"
  by (simp_all add: mc_put_def)

lemma links_upd [simp]:
  "nexts (st\<lparr>mc_wpos := a\<rparr>) = nexts st" "nexts (st\<lparr>mc_head := a\<rparr>) = nexts st" "nexts (st\<lparr>mc_tail := a\<rparr>) = nexts st"
  "nexts (st\<lparr>mc_count := a\<rparr>) = nexts st" "nexts (st\<lparr>mc_pending_count := a\<rparr>) = nexts st"
  "nexts (st\<lparr>mc_sub_count := a\<rparr>) = nexts st" "nexts (st\<lparr>mc_pos := f\<rparr>) = nexts st"
  "nexts (st\<lparr>mc_consumer_count := a\<rparr>) = nexts st"
  "prevs (st\<lparr>mc_wpos := a\<rparr>) = prevs st" "prevs (st\<lparr>mc_head := a\<rparr>) = prevs st" "prevs (st\<lparr>mc_tail := a\<rparr>) = prevs st"
  "prevs (st\<lparr>mc_count := a\<rparr>) = prevs st" "prevs (st\<lparr>mc_pending_count := a\<rparr>) = prevs st"
  "prevs (st\<lparr>mc_sub_count := a\<rparr>) = prevs st" "prevs (st\<lparr>mc_pos := f\<rparr>) = prevs st"
  "prevs (st\<lparr>mc_consumer_count := a\<rparr>) = prevs st"
  by (simp_all add: nexts_def prevs_def fun_eq_iff)

lemma sq_ok_upd [simp]:
  "sq_ok (q\<lparr>sq_next := p\<rparr>) v u = sq_ok q v u" "sq_ok (q\<lparr>sq_prev := p\<rparr>) v u = sq_ok q v u"
  "sq_ok (q\<lparr>sq_consumers := n\<rparr>) v u = sq_ok q v u"
  by (simp_all add: sq_ok_def)

lemmas mc_set_defs = mc_set_next_def mc_set_prev_def mc_add_consumer_def mc_del_consumer_def

lemma at_front_split:
  assumes "at_front ids V i"
  obtains xs ys where "ids = xs @ i # ys" and "\<forall>j \<in> set xs. V j = []"
  using assms by (auto simp: at_front_def)

lemma at_front_mono: "at_front ids V i \<Longrightarrow> (\<And>j. V j = [] \<Longrightarrow> V' j = []) \<Longrightarrow> at_front ids V' i"
  unfolding at_front_def by blast

lemma at_front_in: "at_front ids V i \<Longrightarrow> i \<in> set ids"
  by (auto simp: at_front_def)

lemma at_front_snoc: "at_front ids V i \<Longrightarrow> at_front (ids @ [w]) V i"
  unfolding at_front_def by (metis append_Cons append_assoc)

lemma mc_inv_distinct: "mc_inv st sz bs w as V P C \<Longrightarrow> distinct (bs @ w # as)"
  by (simp add: mc_inv_defs)

lemma mc_inv_user:
  assumes "mc_inv st sz bs w as V P C" and "c \<in> C"
  obtains i where "mc_pos st c = Some i" and "at_front (bs @ [w]) V i" and "i \<in> set (bs @ [w])"
proof -
  have "\<exists>i. mc_pos st c = Some i \<and> at_front (bs @ [w]) V i"
    using assms by (simp add: mc_inv_def mc_users_def)
  then show ?thesis using that at_front_in by blast
qed

lemma mc_inv_sub:
  assumes "mc_inv st sz bs w as V P C" and "i \<in> set (bs @ [w])"
  shows "sq_ok (mc_sub st i) (V i) (if i = w then P else [])" and "sq_size (mc_sub st i) = sz"
  using assms by (auto simp: mc_inv_defs)

text \<open>Changing the contents of one sub-queue up to the write position.\<close>

lemma mc_inv_put:
  assumes I: "mc_inv st sz bs w as V P C" and i: "i \<in> set (bs @ [w])"
    and same: "sq_same (mc_sub st i) q" and ok: "sq_ok q v (if i = w then P' else [])"
    and full: "i \<noteq> w \<Longrightarrow> sq_flush q = sz \<and> P' = P"
    and front: "\<And>j. j \<in> set bs \<Longrightarrow> V j = [] \<Longrightarrow> (V(i := v)) j = []"
  shows "mc_inv (mc_put i q st) sz bs w as (V(i := v)) P' C"
proof -
  have d: "distinct (bs @ w # as)" using I by (rule mc_inv_distinct)
  have lk: "(nexts st)(i := sq_next (mc_sub st i)) = nexts st" "(prevs st)(i := sq_prev (mc_sub st i)) = prevs st"
    by (auto simp: nexts_def prevs_def fun_eq_iff)
  have fr: "at_front (bs @ [w]) (V(i := v)) j" if "at_front (bs @ [w]) V j" for j
    using that
  proof (rule at_front_split)
    fix xs ys assume x: "bs @ [w] = xs @ j # ys" "\<forall>k \<in> set xs. V k = []"
    then have "set xs \<subseteq> set bs" by (cases ys rule: rev_cases) auto
    then show ?thesis using x front unfolding at_front_def by blast
  qed
  have "mc_shape (mc_put i q st) sz bs w as"
    using I same unfolding mc_inv_def mc_shape_def mc_linked_def by (auto simp: lk sq_same_def)
  moreover have "mc_content (mc_put i q st) sz bs w as (V(i := v)) P'"
    using I i ok full d unfolding mc_inv_def mc_content_def by auto
  moreover have "mc_users (mc_put i q st) bs w as (V(i := v)) C"
    using I same fr unfolding mc_inv_def mc_users_def by (auto simp: sq_same_def)
  ultimately show ?thesis by (simp add: mc_inv_def)
qed

lemma mc_inv_counts [simp]:
  "mc_inv (st\<lparr>mc_count := n\<rparr>) sz bs w as V P C = mc_inv st sz bs w as V P C"
  "mc_inv (st\<lparr>mc_pending_count := n\<rparr>) sz bs w as V P C = mc_inv st sz bs w as V P C"
  "mc_inv (st\<lparr>mc_sub_count := n\<rparr>) sz bs w as V P C = mc_inv st sz bs w as V P C"
  "mc_inv (st\<lparr>mc_consumer_count := n\<rparr>) sz bs w as V P C = mc_inv st sz bs w as V P C"
  unfolding mc_inv_defs by simp_all

text \<open>Moving the write position on.\<close>

lemma mc_next_wpos_ok:
  assumes I: "mc_inv st sz bs w as V [] C" and full: "sq_flush (mc_sub st w) = sz"
    and pc: "mc_pending_count st = 0" and new: "addr \<notin> set (bs @ w # as)"
  shows "\<exists>st' w' as' V'. mc_next_wpos addr memory st = Some st' \<and> mc_inv st' sz (bs @ [w]) w' as' V' [] C \<and>
           V' w' = [] \<and> (\<forall>j \<in> set (bs @ [w]). V' j = V j) \<and> sq_write (mc_sub st' w') < sz \<and>
           mc_count st' = mc_count st \<and> mc_pending_count st' = 0 \<and> mc_consumer_count st' = mc_consumer_count st \<and>
           mc_pos st' = mc_pos st \<and> mc_sub_count st' + length as = mc_sub_count st + 1 + length as' \<and>
           (as = w' # as' \<or> as = [] \<and> w' = addr \<and> as' = [])"
proof -
  have F: "sq_is_full (mc_sub st w)" "mc_wpos st = w" "nexts st w = first_or as None" "0 < sz"
    using I full by (auto simp: mc_inv_defs sq_is_full_def)
  show ?thesis
  proof (cases as)
    case (Cons a as')
    let ?V = "V(a := [])"
    have "mc_next_wpos addr memory st = Some (st\<lparr>mc_wpos := a\<rparr>)"
      using F pc Cons by (simp add: mc_next_wpos_def nexts_def)
    moreover have "mc_inv (st\<lparr>mc_wpos := a\<rparr>) sz (bs @ [w]) a as' ?V [] C"
    proof -
      have d: "distinct (bs @ w # as)" using I by (rule mc_inv_distinct)
      have "at_front (bs @ [w, a]) ?V i" if "at_front (bs @ [w]) V i" for i
        using at_front_snoc[OF at_front_mono[OF that, of ?V], of a] by auto
      then show ?thesis
        using I full Cons d unfolding mc_inv_defs by auto
    qed
    moreover have "sq_write (mc_sub st a) = 0"
      using I Cons by (auto simp: mc_inv_defs sq_ok_def)
    moreover have "\<forall>j \<in> set (bs @ [w]). ?V j = V j"
      using mc_inv_distinct[OF I] Cons by auto
    ultimately show ?thesis using F pc Cons by (intro exI) auto
  next
    case Nil
    obtain q where q: "sq_new sz memory = Some q" "sq_ok q [] []" "sq_read q = 0" "sq_flush q = 0" "sq_size q = sz"
        "sq_consumers q = 0" "sq_prev q = None" "sq_next q = None"
      using sq_new_ok[of sz memory] by blast
    have T: "mc_tail st = w" "sq_size (mc_sub st w) = sz" "w \<noteq> addr"
      using I Nil new by (auto simp: mc_inv_defs)
    let ?V = "V(addr := [])"
    let ?st1 = "mc_put addr q (st\<lparr>mc_wpos := addr, mc_sub_count := mc_sub_count st + 1\<rparr>)"
    define st' where "st' = (mc_set_next w (Some addr) (mc_set_prev addr (Some w) ?st1))\<lparr>mc_tail := addr\<rparr>"
    have r: "mc_next_wpos addr memory st = Some st'"
      using F pc Nil q(1) T by (simp add: mc_next_wpos_def nexts_def mc_set_defs mc_put_def st'_def)
    have sub: "mc_sub st' = (mc_sub st)(addr := q\<lparr>sq_prev := Some w\<rparr>, w := (mc_sub st w)\<lparr>sq_next := Some addr\<rparr>)"
      and sel: "mc_head st' = mc_head st" "mc_tail st' = addr" "mc_wpos st' = addr" "mc_pos st' = mc_pos st"
        "mc_count st' = mc_count st" "mc_pending_count st' = mc_pending_count st"
        "mc_consumer_count st' = mc_consumer_count st" "mc_sub_count st' = mc_sub_count st + 1"
      using T(3) by (simp_all add: st'_def mc_set_defs fun_upd_twist)
    have lk: "nexts st' = (nexts st)(addr := None, w := Some addr)" "prevs st' = (prevs st)(addr := Some w)"
      using q by (simp_all add: st'_def)
    have d: "distinct (bs @ [w])" "addr \<notin> set (bs @ [w])" using mc_inv_distinct[OF I] new Nil by auto
    have "mc_shape st' sz (bs @ [w]) addr []"
      using I Nil d q(5) T(2) unfolding mc_inv_def mc_shape_def mc_linked_def by (auto simp: sub sel lk)
    moreover have "mc_content st' sz (bs @ [w]) addr [] ?V []"
      using I Nil d q full unfolding mc_inv_def mc_content_def by (auto simp: sub)
    moreover have "mc_users st' (bs @ [w]) addr [] ?V C"
    proof -
      have "at_front (bs @ [w, addr]) ?V i" if "at_front (bs @ [w]) V i" for i
        using at_front_snoc[OF at_front_mono[OF that, of ?V], of addr] by auto
      moreover have "mc_pos st c \<noteq> Some addr" if "c \<in> C" for c
        using mc_inv_user[OF I that] d(2) Nil new by (metis Un_iff list.set_intros(1) option.inject set_append)
      then have "{c \<in> C. mc_pos st c = Some addr} = {}" by blast
      ultimately show ?thesis
        using I Nil d q unfolding mc_inv_def mc_users_def by (auto simp: sub sel)
    qed
    ultimately have "mc_inv st' sz (bs @ [w]) addr [] ?V [] C" by (simp add: mc_inv_def)
    moreover have "sq_write (mc_sub st' addr) = 0" using q T(3) by (simp add: sub sq_ok_def)
    moreover have "\<forall>j \<in> set (bs @ [w]). ?V j = V j" using d by auto
    ultimately show ?thesis
      using r F pc Nil sel by (intro exI[of _ st'] exI[of _ addr] exI[of _ "[]"] exI[of _ ?V]) simp
  qed
qed

text \<open>Recycling: the sub-queue at \<open>i\<close> stays, or it is empty and unused and goes to the end.\<close>

lemma mc_relink:
  assumes L: "mc_linked st (xs @ i # ys)" and ne: "ys \<noteq> []"
  defines "n \<equiv> hd ys" and "p \<equiv> last_or xs None" and "t \<equiv> last ys"
  shows "nexts st i = Some n" and "prevs st i = p" and "mc_tail st = t"
    and "nexts st' = (case p of None \<Rightarrow> nexts st | Some a \<Rightarrow> (nexts st)(a := Some n))(i := None, t := Some i) \<Longrightarrow>
      prevs st' = (prevs st)(n := p, i := Some t) \<Longrightarrow> mc_tail st' = i \<Longrightarrow>
      mc_head st' = (case p of None \<Rightarrow> n | Some a \<Rightarrow> mc_head st) \<Longrightarrow> mc_linked st' (xs @ ys @ [i])"
  using assms
  by (cases xs rule: rev_cases; cases ys rule: rev_cases; cases "butlast ys"; auto simp: mc_linked_def)+

definition sq_core :: "'a subq \<Rightarrow> 'a subq" where
  "sq_core q = q\<lparr>sq_next := None, sq_prev := None\<rparr>"

lemma sq_coreD:
  assumes "sq_core q = sq_core q'"
  shows "sq_ok q = sq_ok q'" and "sq_size q = sq_size q'" and "sq_flush q = sq_flush q'"
    and "sq_read q = sq_read q'" and "sq_consumers q = sq_consumers q'"
proof -
  have "sq_ok q = sq_ok (sq_core q)" "sq_ok q' = sq_ok (sq_core q')"
    by (auto simp: sq_core_def fun_eq_iff)
  with assms show "sq_ok q = sq_ok q'" by simp
qed (use arg_cong[OF assms, of sq_size] arg_cong[OF assms, of sq_flush] arg_cong[OF assms, of sq_read]
    arg_cong[OF assms, of sq_consumers] in \<open>simp_all add: sq_core_def\<close>)

lemma mc_collect_ok:
  assumes I: "mc_inv st sz bs w as V P C" and i: "i \<in> set (bs @ [w])"
  obtains st' bs' as' where "mc_collect i st = Some st'" and "mc_inv st' sz bs' w as' V P C"
    and "mc_pos st' = mc_pos st" and "mc_count st' = mc_count st" and "mc_pending_count st' = mc_pending_count st"
    and "mc_sub_count st' = mc_sub_count st" and "mc_consumer_count st' = mc_consumer_count st"
    and "length bs' + length as' = length bs + length as"
    and "bs' = bs \<or> (\<exists>b1 b2. bs = b1 @ i # b2 \<and> V i = [] \<and> bs' = b1 @ b2)"
proof (cases "i = w \<or> sq_consumers (mc_sub st i) \<noteq> 0 \<or> sq_read (mc_sub st i) < sq_size (mc_sub st i)")
  case True
  moreover have "mc_wpos st = w" using I by (simp add: mc_inv_defs)
  ultimately have "mc_collect i st = Some st" by (auto simp: mc_collect_def)
  then show ?thesis using I by (intro that[of st bs as]) auto
next
  case False
  have W: "mc_wpos st = w" using I by (simp add: mc_inv_defs)
  have d: "distinct (bs @ w # as)" using I by (rule mc_inv_distinct)
  obtain b1 b2 where bs: "bs = b1 @ i # b2" using i False by (auto simp: in_set_conv_decomp)
  have ok: "sq_ok (mc_sub st i) (V i) []" "sq_flush (mc_sub st i) = sz" "sq_size (mc_sub st i) = sz"
    using I bs by (auto simp: mc_inv_defs)
  then have e: "V i = []" "sq_read (mc_sub st i) = sz" "sq_write (mc_sub st i) = sz" "sq_pending (mc_sub st i) = None"
    using False by (auto simp: sq_ok_def)
  let ?ys = "b2 @ w # as"
  have L: "mc_linked st (b1 @ i # ?ys)" using I bs by (simp add: mc_inv_def mc_shape_def)
  note R = mc_relink[OF L]
  define n where "n = hd ?ys"
  define t where "t = last ?ys"
  have rel: "nexts st i = Some n" "prevs st i = last_or b1 None" "mc_tail st = t"
    using R(1-3) by (simp_all add: n_def t_def)
  have "n \<in> set ?ys" "t \<in> set ?ys" unfolding n_def t_def by (intro hd_in_set last_in_set; simp)+
  then have ne: "n \<noteq> i" "t \<noteq> i" "i \<notin> set b1" using d bs by auto
  have hd: "b1 = [] \<Longrightarrow> mc_head st = i" using L by (simp add: mc_linked_def)
  have lp: "last_or b1 None = Some p \<Longrightarrow> p \<noteq> i" for p using ne(3) by (auto dest!: last_or_None_SomeD)
  define q where "q = (mc_sub st i)\<lparr>sq_next := None, sq_prev := None, sq_read := 0, sq_flush := 0, sq_write := 0,
      sq_cells := (sq_cells (mc_sub st i))(0 := None)\<rparr>"
  define st1 where "st1 = (case last_or b1 None of None \<Rightarrow> (mc_set_prev n None st)\<lparr>mc_head := n\<rparr>
      | Some p \<Rightarrow> mc_set_prev n (Some p) (mc_set_next p (Some n) st))"
  define st3 where "st3 = mc_put i q (mc_set_prev i None (mc_set_next i None st1))"
  define st' where "st' = (mc_set_prev i (Some t) (mc_set_next t (Some i) st3))\<lparr>mc_tail := i\<rparr>"
  have sel1: "mc_tail st1 = t" "mc_head st1 = (case last_or b1 None of None \<Rightarrow> n | Some a \<Rightarrow> mc_head st)"
      "mc_wpos st1 = w" "mc_pos st1 = mc_pos st" "mc_count st1 = mc_count st" "mc_pending_count st1 = mc_pending_count st"
      "mc_sub_count st1 = mc_sub_count st" "mc_consumer_count st1 = mc_consumer_count st"
    unfolding st1_def using rel W by (cases "last_or b1 None"; simp add: mc_set_defs)+
  have lk1: "nexts st1 = (case last_or b1 None of None \<Rightarrow> nexts st | Some a \<Rightarrow> (nexts st)(a := Some n))"
      "prevs st1 = (prevs st)(n := last_or b1 None)"
    unfolding st1_def by (cases "last_or b1 None"; simp)+
  have sub1: "mc_sub st1 i = mc_sub st i" "\<And>j. sq_core (mc_sub st1 j) = sq_core (mc_sub st j)"
    unfolding st1_def using ne(1) lp
    by (cases "last_or b1 None"; auto simp: mc_set_defs sq_core_def)+
  have res: "sq_reset (mc_sub (mc_set_prev i None (mc_set_next i None st1)) i) = Some q"
    using False e ok by (simp add: mc_set_defs sub1(1) sq_reset_def sq_store_def q_def)
  have st': "mc_collect i st = Some st'"
  proof -
    have 1: "sq_next (mc_sub st i) = Some n" "sq_prev (mc_sub st i) = last_or b1 None"
      using rel by (simp_all add: nexts_def prevs_def)
    have 2: "(case last_or b1 None of
        None \<Rightarrow> do { mg_assert (i = mc_head st); Some ((mc_set_prev n None st)\<lparr>mc_head := n\<rparr>) }
      | Some p \<Rightarrow> Some (mc_set_prev n (Some p) (mc_set_next p (Some n) st))) = Some st1"
      unfolding st1_def using hd by (cases "last_or b1 None") (auto simp: last_or_def split: if_splits)
    have 3: "mc_tail st3 = t" "mc_tail (mc_set_next t (Some i) st3) = t"
      using sel1 by (simp_all add: st3_def mc_set_defs)
    show ?thesis
      using False W 3 unfolding mc_collect_def 1 Let_def bind.bind_lunit 2 res st3_def [symmetric] st'_def
      by simp
  qed
  have sub: "sq_core (mc_sub st' i) = sq_core q" "\<And>j. j \<noteq> i \<Longrightarrow> sq_core (mc_sub st' j) = sq_core (mc_sub st j)"
    using ne(2) sub1(2) by (auto simp: st'_def st3_def mc_set_defs sq_core_def)
  have lk: "nexts st' = (nexts st1)(i := None, t := Some i)" "prevs st' = (prevs st1)(i := Some t)"
    using ne(2) by (simp_all add: st'_def st3_def q_def fun_eq_iff)
  have sel: "mc_tail st' = i" "mc_head st' = mc_head st1" "mc_wpos st' = w" "mc_pos st' = mc_pos st"
      "mc_count st' = mc_count st" "mc_pending_count st' = mc_pending_count st"
      "mc_sub_count st' = mc_sub_count st" "mc_consumer_count st' = mc_consumer_count st"
    using sel1 by (simp_all add: st'_def st3_def mc_set_defs)
  have qs: "sq_ok q [] []" "sq_read q = 0" "sq_size q = sz" "sq_consumers q = 0"
    using False ok by (simp_all add: q_def sq_ok_def)
  have nei: "j \<noteq> i" if "j = w \<or> j \<in> set b1 \<or> j \<in> set b2 \<or> j \<in> set as" for j
    using that d bs by auto
  note core = sq_coreD[OF sub(1)] sq_coreD[OF sub(2)[OF nei]]
  have "mc_linked st' (b1 @ ?ys @ [i])"
    by (rule R(4) [folded n_def t_def]) (simp_all add: lk lk1 sel sel1)
  then have "mc_shape st' sz (b1 @ b2) w (as @ [i])"
    using I bs qs core d unfolding mc_inv_def mc_shape_def by (auto simp: sel)
  moreover have "mc_content st' sz (b1 @ b2) w (as @ [i]) V P"
    using I bs qs core d unfolding mc_inv_def mc_content_def by (auto simp: sel)
  moreover have "mc_users st' (b1 @ b2) w (as @ [i]) V C"
  proof -
    have "sq_consumers (mc_sub st i) = card {c \<in> C. mc_pos st c = Some i}" "finite C"
      using I bs by (auto simp: mc_inv_def mc_users_def)
    then have no: "{c \<in> C. mc_pos st c = Some i} = {}" using False by simp
    have fr: "at_front (b1 @ b2 @ [w]) V j" if f: "at_front (b1 @ i # b2 @ [w]) V j" and "j \<noteq> i" for j
    proof -
      obtain xs ys where x: "b1 @ i # b2 @ [w] = xs @ j # ys" "\<forall>k \<in> set xs. V k = []"
        using f by (rule at_front_split)
      then consider us where "b1 = xs @ j # us" "ys = us @ i # b2 @ [w]" | us where "xs = b1 @ i # us" "b2 @ [w] = us @ j # ys"
        using \<open>j \<noteq> i\<close> by (auto simp: append_eq_append_conv2 append_eq_Cons_conv Cons_eq_append_conv)
      then show ?thesis
      proof cases
        case 1
        then show ?thesis using x(2) unfolding at_front_def by (intro exI[of _ xs] exI[of _ "us @ b2 @ [w]"]) simp
      next
        case 2
        then show ?thesis using x(2) unfolding at_front_def by (intro exI[of _ "b1 @ us"] exI[of _ ys]) simp
      qed
    qed
    have "\<exists>j. mc_pos st c = Some j \<and> at_front (b1 @ b2 @ [w]) V j" if c: "c \<in> C" for c
    proof -
      obtain j where "mc_pos st c = Some j" "at_front (bs @ [w]) V j" using mc_inv_user[OF I c] .
      moreover have "j \<noteq> i" using calculation c no by auto
      ultimately show ?thesis using fr[of j] bs by simp
    qed
    then show ?thesis
      using I bs qs core d no unfolding mc_inv_def mc_users_def by (auto simp: sel)
  qed
  ultimately have "mc_inv st' sz (b1 @ b2) w (as @ [i]) V P C" by (simp add: mc_inv_def)
  then show ?thesis
    using st' sel bs e(1) by (intro that[of st' "b1 @ b2" "as @ [i]"]) auto
qed

lemma links_consumer [simp]:
  "nexts (mc_add_consumer i st) = nexts st" "prevs (mc_add_consumer i st) = prevs st"
  "nexts (mc_del_consumer i st) = nexts st" "prevs (mc_del_consumer i st) = prevs st"
  by (auto simp: mc_set_defs nexts_def prevs_def fun_eq_iff)

lemma mc_del_consumer_ok:
  assumes I: "mc_inv st sz bs w as V P C" and c: "c \<in> C" and pos: "mc_pos st c = Some i"
  shows "mc_inv (mc_del_consumer i st) sz bs w as V P (C - {c})"
proof -
  let ?st = "mc_del_consumer i st"
  have sub: "mc_sub ?st = (mc_sub st)(i := (mc_sub st i)\<lparr>sq_consumers := sq_consumers (mc_sub st i) - 1\<rparr>)"
    and sel: "mc_pos ?st = mc_pos st" "mc_wpos ?st = mc_wpos st" "mc_head ?st = mc_head st" "mc_tail ?st = mc_tail st"
    and lk: "nexts ?st = nexts st" "prevs ?st = prevs st"
    by (auto simp: mc_del_consumer_def nexts_def prevs_def fun_eq_iff)
  have fin: "finite {d \<in> C. mc_pos st d = Some j}" for j using I by (simp add: mc_inv_def mc_users_def)
  have "{d \<in> C - {c}. mc_pos st d = Some j} = {d \<in> C. mc_pos st d = Some j} - (if j = i then {c} else {})" for j
    using pos by auto
  then have card: "card {d \<in> C - {c}. mc_pos st d = Some j} =
      card {d \<in> C. mc_pos st d = Some j} - (if j = i then 1 else 0)" for j
    using fin c pos by simp
  have "mc_shape ?st sz bs w as"
    using I unfolding mc_inv_def mc_shape_def mc_linked_def by (auto simp: sub sel lk)
  moreover have "mc_content ?st sz bs w as V P"
    using I unfolding mc_inv_def mc_content_def by (auto simp: sub)
  moreover have "mc_users ?st bs w as V (C - {c})"
    using I card unfolding mc_inv_def mc_users_def by (auto simp: sub sel)
  ultimately show ?thesis by (simp add: mc_inv_def)
qed

lemma mc_add_consumer_ok:
  assumes I: "mc_inv st sz bs w as V P C" and c: "c \<notin> C" and fr: "at_front (bs @ [w]) V i"
  shows "mc_inv ((mc_add_consumer i st)\<lparr>mc_pos := (mc_pos st)(c := Some i)\<rparr>) sz bs w as V P (insert c C)"
proof -
  let ?st = "(mc_add_consumer i st)\<lparr>mc_pos := (mc_pos st)(c := Some i)\<rparr>"
  have sub: "mc_sub ?st = (mc_sub st)(i := (mc_sub st i)\<lparr>sq_consumers := sq_consumers (mc_sub st i) + 1\<rparr>)"
    and sel: "mc_pos ?st = (mc_pos st)(c := Some i)" "mc_wpos ?st = mc_wpos st" "mc_head ?st = mc_head st"
      "mc_tail ?st = mc_tail st"
    and lk: "nexts ?st = nexts st" "prevs ?st = prevs st"
    by (auto simp: mc_add_consumer_def nexts_def prevs_def fun_eq_iff)
  have fin: "finite {d \<in> C. mc_pos st d = Some j}" for j using I by (simp add: mc_inv_def mc_users_def)
  have "{d \<in> insert c C. mc_pos ?st d = Some j} = {d \<in> C. mc_pos st d = Some j} \<union> (if j = i then {c} else {})" for j
    using c by (auto simp: sel(1))
  then have card: "card {d \<in> insert c C. mc_pos ?st d = Some j} =
      card {d \<in> C. mc_pos st d = Some j} + (if j = i then 1 else 0)" for j
    using fin c by simp
  have "mc_shape ?st sz bs w as"
    using I unfolding mc_inv_def mc_shape_def mc_linked_def by (auto simp: sub sel lk)
  moreover have "mc_content ?st sz bs w as V P"
    using I unfolding mc_inv_def mc_content_def by (auto simp: sub)
  moreover have "mc_users ?st bs w as V (insert c C)"
    using I card c fr unfolding mc_inv_def mc_users_def by (auto simp: sub sel)
  ultimately show ?thesis by (simp add: mc_inv_def)
qed

section \<open>Refinement\<close>

text \<open>
  The abstract state: the elements visible to consumers, the pending ones, and the attached
  consumers. \<open>ids\<close> are the addresses in use, for the freshness of new memory.
\<close>

definition mc_abs ::
  "('c, 'a) mcq \<Rightarrow> nat list \<Rightarrow> 'a list \<Rightarrow> 'a list \<Rightarrow> 'c set \<Rightarrow> bool" where
  "mc_abs st ids vis pend C =
    (\<exists>sz bs w as V. mc_inv st sz bs w as V pend C \<and> ids = bs @ w # as \<and>
       vis = concat (map V (bs @ [w])) \<and> mc_count st = length vis \<and> mc_pending_count st = length pend \<and>
       mc_sub_count st = length ids \<and> mc_consumer_count st = card C \<and> (\<forall>c. c \<in> C \<longleftrightarrow> mc_pos st c \<noteq> None))"

lemma concat_map_upd:
  assumes "distinct (xs @ i # ys)"
  shows "concat (map (V(i := v)) (xs @ i # ys)) = concat (map V xs) @ v @ concat (map V ys)"
proof -
  have "map (V(i := v)) xs = map V xs" "map (V(i := v)) ys = map V ys" using assms by auto
  then show ?thesis by (simp del: map_eq_conv)
qed

lemma concat_map_empty: "\<forall>j \<in> set xs. V j = [] \<Longrightarrow> concat (map V xs) = []"
  by auto

lemma mc_put_same [simp]: "mc_put i (mc_sub st i) st = st"
  by (simp add: mc_put_def)

lemma mc_put_put [simp]: "mc_put i q (mc_put i q' st) = mc_put i q st"
  by (simp add: mc_put_def)

lemma mc_pop_take:
  assumes I: "mc_inv st sz bs w as V P C" and ids: "bs @ [w] = xs @ i # ys"
    and e: "\<forall>j \<in> set xs. V j = []" and v: "V i = v # vs"
  shows "\<exists>st' V'. mc_pop_loop c i st = Some (Some v, st') \<and> mc_inv st' sz bs w as V' P C \<and>
           concat (map V' (bs @ [w])) = tl (concat (map V (bs @ [w]))) \<and> mc_count st' = mc_count st - 1 \<and>
           mc_pending_count st' = mc_pending_count st \<and> mc_sub_count st' = mc_sub_count st \<and>
           mc_consumer_count st' = mc_consumer_count st \<and> mc_pos st' = mc_pos st"
proof -
  have i: "i \<in> set (bs @ [w])" unfolding ids by simp
  have d: "distinct (xs @ i # ys)" using mc_inv_distinct[OF I] unfolding ids[symmetric] by simp
  obtain q where q: "sq_pop (mc_sub st i) = (True, Some v, q)" "sq_ok q vs (if i = w then P else [])"
      "sq_same (mc_sub st i) q" "sq_flush q = sq_flush (mc_sub st i)"
    using sq_pop_cases[OF mc_inv_sub(1)[OF I i]] v by auto
  have "sq_flush (mc_sub st i) = sz" if "i \<noteq> w" using I i that by (auto simp: mc_inv_defs)
  then have "mc_inv (mc_put i q st) sz bs w as (V(i := vs)) P C"
    using q v by (intro mc_inv_put[OF I i]) auto
  moreover have "concat (map (V(i := vs)) (bs @ [w])) = tl (concat (map V (bs @ [w])))"
  proof -
    have "concat (map V (xs @ i # ys)) = v # vs @ concat (map V ys)"
      by (simp add: v concat_map_empty[OF e])
    then show ?thesis unfolding ids concat_map_upd[OF d] by (simp add: concat_map_empty[OF e])
  qed
  ultimately show ?thesis
    using q(1) by (intro exI[of _ "(mc_put i q st)\<lparr>mc_count := mc_count st - 1\<rparr>"] exI[of _ "V(i := vs)"])
      (simp add: mc_pop_loop.simps[of c i st])
qed

lemma mc_pop_loop_ok:
  assumes "mc_inv st sz bs w as V P C" and "c \<in> C" and "mc_pos st c = Some i"
    and "bs @ [w] = xs @ i # ys" and "\<forall>j \<in> set xs. V j = []"
  shows "\<exists>st' bs' as' V'. mc_pop_loop c i st = Some (first_or (concat (map V (bs @ [w]))) None, st') \<and>
           mc_inv st' sz bs' w as' V' P C \<and> concat (map V' (bs' @ [w])) = tl (concat (map V (bs @ [w]))) \<and>
           mc_count st' = mc_count st - (if concat (map V (bs @ [w])) = [] then 0 else 1) \<and>
           mc_pending_count st' = mc_pending_count st \<and>
           mc_sub_count st' = mc_sub_count st \<and> mc_consumer_count st' = mc_consumer_count st \<and>
           length bs' + length as' = length bs + length as \<and> (\<forall>d. mc_pos st' d = None \<longleftrightarrow> mc_pos st d = None)"
  using assms
proof (induction ys arbitrary: st bs as xs i)
  case Nil
  then have ids: "bs = xs" "i = w" by auto
  show ?case
  proof (cases "V i")
    case (Cons v vs)
    have "concat (map V (bs @ [w])) = v # vs"
      using Cons ids Nil.prems(5) by (simp add: concat_map_empty)
    then show ?thesis using mc_pop_take[OF Nil.prems(1,4,5) Cons] by fastforce
  next
    case e: Nil
    have i: "i \<in> set (bs @ [w])" using ids by simp
    have c: "concat (map V (bs @ [w])) = []" using e ids Nil.prems(5) by auto
    have "sq_pop (mc_sub st i) = (sq_read (mc_sub st i) < sq_size (mc_sub st i), None, mc_sub st i)"
      using sq_pop_cases[OF mc_inv_sub(1)[OF Nil.prems(1) i]] e by simp
    moreover have "mc_wpos st = i" using Nil.prems(1) ids by (simp add: mc_inv_defs)
    ultimately have "mc_pop_loop c i st = Some (None, st)"
      by (simp add: mc_pop_loop.simps[of c i st] Let_def)
    then show ?thesis
      using Nil.prems(1) c unfolding c
      by - (rule exI[of _ st], rule exI[of _ bs], rule exI[of _ as], rule exI[of _ V],
          simp add: c del: concat_eq_Nil_conv map_append concat_append)
  qed
next
  case (Cons n ys)
  note I = Cons.prems(1)
  show ?case
  proof (cases "V i")
    case v: (Cons v vs)
    have "concat (map V (bs @ [w])) = v # vs @ concat (map V (n # ys))"
      unfolding Cons.prems(4) using v Cons.prems(5) by (simp add: concat_map_empty)
    then show ?thesis using mc_pop_take[OF I Cons.prems(4,5) v] by fastforce
  next
    case e: Nil
    have i: "i \<in> set (bs @ [w])" using Cons.prems(4) by simp
    have d: "distinct (bs @ [w])" using mc_inv_distinct[OF I] by simp
    obtain b2 where b2: "bs = xs @ i # b2" "n # ys = b2 @ [w]"
      using Cons.prems(4) by (cases "n # ys" rule: rev_cases) auto
    then have iw: "i \<noteq> w" "mc_wpos st = w" "sq_flush (mc_sub st i) = sz" "nexts st i = Some n"
      using d I by (auto simp: mc_inv_defs split: list.splits) (cases b2; auto)
    have pop: "sq_pop (mc_sub st i) = (False, None, mc_sub st i)"
      using sq_pop_cases[OF mc_inv_sub(1)[OF I i]] mc_inv_sub(1)[OF I i] mc_inv_sub(2)[OF I i] e iw by (simp add: sq_ok_def)
    let ?st1 = "mc_del_consumer i st"
    have I1: "mc_inv ?st1 sz bs w as V P (C - {c})" using mc_del_consumer_ok[OF I Cons.prems(2,3)] .
    obtain st2 bs' as' where st2: "mc_collect i ?st1 = Some st2" "mc_inv st2 sz bs' w as' V P (C - {c})"
        "mc_pos st2 = mc_pos ?st1" "mc_count st2 = mc_count ?st1" "mc_pending_count st2 = mc_pending_count ?st1"
        "mc_sub_count st2 = mc_sub_count ?st1" "mc_consumer_count st2 = mc_consumer_count ?st1"
        "length bs' + length as' = length bs + length as"
        "bs' = bs \<or> (\<exists>b1 b2. bs = b1 @ i # b2 \<and> V i = [] \<and> bs' = b1 @ b2)"
      using mc_collect_ok[OF I1 i] by metis
    have sel: "mc_pos ?st1 = mc_pos st" "mc_count ?st1 = mc_count st" "mc_pending_count ?st1 = mc_pending_count st"
        "mc_sub_count ?st1 = mc_sub_count st" "mc_consumer_count ?st1 = mc_consumer_count st" "mc_wpos ?st1 = mc_wpos st"
      by (simp_all add: mc_del_consumer_def)
    have bs': "bs' = bs \<or> bs' = xs @ b2"
    proof -
      have "b1 = xs \<and> b2' = b2" if "bs = b1 @ i # b2'" for b1 b2'
      proof -
        have "i \<notin> set xs" "i \<notin> set b2" using d unfolding b2(1) by auto
        then show ?thesis using that b2(1) append_Cons_eq_iff[of i xs b2 b1 b2'] by metis
      qed
      then show ?thesis using st2(9) by blast
    qed
    then obtain xs' where xs': "bs' @ [w] = xs' @ n # ys" "\<forall>j \<in> set xs'. V j = []"
        "concat (map V (bs' @ [w])) = concat (map V (bs @ [w]))"
      using that[of "xs @ [i]"] that[of xs] Cons.prems(4,5) b2 e by fastforce
    let ?st3 = "(mc_add_consumer n st2)\<lparr>mc_pos := (mc_pos st2)(c := Some n)\<rparr>"
    have I3: "mc_inv ?st3 sz bs' w as' V P C"
      using mc_add_consumer_ok[OF st2(2), of c n] xs' Cons.prems(2) insert_Diff[of c C]
      by (auto simp: at_front_def)
    have "mc_pop_loop c i st = mc_pop_loop c n ?st3"
      using pop iw st2(1) by (subst mc_pop_loop.simps) (simp add: nexts_def mc_set_defs sel)
    moreover have "\<exists>st' bs'' as'' V'. mc_pop_loop c n ?st3 = Some (first_or (concat (map V (bs' @ [w]))) None, st') \<and>
           mc_inv st' sz bs'' w as'' V' P C \<and> concat (map V' (bs'' @ [w])) = tl (concat (map V (bs' @ [w]))) \<and>
           mc_count st' = mc_count ?st3 - (if concat (map V (bs' @ [w])) = [] then 0 else 1) \<and>
           mc_pending_count st' = mc_pending_count ?st3 \<and>
           mc_sub_count st' = mc_sub_count ?st3 \<and> mc_consumer_count st' = mc_consumer_count ?st3 \<and>
           length bs'' + length as'' = length bs' + length as' \<and> (\<forall>d. mc_pos st' d = None \<longleftrightarrow> mc_pos ?st3 d = None)"
      by (rule Cons.IH[OF I3 Cons.prems(2) _ xs'(1,2)]) simp
    moreover have "mc_count ?st3 = mc_count st" "mc_pending_count ?st3 = mc_pending_count st"
        "mc_sub_count ?st3 = mc_sub_count st" "mc_consumer_count ?st3 = mc_consumer_count st"
        "\<forall>d. mc_pos ?st3 d = None \<longleftrightarrow> mc_pos st d = None"
      using st2 sel Cons.prems(3) by (auto simp: mc_add_consumer_def)
    ultimately show ?thesis unfolding xs'(3) using st2(8) by (metis (no_types, lifting))
  qed
qed

lemma mc_absE:
  assumes "mc_abs st ids vis pend C"
  obtains sz bs w as V where "mc_inv st sz bs w as V pend C" and "ids = bs @ w # as"
    and "vis = concat (map V (bs @ [w]))" and "mc_count st = length vis" and "mc_pending_count st = length pend"
    and "mc_sub_count st = length ids" and "mc_consumer_count st = card C" and "\<forall>c. c \<in> C \<longleftrightarrow> mc_pos st c \<noteq> None"
  using assms unfolding mc_abs_def by blast

lemma mc_absI:
  "mc_inv st sz bs w as V pend C \<Longrightarrow> vis = concat (map V (bs @ [w])) \<Longrightarrow> mc_count st = length vis \<Longrightarrow>
   mc_pending_count st = length pend \<Longrightarrow> mc_sub_count st = length (bs @ w # as) \<Longrightarrow> mc_consumer_count st = card C \<Longrightarrow>
   (\<And>c. c \<in> C \<longleftrightarrow> mc_pos st c \<noteq> None) \<Longrightarrow> mc_abs st (bs @ w # as) vis pend C"
  unfolding mc_abs_def by blast

lemma mc_pop_abs:
  assumes "mc_abs st ids vis pend C" and "c \<in> C"
  shows "\<exists>st' ids'. mc_pop c st = Some (first_or vis None, st') \<and> mc_abs st' ids' (tl vis) pend C"
proof -
  from assms(1) obtain sz bs w as V where A: "mc_inv st sz bs w as V pend C" "ids = bs @ w # as"
    "vis = concat (map V (bs @ [w]))" "mc_count st = length vis" "mc_pending_count st = length pend"
    "mc_sub_count st = length ids" "mc_consumer_count st = card C" "\<forall>c. c \<in> C \<longleftrightarrow> mc_pos st c \<noteq> None"
    by (rule mc_absE)
  obtain i where i: "mc_pos st c = Some i" "at_front (bs @ [w]) V i"
    using mc_inv_user[OF A(1) assms(2)] by blast
  then obtain xs ys where x: "bs @ [w] = xs @ i # ys" "\<forall>j \<in> set xs. V j = []"
    using at_front_split by metis
  from mc_pop_loop_ok[OF A(1) assms(2) i(1) x] obtain st' bs' as' V' where R:
    "mc_pop_loop c i st = Some (first_or vis None, st')" "mc_inv st' sz bs' w as' V' pend C"
    "concat (map V' (bs' @ [w])) = tl vis" "mc_count st' = mc_count st - (if vis = [] then 0 else 1)"
    "mc_pending_count st' = mc_pending_count st" "mc_sub_count st' = mc_sub_count st"
    "mc_consumer_count st' = mc_consumer_count st" "length bs' + length as' = length bs + length as"
    "\<forall>d. mc_pos st' d = None \<longleftrightarrow> mc_pos st d = None"
    unfolding A(3)[symmetric] by blast
  have "mc_abs st' (bs' @ w # as') (tl vis) pend C"
    using A(2,4-8) R(3-9) by (intro mc_absI[OF R(2)]) auto
  moreover have "mc_pop c st = Some (first_or vis None, st')" using i(1) R(1) by (simp add: mc_pop_def)
  ultimately show ?thesis by blast
qed

lemma mc_flush_pending_abs:
  assumes "mc_abs st ids vis pend C"
  shows "\<exists>st'. mc_flush_pending st = Some (pend \<noteq> [] \<and> vis = [], st') \<and> mc_abs st' ids (vis @ pend) [] C"
proof -
  from assms obtain sz bs w as V where A: "mc_inv st sz bs w as V pend C" "ids = bs @ w # as"
    "vis = concat (map V (bs @ [w]))" "mc_count st = length vis" "mc_pending_count st = length pend"
    "mc_sub_count st = length ids" "mc_consumer_count st = card C" "\<forall>c. c \<in> C \<longleftrightarrow> mc_pos st c \<noteq> None"
    by (rule mc_absE)
  have w: "mc_wpos st = w" using A(1) by (simp add: mc_inv_defs)
  show ?thesis
  proof (cases "pend = []")
    case True
    then show ?thesis using assms A(5) by (simp add: mc_flush_pending_def)
  next
    case False
    obtain q where q: "sq_flush_pending (mc_sub st w) = Some (True, q)" "sq_ok q (V w @ pend) []" "sq_same (mc_sub st w) q"
      using sq_flush_pending_ok[of "mc_sub st w" "V w" pend] mc_inv_sub(1)[OF A(1), of w] False by auto
    let ?st = "mc_put w q (st\<lparr>mc_count := mc_count st + mc_pending_count st, mc_pending_count := 0\<rparr>)"
    have "mc_inv ?st sz bs w as (V(w := V w @ pend)) [] C"
      using A(1) q mc_inv_distinct[OF A(1)]
      by (intro mc_inv_put[where P = pend]) auto
    then have "mc_abs ?st (bs @ w # as) (vis @ pend) [] C"
    proof (rule mc_absI)
      have "distinct (bs @ w # [])" using mc_inv_distinct[OF A(1)] by auto
      then show "vis @ pend = concat (map (V(w := V w @ pend)) (bs @ [w]))"
        unfolding A(3) concat_map_upd[OF \<open>distinct (bs @ w # [])\<close>] by simp
    qed (use A(2,4-8) in auto)
    then show ?thesis
      using q(1) w False A(2,4,5) by (auto simp: mc_flush_pending_def Let_def)
  qed
qed

text \<open>A full write sub-queue: flush it and move on.\<close>

lemma mc_flush_next:
  assumes I: "mc_inv st sz bs w as V pend C" and full: "sq_write (mc_sub st w) = sz" and pc: "mc_pending_count st = 0"
    and new: "addr \<notin> set (bs @ w # as)"
  obtains q st' w' as' V' where "sq_flush_pending (mc_sub st w) = Some (pend \<noteq> [], q)"
    and "mc_next_wpos addr memory (mc_put w q st) = Some st'" and "mc_inv st' sz (bs @ [w]) w' as' V' [] C"
    and "concat (map V' (bs @ [w, w'])) = concat (map V (bs @ [w])) @ pend" and "V' w' = []"
    and "sq_write (mc_sub st' w') < sz" and "mc_count st' = mc_count st" and "mc_pending_count st' = 0"
    and "mc_consumer_count st' = mc_consumer_count st" and "\<And>c. mc_pos st' c = mc_pos st c"
    and "mc_sub_count st' + length as = mc_sub_count st + 1 + length as'"
    and "as = w' # as' \<or> as = [] \<and> w' = addr \<and> as' = []"
proof -
  obtain q where q: "sq_flush_pending (mc_sub st w) = Some (pend \<noteq> [], q)" "sq_ok q (V w @ pend) []"
      "sq_same (mc_sub st w) q" "sq_write q = sq_write (mc_sub st w)"
    using sq_flush_pending_ok[of "mc_sub st w" "V w" pend] mc_inv_sub(1)[OF I, of w] by auto
  let ?V = "V(w := V w @ pend)"
  have d: "distinct (bs @ w # [])" using mc_inv_distinct[OF I] by auto
  have I1: "mc_inv (mc_put w q st) sz bs w as ?V [] C"
    using I q d by (intro mc_inv_put[where P = pend]) auto
  have fl: "sq_flush (mc_sub (mc_put w q st) w) = sz" using q full by (simp add: sq_ok_def)
  from mc_next_wpos_ok[OF I1 fl _ new, of memory] obtain st' w' as' V' where R:
    "mc_next_wpos addr memory (mc_put w q st) = Some st'" "mc_inv st' sz (bs @ [w]) w' as' V' [] C" "V' w' = []"
    "\<forall>j \<in> set (bs @ [w]). V' j = ?V j" "sq_write (mc_sub st' w') < sz" "mc_count st' = mc_count st"
    "mc_pending_count st' = 0" "mc_consumer_count st' = mc_consumer_count st" "mc_pos st' = mc_pos st"
    "mc_sub_count st' + length as = mc_sub_count st + 1 + length as'" "as = w' # as' \<or> as = [] \<and> w' = addr \<and> as' = []"
    using pc by auto
  have "map V' (bs @ [w]) = map ?V (bs @ [w])" using R(4) by simp
  then have "concat (map V' (bs @ [w])) = concat (map V (bs @ [w])) @ pend"
    using concat_map_upd[OF d, of V "V w @ pend"] by (metis append.assoc append_Nil2 concat.simps list.simps(8,9) map_append concat_append)
  then have "concat (map V' (bs @ [w, w'])) = concat (map V (bs @ [w])) @ pend" using R(3) by simp
  then show ?thesis using that[OF q(1) R(1,2)] R by simp
qed

lemma mc_push_abs:
  assumes "mc_abs st ids vis pend C" and new: "addr \<notin> set ids"
  shows "\<exists>st' ids'. mc_push addr memory (Some x) st = Some (vis = [], st') \<and> mc_abs st' ids' (vis @ pend @ [x]) [] C \<and>
           set ids \<subseteq> set ids' \<and> set ids' \<subseteq> insert addr (set ids)"
proof -
  from assms(1) obtain sz bs w as V where A: "mc_inv st sz bs w as V pend C" "ids = bs @ w # as"
    "vis = concat (map V (bs @ [w]))" "mc_count st = length vis" "mc_pending_count st = length pend"
    "mc_sub_count st = length ids" "mc_consumer_count st = card C" "\<forall>c. c \<in> C \<longleftrightarrow> mc_pos st c \<noteq> None"
    by (rule mc_absE)
  have w: "mc_wpos st = w" "sq_size (mc_sub st w) = sz" using A(1) by (simp_all add: mc_inv_defs)
  have ok: "sq_ok (mc_sub st w) (V w) pend" using mc_inv_sub(1)[OF A(1), of w] by simp
  have d: "distinct (bs @ w # [])" using mc_inv_distinct[OF A(1)] by auto
  let ?st1 = "st\<lparr>mc_pending_count := 0, mc_count := mc_count st + (mc_pending_count st + 1)\<rparr>"
  show ?thesis
  proof (cases "sq_write (mc_sub st w) < sz")
    case True
    obtain q where q: "sq_push (Some x) (mc_sub st w) = Some (True, q)" "sq_ok q (V w @ pend @ [x]) []" "sq_same (mc_sub st w) q"
      using sq_push_ok[OF ok] True w by metis
    let ?st = "mc_put w q ?st1"
    have "mc_inv ?st sz bs w as (V(w := V w @ pend @ [x])) [] C"
      using A(1) q d by (intro mc_inv_put[where P = pend]) auto
    then have "mc_abs ?st (bs @ w # as) (vis @ pend @ [x]) [] C"
    proof (rule mc_absI)
      show "vis @ pend @ [x] = concat (map (V(w := V w @ pend @ [x])) (bs @ [w]))"
        unfolding A(3) concat_map_upd[OF d] by simp
    qed (use A(2,4-8) in auto)
    moreover have "mc_push addr memory (Some x) st = Some (vis = [], ?st)"
      using q(1) w A(4) by (simp add: mc_push_def Let_def)
    ultimately show ?thesis using A(2) by blast
  next
    case False
    then have full: "sq_write (mc_sub ?st1 w) = sz" using ok w by (simp add: sq_ok_def)
    have I1: "mc_inv ?st1 sz bs w as V pend C" using A(1) by simp
    have new': "addr \<notin> set (bs @ w # as)" using new A(2) by simp
    have pc: "mc_pending_count ?st1 = 0" by simp
    obtain q st' w' as' V' where R: "sq_flush_pending (mc_sub ?st1 w) = Some (pend \<noteq> [], q)"
      "mc_next_wpos addr memory (mc_put w q ?st1) = Some st'" "mc_inv st' sz (bs @ [w]) w' as' V' [] C"
      "concat (map V' (bs @ [w, w'])) = concat (map V (bs @ [w])) @ pend" "V' w' = []"
      "sq_write (mc_sub st' w') < sz" "mc_count st' = mc_count ?st1" "mc_pending_count st' = 0"
      "mc_consumer_count st' = mc_consumer_count ?st1" "\<And>c. mc_pos st' c = mc_pos ?st1 c"
      "mc_sub_count st' + length as = mc_sub_count ?st1 + 1 + length as'" "as = w' # as' \<or> as = [] \<and> w' = addr \<and> as' = []"
      by (rule mc_flush_next[OF I1 full pc new', of memory]) (rule that)
    have w': "mc_wpos st' = w'" "sq_size (mc_sub st' w') = sz" using R(3) by (simp_all add: mc_inv_defs)
    obtain q' where q': "sq_push (Some x) (mc_sub st' w') = Some (True, q')" "sq_ok q' [x] []" "sq_same (mc_sub st' w') q'"
      using sq_push_ok[of "mc_sub st' w'" "[]" "[]" x] mc_inv_sub(1)[OF R(3), of w'] R(5,6) w' by auto
    let ?st = "mc_put w' q' st'"
    have d': "distinct ((bs @ [w]) @ w' # [])" using mc_inv_distinct[OF R(3)] by auto
    have "mc_inv ?st sz (bs @ [w]) w' as' (V'(w' := [x])) [] C"
      using R(3) q' d' by (intro mc_inv_put[where P = "[]"]) auto
    then have "mc_abs ?st ((bs @ [w]) @ w' # as') (vis @ pend @ [x]) [] C"
    proof (rule mc_absI)
      show "vis @ pend @ [x] = concat (map (V'(w' := [x])) ((bs @ [w]) @ [w']))"
        unfolding concat_map_upd[OF d'] using R(4,5) A(3) by simp
    qed (use A(2,4-8) R(7-11) in auto)
    moreover have "mc_push addr memory (Some x) st = Some (vis = [], ?st)"
      using sq_push_full[of "mc_sub ?st1 w" x] full w R(1,2) q'(1) w' A(4) by (simp add: mc_push_def Let_def)
    moreover have "set (bs @ w # as) \<subseteq> set ((bs @ [w]) @ w' # as') \<and> set ((bs @ [w]) @ w' # as') \<subseteq> insert addr (set (bs @ w # as))"
      using R(12) by auto
    ultimately show ?thesis using A(2) by blast
  qed
qed

lemma mc_push_pending_abs:
  assumes "mc_abs st ids vis pend C" and new: "addr \<notin> set ids"
  shows "\<exists>r st' ids'. mc_push_pending addr memory (Some x) st = Some (r, st') \<and>
           (\<not> r \<and> ids' = ids \<and> mc_abs st' ids' vis (pend @ [x]) C \<or>
            (r \<longleftrightarrow> pend \<noteq> [] \<and> vis = []) \<and> mc_abs st' ids' (vis @ pend) [x] C) \<and>
           set ids \<subseteq> set ids' \<and> set ids' \<subseteq> insert addr (set ids)"
proof -
  from assms(1) obtain sz bs w as V where A: "mc_inv st sz bs w as V pend C" "ids = bs @ w # as"
    "vis = concat (map V (bs @ [w]))" "mc_count st = length vis" "mc_pending_count st = length pend"
    "mc_sub_count st = length ids" "mc_consumer_count st = card C" "\<forall>c. c \<in> C \<longleftrightarrow> mc_pos st c \<noteq> None"
    by (rule mc_absE)
  have w: "mc_wpos st = w" "sq_size (mc_sub st w) = sz" using A(1) by (simp_all add: mc_inv_defs)
  have ok: "sq_ok (mc_sub st w) (V w) pend" using mc_inv_sub(1)[OF A(1), of w] by simp
  have d: "distinct (bs @ w # [])" using mc_inv_distinct[OF A(1)] by auto
  show ?thesis
  proof (cases "sq_write (mc_sub st w) < sz")
    case True
    obtain q where q: "sq_push_pending (Some x) (mc_sub st w) = Some (True, q)" "sq_ok q (V w) (pend @ [x])"
        "sq_same (mc_sub st w) q"
      using sq_push_pending_ok[OF ok] True w by metis
    let ?st = "(mc_put w q st)\<lparr>mc_pending_count := mc_pending_count st + 1\<rparr>"
    have "mc_inv (mc_put w q st) sz bs w as (V(w := V w)) (pend @ [x]) C"
      using A(1) q d by (intro mc_inv_put[where P = pend]) auto
    then have "mc_abs ?st (bs @ w # as) vis (pend @ [x]) C"
      using A by (intro mc_absI[of _ sz _ _ _ V]) auto
    moreover have "mc_push_pending addr memory (Some x) st = Some (False, ?st)"
      using q(1) w by (simp add: mc_push_pending_def)
    ultimately show ?thesis using A(2) by blast
  next
    case False
    then have full: "sq_write (mc_sub st w) = sz" using ok w by (simp add: sq_ok_def)
    have sz: "sz > 0" using A(1) by (simp add: mc_inv_defs)
    let ?st1 = "st\<lparr>mc_count := mc_count st + mc_pending_count st, mc_pending_count := 0\<rparr>"
    have I1: "mc_inv ?st1 sz bs w as V pend C" using A(1) by simp
    have full1: "sq_write (mc_sub ?st1 w) = sz" and pc: "mc_pending_count ?st1 = 0" using full by simp_all
    have new': "addr \<notin> set (bs @ w # as)" using new A(2) by simp
    obtain q st' w' as' V' where R: "sq_flush_pending (mc_sub ?st1 w) = Some (pend \<noteq> [], q)"
      "mc_next_wpos addr memory (mc_put w q ?st1) = Some st'" "mc_inv st' sz (bs @ [w]) w' as' V' [] C"
      "concat (map V' (bs @ [w, w'])) = concat (map V (bs @ [w])) @ pend" "V' w' = []"
      "sq_write (mc_sub st' w') < sz" "mc_count st' = mc_count ?st1" "mc_pending_count st' = 0"
      "mc_consumer_count st' = mc_consumer_count ?st1" "\<And>c. mc_pos st' c = mc_pos ?st1 c"
      "mc_sub_count st' + length as = mc_sub_count ?st1 + 1 + length as'" "as = w' # as' \<or> as = [] \<and> w' = addr \<and> as' = []"
      by (rule mc_flush_next[OF I1 full1 pc new', of memory]) (rule that)
    have w': "mc_wpos st' = w'" "sq_size (mc_sub st' w') = sz" using R(3) by (simp_all add: mc_inv_defs)
    have fl: "mc_flush_pending st = Some (pend \<noteq> [] \<and> vis = [], mc_put w q ?st1)"
    proof (cases "pend = []")
      case True
      then have "?st1 = st" "sq_pending (mc_sub st w) = None" using A(5) ok by (simp_all add: sq_ok_def)
      then have "q = mc_sub st w" using R(1) by (simp add: sq_flush_pending_def)
      then show ?thesis using True \<open>?st1 = st\<close> A(5) by (simp add: mc_flush_pending_def)
    next
      case False
      then show ?thesis using R(1) A(4,5) w by (simp add: mc_flush_pending_def Let_def)
    qed
    obtain q' where q': "sq_push_pending (Some x) (mc_sub st' w') = Some (True, q')" "sq_ok q' [] [x]" "sq_same (mc_sub st' w') q'"
      using sq_push_pending_ok[of "mc_sub st' w'" "[]" "[]" x] mc_inv_sub(1)[OF R(3), of w'] R(5,6) w' by auto
    let ?st = "(mc_put w' q' st')\<lparr>mc_pending_count := 1\<rparr>"
    have d': "distinct ((bs @ [w]) @ w' # [])" using mc_inv_distinct[OF R(3)] by auto
    have "mc_inv (mc_put w' q' st') sz (bs @ [w]) w' as' (V'(w' := [])) [x] C"
      using R(3) q' d' by (intro mc_inv_put[where P = "[]"]) auto
    moreover have "V'(w' := []) = V'" using R(5) by auto
    ultimately have "mc_inv (mc_put w' q' st') sz (bs @ [w]) w' as' V' [x] C" by simp
    then have "mc_abs ?st ((bs @ [w]) @ w' # as') (vis @ pend) [x] C"
      using A R(4,7-11) by (intro mc_absI[of _ sz _ _ _ V']) auto
    moreover have "mc_push_pending addr memory (Some x) st = Some (pend \<noteq> [] \<and> vis = [], ?st)"
      using sq_push_pending_full[of "mc_sub st w" x] full w R(2,8) q'(1) w' fl by (simp add: mc_push_pending_def Let_def)
    moreover have "set (bs @ w # as) \<subseteq> set ((bs @ [w]) @ w' # as') \<and> set ((bs @ [w]) @ w' # as') \<subseteq> insert addr (set (bs @ w # as))"
      using R(12) by auto
    ultimately show ?thesis using A(2) by blast
  qed
qed

lemma mc_attach_abs:
  assumes "mc_abs st ids vis pend C" and "c \<notin> C"
  shows "mc_abs (mc_attach c st) ids vis pend (insert c C)"
proof -
  from assms(1) obtain sz bs w as V where A: "mc_inv st sz bs w as V pend C" "ids = bs @ w # as"
    "vis = concat (map V (bs @ [w]))" "mc_count st = length vis" "mc_pending_count st = length pend"
    "mc_sub_count st = length ids" "mc_consumer_count st = card C" "\<forall>c. c \<in> C \<longleftrightarrow> mc_pos st c \<noteq> None"
    by (rule mc_absE)
  have "Some (mc_head st) = first_or (bs @ [w]) None" using A(1) by (simp add: mc_inv_defs)
  then have "at_front (bs @ [w]) V (mc_head st)"
    by (cases "bs @ [w]") (auto simp: at_front_def intro: exI[of _ "[]"])
  from mc_add_consumer_ok[OF _ assms(2) this, of "st\<lparr>mc_consumer_count := mc_consumer_count st + 1\<rparr>"] A(1)
  have "mc_inv (mc_attach c st) sz bs w as V pend (insert c C)"
    by (simp add: mc_attach_def Let_def mc_add_consumer_def)
  moreover have "finite C" using A(1) by (simp add: mc_inv_defs)
  ultimately show ?thesis
    unfolding A(2) using A(2-8) assms(2)
    by (intro mc_absI) (auto simp: mc_attach_def Let_def mc_add_consumer_def)
qed

lemma mc_detach_abs:
  assumes "mc_abs st ids vis pend C"
  shows "\<exists>st' ids'. mc_detach c st = Some st' \<and> mc_abs st' ids' vis pend (C - {c})"
proof -
  from assms(1) obtain sz bs w as V where A: "mc_inv st sz bs w as V pend C" "ids = bs @ w # as"
    "vis = concat (map V (bs @ [w]))" "mc_count st = length vis" "mc_pending_count st = length pend"
    "mc_sub_count st = length ids" "mc_consumer_count st = card C" "\<forall>c. c \<in> C \<longleftrightarrow> mc_pos st c \<noteq> None"
    by (rule mc_absE)
  show ?thesis
  proof (cases "c \<in> C")
    case False
    then have "mc_detach c st = Some st" "C - {c} = C" using A(8) by (auto simp: mc_detach_def)
    with assms show ?thesis by auto
  next
    case True
    obtain i where i: "mc_pos st c = Some i" "i \<in> set (bs @ [w])" using mc_inv_user[OF A(1) True] by blast
    let ?st1 = "st\<lparr>mc_consumer_count := mc_consumer_count st - 1\<rparr>"
    have I1: "mc_inv (mc_del_consumer i ?st1) sz bs w as V pend (C - {c})"
      using mc_del_consumer_ok[of ?st1 sz bs w as V pend C c i] A(1) True i by simp
    obtain st2 bs' as' where R: "mc_collect i (mc_del_consumer i ?st1) = Some st2" "mc_inv st2 sz bs' w as' V pend (C - {c})"
      "mc_pos st2 = mc_pos (mc_del_consumer i ?st1)" "mc_count st2 = mc_count (mc_del_consumer i ?st1)"
      "mc_pending_count st2 = mc_pending_count (mc_del_consumer i ?st1)"
      "mc_sub_count st2 = mc_sub_count (mc_del_consumer i ?st1)"
      "mc_consumer_count st2 = mc_consumer_count (mc_del_consumer i ?st1)"
      "length bs' + length as' = length bs + length as"
      "bs' = bs \<or> (\<exists>b1 b2. bs = b1 @ i # b2 \<and> V i = [] \<and> bs' = b1 @ b2)"
      by (rule mc_collect_ok[OF I1 i(2)]) (rule that)
    let ?st = "st2\<lparr>mc_pos := (mc_pos st2)(c := None)\<rparr>"
    have "mc_inv ?st sz bs' w as' V pend (C - {c})"
    proof -
      have "{d \<in> C - {c}. mc_pos ?st d = Some j} = {d \<in> C - {c}. mc_pos st2 d = Some j}" for j by auto
      then show ?thesis using R(2) unfolding mc_inv_defs by auto
    qed
    moreover have "concat (map V (bs' @ [w])) = vis" using R(9) A(3) by auto
    moreover have "finite C" using A(1) by (simp add: mc_inv_defs)
    ultimately have "mc_abs ?st (bs' @ w # as') vis pend (C - {c})"
      using R(3-8) A(2,4-8) True by (intro mc_absI) (auto simp: mc_del_consumer_def)
    moreover have "mc_detach c st = Some ?st" using i(1) R(1) by (simp add: mc_detach_def)
    ultimately show ?thesis by blast
  qed
qed

lemma mc_delete_loop_ok:
  assumes "lchain (nexts st) ids None" and "distinct ids" and "\<forall>i \<in> set ids. sq_consumers (mc_sub st i) = 0"
  shows "mc_delete_loop (first_or ids None) n st = Some (n + length ids)"
  using assms
proof (induction ids arbitrary: n st)
  case Nil
  then show ?case by (simp add: mc_delete_loop.simps)
next
  case (Cons h ids)
  let ?st = "mc_set_next h None (mc_set_prev h None st)"
  have "lchain (nexts ?st) ids None" using Cons.prems by simp
  moreover have "\<forall>i \<in> set ids. sq_consumers (mc_sub ?st i) = 0" using Cons.prems by (auto simp: mc_set_defs)
  ultimately have "mc_delete_loop (first_or ids None) (n + 1) ?st = Some (n + 1 + length ids)"
    using Cons.prems(2) by (intro Cons.IH) (assumption | simp)+
  then show ?case
    using Cons.prems by (simp add: mc_delete_loop.simps[of "Some h"] Let_def nexts_def sq_delete_ok_def) (simp add: mc_set_defs)
qed

lemma mc_delete_ok:
  assumes "mc_abs st ids vis pend {}"
  shows "mc_delete st = Some ()"
proof -
  obtain sz bs w as V where A: "mc_inv st sz bs w as V pend {}" "ids = bs @ w # as"
      "mc_sub_count st = length ids" "mc_consumer_count st = 0"
    using assms by (auto simp: mc_abs_def)
  have "lchain (nexts st) ids None" "distinct ids" "\<forall>i \<in> set ids. sq_consumers (mc_sub st i) = 0"
      "Some (mc_head st) = first_or ids None"
    using A(1,2) by (simp_all add: mc_inv_defs)
  then show ?thesis
    using mc_delete_loop_ok[of st ids 0] A(3,4) by (simp add: mc_delete_def)
qed

text \<open>A chain of new sub-queues that is not in the list yet.\<close>

definition mc_chain :: "nat \<Rightarrow> ('c, 'a) mcq \<Rightarrow> nat list \<Rightarrow> bool" where
  "mc_chain sz st xs = (distinct xs \<and> lchain (nexts st) xs None \<and> lchain (prevs st) (rev xs) None \<and>
     (\<forall>i \<in> set xs. sq_size (mc_sub st i) = sz \<and> sq_ok (mc_sub st i) [] [] \<and> sq_read (mc_sub st i) = 0 \<and>
        sq_consumers (mc_sub st i) = 0))"

text \<open>Two states that differ in the store only.\<close>

definition mc_same :: "('c, 'a) mcq \<Rightarrow> ('c, 'a) mcq \<Rightarrow> bool" where
  "mc_same st st' = (\<exists>f. st' = st\<lparr>mc_sub := f\<rparr>)"

lemma mc_same_simps [simp]:
  "mc_same st st" "mc_same st (mc_put i q st') = mc_same st st'"
  "mc_same st (mc_set_next i p st') = mc_same st st'" "mc_same st (mc_set_prev i p st') = mc_same st st'"
proof -
  have *: "mc_same st (mc_put i q st') = mc_same st st'" for i q
    unfolding mc_same_def mc_put_def by (metis mcq.surjective mcq.update_convs(1))
  show "mc_same st st" "mc_same st (mc_put i q st') = mc_same st st'"
    "mc_same st (mc_set_next i p st') = mc_same st st'" "mc_same st (mc_set_prev i p st') = mc_same st st'"
    using * by (simp_all add: mc_set_next_def mc_set_prev_def) (metis mc_same_def mcq.surjective mcq.update_convs(1))
qed

lemma mc_reserve_loop_ok:
  assumes "mc_chain sz st xs" and "xs \<noteq> []" and "distinct (xs @ addrs)"
  shows "\<exists>st'. mc_reserve_loop sz memory addrs (last xs) st = Some (last (xs @ addrs), st') \<and>
           mc_chain sz st' (xs @ addrs) \<and> mc_same st st' \<and>
           (\<forall>i. i \<notin> set (xs @ addrs) \<longrightarrow> mc_sub st' i = mc_sub st i)"
  using assms
proof (induction addrs arbitrary: st xs)
  case Nil
  then show ?case by simp
next
  case (Cons a addrs)
  obtain q where q: "sq_new sz memory = Some q" "sq_ok q [] []" "sq_read q = 0" "sq_flush q = 0" "sq_size q = sz"
      "sq_consumers q = 0" "sq_prev q = None" "sq_next q = None"
    using sq_new_ok[of sz memory] by blast
  let ?st = "mc_set_prev a (Some (last xs)) (mc_set_next (last xs) (Some a) (mc_put a q st))"
  obtain ys y where xs: "xs = ys @ [y]" using Cons.prems(2) by (cases xs rule: rev_cases) auto
  have "mc_chain sz ?st (xs @ [a])"
  proof -
    have "distinct (xs @ [a])" using Cons.prems(3) by auto
    moreover have "lchain (nexts ?st) (xs @ [a]) None" "lchain (prevs ?st) (rev (xs @ [a])) None"
      using Cons.prems q xs by (auto simp: mc_chain_def)
    moreover have "\<forall>i \<in> set (xs @ [a]). sq_size (mc_sub ?st i) = sz \<and> sq_ok (mc_sub ?st i) [] [] \<and>
        sq_read (mc_sub ?st i) = 0 \<and> sq_consumers (mc_sub ?st i) = 0"
      using Cons.prems q xs by (auto simp: mc_chain_def mc_set_defs)
    ultimately show ?thesis by (simp add: mc_chain_def)
  qed
  from Cons.IH[OF this] Cons.prems(3) obtain st' where R:
    "mc_reserve_loop sz memory addrs a ?st = Some (last (xs @ a # addrs), st')" "mc_chain sz st' (xs @ a # addrs)"
    "mc_same ?st st'" "\<forall>i. i \<notin> set (xs @ a # addrs) \<longrightarrow> mc_sub st' i = mc_sub ?st i"
    by auto
  have "mc_same st st'"
  proof -
    have "mc_same st ?st" by simp
    then show ?thesis using R(3) unfolding mc_same_def by (metis mcq.fold_congs(1) mcq.surjective mcq.update_convs(1))
  qed
  moreover have "mc_sub st' i = mc_sub st i" if "i \<notin> set (xs @ a # addrs)" for i
    using R(4) that xs by (simp add: mc_set_defs)
  ultimately show ?case using R(1,2) q(1) by (auto simp: Let_def)
qed

lemma mc_reserve_abs:
  assumes "mc_abs st ids vis pend C" and inj: "inj addrs" and new: "\<And>k. addrs k \<notin> set ids"
  shows "\<exists>st' ids'. mc_reserve addrs memory n st = Some st' \<and> mc_abs st' ids' vis pend C \<and>
           mc_sub_count st' * sq_size (mc_sub st' (mc_wpos st')) \<ge> n"
proof -
  from assms(1) obtain sz bs w as V where A: "mc_inv st sz bs w as V pend C" "ids = bs @ w # as"
    "vis = concat (map V (bs @ [w]))" "mc_count st = length vis" "mc_pending_count st = length pend"
    "mc_sub_count st = length ids" "mc_consumer_count st = card C" "\<forall>c. c \<in> C \<longleftrightarrow> mc_pos st c \<noteq> None"
    by (rule mc_absE)
  define t where "t = last ids"
  have ids: "ids \<noteq> []" "distinct ids" using mc_inv_distinct[OF A(1)] A(2) by auto
  have T: "mc_tail st = t" "sq_size (mc_sub st t) = sz" "t \<in> set ids" "sz > 0" "mc_wpos st = w" "sq_size (mc_sub st w) = sz"
    using A(1) ids unfolding t_def A(2) by (auto simp: mc_inv_defs last_or_def)
  define n' where "n' = n div sz + (if n mod sz \<noteq> 0 then 1 else 0)"
  have "n \<le> n' * sz"
  proof (cases "n mod sz = 0")
    case False
    then have "n' * sz = n div sz * sz + sz" by (simp add: n'_def)
    then show ?thesis using div_mult_mod_eq[of n sz] mod_less_divisor[OF T(4), of n] by linarith
  qed (use div_mult_mod_eq[of n sz] in \<open>simp add: n'_def\<close>)
  show ?thesis
  proof (cases "mc_sub_count st \<ge> n'")
    case True
    then have "mc_reserve addrs memory n st = Some st"
      using T(1,2) by (simp add: mc_reserve_def Let_def n'_def)
    moreover have "mc_sub_count st * sz \<ge> n" using True \<open>n \<le> n' * sz\<close> mult_le_mono1 le_trans by blast
    ultimately show ?thesis using assms(1) T(5,6) by auto
  next
    case False
    define k where "k = n' - mc_sub_count st"
    have k: "0 < k" "mc_sub_count st + k = n'" using False by (simp_all add: k_def)
    let ?new = "map addrs [0..<k]"
    have nd: "distinct ?new" using inj by (simp add: distinct_map inj_on_def inj_def)
    have nn: "set ?new \<inter> set ids = {}" using new by auto
    have new_split: "?new = addrs 0 # map addrs [1..<k]" using k(1) by (simp add: upt_conv_Cons)
    obtain q where q: "sq_new sz memory = Some q" "sq_ok q [] []" "sq_read q = 0" "sq_flush q = 0" "sq_size q = sz"
        "sq_consumers q = 0" "sq_prev q = None" "sq_next q = None"
      using sq_new_ok[of sz memory] by blast
    let ?st1 = "mc_put (addrs 0) q st"
    have c0: "mc_chain sz ?st1 [addrs 0]" using q by (simp add: mc_chain_def)
    have "distinct ([addrs 0] @ map addrs [1..<k])" using nd unfolding new_split by simp
    from mc_reserve_loop_ok[OF c0 _ this, of memory] obtain st2 where R:
      "mc_reserve_loop sz memory (map addrs [1..<k]) (addrs 0) ?st1 = Some (last ?new, st2)"
      "mc_chain sz st2 ?new" "mc_same ?st1 st2" "\<forall>i. i \<notin> set ?new \<longrightarrow> mc_sub st2 i = mc_sub ?st1 i"
      unfolding new_split by auto
    define st' where "st' = (mc_set_next t (Some (addrs 0)) (mc_set_prev (addrs 0) (Some t)
        (st2\<lparr>mc_sub_count := mc_sub_count st + k\<rparr>)))\<lparr>mc_tail := last ?new\<rparr>"
    have sel2: "mc_tail st2 = t" "mc_head st2 = mc_head st" "mc_wpos st2 = w" "mc_pos st2 = mc_pos st"
        "mc_count st2 = mc_count st" "mc_pending_count st2 = mc_pending_count st"
        "mc_sub_count st2 = mc_sub_count st" "mc_consumer_count st2 = mc_consumer_count st"
      using R(3) T(1,5) by (auto simp: mc_same_def)
    have res: "mc_reserve addrs memory n st = Some st'"
    proof -
      have "\<not> n' \<le> mc_sub_count st" using False by simp
      moreover have "mc_tail (mc_set_prev (addrs 0) (Some t) (st2\<lparr>mc_sub_count := mc_sub_count st + k\<rparr>)) = t"
        using sel2 by (simp add: mc_set_defs)
      ultimately show ?thesis
        unfolding mc_reserve_def Let_def T(1) T(2) n'_def [symmetric] k_def [symmetric]
        using q(1) R(1) sel2 by (simp add: st'_def del: One_nat_def)
    qed
    have a0: "addrs 0 \<in> set ?new" "addrs 0 \<notin> set ids" "t \<notin> set ?new" "addrs 0 \<noteq> t"
      using k(1) nn T(3) new[of 0] by auto
    have sub: "mc_sub st' i = (if i = t then (mc_sub st t)\<lparr>sq_next := Some (addrs 0)\<rparr>
        else if i = addrs 0 then (mc_sub st2 i)\<lparr>sq_prev := Some t\<rparr> else if i \<in> set ?new then mc_sub st2 i else mc_sub st i)" for i
      using R(4) a0 by (simp add: st'_def mc_set_defs)
    have sel: "mc_tail st' = last ?new" "mc_head st' = mc_head st" "mc_wpos st' = w" "mc_pos st' = mc_pos st"
        "mc_count st' = mc_count st" "mc_pending_count st' = mc_pending_count st"
        "mc_sub_count st' = mc_sub_count st + k" "mc_consumer_count st' = mc_consumer_count st"
      using sel2 by (simp_all add: st'_def mc_set_defs)
    have old: "mc_sub st' i = (mc_sub st i)\<lparr>sq_next := sq_next (mc_sub st' i)\<rparr>" if "i \<in> set ids" for i
      using that nn sub[of i] a0 by auto
    have lk: "nexts st' = (nexts st2)(t := Some (addrs 0))" "prevs st' = (prevs st2)(addrs 0 := Some t)"
      by (simp_all add: st'_def)
    have lk2: "nexts st2 i = nexts st i" "prevs st2 i = prevs st i" if "i \<in> set ids" for i
    proof -
      have "i \<notin> set ?new" "i \<noteq> addrs 0" using that nn a0(2) by blast+
      then have "mc_sub st2 i = mc_sub st i" using R(4) by simp
      then show "nexts st2 i = nexts st i" "prevs st2 i = prevs st i" by (simp_all add: nexts_def prevs_def)
    qed
    have "mc_linked st' (ids @ ?new)"
    proof -
      obtain us where us: "ids = us @ [t]" using ids(1) by (metis append_butlast_last_id t_def)
      have L: "lchain (nexts st) ids None" "lchain (prevs st) (rev ids) None" "Some (mc_head st) = first_or ids None"
        using A(1,2) by (simp_all add: mc_inv_defs)
      have "lchain (nexts st2) ids None" "lchain (prevs st2) (rev ids) None"
        using L lk2 lchain_cong[of ids "nexts st2" "nexts st"] lchain_cong[of "rev ids" "prevs st2" "prevs st"] by auto
      then have F: "lchain (nexts st2) us (Some t)" "prevs st2 t = last_or us None" "lchain (prevs st2) (rev us) None"
        unfolding us by simp_all
      have G: "lchain (nexts st2) ?new None" "lchain (prevs st2) (rev ?new) None" using R(2) by (simp_all add: mc_chain_def)
      define rs where "rs = map addrs [1..<k]"
      have rs: "?new = addrs 0 # rs" unfolding rs_def by (rule new_split)
      have d: "t \<notin> set us" "addrs 0 \<notin> set us" "addrs 0 \<notin> set rs" "t \<notin> set rs" "t \<noteq> addrs 0" "distinct ids" "distinct (addrs 0 # rs)"
          "set (addrs 0 # rs) \<inter> set ids = {}"
        using ids(2) us a0 nd nn unfolding rs by auto
      have n1: "lchain (nexts st') (ids @ ?new) None"
        unfolding lk rs us using F G(1) d unfolding rs by simp
      have "lchain (prevs st2) (rev rs) (Some (addrs 0))" using G(2) unfolding rs by simp
      then have p1: "lchain (prevs st') (rev (ids @ ?new)) None"
        unfolding lk rs us using F d by simp
      have "distinct (ids @ ?new)" using d(6) nd nn by (simp add: Int_commute)
      moreover have "Some (mc_head st') = first_or (ids @ ?new) None" using L(3) sel(2) us by simp
      moreover have "Some (mc_tail st') = last_or (ids @ ?new) None" unfolding rs sel(1) by (simp add: last_or_def)
      ultimately show ?thesis using n1 p1 by (simp only: mc_linked_def)
    qed
    then have L: "mc_linked st' (bs @ w # as @ ?new)" by (simp add: A(2))
    have E: "sq_size (mc_sub st' i) = sq_size (mc_sub st i)" "sq_ok (mc_sub st' i) v u = sq_ok (mc_sub st i) v u"
        "sq_read (mc_sub st' i) = sq_read (mc_sub st i)" "sq_flush (mc_sub st' i) = sq_flush (mc_sub st i)"
        "sq_consumers (mc_sub st' i) = sq_consumers (mc_sub st i)" if "i \<in> set ids" for i v u
      by (subst old[OF that], simp)+
    have N: "sq_size (mc_sub st' i) = sz" "sq_ok (mc_sub st' i) [] []" "sq_read (mc_sub st' i) = 0"
        "sq_consumers (mc_sub st' i) = 0" if "i \<in> set ?new" for i
    proof -
      have "i \<noteq> t" using that a0(3) by blast
      then have "mc_sub st' i = mc_sub st2 i \<or> mc_sub st' i = (mc_sub st2 i)\<lparr>sq_prev := Some t\<rparr>"
        using that sub[of i] by simp
      moreover have "sq_size (mc_sub st2 i) = sz" "sq_ok (mc_sub st2 i) [] []" "sq_read (mc_sub st2 i) = 0"
          "sq_consumers (mc_sub st2 i) = 0"
        using R(2) that unfolding mc_chain_def by blast+
      ultimately show "sq_size (mc_sub st' i) = sz" "sq_ok (mc_sub st' i) [] []" "sq_read (mc_sub st' i) = 0"
        "sq_consumers (mc_sub st' i) = 0" by auto
    qed
    define news where "news = ?new"
    note N' = N[folded news_def] and L' = L[folded news_def]
    have I: "mc_shape st sz bs w as" "mc_content st sz bs w as V pend" "mc_users st bs w as V C"
      using A(1) by (simp_all add: mc_inv_def)
    have in_ids: "i \<in> set ids" if "i \<in> set bs \<or> i = w \<or> i \<in> set as" for i using that A(2) by auto
    have none: "{c \<in> C. mc_pos st c = Some i} = {}" if "i \<in> set news" for i
    proof -
      have "i \<notin> set (bs @ [w])" using that nn A(2) unfolding news_def by auto
      moreover have "j \<in> set (bs @ [w])" if "at_front (bs @ [w]) V j" for j
        using that unfolding at_front_def by (metis in_set_conv_decomp)
      ultimately show ?thesis using I(3) unfolding mc_users_def by force
    qed
    have "mc_shape st' sz bs w (as @ news)"
      using I(1) L' E(1)[OF in_ids] N'(1) sel unfolding mc_shape_def by auto
    moreover have "mc_content st' sz bs w (as @ news) V pend"
      using I(2) E(2-4)[OF in_ids] N'(2,3) unfolding mc_content_def by auto
    moreover have "mc_users st' bs w (as @ news) V C"
      using I(3) E(5)[OF in_ids] N'(4) none sel(4) unfolding mc_users_def by auto
    ultimately have "mc_inv st' sz bs w (as @ news) V pend C" by (simp add: mc_inv_def)
    then have I': "mc_inv st' sz bs w (as @ ?new) V pend C" by (simp only: news_def)
    then have "mc_abs st' (bs @ w # as @ ?new) vis pend C"
      using A sel by (intro mc_absI[OF I']) auto
    moreover have "mc_sub_count st' * sq_size (mc_sub st' (mc_wpos st')) \<ge> n"
    proof -
      have "sq_size (mc_sub st' w) = sz" using I' by (simp add: mc_inv_defs)
      then show ?thesis using sel k(2) \<open>n \<le> n' * sz\<close> by simp
    qed
    ultimately show ?thesis using res by blast
  qed
qed

section \<open>Correctness\<close>

text \<open>The operations, their specification over the abstract state, and runs of operations. A consumer
  attaches when it is detached and pops when it is attached, as the class requires.\<close>

datatype ('c, 'a) mc_op = Push 'a | PushPending 'a | Flush | Pop 'c | Attach 'c | Detach 'c | Reserve nat

datatype 'a mc_result = Became bool | Item "'a ptr" | Done

text \<open>\<open>addrs\<close> are the addresses the allocator returns during the operation, \<open>memory\<close> what the new memory holds.\<close>

fun mc_exec :: "(nat \<Rightarrow> nat) \<Rightarrow> (nat \<Rightarrow> 'a ptr) \<Rightarrow> ('c, 'a) mc_op \<Rightarrow> ('c, 'a) mcq \<Rightarrow> ('a mc_result \<times> ('c, 'a) mcq) option" where
  "mc_exec addrs memory (Push x) st = map_option (map_prod Became id) (mc_push (addrs 0) memory (Some x) st)"
| "mc_exec addrs memory (PushPending x) st = map_option (map_prod Became id) (mc_push_pending (addrs 0) memory (Some x) st)"
| "mc_exec addrs memory Flush st = map_option (map_prod Became id) (mc_flush_pending st)"
| "mc_exec addrs memory (Pop c) st = map_option (map_prod Item id) (mc_pop c st)"
| "mc_exec addrs memory (Attach c) st = Some (Done, mc_attach c st)"
| "mc_exec addrs memory (Detach c) st = map_option (Pair Done) (mc_detach c st)"
| "mc_exec addrs memory (Reserve n) st = map_option (Pair Done) (mc_reserve addrs memory n st)"

inductive mc_spec ::
  "'a list \<times> 'a list \<times> 'c set \<Rightarrow> ('c, 'a) mc_op \<Rightarrow> 'a mc_result \<Rightarrow> 'a list \<times> 'a list \<times> 'c set \<Rightarrow> bool" where
  push: "mc_spec (vis, pend, C) (Push x) (Became (vis = [])) (vis @ pend @ [x], [], C)"
| pending: "mc_spec (vis, pend, C) (PushPending x) (Became False) (vis, pend @ [x], C)"
| spill: "mc_spec (vis, pend, C) (PushPending x) (Became (pend \<noteq> [] \<and> vis = [])) (vis @ pend, [x], C)"
| flush: "mc_spec (vis, pend, C) Flush (Became (pend \<noteq> [] \<and> vis = [])) (vis @ pend, [], C)"
| pop: "c \<in> C \<Longrightarrow> mc_spec (vis, pend, C) (Pop c) (Item (first_or vis None)) (tl vis, pend, C)"
| attach: "c \<notin> C \<Longrightarrow> mc_spec (vis, pend, C) (Attach c) Done (vis, pend, insert c C)"
| detach: "mc_spec (vis, pend, C) (Detach c) Done (vis, pend, C - {c})"
| reserve: "mc_spec (vis, pend, C) (Reserve n) Done (vis, pend, C)"

fun mc_allowed :: "'c set \<Rightarrow> ('c, 'a) mc_op \<Rightarrow> bool" where
  "mc_allowed C (Pop c) = (c \<in> C)"
| "mc_allowed C (Attach c) = (c \<notin> C)"
| "mc_allowed C op = True"

inductive_cases mc_spec_cases: "mc_spec (vis, pend, C) op r s"

lemma mc_refines_raw:
  assumes "mc_abs st ids vis pend C" and "inj addrs" and "\<And>k. addrs k \<notin> set ids" and "mc_allowed C op"
  shows "\<exists>r st' ids' vis' pend' C'. mc_exec addrs memory op st = Some (r, st') \<and>
           mc_spec (vis, pend, C) op r (vis', pend', C') \<and> mc_abs st' ids' vis' pend' C'"
proof (cases op)
  case (Push x)
  then show ?thesis
    using mc_push_abs[OF assms(1) assms(3)[of 0], of memory x] mc_spec.push[of vis pend C x] by fastforce
next
  case (PushPending x)
  obtain r st' ids' where R: "mc_push_pending (addrs 0) memory (Some x) st = Some (r, st')"
    "\<not> r \<and> ids' = ids \<and> mc_abs st' ids' vis (pend @ [x]) C \<or> (r \<longleftrightarrow> pend \<noteq> [] \<and> vis = []) \<and> mc_abs st' ids' (vis @ pend) [x] C"
    using mc_push_pending_abs[OF assms(1) assms(3)[of 0], of memory x] by blast
  from R(2) show ?thesis
    using R(1) PushPending mc_spec.pending[of vis pend C x] mc_spec.spill[of vis pend C x] by fastforce
next
  case Flush
  then show ?thesis
    using mc_flush_pending_abs[OF assms(1)] mc_spec.flush[of vis pend C] by fastforce
next
  case (Pop c)
  then have "c \<in> C" using assms(4) by simp
  from mc_pop_abs[OF assms(1) this] mc_spec.pop[OF this, of vis pend] show ?thesis
    using Pop by fastforce
next
  case (Attach c)
  then have "c \<notin> C" using assms(4) by simp
  from mc_attach_abs[OF assms(1) this] mc_spec.attach[OF this, of vis pend] show ?thesis
    using Attach by fastforce
next
  case (Detach c)
  then show ?thesis
    using mc_detach_abs[OF assms(1), of c] mc_spec.detach[of vis pend C c] by fastforce
next
  case (Reserve n)
  then show ?thesis
    using mc_reserve_abs[OF assms(1,2,3), of memory n] mc_spec.reserve[of vis pend C n] by fastforce
qed

text \<open>
  C14. Refinement of \<^verbatim>\<open>MultiConsumerQueue\<close>: from every valid state, every allowed operation of the producer
  or of any consumer succeeds (no assertion fails, no null pointer is followed, recycling included)
  and does what the abstract queue does: a push appends and tells whether the queue was empty, a
  pending push becomes visible at a flush only, a pop by any consumer takes the oldest visible element.
\<close>
theorem mc_refines:
  assumes "mc_abs st ids vis pend C" and "inj addrs" and "\<And>k. addrs k \<notin> set ids" and "mc_allowed C op"
  shows "\<exists>r st' ids' vis' pend' C'. mc_exec addrs memory op st = Some (r, st') \<and>
           mc_spec (vis, pend, C) op r (vis', pend', C') \<and> mc_abs st' ids' vis' pend' C'"
  by (rule mc_refines_raw[OF assms])

text \<open>The constructor establishes the invariant.\<close>

lemma mc_new_abs:
  assumes "sz > 0"
  shows "\<exists>st. mc_new sz addr memory = Some st \<and> mc_abs st [addr] [] [] {}"
proof -
  obtain q where q: "sq_new sz memory = Some q" "sq_ok q [] []" "sq_size q = sz" "sq_consumers q = 0"
      "sq_prev q = None" "sq_next q = None"
    using sq_new_ok[of sz memory] by blast
  define st :: "('a, 'b) mcq" where "st = \<lparr>mc_sub = \<lambda>_. q, mc_head = addr, mc_wpos = addr, mc_tail = addr,
    mc_count = 0, mc_pending_count = 0, mc_sub_count = 1, mc_consumer_count = 0, mc_pos = \<lambda>_. None\<rparr>"
  have "mc_inv st sz [] addr [] (\<lambda>_. []) [] {}"
    using q assms by (auto simp: mc_inv_defs st_def nexts_def prevs_def)
  from mc_absI[OF this, of "[]"] have "mc_abs st [addr] [] [] {}" by (simp add: st_def)
  moreover have "mc_new sz addr memory = Some st" using q assms by (simp add: mc_new_def st_def)
  ultimately show ?thesis by blast
qed

lemma mc_refines_witness:
  "\<exists>(st :: (nat, nat) mcq) ids r st' ids'. mc_abs st ids [5] [] {3} \<and>
     mc_exec (\<lambda>k. k + 7) (\<lambda>_. None) (Pop 3) st = Some (Item (Some 5), st') \<and> mc_abs st' ids' [] [] {3}"
proof -
  obtain st where "mc_abs (st :: (nat, nat) mcq) [0] [] [] {}"
    using mc_new_abs[of 2 0 "\<lambda>_. None"] by auto
  from mc_attach_abs[OF this, of 3] have a: "mc_abs (mc_attach 3 st) [0] [] [] {3}" by simp
  from mc_push_abs[OF a, of 1 "\<lambda>_. None" 5] obtain st2 ids2 where
    b: "mc_abs (st2 :: (nat, nat) mcq) ids2 [5] [] {3}" "set ids2 \<subseteq> {0, 1}" by auto
  have "inj (\<lambda>k::nat. k + 7)" "k + 7 \<notin> set ids2" for k using b(2) by (auto simp: inj_def)
  from mc_refines[OF b(1) this, where op = "Pop 3" and memory = "\<lambda>_. None"] obtain r st' ids' vis' pend' C' where
    "mc_exec (\<lambda>k. k + 7) (\<lambda>_. None) (Pop 3) st2 = Some (r, st')" "mc_spec ([5], [], {3}) (Pop 3) r (vis', pend', C')"
    "mc_abs st' ids' vis' pend' C'" by auto
  moreover from this(2) have "r = Item (Some 5)" "vis' = []" "pend' = []" "C' = {3}"
    by (auto elim!: mc_spec_cases)
  ultimately show ?thesis using b(1) by blast
qed

lemma mc_new_absD:
  fixes st :: "('c, 'a) mcq"
  assumes "sz > 0" and "mc_new sz addr memory = Some st"
  shows "mc_abs st [addr] [] [] {}"
proof -
  obtain st' :: "('c, 'a) mcq" where "mc_new sz addr memory = Some st'" "mc_abs st' [addr] [] [] {}"
    using mc_new_abs[OF assms(1), of addr memory] by blast
  with assms(2) show ?thesis by simp
qed

text \<open>The sub-queues in use are those reached from the head; an allocator returns other addresses.\<close>

inductive mc_in_use :: "('c, 'a) mcq \<Rightarrow> nat \<Rightarrow> bool" for st where
  head: "mc_in_use st (mc_head st)"
| follow: "mc_in_use st i \<Longrightarrow> sq_next (mc_sub st i) = Some j \<Longrightarrow> mc_in_use st j"

lemma lchain_next_mem: "lchain f xs None \<Longrightarrow> i \<in> set xs \<Longrightarrow> f i = Some j \<Longrightarrow> j \<in> set xs"
proof (induction xs)
  case (Cons x xs)
  then show ?case by (cases xs) auto
qed simp

lemma mc_in_use_ids:
  assumes "mc_abs st ids vis pend C" and "mc_in_use st i"
  shows "i \<in> set ids"
proof -
  have L: "lchain (nexts st) ids None" "Some (mc_head st) = first_or ids None"
    using assms(1) by (auto simp: mc_abs_def mc_inv_defs)
  from assms(2) show ?thesis
  proof induction
    case head
    from L(2) show ?case by (cases ids) auto
  next
    case (follow i j)
    then show ?case using lchain_next_mem[OF L(1)] by (simp add: nexts_def)
  qed
qed

lemma mc_ids_in_use:
  assumes "mc_abs st ids vis pend C" and "i \<in> set ids"
  shows "mc_in_use st i"
proof -
  have L: "lchain (nexts st) ids None" "Some (mc_head st) = first_or ids None"
    using assms(1) by (auto simp: mc_abs_def mc_inv_defs)
  have "\<forall>i \<in> set ys. mc_in_use st i" if "lchain (nexts st) ys None" "\<forall>y. first_or ys None = Some y \<longrightarrow> mc_in_use st y" for ys
    using that
  proof (induction ys)
    case (Cons y ys)
    have "mc_in_use st y" using Cons.prems(2) by simp
    have l: "lchain (nexts st) ys None" "sq_next (mc_sub st y) = first_or ys None"
      using Cons.prems(1) nexts_def[of st y] by simp_all
    have "\<forall>i \<in> set ys. mc_in_use st i"
      using l(1)
    proof (rule Cons.IH)
      show "\<forall>z. first_or ys None = Some z \<longrightarrow> mc_in_use st z"
        using mc_in_use.follow[OF \<open>mc_in_use st y\<close>] unfolding l(2) by blast
    qed
    with \<open>mc_in_use st y\<close> show ?case by simp
  qed simp
  moreover have "\<forall>y. first_or ids None = Some y \<longrightarrow> mc_in_use st y"
    using L(2) mc_in_use.head[of st] by (cases ids) auto
  ultimately show ?thesis using L(1) assms(2) by blast
qed

text \<open>
  Histories: a new queue and any sequence of allowed operations of the producer and of the consumers.
  \<open>ins\<close> is everything pushed so far, in order, \<open>outs\<close> everything popped, by whichever consumer.
\<close>

fun pushed_of :: "('c, 'a) mc_op \<Rightarrow> 'a list" where
  "pushed_of (Push x) = [x]"
| "pushed_of (PushPending x) = [x]"
| "pushed_of op = []"

fun popped_of :: "'a mc_result \<Rightarrow> 'a list" where
  "popped_of (Item (Some x)) = [x]"
| "popped_of r = []"

fun consumers_after :: "('c, 'a) mc_op \<Rightarrow> 'c set \<Rightarrow> 'c set" where
  "consumers_after (Attach c) C = insert c C"
| "consumers_after (Detach c) C = C - {c}"
| "consumers_after op C = C"

inductive mc_history :: "('c, 'a) mcq \<Rightarrow> 'a list \<Rightarrow> 'a list \<Rightarrow> 'c set \<Rightarrow> bool" where
  new: "sz > 0 \<Longrightarrow> mc_new sz addr memory = Some st \<Longrightarrow> mc_history st [] [] {}"
| step: "mc_history st ins outs C \<Longrightarrow> mc_allowed C op \<Longrightarrow> inj addrs \<Longrightarrow> (\<And>k. \<not> mc_in_use st (addrs k)) \<Longrightarrow>
     mc_exec addrs memory op st = Some (r, st') \<Longrightarrow>
     mc_history st' (ins @ pushed_of op) (outs @ popped_of r) (consumers_after op C)"

lemma mc_spec_contents:
  assumes "mc_spec (vis, pend, C) op r (vis', pend', C')"
  shows "vis @ pend @ pushed_of op = popped_of r @ vis' @ pend'" and "C' = consumers_after op C"
proof -
  have "vis @ pend @ pushed_of op = popped_of r @ vis' @ pend' \<and> C' = consumers_after op C"
    using assms by (cases rule: mc_spec_cases) (auto split: list.splits, cases vis, auto)
  then show "vis @ pend @ pushed_of op = popped_of r @ vis' @ pend'" "C' = consumers_after op C" by simp_all
qed

lemma mc_history_abs:
  assumes "mc_history st ins outs C"
  shows "\<exists>ids vis pend. mc_abs st ids vis pend C \<and> ins = outs @ vis @ pend"
  using assms
proof induction
  case (new sz addr memory st)
  then have "mc_abs st [addr] [] [] {}" by (intro mc_new_absD)
  then show ?case by auto
next
  case (step st ins outs C op addrs memory r st')
  then obtain ids vis pend where A: "mc_abs st ids vis pend C" "ins = outs @ vis @ pend" by blast
  have "addrs k \<notin> set ids" for k using mc_ids_in_use[OF A(1)] step.hyps by blast
  from mc_refines_raw[OF A(1) step.hyps(3) this step.hyps(2), of memory] step.hyps(5)
  obtain ids' vis' pend' C' where "mc_spec (vis, pend, C) op r (vis', pend', C')" "mc_abs st' ids' vis' pend' C'" by auto
  with mc_spec_contents[OF this(1)] A(2) show ?case by auto
qed

text \<open>
  C19. No loss, no duplication, no reordering: after any history of a \<^verbatim>\<open>MultiConsumerQueue\<close> what was popped,
  followed by what is visible and what is pending, is what was pushed, in order. The counters
  \<^verbatim>\<open>Count\<close> and \<^verbatim>\<open>myPendingCount\<close> are the sizes of the two parts, and once all consumers are
  detached the destructor passes its assertions: it frees as many sub-queues as were counted.
\<close>
theorem mc_no_loss:
  assumes "mc_history st ins outs C"
  shows "\<exists>vis pend. ins = outs @ vis @ pend \<and> mc_count st = length vis \<and> mc_pending_count st = length pend \<and>
           (C = {} \<longrightarrow> mc_delete st = Some ())"
proof -
  from mc_history_abs[OF assms] obtain ids vis pend where A: "mc_abs st ids vis pend C" "ins = outs @ vis @ pend"
    by blast
  then have "mc_count st = length vis" "mc_pending_count st = length pend" by (auto simp: mc_abs_def)
  moreover have "C = {} \<longrightarrow> mc_delete st = Some ()" using mc_delete_ok A(1) by blast
  ultimately show ?thesis using A(2) by blast
qed

lemma mc_no_loss_witness:
  "\<exists>(st :: (nat, nat) mcq) vis pend. mc_history st [4] [] {} \<and> [4 :: nat] = [] @ vis @ pend \<and> mc_count st = length vis \<and>
     mc_delete st = Some ()"
proof -
  obtain st where s: "mc_new 2 0 (\<lambda>_. None) = Some (st :: (nat, nat) mcq)" "mc_abs st [0] [] [] {}"
    using mc_new_abs[of 2 0 "\<lambda>_. None"] by auto
  have h: "mc_history st [] [] {}" by (rule mc_history.new[OF _ s(1)]) simp
  have f: "inj Suc" "\<And>k. \<not> mc_in_use st (Suc k)" using mc_in_use_ids[OF s(2)] by auto
  obtain st' where e: "mc_exec Suc (\<lambda>_. None) (Push 4) st = Some (Became True, st')"
    using mc_push_abs[OF s(2), of "Suc 0" "\<lambda>_. None" 4] by auto
  from mc_history.step[OF h _ f e] have h': "mc_history st' [4] [] {}" by simp
  from mc_no_loss[OF h'] obtain vis pend where "[4 :: nat] = [] @ vis @ pend" "mc_count st' = length vis" "mc_delete st' = Some ()"
    by blast
  with h' show ?thesis by blast
qed

text \<open>
  \<^verbatim>\<open>Reserve(n)\<close> always succeeds, keeps the contents, and leaves room for at least \<open>n\<close> elements.
\<close>
theorem mc_reserve_correct:
  assumes "mc_abs st ids vis pend C" and "inj addrs" and "\<And>k. addrs k \<notin> set ids"
  shows "\<exists>st' ids'. mc_reserve addrs memory n st = Some st' \<and> mc_abs st' ids' vis pend C \<and>
           mc_sub_count st' * sq_size (mc_sub st' (mc_wpos st')) \<ge> n"
  by (rule mc_reserve_abs[OF assms])

lemma mc_reserve_correct_witness:
  "\<exists>(st :: (nat, nat) mcq) st' ids'. mc_abs st [0] [] [] {} \<and> mc_reserve Suc (\<lambda>_. None) 5 st = Some st' \<and>
     mc_abs st' ids' [] [] {} \<and> mc_sub_count st' * sq_size (mc_sub st' (mc_wpos st')) \<ge> 5"
proof -
  obtain st where s: "mc_abs (st :: (nat, nat) mcq) [0] [] [] {}"
    using mc_new_abs[of 2 0 "\<lambda>_. None"] by auto
  from mc_reserve_correct[OF s, of Suc "\<lambda>_. None" 5] s show ?thesis by (auto 0 4)
qed

end
