(* ===== verification/Signals.thy ===== *)
theory Signals
  imports Serverbox_Prelude
begin

text \<open>
  The signal of \<^verbatim>\<open>box/Signal.cpp\<close> as a step relation: one step per atomic operation of one thread (a
  compare-and-exchange, an exchange, taking or releasing the lock, going to sleep on the condition variable, a
  notification). Mutex and condition variable behave as the standard says: the lock has one owner,
  \<^verbatim>\<open>Wait\<close> releases the lock and falls asleep in one step, a notification wakes one sleeper if there
  is one, and a sleeper can wake up spuriously or by its timeout at any time.
\<close>

section \<open>State\<close>

datatype sig_state = SigEmpty | SigProbe | SigSignaled

text \<open>Where a thread is. The result of the last call is kept by \<open>Idle\<close>.\<close>

datatype sig_pc =
    Idle bool
  | SndCas | SndLock | SndXchg | SndNotify | SndUnlock
  | RcvCas
  | BlkFast | BlkLock | BlkTry | BlkWait | BlkSleep | BlkUnlock
  | TmFast | TmLock | TmTry | TmWait | TmSleep | TmRelock | TmRetry | TmUnlock bool
  | DtLock | DtUnlock
  | Aborted

text \<open>\<open>sg_raised\<close> and \<open>sg_received\<close> count the signals raised and consumed.\<close>

record 't sig =
  sg_state :: sig_state
  sg_lock :: "'t option"
  sg_waiters :: "'t set"
  sg_pc :: "'t \<Rightarrow> sig_pc"
  sg_raised :: nat
  sg_received :: nat

definition sg_new :: "'t sig" where
  "sg_new = \<lparr>sg_state = SigEmpty, sg_lock = None, sg_waiters = {}, sg_pc = \<lambda>_. Idle False,
     sg_raised = 0, sg_received = 0\<rparr>"

definition sg_goto :: "'t \<Rightarrow> sig_pc \<Rightarrow> 't sig \<Rightarrow> 't sig" where
  "sg_goto t p s = s\<lparr>sg_pc := (sg_pc s)(t := p)\<rparr>"

definition sg_acquire :: "'t \<Rightarrow> sig_pc \<Rightarrow> 't sig \<Rightarrow> 't sig" where
  "sg_acquire t p s = sg_goto t p (s\<lparr>sg_lock := Some t\<rparr>)"

definition sg_release :: "'t \<Rightarrow> sig_pc \<Rightarrow> 't sig \<Rightarrow> 't sig" where
  "sg_release t p s = sg_goto t p (s\<lparr>sg_lock := None\<rparr>)"

text \<open>\<^verbatim>\<open>Receive\<close>: one strong compare-and-exchange.\<close>

definition sg_receive :: "'t sig \<Rightarrow> bool \<times> 't sig" where
  "sg_receive s =
     (if sg_state s = SigSignaled then (True, s\<lparr>sg_state := SigEmpty, sg_received := sg_received s + 1\<rparr>)
      else (False, s))"

section \<open>Steps\<close>

text \<open>Where \<^verbatim>\<open>Receive\<close> is called, and where the thread goes with each result.\<close>

fun after_receive :: "sig_pc \<Rightarrow> bool \<Rightarrow> sig_pc option" where
  "after_receive RcvCas r = Some (Idle r)"
| "after_receive BlkFast r = Some (if r then Idle True else BlkLock)"
| "after_receive BlkTry r = Some (if r then BlkUnlock else BlkWait)"
| "after_receive TmFast r = Some (if r then Idle True else TmLock)"
| "after_receive TmTry r = Some (if r then TmUnlock True else TmWait)"
| "after_receive TmRetry r = Some (TmUnlock r)"
| "after_receive p r = None"

text \<open>Where the lock is taken and released, and where the thread falls asleep and wakes up.\<close>

fun after_lock :: "sig_pc \<Rightarrow> sig_pc option" where
  "after_lock SndLock = Some SndXchg"
| "after_lock BlkLock = Some BlkTry"
| "after_lock TmLock = Some TmTry"
| "after_lock TmRelock = Some TmRetry"
| "after_lock DtLock = Some DtUnlock"
| "after_lock p = None"

fun after_unlock :: "sig_pc \<Rightarrow> sig_pc option" where
  "after_unlock SndUnlock = Some (Idle False)"
| "after_unlock BlkUnlock = Some (Idle True)"
| "after_unlock (TmUnlock r) = Some (Idle r)"
| "after_unlock DtUnlock = Some (Idle False)"
| "after_unlock p = None"

fun after_wait :: "sig_pc \<Rightarrow> sig_pc option" where
  "after_wait BlkWait = Some BlkSleep"
| "after_wait TmWait = Some TmSleep"
| "after_wait p = None"

fun after_wake :: "sig_pc \<Rightarrow> sig_pc option" where
  "after_wake BlkSleep = Some BlkLock"
| "after_wake TmSleep = Some TmRelock"
| "after_wake p = None"

definition sg_wake :: "'t \<Rightarrow> sig_pc \<Rightarrow> 't sig \<Rightarrow> 't sig" where
  "sg_wake w p s = sg_goto w p (s\<lparr>sg_waiters := sg_waiters s - {w}\<rparr>)"

inductive sg_step :: "'t sig \<Rightarrow> 't sig \<Rightarrow> bool" where
  send_first: "sg_pc s t = SndCas \<Longrightarrow> sg_state s = SigEmpty \<Longrightarrow>
     sg_step s (sg_goto t SndLock (s\<lparr>sg_state := SigProbe, sg_raised := sg_raised s + 1\<rparr>))"
| send_again: "sg_pc s t = SndCas \<Longrightarrow> sg_state s \<noteq> SigEmpty \<Longrightarrow> sg_step s (sg_goto t (Idle False) s)"
| exchange: "sg_pc s t = SndXchg \<Longrightarrow>
     sg_step s (sg_goto t (if sg_state s = SigProbe then SndNotify else Aborted) (s\<lparr>sg_state := SigSignaled\<rparr>))"
| notify_none: "sg_pc s t = SndNotify \<Longrightarrow> sg_waiters s = {} \<Longrightarrow> sg_step s (sg_goto t SndUnlock s)"
| notify_one: "sg_pc s t = SndNotify \<Longrightarrow> w \<in> sg_waiters s \<Longrightarrow> after_wake (sg_pc s w) = Some p \<Longrightarrow>
     sg_step s (sg_goto t SndUnlock (sg_wake w p s))"
| receive: "sg_receive s = (r, s') \<Longrightarrow> after_receive (sg_pc s t) r = Some p \<Longrightarrow> sg_step s (sg_goto t p s')"
| lock: "after_lock (sg_pc s t) = Some p \<Longrightarrow> sg_lock s = None \<Longrightarrow> sg_step s (sg_acquire t p s)"
| unlock: "after_unlock (sg_pc s t) = Some p \<Longrightarrow> sg_step s (sg_release t p s)"
| wait: "after_wait (sg_pc s t) = Some p \<Longrightarrow>
     sg_step s (sg_release t p (s\<lparr>sg_waiters := insert t (sg_waiters s)\<rparr>))"

text \<open>
  What the environment does: a thread calls an operation (the destructor only after it received a
  signal), or a sleeper wakes up by itself or by its timeout.
\<close>

inductive sg_env :: "'t sig \<Rightarrow> 't sig \<Rightarrow> bool" where
  call: "sg_pc s t = Idle r \<Longrightarrow> p \<in> {SndCas, RcvCas, BlkFast, TmFast} \<Longrightarrow> sg_env s (sg_goto t p s)"
| destroy: "sg_pc s t = Idle True \<Longrightarrow> sg_env s (sg_goto t DtLock s)"
| spurious: "w \<in> sg_waiters s \<Longrightarrow> after_wake (sg_pc s w) = Some p \<Longrightarrow> sg_env s (sg_wake w p s)"

inductive sg_reachable :: "'t sig \<Rightarrow> bool" where
  new: "sg_reachable sg_new"
| step: "sg_reachable s \<Longrightarrow> sg_step s s' \<Longrightarrow> sg_reachable s'"
| env: "sg_reachable s \<Longrightarrow> sg_env s s' \<Longrightarrow> sg_reachable s'"

inductive_cases sg_stepE: "sg_step s s'"
inductive_cases sg_envE: "sg_env s s'"

section \<open>The invariant\<close>

fun in_lock :: "sig_pc \<Rightarrow> bool" where
  "in_lock SndXchg = True"
| "in_lock SndNotify = True"
| "in_lock SndUnlock = True"
| "in_lock BlkTry = True"
| "in_lock BlkWait = True"
| "in_lock BlkUnlock = True"
| "in_lock TmTry = True"
| "in_lock TmWait = True"
| "in_lock TmRetry = True"
| "in_lock (TmUnlock r) = True"
| "in_lock DtUnlock = True"
| "in_lock _ = False"

fun probing :: "sig_pc \<Rightarrow> bool" where
  "probing SndLock = True"
| "probing SndXchg = True"
| "probing _ = False"

fun asleep :: "sig_pc \<Rightarrow> bool" where
  "asleep BlkSleep = True"
| "asleep TmSleep = True"
| "asleep _ = False"

fun pausing :: "sig_pc \<Rightarrow> bool" where
  "pausing BlkWait = True"
| "pausing TmWait = True"
| "pausing _ = False"

text \<open>A thread that will see a signal that is there, or will wake somebody up who does.\<close>

fun attentive :: "sig_pc \<Rightarrow> bool" where
  "attentive SndNotify = True"
| "attentive BlkLock = True"
| "attentive BlkTry = True"
| "attentive TmRelock = True"
| "attentive TmRetry = True"
| "attentive _ = False"

definition lock_ok :: "'t sig \<Rightarrow> bool" where
  "lock_ok s = (\<forall>t. in_lock (sg_pc s t) \<longleftrightarrow> sg_lock s = Some t)"

definition probe_ok :: "'t sig \<Rightarrow> bool" where
  "probe_ok s = ((sg_state s = SigProbe \<longleftrightarrow> (\<exists>t. probing (sg_pc s t))) \<and>
     (\<forall>t u. probing (sg_pc s t) \<longrightarrow> probing (sg_pc s u) \<longrightarrow> t = u))"

definition waiters_ok :: "'t sig \<Rightarrow> bool" where
  "waiters_ok s = (\<forall>t. t \<in> sg_waiters s \<longleftrightarrow> asleep (sg_pc s t))"

definition pause_ok :: "'t sig \<Rightarrow> bool" where
  "pause_ok s = (\<forall>t. pausing (sg_pc s t) \<longrightarrow> sg_state s \<noteq> SigSignaled)"

definition heard :: "'t sig \<Rightarrow> bool" where
  "heard s = (sg_state s = SigSignaled \<and> sg_waiters s \<noteq> {} \<longrightarrow> (\<exists>t. attentive (sg_pc s t)))"

definition count_ok :: "'t sig \<Rightarrow> bool" where
  "count_ok s = (sg_raised s = sg_received s + (if sg_state s = SigEmpty then 0 else 1))"

definition sg_inv :: "'t sig \<Rightarrow> bool" where
  "sg_inv s = (lock_ok s \<and> probe_ok s \<and> waiters_ok s \<and> pause_ok s \<and> heard s \<and> count_ok s \<and>
     (\<forall>t. sg_pc s t \<noteq> Aborted))"

lemmas sg_defs = sg_goto_def sg_acquire_def sg_release_def sg_wake_def sg_receive_def

lemma after_receive_cases:
  "after_receive p r = Some p' \<longleftrightarrow>
     p = RcvCas \<and> p' = Idle r \<or> p = BlkFast \<and> p' = (if r then Idle True else BlkLock) \<or>
     p = BlkTry \<and> p' = (if r then BlkUnlock else BlkWait) \<or> p = TmFast \<and> p' = (if r then Idle True else TmLock) \<or>
     p = TmTry \<and> p' = (if r then TmUnlock True else TmWait) \<or> p = TmRetry \<and> p' = TmUnlock r"
  by (cases p) auto

lemma after_lock_cases:
  "after_lock p = Some p' \<longleftrightarrow> p = SndLock \<and> p' = SndXchg \<or> p = BlkLock \<and> p' = BlkTry \<or> p = TmLock \<and> p' = TmTry \<or>
     p = TmRelock \<and> p' = TmRetry \<or> p = DtLock \<and> p' = DtUnlock"
  by (cases p) auto

lemma after_unlock_cases:
  "after_unlock p = Some p' \<longleftrightarrow> p = SndUnlock \<and> p' = Idle False \<or> p = BlkUnlock \<and> p' = Idle True \<or>
     (\<exists>r. p = TmUnlock r \<and> p' = Idle r) \<or> p = DtUnlock \<and> p' = Idle False"
  by (cases p) auto

lemma after_wait_cases:
  "after_wait p = Some p' \<longleftrightarrow> p = BlkWait \<and> p' = BlkSleep \<or> p = TmWait \<and> p' = TmSleep"
  by (cases p) auto

lemma after_wake_cases:
  "after_wake p = Some p' \<longleftrightarrow> p = BlkSleep \<and> p' = BlkLock \<or> p = TmSleep \<and> p' = TmRelock"
  by (cases p) auto

lemmas after_cases = after_receive_cases after_lock_cases after_unlock_cases after_wait_cases after_wake_cases


lemma sg_inv_new: "sg_inv sg_new"
  by (simp add: sg_inv_def sg_new_def lock_ok_def probe_ok_def waiters_ok_def pause_ok_def heard_def count_ok_def)

lemma lock_okD: "lock_ok s \<Longrightarrow> in_lock (sg_pc s t) \<longleftrightarrow> sg_lock s = Some t"
  by (simp add: lock_ok_def)

lemma probe_okD: "probe_ok s \<Longrightarrow> probing (sg_pc s t) \<Longrightarrow> sg_state s = SigProbe"
  by (auto simp: probe_ok_def)

lemma waiters_okD: "waiters_ok s \<Longrightarrow> t \<in> sg_waiters s \<longleftrightarrow> asleep (sg_pc s t)"
  by (simp add: waiters_ok_def)

text \<open>The tables of the steps against the classes of places.\<close>

lemma after_receive_class:
  "after_receive p r = Some p' \<Longrightarrow> in_lock p' = in_lock p \<and> \<not> probing p \<and> \<not> probing p' \<and> \<not> asleep p \<and> \<not> asleep p' \<and>
     p' \<noteq> Aborted \<and> (r \<longrightarrow> \<not> pausing p')"
  by (cases p; cases r) auto

lemma after_lock_class:
  "after_lock p = Some p' \<Longrightarrow> \<not> in_lock p \<and> in_lock p' \<and> probing p' = probing p \<and> \<not> asleep p \<and> \<not> asleep p' \<and>
     \<not> pausing p' \<and> (attentive p \<longrightarrow> attentive p') \<and> p' \<noteq> Aborted"
  by (cases p) auto

lemma after_unlock_class:
  "after_unlock p = Some p' \<Longrightarrow> in_lock p \<and> \<not> in_lock p' \<and> \<not> probing p \<and> \<not> probing p' \<and> \<not> asleep p \<and> \<not> asleep p' \<and>
     \<not> pausing p' \<and> \<not> attentive p \<and> p' \<noteq> Aborted"
  by (cases p) auto

lemma after_wait_class:
  "after_wait p = Some p' \<Longrightarrow> in_lock p \<and> \<not> in_lock p' \<and> \<not> probing p \<and> \<not> probing p' \<and> \<not> asleep p \<and> asleep p' \<and>
     pausing p \<and> \<not> pausing p' \<and> p' \<noteq> Aborted"
  by (cases p) auto

lemma after_wake_class:
  "after_wake p = Some p' \<Longrightarrow> \<not> in_lock p \<and> \<not> in_lock p' \<and> \<not> probing p \<and> \<not> probing p' \<and> asleep p \<and> \<not> asleep p' \<and>
     \<not> pausing p' \<and> attentive p' \<and> p' \<noteq> Aborted"
  by (cases p) auto

lemma asleep_after_wake: "asleep p \<Longrightarrow> \<exists>p'. after_wake p = Some p'"
  by (cases p) auto

lemma sg_goto_sel [simp]:
  "sg_state (sg_goto t p s) = sg_state s" "sg_lock (sg_goto t p s) = sg_lock s"
  "sg_waiters (sg_goto t p s) = sg_waiters s" "sg_pc (sg_goto t p s) = (sg_pc s)(t := p)"
  "sg_raised (sg_goto t p s) = sg_raised s" "sg_received (sg_goto t p s) = sg_received s"
  by (simp_all add: sg_goto_def)

lemma lock_ok_goto:
  "lock_ok s \<Longrightarrow> sg_pc s' = (sg_pc s)(t := p) \<Longrightarrow> in_lock p = in_lock (sg_pc s t) \<Longrightarrow> sg_lock s' = sg_lock s \<Longrightarrow> lock_ok s'"
  by (auto simp: lock_ok_def)

lemma lock_ok_acquire: "lock_ok s \<Longrightarrow> sg_lock s = None \<Longrightarrow> in_lock p \<Longrightarrow> lock_ok (sg_acquire t p s)"
  by (auto simp: lock_ok_def sg_acquire_def)

lemma lock_ok_release: "lock_ok s \<Longrightarrow> in_lock (sg_pc s t) \<Longrightarrow> \<not> in_lock p \<Longrightarrow> lock_ok (sg_release t p s)"
  by (auto simp: lock_ok_def sg_release_def)

lemma lock_ok_wake: "lock_ok s \<Longrightarrow> in_lock p = in_lock (sg_pc s w) \<Longrightarrow> lock_ok (sg_wake w p s)"
  by (auto simp: lock_ok_def sg_wake_def)

lemma sg_receive_sel:
  assumes "sg_receive s = (r, s')"
  shows "sg_pc s' = sg_pc s" "sg_lock s' = sg_lock s" "sg_waiters s' = sg_waiters s"
    "r \<longleftrightarrow> sg_state s = SigSignaled" "sg_state s' = (if r then SigEmpty else sg_state s)"
    "sg_raised s' = sg_raised s" "sg_received s' = (if r then sg_received s + 1 else sg_received s)"
  using assms by (auto simp: sg_receive_def split: if_splits)

lemma probe_exchange: "probe_ok s \<Longrightarrow> sg_pc s t = SndXchg \<Longrightarrow> sg_state s = SigProbe"
  using probe_okD[of s t] by simp

lemma step_lock_ok:
  assumes "sg_step s s'" and "lock_ok s" and "probe_ok s"
  shows "lock_ok s'"
  using assms(1)
proof cases
  case (send_first t)
  then show ?thesis by (intro lock_ok_goto[OF assms(2), where t = t and p = SndLock]) auto
next
  case (send_again t)
  then show ?thesis by (intro lock_ok_goto[OF assms(2), where t = t and p = "Idle False"]) auto
next
  case (exchange t)
  then show ?thesis using probe_exchange[OF assms(3) exchange(2)]
    by (intro lock_ok_goto[OF assms(2), where t = t and p = SndNotify]) auto
next
  case (notify_none t)
  then show ?thesis by (intro lock_ok_goto[OF assms(2), where t = t and p = SndUnlock]) auto
next
  case (notify_one t w p)
  then have "w \<noteq> t" by auto
  have "lock_ok (sg_wake w p s)"
    using after_wake_class[OF notify_one(4)] by (intro lock_ok_wake assms(2)) simp
  then show ?thesis
    by (rule lock_ok_goto[where t = t and p = SndUnlock]) (use notify_one \<open>w \<noteq> t\<close> in \<open>auto simp: sg_wake_def\<close>)
next
  case (receive r s0 t p)
  then show ?thesis using sg_receive_sel[OF receive(2)] after_receive_class[OF receive(3)]
    by (intro lock_ok_goto[OF assms(2), where t = t and p = p]) auto
next
  case (lock t p)
  then show ?thesis using after_lock_class[OF lock(2)] assms(2) by (auto intro: lock_ok_acquire)
next
  case (unlock t p)
  then show ?thesis using after_unlock_class[OF unlock(2)] assms(2) by (auto intro: lock_ok_release)
next
  case (wait t p)
  have "lock_ok (s\<lparr>sg_waiters := insert t (sg_waiters s)\<rparr>)" using assms(2) by (simp add: lock_ok_def)
  then show ?thesis using after_wait_class[OF wait(2)] unfolding wait(1) by (intro lock_ok_release) auto
qed

lemmas sg_upds = sg_acquire_def sg_release_def sg_wake_def

text \<open>A step of a thread that is not probing before or after, in a state that is or is not \<open>SigProbe\<close> as before.\<close>

lemma probe_ok_goto:
  "probe_ok s \<Longrightarrow> sg_pc s' = (sg_pc s)(t := p) \<Longrightarrow> probing p = probing (sg_pc s t) \<Longrightarrow>
   (sg_state s' = SigProbe \<longleftrightarrow> sg_state s = SigProbe) \<Longrightarrow> probe_ok s'"
  unfolding probe_ok_def by (auto split: if_splits)

lemma step_probe_ok:
  assumes "sg_step s s'" and "probe_ok s"
  shows "probe_ok s'"
  using assms(1)
proof cases
  case (send_first t)
  then have "\<not> probing (sg_pc s u)" for u using assms(2) by (auto simp: probe_ok_def)
  with send_first show ?thesis by (auto simp: probe_ok_def)
next
  case (send_again t)
  then show ?thesis by (intro probe_ok_goto[OF assms(2), where t = t and p = "Idle False"]) auto
next
  case (exchange t)
  then have "\<not> probing (sg_pc s u)" if "u \<noteq> t" for u using assms(2) that by (auto simp: probe_ok_def)
  with exchange probe_exchange[OF assms(2) exchange(2)] show ?thesis by (auto simp: probe_ok_def)
next
  case (notify_none t)
  then show ?thesis by (intro probe_ok_goto[OF assms(2), where t = t and p = SndUnlock]) auto
next
  case (notify_one t w p)
  then have "w \<noteq> t" by auto
  have "probe_ok (sg_wake w p s)"
    using after_wake_class[OF notify_one(4)]
    by (intro probe_ok_goto[OF assms(2), where t = w and p = p]) (auto simp: sg_wake_def)
  then show ?thesis
    by (rule probe_ok_goto[where t = t and p = SndUnlock])
      (use notify_one \<open>w \<noteq> t\<close> in \<open>auto simp: sg_wake_def\<close>)
next
  case (receive r s0 t p)
  then show ?thesis using sg_receive_sel[OF receive(2)] after_receive_class[OF receive(3)]
    by (intro probe_ok_goto[OF assms(2), where t = t and p = p]) auto
next
  case (lock t p)
  then show ?thesis using after_lock_class[OF lock(2)]
    by (intro probe_ok_goto[OF assms(2), where t = t and p = p]) (auto simp: sg_upds)
next
  case (unlock t p)
  then show ?thesis using after_unlock_class[OF unlock(2)]
    by (intro probe_ok_goto[OF assms(2), where t = t and p = p]) (auto simp: sg_upds)
next
  case (wait t p)
  then show ?thesis using after_wait_class[OF wait(2)]
    by (intro probe_ok_goto[OF assms(2), where t = t and p = p]) (auto simp: sg_upds)
qed

lemma step_waiters_ok:
  assumes "sg_step s s'" and "waiters_ok s"
  shows "waiters_ok s'"
  using assms(1)
proof cases
  case (notify_one t w p)
  then have "w \<noteq> t" by auto
  then show ?thesis using notify_one assms(2) after_wake_class[OF notify_one(4)]
    by (auto simp: sg_wake_def waiters_ok_def)
next
  case (receive r s0 t p)
  then show ?thesis using sg_receive_sel[OF receive(2)] after_receive_class[OF receive(3)] assms(2)
    by (auto simp: waiters_ok_def)
next
  case (lock t p)
  then show ?thesis using after_lock_class[OF lock(2)] assms(2) by (auto simp: waiters_ok_def sg_upds)
next
  case (unlock t p)
  then show ?thesis using after_unlock_class[OF unlock(2)] assms(2) by (auto simp: waiters_ok_def sg_upds)
next
  case (wait t p)
  then show ?thesis using after_wait_class[OF wait(2)] assms(2) by (auto simp: waiters_ok_def sg_upds)
qed (use assms(2) in \<open>auto simp: waiters_ok_def\<close>)

lemma step_pause_ok:
  assumes "sg_step s s'" and "lock_ok s" and "pause_ok s"
  shows "pause_ok s'"
  using assms(1)
proof cases
  case (exchange t)
  then have "sg_lock s = Some t" using lock_okD[OF assms(2), of t] by simp
  have "\<not> pausing (sg_pc s u)" if "u \<noteq> t" for u
    using lock_okD[OF assms(2), of u] that \<open>sg_lock s = Some t\<close> by (cases "sg_pc s u") auto
  with exchange show ?thesis by (auto simp: pause_ok_def)
next
  case (notify_one t w p)
  then show ?thesis using assms(3) after_wake_class[OF notify_one(4)]
    by (auto simp: sg_wake_def pause_ok_def)
next
  case (receive r s0 t p)
  then show ?thesis using sg_receive_sel[OF receive(2)] after_receive_class[OF receive(3)] assms(3)
    by (auto simp: pause_ok_def)
next
  case (lock t p)
  then show ?thesis using after_lock_class[OF lock(2)] assms(3) by (auto simp: pause_ok_def sg_upds)
next
  case (unlock t p)
  then show ?thesis using after_unlock_class[OF unlock(2)] assms(3) by (auto simp: pause_ok_def sg_upds)
next
  case (wait t p)
  then show ?thesis using after_wait_class[OF wait(2)] assms(3) by (auto simp: pause_ok_def sg_upds)
qed (use assms(3) in \<open>auto simp: pause_ok_def\<close>)

lemma heard_goto:
  "heard s \<Longrightarrow> sg_pc s' = (sg_pc s)(t := p) \<Longrightarrow> (attentive (sg_pc s t) \<longrightarrow> attentive p) \<Longrightarrow>
   sg_waiters s' \<subseteq> sg_waiters s \<Longrightarrow> (sg_state s' = SigSignaled \<Longrightarrow> sg_state s = SigSignaled) \<Longrightarrow> heard s'"
  unfolding heard_def by (metis fun_upd_apply subset_empty)

lemma step_heard:
  assumes "sg_step s s'" and "pause_ok s" and "heard s" and "probe_ok s"
  shows "heard s'"
  using assms(1)
proof cases
  case (send_first t)
  then show ?thesis by (simp add: heard_def)
next
  case (send_again t)
  then show ?thesis by (intro heard_goto[OF assms(3), where t = t and p = "Idle False"]) auto
next
  case (exchange t)
  then show ?thesis using probe_exchange[OF assms(4) exchange(2)] by (auto simp: heard_def intro: exI[of _ t])
next
  case (notify_none t)
  then show ?thesis by (simp add: heard_def)
next
  case (notify_one t w p)
  then have "w \<noteq> t" by auto
  then show ?thesis using notify_one after_wake_class[OF notify_one(4)]
    by (auto simp: heard_def sg_wake_def intro!: exI[of _ w])
next
  case (receive r s0 t p)
  show ?thesis
  proof (cases r)
    case True
    then show ?thesis using receive sg_receive_sel[OF receive(2)] by (simp add: heard_def)
  next
    case False
    then show ?thesis using receive sg_receive_sel[OF receive(2)] by (simp add: heard_def)
  qed
next
  case (lock t p)
  then show ?thesis using after_lock_class[OF lock(2)]
    by (intro heard_goto[OF assms(3), where t = t and p = p]) (auto simp: sg_upds)
next
  case (unlock t p)
  then show ?thesis using after_unlock_class[OF unlock(2)]
    by (intro heard_goto[OF assms(3), where t = t and p = p]) (auto simp: sg_upds)
next
  case (wait t p)
  then show ?thesis using after_wait_class[OF wait(2)] assms(2) by (auto simp: heard_def pause_ok_def sg_upds)
qed

lemma step_count_ok:
  assumes "sg_step s s'" and "probe_ok s" and "count_ok s"
  shows "count_ok s'"
  using assms(1)
proof cases
  case (exchange t)
  then show ?thesis using assms(3) probe_exchange[OF assms(2) exchange(2)] by (simp add: count_ok_def)
next
  case (receive r s0 t p)
  then show ?thesis using sg_receive_sel[OF receive(2)] assms(3) by (auto simp: count_ok_def)
qed (use assms(3) in \<open>auto simp: count_ok_def sg_upds\<close>)

lemma step_no_abort:
  assumes "sg_step s s'" and "probe_ok s" and "\<forall>t. sg_pc s t \<noteq> Aborted"
  shows "\<forall>t. sg_pc s' t \<noteq> Aborted"
  using assms(1)
proof cases
  case (exchange t)
  then show ?thesis using assms(3) probe_exchange[OF assms(2) exchange(2)] by simp
next
  case (notify_one t w p)
  then show ?thesis using assms(3) after_wake_class[OF notify_one(4)] by (simp add: sg_upds)
next
  case (receive r s0 t p)
  then show ?thesis using assms(3) sg_receive_sel[OF receive(2)] after_receive_class[OF receive(3)] by simp
next
  case (lock t p)
  then show ?thesis using assms(3) after_lock_class[OF lock(2)] by (simp add: sg_upds)
next
  case (unlock t p)
  then show ?thesis using assms(3) after_unlock_class[OF unlock(2)] by (simp add: sg_upds)
next
  case (wait t p)
  then show ?thesis using assms(3) after_wait_class[OF wait(2)] by (simp add: sg_upds)
qed (use assms(3) in \<open>simp_all\<close>)

lemma sg_inv_step:
  assumes "sg_inv s" and "sg_step s s'"
  shows "sg_inv s'"
proof -
  have I: "lock_ok s" "probe_ok s" "waiters_ok s" "pause_ok s" "heard s" "count_ok s" "\<forall>t. sg_pc s t \<noteq> Aborted"
    using assms(1) by (simp_all add: sg_inv_def)
  note st = assms(2)
  show ?thesis
    unfolding sg_inv_def
    using step_lock_ok[OF st I(1,2)] step_probe_ok[OF st I(2)] step_waiters_ok[OF st I(3)] step_pause_ok[OF st I(1,4)]
      step_heard[OF st I(4,5,2)] step_count_ok[OF st I(2,6)] step_no_abort[OF st I(2,7)] by blast
qed

lemma sg_inv_env:
  assumes "sg_inv s" and "sg_env s s'"
  shows "sg_inv s'"
proof -
  have I: "lock_ok s" "probe_ok s" "waiters_ok s" "pause_ok s" "heard s" "count_ok s" "\<forall>t. sg_pc s t \<noteq> Aborted"
    using assms(1) by (simp_all add: sg_inv_def)
  have idle: "sg_inv (sg_goto t p s)" if "sg_pc s t = Idle r" "p \<in> {SndCas, RcvCas, BlkFast, TmFast, DtLock}" for t r p
  proof -
    have c: "\<not> in_lock p" "\<not> probing p" "\<not> asleep p" "\<not> pausing p" "p \<noteq> Aborted" using that(2) by auto
    have "lock_ok (sg_goto t p s)" using c that(1) by (intro lock_ok_goto[OF I(1), where t = t and p = p]) auto
    moreover have "waiters_ok (sg_goto t p s)" "pause_ok (sg_goto t p s)"
        "count_ok (sg_goto t p s)" "\<forall>u. sg_pc (sg_goto t p s) u \<noteq> Aborted"
      using c I(3,4,6,7) that(1) by (auto simp: waiters_ok_def pause_ok_def count_ok_def)
    moreover have "probe_ok (sg_goto t p s)"
      using c that(1) by (intro probe_ok_goto[OF I(2), where t = t and p = p]) auto
    moreover have "heard (sg_goto t p s)" by (rule heard_goto[OF I(5), where t = t and p = p]) (simp_all add: that(1))
    ultimately show ?thesis by (simp add: sg_inv_def)
  qed
  from assms(2) show ?thesis
  proof cases
    case (call t r p)
    then show ?thesis using idle[of t r p] by blast
  next
    case (destroy t)
    then show ?thesis using idle[of t True DtLock] by blast
  next
    case (spurious w p)
    note c = after_wake_class[OF spurious(3)]
    have "lock_ok s'" using c I(1) unfolding spurious(1) by (intro lock_ok_wake) auto
    moreover have "probe_ok s'" using c spurious(1)
      by (intro probe_ok_goto[OF I(2), where t = w and p = p]) (auto simp: sg_upds)
    moreover have "waiters_ok s'" "pause_ok s'" "count_ok s'" "\<forall>u. sg_pc s' u \<noteq> Aborted"
      using c I spurious(1) by (auto simp: waiters_ok_def pause_ok_def count_ok_def sg_upds)
    moreover have "heard s'" using c spurious(1) by (auto simp: heard_def sg_upds)
    ultimately show ?thesis by (simp add: sg_inv_def)
  qed
qed

lemma sg_reachable_inv: "sg_reachable s \<Longrightarrow> sg_inv s"
  by (induction rule: sg_reachable.induct) (auto intro: sg_inv_new sg_inv_step sg_inv_env)

section \<open>Progress\<close>

text \<open>Whoever holds the lock can go on, and so can whoever wants it when it is free.\<close>

lemma in_lock_enabled:
  assumes "waiters_ok s" and "in_lock (sg_pc s t)"
  shows "\<exists>s'. sg_step s s'"
proof -
  obtain r s0 where r: "sg_receive s = (r, s0)" by (cases "sg_receive s")
  have w: "\<exists>s'. sg_step s s'" if n: "sg_pc s t = SndNotify"
  proof (cases "sg_waiters s = {}")
    case False
    then obtain w where "w \<in> sg_waiters s" by blast
    moreover from this obtain p where "after_wake (sg_pc s w) = Some p"
      using assms(1) asleep_after_wake by (auto simp: waiters_ok_def)
    ultimately show ?thesis using sg_step.notify_one[OF n] by (intro exI)
  next
    case True
    then show ?thesis using sg_step.notify_none[OF n] by (intro exI)
  qed
  from assms(2) show ?thesis
    using w sg_step.exchange[of s t] sg_step.receive[OF r, of t] sg_step.unlock[of s t] sg_step.wait[of s t]
    by (cases "sg_pc s t") auto
qed

lemma busy_enabled:
  assumes "sg_inv s" and "sg_pc s t \<noteq> Idle True" and "sg_pc s t \<noteq> Idle False" and "\<not> asleep (sg_pc s t)"
  shows "\<exists>s'. sg_step s s'"
proof (cases "sg_lock s")
  case None
  obtain r s0 where r: "sg_receive s = (r, s0)" by (cases "sg_receive s")
  have "in_lock (sg_pc s t) \<Longrightarrow> \<exists>s'. sg_step s s'"
    using in_lock_enabled assms(1) by (auto simp: sg_inv_def)
  moreover have "sg_pc s t \<noteq> Aborted" using assms(1) by (simp add: sg_inv_def)
  moreover have "sg_pc s t = SndCas \<Longrightarrow> \<exists>s'. sg_step s s'"
    using sg_step.send_first[of s t] sg_step.send_again[of s t] by blast
  ultimately show ?thesis
    using assms(2-4) sg_step.receive[OF r, of t] sg_step.lock[of s t, OF _ None]
    by (cases "sg_pc s t") auto
next
  case (Some u)
  then have "in_lock (sg_pc s u)" using assms(1) by (auto simp: sg_inv_def lock_ok_def)
  then show ?thesis using in_lock_enabled assms(1) by (auto simp: sg_inv_def)
qed

fun steps_left :: "sig_pc \<Rightarrow> nat" where
  "steps_left SndCas = 8" | "steps_left SndLock = 7" | "steps_left SndXchg = 6" | "steps_left SndNotify = 5"
| "steps_left SndUnlock = 1" | "steps_left RcvCas = 1"
| "steps_left BlkFast = 4" | "steps_left BlkLock = 3" | "steps_left BlkTry = 2" | "steps_left BlkWait = 1"
| "steps_left BlkUnlock = 1" | "steps_left TmFast = 4" | "steps_left TmLock = 3" | "steps_left TmTry = 2"
| "steps_left TmWait = 1" | "steps_left TmRelock = 3" | "steps_left TmRetry = 2" | "steps_left (TmUnlock r) = 1"
| "steps_left DtLock = 2" | "steps_left DtUnlock = 1" | "steps_left _ = 0"

lemma sum_fun_upd_less:
  fixes f :: "'t::finite \<Rightarrow> nat"
  assumes "f' t < f t" and "\<And>u. u \<noteq> t \<Longrightarrow> f' u = f u"
  shows "sum f' UNIV < sum f UNIV"
  using assms by (intro sum_strict_mono_ex1) (auto, metis less_imp_le order_refl)

lemma after_steps_left:
  "after_receive p r = Some p' \<Longrightarrow> steps_left p' < steps_left p"
  "after_lock p = Some p' \<Longrightarrow> steps_left p' < steps_left p"
  "after_unlock p = Some p' \<Longrightarrow> steps_left p' < steps_left p"
  "after_wait p = Some p' \<Longrightarrow> steps_left p' < steps_left p"
  "after_wake p = Some p' \<Longrightarrow> steps_left p' = 3 \<and> steps_left p = 0"
  by (cases p; cases r; auto) (cases p; auto)+

lemma sg_step_less:
  fixes s :: "('t::finite) sig"
  assumes "sg_step s s'"
  shows "(\<Sum>t\<in>UNIV. steps_left (sg_pc s' t)) < (\<Sum>t\<in>UNIV. steps_left (sg_pc s t))"
  using assms
proof cases
  case (notify_one t w p)
  then have "w \<noteq> t" by auto
  have pc: "sg_pc s' u = (if u = t then SndUnlock else if u = w then p else sg_pc s u)" for u
    using notify_one by (simp add: sg_wake_def)
  have "(\<Sum>u\<in>UNIV. steps_left (sg_pc s' u)) =
      steps_left (sg_pc s' t) + (steps_left (sg_pc s' w) + (\<Sum>u\<in>UNIV - {t} - {w}. steps_left (sg_pc s' u)))"
    by (subst sum.remove[of _ t], simp, simp, subst sum.remove[of _ w]) (use \<open>w \<noteq> t\<close> in simp_all)
  moreover have "(\<Sum>u\<in>UNIV. steps_left (sg_pc s u)) =
      steps_left (sg_pc s t) + (steps_left (sg_pc s w) + (\<Sum>u\<in>UNIV - {t} - {w}. steps_left (sg_pc s u)))"
    by (subst sum.remove[of _ t], simp, simp, subst sum.remove[of _ w]) (use \<open>w \<noteq> t\<close> in simp_all)
  moreover have "(\<Sum>u\<in>UNIV - {t} - {w}. steps_left (sg_pc s' u)) = (\<Sum>u\<in>UNIV - {t} - {w}. steps_left (sg_pc s u))"
    by (rule sum.cong) (auto simp: pc)
  ultimately show ?thesis
    using after_steps_left(5)[OF notify_one(4)] notify_one(2) \<open>w \<noteq> t\<close> by (simp add: pc)
next
  case (receive r s0 t p)
  then show ?thesis using sg_receive_sel[OF receive(2)] after_steps_left(1)[OF receive(3)]
    by (intro sum_fun_upd_less[where t = t]) auto
next
  case (lock t p)
  then show ?thesis using after_steps_left(2)[OF lock(2)]
    by (intro sum_fun_upd_less[where t = t]) (auto simp: sg_upds)
next
  case (unlock t p)
  then show ?thesis using after_steps_left(3)[OF unlock(2)]
    by (intro sum_fun_upd_less[where t = t]) (auto simp: sg_upds)
next
  case (wait t p)
  then show ?thesis using after_steps_left(4)[OF wait(2)]
    by (intro sum_fun_upd_less[where t = t]) (auto simp: sg_upds)
next
  case (send_first t)
  then show ?thesis by (intro sum_fun_upd_less[where t = t]) auto
next
  case (send_again t)
  then show ?thesis by (intro sum_fun_upd_less[where t = t]) auto
next
  case (exchange t)
  then show ?thesis by (intro sum_fun_upd_less[where t = t]) auto
next
  case (notify_none t)
  then show ?thesis by (intro sum_fun_upd_less[where t = t]) auto
qed

section \<open>Correctness\<close>

text \<open>
  C16. Safety of \<^verbatim>\<open>Signal\<close> for any number of threads and any interleaving: the lock has one owner, the
  assertion of \<^verbatim>\<open>Send\<close> never fails, every signal that was raised was received once or is still
  there, and when the destructor holds the lock and no new signal was raised, no thread is inside
  \<^verbatim>\<open>Send\<close> any more, so nobody touches the object after it is deleted.
\<close>
theorem signal_safe:
  assumes "sg_reachable s"
  shows "(\<forall>t u. in_lock (sg_pc s t) \<and> in_lock (sg_pc s u) \<longrightarrow> t = u) \<and> (\<forall>t. sg_pc s t \<noteq> Aborted) \<and>
    sg_raised s = sg_received s + (if sg_state s = SigEmpty then 0 else 1) \<and>
    (\<forall>d t. sg_pc s d = DtUnlock \<and> sg_state s \<noteq> SigProbe \<longrightarrow> sg_pc s t \<notin> {SndLock, SndXchg, SndNotify, SndUnlock})"
proof -
  have I: "lock_ok s" "probe_ok s" "count_ok s" "\<forall>t. sg_pc s t \<noteq> Aborted"
    using sg_reachable_inv[OF assms] by (simp_all add: sg_inv_def)
  have one: "t = u" if "in_lock (sg_pc s t)" "in_lock (sg_pc s u)" for t u
    using that lock_okD[OF I(1)] by simp
  moreover have "sg_pc s t \<notin> {SndLock, SndXchg, SndNotify, SndUnlock}"
    if d: "sg_pc s d = DtUnlock" "sg_state s \<noteq> SigProbe" for d t
  proof -
    have "\<not> probing (sg_pc s t)" using probe_okD[OF I(2)] d(2) by blast
    moreover have "in_lock (sg_pc s t) \<Longrightarrow> t = d" using one[of t d] d(1) by simp
    ultimately show ?thesis using d(1) by auto
  qed
  ultimately show ?thesis using I(3,4) by (auto simp: count_ok_def)
qed

lemma reach_call: "sg_reachable s \<Longrightarrow> sg_pc s t = Idle r \<Longrightarrow> p \<in> {SndCas, RcvCas, BlkFast, TmFast} \<Longrightarrow> sg_reachable (sg_goto t p s)"
  by (rule sg_reachable.env[OF _ sg_env.call])

lemma reach_receive: "sg_reachable s \<Longrightarrow> after_receive (sg_pc s t) (fst (sg_receive s)) = Some p \<Longrightarrow>
   sg_reachable (sg_goto t p (snd (sg_receive s)))"
  by (rule sg_reachable.step[OF _ sg_step.receive[of s "fst (sg_receive s)"]]) auto

lemma reach_lock: "sg_reachable s \<Longrightarrow> after_lock (sg_pc s t) = Some p \<Longrightarrow> sg_lock s = None \<Longrightarrow> sg_reachable (sg_acquire t p s)"
  by (rule sg_reachable.step[OF _ sg_step.lock])

lemma reach_unlock: "sg_reachable s \<Longrightarrow> after_unlock (sg_pc s t) = Some p \<Longrightarrow> sg_reachable (sg_release t p s)"
  by (rule sg_reachable.step[OF _ sg_step.unlock])

text \<open>Thread 0 sends, thread 1 receives and deletes the signal.\<close>

definition sg_deleting :: "nat sig" where
  "sg_deleting = \<lparr>sg_state = SigEmpty, sg_lock = Some 1, sg_waiters = {},
     sg_pc = (\<lambda>_. Idle False)(1 := DtUnlock), sg_raised = 1, sg_received = 1\<rparr>"

lemma sg_deleting_reachable: "sg_reachable sg_deleting"
proof -
  have a: "sg_reachable (sg_goto 0 SndLock ((sg_goto 0 SndCas sg_new)\<lparr>sg_state := SigProbe, sg_raised := 1\<rparr>) :: nat sig)"
    using sg_reachable.step[OF reach_call[OF sg_reachable.new] sg_step.send_first, of 0 False SndCas 0]
    by (simp add: sg_new_def sg_goto_def)
  have b: "sg_reachable (\<lparr>sg_state = SigProbe, sg_lock = Some 0, sg_waiters = {}, sg_pc = (\<lambda>_. Idle False)(0 := SndXchg),
      sg_raised = 1, sg_received = 0\<rparr> :: nat sig)" (is "sg_reachable ?b")
    using reach_lock[OF a, of 0 SndXchg] by (simp add: sg_new_def sg_goto_def sg_acquire_def)
  have c: "sg_reachable (?b\<lparr>sg_state := SigSignaled, sg_pc := (\<lambda>_. Idle False)(0 := SndNotify)\<rparr>)" (is "sg_reachable ?c")
    using sg_reachable.step[OF b sg_step.exchange[of ?b 0]] by (simp add: sg_goto_def)
  have d: "sg_reachable (?c\<lparr>sg_pc := (\<lambda>_. Idle False)(0 := SndUnlock)\<rparr>)" (is "sg_reachable ?d")
    using sg_reachable.step[OF c sg_step.notify_none[of ?c 0]] by (simp add: sg_goto_def)
  have e: "sg_reachable (?d\<lparr>sg_lock := None, sg_pc := \<lambda>_. Idle False\<rparr>)" (is "sg_reachable ?e")
    using reach_unlock[OF d, of 0 "Idle False"] by (simp add: sg_goto_def sg_release_def fun_upd_def[symmetric] fun_upd_idem)
  have f: "sg_reachable (?e\<lparr>sg_pc := (\<lambda>_. Idle False)(1 := RcvCas)\<rparr>)" (is "sg_reachable ?f")
    using reach_call[OF e, of 1 False RcvCas] by (simp add: sg_goto_def)
  have g: "sg_reachable (?f\<lparr>sg_state := SigEmpty, sg_received := 1, sg_pc := (\<lambda>_. Idle False)(1 := Idle True)\<rparr>)" (is "sg_reachable ?g")
    using reach_receive[OF f, of 1 "Idle True"] by (simp add: sg_goto_def sg_receive_def)
  have h: "sg_reachable (?g\<lparr>sg_pc := (\<lambda>_. Idle False)(1 := DtLock)\<rparr>)" (is "sg_reachable ?h")
    using sg_reachable.env[OF g sg_env.destroy[of ?g 1]] by (simp add: sg_goto_def)
  show ?thesis
    using reach_lock[OF h, of 1 DtUnlock] by (simp add: sg_goto_def sg_acquire_def sg_deleting_def)
qed

lemma signal_safe_witness: "sg_pc sg_deleting 1 = DtUnlock \<and> sg_pc sg_deleting 0 \<notin> {SndLock, SndXchg, SndNotify, SndUnlock}"
proof -
  have "sg_pc sg_deleting 1 = DtUnlock" "sg_state sg_deleting \<noteq> SigProbe" by (simp_all add: sg_deleting_def)
  with signal_safe[OF sg_deleting_reachable] show ?thesis by blast
qed

text \<open>
  C15. No lost wakeup: when no thread can make a step by itself, every thread is outside of the signal
  or asleep in a receive, and nobody is asleep while a signal is there.
\<close>
theorem signal_no_lost_wakeup:
  assumes "sg_reachable s" and "\<forall>s'. \<not> sg_step s s'"
  shows "(\<forall>t. sg_pc s t \<in> {Idle True, Idle False, BlkSleep, TmSleep}) \<and>
    ((\<exists>t. sg_pc s t \<in> {BlkSleep, TmSleep}) \<longrightarrow> sg_state s = SigEmpty \<and> sg_raised s = sg_received s)"
proof -
  have I: "sg_inv s" by (rule sg_reachable_inv[OF assms(1)])
  have q: "sg_pc s t = Idle True \<or> sg_pc s t = Idle False \<or> asleep (sg_pc s t)" for t
    using busy_enabled[OF I] assms(2) by blast
  have "sg_pc s t \<in> {Idle True, Idle False, BlkSleep, TmSleep}" for t
    using q[of t] by (cases "sg_pc s t") auto
  moreover have "sg_state s = SigEmpty \<and> sg_raised s = sg_received s" if a: "sg_pc s t \<in> {BlkSleep, TmSleep}" for t
  proof -
    have "\<not> attentive (sg_pc s u)" "\<not> probing (sg_pc s u)" for u using q[of u] by (cases "sg_pc s u"; auto)+
    moreover have "asleep (sg_pc s t)" using a by auto
    then have "sg_waiters s \<noteq> {}" using I waiters_okD[of s t] by (auto simp: sg_inv_def)
    ultimately show ?thesis
      using I by (cases "sg_state s") (auto simp: sg_inv_def heard_def probe_ok_def count_ok_def)
  qed
  ultimately show ?thesis by blast
qed

text \<open>Thread 0 waits for a signal.\<close>

definition sg_sleeping :: "nat sig" where
  "sg_sleeping = \<lparr>sg_state = SigEmpty, sg_lock = None, sg_waiters = {0},
     sg_pc = (\<lambda>_. Idle False)(0 := BlkSleep), sg_raised = 0, sg_received = 0\<rparr>"

lemma sg_sleeping_reachable: "sg_reachable sg_sleeping"
proof -
  let ?at = "\<lambda>p l. \<lparr>sg_state = SigEmpty, sg_lock = l, sg_waiters = {}, sg_pc = (\<lambda>_. Idle False)(0 := p),
      sg_raised = 0, sg_received = 0\<rparr> :: nat sig"
  have a: "sg_reachable (?at BlkFast None)"
    using reach_call[OF sg_reachable.new, of 0 False BlkFast] by (simp add: sg_new_def sg_goto_def)
  have b: "sg_reachable (?at BlkLock None)"
    using reach_receive[OF a, of 0 BlkLock] by (simp add: sg_goto_def sg_receive_def)
  have c: "sg_reachable (?at BlkTry (Some 0))"
    using reach_lock[OF b, of 0 BlkTry] by (simp add: sg_goto_def sg_acquire_def)
  have d: "sg_reachable (?at BlkWait (Some 0))"
    using reach_receive[OF c, of 0 BlkWait] by (simp add: sg_goto_def sg_receive_def)
  show ?thesis
    using sg_reachable.step[OF d sg_step.wait[of _ 0 BlkSleep]] by (simp add: sg_goto_def sg_release_def sg_sleeping_def)
qed

lemma sg_sleeping_quiet: "\<not> sg_step sg_sleeping s'"
  by (auto elim!: sg_stepE simp: sg_sleeping_def sg_receive_def split: if_splits)

lemma signal_no_lost_wakeup_witness: "sg_pc sg_sleeping 0 = BlkSleep \<and> sg_raised sg_sleeping = sg_received sg_sleeping"
proof -
  have "sg_pc sg_sleeping 0 = BlkSleep" by (simp add: sg_sleeping_def)
  moreover have "\<forall>s'. \<not> sg_step sg_sleeping s'" using sg_sleeping_quiet by blast
  ultimately show ?thesis using signal_no_lost_wakeup[OF sg_sleeping_reachable] by blast
qed

text \<open>
  C34. Every operation of \<^verbatim>\<open>Signal\<close> ends or falls asleep: without new calls and spurious wakeups
  the threads make a bounded number of steps, eight for each at most.
\<close>
theorem signal_steps_bounded:
  fixes s :: "('t::finite) sig"
  assumes "(sg_step ^^ n) s s'"
  shows "n \<le> 8 * card (UNIV :: 't set)"
proof -
  have "n + (\<Sum>t\<in>UNIV. steps_left (sg_pc s' t)) \<le> (\<Sum>t\<in>UNIV. steps_left (sg_pc s t))"
    using assms
  proof (induction n arbitrary: s')
    case (Suc n)
    then obtain s1 where "(sg_step ^^ n) s s1" "sg_step s1 s'" by auto
    with Suc.IH[of s1] sg_step_less[of s1 s'] show ?case by linarith
  qed simp
  moreover have "steps_left p \<le> 8" for p by (cases p) auto
  then have "(\<Sum>t\<in>UNIV. steps_left (sg_pc s t)) \<le> (\<Sum>t\<in>(UNIV::'t set). 8)" by (intro sum_mono)
  ultimately show ?thesis by (simp add: mult.commute)
qed

lemma signal_steps_bounded_witness:
  "(sg_step ^^ 1) (sg_goto True SndCas sg_new) (sg_goto True SndLock ((sg_goto True SndCas sg_new)\<lparr>sg_state := SigProbe, sg_raised := 1\<rparr>)) \<and>
   (1 :: nat) \<le> 8 * card (UNIV :: bool set)"
proof -
  have "(sg_step ^^ 1) (sg_goto True SndCas sg_new) (sg_goto True SndLock ((sg_goto True SndCas sg_new)\<lparr>sg_state := SigProbe, sg_raised := 1\<rparr>))"
    using sg_step.send_first[of "sg_goto True SndCas sg_new" True] by (simp add: sg_new_def eq_OO)
  with signal_steps_bounded[OF this] show ?thesis by blast
qed

end
