(* ===== verification/Interruptible_Mutex.thy ===== *)
theory Interruptible_Mutex
  imports Signals
begin

text \<open>
  The mutex of \<^verbatim>\<open>box/InterruptibleMutex.cpp\<close> as a step relation: one step per atomic operation on
  \<^verbatim>\<open>myState\<close>, per acquisition and release of \<^verbatim>\<open>myMutex\<close>, and per operation on the list of waiters, which is
  touched under \<^verbatim>\<open>myMutex\<close> only. The waiter that \<^verbatim>\<open>Lock\<close> keeps on its stack is named by its thread; its
  signal is used once, sent by one \<^verbatim>\<open>Unlock\<close> and received by one blocking receive, and is modelled by
  a flag, which is what the theory of the signal shows of it.
\<close>

unbundle bit_operations_syntax

section \<open>State\<close>

definition TAKEN :: u8 where "TAKEN = 0x1"
definition HAS_WAITERS :: u8 where "HAS_WAITERS = 0x2"

datatype 't im_pc =
    Away | Owner
  | LkTry | LkMutex | LkOr | LkTake | LkTakeUnlock | LkAppend | LkAppendUnlock | LkSignal | LkCheck
  | TlTry
  | UnTry | UnMutex | UnPop | UnAnd 't | UnSend 't | UnUnlock
  | Failed

text \<open>
  \<open>im_signaled\<close> are the waiters whose signal was sent, \<open>im_wakeups\<close> counts the calls of the wakeup callback,
  \<open>im_queued\<close> and \<open>im_given\<close> are the histories of the threads that started to wait and of those that were
  chosen as the next owner.
\<close>

record 't im =
  im_mutex :: "'t option"
  im_waiters :: "'t list"
  im_state :: u8
  im_signaled :: "'t set"
  im_pc :: "'t \<Rightarrow> 't im_pc"
  im_wakeups :: nat
  im_queued :: "'t list"
  im_given :: "'t list"

definition im_new :: "'t im" where
  "im_new = \<lparr>im_mutex = None, im_waiters = [], im_state = 0, im_signaled = {}, im_pc = \<lambda>_. Away,
     im_wakeups = 0, im_queued = [], im_given = []\<rparr>"

text \<open>The destructor asserts that the state is 0.\<close>

definition im_delete_ok :: "'t im \<Rightarrow> bool" where
  "im_delete_ok s = (im_state s = 0)"

definition im_goto :: "'t \<Rightarrow> 't im_pc \<Rightarrow> 't im \<Rightarrow> 't im" where
  "im_goto t p s = s\<lparr>im_pc := (im_pc s)(t := p)\<rparr>"

definition im_assert :: "bool \<Rightarrow> 't im_pc \<Rightarrow> 't im_pc" where
  "im_assert b p = (if b then p else Failed)"

section \<open>Steps\<close>

text \<open>\<^verbatim>\<open>TryLock\<close>: a strong compare-and-exchange from 0.\<close>

definition im_try_lock :: "'t im \<Rightarrow> bool \<times> 't im" where
  "im_try_lock s = (if im_state s = 0 then (True, s\<lparr>im_state := TAKEN\<rparr>) else (False, s))"

text \<open>The steps of \<^verbatim>\<open>Lock\<close> between taking and releasing the internal mutex.\<close>

definition im_lk_or :: "'t \<Rightarrow> 't im \<Rightarrow> 't im" where
  "im_lk_or t s =
     (let expected = im_state s in
      im_goto t (if expected AND TAKEN = 0 then LkTake else LkAppend) (s\<lparr>im_state := im_state s OR HAS_WAITERS\<rparr>))"

definition im_lk_take :: "'t \<Rightarrow> 't im \<Rightarrow> 't im" where
  "im_lk_take t s =
     (let expected = im_state s in
      im_goto t (im_assert (im_waiters s = [] \<and> expected = HAS_WAITERS) LkTakeUnlock) (s\<lparr>im_state := TAKEN\<rparr>))"

definition im_lk_append :: "'t \<Rightarrow> 't im \<Rightarrow> 't im" where
  "im_lk_append t s =
     im_goto t LkAppendUnlock
       (s\<lparr>im_wakeups := (if im_waiters s = [] then im_wakeups s + 1 else im_wakeups s),
          im_waiters := im_waiters s @ [t], im_queued := im_queued s @ [t]\<rparr>)"

text \<open>The steps of \<^verbatim>\<open>Unlock\<close>.\<close>

definition im_un_try :: "'t \<Rightarrow> 't im \<Rightarrow> 't im" where
  "im_un_try t s =
     (if im_state s = TAKEN then im_goto t Away (s\<lparr>im_state := 0\<rparr>)
      else im_goto t (im_assert (im_state s = TAKEN OR HAS_WAITERS) UnMutex) s)"

definition im_un_pop :: "'t \<Rightarrow> 't im \<Rightarrow> 't im" where
  "im_un_pop t s =
     (case im_waiters s of
        [] \<Rightarrow> im_goto t Failed s
      | w # ws \<Rightarrow> im_goto t (UnAnd w) (s\<lparr>im_waiters := ws, im_given := im_given s @ [w]\<rparr>))"

definition im_un_and :: "'t \<Rightarrow> 't \<Rightarrow> 't im \<Rightarrow> 't im" where
  "im_un_and t w s =
     (let expected = im_state s in
      im_goto t (im_assert (expected AND TAKEN \<noteq> 0 \<and> expected AND HAS_WAITERS \<noteq> 0) (UnSend w))
        (s\<lparr>im_state := im_state s AND (if im_waiters s = [] then NOT HAS_WAITERS else - 1)\<rparr>))"

definition im_un_send :: "'t \<Rightarrow> 't \<Rightarrow> 't im \<Rightarrow> 't im" where
  "im_un_send t w s = im_goto t UnUnlock (s\<lparr>im_signaled := insert w (im_signaled s)\<rparr>)"

text \<open>Where the internal mutex is taken and released.\<close>

fun im_after_lock :: "'t im_pc \<Rightarrow> 't im_pc option" where
  "im_after_lock LkMutex = Some LkOr"
| "im_after_lock UnMutex = Some UnPop"
| "im_after_lock p = None"

fun im_after_unlock :: "'t im_pc \<Rightarrow> 't im_pc option" where
  "im_after_unlock LkTakeUnlock = Some Owner"
| "im_after_unlock LkAppendUnlock = Some LkSignal"
| "im_after_unlock UnUnlock = Some Away"
| "im_after_unlock p = None"

inductive im_step :: "'t im \<Rightarrow> 't im \<Rightarrow> bool" where
  lk_try: "im_pc s t = LkTry \<Longrightarrow> im_try_lock s = (r, s') \<Longrightarrow> im_step s (im_goto t (if r then Owner else LkMutex) s')"
| try_lock: "im_pc s t = TlTry \<Longrightarrow> im_try_lock s = (r, s') \<Longrightarrow> im_step s (im_goto t (if r then Owner else Away) s')"
| lock: "im_after_lock (im_pc s t) = Some p \<Longrightarrow> im_mutex s = None \<Longrightarrow> im_step s (im_goto t p (s\<lparr>im_mutex := Some t\<rparr>))"
| unlock: "im_after_unlock (im_pc s t) = Some p \<Longrightarrow> im_step s (im_goto t p (s\<lparr>im_mutex := None\<rparr>))"
| lk_or: "im_pc s t = LkOr \<Longrightarrow> im_step s (im_lk_or t s)"
| lk_take: "im_pc s t = LkTake \<Longrightarrow> im_step s (im_lk_take t s)"
| lk_append: "im_pc s t = LkAppend \<Longrightarrow> im_step s (im_lk_append t s)"
| lk_signal: "im_pc s t = LkSignal \<Longrightarrow> t \<in> im_signaled s \<Longrightarrow>
     im_step s (im_goto t LkCheck (s\<lparr>im_signaled := im_signaled s - {t}\<rparr>))"
| lk_check: "im_pc s t = LkCheck \<Longrightarrow> im_step s (im_goto t (im_assert (im_state s AND TAKEN \<noteq> 0) Owner) s)"
| un_try: "im_pc s t = UnTry \<Longrightarrow> im_step s (im_un_try t s)"
| un_pop: "im_pc s t = UnPop \<Longrightarrow> im_step s (im_un_pop t s)"
| un_and: "im_pc s t = UnAnd w \<Longrightarrow> im_step s (im_un_and t w s)"
| un_send: "im_pc s t = UnSend w \<Longrightarrow> im_step s (im_un_send t w s)"

text \<open>Calls: \<^verbatim>\<open>Lock\<close> and \<^verbatim>\<open>TryLock\<close> by a thread that does not own the mutex, \<^verbatim>\<open>Unlock\<close> by the one that does.\<close>

inductive im_call :: "'t im \<Rightarrow> 't im \<Rightarrow> bool" where
  lock: "im_pc s t = Away \<Longrightarrow> im_call s (im_goto t LkTry s)"
| try_lock: "im_pc s t = Away \<Longrightarrow> im_call s (im_goto t TlTry s)"
| unlock: "im_pc s t = Owner \<Longrightarrow> im_call s (im_goto t UnTry s)"

inductive im_reachable :: "'t im \<Rightarrow> bool" where
  new: "im_reachable im_new"
| step: "im_reachable s \<Longrightarrow> im_step s s' \<Longrightarrow> im_reachable s'"
| call: "im_reachable s \<Longrightarrow> im_call s s' \<Longrightarrow> im_reachable s'"

section \<open>The invariant\<close>

text \<open>The two bits of the state: somebody owns the mutex, somebody waits or announced it.\<close>

definition im_bits :: "bool \<Rightarrow> bool \<Rightarrow> u8" where
  "im_bits a b = (if a then TAKEN else 0) OR (if b then HAS_WAITERS else 0)"

lemma im_bits_eq:
  "im_bits a b = 0 \<longleftrightarrow> \<not> a \<and> \<not> b" "im_bits a b = TAKEN \<longleftrightarrow> a \<and> \<not> b" "im_bits a b = HAS_WAITERS \<longleftrightarrow> \<not> a \<and> b"
  "im_bits a b = TAKEN OR HAS_WAITERS \<longleftrightarrow> a \<and> b"
  "im_bits a b OR HAS_WAITERS = im_bits a True" "im_bits a b AND NOT HAS_WAITERS = im_bits a False"
  "im_bits a b AND - 1 = im_bits a b" "im_bits a b AND TAKEN = 0 \<longleftrightarrow> \<not> a" "im_bits a b AND HAS_WAITERS = 0 \<longleftrightarrow> \<not> b"
  "0 = im_bits a b \<longleftrightarrow> \<not> a \<and> \<not> b" "TAKEN = im_bits a b \<longleftrightarrow> a \<and> \<not> b"
  by (cases a; cases b; simp add: im_bits_def TAKEN_def HAS_WAITERS_def)+

fun holds_mutex :: "'t im_pc \<Rightarrow> bool" where
  "holds_mutex LkOr = True" | "holds_mutex LkTake = True" | "holds_mutex LkTakeUnlock = True"
| "holds_mutex LkAppend = True" | "holds_mutex LkAppendUnlock = True" | "holds_mutex UnPop = True"
| "holds_mutex (UnAnd w) = True" | "holds_mutex (UnSend w) = True" | "holds_mutex UnUnlock = True"
| "holds_mutex _ = False"

text \<open>Places of the owner; a waiter owns the mutex from the moment its signal is sent.\<close>

fun owner_pc :: "'t im_pc \<Rightarrow> bool" where
  "owner_pc Owner = True" | "owner_pc LkTakeUnlock = True" | "owner_pc LkCheck = True" | "owner_pc UnTry = True"
| "owner_pc UnMutex = True" | "owner_pc UnPop = True" | "owner_pc (UnAnd w) = True" | "owner_pc (UnSend w) = True"
| "owner_pc _ = False"

definition owns :: "'t im \<Rightarrow> 't \<Rightarrow> bool" where
  "owns s t = (owner_pc (im_pc s t) \<or> im_pc s t = LkSignal \<and> t \<in> im_signaled s)"

fun marks :: "'t im_pc \<Rightarrow> bool" where
  "marks LkTake = True" | "marks LkAppend = True" | "marks (UnAnd w) = True" | "marks _ = False"

definition marked :: "'t im \<Rightarrow> bool" where
  "marked s = (case im_mutex s of None \<Rightarrow> False | Some h \<Rightarrow> marks (im_pc s h))"

fun hands_to :: "'t im_pc \<Rightarrow> 't option" where
  "hands_to (UnAnd w) = Some w" | "hands_to (UnSend w) = Some w" | "hands_to _ = None"

definition handed :: "'t im \<Rightarrow> 't option" where
  "handed s = (case im_mutex s of None \<Rightarrow> None | Some h \<Rightarrow> hands_to (im_pc s h))"

fun waits :: "'t im_pc \<Rightarrow> bool" where
  "waits LkAppendUnlock = True" | "waits LkSignal = True" | "waits _ = False"

text \<open>Every waiting thread is in exactly one place: in the list, being handed the mutex, or signaled.\<close>

definition queue_ok :: "'t im \<Rightarrow> bool" where
  "queue_ok s = (distinct (im_waiters s) \<and>
     (\<forall>t. waits (im_pc s t) \<longleftrightarrow> t \<in> set (im_waiters s) \<or> handed s = Some t \<or> t \<in> im_signaled s) \<and>
     (\<forall>t. t \<in> set (im_waiters s) \<longrightarrow> handed s \<noteq> Some t \<and> t \<notin> im_signaled s) \<and>
     (\<forall>t. handed s = Some t \<longrightarrow> t \<notin> im_signaled s) \<and>
     (\<forall>t. im_pc s t = LkAppendUnlock \<longrightarrow> t \<in> set (im_waiters s)))"

definition place_ok :: "'t im \<Rightarrow> 't option \<Rightarrow> 't im_pc \<Rightarrow> bool" where
  "place_ok s u p =
     ((p = LkAppend \<longrightarrow> u \<noteq> None) \<and> (p = LkTake \<longrightarrow> u = None) \<and> (p = UnMutex \<or> p = UnPop \<longrightarrow> im_waiters s \<noteq> [] \<or> marked s) \<and>
      p \<noteq> Failed)"

definition im_inv :: "'t im \<Rightarrow> 't option \<Rightarrow> bool" where
  "im_inv s u =
    ((\<forall>t. holds_mutex (im_pc s t) \<longleftrightarrow> im_mutex s = Some t) \<and>
     (\<forall>t. owns s t \<longleftrightarrow> u = Some t) \<and>
     im_state s = im_bits (u \<noteq> None) (im_waiters s \<noteq> [] \<or> marked s) \<and>
     (im_waiters s \<noteq> [] \<longrightarrow> u \<noteq> None) \<and>
     queue_ok s \<and> (\<forall>t. place_ok s u (im_pc s t)) \<and>
     im_queued s = im_given s @ im_waiters s)"

lemma im_inv_new: "im_inv im_new None"
  by (simp add: im_inv_def im_new_def owns_def marked_def handed_def queue_ok_def place_ok_def im_bits_def)


lemma im_goto_sel [simp]:
  "im_mutex (im_goto t p s) = im_mutex s" "im_waiters (im_goto t p s) = im_waiters s"
  "im_state (im_goto t p s) = im_state s" "im_signaled (im_goto t p s) = im_signaled s"
  "im_pc (im_goto t p s) = (im_pc s)(t := p)" "im_queued (im_goto t p s) = im_queued s"
  "im_given (im_goto t p s) = im_given s"
  by (simp_all add: im_goto_def)

text \<open>A step that moves one thread and nothing else of the structure.\<close>

lemma im_inv_goto:
  assumes "im_inv s u" and pc: "im_pc s' = (im_pc s)(t := p)" and same: "im_mutex s' = im_mutex s" "im_waiters s' = im_waiters s"
    "im_signaled s' = im_signaled s" "im_queued s' = im_queued s" "im_given s' = im_given s"
    and cls: "holds_mutex p = holds_mutex (im_pc s t)" "marks p = marks (im_pc s t)" "hands_to p = hands_to (im_pc s t)"
      "waits p = waits (im_pc s t)" "p \<noteq> LkAppendUnlock"
    and own: "\<And>x. owns s' x \<longleftrightarrow> u' = Some x" and st: "im_state s' = im_bits (u' \<noteq> None) (im_waiters s \<noteq> [] \<or> marked s)"
    and w: "im_waiters s \<noteq> [] \<longrightarrow> u' \<noteq> None" and pl: "\<And>x. place_ok s' u' (if x = t then p else im_pc s x)"
  shows "im_inv s' u'"
proof -
  have m: "marked s' = marked s" "handed s' = handed s"
    using cls by (auto simp: marked_def handed_def pc same split: option.splits)
  have "queue_ok s'"
    using assms(1) cls unfolding queue_ok_def im_inv_def m same by (auto simp: pc)
  moreover have "place_ok s' u' (im_pc s' x)" for x using pl[of x] by (simp add: pc)
  moreover have "holds_mutex (im_pc s' x) \<longleftrightarrow> im_mutex s' = Some x" for x
    using assms(1) cls(1) by (simp add: im_inv_def pc same)
  ultimately show ?thesis using assms(1) own st w unfolding im_inv_def by (simp add: m same)
qed

lemma im_invD:
  assumes "im_inv s u"
  shows "holds_mutex (im_pc s t) \<longleftrightarrow> im_mutex s = Some t" "owns s t \<longleftrightarrow> u = Some t"
    "im_state s = im_bits (u \<noteq> None) (im_waiters s \<noteq> [] \<or> marked s)" "im_waiters s \<noteq> [] \<Longrightarrow> u \<noteq> None" "queue_ok s"
    "place_ok s u (im_pc s t)" "im_queued s = im_given s @ im_waiters s"
  using assms by (auto simp: im_inv_def)

lemma im_invI:
  assumes "\<And>t. holds_mutex (im_pc s t) \<longleftrightarrow> im_mutex s = Some t" "\<And>t. owns s t \<longleftrightarrow> u = Some t"
    "im_state s = im_bits (u \<noteq> None) (im_waiters s \<noteq> [] \<or> marked s)" "im_waiters s \<noteq> [] \<Longrightarrow> u \<noteq> None" "queue_ok s"
    "\<And>t. place_ok s u (im_pc s t)" "im_queued s = im_given s @ im_waiters s"
  shows "im_inv s u"
  using assms by (auto simp: im_inv_def)

lemma queue_ok_goto:
  assumes "queue_ok s" and "im_pc s' = (im_pc s)(t := p)" and "im_waiters s' = im_waiters s" and "handed s' = handed s"
    and "im_signaled s' = im_signaled s" and "waits p = waits (im_pc s t)" and "p \<noteq> LkAppendUnlock"
  shows "queue_ok s'"
  using assms unfolding queue_ok_def by auto

lemma not_waiting:
  assumes "queue_ok s" and "\<not> waits (im_pc s t)"
  shows "t \<notin> set (im_waiters s)" "t \<notin> im_signaled s" "handed s \<noteq> Some t"
  using assms unfolding queue_ok_def by blast+

text \<open>Only the holder of the internal mutex and the owner are at places that promise something.\<close>

lemma place_ok_other: "\<not> holds_mutex p \<Longrightarrow> \<not> owner_pc p \<Longrightarrow> p \<noteq> Failed \<Longrightarrow> place_ok s u p"
  by (cases p) (auto simp: place_ok_def)

lemma owner_pc_owns: "owner_pc (im_pc s t) \<Longrightarrow> owns s t"
  by (simp add: owns_def)

lemma marks_holds: "marks p \<Longrightarrow> holds_mutex p"
  by (cases p) auto

lemma marked_holder: "im_mutex s = Some t \<Longrightarrow> marked s = marks (im_pc s t)"
  by (simp add: marked_def)

lemma handed_holder: "im_mutex s = Some t \<Longrightarrow> handed s = hands_to (im_pc s t)"
  by (simp add: handed_def)

lemma not_failed: "im_inv s u \<Longrightarrow> im_pc s t \<noteq> Failed"
  using im_invD(6)[of s u t] by (simp add: place_ok_def)

lemma im_inv_try:
  assumes I: "im_inv s u" and t: "im_pc s t \<in> {LkTry, TlTry}" and q: "q \<in> {LkMutex, Away}"
    and r: "im_try_lock s = (r, s0)"
  shows "\<exists>u'. im_inv (im_goto t (if r then Owner else q) s0) u'"
proof (cases "im_state s = 0")
  case True
  then have e: "u = None" "im_waiters s = []" "\<not> marked s" using im_invD(3)[OF I] by (auto simp: im_bits_eq)
  have o: "\<not> owns s x" "\<not> marks (im_pc s x)" for x
    using im_invD(1,2)[OF I] e marks_holds[of "im_pc s x"] by (auto simp: marked_def)
  have "im_inv (im_goto t (if r then Owner else q) s0) (Some t)"
  proof (rule im_inv_goto[where t = t and p = Owner, OF I])
    show "place_ok (im_goto t (if r then Owner else q) s0) (Some t) (if x = t then Owner else im_pc s x)" for x
      using im_invD(6)[OF I, of x] o[of x] owner_pc_owns[of s x] by (cases "im_pc s x") (auto simp: place_ok_def)
  qed (use True r t o e in \<open>auto simp: im_try_lock_def owns_def im_bits_eq\<close>)
  then show ?thesis ..
next
  case False
  have "im_inv (im_goto t (if r then Owner else q) s0) u"
  proof (rule im_inv_goto[where t = t and p = q, OF I])
    show "place_ok (im_goto t (if r then Owner else q) s0) u (if x = t then q else im_pc s x)" for x
    proof -
      have "marked (im_goto t (if r then Owner else q) s0) = marked s"
        using r False t q by (auto simp: im_try_lock_def marked_def split: option.splits)
      then show ?thesis using im_invD(6)[OF I, of x] False r q by (auto simp: place_ok_def im_try_lock_def)
    qed
    show "owns (im_goto t (if r then Owner else q) s0) x \<longleftrightarrow> u = Some x" for x
      using im_invD(2)[OF I, of x] False r t q by (auto simp: im_try_lock_def owns_def)
  qed (use False r t q im_invD(3,4)[OF I] in \<open>auto simp: im_try_lock_def\<close>)
  then show ?thesis ..
qed

lemma im_inv_step:
  assumes I: "im_inv s u" and "im_step s s'"
  shows "\<exists>u'. im_inv s' u'"
  using assms(2)
proof cases
  case (lk_try t r s0)
  then show ?thesis using im_inv_try[OF I, of t LkMutex r s0] by simp
next
  case (try_lock t r s0)
  then show ?thesis using im_inv_try[OF I, of t Away r s0] by simp
next
  case (lock t p)
  have c: "holds_mutex p" "\<not> marks p" "hands_to p = None" "owner_pc p = owner_pc (im_pc s t)" "p \<noteq> LkSignal" "\<not> waits p"
    "im_pc s t \<noteq> LkSignal" "\<not> waits (im_pc s t)" "p = UnPop \<Longrightarrow> im_pc s t = UnMutex" "p = UnPop \<or> p = LkOr" "p \<noteq> LkAppendUnlock"
    using lock(2) by (cases "im_pc s t"; auto)+
  have m: "\<not> marked s" "handed s = None" "\<not> marked s'" "handed s' = None"
    using lock c by (auto simp: marked_def handed_def)
  have "im_inv s' u"
  proof (rule im_invI)
    show "place_ok s' u (im_pc s' x)" for x
      using im_invD(6)[OF I, of x] im_invD(6)[OF I, of t] m c lock by (auto simp: place_ok_def)
    show "queue_ok s'" using im_invD(5)[OF I] c m lock(1) unfolding queue_ok_def by auto
    show "holds_mutex (im_pc s' x) \<longleftrightarrow> im_mutex s' = Some x" for x using im_invD(1)[OF I, of x] lock c by auto
    show "owns s' x \<longleftrightarrow> u = Some x" for x using im_invD(2)[OF I, of x] lock c by (auto simp: owns_def)
  qed (use im_invD(3,4,7)[OF I] m lock in auto)
  then show ?thesis ..
next
  case (unlock t p)
  have c: "holds_mutex (im_pc s t)" "\<not> holds_mutex p" "\<not> marks (im_pc s t)" "hands_to (im_pc s t) = None"
    "owner_pc p = owner_pc (im_pc s t)" "im_pc s t \<noteq> LkSignal" "waits p = waits (im_pc s t)" "p \<noteq> Failed"
    "p = LkSignal \<Longrightarrow> im_pc s t = LkAppendUnlock" "p \<noteq> LkAppendUnlock" "p \<notin> {LkAppend, LkTake, UnMutex, UnPop}"
    using unlock(2) by (cases "im_pc s t"; auto)+
  have h: "im_mutex s = Some t" using im_invD(1)[OF I, of t] c by simp
  have m: "\<not> marked s" "handed s = None" "\<not> marked s'" "handed s' = None"
    using unlock(1) c h by (auto simp: marked_def handed_def)
  have "im_inv s' u"
  proof (rule im_invI)
    show "place_ok s' u (im_pc s' x)" for x
      using im_invD(6)[OF I, of x] m c unlock(1) by (auto simp: place_ok_def)
    show "queue_ok s'" using im_invD(5)[OF I] c m unlock(1) unfolding queue_ok_def by auto
    show "holds_mutex (im_pc s' x) \<longleftrightarrow> im_mutex s' = Some x" for x using im_invD(1)[OF I, of x] unlock(1) h c by auto
    show "owns s' x \<longleftrightarrow> u = Some x" for x
      using im_invD(2)[OF I, of x] im_invD(5)[OF I] unlock(1) c by (auto simp: owns_def queue_ok_def)
  qed (use im_invD(3,4,7)[OF I] m unlock(1) in auto)
  then show ?thesis ..
next
  case (lk_or t)
  have h: "im_mutex s = Some t" using im_invD(1)[OF I, of t] lk_or(2) by simp
  define p where "p = (if u = None then LkTake else LkAppend :: 'a im_pc)"
  have m: "\<not> marked s" "handed s = None" using lk_or(2) h by (auto simp: marked_def handed_def)
  have s': "s' = im_goto t p (s\<lparr>im_state := im_bits (u \<noteq> None) True\<rparr>)"
    using lk_or(1) im_invD(3)[OF I] by (simp add: im_lk_or_def p_def im_bits_eq)
  have m': "marked s'" "handed s' = None" using h by (auto simp: s' p_def marked_def handed_def)
  have "im_inv s' u"
  proof (rule im_invI)
    show "place_ok s' u (im_pc s' x)" for x
      using im_invD(6)[OF I, of x] m' by (auto simp: s' p_def place_ok_def)
    show "queue_ok s'"
      by (rule queue_ok_goto[OF im_invD(5)[OF I], where t = t and p = p]) (use m m' lk_or(2) in \<open>auto simp: s' p_def\<close>)
    show "holds_mutex (im_pc s' x) \<longleftrightarrow> im_mutex s' = Some x" for x using im_invD(1)[OF I, of x] h by (auto simp: s' p_def)
    show "owns s' x \<longleftrightarrow> u = Some x" for x
      using im_invD(2)[OF I, of x] lk_or(2) by (auto simp: s' p_def owns_def)
    show "im_state s' = im_bits (u \<noteq> None) (im_waiters s' \<noteq> [] \<or> marked s')" using m' by (simp add: s')
  qed (use im_invD(4,7)[OF I] in \<open>auto simp: s'\<close>)
  then show ?thesis ..
next
  case (lk_take t)
  have h: "im_mutex s = Some t" using im_invD(1)[OF I, of t] lk_take(2) by simp
  have u: "u = None" "im_waiters s = []" using im_invD(4)[OF I] im_invD(6)[OF I, of t] lk_take(2) by (auto simp: place_ok_def)
  have m: "marked s" "handed s = None" using lk_take(2) h by (auto simp: marked_def handed_def)
  have s': "s' = im_goto t LkTakeUnlock (s\<lparr>im_state := TAKEN\<rparr>)"
    using lk_take(1) im_invD(3)[OF I] u m by (simp add: im_lk_take_def im_assert_def im_bits_eq)
  have m': "\<not> marked s'" "handed s' = None" using h by (auto simp: s' marked_def handed_def)
  have o: "\<not> owns s x" for x using im_invD(2)[OF I, of x] u by simp
  have "im_inv s' (Some t)"
  proof (rule im_invI)
    show "place_ok s' (Some t) (im_pc s' x)" for x
    proof (cases "x = t")
      case False
      then have "\<not> holds_mutex (im_pc s x)" using im_invD(1)[OF I, of x] h by simp
      then show ?thesis using False not_failed[OF I, of x] o[of x] owner_pc_owns[of s x]
        by (auto simp: s' intro!: place_ok_other)
    qed (simp add: s' place_ok_def)
    show "queue_ok s'"
      by (rule queue_ok_goto[OF im_invD(5)[OF I], where t = t and p = LkTakeUnlock]) (use m m' lk_take(2) in \<open>auto simp: s'\<close>)
    show "holds_mutex (im_pc s' x) \<longleftrightarrow> im_mutex s' = Some x" for x using im_invD(1)[OF I, of x] h by (auto simp: s')
    show "owns s' x \<longleftrightarrow> Some t = Some x" for x using o[of x] by (auto simp: s' owns_def)
  qed (use im_invD(7)[OF I] m' u in \<open>auto simp: s' im_bits_eq\<close>)
  then show ?thesis ..
next
  case (lk_append t)
  have h: "im_mutex s = Some t" using im_invD(1)[OF I, of t] lk_append(2) by simp
  have u: "u \<noteq> None" using im_invD(6)[OF I, of t] lk_append(2) by (auto simp: place_ok_def)
  have m: "marked s" "handed s = None" using lk_append(2) h by (auto simp: marked_def handed_def)
  have m': "\<not> marked s'" "handed s' = None" using lk_append(1) h by (auto simp: im_lk_append_def marked_def handed_def)
  have q: "t \<notin> set (im_waiters s)" "t \<notin> im_signaled s"
    using not_waiting[OF im_invD(5)[OF I], of t] lk_append(2) by simp_all
  have "im_inv s' u"
  proof (rule im_invI)
    show "place_ok s' u (im_pc s' x)" for x
      using im_invD(6)[OF I, of x] by (auto simp: lk_append(1) im_lk_append_def place_ok_def)
    show "queue_ok s'"
      using im_invD(5)[OF I] m m' q lk_append(2) unfolding queue_ok_def by (auto simp: lk_append(1) im_lk_append_def)
    show "holds_mutex (im_pc s' x) \<longleftrightarrow> im_mutex s' = Some x" for x
      using im_invD(1)[OF I, of x] h by (auto simp: lk_append(1) im_lk_append_def)
    show "owns s' x \<longleftrightarrow> u = Some x" for x
      using im_invD(2)[OF I, of x] q lk_append(2) by (auto simp: lk_append(1) im_lk_append_def owns_def)
  qed (use im_invD(3,7)[OF I] m m' u in \<open>auto simp: lk_append(1) im_lk_append_def\<close>)
  then show ?thesis ..
next
  case (lk_signal t)
  have u: "u = Some t" using im_invD(2)[OF I, of t] lk_signal by (simp add: owns_def)
  have q: "t \<notin> set (im_waiters s)" "handed s \<noteq> Some t" using im_invD(5)[OF I] lk_signal by (auto simp: queue_ok_def)
  have n: "im_mutex s \<noteq> Some t" using im_invD(1)[OF I, of t] lk_signal by simp
  have m: "marked s' = marked s" "handed s' = handed s"
    using n lk_signal(1) by (auto simp: marked_def handed_def split: option.splits)
  have "im_inv s' u"
  proof (rule im_invI)
    show "place_ok s' u (im_pc s' x)" for x
      using im_invD(6)[OF I, of x] m by (auto simp: lk_signal(1) place_ok_def)
    show "queue_ok s'"
      using im_invD(5)[OF I] m q lk_signal(2,3) unfolding queue_ok_def by (auto simp: lk_signal(1))
    show "holds_mutex (im_pc s' x) \<longleftrightarrow> im_mutex s' = Some x" for x
      using im_invD(1)[OF I, of x] n by (auto simp: lk_signal(1))
    show "owns s' x \<longleftrightarrow> u = Some x" for x
      using im_invD(2)[OF I, of x] u by (auto simp: lk_signal(1) owns_def)
  qed (use im_invD(3,4,7)[OF I] m in \<open>auto simp: lk_signal(1)\<close>)
  then show ?thesis ..
next
  case (lk_check t)
  have u: "u = Some t" using im_invD(2)[OF I, of t] lk_check by (simp add: owns_def)
  then have s': "s' = im_goto t Owner s"
    using im_invD(3)[OF I] lk_check(1) by (simp add: im_assert_def im_bits_eq)
  have "im_inv s' u"
  proof (rule im_inv_goto[where t = t and p = Owner, OF I])
    show "owns s' x \<longleftrightarrow> u = Some x" for x using im_invD(2)[OF I, of x] u by (auto simp: s' owns_def)
    have "marked s' = marked s" using lk_check(2) by (auto simp: s' marked_def split: option.splits)
    then show "place_ok s' u (if x = t then Owner else im_pc s x)" for x
      using im_invD(6)[OF I, of x] by (auto simp: s' place_ok_def)
  qed (use lk_check(2) im_invD(3,4)[OF I] in \<open>auto simp: s'\<close>)
  then show ?thesis ..
next
  case (un_try t)
  have u: "u = Some t" using im_invD(2)[OF I, of t] un_try by (simp add: owns_def)
  show ?thesis
  proof (cases "im_state s = TAKEN")
    case True
    then have e: "im_waiters s = []" "\<not> marked s" using im_invD(3)[OF I] u by (auto simp: im_bits_eq)
    have s': "s' = im_goto t Away (s\<lparr>im_state := 0\<rparr>)" using True un_try(1) by (simp add: im_un_try_def)
    have "im_inv s' None"
    proof (rule im_inv_goto[where t = t and p = Away, OF I])
      show "owns s' x \<longleftrightarrow> None = Some x" for x using im_invD(2)[OF I, of x] u by (auto simp: s' owns_def)
      show "place_ok s' None (if x = t then Away else im_pc s x)" for x
      proof (cases "x = t")
        case False
        then have "\<not> owns s x" using im_invD(2)[OF I, of x] u by simp
        moreover have "\<not> marks (im_pc s x)"
          using e(2) marks_holds[of "im_pc s x"] im_invD(1)[OF I, of x] by (auto simp: marked_def)
        ultimately show ?thesis
          using False im_invD(6)[OF I, of x] owner_pc_owns[of s x] by (cases "im_pc s x") (auto simp: place_ok_def)
      qed (simp add: place_ok_def)
    qed (use un_try(2) e in \<open>auto simp: s' im_bits_eq\<close>)
    then show ?thesis ..
  next
    case False
    then have e: "im_waiters s \<noteq> [] \<or> marked s" using im_invD(3)[OF I] u by (auto simp: im_bits_eq)
    then have s': "s' = im_goto t UnMutex s"
      using False im_invD(3)[OF I] u un_try(1) by (auto simp: im_un_try_def im_assert_def im_bits_eq)
    have "im_inv s' u"
    proof (rule im_inv_goto[where t = t and p = UnMutex, OF I])
      show "owns s' x \<longleftrightarrow> u = Some x" for x using im_invD(2)[OF I, of x] u by (auto simp: s' owns_def)
      have "marked s' = marked s" using un_try(2) by (auto simp: s' marked_def split: option.splits)
      then show "place_ok s' u (if x = t then UnMutex else im_pc s x)" for x
        using im_invD(6)[OF I, of x] e by (auto simp: s' place_ok_def)
    qed (use un_try(2) im_invD(3,4)[OF I] in \<open>auto simp: s'\<close>)
    then show ?thesis ..
  qed
next
  case (un_pop t)
  have u: "u = Some t" using im_invD(2)[OF I, of t] un_pop by (simp add: owns_def)
  have h: "im_mutex s = Some t" using im_invD(1)[OF I, of t] un_pop(2) by simp
  have m: "\<not> marked s" "handed s = None" using un_pop(2) h by (auto simp: marked_def handed_def)
  obtain w ws where ws: "im_waiters s = w # ws"
    using im_invD(6)[OF I, of t] un_pop(2) m by (cases "im_waiters s") (auto simp: place_ok_def)
  have s': "s' = im_goto t (UnAnd w) (s\<lparr>im_waiters := ws, im_given := im_given s @ [w]\<rparr>)"
    using un_pop(1) ws by (simp add: im_un_pop_def)
  have m': "marked s'" "handed s' = Some w" using h by (auto simp: s' marked_def handed_def)
  have w: "im_pc s w \<noteq> LkAppendUnlock"
    using im_invD(1)[OF I, of w] h un_pop(2) by auto
  have "im_inv s' u"
  proof (rule im_invI)
    show "place_ok s' u (im_pc s' x)" for x
      using im_invD(6)[OF I, of x] m' by (auto simp: s' place_ok_def)
    have "t \<notin> set (w # ws)" using not_waiting[OF im_invD(5)[OF I], of t] un_pop(2) ws by simp
    then show "queue_ok s'"
      using im_invD(5)[OF I] m m' un_pop(2) w unfolding queue_ok_def ws by (auto simp: s')
    show "holds_mutex (im_pc s' x) \<longleftrightarrow> im_mutex s' = Some x" for x
      using im_invD(1)[OF I, of x] h by (auto simp: s')
    show "owns s' x \<longleftrightarrow> u = Some x" for x
      using im_invD(2)[OF I, of x] u by (auto simp: s' owns_def)
  qed (use im_invD(3,7)[OF I] m' u ws in \<open>auto simp: s'\<close>)
  then show ?thesis ..
next
  case (un_and t w)
  have u: "u = Some t" using im_invD(2)[OF I, of t] un_and by (simp add: owns_def)
  have h: "im_mutex s = Some t" using im_invD(1)[OF I, of t] un_and(2) by simp
  have m: "marked s" "handed s = Some w" using un_and(2) h by (auto simp: marked_def handed_def)
  have s': "s' = im_goto t (UnSend w) (s\<lparr>im_state := im_bits True (im_waiters s \<noteq> [])\<rparr>)"
    using un_and(1) im_invD(3)[OF I] u m by (auto simp: im_un_and_def im_assert_def im_bits_eq)
  have m': "\<not> marked s'" "handed s' = Some w" using h by (auto simp: s' marked_def handed_def)
  have "im_inv s' u"
  proof (rule im_invI)
    show "place_ok s' u (im_pc s' x)" for x
    proof (cases "x = t")
      case False
      then have "\<not> holds_mutex (im_pc s x)" "\<not> owns s x" using im_invD(1,2)[OF I, of x] h u by simp_all
      then show ?thesis using False not_failed[OF I, of x] owner_pc_owns[of s x] by (auto simp: s' intro!: place_ok_other)
    qed (simp add: s' place_ok_def)
    show "queue_ok s'"
      by (rule queue_ok_goto[OF im_invD(5)[OF I], where t = t and p = "UnSend w"]) (use m m' un_and(2) in \<open>auto simp: s'\<close>)
    show "holds_mutex (im_pc s' x) \<longleftrightarrow> im_mutex s' = Some x" for x
      using im_invD(1)[OF I, of x] h by (auto simp: s')
    show "owns s' x \<longleftrightarrow> u = Some x" for x
      using im_invD(2)[OF I, of x] u by (auto simp: s' owns_def)
  qed (use im_invD(7)[OF I] m' u in \<open>auto simp: s'\<close>)
  then show ?thesis ..
next
  case (un_send t w)
  have u: "u = Some t" using im_invD(2)[OF I, of t] un_send by (simp add: owns_def)
  have h: "im_mutex s = Some t" using im_invD(1)[OF I, of t] un_send(2) by simp
  have m: "\<not> marked s" "handed s = Some w" using un_send(2) h by (auto simp: marked_def handed_def)
  have s': "s' = im_goto t UnUnlock (s\<lparr>im_signaled := insert w (im_signaled s)\<rparr>)"
    using un_send(1) by (simp add: im_un_send_def)
  have m': "\<not> marked s'" "handed s' = None" using h by (auto simp: s' marked_def handed_def)
  have q: "waits (im_pc s w)" "w \<notin> set (im_waiters s)" "w \<notin> im_signaled s" "im_pc s w \<noteq> LkAppendUnlock"
    using im_invD(5)[OF I] m unfolding queue_ok_def by auto
  then have w: "im_pc s w = LkSignal" "w \<noteq> t" using un_send(2) by (cases "im_pc s w"; auto)+
  have "im_inv s' (Some w)"
  proof (rule im_invI)
    show "place_ok s' (Some w) (im_pc s' x)" for x
    proof (cases "x = t")
      case False
      then have "\<not> holds_mutex (im_pc s x)" "\<not> owns s x" using im_invD(1,2)[OF I, of x] h u by simp_all
      then show ?thesis using False not_failed[OF I, of x] owner_pc_owns[of s x] by (auto simp: s' intro!: place_ok_other)
    qed (simp add: s' place_ok_def)
    have "t \<notin> set (im_waiters s)" "t \<notin> im_signaled s"
      using not_waiting[OF im_invD(5)[OF I], of t] un_send(2) by simp_all
    then show "queue_ok s'" using im_invD(5)[OF I] m m' un_send(2) q unfolding queue_ok_def by (auto simp: s')
    show "holds_mutex (im_pc s' x) \<longleftrightarrow> im_mutex s' = Some x" for x
      using im_invD(1)[OF I, of x] h by (auto simp: s')
    show "owns s' x \<longleftrightarrow> Some w = Some x" for x
      using im_invD(2)[OF I, of x] u w un_send(2) by (auto simp: s' owns_def)
  qed (use im_invD(3,7)[OF I] m m' u in \<open>auto simp: s'\<close>)
  then show ?thesis ..
qed

lemma im_inv_call:
  assumes I: "im_inv s u" and "im_call s s'"
  shows "im_inv s' u"
proof -
  have "im_inv (im_goto t p s) u"
    if p: "im_pc s t = Away \<and> p \<in> {LkTry, TlTry} \<or> im_pc s t = Owner \<and> p = UnTry" for t p
  proof (rule im_inv_goto[where t = t and p = p, OF I])
    show "owns (im_goto t p s) x \<longleftrightarrow> u = Some x" for x using im_invD(2)[OF I, of x] p by (auto simp: owns_def)
    have "marked (im_goto t p s) = marked s" using p by (auto simp: marked_def split: option.splits)
    then show "place_ok (im_goto t p s) u (if x = t then p else im_pc s x)" for x
      using im_invD(6)[OF I, of x] p by (auto simp: place_ok_def)
  qed (use p im_invD(3,4)[OF I] in auto)
  with assms(2) show ?thesis by (auto elim!: im_call.cases)
qed

lemma im_reachable_inv: "im_reachable s \<Longrightarrow> \<exists>u. im_inv s u"
  by (induction rule: im_reachable.induct) (auto intro: im_inv_new im_inv_call dest: im_inv_step)

section \<open>Progress\<close>

lemma im_enabled:
  assumes "im_pc s t \<notin> {Away, Owner, LkMutex, UnMutex, LkSignal, Failed}"
  shows "\<exists>s'. im_step s s'"
proof -
  obtain r s0 where r: "im_try_lock s = (r, s0)" by (cases "im_try_lock s")
  show ?thesis
    using assms im_step.lk_try[OF _ r, of t] im_step.try_lock[OF _ r, of t] im_step.unlock[of s t] im_step.lk_or[of s t]
      im_step.lk_take[of s t] im_step.lk_append[of s t] im_step.lk_check[of s t] im_step.un_try[of s t]
      im_step.un_pop[of s t] im_step.un_and[of s t] im_step.un_send[of s t]
    by (cases "im_pc s t") auto
qed

fun im_steps_left :: "'t im_pc \<Rightarrow> nat" where
  "im_steps_left LkTry = 7" | "im_steps_left LkMutex = 6" | "im_steps_left LkOr = 5" | "im_steps_left LkTake = 2"
| "im_steps_left LkTakeUnlock = 1" | "im_steps_left LkAppend = 4" | "im_steps_left LkAppendUnlock = 3"
| "im_steps_left LkSignal = 2" | "im_steps_left LkCheck = 1" | "im_steps_left TlTry = 1" | "im_steps_left UnTry = 6"
| "im_steps_left UnMutex = 5" | "im_steps_left UnPop = 4" | "im_steps_left (UnAnd w) = 3" | "im_steps_left (UnSend w) = 2"
| "im_steps_left UnUnlock = 1" | "im_steps_left _ = 0"

lemma im_step_moves:
  assumes "im_step s s'"
  shows "\<exists>t. im_steps_left (im_pc s' t) < im_steps_left (im_pc s t) \<and> (\<forall>x. x \<noteq> t \<longrightarrow> im_pc s' x = im_pc s x)"
  using assms
proof cases
  case (lock t p)
  then have "im_steps_left p < im_steps_left (im_pc s t)" by (cases "im_pc s t") auto
  with lock show ?thesis by (intro exI[of _ t]) simp
next
  case (unlock t p)
  then have "im_steps_left p < im_steps_left (im_pc s t)" by (cases "im_pc s t") auto
  with unlock show ?thesis by (intro exI[of _ t]) simp
next
  case (lk_try t r s0)
  then show ?thesis by (intro exI[of _ t]) (auto simp: im_try_lock_def split: if_splits)
next
  case (try_lock t r s0)
  then show ?thesis by (intro exI[of _ t]) (auto simp: im_try_lock_def split: if_splits)
next
  case (lk_or t)
  then show ?thesis by (intro exI[of _ t]) (auto simp: im_lk_or_def Let_def)
next
  case (lk_take t)
  then show ?thesis by (intro exI[of _ t]) (auto simp: im_lk_take_def im_assert_def Let_def)
next
  case (lk_append t)
  then show ?thesis by (intro exI[of _ t]) (auto simp: im_lk_append_def)
next
  case (lk_signal t)
  then show ?thesis by (intro exI[of _ t]) auto
next
  case (lk_check t)
  then show ?thesis by (intro exI[of _ t]) (auto simp: im_assert_def)
next
  case (un_try t)
  then show ?thesis by (intro exI[of _ t]) (auto simp: im_un_try_def im_assert_def)
next
  case (un_pop t)
  then show ?thesis by (intro exI[of _ t]) (auto simp: im_un_pop_def split: list.splits)
next
  case (un_and t w)
  then show ?thesis by (intro exI[of _ t]) (auto simp: im_un_and_def im_assert_def Let_def)
next
  case (un_send t w)
  then show ?thesis by (intro exI[of _ t]) (auto simp: im_un_send_def)
qed

section \<open>Correctness\<close>

text \<open>
  C17. Safety of \<^verbatim>\<open>InterruptibleMutex\<close> for any number of threads and any interleaving: it has one owner at
  most, none of the assertions of \<^verbatim>\<open>Lock\<close> and \<^verbatim>\<open>Unlock\<close> fails, waiters become owners in the order in
  which they were queued, nobody gets ahead of them by \<^verbatim>\<open>TryLock\<close> (the state is not 0), and when all
  threads are done the destructor passes its assertion.
\<close>
theorem im_safe:
  assumes "im_reachable s"
  shows "(\<forall>t u. owns s t \<and> owns s u \<longrightarrow> t = u) \<and> (\<forall>t. im_pc s t \<noteq> Failed) \<and>
    im_queued s = im_given s @ im_waiters s \<and> (im_waiters s \<noteq> [] \<longrightarrow> \<not> fst (im_try_lock s)) \<and>
    ((\<forall>t. im_pc s t = Away) \<longrightarrow> im_delete_ok s \<and> im_waiters s = [])"
proof -
  obtain u where I: "im_inv s u" using im_reachable_inv[OF assms] by blast
  have "im_delete_ok s \<and> im_waiters s = []" if a: "\<forall>t. im_pc s t = Away"
  proof -
    have "u = None" using im_invD(2)[OF I, of "the u"] a by (cases u) (auto simp: owns_def)
    moreover have "\<not> marked s" using a by (simp add: marked_def split: option.splits)
    ultimately show ?thesis using im_invD(3,4)[OF I] by (auto simp: im_delete_ok_def im_bits_eq)
  qed
  moreover have "im_waiters s \<noteq> [] \<Longrightarrow> \<not> fst (im_try_lock s)"
    using im_invD(3,4)[OF I] by (auto simp: im_try_lock_def im_bits_eq)
  ultimately show ?thesis using im_invD(2,7)[OF I] not_failed[OF I] by auto
qed

text \<open>Thread 0 owns the mutex and thread 1 has just asked for it.\<close>

lemma im_safe_witness: "\<exists>s :: nat im. im_reachable s \<and> im_pc s 0 = Owner \<and> im_pc s 1 = LkTry \<and> \<not> owns s 1"
proof -
  let ?s1 = "im_goto 0 TlTry im_new :: nat im"
  let ?s2 = "im_goto 0 Owner (?s1\<lparr>im_state := TAKEN\<rparr>)"
  let ?s3 = "im_goto 1 LkTry ?s2"
  have "im_reachable ?s1"
    by (rule im_reachable.call[OF im_reachable.new im_call.try_lock]) (simp add: im_new_def)
  then have "im_reachable ?s2"
    using im_reachable.step[OF _ im_step.try_lock[of ?s1 0 True "?s1\<lparr>im_state := TAKEN\<rparr>"]]
    by (simp add: im_try_lock_def im_new_def)
  then have r: "im_reachable ?s3"
    by (rule im_reachable.call[OF _ im_call.lock]) (simp add: im_new_def)
  have "owns ?s3 0" by (simp add: owns_def)
  with im_safe[OF r] have "\<not> owns ?s3 1" by (metis zero_neq_one)
  with r show ?thesis by (intro exI[of _ ?s3]) simp
qed

text \<open>
  C18. Freedom from deadlock: when no thread can make a step and nobody keeps the mutex, every call has
  returned. In particular no waiter is forgotten by the owners that left.
\<close>
theorem im_no_deadlock:
  assumes "im_reachable s" and "\<forall>s'. \<not> im_step s s'" and "\<forall>t. im_pc s t \<noteq> Owner"
  shows "im_pc s t = Away"
proof -
  obtain u where I: "im_inv s u" using im_reachable_inv[OF assms(1)] by blast
  have a: "im_pc s x \<in> {Away, LkMutex, UnMutex, LkSignal}" for x
    using im_enabled[of s x] assms(2,3) not_failed[OF I, of x] by auto
  have "\<not> holds_mutex (im_pc s x)" for x using a[of x] by auto
  then have m: "im_mutex s = None" using im_invD(1)[OF I] by (cases "im_mutex s") auto
  have b: "im_pc s x \<in> {Away, LkSignal}" for x
    using a[of x] im_step.lock[of s x, OF _ m] assms(2) by (cases "im_pc s x") auto
  have c: "x \<notin> im_signaled s" if "im_pc s x = LkSignal" for x
    using im_step.lk_signal[OF that] assms(2) by blast
  then have "\<not> owns s x" for x using b[of x] by (cases "im_pc s x") (auto simp: owns_def)
  then have "im_waiters s = []" using im_invD(2,4)[OF I] by (cases u) auto
  moreover have "handed s = None" by (simp add: handed_def m)
  ultimately have "\<not> (waits (im_pc s t) \<and> t \<notin> im_signaled s)" using im_invD(5)[OF I] by (auto simp: queue_ok_def)
  then show ?thesis using b[of t] c[of t] by auto
qed

lemma im_no_deadlock_witness: "im_reachable (im_new :: nat im) \<and> im_pc (im_new :: nat im) 0 = Away"
proof -
  have "\<not> im_step (im_new :: nat im) s'" for s' by (auto elim!: im_step.cases simp: im_new_def)
  then show ?thesis
    using im_no_deadlock[OF im_reachable.new, of 0] im_reachable.new by (auto simp: im_new_def)
qed

text \<open>
  Every call ends or waits for its turn after a bounded number of steps: there is no spinning, and
  in particular \<^verbatim>\<open>TryLock\<close> is one step.
\<close>
theorem im_steps_bounded:
  fixes s :: "('t::finite) im"
  assumes "(im_step ^^ n) s s'"
  shows "n \<le> 7 * card (UNIV :: 't set)"
proof -
  have "n + (\<Sum>t\<in>UNIV. im_steps_left (im_pc s' t)) \<le> (\<Sum>t\<in>UNIV. im_steps_left (im_pc s t))"
    using assms
  proof (induction n arbitrary: s')
    case (Suc n)
    then obtain s1 where s1: "(im_step ^^ n) s s1" "im_step s1 s'" by auto
    then obtain t where "im_steps_left (im_pc s' t) < im_steps_left (im_pc s1 t)" "\<forall>x. x \<noteq> t \<longrightarrow> im_pc s' x = im_pc s1 x"
      using im_step_moves by blast
    then have "(\<Sum>t\<in>UNIV. im_steps_left (im_pc s' t)) < (\<Sum>t\<in>UNIV. im_steps_left (im_pc s1 t))"
      by (intro sum_fun_upd_less[where t = t]) auto
    with Suc.IH[OF s1(1)] show ?case by linarith
  qed simp
  moreover have "im_steps_left p \<le> 7" for p :: "'t im_pc" by (cases p) auto
  then have "(\<Sum>t\<in>UNIV. im_steps_left (im_pc s t)) \<le> (\<Sum>t\<in>(UNIV::'t set). 7)" by (intro sum_mono)
  ultimately show ?thesis by (simp add: mult.commute)
qed

lemma im_steps_bounded_witness:
  "(im_step ^^ 1) (im_goto True TlTry im_new) (im_goto True Owner ((im_goto True TlTry im_new)\<lparr>im_state := TAKEN\<rparr>)) \<and>
   (1 :: nat) \<le> 7 * card (UNIV :: bool set)"
proof -
  have "(im_step ^^ 1) (im_goto True TlTry im_new) (im_goto True Owner ((im_goto True TlTry im_new)\<lparr>im_state := TAKEN\<rparr>))"
    using im_step.try_lock[of "im_goto True TlTry im_new" True True "(im_goto True TlTry im_new)\<lparr>im_state := TAKEN\<rparr>"]
    by (simp add: im_new_def im_try_lock_def eq_OO)
  with im_steps_bounded[OF this] show ?thesis by blast
qed

end
