(* ===== verification/Buffers.thy ===== *)
theory Buffers
  imports Serverbox_Prelude
begin

text \<open>
  The buffers of \<^verbatim>\<open>net/Buffer.h\<close> and the functions on chains of them of \<^verbatim>\<open>net/Buffer.cpp\<close>, over a heap.
  A buffer is a region of memory, \<open>b_data\<close>, of \<open>b_cap\<close> bytes, of which the first \<open>b_pos\<close> are the
  data and the others are free for writing; \<open>b_data\<close> starts where \<^verbatim>\<open>myRData\<close> points. Buffers are linked
  by \<open>b_next\<close>. Reference counts are not modelled: a buffer that is dropped stays in the heap, nothing
  refers to it. Sizes are natural numbers; the 32 and 64 bit unsigned subtractions of the code are \<open>usub\<close>,
  which fails where the code would wrap around, and the theorems show that this does not happen.
\<close>

section \<open>The heap\<close>

record buffer =
  b_pos :: nat
  b_cap :: nat
  b_data :: "u8 list"
  b_next :: "nat ptr"

text \<open>
  \<open>h_top\<close> is the first address that was never used, \<open>h_junk\<close> is what new memory holds, and \<open>h_size\<close> is
  \<^verbatim>\<open>theBufferCopySize\<close>, which depends on the size of the class \<^verbatim>\<open>Buffer\<close>.
\<close>

record bheap =
  h_mem :: "nat \<Rightarrow> buffer"
  h_top :: nat
  h_junk :: "nat \<Rightarrow> nat \<Rightarrow> u8"
  h_size :: nat

definition h_put :: "nat \<Rightarrow> buffer \<Rightarrow> bheap \<Rightarrow> bheap" where
  "h_put a b h = h\<lparr>h_mem := (h_mem h)(a := b)\<rparr>"

definition set_pos :: "nat \<Rightarrow> nat \<Rightarrow> bheap \<Rightarrow> bheap" where
  "set_pos a n h = h_put a ((h_mem h a)\<lparr>b_pos := n\<rparr>) h"

definition set_next :: "nat \<Rightarrow> nat ptr \<Rightarrow> bheap \<Rightarrow> bheap" where
  "set_next a p h = h_put a ((h_mem h a)\<lparr>b_next := p\<rparr>) h"

text \<open>Moving a pointer out of \<^verbatim>\<open>myNext\<close> leaves null there.\<close>

definition take_next :: "nat \<Rightarrow> bheap \<Rightarrow> nat ptr \<times> bheap" where
  "take_next a h = (b_next (h_mem h a), set_next a None h)"

definition usub :: "nat \<Rightarrow> nat \<Rightarrow> nat option" where
  "usub m n = (if n \<le> m then Some (m - n) else None)"

text \<open>\<^verbatim>\<open>memcpy\<close> into a buffer at an offset; writing out of the region fails.\<close>

definition put_bytes :: "nat \<Rightarrow> nat \<Rightarrow> u8 list \<Rightarrow> bheap \<Rightarrow> bheap option" where
  "put_bytes a off bs h =
     (let b = h_mem h a in
      if off + length bs \<le> length (b_data b)
      then Some (h_put a (b\<lparr>b_data := take off (b_data b) @ bs @ drop (off + length bs) (b_data b)\<rparr>) h)
      else None)"

text \<open>\<^verbatim>\<open>memcpy\<close> out of a buffer.\<close>

definition get_bytes :: "nat \<Rightarrow> nat \<Rightarrow> bheap \<Rightarrow> u8 list option" where
  "get_bytes a n h = (if n \<le> length (b_data (h_mem h a)) then Some (take n (b_data (h_mem h a))) else None)"

definition h_alloc :: "buffer \<Rightarrow> bheap \<Rightarrow> nat \<times> bheap" where
  "h_alloc b h = (h_top h, (h_put (h_top h) b h)\<lparr>h_top := h_top h + 1\<rparr>)"

definition buffer_copy_new :: "bheap \<Rightarrow> nat \<times> bheap" where
  "buffer_copy_new h =
     h_alloc \<lparr>b_pos = 0, b_cap = h_size h, b_data = map (h_junk h (h_top h)) [0..<h_size h], b_next = None\<rparr> h"

definition buffer_raw_new :: "u8 list \<Rightarrow> bheap \<Rightarrow> nat \<times> bheap" where
  "buffer_raw_new bs h =
     h_alloc \<lparr>b_pos = length bs, b_cap = length bs, b_data = bs, b_next = None\<rparr> h"

definition buffer_propagate :: "nat \<Rightarrow> nat \<Rightarrow> bheap \<Rightarrow> bheap option" where
  "buffer_propagate a n h = do {
     let b = h_mem h a;
     mg_assert (b_pos b \<ge> n);
     mg_assert (b_pos b \<le> b_cap b);
     Some (h_put a (b\<lparr>b_pos := b_pos b - n, b_cap := b_cap b - n, b_data := drop n (b_data b)\<rparr>) h) }"

section \<open>Functions on chains\<close>

partial_function (option) propagate_on_write :: "nat ptr \<Rightarrow> nat \<Rightarrow> bheap \<Rightarrow> (nat ptr \<times> bheap) option" where
  "propagate_on_write head n h =
     (if n = 0 then Some (head, h)
      else do {
        a \<leftarrow> head;
        cap \<leftarrow> usub (b_cap (h_mem h a)) (b_pos (h_mem h a));
        if cap > n then Some (Some a, set_pos a (b_pos (h_mem h a) + n) h)
        else do {
          let h1 = set_pos a (b_cap (h_mem h a)) h;
          if cap = n then Some (Some a, h1)
          else propagate_on_write (b_next (h_mem h1 a)) (n - cap) h1 } })"

partial_function (option) propagate_on_read :: "nat ptr \<Rightarrow> nat \<Rightarrow> bheap \<Rightarrow> (nat ptr \<times> bheap) option" where
  "propagate_on_read head n h =
     (if n = 0 then Some (head, h)
      else do {
        a \<leftarrow> head;
        if b_pos (h_mem h a) \<ge> n then do {
          h1 \<leftarrow> buffer_propagate a n h;
          if b_pos (h_mem h1 a) = 0 \<and> b_cap (h_mem h1 a) = 0 then Some (take_next a h1) else Some (Some a, h1) }
        else do {
          let n1 = n - b_pos (h_mem h a);
          let (next, h1) = take_next a h;
          propagate_on_read next n1 h1 } })"

text \<open>\<^verbatim>\<open>BuffersCopyAppend\<close> with its loop over new buffers.\<close>

partial_function (option) copy_append_loop :: "nat \<Rightarrow> u8 list \<Rightarrow> bheap \<Rightarrow> (nat \<times> bheap) option" where
  "copy_append_loop a data h = do {
     let (a1, h1) = buffer_copy_new h;
     let h2 = set_next a (Some a1) h1;
     let cap = (if length data > h_size h2 then h_size h2 else length data);
     let h3 = set_pos a1 cap h2;
     h4 \<leftarrow> put_bytes a1 0 (take cap data) h3;
     let rest = drop cap data;
     if rest \<noteq> [] then copy_append_loop a1 rest h4 else Some (a1, h4) }"

definition copy_append :: "nat \<Rightarrow> u8 list \<Rightarrow> bheap \<Rightarrow> (nat \<times> bheap) option" where
  "copy_append a data h =
     (if data = [] then Some (a, h)
      else do {
        let pos = b_pos (h_mem h a);
        cap \<leftarrow> usub (b_cap (h_mem h a)) pos;
        if cap \<ge> length data then do {
          h1 \<leftarrow> put_bytes a pos data h;
          Some (a, set_pos a (pos + length data) h1) }
        else do {
          h1 \<leftarrow> put_bytes a pos (take cap data) h;
          let h2 = set_pos a (b_cap (h_mem h1 a)) h1;
          copy_append_loop a (drop cap data) h2 } })"

definition buffers_copy :: "u8 list \<Rightarrow> bheap \<Rightarrow> (nat ptr \<times> bheap) option" where
  "buffers_copy data h =
     (if data = [] then Some (None, h)
      else do {
        let (res, h1) = buffer_copy_new h;
        (_, h2) \<leftarrow> copy_append res data h1;
        Some (Some res, h2) })"

text \<open>\<^verbatim>\<open>BuffersCopy\<close> of a chain: skip the empty prefix, then copy buffer by buffer.\<close>

partial_function (option) skip_empty :: "bheap \<Rightarrow> nat ptr \<Rightarrow> (nat ptr) option" where
  "skip_empty h head =
     (case head of None \<Rightarrow> Some None
      | Some a \<Rightarrow> if b_pos (h_mem h a) = 0 then skip_empty h (b_next (h_mem h a)) else Some (Some a))"

partial_function (option) copy_chain_loop :: "nat \<Rightarrow> nat ptr \<Rightarrow> bheap \<Rightarrow> (nat \<times> bheap) option" where
  "copy_chain_loop tail head h =
     (case head of None \<Rightarrow> Some (tail, h)
      | Some a \<Rightarrow> do {
          bs \<leftarrow> get_bytes a (b_pos (h_mem h a)) h;
          (tail1, h1) \<leftarrow> copy_append tail bs h;
          copy_chain_loop tail1 (b_next (h_mem h1 a)) h1 })"

definition buffers_copy_chain :: "nat ptr \<Rightarrow> bheap \<Rightarrow> (nat ptr \<times> bheap) option" where
  "buffers_copy_chain head h = do {
     start \<leftarrow> skip_empty h head;
     case start of None \<Rightarrow> Some (None, h)
     | Some a \<Rightarrow> do {
         let (res, h1) = buffer_copy_new h;
         (_, h2) \<leftarrow> copy_chain_loop res (Some a) h1;
         Some (Some res, h2) } }"

definition UINT32_MAX :: nat where "UINT32_MAX = 2 ^ 32 - 1"

partial_function (option) buffers_ref_loop :: "nat \<Rightarrow> u8 list \<Rightarrow> bheap \<Rightarrow> bheap option" where
  "buffers_ref_loop tail data h =
     (if length data > UINT32_MAX
      then let (a, h1) = buffer_raw_new (take UINT32_MAX data) h
           in buffers_ref_loop a (drop UINT32_MAX data) (set_next tail (Some a) h1)
      else do {
        mg_assert (length data > 0);
        let (a, h1) = buffer_raw_new data h;
        Some (set_next tail (Some a) h1) })"

definition buffers_ref :: "u8 list \<Rightarrow> bheap \<Rightarrow> (nat ptr \<times> bheap) option" where
  "buffers_ref data h =
     (if length data \<le> UINT32_MAX
      then if data = [] then Some (None, h)
           else let (a, h1) = buffer_raw_new data h in Some (Some a, h1)
      else do {
        let (res, h1) = buffer_raw_new (take UINT32_MAX data) h;
        h2 \<leftarrow> buffers_ref_loop res (drop UINT32_MAX data) h1;
        Some (Some res, h2) })"

text \<open>A vector of the operating system: a buffer, an offset in it, and a size.\<close>

record iovec =
  iov_buf :: "nat ptr"
  iov_off :: nat
  iov_size :: nat

partial_function (option) iovecs_for_write_loop ::
  "bheap \<Rightarrow> nat ptr \<Rightarrow> nat \<Rightarrow> nat \<Rightarrow> iovec list \<Rightarrow> (nat \<times> iovec list) option" where
  "iovecs_for_write_loop h head off lim vecs =
     (case head of None \<Rightarrow> Some (off, vecs)
      | Some a \<Rightarrow>
          if length vecs < lim then
            if b_pos (h_mem h a) = 0 then iovecs_for_write_loop h (b_next (h_mem h a)) off lim vecs
            else do {
              mg_assert (off < b_pos (h_mem h a));
              iovecs_for_write_loop h (b_next (h_mem h a)) 0 lim
                (vecs @ [\<lparr>iov_buf = Some a, iov_off = off, iov_size = b_pos (h_mem h a) - off\<rparr>]) }
          else Some (off, vecs))"

definition iovecs_for_write :: "bheap \<Rightarrow> nat ptr \<Rightarrow> nat \<Rightarrow> nat \<Rightarrow> iovec list option" where
  "iovecs_for_write h head off lim = map_option snd (iovecs_for_write_loop h head off lim [])"

partial_function (option) iovecs_for_read_loop :: "bheap \<Rightarrow> nat ptr \<Rightarrow> nat \<Rightarrow> iovec list \<Rightarrow> iovec list option" where
  "iovecs_for_read_loop h head lim vecs =
     (case head of None \<Rightarrow> Some vecs
      | Some a \<Rightarrow>
          if length vecs < lim then do {
            mg_assert (b_pos (h_mem h a) = 0);
            mg_assert (b_cap (h_mem h a) > 0);
            iovecs_for_read_loop h (b_next (h_mem h a)) lim
              (vecs @ [\<lparr>iov_buf = Some a, iov_off = 0, iov_size = b_cap (h_mem h a)\<rparr>]) }
          else Some vecs)"

definition iovecs_for_read :: "bheap \<Rightarrow> nat ptr \<Rightarrow> nat \<Rightarrow> iovec list option" where
  "iovecs_for_read h head lim = do {
     a \<leftarrow> head;
     let b = h_mem h a;
     mg_assert (b_cap b > b_pos b);
     iovecs_for_read_loop h (b_next b) lim [\<lparr>iov_buf = Some a, iov_off = b_pos b, iov_size = b_cap b - b_pos b\<rparr>] }"


section \<open>Chains and their contents\<close>

definition readable :: "buffer \<Rightarrow> u8 list" where
  "readable b = take (b_pos b) (b_data b)"

definition room :: "buffer \<Rightarrow> nat" where
  "room b = b_cap b - b_pos b"

definition buf_ok :: "buffer \<Rightarrow> bool" where
  "buf_ok b = (length (b_data b) = b_cap b \<and> b_pos b \<le> b_cap b)"

definition nexts_of :: "bheap \<Rightarrow> nat \<Rightarrow> nat ptr" where
  "nexts_of h a = b_next (h_mem h a)"

definition chain :: "bheap \<Rightarrow> nat list \<Rightarrow> bool" where
  "chain h as = (distinct as \<and> lchain (nexts_of h) as None \<and> (\<forall>a \<in> set as. a < h_top h \<and> buf_ok (h_mem h a)))"

definition content :: "bheap \<Rightarrow> nat list \<Rightarrow> u8 list" where
  "content h as = concat (map (\<lambda>a. readable (h_mem h a)) as)"

text \<open>Nothing but buffers of the list changed, and new ones may have been allocated.\<close>

definition h_frame :: "bheap \<Rightarrow> nat set \<Rightarrow> bheap \<Rightarrow> bool" where
  "h_frame h A h' = (h_top h \<le> h_top h' \<and> h_junk h' = h_junk h \<and> h_size h' = h_size h \<and>
     (\<forall>a. a \<notin> A \<longrightarrow> a < h_top h \<longrightarrow> h_mem h' a = h_mem h a))"

lemma length_readable [simp]: "buf_ok b \<Longrightarrow> length (readable b) = b_pos b"
  by (simp add: readable_def buf_ok_def)

lemma content_simps [simp]:
  "content h [] = []" "content h (a # as) = readable (h_mem h a) @ content h as"
  "content h (as @ bs) = content h as @ content h bs"
  by (simp_all add: content_def)

lemma content_cong: "(\<And>a. a \<in> set as \<Longrightarrow> h_mem h' a = h_mem h a) \<Longrightarrow> content h' as = content h as"
  by (induction as) auto

lemma chain_cong:
  assumes "chain h as" and "\<And>a. a \<in> set as \<Longrightarrow> h_mem h' a = h_mem h a" and "h_top h \<le> h_top h'"
  shows "chain h' as"
proof -
  have "lchain (nexts_of h') as None = lchain (nexts_of h) as None"
    using assms(2) by (intro lchain_cong) (simp add: nexts_of_def)
  then show ?thesis using assms by (auto simp: chain_def)
qed

lemma h_frame_refl [simp]: "h_frame h A h"
  by (simp add: h_frame_def)

lemma h_frame_trans: "h_frame h A h1 \<Longrightarrow> h_frame h1 A h2 \<Longrightarrow> h_frame h A h2"
  by (fastforce simp: h_frame_def)

lemma h_frame_mono: "h_frame h A h' \<Longrightarrow> A \<subseteq> B \<Longrightarrow> h_frame h B h'"
  by (auto simp: h_frame_def)

lemma h_frameD: "h_frame h A h' \<Longrightarrow> a \<notin> A \<Longrightarrow> a < h_top h \<Longrightarrow> h_mem h' a = h_mem h a"
  by (simp add: h_frame_def)

lemma chain_frame: "chain h as \<Longrightarrow> h_frame h A h' \<Longrightarrow> set as \<inter> A = {} \<Longrightarrow> chain h' as \<and> content h' as = content h as"
  using chain_cong[of h as h'] content_cong[of as h' h] by (auto simp: chain_def h_frame_def)

lemma h_put_sel [simp]:
  "h_mem (h_put a b h) = (h_mem h)(a := b)" "h_top (h_put a b h) = h_top h"
  "h_junk (h_put a b h) = h_junk h" "h_size (h_put a b h) = h_size h"
  by (simp_all add: h_put_def)

lemmas h_upd = set_pos_def set_next_def take_next_def

lemma h_set_sel [simp]:
  "h_top (set_pos a n h) = h_top h" "h_junk (set_pos a n h) = h_junk h" "h_size (set_pos a n h) = h_size h"
  "h_top (set_next a p h) = h_top h" "h_junk (set_next a p h) = h_junk h" "h_size (set_next a p h) = h_size h"
  by (simp_all add: h_upd)

lemma h_set_mem:
  "h_mem (set_pos a n h) = (h_mem h)(a := (h_mem h a)\<lparr>b_pos := n\<rparr>)"
  "h_mem (set_next a p h) = (h_mem h)(a := (h_mem h a)\<lparr>b_next := p\<rparr>)"
  by (simp_all add: h_upd)

lemma h_frame_put [simp]: "a \<in> A \<Longrightarrow> h_frame h A (h_put a b h)"
  by (simp add: h_frame_def)

lemma nexts_of_put [simp]: "nexts_of (h_put a b h) = (nexts_of h)(a := b_next b)"
  by (auto simp: nexts_of_def)

lemma nexts_of_top [simp]: "nexts_of (h\<lparr>h_top := n\<rparr>) = nexts_of h"
  by (auto simp: nexts_of_def)

lemma chain_simps1 [simp]: "chain h []"
  by (simp add: chain_def)

lemma chain_ConsD: "chain h (a # as) \<Longrightarrow> chain h as \<and> b_next (h_mem h a) = first_or as None \<and> a \<notin> set as \<and>
    a < h_top h \<and> buf_ok (h_mem h a)"
  by (auto simp: chain_def nexts_of_def)

lemma chain_ConsI: "chain h as \<Longrightarrow> b_next (h_mem h a) = first_or as None \<Longrightarrow> a \<notin> set as \<Longrightarrow>
    a < h_top h \<Longrightarrow> buf_ok (h_mem h a) \<Longrightarrow> chain h (a # as)"
  by (auto simp: chain_def nexts_of_def)

lemma chain_appendD2: "chain h (as @ bs) \<Longrightarrow> chain h bs"
  by (auto simp: chain_def)

text \<open>Cutting a chain in two, and joining two chains.\<close>

lemma chain_cut:
  assumes "chain h (as @ a # bs)" and "b_data b = b_data (h_mem h a)" "b_pos b = b_pos (h_mem h a)" "b_cap b = b_cap (h_mem h a)"
    and "b_next b = None"
  shows "chain (h_put a b h) (as @ [a])" and "chain (h_put a b h) bs"
    and "content (h_put a b h) (as @ [a]) = content h (as @ [a])" and "content (h_put a b h) bs = content h bs"
proof -
  have d: "a \<notin> set as" "a \<notin> set bs" using assms(1) by (auto simp: chain_def)
  show "chain (h_put a b h) (as @ [a])" "chain (h_put a b h) bs"
    using assms d by (auto simp: chain_def buf_ok_def)
  have "content (h_put a b h) as = content h as" "content (h_put a b h) bs = content h bs"
    using d by (auto intro!: content_cong)
  then show "content (h_put a b h) (as @ [a]) = content h (as @ [a])" "content (h_put a b h) bs = content h bs"
    using assms(2,3) by (auto simp: readable_def)
qed

lemma chain_join:
  assumes "chain h (as @ [a])" and "chain h bs" and "set (as @ [a]) \<inter> set bs = {}"
  shows "chain (set_next a (first_or bs None) h) (as @ a # bs)"
    and "content (set_next a (first_or bs None) h) (as @ a # bs) = content h (as @ a # bs)"
proof -
  have d: "a \<notin> set as" "a \<notin> set bs" using assms by (auto simp: chain_def)
  show "chain (set_next a (first_or bs None) h) (as @ a # bs)"
    using assms d by (auto simp: chain_def set_next_def buf_ok_def)
  have "content (set_next a (first_or bs None) h) as = content h as"
    "content (set_next a (first_or bs None) h) bs = content h bs"
    using d by (auto intro!: content_cong simp: set_next_def)
  then show "content (set_next a (first_or bs None) h) (as @ a # bs) = content h (as @ a # bs)"
    by (simp add: set_next_def readable_def)
qed

section \<open>The functions on chains\<close>

lemma h_alloc_sel:
  assumes "h_alloc b h = (a, h')"
  shows "a = h_top h" "h_mem h' = (h_mem h)(a := b)" "h_top h' = h_top h + 1" "h_frame h A h'"
  using assms by (auto simp: h_alloc_def h_frame_def)

text \<open>Growing positions: the write buffers are filled in order up to the one where the last byte goes.\<close>

lemma propagate_on_write_ok:
  assumes "chain h as" and "0 < n" and "n \<le> (\<Sum>a\<leftarrow>as. room (h_mem h a))"
  shows "\<exists>us r vs k h'. as = us @ r # vs \<and> propagate_on_write (first_or as None) n h = Some (Some r, h') \<and>
    n = (\<Sum>a\<leftarrow>us. room (h_mem h a)) + k \<and> 0 < k \<and> k \<le> room (h_mem h r) \<and>
    h' = h\<lparr>h_mem := \<lambda>x. if x \<in> set us then (h_mem h x)\<lparr>b_pos := b_cap (h_mem h x)\<rparr>
                     else if x = r then (h_mem h r)\<lparr>b_pos := b_pos (h_mem h r) + k\<rparr> else h_mem h x\<rparr>"
  using assms
proof (induction as arbitrary: n h)
  case Nil
  then show ?case by simp
next
  case (Cons a as)
  note c = chain_ConsD[OF Cons.prems(1)]
  have ok: "b_pos (h_mem h a) \<le> b_cap (h_mem h a)" using c by (simp add: buf_ok_def)
  show ?case
  proof (cases "n \<le> room (h_mem h a)")
    case True
    let ?h' = "set_pos a (b_pos (h_mem h a) + n) h"
    have "propagate_on_write (Some a) n h = Some (Some a, ?h')"
      using True Cons.prems(2) ok
      by (subst propagate_on_write.simps) (auto simp: usub_def room_def le_less)
    moreover have "?h' = h\<lparr>h_mem := \<lambda>x. if x = a then (h_mem h a)\<lparr>b_pos := b_pos (h_mem h a) + n\<rparr> else h_mem h x\<rparr>"
      by (auto simp: set_pos_def h_put_def fun_eq_iff)
    ultimately show ?thesis
      using True Cons.prems(2)
      by (intro exI[where x = "[]"] exI[where x = a] exI[where x = as] exI[where x = n] exI[where x = ?h']) simp
  next
    case False
    let ?m = "n - room (h_mem h a)" and ?h1 = "set_pos a (b_cap (h_mem h a)) h"
    have eq: "propagate_on_write (Some a) n h = propagate_on_write (first_or as None) ?m ?h1"
      using False Cons.prems(2) ok c
      by (subst propagate_on_write.simps) (simp add: usub_def room_def set_pos_def)
    have same: "h_mem ?h1 x = h_mem h x" if "x \<in> set as" for x using that c by (auto simp: set_pos_def)
    have c1: "chain ?h1 as" by (rule chain_cong[OF conjunct1[OF c] same]) (simp_all add: set_pos_def)
    have "(\<Sum>x\<leftarrow>as. room (h_mem ?h1 x)) = (\<Sum>x\<leftarrow>as. room (h_mem h x))"
      by (rule arg_cong[OF map_cong[OF refl]]) (simp only: same)
    then have le: "0 < ?m" "?m \<le> (\<Sum>x\<leftarrow>as. room (h_mem ?h1 x))" using False Cons.prems(3) by simp_all
    obtain us r vs k h2 where R: "as = us @ r # vs" "propagate_on_write (first_or as None) ?m ?h1 = Some (Some r, h2)"
      "?m = (\<Sum>x\<leftarrow>us. room (h_mem ?h1 x)) + k" "0 < k" "k \<le> room (h_mem ?h1 r)"
      "h2 = ?h1\<lparr>h_mem := \<lambda>x. if x \<in> set us then (h_mem ?h1 x)\<lparr>b_pos := b_cap (h_mem ?h1 x)\<rparr>
                     else if x = r then (h_mem ?h1 r)\<lparr>b_pos := b_pos (h_mem ?h1 r) + k\<rparr> else h_mem ?h1 x\<rparr>"
      using Cons.IH[OF c1 le] by blast
    have m: "map (\<lambda>x. room (h_mem ?h1 x)) us = map (\<lambda>x. room (h_mem h x)) us" "h_mem ?h1 r = h_mem h r"
      using same R(1) by simp_all
    have "h2 =
          h\<lparr>h_mem := \<lambda>x. if x \<in> set (a # us) then (h_mem h x)\<lparr>b_pos := b_cap (h_mem h x)\<rparr>
                     else if x = r then (h_mem h r)\<lparr>b_pos := b_pos (h_mem h r) + k\<rparr> else h_mem h x\<rparr>"
      using c R(1) unfolding R(6) by (auto simp: set_pos_def h_put_def fun_eq_iff)
    then show ?thesis
      using R(1-5) m eq False
      by (intro exI[where x = "a # us"] exI[where x = r] exI[where x = vs] exI[where x = k]) simp
  qed
qed

text \<open>Reading: the buffers that are read to the end are unlinked, the one where the data ends shrinks.\<close>

definition shrunk :: "nat \<Rightarrow> buffer \<Rightarrow> buffer" where
  "shrunk k b = b\<lparr>b_pos := b_pos b - k, b_cap := b_cap b - k, b_data := drop k (b_data b)\<rparr>"

lemma shrunk_sel [simp]:
  "b_pos (shrunk k b) = b_pos b - k" "b_cap (shrunk k b) = b_cap b - k" "b_data (shrunk k b) = drop k (b_data b)"
  "b_next (shrunk k b) = b_next b" "shrunk 0 b = b"
  by (simp_all add: shrunk_def)

lemma buf_ok_shrunk: "buf_ok b \<Longrightarrow> k \<le> b_pos b \<Longrightarrow> buf_ok (shrunk k b)"
  by (auto simp: buf_ok_def)

lemma readable_shrunk: "k \<le> b_pos b \<Longrightarrow> readable (shrunk k b) = drop k (readable b)"
  by (simp add: readable_def drop_take)

lemma propagate_on_read_ok:
  assumes "chain h as" and "0 < n" and "n \<le> (\<Sum>a\<leftarrow>as. b_pos (h_mem h a))"
  shows "\<exists>us r vs k h'. as = us @ r # vs \<and> n = (\<Sum>a\<leftarrow>us. b_pos (h_mem h a)) + k \<and> 0 < k \<and> k \<le> b_pos (h_mem h r) \<and>
    propagate_on_read (first_or as None) n h =
      Some (if b_cap (h_mem h r) = k then first_or vs None else Some r, h') \<and>
    h' = h\<lparr>h_mem := \<lambda>x. if x \<in> set us then (h_mem h x)\<lparr>b_next := None\<rparr>
                     else if x = r then (shrunk k (h_mem h r))\<lparr>b_next := if b_cap (h_mem h r) = k then None else b_next (h_mem h r)\<rparr>
                     else h_mem h x\<rparr>"
  using assms
proof (induction as arbitrary: n h)
  case Nil
  then show ?case by simp
next
  case (Cons a as)
  note c = chain_ConsD[OF Cons.prems(1)]
  have ok: "b_pos (h_mem h a) \<le> b_cap (h_mem h a)" using c by (simp add: buf_ok_def)
  show ?case
  proof (cases "n \<le> b_pos (h_mem h a)")
    case True
    let ?b = "(shrunk n (h_mem h a))\<lparr>b_next := if b_cap (h_mem h a) = n then None else b_next (h_mem h a)\<rparr>"
    have p: "buffer_propagate a n h = Some (h_put a (shrunk n (h_mem h a)) h)"
      using True ok by (simp add: buffer_propagate_def shrunk_def Let_def)
    have e: "(shrunk n (h_mem h a))\<lparr>b_next := b_next (h_mem h a)\<rparr> = shrunk n (h_mem h a)" by (simp add: shrunk_def)
    have "propagate_on_read (Some a) n h =
        Some (if b_cap (h_mem h a) = n then b_next (h_mem h a) else Some a, h\<lparr>h_mem := (h_mem h)(a := ?b)\<rparr>)"
      using True Cons.prems(2) ok
      by (subst propagate_on_read.simps) (auto simp: p e take_next_def set_next_def h_put_def)
    then have "propagate_on_read (Some a) n h =
        Some (if b_cap (h_mem h a) = n then first_or as None else Some a, h\<lparr>h_mem := (h_mem h)(a := ?b)\<rparr>)"
      using c by simp
    moreover have "h\<lparr>h_mem := (h_mem h)(a := ?b)\<rparr> = h\<lparr>h_mem := \<lambda>x. if x = a then ?b else h_mem h x\<rparr>"
      by (simp add: fun_upd_def)
    ultimately show ?thesis
      using True Cons.prems(2)
      by (intro exI[where x = "[]"] exI[where x = a] exI[where x = as] exI[where x = n]) simp
  next
    case False
    let ?m = "n - b_pos (h_mem h a)" and ?h1 = "set_next a None h"
    have eq: "propagate_on_read (Some a) n h = propagate_on_read (first_or as None) ?m ?h1"
      using False Cons.prems(2) c by (subst propagate_on_read.simps) (simp add: take_next_def)
    have same: "h_mem ?h1 x = h_mem h x" if "x \<in> set as" for x using that c by (auto simp: set_next_def)
    have c1: "chain ?h1 as" by (rule chain_cong[OF conjunct1[OF c] same]) (simp_all add: set_next_def)
    have "(\<Sum>x\<leftarrow>as. b_pos (h_mem ?h1 x)) = (\<Sum>x\<leftarrow>as. b_pos (h_mem h x))"
      by (rule arg_cong[OF map_cong[OF refl]]) (simp only: same)
    then have le: "0 < ?m" "?m \<le> (\<Sum>x\<leftarrow>as. b_pos (h_mem ?h1 x))" using False Cons.prems(3) by simp_all
    obtain us r vs k h2 where R: "as = us @ r # vs" "?m = (\<Sum>x\<leftarrow>us. b_pos (h_mem ?h1 x)) + k" "0 < k" "k \<le> b_pos (h_mem ?h1 r)"
      "propagate_on_read (first_or as None) ?m ?h1 =
         Some (if b_cap (h_mem ?h1 r) = k then first_or vs None else Some r, h2)"
      "h2 = ?h1\<lparr>h_mem := \<lambda>x. if x \<in> set us then (h_mem ?h1 x)\<lparr>b_next := None\<rparr>
                     else if x = r then (shrunk k (h_mem ?h1 r))\<lparr>b_next := if b_cap (h_mem ?h1 r) = k then None else b_next (h_mem ?h1 r)\<rparr>
                     else h_mem ?h1 x\<rparr>"
      using Cons.IH[OF c1 le] by blast
    have m: "map (\<lambda>x. b_pos (h_mem ?h1 x)) us = map (\<lambda>x. b_pos (h_mem h x)) us" "h_mem ?h1 r = h_mem h r"
      using same R(1) by simp_all
    have "h2 = h\<lparr>h_mem := \<lambda>x. if x \<in> set (a # us) then (h_mem h x)\<lparr>b_next := None\<rparr>
                     else if x = r then (shrunk k (h_mem h r))\<lparr>b_next := if b_cap (h_mem h r) = k then None else b_next (h_mem h r)\<rparr>
                     else h_mem h x\<rparr>"
      using c R(1) unfolding R(6) by (auto simp: set_next_def h_put_def fun_eq_iff)
    then show ?thesis
      using R(1-5) m eq False
      by (intro exI[where x = "a # us"] exI[where x = r] exI[where x = vs] exI[where x = k]) simp
  qed
qed

text \<open>Copying bytes into buffers.\<close>

lemma put_bytes_ok:
  assumes "buf_ok (h_mem h a)" and "off + length bs \<le> b_cap (h_mem h a)"
  shows "put_bytes a off bs h =
    Some (h_put a ((h_mem h a)\<lparr>b_data := take off (b_data (h_mem h a)) @ bs @ drop (off + length bs) (b_data (h_mem h a))\<rparr>) h)"
  using assms by (simp add: put_bytes_def buf_ok_def Let_def)

lemma copy_append_loop_ok:
  assumes "chain h (as @ [a])" and "data \<noteq> []" and "h_size h > 0"
  shows "\<exists>cs t h'. copy_append_loop a data h = Some (t, h') \<and> chain h' (as @ a # cs) \<and> t = last cs \<and> cs \<noteq> [] \<and>
    content h' (as @ a # cs) = content h (as @ [a]) @ data \<and> h_frame h {a} h' \<and>
    (\<forall>c \<in> set cs. h_top h \<le> c \<and> 0 < b_pos (h_mem h' c)) \<and>
    b_pos (h_mem h' a) = b_pos (h_mem h a) \<and> b_cap (h_mem h' a) = b_cap (h_mem h a)"
  using assms
proof (induction "length data" arbitrary: as a data h rule: less_induct)
  case less
  define a1 where "a1 = h_top h"
  define cap where "cap = min (length data) (h_size h)"
  define junk where "junk = map (h_junk h a1) [0..<h_size h]"
  define new where "new = \<lparr>b_pos = cap, b_cap = h_size h, b_data = take cap data @ drop cap junk, b_next = None\<rparr>"
  define h4 where "h4 = (h_put a1 new (h_put a ((h_mem h a)\<lparr>b_next := Some a1\<rparr>) h))\<lparr>h_top := h_top h + 1\<rparr>"
  have cap: "0 < cap" "cap \<le> h_size h" "cap \<le> length data" using less.prems by (auto simp: cap_def)
  have c: "a < a1" "\<forall>x \<in> set as. x < a1" "a \<notin> set as" "buf_ok (h_mem h a)" "distinct as"
    using less.prems(1) by (auto simp: chain_def a1_def)
  have step: "copy_append_loop a data h = (if drop cap data \<noteq> [] then copy_append_loop a1 (drop cap data) h4 else Some (a1, h4))"
  proof -
    let ?h1 = "(h_put a1 \<lparr>b_pos = 0, b_cap = h_size h, b_data = junk, b_next = None\<rparr> h)\<lparr>h_top := h_top h + 1\<rparr>"
    let ?h3 = "set_pos a1 cap (set_next a (Some a1) ?h1)"
    have "put_bytes a1 0 (take cap data) ?h3 = Some h4"
      using c cap by (auto simp: put_bytes_def h_upd new_def h4_def junk_def h_put_def fun_upd_def fun_eq_iff)
    moreover have "buffer_copy_new h = (a1, ?h1)"
      by (simp add: buffer_copy_new_def h_alloc_def a1_def junk_def)
    moreover have "(if h_size h < length data then h_size h else length data) = cap"
      by (simp add: cap_def)
    moreover have "cap = length data \<or> cap < length data" using cap(3) by auto
    ultimately show ?thesis by (subst copy_append_loop.simps) (auto simp: Let_def)
  qed
  have ok: "buf_ok new" using cap by (auto simp: new_def buf_ok_def junk_def)
  have ch: "chain h4 (as @ [a, a1])"
  proof -
    have "a1 < h_top h + 1" by (simp add: a1_def)
    then show ?thesis using less.prems(1) c ok by (auto simp: chain_def h4_def new_def buf_ok_def)
  qed
  have ct: "content h4 (as @ [a, a1]) = content h (as @ [a]) @ take cap data"
  proof -
    have "content h4 as = content h as" using c by (auto intro!: content_cong simp: h4_def)
    then show ?thesis using c cap by (simp add: h4_def new_def readable_def)
  qed
  have fr: "h_frame h {a} h4" using c by (auto simp: h_frame_def h4_def a1_def)
  have pa: "b_pos (h_mem h4 a) = b_pos (h_mem h a)" "b_cap (h_mem h4 a) = b_cap (h_mem h a)" "h_size h4 = h_size h"
      "b_pos (h_mem h4 a1) = cap" "h_top h4 = a1 + 1"
    using c by (auto simp: h4_def new_def a1_def)
  show ?case
  proof (cases "drop cap data = []")
    case True
    then show ?thesis
      using step ch ct fr pa cap a1_def by (intro exI[where x = "[a1]"] exI[where x = a1] exI[where x = h4]) simp
  next
    case False
    have "length (drop cap data) < length data" using cap less.prems(2) by simp
    moreover have "chain h4 ((as @ [a]) @ [a1])" using ch by simp
    ultimately obtain cs t h' where R: "copy_append_loop a1 (drop cap data) h4 = Some (t, h')"
      "chain h' ((as @ [a]) @ a1 # cs)" "t = last cs" "cs \<noteq> []"
      "content h' ((as @ [a]) @ a1 # cs) = content h4 ((as @ [a]) @ [a1]) @ drop cap data" "h_frame h4 {a1} h'"
      "\<forall>c \<in> set cs. h_top h4 \<le> c \<and> 0 < b_pos (h_mem h' c)" "b_pos (h_mem h' a1) = b_pos (h_mem h4 a1)"
      using less.hyps[of "drop cap data" h4 "as @ [a]" a1] False less.prems(3) pa(3) by auto
    have "h_mem h' a = h_mem h4 a" using h_frameD[OF R(6), of a] c pa by simp
    moreover have "h_frame h {a} h'"
      using fr R(6) c by (auto simp: h_frame_def h4_def a1_def)
    moreover have "content h' (as @ a # a1 # cs) = content h (as @ [a]) @ data"
    proof -
      have "content h' (as @ a # a1 # cs) = content h4 (as @ [a, a1]) @ drop cap data" using R(5) by simp
      also have "\<dots> = content h (as @ [a]) @ take cap data @ drop cap data" unfolding ct by (simp only: append_assoc)
      finally show ?thesis by simp
    qed
    moreover have "copy_append_loop a data h = Some (t, h')" using step False R(1) by simp
    moreover have "chain h' (as @ a # a1 # cs)" using R(2) by simp
    moreover have "\<forall>c \<in> set (a1 # cs). h_top h \<le> c \<and> 0 < b_pos (h_mem h' c)"
      using R(7,8) pa cap(1) a1_def by auto
    moreover have "t = last (a1 # cs)" using R(3,4) by simp
    ultimately show ?thesis using pa by (metis list.distinct(1))
  qed
qed

lemma copy_append_ok:
  assumes "chain h (as @ [a])" and "h_size h > 0"
  shows "\<exists>cs t h'. copy_append a data h = Some (t, h') \<and> chain h' (as @ a # cs) \<and> t = last (a # cs) \<and>
    content h' (as @ a # cs) = content h (as @ [a]) @ data \<and> h_frame h {a} h' \<and>
    (\<forall>c \<in> set cs. h_top h \<le> c \<and> 0 < b_pos (h_mem h' c)) \<and> b_pos (h_mem h a) \<le> b_pos (h_mem h' a) \<and>
    (data \<noteq> [] \<and> 0 < room (h_mem h a) \<longrightarrow> 0 < b_pos (h_mem h' a))"
proof (cases "data = []")
  case True
  then show ?thesis
    using assms(1)
    by (intro exI[where x = "[]"] exI[where x = a] exI[where x = h]) (simp add: copy_append_def)
next
  case False
  let ?b = "h_mem h a"
  have ok: "buf_ok ?b" "a \<notin> set as" "length (b_data ?b) = b_cap ?b" "b_pos ?b \<le> b_cap ?b"
    using assms(1) by (auto simp: chain_def buf_ok_def)
  define cap where "cap = room ?b"
  define n where "n = min cap (length data)"
  define h1 where "h1 = h_put a (?b\<lparr>b_data := take (b_pos ?b) (b_data ?b) @ take n data @ drop (b_pos ?b + n) (b_data ?b),
      b_pos := b_pos ?b + n\<rparr>) h"
  have n: "b_pos ?b + n \<le> b_cap ?b" "length (take n data) = n" using ok by (auto simp: n_def cap_def room_def)
  have "b_next ?b = None" using assms(1) by (auto simp: chain_def nexts_of_def)
  then have ch: "chain h1 (as @ [a])" using assms(1) ok n by (auto simp: chain_def h1_def buf_ok_def)
  have ct: "content h1 (as @ [a]) = content h (as @ [a]) @ take n data"
  proof -
    have "content h1 as = content h as" using ok(2) by (auto intro!: content_cong simp: h1_def)
    then show ?thesis using ok n by (simp add: h1_def readable_def)
  qed
  have fr: "h_frame h {a} h1" by (simp add: h1_def)
  have pa: "b_pos (h_mem h1 a) = b_pos ?b + n" "h_size h1 = h_size h" "h_top h1 = h_top h" by (simp_all add: h1_def)
  have u: "usub (b_cap ?b) (b_pos ?b) = Some cap" using ok by (simp add: usub_def cap_def room_def)
  have put: "put_bytes a (b_pos ?b) (take n data) h =
      Some (h_put a (?b\<lparr>b_data := take (b_pos ?b) (b_data ?b) @ take n data @ drop (b_pos ?b + n) (b_data ?b)\<rparr>) h)"
    using put_bytes_ok[OF ok(1), of "b_pos ?b" "take n data"] n by simp
  show ?thesis
  proof (cases "length data \<le> cap")
    case True
    then have "n = length data" by (simp add: n_def)
    moreover have "copy_append a data h = Some (a, h1)"
      using True False put u \<open>n = length data\<close> by (simp add: copy_append_def Let_def h1_def h_upd h_put_def)
    ultimately show ?thesis
      using ch ct fr pa False
      by (intro exI[where x = "[]"] exI[where x = a] exI[where x = h1]) auto
  next
    case False
    then have nc: "n = cap" by (simp add: n_def)
    have full: "b_pos ?b + n = b_cap ?b" using ok nc by (simp add: cap_def room_def)
    have "copy_append a data h = copy_append_loop a (drop n data) h1"
      using False \<open>data \<noteq> []\<close> put u full
      by (simp add: copy_append_def Let_def h1_def h_upd h_put_def nc [symmetric])
    moreover have "drop n data \<noteq> []" using False nc by simp
    ultimately obtain cs t h' where R: "copy_append a data h = Some (t, h')" "chain h' (as @ a # cs)" "t = last cs" "cs \<noteq> []"
      "content h' (as @ a # cs) = content h1 (as @ [a]) @ drop n data" "h_frame h1 {a} h'"
      "\<forall>c \<in> set cs. h_top h1 \<le> c \<and> 0 < b_pos (h_mem h' c)" "b_pos (h_mem h' a) = b_pos (h_mem h1 a)"
      using copy_append_loop_ok[OF ch, of "drop n data"] assms(2) pa(2) by auto
    have "content h' (as @ a # cs) = content h (as @ [a]) @ take n data @ drop n data"
      unfolding R(5) ct by (simp only: append_assoc)
    moreover have "h_frame h {a} h'" by (rule h_frame_trans[OF fr R(6)])
    moreover have "0 < room ?b \<longrightarrow> 0 < b_pos (h_mem h' a)" using R(8) pa nc cap_def by simp
    ultimately show ?thesis
      using R pa by (intro exI[where x = cs] exI[where x = t] exI[where x = h']) simp
  qed
qed

text \<open>A chain of new buffers that holds the data, with no empty buffer in it.\<close>

definition fresh_chain :: "bheap \<Rightarrow> bheap \<Rightarrow> nat list \<Rightarrow> u8 list \<Rightarrow> bool" where
  "fresh_chain h h' as data = (chain h' as \<and> content h' as = data \<and> h_frame h {} h' \<and>
     (\<forall>a \<in> set as. h_top h \<le> a \<and> 0 < b_pos (h_mem h' a)))"

lemma buffer_copy_new_ok:
  assumes "buffer_copy_new h = (a, h1)"
  shows "a = h_top h" "chain h1 [a]" "content h1 [a] = []" "h_frame h A h1" "h_size h1 = h_size h" "h_top h1 = h_top h + 1"
    "room (h_mem h1 a) = h_size h" "b_pos (h_mem h1 a) = 0" "b_cap (h_mem h1 a) = h_size h"
  using assms by (auto simp: buffer_copy_new_def h_alloc_def h_frame_def chain_def nexts_of_def buf_ok_def readable_def room_def)

lemma h_frame_new: "h_frame h A h1 \<Longrightarrow> h_frame h1 {a} h' \<Longrightarrow> h_top h \<le> a \<Longrightarrow> h_frame h A h'"
  by (fastforce simp: h_frame_def)

lemma buffers_copy_ok:
  assumes "h_size h > 0"
  shows "\<exists>as h'. buffers_copy data h = Some (first_or as None, h') \<and> fresh_chain h h' as data"
proof (cases "data = []")
  case True
  then show ?thesis
    by (intro exI[where x = "[]"] exI[where x = h]) (simp add: buffers_copy_def fresh_chain_def)
next
  case False
  obtain a h1 where n: "buffer_copy_new h = (a, h1)" by (cases "buffer_copy_new h")
  note N = buffer_copy_new_ok[OF n]
  obtain cs t h' where R: "copy_append a data h1 = Some (t, h')" "chain h' (a # cs)"
    "content h' (a # cs) = data" "h_frame h1 {a} h'" "\<forall>c \<in> set cs. h_top h1 \<le> c \<and> 0 < b_pos (h_mem h' c)"
    "0 < b_pos (h_mem h' a)"
    using copy_append_ok[of h1 "[]" a data] N assms False by auto
  have "h_frame h {} h'" using h_frame_new[OF N(4) R(4)] N(1) by simp
  then have "fresh_chain h h' (a # cs) data" using R N unfolding fresh_chain_def by auto
  moreover have "buffers_copy data h = Some (Some a, h')" using False n R(1) by (simp add: buffers_copy_def)
  ultimately show ?thesis by (intro exI[where x = "a # cs"] exI[where x = h']) simp
qed

lemma skip_empty_ok:
  assumes "chain h as"
  shows "skip_empty h (first_or as None) = Some (first_or (dropWhile (\<lambda>a. b_pos (h_mem h a) = 0) as) None)"
  using assms
proof (induction as)
  case Nil
  then show ?case by (subst skip_empty.simps) simp
next
  case (Cons a as)
  note c = chain_ConsD[OF Cons.prems]
  then show ?case using Cons.IH by (subst first_or_simps, subst skip_empty.simps) simp
qed

lemma content_drop_empty: "content h (dropWhile (\<lambda>a. b_pos (h_mem h a) = 0) as) = content h as"
  by (induction as) (auto simp: readable_def)

lemma get_bytes_ok: "buf_ok b \<Longrightarrow> h_mem h a = b \<Longrightarrow> get_bytes a (b_pos b) h = Some (readable b)"
  by (auto simp: get_bytes_def buf_ok_def readable_def)

lemma copy_chain_loop_ok:
  assumes "chain h (as @ [a])" and "chain h ss" and "set ss \<inter> set (as @ [a]) = {}" and "h_size h > 0"
  shows "\<exists>cs t h'. copy_chain_loop a (first_or ss None) h = Some (t, h') \<and> chain h' (as @ a # cs) \<and> t = last (a # cs) \<and>
    content h' (as @ a # cs) = content h (as @ [a]) @ content h ss \<and> h_frame h {a} h' \<and>
    (\<forall>c \<in> set cs. h_top h \<le> c \<and> 0 < b_pos (h_mem h' c)) \<and> b_pos (h_mem h a) \<le> b_pos (h_mem h' a) \<and>
    (0 < room (h_mem h a) \<and> (\<exists>s r. ss = s # r \<and> 0 < b_pos (h_mem h s)) \<longrightarrow> 0 < b_pos (h_mem h' a))"
  using assms
proof (induction ss arbitrary: as a h)
  case Nil
  then show ?case
    by (subst copy_chain_loop.simps) (intro exI[where x = "[]"] exI[where x = a] exI[where x = h], simp)
next
  case (Cons s ss)
  note c = chain_ConsD[OF Cons.prems(2)]
  obtain cs t h1 where R: "copy_append a (readable (h_mem h s)) h = Some (t, h1)" "chain h1 (as @ a # cs)" "t = last (a # cs)"
    "content h1 (as @ a # cs) = content h (as @ [a]) @ readable (h_mem h s)" "h_frame h {a} h1"
    "\<forall>c \<in> set cs. h_top h \<le> c \<and> 0 < b_pos (h_mem h1 c)" "b_pos (h_mem h a) \<le> b_pos (h_mem h1 a)"
    "readable (h_mem h s) \<noteq> [] \<and> 0 < room (h_mem h a) \<longrightarrow> 0 < b_pos (h_mem h1 a)"
    using copy_append_ok[OF Cons.prems(1,4), of "readable (h_mem h s)"] by blast
  have sa: "s \<noteq> a" "set ss \<inter> {a} = {}" using Cons.prems(3) by auto
  have src: "h_mem h1 s = h_mem h s" "chain h1 ss" "content h1 ss = content h ss"
    using h_frameD[OF R(5), of s] sa c chain_frame[OF conjunct1[OF c] R(5) sa(2)] by auto
  have lt: "x < h_top h" if "x \<in> set ss" for x using Cons.prems(2) that by (auto simp: chain_def)
  obtain bs where bs: "as @ a # cs = bs @ [t]" using R(3) by (metis append_butlast_last_id append_is_Nil_conv last_appendR list.distinct(1))
  have dis: "set ss \<inter> set (bs @ [t]) = {}"
    using Cons.prems(3) R(6) lt unfolding bs[symmetric] by fastforce
  have "h_size h1 > 0" using R(5) Cons.prems(4) by (simp add: h_frame_def)
  have ch1: "chain h1 (bs @ [t])" using R(2) bs by simp
  obtain ds t2 h2 where
    S: "copy_chain_loop t (first_or ss None) h1 = Some (t2, h2)" "chain h2 (bs @ t # ds)"
    "content h2 (bs @ t # ds) = content h1 (bs @ [t]) @ content h1 ss" "h_frame h1 {t} h2"
    "\<forall>c \<in> set ds. h_top h1 \<le> c \<and> 0 < b_pos (h_mem h2 c)" "b_pos (h_mem h1 t) \<le> b_pos (h_mem h2 t)" "t2 = last (t # ds)"
    using Cons.IH[OF ch1 src(2) dis \<open>h_size h1 > 0\<close>] by blast
  have e: "bs @ t # ds = as @ a # cs @ ds" using bs by (metis append.assoc append_Cons append_Nil)
  have "copy_chain_loop a (Some s) h = Some (t2, h2)"
    using R(1) S(1) src(1) c by (subst copy_chain_loop.simps) (simp add: get_bytes_ok[of "h_mem h s"])
  moreover have "chain h2 (as @ a # cs @ ds)" using S(2) e by simp
  moreover have "content h2 (as @ a # cs @ ds) = content h (as @ [a]) @ content h (s # ss)"
    using S(3) R(4) src(3) unfolding e bs[symmetric] by simp
  moreover have t: "t = a \<or> h_top h \<le> t" using R(3,6) by (cases cs rule: rev_cases) auto
  have "h_frame h {a} h2"
    using R(5) S(4) t by (fastforce simp: h_frame_def)
  moreover have pos: "b_pos (h_mem h1 x) \<le> b_pos (h_mem h2 x)" if "x < h_top h1" for x
    using h_frameD[OF S(4), of x] S(6) that by (cases "x = t") auto
  have in1: "x < h_top h1" if "x \<in> set (as @ a # cs)" for x using R(2) that by (auto simp: chain_def)
  have top: "h_top h \<le> h_top h1" using R(5) by (simp add: h_frame_def)
  have new: "h_top h \<le> c \<and> 0 < b_pos (h_mem h2 c)" if "c \<in> set (cs @ ds)" for c
  proof (cases "c \<in> set cs")
    case True
    then show ?thesis using R(6) in1[of c] pos[of c] by fastforce
  next
    case False
    then have "c \<in> set ds" using that by simp
    then show ?thesis using S(5) top by fastforce
  qed
  have "b_pos (h_mem h a) \<le> b_pos (h_mem h2 a)" using R(7) pos[of a] in1[of a] by simp
  moreover have "0 < room (h_mem h a) \<and> 0 < b_pos (h_mem h s) \<longrightarrow> 0 < b_pos (h_mem h2 a)"
  proof -
    have "readable (h_mem h s) \<noteq> []" if "0 < b_pos (h_mem h s)"
      using that c length_readable[of "h_mem h s"] by (metis length_greater_0_conv)
    then show ?thesis using R(8) pos[of a] in1[of a] by fastforce
  qed
  moreover have "t2 = last (a # cs @ ds)" using S(7) R(3) by (cases "ds = []") auto
  ultimately show ?case
    using new by (intro exI[where x = "cs @ ds"] exI[where x = t2] exI[where x = h2]) auto
qed

text \<open>A copy that starts in a new buffer, of a source that begins with a byte.\<close>

lemma copy_chain_new_ok:
  assumes "buffer_copy_new h = (a, h1)" and "chain h (s # ss)" and "0 < b_pos (h_mem h s)" and "h_size h > 0"
  shows "\<exists>cs t h'. copy_chain_loop a (Some s) h1 = Some (t, h') \<and> fresh_chain h h' (a # cs) (content h (s # ss)) \<and> t = last (a # cs)"
proof -
  note N = buffer_copy_new_ok[OF assms(1)]
  have src: "chain h1 (s # ss)" "content h1 (s # ss) = content h (s # ss)"
    using chain_frame[OF assms(2) N(4)[of "{}"]] by auto
  have lt: "x < h_top h" if "x \<in> set (s # ss)" for x using assms(2) that by (auto simp: chain_def)
  have dis: "set (s # ss) \<inter> set ([] @ [a]) = {}" using lt N(1) by fastforce
  have "h_mem h1 s = h_mem h s" using h_frameD[OF N(4)[of "{}"], of s] lt by simp
  then obtain cs t h' where R: "copy_chain_loop a (Some s) h1 = Some (t, h')" "chain h' (a # cs)"
    "content h' (a # cs) = content h1 (s # ss)" "h_frame h1 {a} h'" "\<forall>c \<in> set cs. h_top h1 \<le> c \<and> 0 < b_pos (h_mem h' c)"
    "0 < b_pos (h_mem h' a)" "t = last (a # cs)"
  proof -
    have "chain h1 ([] @ [a])" "0 < h_size h1" using N(2,5) assms(4) by simp_all
    from copy_chain_loop_ok[OF this(1) src(1) dis this(2)] \<open>h_mem h1 s = h_mem h s\<close> show ?thesis
      using that N(3,7) assms(3,4) by auto
  qed
  have "h_frame h {} h'" using h_frame_new[OF N(4) R(4)] N(1) by simp
  then have "fresh_chain h h' (a # cs) (content h (s # ss))"
    using R(2,3,5,6) N(1,6) src(2) unfolding fresh_chain_def by auto
  with R(1,7) show ?thesis by blast
qed

lemma buffers_copy_chain_ok:
  assumes "chain h ss" and "h_size h > 0"
  shows "\<exists>as h'. buffers_copy_chain (first_or ss None) h = Some (first_or as None, h') \<and>
    fresh_chain h h' as (content h ss)"
proof (cases "dropWhile (\<lambda>a. b_pos (h_mem h a) = 0) ss")
  case Nil
  then have "content h ss = []" using content_drop_empty[of h ss, symmetric] by (simp del: dropWhile_eq_Nil_conv)
  moreover have "skip_empty h (first_or ss None) = Some None"
    using skip_empty_ok[OF assms(1)] unfolding Nil by simp
  ultimately show ?thesis
    by (intro exI[where x = "[]"] exI[where x = h]) (simp add: buffers_copy_chain_def fresh_chain_def)
next
  case (Cons s r)
  obtain a h1 where n: "buffer_copy_new h = (a, h1)" by (cases "buffer_copy_new h")
  have pos: "0 < b_pos (h_mem h s)"
    using hd_dropWhile[of "\<lambda>a. b_pos (h_mem h a) = 0" ss] Cons by auto
  have "ss = takeWhile (\<lambda>a. b_pos (h_mem h a) = 0) ss @ s # r" using takeWhile_dropWhile_id[of _ ss] Cons by metis
  then have "chain h (s # r)" using assms(1) chain_appendD2 by metis
  from copy_chain_new_ok[OF n this pos assms(2)] obtain cs t h' where
    "copy_chain_loop a (Some s) h1 = Some (t, h')" "fresh_chain h h' (a # cs) (content h (s # r))" by blast
  then show ?thesis
    using skip_empty_ok[OF assms(1)] Cons n content_drop_empty[of h ss]
    by (intro exI[where x = "a # cs"] exI[where x = h']) (simp add: buffers_copy_chain_def)
qed

lemma buffer_raw_new_ok:
  assumes "buffer_raw_new bs h = (a, h1)"
  shows "a = h_top h" "chain h1 [a]" "content h1 [a] = bs" "h_frame h A h1" "h_size h1 = h_size h" "h_top h1 = h_top h + 1"
    "b_pos (h_mem h1 a) = length bs"
  using assms by (auto simp: buffer_raw_new_def h_alloc_def h_frame_def chain_def nexts_of_def buf_ok_def readable_def)

lemma link_new_ok:
  assumes "fresh_chain h h1 (as @ [t]) data" and "buffer_raw_new bs h1 = (a, h2)" and "bs \<noteq> []"
  shows "fresh_chain h (set_next t (Some a) h2) (as @ [t, a]) (data @ bs)"
proof -
  note N = buffer_raw_new_ok[OF assms(2)]
  have F: "chain h1 (as @ [t])" "content h1 (as @ [t]) = data" "h_frame h {} h1"
    "\<forall>a \<in> set (as @ [t]). h_top h \<le> a \<and> 0 < b_pos (h_mem h1 a)"
    using assms(1) by (simp_all add: fresh_chain_def)
  have lt: "x < a" if "x \<in> set (as @ [t])" for x using F(1) that N(1) by (auto simp: chain_def)
  have c2: "chain h2 (as @ [t])" "content h2 (as @ [t]) = data" using chain_frame[OF F(1) N(4)[of "{}"]] F(2) by auto
  have "set (as @ [t]) \<inter> set [a] = {}" using lt by fastforce
  from chain_join[OF c2(1) N(2) this] have "chain (set_next t (Some a) h2) (as @ [t, a])"
    "content (set_next t (Some a) h2) (as @ [t, a]) = data @ bs" using c2(2) N(3) by simp_all
  moreover have "h_frame h {} (set_next t (Some a) h2)"
    using F(3,4) N(4)[of "{}"] N(6) lt by (fastforce simp: h_frame_def h_set_mem)
  moreover have "h_top h \<le> x \<and> 0 < b_pos (h_mem (set_next t (Some a) h2) x)" if "x \<in> set (as @ [t, a])" for x
  proof -
    have "h_mem h2 y = h_mem h1 y" if "y \<in> set (as @ [t])" for y
      using that F(1) h_frameD[OF N(4)[of "{}"], of y] by (auto simp: chain_def)
    moreover have "h_top h \<le> a" using F(3) N(1) by (simp add: h_frame_def)
    ultimately show ?thesis using that F(4) N(7) assms(3) by (auto simp: h_set_mem)
  qed
  ultimately show ?thesis by (simp add: fresh_chain_def)
qed

lemma UINT32_MAX_pos: "0 < UINT32_MAX"
  by (simp add: UINT32_MAX_def)

lemma buffers_ref_loop_ok:
  assumes "fresh_chain h h1 (as @ [t]) data" and "bs \<noteq> []"
  shows "\<exists>cs h'. buffers_ref_loop t bs h1 = Some h' \<and> fresh_chain h h' (as @ t # cs) (data @ bs)"
  using assms
proof (induction "length bs" arbitrary: as t data bs h1 rule: less_induct)
  case less
  show ?case
  proof (cases "length bs > UINT32_MAX")
    case True
    obtain a h2 where n: "buffer_raw_new (take UINT32_MAX bs) h1 = (a, h2)" by (cases "buffer_raw_new (take UINT32_MAX bs) h1")
    have "fresh_chain h (set_next t (Some a) h2) ((as @ [t]) @ [a]) (data @ take UINT32_MAX bs)"
      using link_new_ok[OF less.prems(1) n] UINT32_MAX_pos less.prems(2) by simp
    moreover have "length (drop UINT32_MAX bs) < length bs" using True UINT32_MAX_pos by (simp only: length_drop)
    moreover have "drop UINT32_MAX bs \<noteq> []" using True by simp
    ultimately obtain cs h' where R: "buffers_ref_loop a (drop UINT32_MAX bs) (set_next t (Some a) h2) = Some h'"
      "fresh_chain h h' ((as @ [t]) @ a # cs) ((data @ take UINT32_MAX bs) @ drop UINT32_MAX bs)"
      using less.hyps by blast
    have "buffers_ref_loop t bs h1 = Some h'"
      using True n R(1) by (subst buffers_ref_loop.simps) (simp add: Let_def)
    moreover have "fresh_chain h h' (as @ t # a # cs) (data @ bs)" using R(2) by simp
    ultimately show ?thesis by blast
  next
    case False
    obtain a h2 where n: "buffer_raw_new bs h1 = (a, h2)" by (cases "buffer_raw_new bs h1")
    have "buffers_ref_loop t bs h1 = Some (set_next t (Some a) h2)"
      using False n less.prems(2) by (subst buffers_ref_loop.simps) simp
    with link_new_ok[OF less.prems(1) n less.prems(2)] show ?thesis by blast
  qed
qed

lemma raw_fresh: "buffer_raw_new bs h = (a, h1) \<Longrightarrow> bs \<noteq> [] \<Longrightarrow> fresh_chain h h1 [a] bs"
  using buffer_raw_new_ok[of bs h a h1] by (auto simp: fresh_chain_def)

lemma buffers_ref_ok:
  "\<exists>as h'. buffers_ref data h = Some (first_or as None, h') \<and> fresh_chain h h' as data"
proof (cases "data = []")
  case True
  then show ?thesis by (intro exI[where x = "[]"] exI[where x = h]) (simp add: buffers_ref_def fresh_chain_def)
next
  case False
  show ?thesis
  proof (cases "length data \<le> UINT32_MAX")
    case True
    obtain a h1 where n: "buffer_raw_new data h = (a, h1)" by (cases "buffer_raw_new data h")
    then show ?thesis
      using True False raw_fresh[OF n False]
      by (intro exI[where x = "[a]"] exI[where x = h1]) (simp add: buffers_ref_def)
  next
    case big: False
    obtain a h1 where n: "buffer_raw_new (take UINT32_MAX data) h = (a, h1)" by (cases "buffer_raw_new (take UINT32_MAX data) h")
    have "fresh_chain h h1 ([] @ [a]) (take UINT32_MAX data)"
      using raw_fresh[OF n] UINT32_MAX_pos False by simp
    moreover have "drop UINT32_MAX data \<noteq> []" using big by simp
    ultimately obtain cs h' where "buffers_ref_loop a (drop UINT32_MAX data) h1 = Some h'"
      "fresh_chain h h' ([] @ a # cs) (take UINT32_MAX data @ drop UINT32_MAX data)"
      using buffers_ref_loop_ok by blast
    then show ?thesis
      using big n by (intro exI[where x = "a # cs"] exI[where x = h']) (simp add: buffers_ref_def)
  qed
qed

text \<open>Vectors: one for every non-empty buffer as far as there is room, the first one from the offset.\<close>

definition nonempty :: "bheap \<Rightarrow> nat \<Rightarrow> bool" where
  "nonempty h a = (0 < b_pos (h_mem h a))"

fun vecs_of :: "bheap \<Rightarrow> nat \<Rightarrow> nat list \<Rightarrow> iovec list" where
  "vecs_of h off [] = []"
| "vecs_of h off (a # as) =
     \<lparr>iov_buf = Some a, iov_off = off, iov_size = b_pos (h_mem h a) - off\<rparr> # vecs_of h 0 as"

definition iov_bytes :: "bheap \<Rightarrow> iovec \<Rightarrow> u8 list" where
  "iov_bytes h v = (case iov_buf v of None \<Rightarrow> [] | Some a \<Rightarrow> take (iov_size v) (drop (iov_off v) (b_data (h_mem h a))))"

definition off_ok :: "bheap \<Rightarrow> nat \<Rightarrow> nat list \<Rightarrow> bool" where
  "off_ok h off as = (case filter (nonempty h) as of [] \<Rightarrow> True | a # _ \<Rightarrow> off < b_pos (h_mem h a))"

lemma off_ok_simps [simp]:
  "off_ok h 0 as" "off_ok h off []"
  "b_pos (h_mem h a) = 0 \<Longrightarrow> off_ok h off (a # as) = off_ok h off as"
  "0 < b_pos (h_mem h a) \<Longrightarrow> off_ok h off (a # as) \<longleftrightarrow> off < b_pos (h_mem h a)"
proof -
  have "nonempty h a" if "filter (nonempty h) as = a # r" for a r
    using that by (metis filter_eq_ConsD)
  then show "off_ok h 0 as" by (auto simp: off_ok_def nonempty_def split: list.splits)
qed (simp_all add: off_ok_def nonempty_def)

lemma iovecs_for_write_loop_ok:
  assumes "chain h as" and "off_ok h off as" and "length vecs \<le> lim"
  shows "\<exists>off'. iovecs_for_write_loop h (first_or as None) off lim vecs =
    Some (off', vecs @ vecs_of h off (take (lim - length vecs) (filter (nonempty h) as)))
    \<and> (off' = off \<or> off' = 0) \<and> (length vecs < lim \<and> filter (nonempty h) as \<noteq> [] \<longrightarrow> off' = 0)
    \<and> (filter (nonempty h) as = [] \<longrightarrow> off' = off)"
  using assms
proof (induction as arbitrary: off vecs)
  case Nil
  then show ?case by (subst iovecs_for_write_loop.simps) simp
next
  case (Cons a as)
  note c = chain_ConsD[OF Cons.prems(1)]
  show ?case
  proof (cases "length vecs < lim")
    case False
    then show ?thesis using Cons.prems(3) by (subst first_or_simps, subst iovecs_for_write_loop.simps) simp
  next
    case True
    show ?thesis
    proof (cases "b_pos (h_mem h a) = 0")
      case e: True
      then have "iovecs_for_write_loop h (Some a) off lim vecs = iovecs_for_write_loop h (first_or as None) off lim vecs"
        using True c by (subst iovecs_for_write_loop.simps) simp
      then show ?thesis
        using Cons.IH[of off vecs] Cons.prems(2,3) e c True by (simp add: nonempty_def[of h a])
    next
      case ne: False
      then have off: "off < b_pos (h_mem h a)" using Cons.prems(2) by simp
      let ?v = "\<lparr>iov_buf = Some a, iov_off = off, iov_size = b_pos (h_mem h a) - off\<rparr>"
      have "iovecs_for_write_loop h (Some a) off lim vecs = iovecs_for_write_loop h (first_or as None) 0 lim (vecs @ [?v])"
        using True c ne off by (subst iovecs_for_write_loop.simps) simp
      moreover obtain off' where "iovecs_for_write_loop h (first_or as None) 0 lim (vecs @ [?v]) =
          Some (off', (vecs @ [?v]) @ vecs_of h 0 (take (lim - length (vecs @ [?v])) (filter (nonempty h) as)))" "off' = 0"
        using Cons.IH[of 0 "vecs @ [?v]"] c True by auto
      moreover have "lim - length vecs = Suc (lim - length (vecs @ [?v]))" using True by simp
      moreover have "nonempty h a" using ne by (simp add: nonempty_def)
      ultimately show ?thesis using True by simp
    qed
  qed
qed

lemma vecs_of_bytes:
  assumes "\<forall>a \<in> set as. buf_ok (h_mem h a)" and "as \<noteq> [] \<Longrightarrow> off \<le> b_pos (h_mem h (hd as))"
  shows "concat (map (iov_bytes h) (vecs_of h off as)) = drop off (content h as) \<or> as = [] "
  using assms
proof (induction as arbitrary: off)
  case (Cons a as)
  have "iov_bytes h \<lparr>iov_buf = Some a, iov_off = off, iov_size = b_pos (h_mem h a) - off\<rparr> = drop off (readable (h_mem h a))"
    by (simp add: iov_bytes_def readable_def drop_take)
  moreover have "concat (map (iov_bytes h) (vecs_of h 0 as)) = content h as"
    using Cons.IH[of 0] Cons.prems(1) by (cases as) auto
  ultimately show ?case using Cons.prems by simp
qed simp

lemma content_filter: "content h (filter (nonempty h) as) = content h as"
  by (induction as) (auto simp: nonempty_def readable_def)


section \<open>Correctness\<close>

text \<open>
  C29. Making buffers: \<^verbatim>\<open>BuffersCopy\<close> of bytes and of a chain, and \<^verbatim>\<open>BuffersRef\<close>, return, for data
  of any size, a chain of new buffers that holds exactly the data, has no empty buffer, and leaves every
  existing buffer as it was, the source included.
\<close>
theorem buffers_roundtrip:
  assumes "h_size h > 0" and "chain h ss"
  shows "(\<exists>as h'. buffers_copy data h = Some (first_or as None, h') \<and> fresh_chain h h' as data) \<and>
    (\<exists>as h'. buffers_ref data h = Some (first_or as None, h') \<and> fresh_chain h h' as data) \<and>
    (\<exists>as h'. buffers_copy_chain (first_or ss None) h = Some (first_or as None, h') \<and>
       fresh_chain h h' as (content h ss) \<and> content h' ss = content h ss)"
proof -
  obtain as h' where R: "buffers_copy_chain (first_or ss None) h = Some (first_or as None, h')" "fresh_chain h h' as (content h ss)"
    using buffers_copy_chain_ok[OF assms(2,1)] by blast
  moreover have "content h' ss = content h ss"
    using chain_frame[OF assms(2), of "{}" h'] R(2) by (simp add: fresh_chain_def)
  ultimately show ?thesis using buffers_copy_ok[OF assms(1)] buffers_ref_ok by blast
qed

text \<open>An empty heap with buffers of four bytes.\<close>

definition heap0 :: bheap where
  "heap0 = \<lparr>h_mem = \<lambda>_. \<lparr>b_pos = 0, b_cap = 0, b_data = [], b_next = None\<rparr>, h_top = 0, h_junk = \<lambda>_ _. 0, h_size = 4\<rparr>"

lemma buffers_roundtrip_witness:
  "\<exists>as h'. buffers_copy [1, 2, 3, 4, 5, 6] heap0 = Some (first_or as None, h') \<and> content h' as = [1, 2, 3, 4, 5, 6]"
proof -
  have "h_size heap0 > 0" "chain heap0 []" by (simp_all add: heap0_def)
  from buffers_roundtrip[OF this, of "[1, 2, 3, 4, 5, 6]"] show ?thesis by (auto simp: fresh_chain_def)
qed

text \<open>
  \<^verbatim>\<open>BuffersToIOVecsForWrite\<close>: the vectors are those of the first non-empty buffers, as many as there
  is room for, none of them is empty or leaves its buffer, and together they are the content of these
  buffers without the bytes before the offset; with enough room they are all the data.
\<close>
theorem iovecs_for_write_correct:
  assumes "chain h as" and "off_ok h off as"
  shows "\<exists>vs. iovecs_for_write h (first_or as None) off lim = Some vs \<and> length vs \<le> lim \<and>
    (\<forall>v \<in> set vs. 0 < iov_size v) \<and>
    concat (map (iov_bytes h) vs) = drop off (content h (take lim (filter (nonempty h) as))) \<and>
    (length (filter (nonempty h) as) \<le> lim \<longrightarrow> concat (map (iov_bytes h) vs) = drop off (content h as))"
proof -
  let ?ne = "take lim (filter (nonempty h) as)"
  have R: "iovecs_for_write h (first_or as None) off lim = Some (vecs_of h off ?ne)"
    using iovecs_for_write_loop_ok[OF assms, of "[]" lim] by (auto simp: iovecs_for_write_def)
  have len: "length (vecs_of h off bs) = length bs" for off bs by (induction bs arbitrary: off) auto
  have sz: "\<forall>v \<in> set (vecs_of h off bs). 0 < iov_size v"
    if "\<forall>b \<in> set bs. nonempty h b" "bs \<noteq> [] \<Longrightarrow> off < b_pos (h_mem h (hd bs))" for off bs
    using that
  proof (induction bs arbitrary: off)
    case (Cons b bs)
    have "\<forall>v \<in> set (vecs_of h 0 bs). 0 < iov_size v"
      using Cons.IH[of 0] Cons.prems(1) by (cases bs) (auto simp: nonempty_def)
    then show ?case using Cons.prems by auto
  qed simp
  have ne: "\<forall>b \<in> set ?ne. nonempty h b" by (auto dest!: in_set_takeD)
  have hd: "off < b_pos (h_mem h (hd ?ne))" if "?ne \<noteq> []"
    using assms(2) that by (cases lim) (auto simp: off_ok_def split: list.splits)
  have "\<forall>b \<in> set ?ne. buf_ok (h_mem h b)" using assms(1) by (auto simp: chain_def dest: in_set_takeD)
  then have "concat (map (iov_bytes h) (vecs_of h off ?ne)) = drop off (content h ?ne)"
    using vecs_of_bytes[of ?ne h off] hd by (cases "?ne = []") auto
  moreover have "length (filter (nonempty h) as) \<le> lim \<longrightarrow> content h ?ne = content h as"
    by (simp add: content_filter)
  ultimately show ?thesis using R len sz[OF ne hd] by auto
qed

lemma iovecs_for_write_correct_witness:
  "\<exists>as h' vs. buffers_copy [1, 2, 3, 4, 5, 6] heap0 = Some (first_or as None, h') \<and>
     iovecs_for_write h' (first_or as None) 0 1000 = Some vs \<and>
     (length (filter (nonempty h') as) \<le> 1000 \<longrightarrow> concat (map (iov_bytes h') vs) = [1, 2, 3, 4, 5, 6])"
proof -
  obtain as h' where R: "buffers_copy [1, 2, 3, 4, 5, 6] heap0 = Some (first_or as None, h')" "chain h' as"
      "content h' as = [1, 2, 3, 4, 5, 6]"
    using buffers_copy_ok[of heap0 "[1, 2, 3, 4, 5, 6]"] by (auto simp: fresh_chain_def heap0_def)
  from iovecs_for_write_correct[OF R(2), of 0 1000] R show ?thesis by auto
qed

end
