(* ===== verification/Buffer_Stream.thy ===== *)
theory Buffer_Stream
  imports Buffers
begin

text \<open>
  \<^verbatim>\<open>BufferStream\<close> of \<^verbatim>\<open>net/Buffer.cpp\<close>: a chain of buffers of which a prefix is readable and the rest is
  reserved for writing, with direct pointers to the last readable buffer, the first writable one and
  the tail. Every \<^verbatim>\<open>MG_DEV_ASSERT\<close> is a step that can fail, and so is \<^verbatim>\<open>PrivCheck\<close>, which the debug
  build runs after every operation.
\<close>

section \<open>State\<close>

record stream =
  s_head :: "nat ptr"
  s_rsize :: nat
  s_rend :: "nat ptr"
  s_wpos :: "nat ptr"
  s_wsize :: nat
  s_tail :: "nat ptr"

definition stream_new :: stream where
  "stream_new = \<lparr>s_head = None, s_rsize = 0, s_rend = None, s_wpos = None, s_wsize = 0, s_tail = None\<rparr>"

section \<open>The self-check\<close>

text \<open>The state of the loop of \<^verbatim>\<open>PrivCheck\<close>: \<^verbatim>\<open>prev\<close>, \<^verbatim>\<open>foundREnd\<close>, \<^verbatim>\<open>foundWPos\<close> and the two sums.\<close>

record check_loop =
  cl_prev :: "nat ptr"
  cl_rend :: bool
  cl_wpos :: bool
  cl_rsize :: nat
  cl_wsize :: nat

partial_function (option) priv_check_loop :: "bheap \<Rightarrow> stream \<Rightarrow> nat ptr \<Rightarrow> check_loop \<Rightarrow> check_loop option" where
  "priv_check_loop h s pos c =
     (case pos of None \<Rightarrow> Some c
      | Some a \<Rightarrow> do {
          let b = h_mem h a;
          let c1 = c\<lparr>cl_rsize := cl_rsize c + b_pos b\<rparr>;
          mg_assert (b_pos b = 0 \<and> \<not> cl_rend c1 \<longrightarrow> cl_prev c1 = s_rend s);
          let c2 = (if b_pos b = 0 then c1\<lparr>cl_rend := True\<rparr> else c1);
          let writable = (b_cap b - b_pos b > 0 \<and> (case b_next b of None \<Rightarrow> True | Some n \<Rightarrow> b_pos (h_mem h n) = 0));
          mg_assert (writable \<and> \<not> cl_wpos c2 \<longrightarrow> Some a = s_wpos s);
          let c3 = (if writable then c2\<lparr>cl_wpos := True\<rparr> else c2);
          mg_assert (cl_wpos c3 \<and> Some a \<noteq> s_wpos s \<longrightarrow> b_pos b = 0);
          let c4 = (if cl_wpos c3 then c3\<lparr>cl_wsize := cl_wsize c3 + (b_cap b - b_pos b)\<rparr> else c3);
          priv_check_loop h s (b_next b) (c4\<lparr>cl_prev := Some a\<rparr>) })"

definition priv_check :: "bheap \<Rightarrow> stream \<Rightarrow> unit option" where
  "priv_check h s =
     (case s_head s of
        None \<Rightarrow> mg_assert (s_rsize s = 0 \<and> s_rend s = None \<and> s_wpos s = None \<and> s_wsize s = 0 \<and> s_tail s = None)
      | Some a \<Rightarrow> do {
          mg_assert (s_rsize s = 0 \<longrightarrow> s_rend s = None);
          c \<leftarrow> priv_check_loop h s (Some a)
                 \<lparr>cl_prev = None, cl_rend = (s_rsize s = 0), cl_wpos = False, cl_rsize = 0, cl_wsize = 0\<rparr>;
          mg_assert (cl_prev c = s_tail s);
          mg_assert (cl_rsize c = s_rsize s);
          mg_assert (cl_wsize c = s_wsize s) })"

text \<open>The end of an operation: the check, then the result.\<close>

definition checked :: "bheap \<Rightarrow> stream \<Rightarrow> (bheap \<times> stream) option" where
  "checked h s = do { priv_check h s; Some (h, s) }"

section \<open>Operations\<close>

definition stream_clear :: "bheap \<Rightarrow> stream \<Rightarrow> (bheap \<times> stream) option" where
  "stream_clear h s =
     checked h (s\<lparr>s_head := None, s_rsize := 0, s_rend := None, s_wpos := None, s_wsize := 0, s_tail := None\<rparr>)"

text \<open>The tail grows by a new buffer: \<^verbatim>\<open>myTail = (myTail->myNext = BufferCopy::NewShared())\<close>.\<close>

definition grow_tail :: "bheap \<Rightarrow> stream \<Rightarrow> (bheap \<times> stream) option" where
  "grow_tail h s = do {
     t \<leftarrow> s_tail s;
     let (a, h1) = buffer_copy_new h;
     Some (set_next t (Some a) h1, s\<lparr>s_tail := Some a\<rparr>) }"

text \<open>The first writable buffer when there is none, as \<^verbatim>\<open>EnsureWriteSize\<close> and \<^verbatim>\<open>WriteCopy\<close> make it.\<close>

definition first_writable :: "bool \<Rightarrow> bheap \<Rightarrow> stream \<Rightarrow> (bheap \<times> stream) option" where
  "first_writable rend_too h s = do {
     mg_assert (s_wsize s = 0);
     (h1, s1) \<leftarrow> (case s_head s of
        None \<Rightarrow> do {
          mg_assert (s_rsize s = 0);
          mg_assert (rend_too \<longrightarrow> s_rend s = None);
          mg_assert (s_tail s = None);
          let (a, h1) = buffer_copy_new h;
          Some (h1, s\<lparr>s_head := Some a, s_tail := Some a\<rparr>) }
      | Some _ \<Rightarrow> do {
          t \<leftarrow> s_tail s;
          mg_assert (b_pos (h_mem h t) = b_cap (h_mem h t));
          grow_tail h s });
     Some (h1, s1\<lparr>s_wpos := s_tail s1, s_wsize := h_size h1\<rparr>) }"

partial_function (option) ensure_loop :: "nat \<Rightarrow> bheap \<Rightarrow> stream \<Rightarrow> (bheap \<times> stream) option" where
  "ensure_loop n h s = do {
     (h1, s1) \<leftarrow> grow_tail h s;
     let s2 = s1\<lparr>s_wsize := s_wsize s1 + h_size h1\<rparr>;
     if s_wsize s2 < n then ensure_loop n h1 s2 else Some (h1, s2) }"

definition ensure_write_size :: "nat \<Rightarrow> bheap \<Rightarrow> stream \<Rightarrow> (bheap \<times> stream) option" where
  "ensure_write_size n h s =
     (if s_wsize s \<ge> n then Some (h, s)
      else do {
        (h1, s1) \<leftarrow> (if s_wpos s = None then first_writable False h s else Some (h, s));
        if s_wpos s = None \<and> s_wsize s1 \<ge> n then checked h1 s1
        else do {
          (h2, s2) \<leftarrow> ensure_loop n h1 s1;
          w \<leftarrow> s_wpos s2;
          mg_assert (b_pos (h_mem h2 w) < b_cap (h_mem h2 w));
          checked h2 s2 } })"

definition propagate_write_pos :: "nat \<Rightarrow> bheap \<Rightarrow> stream \<Rightarrow> (bheap \<times> stream) option" where
  "propagate_write_pos n h s = do {
     mg_assert (s_wsize s \<ge> n);
     (p, h1) \<leftarrow> propagate_on_write (s_wpos s) n h;
     let s1 = s\<lparr>s_wpos := p, s_wsize := s_wsize s - n, s_rsize := s_rsize s + n, s_rend := p\<rparr>;
     if s_wsize s1 = 0 then do {
       mg_assert (case s_wpos s1 of None \<Rightarrow> True | Some w \<Rightarrow> b_pos (h_mem h1 w) = b_cap (h_mem h1 w));
       checked h1 (s1\<lparr>s_wpos := None\<rparr>) }
     else do {
       w \<leftarrow> s_wpos s1;
       if b_pos (h_mem h1 w) = b_cap (h_mem h1 w) then do {
         w' \<leftarrow> b_next (h_mem h1 w);
         mg_assert (b_pos (h_mem h1 w') < b_cap (h_mem h1 w'));
         checked h1 (s1\<lparr>s_wpos := Some w'\<rparr>) }
       else checked h1 s1 } }"

partial_function (option) write_copy_loop :: "u8 list \<Rightarrow> bheap \<Rightarrow> stream \<Rightarrow> (bheap \<times> stream) option" where
  "write_copy_loop data h s = do {
     w \<leftarrow> s_wpos s;
     let pos = b_pos (h_mem h w);
     mg_assert (pos < b_cap (h_mem h w));
     let cap = b_cap (h_mem h w) - pos;
     if cap > length data then do {
       h1 \<leftarrow> put_bytes w pos data h;
       wsize \<leftarrow> usub (s_wsize s) (length data);
       checked (set_pos w (pos + length data) h1) (s\<lparr>s_rend := Some w, s_wsize := wsize\<rparr>) }
     else do {
       h1 \<leftarrow> put_bytes w pos (take cap data) h;
       let h2 = set_pos w (b_cap (h_mem h1 w)) h1;
       if cap = length data then checked h2 (s\<lparr>s_rend := Some w, s_wpos := None, s_wsize := 0\<rparr>)
       else do {
         mg_assert (s_head s \<noteq> None);
         t \<leftarrow> s_tail s;
         mg_assert (b_pos (h_mem h2 t) = b_cap (h_mem h2 t));
         (h3, s3) \<leftarrow> grow_tail h2 s;
         write_copy_loop (drop cap data) h3 (s3\<lparr>s_wpos := s_tail s3, s_wsize := h_size h3\<rparr>) } } }"

definition write_copy :: "u8 list \<Rightarrow> bheap \<Rightarrow> stream \<Rightarrow> (bheap \<times> stream) option" where
  "write_copy data h s =
     (if data = [] then Some (h, s)
      else do {
        (h1, s1) \<leftarrow> (if s_wpos s = None then first_writable True h s else Some (h, s));
        write_copy_loop data h1 (s1\<lparr>s_rsize := s_rsize s1 + length data\<rparr>) })"


text \<open>\<^verbatim>\<open>WriteRef\<close>: the end and the size of the given chain, then one of four ways to link it in.\<close>

partial_function (option) chain_end :: "bheap \<Rightarrow> nat \<Rightarrow> nat \<Rightarrow> (nat \<times> nat) option" where
  "chain_end h a bytes =
     (case b_next (h_mem h a) of
        None \<Rightarrow> Some (a, bytes)
      | Some n \<Rightarrow> chain_end h n (bytes + b_pos (h_mem h n)))"

definition write_ref_no_wpos :: "nat \<Rightarrow> nat \<Rightarrow> nat \<Rightarrow> bheap \<Rightarrow> stream \<Rightarrow> (bheap \<times> stream) option" where
  "write_ref_no_wpos head fin bytes h s = do {
     mg_assert (s_wsize s = 0);
     (h1, s1) \<leftarrow> (case s_head s of
        None \<Rightarrow> do {
          mg_assert (s_rsize s = 0);
          mg_assert (s_rend s = None);
          mg_assert (s_tail s = None);
          Some (h, s\<lparr>s_head := Some head\<rparr>) }
      | Some _ \<Rightarrow> do {
          t \<leftarrow> s_tail s;
          mg_assert (b_pos (h_mem h t) = b_cap (h_mem h t));
          Some (set_next t (Some head) h, s) });
     wsize \<leftarrow> usub (b_cap (h_mem h1 fin)) (b_pos (h_mem h1 fin));
     let s2 = s1\<lparr>s_tail := Some fin, s_rend := Some fin, s_rsize := s_rsize s1 + bytes, s_wsize := wsize\<rparr>;
     checked h1 (if s_wsize s2 > 0 then s2\<lparr>s_wpos := s_tail s2\<rparr> else s2) }"

definition write_ref_no_rend :: "nat \<Rightarrow> nat \<Rightarrow> nat \<Rightarrow> bheap \<Rightarrow> stream \<Rightarrow> (bheap \<times> stream) option" where
  "write_ref_no_rend head fin bytes h s = do {
     mg_assert (s_rsize s = 0);
     mg_assert (s_wpos s = s_head s);
     let oldHead = s_head s;
     room \<leftarrow> usub (b_cap (h_mem h fin)) (b_pos (h_mem h fin));
     let s1 = s\<lparr>s_head := Some head, s_rend := Some fin, s_rsize := s_rsize s + bytes, s_wsize := s_wsize s + room\<rparr>;
     let s2 = (if b_cap (h_mem h fin) > b_pos (h_mem h fin) then s1\<lparr>s_wpos := Some fin\<rparr> else s1);
     checked (set_next fin oldHead h) s2 }"

definition write_ref_after :: "nat \<Rightarrow> nat \<Rightarrow> nat \<Rightarrow> bheap \<Rightarrow> stream \<Rightarrow> (bheap \<times> stream) option" where
  "write_ref_after head w fin h s = do {
     let (next, h0) = take_next w h;
     let h1 = set_next fin next h0;
     room \<leftarrow> usub (b_cap (h_mem h1 w)) (b_pos (h_mem h1 w));
     wsize \<leftarrow> usub (s_wsize s) room;
     let h2 = set_next w (Some head) h1;
     let s1 = s\<lparr>s_wsize := wsize, s_tail := (if s_wpos s = s_tail s then Some fin else s_tail s)\<rparr>;
     if b_pos (h_mem h2 fin) < b_cap (h_mem h2 fin)
     then Some (h2, s1\<lparr>s_wpos := Some fin, s_wsize := s_wsize s1 + (b_cap (h_mem h2 fin) - b_pos (h_mem h2 fin))\<rparr>)
     else Some (h2, s1\<lparr>s_wpos := b_next (h_mem h2 fin)\<rparr>) }"

definition write_ref_before :: "nat \<Rightarrow> nat \<Rightarrow> nat \<Rightarrow> bheap \<Rightarrow> stream \<Rightarrow> (bheap \<times> stream) option" where
  "write_ref_before head r fin h s = do {
     let (next, h0) = take_next r h;
     let h1 = set_next fin next h0;
     let h2 = set_next r (Some head) h1;
     if b_pos (h_mem h2 fin) < b_cap (h_mem h2 fin)
     then do {
       mg_assert (b_next (h_mem h2 fin) = s_wpos s);
       Some (h2, s\<lparr>s_wpos := Some fin, s_wsize := s_wsize s + (b_cap (h_mem h2 fin) - b_pos (h_mem h2 fin))\<rparr>) }
     else Some (h2, s) }"

definition write_ref :: "nat ptr \<Rightarrow> bheap \<Rightarrow> stream \<Rightarrow> (bheap \<times> stream) option" where
  "write_ref aHead h s =
     (case aHead of None \<Rightarrow> Some (h, s)
      | Some head \<Rightarrow> do {
          (fin, bytes) \<leftarrow> chain_end h head (b_pos (h_mem h head));
          case s_wpos s of
            None \<Rightarrow> write_ref_no_wpos head fin bytes h s
          | Some w \<Rightarrow> do {
              mg_assert (s_wsize s > 0);
              mg_assert (b_pos (h_mem h w) < b_cap (h_mem h w));
              case s_rend s of
                None \<Rightarrow> write_ref_no_rend head fin bytes h s
              | Some r \<Rightarrow> do {
                  mg_assert (Some r = s_wpos s \<or> b_next (h_mem h r) = s_wpos s);
                  (h1, s1) \<leftarrow> (if b_pos (h_mem h w) > 0 then write_ref_after head w fin h s
                                else write_ref_before head r fin h s);
                  checked h1 (s1\<lparr>s_rend := Some fin, s_rsize := s_rsize s1 + bytes\<rparr>) } } })"

text \<open>Dropping a head that has no data and is not the write position.\<close>

definition drop_head :: "nat \<Rightarrow> bheap \<Rightarrow> stream \<Rightarrow> (bheap \<times> stream) option" where
  "drop_head a h s = do {
     let (next, h1) = take_next a h;
     let s1 = s\<lparr>s_head := next\<rparr>;
     if s_head s1 = None then do {
       mg_assert (s_wsize s1 = 0);
       stream_clear h1 s1 }
     else Some (h1, s1) }"

text \<open>The rest of \<^verbatim>\<open>SkipData\<close> when the read bytes are gone from the chain.\<close>

definition skip_end :: "bheap \<Rightarrow> stream \<Rightarrow> (bheap \<times> stream) option" where
  "skip_end h s = do {
     (h1, s1) \<leftarrow> (case s_head s of
        None \<Rightarrow> stream_clear h s
      | Some a \<Rightarrow>
          if s_rsize s = 0 then Some (h, s\<lparr>s_rend := None\<rparr>)
          else if b_pos (h_mem h a) = 0 \<and> Some a \<noteq> s_wpos s then drop_head a h s
          else Some (h, s));
     checked h1 s1 }"

definition skip_data :: "nat \<Rightarrow> bheap \<Rightarrow> stream \<Rightarrow> (bheap \<times> stream) option" where
  "skip_data n h s = do {
     mg_assert (s_rsize s \<ge> n);
     (head, h1) \<leftarrow> propagate_on_read (s_head s) n h;
     skip_end h1 (s\<lparr>s_head := head, s_rsize := s_rsize s - n\<rparr>) }"

partial_function (option) read_loop :: "nat \<Rightarrow> u8 list \<Rightarrow> bheap \<Rightarrow> stream \<Rightarrow> (u8 list \<times> bheap \<times> stream) option" where
  "read_loop n out h s = do {
     a \<leftarrow> s_head s;
     let cap = b_pos (h_mem h a);
     let toRead = (if cap > n then n else cap);
     bs \<leftarrow> get_bytes a toRead h;
     let out1 = out @ bs;
     let n1 = n - toRead;
     if n1 = 0 then do {
       h1 \<leftarrow> buffer_propagate a toRead h;
       (h2, s2) \<leftarrow> (if b_pos (h_mem h1 a) = 0 \<and> Some a \<noteq> s_wpos s then drop_head a h1 s else Some (h1, s));
       mg_assert (s_head s2 = None \<or> s_rsize s2 > 0 \<or> s_wsize s2 > 0);
       priv_check h2 s2;
       Some (out1, h2, s2) }
     else do {
       let (next, h1) = take_next a h;
       read_loop n1 out1 h1 (s\<lparr>s_head := next\<rparr>) } }"

definition read_data :: "nat \<Rightarrow> bheap \<Rightarrow> stream \<Rightarrow> (u8 list \<times> bheap \<times> stream) option" where
  "read_data n h s =
     (if n = 0 then Some ([], h, s)
      else do {
        mg_assert (s_rsize s \<ge> n);
        let s1 = s\<lparr>s_rsize := s_rsize s - n\<rparr>;
        read_loop n [] h (if s_rsize s1 = 0 then s1\<lparr>s_rend := None\<rparr> else s1) })"

partial_function (option) peek_loop :: "bheap \<Rightarrow> nat ptr \<Rightarrow> nat \<Rightarrow> u8 list \<Rightarrow> u8 list option" where
  "peek_loop h pos n out = do {
     a \<leftarrow> pos;
     let cap = b_pos (h_mem h a);
     let toRead = (if cap \<ge> n then n else cap);
     bs \<leftarrow> get_bytes a toRead h;
     let n1 = n - toRead;
     if n1 = 0 then Some (out @ bs) else peek_loop h (b_next (h_mem h a)) n1 (out @ bs) }"

definition peek_data :: "nat \<Rightarrow> bheap \<Rightarrow> stream \<Rightarrow> u8 list option" where
  "peek_data n h s =
     (if n = 0 then Some []
      else do { mg_assert (s_rsize s \<ge> n); peek_loop h (s_head s) n [] })"

definition pop_data :: "bheap \<Rightarrow> stream \<Rightarrow> (nat ptr \<times> bheap \<times> stream) option" where
  "pop_data h s =
     (case s_rend s of
        None \<Rightarrow> do { mg_assert (s_rsize s = 0); Some (None, h, s) }
      | Some r \<Rightarrow> do {
          mg_assert (s_rsize s > 0);
          mg_assert (b_pos (h_mem h r) > 0);
          let res = s_head s;
          let (next, h1) = take_next r h;
          let s1 = s\<lparr>s_head := next\<rparr>;
          if s_head s1 = None then do {
            (h2, s2) \<leftarrow> stream_clear h1 s1;
            Some (res, h2, s2) }
          else do {
            room \<leftarrow> usub (b_cap (h_mem h1 r)) (b_pos (h_mem h1 r));
            wsize \<leftarrow> usub (s_wsize s1) room;
            let s2 = s1\<lparr>s_wsize := wsize, s_rsize := 0, s_rend := None, s_wpos := s_head s1\<rparr>;
            priv_check h1 s2;
            Some (res, h1, s2) } })"


section \<open>The invariant\<close>

text \<open>
  The chain is \<open>rs @ ws\<close>: \<open>rs\<close> hold data, \<open>ws\<close> are empty. The writable part is \<open>ws\<close>, and the last buffer
  of \<open>rs\<close> before it when it has room.
\<close>

definition wlist :: "bheap \<Rightarrow> nat list \<Rightarrow> nat list \<Rightarrow> nat list" where
  "wlist h rs ws = (if rs \<noteq> [] \<and> 0 < room (h_mem h (last rs)) then last rs # ws else ws)"

definition stream_inv :: "bheap \<Rightarrow> stream \<Rightarrow> nat list \<Rightarrow> nat list \<Rightarrow> bool" where
  "stream_inv h s rs ws =
    (chain h (rs @ ws) \<and> (\<forall>a \<in> set rs. 0 < b_pos (h_mem h a)) \<and>
     (\<forall>a \<in> set ws. b_pos (h_mem h a) = 0 \<and> 0 < b_cap (h_mem h a)) \<and>
     s_head s = first_or (rs @ ws) None \<and> s_tail s = last_or (rs @ ws) None \<and> s_rend s = last_or rs None \<and>
     s_rsize s = length (content h rs) \<and> s_wpos s = first_or (wlist h rs ws) None \<and>
     s_wsize s = (\<Sum>a\<leftarrow>wlist h rs ws. room (h_mem h a)))"

lemma stream_invD:
  assumes "stream_inv h s rs ws"
  shows "chain h (rs @ ws)" "\<And>a. a \<in> set rs \<Longrightarrow> 0 < b_pos (h_mem h a)"
    "\<And>a. a \<in> set ws \<Longrightarrow> b_pos (h_mem h a) = 0 \<and> 0 < b_cap (h_mem h a)"
    "s_head s = first_or (rs @ ws) None" "s_tail s = last_or (rs @ ws) None" "s_rend s = last_or rs None"
    "s_rsize s = length (content h rs)" "s_wpos s = first_or (wlist h rs ws) None"
    "s_wsize s = (\<Sum>a\<leftarrow>wlist h rs ws. room (h_mem h a))"
  using assms by (auto simp: stream_inv_def)

lemma chain_bufs: "chain h as \<Longrightarrow> a \<in> set as \<Longrightarrow> buf_ok (h_mem h a) \<and> a < h_top h"
  by (auto simp: chain_def)

lemma length_content: "chain h as \<Longrightarrow> length (content h as) = (\<Sum>a\<leftarrow>as. b_pos (h_mem h a))"
  by (induction as) (auto dest: chain_ConsD)

lemma room_pos: "b_pos b = 0 \<Longrightarrow> room b = b_cap b"
  by (simp add: room_def)

lemma content_pos: "chain h as \<Longrightarrow> \<forall>a \<in> set as. 0 < b_pos (h_mem h a) \<Longrightarrow> content h as = [] \<longleftrightarrow> as = []"
  by (cases as) (auto dest!: chain_ConsD simp: readable_def buf_ok_def)

lemma rs_chain: "stream_inv h s rs ws \<Longrightarrow> \<forall>a \<in> set rs. buf_ok (h_mem h a) \<and> a < h_top h"
  using stream_invD(1) chain_bufs by fastforce

lemma wlist_room:
  assumes "stream_inv h s rs ws" and "a \<in> set (wlist h rs ws)"
  shows "0 < room (h_mem h a)"
  using assms stream_invD(3)[OF assms(1), of a] by (auto simp: wlist_def room_pos split: if_splits)

lemma stream_inv_new: "stream_inv h stream_new [] []"
  by (simp add: stream_inv_def stream_new_def wlist_def)

section \<open>The self-check passes\<close>

lemma check_ws:
  assumes "chain h ws" and "\<forall>a \<in> set ws. b_pos (h_mem h a) = 0 \<and> 0 < b_cap (h_mem h a)"
    and "cl_rend c \<or> cl_prev c = s_rend s" and "cl_wpos c \<or> s_wpos s = first_or ws None"
  shows "\<exists>c'. priv_check_loop h s (first_or ws None) c = Some c' \<and> cl_prev c' = last_or ws (cl_prev c) \<and>
    cl_rsize c' = cl_rsize c \<and> cl_wsize c' = cl_wsize c + (\<Sum>a\<leftarrow>ws. room (h_mem h a))"
  using assms
proof (induction ws arbitrary: c)
  case Nil
  then show ?case by (subst priv_check_loop.simps) simp
next
  case (Cons a ws)
  note k = chain_ConsD[OF Cons.prems(1)]
  have z: "b_pos (h_mem h a) = 0" "0 < b_cap (h_mem h a)" using Cons.prems(2) by auto
  have n: "case b_next (h_mem h a) of None \<Rightarrow> True | Some n \<Rightarrow> b_pos (h_mem h n) = 0"
    using k Cons.prems(2) by (cases ws) auto
  define c1 where "c1 = c\<lparr>cl_rend := True, cl_wpos := True, cl_wsize := cl_wsize c + b_cap (h_mem h a), cl_prev := Some a\<rparr>"
  have "priv_check_loop h s (Some a) c = priv_check_loop h s (first_or ws None) c1"
    using z n Cons.prems(3,4) k by (subst priv_check_loop.simps) (auto simp: Let_def c1_def)
  moreover obtain c' where "priv_check_loop h s (first_or ws None) c1 = Some c'" "cl_prev c' = last_or ws (cl_prev c1)"
    "cl_rsize c' = cl_rsize c1" "cl_wsize c' = cl_wsize c1 + (\<Sum>a\<leftarrow>ws. room (h_mem h a))"
    using Cons.IH[of c1] k Cons.prems(2) by (auto simp: c1_def)
  ultimately show ?case using z by (simp add: c1_def room_pos)
qed

lemma check_rs:
  assumes "chain h (rs @ ws)" and "rs \<noteq> []" and "\<forall>a \<in> set rs. 0 < b_pos (h_mem h a)"
    and "\<forall>a \<in> set ws. b_pos (h_mem h a) = 0" and "\<not> cl_rend c" and "\<not> cl_wpos c"
    and "0 < room (h_mem h (last rs)) \<longrightarrow> s_wpos s = Some (last rs)"
  shows "priv_check_loop h s (first_or (rs @ ws) None) c = priv_check_loop h s (first_or ws None)
    (c\<lparr>cl_rsize := cl_rsize c + (\<Sum>a\<leftarrow>rs. b_pos (h_mem h a)), cl_wpos := 0 < room (h_mem h (last rs)),
       cl_wsize := cl_wsize c + room (h_mem h (last rs)), cl_prev := Some (last rs)\<rparr>)"
  using assms
proof (induction rs arbitrary: c)
  case (Cons a rs)
  note k = chain_ConsD[OF Cons.prems(1)[simplified]]
  have p: "0 < b_pos (h_mem h a)" using Cons.prems(3) by simp
  show ?case
  proof (cases rs)
    case Nil
    have n: "case b_next (h_mem h a) of None \<Rightarrow> True | Some n \<Rightarrow> b_pos (h_mem h n) = 0" "b_next (h_mem h a) = first_or ws None"
      using k Nil Cons.prems(4) by (cases ws; simp)+
    have "priv_check_loop h s (Some a) c = priv_check_loop h s (first_or ws None)
        (if 0 < room (h_mem h a)
         then c\<lparr>cl_rsize := cl_rsize c + b_pos (h_mem h a), cl_wpos := True, cl_wsize := cl_wsize c + room (h_mem h a), cl_prev := Some a\<rparr>
         else c\<lparr>cl_rsize := cl_rsize c + b_pos (h_mem h a), cl_prev := Some a\<rparr>)"
      using p n Nil Cons.prems(5-7) by (subst priv_check_loop.simps) (auto simp: Let_def room_def)
    also have "(if 0 < room (h_mem h a)
         then c\<lparr>cl_rsize := cl_rsize c + b_pos (h_mem h a), cl_wpos := True, cl_wsize := cl_wsize c + room (h_mem h a), cl_prev := Some a\<rparr>
         else c\<lparr>cl_rsize := cl_rsize c + b_pos (h_mem h a), cl_prev := Some a\<rparr>) =
        c\<lparr>cl_rsize := cl_rsize c + b_pos (h_mem h a), cl_wpos := 0 < room (h_mem h a),
           cl_wsize := cl_wsize c + room (h_mem h a), cl_prev := Some a\<rparr>"
      using Cons.prems(6) by (cases c) simp
    finally have "priv_check_loop h s (Some a) c = priv_check_loop h s (first_or ws None)
        (c\<lparr>cl_rsize := cl_rsize c + b_pos (h_mem h a), cl_wpos := 0 < room (h_mem h a),
           cl_wsize := cl_wsize c + room (h_mem h a), cl_prev := Some a\<rparr>)" .
    then show ?thesis using Nil by simp
  next
    case cons: (Cons b rs')
    then have n: "b_next (h_mem h a) = Some b" "0 < b_pos (h_mem h b)" using k Cons.prems(3) by auto
    then have "priv_check_loop h s (Some a) c =
        priv_check_loop h s (first_or (rs @ ws) None) (c\<lparr>cl_rsize := cl_rsize c + b_pos (h_mem h a), cl_prev := Some a\<rparr>)"
      using p cons Cons.prems(5,6) by (subst priv_check_loop.simps) (auto simp: Let_def)
    moreover note Cons.IH[of "c\<lparr>cl_rsize := cl_rsize c + b_pos (h_mem h a), cl_prev := Some a\<rparr>"]
    ultimately show ?thesis using k Cons.prems cons by (simp add: add.assoc)
  qed
qed simp

lemma priv_check_ok:
  assumes "stream_inv h s rs ws"
  shows "priv_check h s = Some ()"
proof -
  note I = stream_invD[OF assms]
  have ws: "chain h ws" "\<forall>a \<in> set ws. b_pos (h_mem h a) = 0 \<and> 0 < b_cap (h_mem h a)"
    using chain_appendD2[OF I(1)] I(3) by auto
  show ?thesis
  proof (cases "rs = []")
    case True
    show ?thesis
    proof (cases ws)
      case Nil
      then show ?thesis using True I by (simp add: priv_check_def wlist_def)
    next
      case (Cons a vs)
      let ?c = "\<lparr>cl_prev = None, cl_rend = True, cl_wpos = False, cl_rsize = 0, cl_wsize = 0\<rparr>"
      have "s_wpos s = first_or ws None" using I(8) True by (simp add: wlist_def)
      from check_ws[OF ws, of ?c s] this obtain c' where
        "priv_check_loop h s (first_or ws None) ?c = Some c'" "cl_prev c' = last_or ws None" "cl_rsize c' = 0"
        "cl_wsize c' = (\<Sum>a\<leftarrow>ws. room (h_mem h a))" by auto
      then show ?thesis using True Cons I by (simp add: priv_check_def wlist_def)
    qed
  next
    case False
    let ?c = "\<lparr>cl_prev = None, cl_rend = False, cl_wpos = False, cl_rsize = 0, cl_wsize = 0\<rparr>"
    let ?c1 = "\<lparr>cl_prev = Some (last rs), cl_rend = False, cl_wpos = 0 < room (h_mem h (last rs)),
       cl_rsize = (\<Sum>a\<leftarrow>rs. b_pos (h_mem h a)), cl_wsize = room (h_mem h (last rs))\<rparr>"
    have sum: "s_rsize s = (\<Sum>a\<leftarrow>rs. b_pos (h_mem h a))"
    proof -
      have "length (content h rs) = (\<Sum>a\<leftarrow>rs. b_pos (h_mem h a))"
        using rs_chain[OF assms] by (induction rs) auto
      then show ?thesis using I(7) by simp
    qed
    have pos: "s_rsize s \<noteq> 0" using sum I(2)[of "hd rs"] False by (cases rs) auto
    obtain a as where hd: "rs @ ws = a # as" using False by (cases rs) auto
    have start: "priv_check_loop h s (Some a) ?c = priv_check_loop h s (first_or ws None) ?c1"
      using check_rs[OF I(1) False, of ?c s] I(2,3) I(8) False hd by (auto simp: wlist_def)
    have "0 < room (h_mem h (last rs)) \<or> s_wpos s = first_or ws None"
      using I(8) by (auto simp: wlist_def)
    then obtain c' where c': "priv_check_loop h s (first_or ws None) ?c1 = Some c'" "cl_prev c' = last_or ws (Some (last rs))"
      "cl_rsize c' = (\<Sum>a\<leftarrow>rs. b_pos (h_mem h a))" "cl_wsize c' = room (h_mem h (last rs)) + (\<Sum>a\<leftarrow>ws. room (h_mem h a))"
      using check_ws[OF ws, of ?c1 s] I(6) False by (auto simp: last_or_nonempty)
    have "s_wsize s = cl_wsize c'" using c'(4) I(9) False by (auto simp: wlist_def)
    moreover have "s_tail s = cl_prev c'" using I(5) c'(2) False by (simp add: last_or_nonempty)
    moreover have "s_rsize s = cl_rsize c'" using sum c'(3) by simp
    moreover have "s_head s = Some a" using I(4) hd by simp
    moreover have "priv_check h s = do {
        c \<leftarrow> priv_check_loop h s (Some a) ?c; mg_assert (cl_prev c = s_tail s);
        mg_assert (cl_rsize c = s_rsize s); mg_assert (cl_wsize c = s_wsize s) }"
      using \<open>s_head s = Some a\<close> pos by (simp add: priv_check_def)
    ultimately show ?thesis using start c'(1) by simp
  qed
qed

lemma checked_ok: "stream_inv h s rs ws \<Longrightarrow> checked h s = Some (h, s)"
  by (simp add: checked_def priv_check_ok)


section \<open>Growing and filling\<close>

lemma s_head_nonempty: "stream_inv h s rs ws \<Longrightarrow> rs @ ws \<noteq> [] \<Longrightarrow> s_tail s = Some (last (rs @ ws)) \<and> s_head s \<noteq> None"
  using stream_invD(4,5)[of h s rs ws] by (cases rs; cases ws) (auto simp: last_or_nonempty)

text \<open>A new empty buffer after the tail.\<close>

lemma grow_tail_ok:
  assumes inv: "stream_inv h s rs ws" and "rs @ ws \<noteq> []" and "h_size h > 0"
  obtains a h' where "grow_tail h s = Some (h', s\<lparr>s_tail := Some a\<rparr>)"
    "stream_inv h' (s\<lparr>s_tail := Some a, s_wpos := first_or (wlist h rs ws) (Some a), s_wsize := s_wsize s + h_size h\<rparr>) rs (ws @ [a])"
    "wlist h' rs (ws @ [a]) = wlist h rs ws @ [a]" "content h' rs = content h rs" "h_size h' = h_size h"
    "room (h_mem h' a) = h_size h" "\<And>x. x \<in> set (rs @ ws) \<Longrightarrow> b_pos (h_mem h' x) = b_pos (h_mem h x) \<and> b_cap (h_mem h' x) = b_cap (h_mem h x)"
proof -
  note I = stream_invD[OF inv]
  obtain as t where t: "rs @ ws = as @ [t]" using assms(2) by (cases "rs @ ws" rule: rev_cases) auto
  define a h1 h' where "a = h_top h" and "h1 = snd (buffer_copy_new h)" and "h' = set_next t (Some a) h1"
  have n: "buffer_copy_new h = (a, h1)" by (simp add: a_def h1_def buffer_copy_new_def h_alloc_def)
  note N = buffer_copy_new_ok[OF n]
  have lt: "x < a" if "x \<in> set (rs @ ws)" for x using I(1) that by (auto simp: chain_def a_def)
  have c1: "chain h1 (as @ [t])" "content h1 (as @ [t]) = content h (as @ [t])"
    using chain_frame[of h "as @ [t]" "{}" h1] I(1) t N by auto
  have m: "h_mem h' x = (if x = t then (h_mem h x)\<lparr>b_next := Some a\<rparr> else h_mem h x)" if "x \<in> set (rs @ ws)" for x
    using lt[OF that] lt[of t] t by (simp add: h'_def h_set_mem h1_def buffer_copy_new_def h_alloc_def a_def)
  have pc: "b_pos (h_mem h' x) = b_pos (h_mem h x) \<and> b_cap (h_mem h' x) = b_cap (h_mem h x) \<and>
      readable (h_mem h' x) = readable (h_mem h x)" if "x \<in> set (rs @ ws)" for x
    using m[OF that] by (simp add: readable_def)
  have t_ne: "t \<noteq> a" using lt[of t] t by simp
  have ma: "b_pos (h_mem h' a) = 0" "b_cap (h_mem h' a) = h_size h"
    using t_ne by (simp_all add: h'_def h_set_mem h1_def buffer_copy_new_def h_alloc_def a_def)
  have "set (as @ [t]) \<inter> set [a] = {}" using lt unfolding t by fastforce
  from chain_join(1)[OF c1(1) _ this] have ch: "chain h' (rs @ ws @ [a])" using N t by (simp add: h'_def append_assoc[symmetric])
  have ct: "content h' rs = content h rs"
  proof -
    have "map (\<lambda>x. readable (h_mem h' x)) rs = map (\<lambda>x. readable (h_mem h x)) rs" using pc by simp
    then show ?thesis by (simp only: content_def)
  qed
  have rm: "room (h_mem h' x) = room (h_mem h x)" if "x \<in> set (rs @ ws)" for x using pc[OF that] by (simp add: room_def)
  have wl: "wlist h' rs (ws @ [a]) = wlist h rs ws @ [a]" by (cases "rs = []") (simp_all add: wlist_def rm)
  have "set (wlist h rs ws) \<subseteq> set (rs @ ws)" by (auto simp: wlist_def)
  then have "map (\<lambda>x. room (h_mem h' x)) (wlist h rs ws) = map (\<lambda>x. room (h_mem h x)) (wlist h rs ws)" using rm by auto
  then have wsz: "(\<Sum>x\<leftarrow>wlist h rs ws @ [a]. room (h_mem h' x)) = s_wsize s + h_size h"
    using I(9) ma by (simp only: map_append sum_list_append) (simp add: room_def)
  have "s_tail s = Some t" using I(5) t by (metis last_or_simps(2))
  then have g: "grow_tail h s = Some (h', s\<lparr>s_tail := Some a\<rparr>)" using n by (simp add: grow_tail_def h'_def)
  have "stream_inv h' (s\<lparr>s_tail := Some a, s_wpos := first_or (wlist h rs ws) (Some a), s_wsize := s_wsize s + h_size h\<rparr>) rs (ws @ [a])"
    using ch I(2-7) pc ma ct assms(2,3) wsz unfolding stream_inv_def wl by (cases rs; cases ws) auto
  moreover have "h_size h' = h_size h" using N by (simp add: h'_def)
  ultimately show thesis using that[OF g _ wl ct] ma pc by (simp add: room_def)
qed


text \<open>Bytes at the write position: the buffer gets them, and becomes readable when it was empty.\<close>

definition filled :: "buffer \<Rightarrow> u8 list \<Rightarrow> buffer \<Rightarrow> bool" where
  "filled b bs b' = (buf_ok b' \<and> b_pos b' = b_pos b + length bs \<and> b_cap b' = b_cap b \<and> b_next b' = b_next b \<and>
     readable b' = readable b @ bs)"

lemma wpos_cases:
  assumes "stream_inv h s rs ws" and "s_wpos s = Some w"
  obtains (partial) as where "rs = as @ [w]" "0 < room (h_mem h w)" "wlist h rs ws = w # ws"
  | (empty) vs where "ws = w # vs" "wlist h rs ws = ws" "rs \<noteq> [] \<longrightarrow> room (h_mem h (last rs)) = 0"
proof (cases "rs \<noteq> [] \<and> 0 < room (h_mem h (last rs))")
  case True
  then have "wlist h rs ws = last rs # ws" by (simp add: wlist_def)
  moreover from this have "w = last rs" using stream_invD(8)[OF assms(1)] assms(2) by simp
  ultimately show thesis using partial[of "butlast rs"] True by simp
next
  case False
  then have "wlist h rs ws = ws" by (simp add: wlist_def)
  moreover from this obtain vs where "ws = w # vs"
    using stream_invD(8)[OF assms(1)] assms(2) by (cases ws) auto
  ultimately show thesis using empty False by auto
qed

lemma fill_ok:
  assumes inv: "stream_inv h s rs ws" and w: "s_wpos s = Some w" and b: "filled (h_mem h w) bs b" and bs: "bs \<noteq> []"
  obtains rs' ws' where
    "stream_inv (h_put w b h) (s\<lparr>s_rsize := s_rsize s + length bs, s_rend := Some w, s_wsize := s_wsize s - length bs,
       s_wpos := if length bs = room (h_mem h w) then first_or (tl (wlist h rs ws)) None else Some w\<rparr>) rs' ws'"
    "content (h_put w b h) rs' = content h rs @ bs" "last rs' = w" "rs' \<noteq> []" "ws' = tl (wlist h rs ws)"
    "wlist (h_put w b h) rs' ws' = (if length bs = room (h_mem h w) then ws' else w # ws')"
proof -
  note I = stream_invD[OF inv]
  note B = b[unfolded filled_def]
  have rb: "room b = room (h_mem h w) - length bs" "length bs \<le> room (h_mem h w)"
    using B by (auto simp: room_def buf_ok_def)
  have np: "0 < length bs" using bs by simp
  have pos: "0 < b_pos b" using B np by simp
  let ?h = "h_put w b h"
  from inv w show thesis
  proof (cases rule: wpos_cases)
    case (partial as)
    then have d: "w \<notin> set as" "w \<notin> set ws" using I(1) by (auto simp: chain_def)
    have ch: "chain ?h (rs @ ws)" using I(1) partial B d nexts_of_def[of h w] by (auto simp: chain_def)
    have ca: "content ?h as = content h as" using d by (auto intro: content_cong)
    have sw: "(\<Sum>x\<leftarrow>ws. room (h_mem ?h x)) = (\<Sum>x\<leftarrow>ws. room (h_mem h x))"
      using d by (intro arg_cong[OF map_cong[OF refl]]) auto
    have ct: "content ?h rs = content h rs @ bs" using ca partial B by simp
    have wl: "wlist ?h rs ws = (if length bs = room (h_mem h w) then ws else w # ws)"
      using partial rb by (auto simp: wlist_def)
    have tl: "tl (wlist h rs ws) = ws" using partial by simp
    have "s_wsize s - length bs = (\<Sum>x\<leftarrow>wlist ?h rs ws. room (h_mem ?h x))"
      using I(9) partial wl sw rb by auto
    then have "stream_inv ?h (s\<lparr>s_rsize := s_rsize s + length bs, s_rend := Some w, s_wsize := s_wsize s - length bs,
       s_wpos := if length bs = room (h_mem h w) then first_or (tl (wlist h rs ws)) None else Some w\<rparr>) rs ws"
      unfolding stream_inv_def wl tl using ch I(2-7) partial pos ct d by auto
    then show thesis using that[OF _ ct] partial wl tl by simp
  next
    case (empty vs)
    then have d: "w \<notin> set rs" "w \<notin> set vs" using I(1) by (auto simp: chain_def)
    have ch: "chain ?h ((rs @ [w]) @ vs)" using I(1) empty B d nexts_of_def[of h w] by (auto simp: chain_def)
    have e: "readable (h_mem h w) = []" using I(3)[of w] empty by (simp add: readable_def)
    have "content ?h rs = content h rs" using d by (auto intro: content_cong)
    then have ct: "content ?h (rs @ [w]) = content h rs @ bs" using B e by simp
    have sw: "(\<Sum>x\<leftarrow>vs. room (h_mem ?h x)) = (\<Sum>x\<leftarrow>vs. room (h_mem h x))"
      using d by (intro arg_cong[OF map_cong[OF refl]]) auto
    have wl: "wlist ?h (rs @ [w]) vs = (if length bs = room (h_mem h w) then vs else w # vs)"
      using rb by (auto simp: wlist_def)
    have tl: "tl (wlist h rs ws) = vs" using empty by simp
    have "s_wsize s - length bs = (\<Sum>x\<leftarrow>wlist ?h (rs @ [w]) vs. room (h_mem ?h x))"
      using I(9) empty wl sw rb by auto
    then have "stream_inv ?h (s\<lparr>s_rsize := s_rsize s + length bs, s_rend := Some w, s_wsize := s_wsize s - length bs,
       s_wpos := if length bs = room (h_mem h w) then first_or (tl (wlist h rs ws)) None else Some w\<rparr>) (rs @ [w]) vs"
      unfolding stream_inv_def wl tl using ch I(2-7) empty pos ct d by auto
    then show thesis using that[OF _ ct] wl tl by simp
  qed
qed


section \<open>Writing\<close>

lemma first_writable_ok:
  assumes inv: "stream_inv h s rs ws" and "s_wpos s = None" and "h_size h > 0"
  obtains a h' s' where "first_writable b h s = Some (h', s')" "stream_inv h' s' rs [a]" "wlist h' rs [a] = [a]"
    "content h' rs = content h rs" "h_size h' = h_size h" "s_wpos s' = Some a" "room (h_mem h' a) = h_size h"
    "s_rsize s' = s_rsize s"
proof -
  note I = stream_invD[OF inv]
  have wl: "wlist h rs ws = []" using I(8) assms(2) by simp
  then have ws: "ws = []" "rs \<noteq> [] \<longrightarrow> room (h_mem h (last rs)) = 0" by (auto simp: wlist_def split: if_splits)
  have w0: "s_wsize s = 0" using I(9) wl by simp
  show thesis
  proof (cases "rs = []")
    case True
    obtain a h1 where n: "buffer_copy_new h = (a, h1)" by (cases "buffer_copy_new h")
    note N = buffer_copy_new_ok[OF n]
    let ?s = "s\<lparr>s_head := Some a, s_tail := Some a, s_wpos := Some a, s_wsize := h_size h\<rparr>"
    have "first_writable b h s = Some (h1, ?s)"
      using I ws True w0 n N(5) by (simp add: first_writable_def)
    moreover have "stream_inv h1 ?s [] [a]"
      using N assms(3) I(6,7) True by (simp add: stream_inv_def wlist_def)
    ultimately show thesis using that[of h1 ?s a] N True by (simp add: wlist_def)
  next
    case False
    obtain a h' where g: "grow_tail h s = Some (h', s\<lparr>s_tail := Some a\<rparr>)"
      "stream_inv h' (s\<lparr>s_tail := Some a, s_wpos := first_or (wlist h rs ws) (Some a), s_wsize := s_wsize s + h_size h\<rparr>) rs (ws @ [a])"
      "wlist h' rs (ws @ [a]) = wlist h rs ws @ [a]" "content h' rs = content h rs" "h_size h' = h_size h"
      "room (h_mem h' a) = h_size h"
      by (rule grow_tail_ok[OF inv _ assms(3)]) (use False in auto)
    have t: "s_tail s = Some (last rs)" "s_head s \<noteq> None" using s_head_nonempty[OF inv] False ws by auto
    have "b_pos (h_mem h (last rs)) = b_cap (h_mem h (last rs))"
      using ws False rs_chain[OF inv] by (auto simp: room_def buf_ok_def dest: bspec[where x = "last rs"])
    then have "first_writable b h s = Some (h', s\<lparr>s_tail := Some a, s_wpos := Some a, s_wsize := h_size h\<rparr>)"
      using t w0 g(1,5) I(6,7) by (auto simp: first_writable_def)
    then show thesis using that[of h' "s\<lparr>s_tail := Some a, s_wpos := Some a, s_wsize := h_size h\<rparr>" a] g ws wl w0 by simp
  qed
qed

lemma put_filled:
  assumes "buf_ok (h_mem h w)" and "length bs \<le> room (h_mem h w)"
  shows "put_bytes w (b_pos (h_mem h w)) bs h \<noteq> None"
    and "filled (h_mem h w) bs ((h_mem h w)\<lparr>b_data := take (b_pos (h_mem h w)) (b_data (h_mem h w)) @ bs @
           drop (b_pos (h_mem h w) + length bs) (b_data (h_mem h w)), b_pos := b_pos (h_mem h w) + length bs\<rparr>)"
  using assms by (auto simp: put_bytes_def Let_def buf_ok_def room_def filled_def readable_def)

lemma set_pos_put: "set_pos a n (h_put a b h) = h_put a (b\<lparr>b_pos := n\<rparr>) h"
  by (simp add: set_pos_def h_put_def)

text \<open>
  \<^verbatim>\<open>WriteCopy\<close>: the data follows the readable bytes. The write part of the stream must be a single
  buffer when the data do not fit into the first one.
\<close>

definition copy_room :: "bheap \<Rightarrow> nat list \<Rightarrow> nat list \<Rightarrow> nat \<Rightarrow> bool" where
  "copy_room h rs ws n = (case wlist h rs ws of [] \<Rightarrow> True | w # vs \<Rightarrow> vs = [] \<or> n < room (h_mem h w))"

lemma write_copy_loop_ok:
  assumes "stream_inv h s0 rs ws" and "s = s0\<lparr>s_rsize := n, s_rend := r\<rparr>" and "n = s_rsize s0 + length data" and "h_size h > 0"
    and "s_wpos s0 = Some w" and "copy_room h rs ws (length data)" and "data \<noteq> []"
  shows "\<exists>h' s' rs' ws'. write_copy_loop data h s = Some (h', s') \<and> stream_inv h' s' rs' ws' \<and>
    content h' rs' = content h rs @ data \<and> h_size h' = h_size h"
  using assms
proof (induction "length data" arbitrary: data h s s0 rs ws w r rule: less_induct)
  case less
  note inv = less.prems(1) and I = stream_invD[OF less.prems(1)]
  define cap where "cap = room (h_mem h w)"
  define bs where "bs = take cap data"
  have wl: "\<exists>vs. wlist h rs ws = w # vs" using I(8) less.prems(5) by (cases "wlist h rs ws") auto
  then have w: "0 < cap" "w \<in> set (rs @ ws)"
    using wlist_room[OF inv, of w] by (auto simp: cap_def wlist_def split: if_splits)
  have ok: "buf_ok (h_mem h w)" using w(2) I(1) by (auto simp: chain_def)
  have bs: "length bs \<le> room (h_mem h w)" "bs \<noteq> []" using w less.prems(7) by (auto simp: bs_def cap_def)
  define b where "b = (h_mem h w)\<lparr>b_data := take (b_pos (h_mem h w)) (b_data (h_mem h w)) @ bs @
           drop (b_pos (h_mem h w) + length bs) (b_data (h_mem h w)), b_pos := b_pos (h_mem h w) + length bs\<rparr>"
  define b0 where "b0 = (h_mem h w)\<lparr>b_data := take (b_pos (h_mem h w)) (b_data (h_mem h w)) @ bs @
           drop (b_pos (h_mem h w) + length bs) (b_data (h_mem h w))\<rparr>"
  have put: "put_bytes w (b_pos (h_mem h w)) bs h = Some (h_put w b0 h)"
    using put_filled(1)[OF ok bs(1)] by (simp add: put_bytes_def Let_def b0_def split: if_splits)
  have "filled (h_mem h w) bs b" using put_filled(2)[OF ok bs(1)] by (simp add: b_def)
  then obtain rs' ws' where F:
    "stream_inv (h_put w b h) (s0\<lparr>s_rsize := s_rsize s0 + length bs, s_rend := Some w, s_wsize := s_wsize s0 - length bs,
       s_wpos := if length bs = room (h_mem h w) then first_or (tl (wlist h rs ws)) None else Some w\<rparr>) rs' ws'"
    "content (h_put w b h) rs' = content h rs @ bs" "last rs' = w" "rs' \<noteq> []" "ws' = tl (wlist h rs ws)"
    "wlist (h_put w b h) rs' ws' = (if length bs = room (h_mem h w) then ws' else w # ws')"
    by (rule fill_ok[OF inv less.prems(5) _ bs(2)])
  have cap_b: "cap = b_cap (h_mem h w) - b_pos (h_mem h w)" "b_pos (h_mem h w) < b_cap (h_mem h w)"
    using w by (auto simp: cap_def room_def)
  have s_sel: "s_wpos s = Some w" "s_wsize s = s_wsize s0" "s_head s = s_head s0" "s_tail s = s_tail s0"
    using less.prems(2,5) by simp_all
  have wsz: "length bs \<le> s_wsize s0" using I(9) wl bs(1) by auto
  show ?case
  proof (cases "length data < cap")
    case True
    then have bsd: "bs = data" by (simp add: bs_def)
    let ?s = "s\<lparr>s_rend := Some w, s_wsize := s_wsize s0 - length data\<rparr>"
    have "?s = s0\<lparr>s_rsize := s_rsize s0 + length data, s_rend := Some w, s_wsize := s_wsize s0 - length data, s_wpos := Some w\<rparr>"
      using less.prems(2,3,5) by (cases s0) simp
    then have "stream_inv (h_put w b h) ?s rs' ws'" using F(1) True bsd by (simp add: cap_def)
    moreover have "h_put w b h = set_pos w (b_pos (h_mem h w) + length data) (h_put w b0 h)"
      by (simp add: set_pos_put b_def b0_def bsd)
    ultimately have "write_copy_loop data h s = Some (h_put w b h, ?s)"
      using True put bsd cap_b s_sel wsz checked_ok[of "h_put w b h" ?s rs' ws']
      by (subst write_copy_loop.simps) (simp add: usub_def)
    then show ?thesis using \<open>stream_inv (h_put w b h) ?s rs' ws'\<close> F(2) bsd by auto
  next
    case False
    then have lb: "length bs = cap" by (simp add: bs_def)
    have one: "tl (wlist h rs ws) = []"
      using less.prems(6) wl False by (auto simp: copy_room_def cap_def)
    have h2: "set_pos w (b_cap (h_mem (h_put w b0 h) w)) (h_put w b0 h) = h_put w b h"
      using lb cap_b by (simp add: set_pos_put b_def b0_def)
    have F1: "stream_inv (h_put w b h) (s0\<lparr>s_rsize := s_rsize s0 + length bs, s_rend := Some w, s_wsize := 0, s_wpos := None\<rparr>) rs' []"
    proof -
      have "s_wsize s0 = cap" using I(9) wl one by (auto simp: cap_def)
      then show ?thesis using F(1,5) lb one by (simp add: cap_def)
    qed
    show ?thesis
    proof (cases "cap = length data")
      case True
      then have bsd: "bs = data" by (simp add: bs_def)
      let ?s = "s\<lparr>s_rend := Some w, s_wpos := None, s_wsize := 0\<rparr>"
      have "?s = s0\<lparr>s_rsize := s_rsize s0 + length bs, s_rend := Some w, s_wsize := 0, s_wpos := None\<rparr>"
        using bsd less.prems(2,3) by (cases s0) simp
      then have inv': "stream_inv (h_put w b h) ?s rs' []" using F1 by simp
      then have "write_copy_loop data h s = Some (h_put w b h, ?s)"
        using True False put[unfolded bs_def] h2 cap_b s_sel checked_ok[OF inv']
        by (subst write_copy_loop.simps) (simp add: Let_def)
      then show ?thesis using inv' F(2) bsd by auto
    next
      case more: False
      let ?s1 = "s0\<lparr>s_rsize := s_rsize s0 + length bs, s_rend := Some w, s_wsize := 0, s_wpos := None\<rparr>"
      have wl': "wlist (h_put w b h) rs' [] = []" using F(5,6) one lb by (simp add: cap_def)
      obtain a h' where g: "grow_tail (h_put w b h) ?s1 = Some (h', ?s1\<lparr>s_tail := Some a\<rparr>)"
        "stream_inv h' (?s1\<lparr>s_tail := Some a, s_wpos := first_or (wlist (h_put w b h) rs' []) (Some a),
            s_wsize := s_wsize ?s1 + h_size (h_put w b h)\<rparr>) rs' ([] @ [a])"
        "wlist h' rs' ([] @ [a]) = wlist (h_put w b h) rs' [] @ [a]" "content h' rs' = content (h_put w b h) rs'"
        "h_size h' = h_size (h_put w b h)"
        by (rule grow_tail_ok[OF F1]) (use F(4) less.prems(4) in auto)
      have t: "s_tail s0 = Some w" "s_head s0 \<noteq> None" using s_head_nonempty[OF F1] F(3,4) by auto
      let ?s2 = "?s1\<lparr>s_tail := Some a, s_wpos := Some a, s_wsize := h_size h\<rparr>"
      have g2: "grow_tail (h_put w b h) s = Some (h', s\<lparr>s_tail := Some a\<rparr>)"
      proof -
        obtain x1 x2 where n: "buffer_copy_new (h_put w b h) = (x1, x2)" by (cases "buffer_copy_new (h_put w b h)")
        then have "?s1\<lparr>s_tail := Some x1\<rparr> = ?s1\<lparr>s_tail := Some a\<rparr>" "h' = set_next w (Some x1) x2"
          using g(1) t by (auto simp: grow_tail_def)
        then have "x1 = a" by (auto dest: arg_cong[where f = s_tail])
        then show ?thesis using n t s_sel \<open>h' = set_next w (Some x1) x2\<close> by (simp add: grow_tail_def)
      qed
      have "write_copy_loop data h s = write_copy_loop (drop cap data) h'
          (s\<lparr>s_tail := Some a, s_wpos := Some a, s_wsize := h_size h\<rparr>)"
      proof -
        have "b_pos (h_mem (h_put w b h) w) = b_cap (h_mem (h_put w b h) w)" using lb cap_b by (simp add: b_def)
        then show ?thesis
          using more False put[unfolded bs_def] h2 cap_b s_sel t g2 g(5) by (subst write_copy_loop.simps) (simp add: Let_def)
      qed
      moreover have "\<exists>h'' s' rs'' ws''. write_copy_loop (drop cap data) h'
          (s\<lparr>s_tail := Some a, s_wpos := Some a, s_wsize := h_size h\<rparr>) = Some (h'', s') \<and> stream_inv h'' s' rs'' ws'' \<and>
          content h'' rs'' = content h' rs' @ drop cap data \<and> h_size h'' = h_size h'"
      proof (rule less.hyps)
        show "length (drop cap data) < length data" "drop cap data \<noteq> []" using w(1) False more less.prems(7) by auto
        show "stream_inv h' ?s2 rs' [a]" using g(2) wl' by simp
        show "s\<lparr>s_tail := Some a, s_wpos := Some a, s_wsize := h_size h\<rparr> = ?s2\<lparr>s_rsize := n, s_rend := r\<rparr>"
          using less.prems(2) by (cases s0) simp
        show "n = s_rsize ?s2 + length (drop cap data)" using less.prems(3) lb False by simp
        show "0 < h_size h'" using g(5) less.prems(4) by simp
        show "s_wpos ?s2 = Some a" by simp
        show "copy_room h' rs' [a] (length (drop cap data))" using g(3) wl' by (simp add: copy_room_def)
      qed
      ultimately show ?thesis using g(4,5) F(2) by (auto simp: bs_def)
    qed
  qed
qed

lemma write_copy_ok:
  assumes "stream_inv h s rs ws" and "h_size h > 0" and "copy_room h rs ws (length data)"
  shows "\<exists>h' s' rs' ws'. write_copy data h s = Some (h', s') \<and> stream_inv h' s' rs' ws' \<and>
    content h' rs' = content h rs @ data \<and> h_size h' = h_size h"
proof (cases "data = []")
  case True
  then show ?thesis using assms(1) by (intro exI) (auto simp: write_copy_def)
next
  case False
  show ?thesis
  proof (cases "s_wpos s")
    case None
    obtain a h1 s1 where f: "first_writable True h s = Some (h1, s1)" "stream_inv h1 s1 rs [a]" "wlist h1 rs [a] = [a]"
      "content h1 rs = content h rs" "h_size h1 = h_size h" "s_wpos s1 = Some a" "s_rsize s1 = s_rsize s"
      by (rule first_writable_ok[OF assms(1) None assms(2)])
    have "copy_room h1 rs [a] (length data)" using f(3) by (simp add: copy_room_def)
    from write_copy_loop_ok[OF f(2) _ refl _ f(6) this False, of "s1\<lparr>s_rsize := s_rsize s1 + length data\<rparr>" "s_rend s1"]
    show ?thesis using f None False assms(2) by (simp add: write_copy_def)
  next
    case (Some w)
    from write_copy_loop_ok[OF assms(1) _ refl assms(2) Some assms(3) False, of "s\<lparr>s_rsize := s_rsize s + length data\<rparr>" "s_rend s"]
    show ?thesis using Some False by (simp add: write_copy_def)
  qed
qed


section \<open>Reserving, and growing in place\<close>

text \<open>The memory after the positions of the write buffers, where a receiver puts its bytes.\<close>

definition wbytes :: "bheap \<Rightarrow> nat list \<Rightarrow> u8 list" where
  "wbytes h as = concat (map (\<lambda>a. drop (b_pos (h_mem h a)) (b_data (h_mem h a))) as)"

lemma ensure_loop_ok:
  assumes "stream_inv h s rs ws" and "rs @ ws \<noteq> []" and "wlist h rs ws \<noteq> []" and "h_size h > 0"
  shows "\<exists>h' s' as. ensure_loop n h s = Some (h', s') \<and> stream_inv h' s' rs (ws @ as) \<and> n \<le> s_wsize s' \<and>
    content h' rs = content h rs \<and> h_size h' = h_size h \<and> s_wpos s' = s_wpos s \<and> wlist h' rs (ws @ as) \<noteq> []"
  using assms
proof (induction "n - s_wsize s" arbitrary: h s ws rule: less_induct)
  case less
  obtain a h' where g: "grow_tail h s = Some (h', s\<lparr>s_tail := Some a\<rparr>)"
    "stream_inv h' (s\<lparr>s_tail := Some a, s_wpos := first_or (wlist h rs ws) (Some a), s_wsize := s_wsize s + h_size h\<rparr>) rs (ws @ [a])"
    "wlist h' rs (ws @ [a]) = wlist h rs ws @ [a]" "content h' rs = content h rs" "h_size h' = h_size h"
    by (rule grow_tail_ok[OF less.prems(1,2,4)])
  let ?s = "s\<lparr>s_tail := Some a, s_wsize := s_wsize s + h_size h\<rparr>"
  have "s_wpos s = first_or (wlist h rs ws) (Some a)"
    using stream_invD(8)[OF less.prems(1)] less.prems(3) by (cases "wlist h rs ws") auto
  then have "s\<lparr>s_tail := Some a, s_wpos := first_or (wlist h rs ws) (Some a), s_wsize := s_wsize s + h_size h\<rparr> = ?s"
    by (cases s) simp
  with g(2) have inv': "stream_inv h' ?s rs (ws @ [a])" by simp
  show ?case
  proof (cases "s_wsize ?s < n")
    case True
    have eq: "ensure_loop n h s = ensure_loop n h' ?s"
      using g(1,5) True by (subst ensure_loop.simps) (simp add: Let_def)
    have "n - s_wsize ?s < n - s_wsize s" using True less.prems(4) by simp
    from less.hyps[OF this inv'] obtain h2 s2 as where R: "ensure_loop n h' ?s = Some (h2, s2)"
      "stream_inv h2 s2 rs ((ws @ [a]) @ as)" "n \<le> s_wsize s2" "content h2 rs = content h' rs" "h_size h2 = h_size h'"
      "s_wpos s2 = s_wpos ?s" "wlist h2 rs ((ws @ [a]) @ as) \<noteq> []"
      using g(3,5) less.prems(4) by auto
    then show ?thesis using eq g(4,5) by (intro exI[where x = h2] exI[where x = s2] exI[where x = "a # as"]) simp
  next
    case False
    then have "ensure_loop n h s = Some (h', ?s)" using g(1,5) by (subst ensure_loop.simps) (simp add: Let_def)
    then show ?thesis using inv' g False by (intro exI[where x = h'] exI[where x = ?s] exI[where x = "[a]"]) simp
  qed
qed

lemma ensure_write_size_ok:
  assumes inv: "stream_inv h s rs ws" and hs: "h_size h > 0"
  shows "\<exists>h' s' ws'. ensure_write_size n h s = Some (h', s') \<and> stream_inv h' s' rs ws' \<and> n \<le> s_wsize s' \<and>
    content h' rs = content h rs \<and> h_size h' = h_size h"
proof (cases "s_wsize s \<ge> n")
  case True
  then show ?thesis using inv by (intro exI) (auto simp: ensure_write_size_def)
next
  case False
  have fin: "\<exists>h' s' ws'. (do { (h2, s2) \<leftarrow> ensure_loop n h1 s1; w \<leftarrow> s_wpos s2; mg_assert (b_pos (h_mem h2 w) < b_cap (h_mem h2 w));
      checked h2 s2 }) = Some (h', s') \<and> stream_inv h' s' rs ws' \<and> n \<le> s_wsize s' \<and>
    content h' rs = content h1 rs \<and> h_size h' = h_size h1"
    if i: "stream_inv h1 s1 rs vs" "wlist h1 rs vs \<noteq> []" "h_size h1 > 0" for h1 s1 vs
  proof -
    have "rs @ vs \<noteq> []" using i(2) by (auto simp: wlist_def)
    from ensure_loop_ok[OF i(1) this i(2,3)] obtain h2 s2 as where R: "ensure_loop n h1 s1 = Some (h2, s2)"
      "stream_inv h2 s2 rs (vs @ as)" "n \<le> s_wsize s2" "content h2 rs = content h1 rs" "h_size h2 = h_size h1"
      "wlist h2 rs (vs @ as) \<noteq> []" by blast
    then obtain w us where wl: "wlist h2 rs (vs @ as) = w # us" by (cases "wlist h2 rs (vs @ as)") auto
    then have "s_wpos s2 = Some w" "0 < room (h_mem h2 w)"
      using stream_invD(8)[OF R(2)] wlist_room[OF R(2), of w] by auto
    then show ?thesis using R checked_ok[OF R(2)] by (auto simp: room_def)
  qed
  show ?thesis
  proof (cases "s_wpos s")
    case None
    obtain a h1 s1 where f: "first_writable False h s = Some (h1, s1)" "stream_inv h1 s1 rs [a]" "wlist h1 rs [a] = [a]"
      "content h1 rs = content h rs" "h_size h1 = h_size h" "s_wpos s1 = Some a"
      by (rule first_writable_ok[OF inv None hs])
    show ?thesis
    proof (cases "n \<le> s_wsize s1")
      case True
      then show ?thesis
        using f None False checked_ok[OF f(2)] by (intro exI[where x = h1] exI[where x = s1] exI[where x = "[a]"])
          (simp add: ensure_write_size_def)
    next
      case n: False
      show ?thesis using fin[OF f(2)] f hs None False n by (simp add: ensure_write_size_def)
    qed
  next
    case (Some w)
    then have "wlist h rs ws \<noteq> []" using stream_invD(8)[OF inv] by auto
    from fin[OF inv this hs] show ?thesis using Some False by (simp add: ensure_write_size_def)
  qed
qed

lemma set_pos_filled:
  assumes "buf_ok (h_mem h w)" and "n \<le> room (h_mem h w)"
  shows "filled (h_mem h w) (take n (drop (b_pos (h_mem h w)) (b_data (h_mem h w)))) ((h_mem h w)\<lparr>b_pos := b_pos (h_mem h w) + n\<rparr>)"
    and "length (take n (drop (b_pos (h_mem h w)) (b_data (h_mem h w)))) = n"
  using assms by (auto simp: buf_ok_def room_def filled_def readable_def take_add)

lemma propagate_wpos_ok:
  assumes "stream_inv h s rs ws" and "0 < n" and "n \<le> s_wsize s"
  shows "\<exists>p h' rs' ws'. propagate_on_write (s_wpos s) n h = Some (Some p, h') \<and>
    stream_inv h' (s\<lparr>s_rsize := s_rsize s + n, s_rend := Some p, s_wsize := s_wsize s - n,
       s_wpos := if room (h_mem h' p) = 0 then b_next (h_mem h' p) else Some p\<rparr>) rs' ws' \<and>
    content h' rs' = content h rs @ take n (wbytes h (wlist h rs ws)) \<and> h_size h' = h_size h"
  using assms
proof (induction n arbitrary: h s rs ws rule: less_induct)
  case (less n)
  note inv = less.prems(1) and I = stream_invD[OF less.prems(1)]
  obtain w vs where wl: "wlist h rs ws = w # vs" using I(9) less.prems(2,3) by (cases "wlist h rs ws") auto
  then have wp: "s_wpos s = Some w" and rm: "0 < room (h_mem h w)" and wi: "w \<in> set (rs @ ws)"
    using I(8) wlist_room[OF inv, of w] by (auto simp: wlist_def split: if_splits)
  have ok: "buf_ok (h_mem h w)" using wi I(1) by (auto simp: chain_def)
  define k where "k = min n (room (h_mem h w))"
  define bs where "bs = take k (drop (b_pos (h_mem h w)) (b_data (h_mem h w)))"
  define b where "b = (h_mem h w)\<lparr>b_pos := b_pos (h_mem h w) + k\<rparr>"
  have k: "0 < k" "k \<le> n" "k \<le> room (h_mem h w)" using less.prems(2) rm by (auto simp: k_def)
  have lb: "length bs = k" using set_pos_filled(2)[OF ok k(3)] by (simp add: bs_def)
  have "bs \<noteq> []" using k(1) lb by auto
  have fl: "filled (h_mem h w) bs b" using set_pos_filled(1)[OF ok k(3)] by (simp add: bs_def b_def)
  obtain rs' ws' where F:
    "stream_inv (h_put w b h) (s\<lparr>s_rsize := s_rsize s + k, s_rend := Some w, s_wsize := s_wsize s - k,
       s_wpos := if k = room (h_mem h w) then first_or vs None else Some w\<rparr>) rs' ws'"
    "content (h_put w b h) rs' = content h rs @ bs" "last rs' = w" "rs' \<noteq> []" "ws' = vs"
    "wlist (h_put w b h) rs' ws' = (if k = room (h_mem h w) then ws' else w # ws')"
    by (rule fill_ok[OF inv wp fl \<open>bs \<noteq> []\<close>, unfolded lb wl list.sel])
  have bset: "h_put w b h = set_pos w (b_pos (h_mem h w) + k) h" by (simp add: b_def set_pos_def)
  have rb: "room (h_mem (h_put w b h) w) = room (h_mem h w) - k" by (simp add: b_def room_def)
  have nx: "b_next (h_mem (h_put w b h) w) = first_or vs None"
  proof -
    obtain as where "rs' = as @ [w]" using F(3,4) by (metis append_butlast_last_id)
    then show ?thesis using stream_invD(1)[OF F(1)] F(5) by (auto simp: chain_def nexts_of_def)
  qed
  have cap: "b_pos (h_mem h w) < b_cap (h_mem h w)" using rm by (simp add: room_def)
  show ?case
  proof (cases "n \<le> room (h_mem h w)")
    case True
    then have kn: "k = n" by (simp add: k_def)
    have "propagate_on_write (Some w) n h = Some (Some w, h_put w b h)"
      using True less.prems(2) cap bset kn by (subst propagate_on_write.simps) (auto simp: usub_def room_def)
    moreover have "take n (wbytes h (wlist h rs ws)) = bs" using lb kn wl ok True by (simp add: wbytes_def bs_def room_def buf_ok_def)
    moreover have "(k = room (h_mem h w)) = (room (h_mem (h_put w b h) w) = 0)" using rb k by auto
    ultimately have "propagate_on_write (s_wpos s) n h = Some (Some w, h_put w b h) \<and>
      stream_inv (h_put w b h) (s\<lparr>s_rsize := s_rsize s + n, s_rend := Some w, s_wsize := s_wsize s - n,
        s_wpos := if room (h_mem (h_put w b h) w) = 0 then b_next (h_mem (h_put w b h) w) else Some w\<rparr>) rs' ws' \<and>
      content (h_put w b h) rs' = content h rs @ take n (wbytes h (wlist h rs ws)) \<and> h_size (h_put w b h) = h_size h"
      using F(1,2) wp kn nx by (auto split: if_splits)
    then show ?thesis by blast
  next
    case False
    then have kr: "k = room (h_mem h w)" by (simp add: k_def)
    let ?s = "s\<lparr>s_rsize := s_rsize s + k, s_rend := Some w, s_wsize := s_wsize s - k, s_wpos := first_or vs None\<rparr>"
    have inv': "stream_inv (h_put w b h) ?s rs' vs" using F(1,5) kr by simp
    have "propagate_on_write (Some w) n h = propagate_on_write (first_or vs None) (n - k) (h_put w b h)"
      using False less.prems(2) cap bset kr nx by (subst propagate_on_write.simps) (auto simp: usub_def room_def Let_def)
    moreover have "n - k < n" "0 < n - k" "n - k \<le> s_wsize ?s" using k False kr less.prems(3) by auto
    from less.IH[OF this(1) inv' this(2,3)] obtain p h' rs2 ws2 where R:
      "propagate_on_write (s_wpos ?s) (n - k) (h_put w b h) = Some (Some p, h')"
      "stream_inv h' (?s\<lparr>s_rsize := s_rsize ?s + (n - k), s_rend := Some p, s_wsize := s_wsize ?s - (n - k),
         s_wpos := if room (h_mem h' p) = 0 then b_next (h_mem h' p) else Some p\<rparr>) rs2 ws2"
      "content h' rs2 = content (h_put w b h) rs' @ take (n - k) (wbytes (h_put w b h) (wlist (h_put w b h) rs' vs))"
      "h_size h' = h_size (h_put w b h)" by blast
    moreover have "wbytes (h_put w b h) vs = wbytes h vs"
    proof -
      have "rs \<noteq> [] \<Longrightarrow> last rs \<notin> set ws" using I(1) last_in_set[of rs] by (auto simp: chain_def disjoint_iff)
      then have "w \<notin> set vs" using I(1) wl by (auto simp: chain_def wlist_def split: if_splits)
      then have "map (\<lambda>a. drop (b_pos (h_mem (h_put w b h) a)) (b_data (h_mem (h_put w b h) a))) vs =
          map (\<lambda>a. drop (b_pos (h_mem h a)) (b_data (h_mem h a))) vs" by auto
      then show ?thesis by (simp only: wbytes_def)
    qed
    moreover have "take n (wbytes h (wlist h rs ws)) = bs @ take (n - k) (wbytes h vs)"
    proof -
      have l: "length (drop (b_pos (h_mem h w)) (b_data (h_mem h w))) = k" using ok kr by (simp add: buf_ok_def room_def)
      then have "bs = drop (b_pos (h_mem h w)) (b_data (h_mem h w))" by (simp add: bs_def)
      then show ?thesis using l k(2) by (simp add: wbytes_def wl)
    qed
    moreover have "wlist (h_put w b h) rs' vs = vs" using F(5,6) kr by simp
    ultimately have "propagate_on_write (s_wpos s) n h = Some (Some p, h') \<and>
      stream_inv h' (s\<lparr>s_rsize := s_rsize s + n, s_rend := Some p, s_wsize := s_wsize s - n,
        s_wpos := if room (h_mem h' p) = 0 then b_next (h_mem h' p) else Some p\<rparr>) rs2 ws2 \<and>
      content h' rs2 = content h rs @ take n (wbytes h (wlist h rs ws)) \<and> h_size h' = h_size h"
      using F(2) wp k(2) by (cases s) simp
    then show ?thesis by blast
  qed
qed

lemma propagate_write_pos_ok:
  assumes inv: "stream_inv h s rs ws" and n: "0 < n" "n \<le> s_wsize s"
  shows "\<exists>h' s' rs' ws'. propagate_write_pos n h s = Some (h', s') \<and> stream_inv h' s' rs' ws' \<and>
    content h' rs' = content h rs @ take n (wbytes h (wlist h rs ws)) \<and> h_size h' = h_size h"
proof -
  obtain p h' rs' ws' where P: "propagate_on_write (s_wpos s) n h = Some (Some p, h')"
    "stream_inv h' (s\<lparr>s_rsize := s_rsize s + n, s_rend := Some p, s_wsize := s_wsize s - n,
       s_wpos := if room (h_mem h' p) = 0 then b_next (h_mem h' p) else Some p\<rparr>) rs' ws'"
    "content h' rs' = content h rs @ take n (wbytes h (wlist h rs ws))" "h_size h' = h_size h"
    using propagate_wpos_ok[OF assms] by blast
  let ?s = "s\<lparr>s_rsize := s_rsize s + n, s_rend := Some p, s_wsize := s_wsize s - n,
       s_wpos := if room (h_mem h' p) = 0 then b_next (h_mem h' p) else Some p\<rparr>"
  note I = stream_invD[OF P(2)]
  have pin: "p \<in> set rs'" "rs' \<noteq> []" "p = last rs'" using I(6) by (auto simp: last_or_def split: if_splits)
  then have ok: "b_pos (h_mem h' p) \<le> b_cap (h_mem h' p)" using rs_chain[OF P(2)] by (auto simp: buf_ok_def)
  have full: "(b_pos (h_mem h' p) = b_cap (h_mem h' p)) = (room (h_mem h' p) = 0)" using ok by (auto simp: room_def)
  have wl: "wlist h' rs' ws' = (if room (h_mem h' p) = 0 then ws' else p # ws')" using pin by (auto simp: wlist_def)
  have re: "s\<lparr>s_wpos := q, s_wsize := m, s_rsize := m', s_rend := Some p\<rparr> =
      s\<lparr>s_rsize := m', s_rend := Some p, s_wsize := m, s_wpos := q\<rparr>"
    "s\<lparr>s_wsize := m, s_rsize := m', s_rend := Some p, s_wpos := q\<rparr> =
      s\<lparr>s_rsize := m', s_rend := Some p, s_wsize := m, s_wpos := q\<rparr>" for q m m' by (cases s; simp)+
  have "propagate_write_pos n h s = checked h' ?s"
  proof (cases "s_wsize s - n = 0")
    case True
    then have "wlist h' rs' ws' = []" using I(9) wlist_room[OF P(2)] by (cases "wlist h' rs' ws'") fastforce+
    then have "room (h_mem h' p) = 0" "b_next (h_mem h' p) = None" using wl I(8) by (auto split: if_splits)
    then show ?thesis using P(1) n full True by (simp add: propagate_write_pos_def Let_def re)
  next
    case False
    then have ne: "wlist h' rs' ws' \<noteq> []" using I(9) by auto
    show ?thesis
    proof (cases "room (h_mem h' p) = 0")
      case True
      then obtain v vs where v: "ws' = v # vs" "b_next (h_mem h' p) = Some v" using ne wl I(8) by (cases ws') auto
      then have "b_pos (h_mem h' v) < b_cap (h_mem h' v)" using I(3)[of v] by simp
      then show ?thesis using True v P(1) n full False by (simp add: propagate_write_pos_def Let_def re)
    next
      case nf: False
      have "?s = s\<lparr>s_rsize := s_rsize s + n, s_rend := Some p, s_wsize := s_wsize s - n, s_wpos := Some p\<rparr>"
        using nf by simp
      then show ?thesis using nf P(1) n full False by (simp add: propagate_write_pos_def Let_def re)
    qed
  qed
  then have "propagate_write_pos n h s = Some (h', ?s)" using checked_ok[OF P(2)] by (simp only:)
  then show ?thesis using P(2-4) by blast
qed


section \<open>Reading\<close>

text \<open>Dropping the first buffer, taking bytes off it, and forgetting a read end.\<close>

lemma stream_inv_drop:
  assumes inv: "stream_inv h s (a # rs) ws" and "rs \<noteq> [] \<or> room (h_mem h a) = 0" and b: "b_next b = None"
  shows "stream_inv (h_put a b h) (s\<lparr>s_head := first_or (rs @ ws) None, s_rsize := s_rsize s - b_pos (h_mem h a),
      s_rend := if rs = [] then None else s_rend s, s_tail := if rs @ ws = [] then None else s_tail s\<rparr>) rs ws"
    and "content (h_put a b h) rs = content h rs"
proof -
  note I = stream_invD[OF inv]
  have d: "a \<notin> set rs" "a \<notin> set ws" "buf_ok (h_mem h a)" using I(1) by (auto simp: chain_def)
  have ch: "chain (h_put a b h) (rs @ ws)" using I(1) d by (auto simp: chain_def)
  show ct: "content (h_put a b h) rs = content h rs" using d by (intro content_cong) auto
  have wl: "wlist h (a # rs) ws = wlist h rs ws" "wlist (h_put a b h) rs ws = wlist h rs ws"
    using assms(2) d by (auto simp: wlist_def split: if_splits)
  have "a \<notin> set (wlist h rs ws)" using d by (auto simp: wlist_def)
  then have "(\<Sum>x\<leftarrow>wlist h rs ws. room (h_mem (h_put a b h) x)) = (\<Sum>x\<leftarrow>wlist h rs ws. room (h_mem h x))"
    by (intro arg_cong[OF map_cong[OF refl]]) auto
  then show "stream_inv (h_put a b h) (s\<lparr>s_head := first_or (rs @ ws) None, s_rsize := s_rsize s - b_pos (h_mem h a),
      s_rend := if rs = [] then None else s_rend s, s_tail := if rs @ ws = [] then None else s_tail s\<rparr>) rs ws"
    unfolding stream_inv_def wl using ch ct d I(2-9)[unfolded wl] by (auto simp: last_or_def)
qed

lemma stream_inv_shrink:
  assumes inv: "stream_inv h s (a # rs) ws" and "k < b_pos (h_mem h a)" and b: "b = shrunk k (h_mem h a)"
  shows "stream_inv (h_put a b h) (s\<lparr>s_rsize := s_rsize s - k\<rparr>) (a # rs) ws"
    and "content (h_put a b h) (a # rs) = drop k (content h (a # rs))"
proof -
  note I = stream_invD[OF inv]
  have d: "a \<notin> set rs" "a \<notin> set ws" "buf_ok (h_mem h a)" using I(1) by (auto simp: chain_def)
  have ok: "buf_ok b" using d assms(2) b by (simp add: buf_ok_shrunk)
  have ch: "chain (h_put a b h) ((a # rs) @ ws)"
    using I(1) d ok b nexts_of_def[of h a] by (auto simp: chain_def)
  have "content (h_put a b h) rs = content h rs" using d by (intro content_cong) auto
  then show ct: "content (h_put a b h) (a # rs) = drop k (content h (a # rs))"
    using assms(2) b d by (simp add: readable_shrunk)
  have rm: "room (h_mem (h_put a b h) x) = room (h_mem h x)" for x
    using b assms(2) by (simp add: room_def)
  have wl: "wlist (h_put a b h) (a # rs) ws = wlist h (a # rs) ws" using rm by (simp add: wlist_def del: h_put_sel)
  have "(\<Sum>x\<leftarrow>wlist h (a # rs) ws. room (h_mem (h_put a b h) x)) = (\<Sum>x\<leftarrow>wlist h (a # rs) ws. room (h_mem h x))"
    by (simp only: rm)
  moreover have "s_rsize s - k = length (content (h_put a b h) (a # rs))" unfolding ct using I(7) by simp
  moreover have "\<forall>x \<in> set (a # rs). 0 < b_pos (h_mem (h_put a b h) x)" using I(2) assms(2) b by auto
  moreover have "\<forall>x \<in> set ws. b_pos (h_mem (h_put a b h) x) = 0 \<and> 0 < b_cap (h_mem (h_put a b h) x)" using I(3) d by auto
  ultimately show "stream_inv (h_put a b h) (s\<lparr>s_rsize := s_rsize s - k\<rparr>) (a # rs) ws"
    unfolding stream_inv_def wl using ch I(4-6,8,9) by (simp del: h_put_sel)
qed

text \<open>The last readable buffer, read to its end, becomes the first of the empty ones when it has room.\<close>

lemma stream_inv_reuse:
  assumes inv: "stream_inv h s [a] ws" and "0 < room (h_mem h a)" and b: "b = shrunk (b_pos (h_mem h a)) (h_mem h a)"
  shows "stream_inv (h_put a b h) (s\<lparr>s_rsize := 0, s_rend := None\<rparr>) [] (a # ws)"
proof -
  note I = stream_invD[OF inv]
  have d: "a \<notin> set ws" "buf_ok (h_mem h a)" using I(1) by (auto simp: chain_def)
  have ok: "buf_ok b" using d b by (simp add: buf_ok_shrunk)
  have ch: "chain (h_put a b h) (a # ws)"
    using I(1) d ok b nexts_of_def[of h a] by (auto simp: chain_def)
  have rm: "room (h_mem (h_put a b h) x) = room (h_mem h x)" for x
    using b d(2) by (simp add: room_def buf_ok_def)
  have wl: "wlist (h_put a b h) [] (a # ws) = a # ws" "wlist h [a] ws = a # ws" using assms(2) by (simp_all add: wlist_def)
  have "(\<Sum>x\<leftarrow>a # ws. room (h_mem (h_put a b h) x)) = (\<Sum>x\<leftarrow>a # ws. room (h_mem h x))" by (simp only: rm)
  moreover have "\<forall>x \<in> set (a # ws). b_pos (h_mem (h_put a b h) x) = 0 \<and> 0 < b_cap (h_mem (h_put a b h) x)"
    using I(3) d b assms(2) by (auto simp: room_def)
  ultimately show ?thesis
    unfolding stream_inv_def wl using ch I(4-6,8,9)[unfolded wl] by (simp del: h_put_sel)
qed


lemma wpos_not_head:
  assumes inv: "stream_inv h s (a # rs) ws" and "rs \<noteq> [] \<or> room (h_mem h a) = 0"
  shows "s_wpos s \<noteq> Some a"
proof -
  have "a \<notin> set (wlist h (a # rs) ws)"
    using stream_invD(1)[OF inv] assms(2) last_in_set[of rs] by (auto simp: chain_def wlist_def disjoint_iff split: if_splits)
  then show ?thesis using stream_invD(8)[OF inv] by (cases "wlist h (a # rs) ws") auto
qed

lemma stream_clear_ok: "stream_clear h s = Some (h, stream_new)"
proof -
  have "s\<lparr>s_head := None, s_rsize := 0, s_rend := None, s_wpos := None, s_wsize := 0, s_tail := None\<rparr> = stream_new"
    by (cases s) (simp add: stream_new_def)
  then show ?thesis using checked_ok[OF stream_inv_new, of h] by (simp add: stream_clear_def)
qed

lemma h_put_put [simp]: "h_put a b' (h_put a b h) = h_put a b' h"
  by (simp add: h_put_def)

lemma stream_inv_ConsD:
  assumes "stream_inv h s (a # rs) ws"
  shows "s_head s = Some a" "buf_ok (h_mem h a)" "0 < b_pos (h_mem h a)"
    "s_rsize s = b_pos (h_mem h a) + length (content h rs)" "b_next (h_mem h a) = first_or (rs @ ws) None"
    "length (readable (h_mem h a)) = b_pos (h_mem h a)" "content h rs = [] \<longleftrightarrow> rs = []"
    "\<And>n. n > 0 \<Longrightarrow> n = b_pos (h_mem h a) \<Longrightarrow> (s_rsize s - n = 0) = (rs = [])"
proof -
  note I = stream_invD[OF assms]
  show B: "buf_ok (h_mem h a)" using I(1) by (auto simp: chain_def)
  then show "s_rsize s = b_pos (h_mem h a) + length (content h rs)" using I(7) by simp
  show "s_head s = Some a" "0 < b_pos (h_mem h a)" using I(2,4) by simp_all
  show "length (readable (h_mem h a)) = b_pos (h_mem h a)" using B by simp
  show "b_next (h_mem h a) = first_or (rs @ ws) None" using I(1) chain_ConsD[of h a "rs @ ws"] by simp
  have "chain h (rs @ ws)" using I(1) chain_ConsD[of h a "rs @ ws"] by simp
  then show C: "content h rs = [] \<longleftrightarrow> rs = []" using I(2)[of "hd rs"]
    by (cases rs) (auto dest!: chain_ConsD simp: readable_def buf_ok_def)
  show "\<And>n. n > 0 \<Longrightarrow> n = b_pos (h_mem h a) \<Longrightarrow> (s_rsize s - n = 0) = (rs = [])"
    using C I(7) B by simp
qed

text \<open>Dropping a buffer whose data are read: \<open>drop_head\<close> keeps the invariant.\<close>

lemma drop_head_ok:
  assumes inv: "stream_inv h s0 (a # rs) ws" and "rs \<noteq> [] \<or> room (h_mem h a) = 0" and b: "b_next b = b_next (h_mem h a)"
    and s: "s = s0\<lparr>s_rsize := s_rsize s0 - b_pos (h_mem h a), s_rend := if rs = [] then None else s_rend s0\<rparr>"
  shows "\<exists>h' s'. drop_head a (h_put a b h) s = Some (h', s') \<and> stream_inv h' s' rs ws \<and> content h' rs = content h rs \<and>
    h_size h' = h_size h"
proof -
  note C = stream_inv_ConsD[OF inv]
  have t: "take_next a (h_put a b h) = (first_or (rs @ ws) None, h_put a (b\<lparr>b_next := None\<rparr>) h)"
    using b C(5) by (simp add: take_next_def set_next_def)
  have D: "stream_inv (h_put a (b\<lparr>b_next := None\<rparr>) h) (s0\<lparr>s_head := first_or (rs @ ws) None, s_rsize := s_rsize s0 - b_pos (h_mem h a),
      s_rend := if rs = [] then None else s_rend s0, s_tail := if rs @ ws = [] then None else s_tail s0\<rparr>) rs ws"
    "content (h_put a (b\<lparr>b_next := None\<rparr>) h) rs = content h rs"
    using stream_inv_drop[OF inv assms(2), of "b\<lparr>b_next := None\<rparr>"] by simp_all
  show ?thesis
  proof (cases "rs @ ws = []")
    case True
    then have "s_wsize s0 = 0" using stream_invD(9)[OF inv] assms(2) by (simp add: wlist_def)
    then have "drop_head a (h_put a b h) s = Some (h_put a (b\<lparr>b_next := None\<rparr>) h, stream_new)"
      using t True s by (simp add: drop_head_def stream_clear_ok)
    then show ?thesis using True stream_inv_new by auto
  next
    case False
    have "s\<lparr>s_head := first_or (rs @ ws) None\<rparr> = s0\<lparr>s_head := first_or (rs @ ws) None, s_rsize := s_rsize s0 - b_pos (h_mem h a),
      s_rend := if rs = [] then None else s_rend s0, s_tail := if rs @ ws = [] then None else s_tail s0\<rparr>"
      using s False by (cases s0) auto
    then have "drop_head a (h_put a b h) s = Some (h_put a (b\<lparr>b_next := None\<rparr>) h, s\<lparr>s_head := first_or (rs @ ws) None\<rparr>)"
      "stream_inv (h_put a (b\<lparr>b_next := None\<rparr>) h) (s\<lparr>s_head := first_or (rs @ ws) None\<rparr>) rs ws"
      using t False D(1) by (simp_all add: drop_head_def)
    then show ?thesis using D(2) by simp
  qed
qed

lemma buffer_propagate_ok:
  "buf_ok (h_mem h a) \<Longrightarrow> n \<le> b_pos (h_mem h a) \<Longrightarrow> buffer_propagate a n h = Some (h_put a (shrunk n (h_mem h a)) h)"
  by (simp add: buffer_propagate_def shrunk_def buf_ok_def Let_def)

lemma skip_last_ok:
  assumes inv: "stream_inv h s (a # rs) ws" and n: "0 < n" "n \<le> b_pos (h_mem h a)"
  shows "\<exists>h' s' rs' ws'. do { (head, h1) \<leftarrow> propagate_on_read (s_head s) n h; skip_end h1 (s\<lparr>s_head := head, s_rsize := s_rsize s - n\<rparr>) } =
      Some (h', s') \<and> stream_inv h' s' rs' ws' \<and> content h' rs' = drop n (content h (a # rs)) \<and> h_size h' = h_size h"
proof -
  note C = stream_inv_ConsD[OF inv] and I = stream_invD[OF inv]
  let ?b = "shrunk n (h_mem h a)"
  have P: "propagate_on_read (s_head s) n h =
      (if b_cap (h_mem h a) = n then Some (first_or (rs @ ws) None, h_put a (?b\<lparr>b_next := None\<rparr>) h) else Some (Some a, h_put a ?b h))"
    using n C(1,2,5) by (subst propagate_on_read.simps)
      (auto simp: buffer_propagate_ok take_next_def set_next_def buf_ok_def)
  consider (part) "n < b_pos (h_mem h a)" | (reuse) "n = b_pos (h_mem h a)" "0 < room (h_mem h a)" "rs = []"
    | (skip) "n = b_pos (h_mem h a)" "0 < room (h_mem h a)" "rs \<noteq> []" | (whole) "n = b_pos (h_mem h a)" "room (h_mem h a) = 0"
    using n by fastforce
  then show ?thesis
  proof cases
    case part
    have hd: "s\<lparr>s_head := Some a, s_rsize := s_rsize s - n\<rparr> = s\<lparr>s_rsize := s_rsize s - n\<rparr>" using C(1) by (cases s) simp
    have "b_cap (h_mem h a) \<noteq> n" using part C(2) by (simp add: buf_ok_def)
    moreover have "s_rsize s - n \<noteq> 0" using C(4) part by simp
    moreover note S = stream_inv_shrink[OF inv part refl]
    moreover have "checked (h_put a ?b h) (s\<lparr>s_head := Some a, s_rsize := s_rsize s - n\<rparr>) =
        Some (h_put a ?b h, s\<lparr>s_rsize := s_rsize s - n\<rparr>)"
      by (simp only: hd checked_ok[OF S(1)])
    ultimately have "do { (head, h1) \<leftarrow> propagate_on_read (s_head s) n h; skip_end h1 (s\<lparr>s_head := head, s_rsize := s_rsize s - n\<rparr>) } =
        Some (h_put a ?b h, s\<lparr>s_rsize := s_rsize s - n\<rparr>)"
      using P C(1) part by (simp add: skip_end_def)
    then show ?thesis using S by (intro exI[where x = "h_put a ?b h"] exI[where x = "s\<lparr>s_rsize := s_rsize s - n\<rparr>"]) auto
  next
    case reuse
    have hd: "s\<lparr>s_head := Some a, s_rsize := 0, s_rend := None\<rparr> = s\<lparr>s_rsize := 0, s_rend := None\<rparr>" using C(1) by (cases s) simp
    have "b_cap (h_mem h a) \<noteq> n" using reuse by (simp add: room_def)
    moreover note R = stream_inv_reuse[OF inv[unfolded \<open>rs = []\<close>] reuse(2) refl]
    moreover have "s_rsize s - n = 0" using C(4) reuse by simp
    ultimately have "do { (head, h1) \<leftarrow> propagate_on_read (s_head s) n h; skip_end h1 (s\<lparr>s_head := head, s_rsize := s_rsize s - n\<rparr>) } =
        Some (h_put a ?b h, s\<lparr>s_rsize := 0, s_rend := None\<rparr>)"
      using P hd checked_ok[OF R] reuse(1) by (simp add: skip_end_def)
    moreover have "content (h_put a ?b h) [] = drop n (content h (a # rs))" using reuse C(6) by simp
    moreover have "stream_inv (h_put a ?b h) (s\<lparr>s_rsize := 0, s_rend := None\<rparr>) [] (a # ws)" using R reuse(1) by simp
    ultimately show ?thesis using h_put_sel(4) by blast
  next
    case skip
    have hd: "s\<lparr>s_head := Some a, s_rsize := s_rsize s - n\<rparr> = s\<lparr>s_rsize := s_rsize s - n\<rparr>" using C(1) by (cases s) simp
    have re: "s\<lparr>s_rsize := s_rsize s - n\<rparr> = s\<lparr>s_rsize := s_rsize s - b_pos (h_mem h a), s_rend := if rs = [] then None else s_rend s\<rparr>"
      using skip by (cases s) simp
    obtain h' s' where D: "drop_head a (h_put a ?b h) (s\<lparr>s_rsize := s_rsize s - n\<rparr>) = Some (h', s')" "stream_inv h' s' rs ws"
      "content h' rs = content h rs" "h_size h' = h_size h"
      using drop_head_ok[OF inv _ _ re, of ?b] skip by auto
    have "b_cap (h_mem h a) \<noteq> n" using skip by (simp add: room_def)
    moreover have "drop_head a (h_put a ?b h) (s\<lparr>s_head := Some a, s_rsize := s_rsize s - n\<rparr>) = Some (h', s')"
      by (simp only: hd D(1))
    moreover have "s_rsize s - n \<noteq> 0" using C(8)[OF n(1) skip(1)] skip(3) by simp
    ultimately have "do { (head, h1) \<leftarrow> propagate_on_read (s_head s) n h; skip_end h1 (s\<lparr>s_head := head, s_rsize := s_rsize s - n\<rparr>) } =
        Some (h', s')"
      using P checked_ok[OF D(2)] wpos_not_head[OF inv] skip C(1) by (auto simp: skip_end_def)
    then show ?thesis using D(2-4) skip C(6) by auto
  next
    case whole
    let ?h = "h_put a (?b\<lparr>b_next := None\<rparr>) h"
    have D: "stream_inv ?h (s\<lparr>s_head := first_or (rs @ ws) None, s_rsize := s_rsize s - b_pos (h_mem h a),
      s_rend := if rs = [] then None else s_rend s, s_tail := if rs @ ws = [] then None else s_tail s\<rparr>) rs ws"
      "content ?h rs = content h rs"
      using stream_inv_drop[OF inv, of "?b\<lparr>b_next := None\<rparr>"] whole(2) by simp_all
    have cap: "b_cap (h_mem h a) = n" using whole C(2) by (simp add: room_def buf_ok_def)
    obtain s' where E: "skip_end ?h (s\<lparr>s_head := first_or (rs @ ws) None, s_rsize := s_rsize s - n\<rparr>) = Some (?h, s')"
      "stream_inv ?h s' rs ws"
    proof (cases "rs @ ws = []")
      case True
      then show thesis using that stream_inv_new checked_ok[OF stream_inv_new] by (auto simp: skip_end_def stream_clear_ok)
    next
      case False
      then obtain x where x: "first_or (rs @ ws) None = Some x" by (cases rs; cases ws) auto
      have eq: "s\<lparr>s_head := first_or (rs @ ws) None, s_rsize := s_rsize s - b_pos (h_mem h a),
          s_rend := if rs = [] then None else s_rend s, s_tail := if rs @ ws = [] then None else s_tail s\<rparr> =
          s\<lparr>s_head := Some x, s_rsize := s_rsize s - n, s_rend := if rs = [] then None else s_rend s\<rparr>"
        using False x whole(1) by (cases s) auto
      have "0 < b_pos (h_mem ?h x)" if "rs \<noteq> []" using stream_invD(2)[OF D(1), of x] x that by (cases rs) auto
      moreover have "s\<lparr>s_head := Some x, s_rsize := m, s_rend := s_rend s\<rparr> = s\<lparr>s_head := Some x, s_rsize := m\<rparr>" for m by (cases s) simp
      ultimately have "skip_end ?h (s\<lparr>s_head := Some x, s_rsize := s_rsize s - n\<rparr>) =
          checked ?h (s\<lparr>s_head := Some x, s_rsize := s_rsize s - n, s_rend := if rs = [] then None else s_rend s\<rparr>)"
        using C(8)[OF n(1) whole(1)] by (auto simp: skip_end_def)
      then show thesis using that checked_ok[OF D(1)] D(1) eq x by simp
    qed
    have "content ?h rs = drop n (content h (a # rs))" "h_size ?h = h_size h" using D(2) whole C(6) by simp_all
    moreover have "do { (head, h1) \<leftarrow> propagate_on_read (s_head s) n h; skip_end h1 (s\<lparr>s_head := head, s_rsize := s_rsize s - n\<rparr>) } =
        Some (?h, s')" using P cap E(1) by simp
    ultimately show ?thesis using E(2) by blast
  qed
qed

lemma skip_loop_ok:
  assumes "stream_inv h s rs ws" and "0 < n" and "n \<le> s_rsize s"
  shows "\<exists>h' s' rs' ws'. do { (head, h1) \<leftarrow> propagate_on_read (s_head s) n h; skip_end h1 (s\<lparr>s_head := head, s_rsize := s_rsize s - n\<rparr>) } =
      Some (h', s') \<and> stream_inv h' s' rs' ws' \<and> content h' rs' = drop n (content h rs) \<and> h_size h' = h_size h"
  using assms
proof (induction rs arbitrary: h s n)
  case Nil
  then show ?case using stream_invD(7)[OF Nil.prems(1)] by simp
next
  case (Cons a rs)
  note C = stream_inv_ConsD[OF Cons.prems(1)]
  show ?case
  proof (cases "n \<le> b_pos (h_mem h a)")
    case True
    then show ?thesis using skip_last_ok[OF Cons.prems(1,2)] by blast
  next
    case False
    let ?m = "b_pos (h_mem h a)" and ?h = "set_next a None h"
    have ne: "rs \<noteq> []" using False C(4,7) Cons.prems(3) by auto
    let ?s = "s\<lparr>s_head := first_or (rs @ ws) None, s_rsize := s_rsize s - ?m\<rparr>"
    have "s\<lparr>s_head := first_or (rs @ ws) None, s_rsize := s_rsize s - ?m,
          s_rend := if rs = [] then None else s_rend s, s_tail := if rs @ ws = [] then None else s_tail s\<rparr> = ?s"
      using ne by (cases s) simp
    then have D: "stream_inv ?h ?s rs ws" "content ?h rs = content h rs"
      using stream_inv_drop[OF Cons.prems(1), of "(h_mem h a)\<lparr>b_next := None\<rparr>"] ne by (simp_all add: set_next_def)
    have "propagate_on_read (s_head s) n h = propagate_on_read (s_head ?s) (n - ?m) ?h"
      using C(1,5) False Cons.prems(2) by (subst propagate_on_read.simps) (simp add: take_next_def)
    moreover have "?s\<lparr>s_head := p, s_rsize := s_rsize ?s - (n - ?m)\<rparr> = s\<lparr>s_head := p, s_rsize := s_rsize s - n\<rparr>" for p
      using False by (cases s) simp
    moreover have "0 < n - ?m" "n - ?m \<le> s_rsize ?s" using False Cons.prems(3) by auto
    ultimately have "\<exists>h' s' rs' ws'. do { (head, h1) \<leftarrow> propagate_on_read (s_head s) n h; skip_end h1 (s\<lparr>s_head := head, s_rsize := s_rsize s - n\<rparr>) } =
      Some (h', s') \<and> stream_inv h' s' rs' ws' \<and> content h' rs' = drop (n - ?m) (content ?h rs) \<and> h_size h' = h_size ?h"
      using Cons.IH[OF D(1), of "n - ?m"] by (simp only:)
    then show ?thesis using D(2) C(6) False by simp
  qed
qed

lemma skip_data_ok:
  assumes "stream_inv h s rs ws" and "n \<le> s_rsize s"
  shows "\<exists>h' s' rs' ws'. skip_data n h s = Some (h', s') \<and> stream_inv h' s' rs' ws' \<and> content h' rs' = drop n (content h rs) \<and>
    h_size h' = h_size h"
proof (cases "n = 0")
  case False
  then show ?thesis using skip_loop_ok[OF assms(1) _ assms(2)] assms(2) by (simp add: skip_data_def)
next
  case True
  have p: "propagate_on_read (s_head s) 0 h = Some (s_head s, h)" by (subst propagate_on_read.simps) simp
  have "\<exists>s'. skip_end h s = Some (h, s') \<and> stream_inv h s' rs ws"
  proof (cases "s_head s")
    case None
    then have "rs = []" "ws = []" using stream_invD(4)[OF assms(1)] by auto
    then show ?thesis using None stream_inv_new checked_ok[OF stream_inv_new] by (auto simp: skip_end_def stream_clear_ok)
  next
    case (Some a)
    have "skip_end h s = checked h s"
    proof (cases rs)
      case Nil
      then have "s_rsize s = 0" "s\<lparr>s_rend := None\<rparr> = s" using stream_invD(6,7)[OF assms(1)] by simp_all
      then show ?thesis using Some by (simp add: skip_end_def)
    next
      case (Cons b bs)
      then have "b = a" "0 < b_pos (h_mem h a)" "0 < s_rsize s"
        using stream_inv_ConsD[of h s b bs ws] assms(1) Some by auto
      then show ?thesis using Some by (simp add: skip_end_def)
    qed
    then show ?thesis using checked_ok[OF assms(1)] assms(1) by simp
  qed
  then show ?thesis using True p by (auto simp: skip_data_def)
qed


text \<open>\<^verbatim>\<open>ReadData\<close> unlinks in the same way and copies the bytes out.\<close>

lemma get_bytes_take: "buf_ok (h_mem h a) \<Longrightarrow> n \<le> b_pos (h_mem h a) \<Longrightarrow> get_bytes a n h = Some (take n (readable (h_mem h a)))"
  by (simp add: get_bytes_def buf_ok_def readable_def min_absorb1)

lemma read_last_ok:
  assumes inv: "stream_inv h s0 (a # rs) ws" and n: "0 < n" "n \<le> b_pos (h_mem h a)"
    and s: "s = s0\<lparr>s_rsize := s_rsize s0 - n, s_rend := if s_rsize s0 - n = 0 then None else s_rend s0\<rparr>"
  shows "\<exists>h' s' rs' ws'. read_loop n out h s = Some (out @ take n (content h (a # rs)), h', s') \<and> stream_inv h' s' rs' ws' \<and>
      content h' rs' = drop n (content h (a # rs)) \<and> h_size h' = h_size h"
proof -
  note C = stream_inv_ConsD[OF inv] and I = stream_invD[OF inv]
  let ?b = "shrunk n (h_mem h a)"
  define fin where "fin = (\<lambda>x. case x of (h2, s2) \<Rightarrow>
     Option.bind (mg_assert (s_head s2 = None \<or> s_rsize s2 > 0 \<or> s_wsize s2 > 0))
       (\<lambda>_. Option.bind (priv_check h2 s2) (\<lambda>_. Some (out @ take n (content h (a # rs)), h2, s2))))"
  have st: "s_head s = Some a" "s_wpos s = s_wpos s0" using s C(1) by simp_all
  have R: "read_loop n out h s = Option.bind
      (if b_pos (h_mem h a) - n = 0 \<and> Some a \<noteq> s_wpos s0 then drop_head a (h_put a ?b h) s else Some (h_put a ?b h, s)) fin"
    using n C st by (subst read_loop.simps)
      (auto simp: get_bytes_take buffer_propagate_ok fin_def Let_def cong: option.case_cong)
  have F: "fin (h2, s2) = Some (out @ take n (content h (a # rs)), h2, s2)" if i: "stream_inv h2 s2 rs2 ws2" for h2 s2 rs2 ws2
  proof -
    note J = stream_invD[OF i]
    have "s_head s2 = None \<or> s_rsize s2 > 0 \<or> s_wsize s2 > 0"
    proof (cases rs2)
      case (Cons x xs)
      then show ?thesis using stream_inv_ConsD(3,4)[of h2 s2 x xs ws2] i by simp
    next
      case Nil
      then show ?thesis using J(3,4,9) by (cases ws2) (auto simp: wlist_def room_pos)
    qed
    then show ?thesis using priv_check_ok[OF i] by (simp add: fin_def)
  qed
  consider (part) "n < b_pos (h_mem h a)" | (reuse) "n = b_pos (h_mem h a)" "0 < room (h_mem h a)" "rs = []"
    | (gone) "n = b_pos (h_mem h a)" "rs \<noteq> [] \<or> room (h_mem h a) = 0"
    using n by fastforce
  then show ?thesis
  proof cases
    case part
    have "s = s0\<lparr>s_rsize := s_rsize s0 - n\<rparr>" using s C(4) part by (cases s0) auto
    with stream_inv_shrink[OF inv part refl] have "stream_inv (h_put a ?b h) s (a # rs) ws"
      "content (h_put a ?b h) (a # rs) = drop n (content h (a # rs))" by simp_all
    moreover from this(1) have "read_loop n out h s = Some (out @ take n (content h (a # rs)), h_put a ?b h, s)"
      using R part F by simp
    ultimately show ?thesis by (metis h_put_sel(4))
  next
    case reuse
    have "s = s0\<lparr>s_rsize := 0, s_rend := None\<rparr>" using s C(4) reuse by (cases s0) auto
    with stream_inv_reuse[OF inv[unfolded \<open>rs = []\<close>] reuse(2) refl] have i: "stream_inv (h_put a ?b h) s [] (a # ws)"
      using reuse by simp
    moreover have "s_wpos s0 = Some a" using I(8) reuse by (simp add: wlist_def)
    moreover from this i have "read_loop n out h s = Some (out @ take n (content h (a # rs)), h_put a ?b h, s)"
      using R F by simp
    moreover have "content (h_put a ?b h) [] = drop n (content h (a # rs))" using reuse C(6) by simp
    ultimately show ?thesis by (metis h_put_sel(4))
  next
    case gone
    have "(s_rsize s0 - n = 0) = (rs = [])" by (rule C(8)[OF n(1) gone(1)])
    then have "s = s0\<lparr>s_rsize := s_rsize s0 - b_pos (h_mem h a), s_rend := if rs = [] then None else s_rend s0\<rparr>"
      using s gone(1) by simp
    from drop_head_ok[OF inv gone(2) _ this, of ?b] obtain h' s' where D: "drop_head a (h_put a ?b h) s = Some (h', s')"
      "stream_inv h' s' rs ws" "content h' rs = content h rs" "h_size h' = h_size h" by auto
    then have "read_loop n out h s = Some (out @ take n (content h (a # rs)), h', s')"
      using R F[OF D(2)] wpos_not_head[OF inv gone(2)] gone(1) by auto
    then show ?thesis using D(2-4) gone C(6) by auto
  qed
qed

lemma read_loop_ok:
  assumes "stream_inv h s0 rs ws" and "0 < n" and "n \<le> s_rsize s0"
    and "s = s0\<lparr>s_rsize := s_rsize s0 - n, s_rend := if s_rsize s0 - n = 0 then None else s_rend s0\<rparr>"
  shows "\<exists>h' s' rs' ws'. read_loop n out h s = Some (out @ take n (content h rs), h', s') \<and> stream_inv h' s' rs' ws' \<and>
      content h' rs' = drop n (content h rs) \<and> h_size h' = h_size h"
  using assms
proof (induction rs arbitrary: h s s0 n out)
  case Nil
  then show ?case using stream_invD(7)[OF Nil.prems(1)] by simp
next
  case (Cons a rs)
  note C = stream_inv_ConsD[OF Cons.prems(1)]
  show ?case
  proof (cases "n \<le> b_pos (h_mem h a)")
    case True
    then show ?thesis using read_last_ok[OF Cons.prems(1,2) _ Cons.prems(4)] by blast
  next
    case False
    let ?m = "b_pos (h_mem h a)" and ?h = "set_next a None h"
    have ne: "rs \<noteq> []" using False C(4,7) Cons.prems(3) by auto
    let ?t = "s0\<lparr>s_head := first_or (rs @ ws) None, s_rsize := s_rsize s0 - ?m\<rparr>"
    have "s0\<lparr>s_head := first_or (rs @ ws) None, s_rsize := s_rsize s0 - ?m,
          s_rend := if rs = [] then None else s_rend s0, s_tail := if rs @ ws = [] then None else s_tail s0\<rparr> = ?t"
      using ne by (cases s0) simp
    then have D: "stream_inv ?h ?t rs ws" "content ?h rs = content h rs"
      using stream_inv_drop[OF Cons.prems(1), of "(h_mem h a)\<lparr>b_next := None\<rparr>"] ne by (simp_all add: set_next_def)
    let ?s = "s\<lparr>s_head := first_or (rs @ ws) None\<rparr>"
    have "read_loop n out h s = read_loop (n - ?m) (out @ readable (h_mem h a)) ?h ?s"
      using C(1,2,5,6) False Cons.prems(2,4) by (subst read_loop.simps) (simp add: take_next_def get_bytes_take Let_def)
    moreover have "?s = ?t\<lparr>s_rsize := s_rsize ?t - (n - ?m), s_rend := if s_rsize ?t - (n - ?m) = 0 then None else s_rend ?t\<rparr>"
    proof -
      have "s_rsize ?t - (n - ?m) = s_rsize s0 - n" using False by simp
      then show ?thesis unfolding Cons.prems(4) by (cases s0) (auto simp del: diff_diff_left)
    qed
    moreover have "0 < n - ?m" "n - ?m \<le> s_rsize ?t" using False Cons.prems(3) by auto
    ultimately obtain h' s' rs' ws' where "read_loop n out h s = Some ((out @ readable (h_mem h a)) @ take (n - ?m) (content ?h rs), h', s')"
      "stream_inv h' s' rs' ws'" "content h' rs' = drop (n - ?m) (content ?h rs)" "h_size h' = h_size ?h"
      using Cons.IH[OF D(1), of "n - ?m" ?s "out @ readable (h_mem h a)"] by auto
    then show ?thesis using D(2) C(6) False by auto
  qed
qed

lemma read_data_ok:
  assumes "stream_inv h s rs ws" and "n \<le> s_rsize s"
  shows "\<exists>h' s' rs' ws'. read_data n h s = Some (take n (content h rs), h', s') \<and> stream_inv h' s' rs' ws' \<and>
    content h' rs' = drop n (content h rs) \<and> h_size h' = h_size h"
proof (cases "n = 0")
  case True
  then show ?thesis using assms(1) by (auto simp: read_data_def)
next
  case False
  have "(if s_rsize s - n = 0 then s\<lparr>s_rsize := s_rsize s - n, s_rend := None\<rparr> else s\<lparr>s_rsize := s_rsize s - n\<rparr>) =
      s\<lparr>s_rsize := s_rsize s - n, s_rend := if s_rsize s - n = 0 then None else s_rend s\<rparr>" by (cases s) auto
  then show ?thesis
    using read_loop_ok[OF assms(1) _ assms(2) refl, of "[]"] False assms(2)
    by (simp add: read_data_def Let_def split del: if_split)
qed

lemma peek_loop_ok:
  assumes "chain h as" and "n \<le> length (content h as)" and "0 < n"
  shows "peek_loop h (first_or as None) n out = Some (out @ take n (content h as))"
  using assms
proof (induction as arbitrary: n out)
  case (Cons a as)
  note c = chain_ConsD[OF Cons.prems(1)]
  have l: "length (readable (h_mem h a)) = b_pos (h_mem h a)" using c by simp
  show ?case
  proof (cases "n \<le> b_pos (h_mem h a)")
    case True
    then show ?thesis using c l by (subst first_or_simps, subst peek_loop.simps) (simp add: get_bytes_take)
  next
    case False
    have "peek_loop h (Some a) n out = peek_loop h (first_or as None) (n - b_pos (h_mem h a)) (out @ readable (h_mem h a))"
      using False c l by (subst peek_loop.simps) (simp add: get_bytes_take Let_def)
    moreover have "0 < n - b_pos (h_mem h a)" "n - b_pos (h_mem h a) \<le> length (content h as)"
      using False Cons.prems(2) l by auto
    ultimately show ?thesis using Cons.IH c False l by simp
  qed
qed simp

lemma peek_data_ok:
  assumes "stream_inv h s rs ws" and "n \<le> s_rsize s"
  shows "peek_data n h s = Some (take n (content h rs))"
proof (cases "n = 0")
  case False
  note I = stream_invD[OF assms(1)]
  have "n \<le> length (content h (rs @ ws))" using assms(2) I(7) by simp
  from peek_loop_ok[OF I(1) this] show ?thesis
    using False assms(2) I(4,7) by (simp add: peek_data_def)
qed (simp add: peek_data_def)


section \<open>Linking chains in, and taking them out\<close>

text \<open>A chain \<open>cs\<close> between the readable and the empty buffers.\<close>

definition spliced :: "bheap \<Rightarrow> nat list \<Rightarrow> nat list \<Rightarrow> nat list \<Rightarrow> bheap \<Rightarrow> bool" where
  "spliced h rs cs ws h' =
    ((\<forall>x. b_pos (h_mem h' x) = b_pos (h_mem h x) \<and> b_cap (h_mem h' x) = b_cap (h_mem h x) \<and> b_data (h_mem h' x) = b_data (h_mem h x)) \<and>
     (\<forall>x. x \<noteq> last cs \<longrightarrow> rs = [] \<or> x \<noteq> last rs \<longrightarrow> b_next (h_mem h' x) = b_next (h_mem h x)) \<and>
     b_next (h_mem h' (last cs)) = first_or ws None \<and> (rs \<noteq> [] \<longrightarrow> b_next (h_mem h' (last rs)) = Some (hd cs)) \<and>
     h_top h' = h_top h \<and> h_size h' = h_size h)"

lemma last_notin_butlast: "distinct xs \<Longrightarrow> xs \<noteq> [] \<Longrightarrow> last xs \<notin> set (butlast xs)"
  by (cases xs rule: rev_cases) auto

lemma chain_spliced:
  assumes "chain h (rs @ ws)" and "chain h cs" and "set cs \<inter> set (rs @ ws) = {}" and "cs \<noteq> []" and "spliced h rs cs ws h'"
  shows "chain h' ((rs @ cs) @ ws)" and "content h' (rs @ cs) = content h rs @ content h cs"
proof -
  note S = assms(5)[unfolded spliced_def]
  have same: "readable (h_mem h' x) = readable (h_mem h x)" "buf_ok (h_mem h' x) = buf_ok (h_mem h x)" for x
    using S by (simp_all add: readable_def buf_ok_def)
  have ct: "content h' as = content h as" for as by (simp add: content_def same)
  then show "content h' (rs @ cs) = content h rs @ content h cs" by simp
  have d: "distinct (rs @ ws)" "distinct cs" "last cs \<notin> set (rs @ ws)" using assms last_in_set[of cs] by (auto simp: chain_def disjoint_iff)
  have "lchain (nexts_of h') rs (Some (hd cs))"
  proof (cases "rs = []")
    case False
    have lr: "last rs \<in> set rs" "last rs \<notin> set (butlast rs)" using False d(1) last_notin_butlast[OF _ False] by auto
    have "lchain (nexts_of h) (butlast rs) (Some (last rs))"
      using assms(1) lchain_butlast[OF False, of "nexts_of h" "first_or ws None"] by (simp add: chain_def)
    moreover have "nexts_of h' x = nexts_of h x" if "x \<in> set (butlast rs)" for x
    proof -
      have "x \<noteq> last cs" "x \<noteq> last rs" using that lr d(3) in_set_butlastD[OF that] by auto
      then show ?thesis using S by (simp add: nexts_of_def)
    qed
    ultimately show ?thesis
      using lchain_butlast[OF False, of "nexts_of h'" "Some (hd cs)"] S False lchain_cong[of "butlast rs" "nexts_of h'" "nexts_of h"]
      by (simp add: nexts_of_def)
  qed simp
  moreover have "lchain (nexts_of h') cs (first_or ws None)"
  proof -
    have lr: "last cs \<notin> set (butlast cs)" using last_notin_butlast[OF d(2) assms(4)] .
    have "lchain (nexts_of h) (butlast cs) (Some (last cs))"
      using assms(2) lchain_butlast[OF assms(4), of "nexts_of h" None] by (simp add: chain_def)
    moreover have "nexts_of h' x = nexts_of h x" if "x \<in> set (butlast cs)" for x
    proof -
      have "x \<noteq> last cs" "rs = [] \<or> x \<noteq> last rs"
        using that lr assms(3) in_set_butlastD[OF that] last_in_set[of rs] by auto
      then show ?thesis using S by (auto simp: nexts_of_def)
    qed
    ultimately show ?thesis
      using lchain_butlast[OF assms(4), of "nexts_of h'" "first_or ws None"] S lchain_cong[of "butlast cs" "nexts_of h'" "nexts_of h"]
      by (simp add: nexts_of_def)
  qed
  moreover have "lchain (nexts_of h') ws None"
  proof -
    have "nexts_of h' x = nexts_of h x" if "x \<in> set ws" for x
    proof -
      have "x \<noteq> last cs" "rs = [] \<or> x \<noteq> last rs" using that d last_in_set[of rs] by (auto simp: disjoint_iff)
      then show ?thesis using S by (auto simp: nexts_of_def)
    qed
    then show ?thesis using assms(1) lchain_cong[of ws "nexts_of h'" "nexts_of h"] by (simp add: chain_def)
  qed
  ultimately show "chain h' ((rs @ cs) @ ws)"
    using assms S same by (auto simp: chain_def first_or_nonempty)
qed

lemma wsize_sum:
  assumes "stream_inv h s rs ws"
  shows "s_wsize s = (if rs = [] then 0 else room (h_mem h (last rs))) + (\<Sum>a\<leftarrow>ws. room (h_mem h a))"
  using stream_invD(9)[OF assms] by (auto simp: wlist_def)

lemma spliced_inv:
  assumes inv: "stream_inv h s rs ws" and cs: "chain h cs" "cs \<noteq> []" "set cs \<inter> set (rs @ ws) = {}" "\<forall>c \<in> set cs. 0 < b_pos (h_mem h c)"
    and sp: "spliced h rs cs ws h'"
    and s': "s_head s' = first_or (rs @ cs) None" "s_tail s' = last_or ws (Some (last cs))" "s_rend s' = Some (last cs)"
      "s_rsize s' = s_rsize s + length (content h cs)"
      "s_wpos s' = (if 0 < room (h_mem h (last cs)) then Some (last cs) else first_or ws None)"
      "s_wsize s' = room (h_mem h (last cs)) + (\<Sum>a\<leftarrow>ws. room (h_mem h a))"
  shows "stream_inv h' s' (rs @ cs) ws" and "content h' (rs @ cs) = content h rs @ content h cs" and "h_size h' = h_size h"
proof -
  note I = stream_invD[OF inv] and C = chain_spliced[OF stream_invD(1)[OF inv] cs(1,3,2) sp] and S = sp[unfolded spliced_def]
  have rm: "room (h_mem h' x) = room (h_mem h x)" for x using S by (simp add: room_def)
  have wl: "wlist h' (rs @ cs) ws = (if 0 < room (h_mem h (last cs)) then last cs # ws else ws)"
    using cs(2) rm by (simp add: wlist_def)
  show "content h' (rs @ cs) = content h rs @ content h cs" "h_size h' = h_size h" using C S by simp_all
  have "\<forall>a \<in> set (rs @ cs). 0 < b_pos (h_mem h' a)" "\<forall>a \<in> set ws. b_pos (h_mem h' a) = 0 \<and> 0 < b_cap (h_mem h' a)"
    using S I(2,3) cs(4) by auto
  moreover have "s_wsize s' = (\<Sum>a\<leftarrow>wlist h' (rs @ cs) ws. room (h_mem h' a))" using s'(6) unfolding wl rm by simp
  moreover have "s_wpos s' = first_or (wlist h' (rs @ cs) ws) None" using s'(5) unfolding wl by simp
  moreover have "s_rsize s' = length (content h' (rs @ cs))" using C(2) s'(4) I(7) by simp
  moreover have "s_tail s' = last_or ((rs @ cs) @ ws) None" "s_rend s' = last_or (rs @ cs) None"
    using s'(2,3) cs(2) by (simp_all add: last_or_nonempty[of cs])
  moreover have "s_head s' = first_or ((rs @ cs) @ ws) None" using s'(1) cs(2) by (cases cs) simp_all
  ultimately show "stream_inv h' s' (rs @ cs) ws" using C(1) unfolding stream_inv_def by blast
qed

lemma chain_end_ok:
  assumes "chain h (c # cs)"
  shows "chain_end h c n = Some (last (c # cs), n + length (content h cs))"
  using assms
proof (induction cs arbitrary: c n)
  case Nil
  then show ?case using chain_ConsD[OF Nil] by (subst chain_end.simps) simp
next
  case (Cons d cs)
  note k = chain_ConsD[OF Cons.prems]
  have "length (readable (h_mem h d)) = b_pos (h_mem h d)" using k chain_ConsD[of h d cs] by simp
  then show ?case using Cons.IH[of d] k by (subst chain_end.simps) simp
qed

lemma set_next_spliced:
  assumes "cs \<noteq> []" and "last cs \<notin> set rs" and "last cs \<notin> set ws"
  shows "rs = [] \<Longrightarrow> spliced h rs cs ws (set_next (last cs) (first_or ws None) h)"
    and "rs \<noteq> [] \<Longrightarrow> spliced h rs cs ws (set_next (last rs) (Some (hd cs)) (set_next (last cs) (first_or ws None) (set_next (last rs) None h)))"
    and "rs \<noteq> [] \<Longrightarrow> ws = [] \<Longrightarrow> b_next (h_mem h (last cs)) = None \<Longrightarrow> spliced h rs cs ws (set_next (last rs) (Some (hd cs)) h)"
    and "rs = [] \<Longrightarrow> ws = [] \<Longrightarrow> b_next (h_mem h (last cs)) = None \<Longrightarrow> spliced h rs cs ws h"
  using assms last_in_set[of rs] by (auto simp: spliced_def h_set_mem)

lemma write_ref_ok:
  assumes inv: "stream_inv h s rs ws" and cs: "chain h cs" "set cs \<inter> set (rs @ ws) = {}" "\<forall>c \<in> set cs. 0 < b_pos (h_mem h c)"
  shows "\<exists>h' s' rs' ws'. write_ref (first_or cs None) h s = Some (h', s') \<and> stream_inv h' s' rs' ws' \<and>
    content h' rs' = content h rs @ content h cs \<and> h_size h' = h_size h"
proof (cases "cs = []")
  case True
  then show ?thesis using inv by (auto simp: write_ref_def)
next
  case False
  note I = stream_invD[OF inv]
  define fin where "fin = last cs"
  define n where "n = length (content h cs)"
  have E: "chain_end h (hd cs) (b_pos (h_mem h (hd cs))) = Some (fin, n)" "first_or cs None = Some (hd cs)"
    using chain_end_ok[of h "hd cs" "tl cs"] chain_ConsD[of h "hd cs" "tl cs"] cs(1) False by (cases cs; simp add: fin_def n_def)+
  have fi: "fin \<in> set cs" "fin \<notin> set rs" "fin \<notin> set ws" using False cs(2) last_in_set[of cs] by (auto simp: fin_def disjoint_iff)
  have fb: "b_pos (h_mem h fin) \<le> b_cap (h_mem h fin)" "0 < b_pos (h_mem h fin)" "b_next (h_mem h fin) = None"
  proof -
    show "b_pos (h_mem h fin) \<le> b_cap (h_mem h fin)" "0 < b_pos (h_mem h fin)"
      using fi cs(1,3) by (auto simp: chain_def buf_ok_def)
    show "b_next (h_mem h fin) = None"
      using cs(1) lchain_butlast[OF False, of "nexts_of h" None] by (simp add: fin_def chain_def nexts_of_def)
  qed
  note SP = set_next_spliced[OF False fi(2,3)[unfolded fin_def], folded fin_def]
  have fin: ?thesis if e: "write_ref (Some (hd cs)) h s = checked h' s'" and sp: "spliced h rs cs ws h'"
    and s': "s_head s' = first_or (rs @ cs) None" "s_tail s' = last_or ws (Some fin)" "s_rend s' = Some fin"
      "s_rsize s' = s_rsize s + n" "s_wpos s' = (if 0 < room (h_mem h fin) then Some fin else first_or ws None)"
      "s_wsize s' = room (h_mem h fin) + (\<Sum>a\<leftarrow>ws. room (h_mem h a))" for h' s'
  proof -
    note X = spliced_inv[OF inv cs(1) False cs(2,3) sp s'[unfolded fin_def n_def]]
    show ?thesis using e checked_ok[OF X(1)] X E(2) by auto
  qed
  have us: "usub (b_cap (h_mem h fin)) (b_pos (h_mem h fin)) = Some (room (h_mem h fin))" using fb by (simp add: usub_def room_def)
  have lr: "b_pos (h_mem h (last rs)) \<le> b_cap (h_mem h (last rs))" "0 < b_pos (h_mem h (last rs))" "last rs \<noteq> fin" "last rs \<notin> set ws" if "rs \<noteq> []"
    using that rs_chain[OF inv] I(1) I(2)[of "last rs"] fi last_in_set[OF that] by (auto simp: buf_ok_def chain_def disjoint_iff)
  note W = wsize_sum[OF inv]
  show ?thesis
  proof (cases "s_wpos s")
    case None
    then have "wlist h rs ws = []" using I(8) by simp
    then have ws: "ws = []" "rs \<noteq> [] \<longrightarrow> room (h_mem h (last rs)) = 0" by (auto simp: wlist_def split: if_splits)
    then have w0: "s_wsize s = 0" using W by simp
    show ?thesis
    proof (cases "rs = []")
      case True
      let ?s = "s\<lparr>s_head := Some (hd cs), s_tail := Some fin, s_rend := Some fin, s_rsize := s_rsize s + n, s_wsize := room (h_mem h fin)\<rparr>"
      let ?s' = "if room (h_mem h fin) > 0 then ?s\<lparr>s_wpos := Some fin\<rparr> else ?s"
      have e: "write_ref (Some (hd cs)) h s = checked h ?s'"
        using E None I(4-7) True ws w0 us by (simp add: write_ref_def write_ref_no_wpos_def Let_def)
      have sp: "spliced h rs cs ws h" using SP(4) True ws fb by simp
      show ?thesis
        by (rule fin[OF e sp]) (use True ws W None False in \<open>auto simp: first_or_nonempty\<close>)
    next
      case ne: False
      let ?s = "s\<lparr>s_tail := Some fin, s_rend := Some fin, s_rsize := s_rsize s + n, s_wsize := room (h_mem h fin)\<rparr>"
      let ?s' = "if room (h_mem h fin) > 0 then ?s\<lparr>s_wpos := Some fin\<rparr> else ?s"
      let ?h = "set_next (last rs) (Some (hd cs)) h"
      have t: "s_tail s = Some (last rs)" "s_head s = Some (hd rs)" using I(4,5) ne ws by (simp_all add: first_or_nonempty last_or_nonempty)
      have "b_pos (h_mem h (last rs)) = b_cap (h_mem h (last rs))" using lr[OF ne] ws ne by (simp add: room_def)
      moreover have "usub (b_cap (h_mem ?h fin)) (b_pos (h_mem ?h fin)) = Some (room (h_mem h fin))"
        using us lr(3)[OF ne] by (simp add: h_set_mem)
      ultimately have e: "write_ref (Some (hd cs)) h s = checked ?h ?s'"
        using E None t ws w0 by (simp add: write_ref_def write_ref_no_wpos_def Let_def)
      have sp: "spliced h rs cs ws ?h" using SP(3) ne ws fb by simp
      show ?thesis
        by (rule fin[OF e sp]) (use ne ws W None t in \<open>auto simp: first_or_nonempty\<close>)
    qed
  next
    case (Some w)
    have wr: "0 < room (h_mem h w)" and wpos: "0 < s_wsize s"
    proof -
      have "w \<in> set (wlist h rs ws)" using Some I(8) by (cases "wlist h rs ws") auto
      then show "0 < room (h_mem h w)" by (rule wlist_room[OF inv])
      then show "0 < s_wsize s" using I(8,9) Some by (cases "wlist h rs ws") auto
    qed
    then have wc: "b_pos (h_mem h w) < b_cap (h_mem h w)" by (simp add: room_def)
    show ?thesis
    proof (cases "rs = []")
      case True
      then have ws: "first_or ws None = Some w" "s_head s = Some w" "s_rend s = None" "s_rsize s = 0" "s_tail s = last_or ws None"
        using I Some by (auto simp: wlist_def)
      let ?s = "s\<lparr>s_head := Some (hd cs), s_rend := Some fin, s_rsize := s_rsize s + n, s_wsize := s_wsize s + room (h_mem h fin)\<rparr>"
      let ?s' = "if b_cap (h_mem h fin) > b_pos (h_mem h fin) then ?s\<lparr>s_wpos := Some fin\<rparr> else ?s"
      let ?h = "set_next fin (first_or ws None) h"
      have e: "write_ref (Some (hd cs)) h s = checked ?h ?s'"
        using E Some ws us wpos wc by (simp add: write_ref_def write_ref_no_rend_def Let_def)
      have sp: "spliced h rs cs ws ?h" using SP(1) True by simp
      have q: "ws \<noteq> []" using ws by auto
      show ?thesis
        by (rule fin[OF e sp]) (use q True ws W Some False in \<open>auto simp: first_or_nonempty last_or_nonempty room_def\<close>)
    next
      case ne: False
      let ?h = "set_next (last rs) (Some (hd cs)) (set_next fin (first_or ws None) (set_next (last rs) None h))"
      have sp: "spliced h rs cs ws ?h" using SP(2)[OF ne] .
      have t: "s_rend s = Some (last rs)" "s_head s = Some (hd rs)" "s_tail s = last_or ws (Some (last rs))"
        using I(4-6) ne by (simp_all add: first_or_nonempty last_or_nonempty)
      have nx: "b_next (h_mem h (last rs)) = first_or ws None"
        using I(1) lchain_butlast[OF ne, of "nexts_of h" "first_or ws None"] by (simp add: chain_def nexts_of_def)
      have fm: "b_pos (h_mem ?h fin) = b_pos (h_mem h fin)" "b_cap (h_mem ?h fin) = b_cap (h_mem h fin)" "b_next (h_mem ?h fin) = first_or ws None"
        using lr(3)[OF ne] by (simp_all add: h_set_mem)
      from inv Some show ?thesis
      proof (cases rule: wpos_cases)
        case (partial as)
        then have w: "w = last rs" by simp
        have W2: "s_wsize s = room (h_mem h w) + (\<Sum>a\<leftarrow>ws. room (h_mem h a))" using W ne w by simp
        define s1 where "s1 = s\<lparr>s_wsize := (\<Sum>a\<leftarrow>ws. room (h_mem h a)), s_tail := (if s_wpos s = s_tail s then Some fin else s_tail s)\<rparr>"
        define s2 where "s2 = (if b_pos (h_mem h fin) < b_cap (h_mem h fin)
            then s1\<lparr>s_wpos := Some fin, s_wsize := s_wsize s1 + room (h_mem h fin)\<rparr> else s1\<lparr>s_wpos := first_or ws None\<rparr>)"
        let ?h1 = "set_next fin (first_or ws None) (set_next (last rs) None h)"
        have u: "usub (b_cap (h_mem ?h1 w)) (b_pos (h_mem ?h1 w)) = Some (room (h_mem h w))"
          using w lr(1,3)[OF ne] by (simp add: usub_def room_def h_set_mem)
        have u2: "usub (s_wsize s) (room (h_mem h w)) = Some (\<Sum>a\<leftarrow>ws. room (h_mem h a))" using W2 by (simp add: usub_def)
        have "write_ref_after (hd cs) w fin h s = Some (?h, s2)"
          unfolding write_ref_after_def take_next_def Let_def prod.case
          using u u2 fm nx w by (simp add: s2_def s1_def room_def)
        then have e: "write_ref (Some (hd cs)) h s = checked ?h (s2\<lparr>s_rend := Some fin, s_rsize := s_rsize s2 + n\<rparr>)"
          using E Some t w wpos wc lr(2)[OF ne] by (simp add: write_ref_def)
        have q: "(s_wpos s = s_tail s) = (ws = [])" using t(3) Some w lr(4)[OF ne] last_in_set[of ws] by (auto simp: last_or_def)
        show ?thesis
          by (rule fin[OF e sp]) (use q ne t in \<open>auto simp: s1_def s2_def first_or_nonempty last_or_nonempty room_def\<close>)
      next
        case (empty vs)
        define s2 where "s2 = (if b_pos (h_mem h fin) < b_cap (h_mem h fin)
            then s\<lparr>s_wpos := Some fin, s_wsize := s_wsize s + room (h_mem h fin)\<rparr> else s)"
        have W2: "s_wsize s = (\<Sum>a\<leftarrow>ws. room (h_mem h a))" using W ne empty by simp
        have "b_pos (h_mem h w) = 0" using I(3)[of w] empty by simp
        moreover have "write_ref_before (hd cs) (last rs) fin h s = Some (?h, s2)"
          unfolding write_ref_before_def take_next_def Let_def prod.case
          using fm nx Some empty by (simp add: s2_def room_def)
        ultimately have e: "write_ref (Some (hd cs)) h s = checked ?h (s2\<lparr>s_rend := Some fin, s_rsize := s_rsize s2 + n\<rparr>)"
          using E Some t nx empty wpos wc by (simp add: write_ref_def)
        have q: "ws \<noteq> []" "first_or ws None = Some w" using empty by simp_all
        show ?thesis
          by (rule fin[OF e sp]) (use q ne t W2 Some in \<open>auto simp: s2_def first_or_nonempty last_or_nonempty room_def\<close>)
      qed
    qed
  qed
qed

lemma pop_data_ok:
  assumes inv: "stream_inv h s rs ws"
  shows "\<exists>h' s'. pop_data h s = Some (first_or rs None, h', s') \<and> stream_inv h' s' [] (if rs = [] then ws else if ws = [] then [] else ws) \<and>
    chain h' rs \<and> content h' rs = content h rs \<and> h_size h' = h_size h"
proof (cases "rs = []")
  case True
  then show ?thesis using inv stream_invD(6,7)[OF inv] by (simp add: pop_data_def)
next
  case False
  note I = stream_invD[OF inv] and W = wsize_sum[OF inv]
  define as where "as = butlast rs"
  define r where "r = last rs"
  have rs: "rs = as @ [r]" using False by (simp add: as_def r_def)
  let ?h = "set_next r None h"
  have C: "chain ?h rs" "chain ?h ws" "content ?h rs = content h rs"
    using chain_cut[of h as r ws "(h_mem h r)\<lparr>b_next := None\<rparr>"] I(1) rs by (simp_all add: set_next_def)
  have nx: "b_next (h_mem h r) = first_or ws None"
    using I(1) rs by (auto simp: chain_def nexts_of_def)
  have d: "r \<notin> set ws" "b_pos (h_mem h r) \<le> b_cap (h_mem h r)" "0 < b_pos (h_mem h r)" using I(1,2) rs by (auto simp: chain_def buf_ok_def)
  have st: "s_rend s = Some r" "s_head s = first_or rs None" using I(4,6) rs by simp_all
  have rsz: "0 < s_rsize s"
    using I(7) rs rs_chain[OF inv] d(3) by simp
  show ?thesis
  proof (cases "ws = []")
    case True
    then have "pop_data h s = Some (first_or rs None, ?h, stream_new)"
      using st rsz d nx by (simp add: pop_data_def take_next_def stream_clear_ok)
    then show ?thesis using C True False stream_inv_new by simp
  next
    case ne: False
    let ?s = "s\<lparr>s_head := first_or ws None, s_wsize := (\<Sum>a\<leftarrow>ws. room (h_mem h a)), s_rsize := 0, s_rend := None, s_wpos := first_or ws None\<rparr>"
    have "(\<Sum>a\<leftarrow>ws. room (h_mem ?h a)) = (\<Sum>a\<leftarrow>ws. room (h_mem h a))"
      using d(1) by (intro arg_cong[OF map_cong[OF refl]]) (auto simp: h_set_mem)
    then have inv': "stream_inv ?h ?s [] ws"
      using C(2) I(3,5) d(1) ne by (auto simp: stream_inv_def wlist_def h_set_mem last_or_nonempty)
    have "usub (b_cap (h_mem ?h r)) (b_pos (h_mem ?h r)) = Some (room (h_mem h r))"
      using d(2) by (simp add: usub_def room_def h_set_mem)
    moreover have "usub (s_wsize s) (room (h_mem h r)) = Some (\<Sum>a\<leftarrow>ws. room (h_mem h a))"
      using W rs by (simp add: usub_def)
    ultimately have "pop_data h s = Some (first_or rs None, ?h, ?s)"
      using st rsz d nx ne priv_check_ok[OF inv'] by (auto simp: pop_data_def take_next_def Let_def first_or_nonempty)
    then show ?thesis using C inv' False ne by simp
  qed
qed

end
