(* ===== verification/Stream_Refinement.thy ===== *)
theory Stream_Refinement
  imports Buffer_Stream
begin

text \<open>
  The contract of \<^verbatim>\<open>BufferStream\<close>: it is a queue of bytes. An operation here is a call of the code, or
  what a connection does to receive: reserve room, hand the vectors to the system, which writes into
  them, and move the write position.
\<close>

section \<open>Receiving\<close>

text \<open>The system writes any bytes \<open>f\<close> into the room of the buffers.\<close>

definition sys_write :: "(nat \<Rightarrow> nat \<Rightarrow> u8) \<Rightarrow> bheap \<Rightarrow> bheap" where
  "sys_write f h = h\<lparr>h_mem := \<lambda>a. (h_mem h a)\<lparr>b_data := take (b_pos (h_mem h a)) (b_data (h_mem h a)) @
      map (f a) [b_pos (h_mem h a)..<length (b_data (h_mem h a))]\<rparr>\<rparr>"

lemma sys_write_sel [simp]:
  "b_pos (h_mem (sys_write f h) a) = b_pos (h_mem h a)" "b_cap (h_mem (sys_write f h) a) = b_cap (h_mem h a)"
  "b_next (h_mem (sys_write f h) a) = b_next (h_mem h a)" "h_top (sys_write f h) = h_top h" "h_size (sys_write f h) = h_size h"
  by (simp_all add: sys_write_def)

lemma sys_write_buf:
  assumes "buf_ok (h_mem h a)"
  shows "buf_ok (h_mem (sys_write f h) a)" "readable (h_mem (sys_write f h) a) = readable (h_mem h a)"
  using assms by (auto simp: sys_write_def buf_ok_def readable_def)

lemma sys_write_inv:
  assumes "stream_inv h s rs ws"
  shows "stream_inv (sys_write f h) s rs ws" "content (sys_write f h) rs = content h rs"
    "wlist (sys_write f h) rs ws = wlist h rs ws"
proof -
  note I = stream_invD[OF assms]
  have ch: "chain (sys_write f h) (rs @ ws)"
  proof -
    have "nexts_of (sys_write f h) = nexts_of h" by (simp add: nexts_of_def fun_eq_iff)
    then show ?thesis using I(1) sys_write_buf(1) by (auto simp: chain_def)
  qed
  have "map (\<lambda>a. readable (h_mem (sys_write f h) a)) rs = map (\<lambda>a. readable (h_mem h a)) rs"
    using rs_chain[OF assms] sys_write_buf(2) by simp
  then show ct: "content (sys_write f h) rs = content h rs" by (simp only: content_def)
  have rm: "room (h_mem (sys_write f h) a) = room (h_mem h a)" for a by (simp add: room_def)
  show wl: "wlist (sys_write f h) rs ws = wlist h rs ws" by (simp add: wlist_def rm)
  show "stream_inv (sys_write f h) s rs ws" using assms ch by (simp add: stream_inv_def wl ct rm)
qed

lemma iovecs_for_read_loop_ok:
  assumes "chain h as" and "\<forall>a \<in> set as. b_pos (h_mem h a) = 0 \<and> 0 < b_cap (h_mem h a)" and "length vecs + length as \<le> lim"
  shows "iovecs_for_read_loop h (first_or as None) lim vecs =
    Some (vecs @ map (\<lambda>a. \<lparr>iov_buf = Some a, iov_off = 0, iov_size = b_cap (h_mem h a)\<rparr>) as)"
  using assms
proof (induction as arbitrary: vecs)
  case Nil
  then show ?case by (subst iovecs_for_read_loop.simps) simp
next
  case (Cons a as)
  note c = chain_ConsD[OF Cons.prems(1)]
  show ?case using Cons c by (subst first_or_simps, subst iovecs_for_read_loop.simps) simp
qed

lemma iovecs_for_read_ok:
  assumes inv: "stream_inv h s rs ws" and "wlist h rs ws \<noteq> []" and "length (wlist h rs ws) \<le> lim"
  shows "\<exists>vs. iovecs_for_read h (s_wpos s) lim = Some vs \<and> concat (map (iov_bytes (sys_write f h)) vs) = wbytes (sys_write f h) (wlist h rs ws)"
proof -
  note I = stream_invD[OF inv]
  obtain w us where wl: "wlist h rs ws = w # us" using assms(2) by (cases "wlist h rs ws") auto
  then have wp: "s_wpos s = Some w" "0 < room (h_mem h w)" using I(8) wlist_room[OF inv, of w] by auto
  have us: "\<forall>a \<in> set us. b_pos (h_mem h a) = 0 \<and> 0 < b_cap (h_mem h a)" "chain h us" "b_next (h_mem h w) = first_or us None"
    "\<forall>a \<in> set (w # us). buf_ok (h_mem h a)"
  proof -
    from inv wp(1) show "\<forall>a \<in> set us. b_pos (h_mem h a) = 0 \<and> 0 < b_cap (h_mem h a)"
      by (cases rule: wpos_cases) (use wl I(3) in auto)
    have "chain h (w # us)"
    proof (rule wpos_cases[OF inv wp(1)])
      fix as assume "rs = as @ [w]" "wlist h rs ws = w # ws"
      then show ?thesis using I(1) wl chain_appendD2[of h as "w # ws"] by simp
    next
      fix vs assume "ws = w # vs" "wlist h rs ws = ws"
      then show ?thesis using I(1) wl chain_appendD2[of h rs ws] by simp
    qed
    from chain_ConsD[OF this] this show "chain h us" "b_next (h_mem h w) = first_or us None" "\<forall>a \<in> set (w # us). buf_ok (h_mem h a)"
      by (auto simp: chain_def)
  qed
  let ?v = "\<lparr>iov_buf = Some w, iov_off = b_pos (h_mem h w), iov_size = room (h_mem h w)\<rparr>"
  let ?vs = "map (\<lambda>a. \<lparr>iov_buf = Some a, iov_off = 0, iov_size = b_cap (h_mem h a)\<rparr>) us"
  have "iovecs_for_read h (s_wpos s) lim = Some (?v # ?vs)"
    using iovecs_for_read_loop_ok[OF us(2,1), of "[?v]" lim] us(3) wp assms(3) wl
    by (simp add: iovecs_for_read_def room_def Let_def)
  moreover have "iov_bytes (sys_write f h) ?v = drop (b_pos (h_mem h w)) (b_data (h_mem (sys_write f h) w))"
    using sys_write_buf(1)[of h w f] us(4) by (simp add: iov_bytes_def room_def buf_ok_def)
  moreover have "concat (map (iov_bytes (sys_write f h)) ?vs) = wbytes (sys_write f h) us"
  proof -
    have "iov_bytes (sys_write f h) \<lparr>iov_buf = Some a, iov_off = 0, iov_size = b_cap (h_mem h a)\<rparr> =
        drop (b_pos (h_mem (sys_write f h) a)) (b_data (h_mem (sys_write f h) a))" if "a \<in> set us" for a
      using that us(1,4) sys_write_buf(1)[of h a f] by (simp add: iov_bytes_def buf_ok_def)
    then have "map (iov_bytes (sys_write f h)) ?vs =
        map (\<lambda>a. drop (b_pos (h_mem (sys_write f h) a)) (b_data (h_mem (sys_write f h) a))) us" by simp
    then show ?thesis by (simp only: wbytes_def)
  qed
  ultimately show ?thesis using wl by (simp add: wbytes_def)
qed

section \<open>Operations as steps\<close>

datatype stream_op =
    Write_Copy "u8 list"
  | Write_Ref "u8 list"
  | Receive nat "nat \<Rightarrow> nat \<Rightarrow> u8"
  | Skip_Data nat
  | Read_Data nat
  | Peek_Data nat
  | Pop_Data
  | Clear_All

partial_function (option) chain_bytes :: "bheap \<Rightarrow> nat ptr \<Rightarrow> u8 list \<Rightarrow> u8 list option" where
  "chain_bytes h p out =
     (case p of None \<Rightarrow> Some out
      | Some a \<Rightarrow> do { bs \<leftarrow> get_bytes a (b_pos (h_mem h a)) h; chain_bytes h (b_next (h_mem h a)) (out @ bs) })"

text \<open>A step: the bytes that came in, the bytes that were returned, and the new state.\<close>

definition ret :: "u8 list \<Rightarrow> u8 list \<Rightarrow> (bheap \<times> stream) option \<Rightarrow> (u8 list \<times> u8 list \<times> bheap \<times> stream) option" where
  "ret ins outs r = map_option (\<lambda>(h, s). (ins, outs, h, s)) r"

fun stream_exec :: "stream_op \<Rightarrow> bheap \<Rightarrow> stream \<Rightarrow> (u8 list \<times> u8 list \<times> bheap \<times> stream) option" where
  "stream_exec (Write_Copy data) h s = ret data [] (write_copy data h s)"
| "stream_exec (Write_Ref data) h s = do { (p, h1) \<leftarrow> buffers_ref data h; ret data [] (write_ref p h1 s) }"
| "stream_exec (Receive n f) h s = do {
     (h1, s1) \<leftarrow> ensure_write_size n h s;
     vs \<leftarrow> iovecs_for_read h1 (s_wpos s1) (h_top h1);
     let h2 = sys_write f h1;
     ret (take n (concat (map (iov_bytes h2) vs))) [] (propagate_write_pos n h2 s1) }"
| "stream_exec (Skip_Data n) h s = ret [] [] (skip_data n h s)"
| "stream_exec (Read_Data n) h s = do { (out, h1, s1) \<leftarrow> read_data n h s; Some ([], out, h1, s1) }"
| "stream_exec (Peek_Data n) h s = do { out \<leftarrow> peek_data n h s; Some ([], out, h, s) }"
| "stream_exec Pop_Data h s = do {
     (p, h1, s1) \<leftarrow> pop_data h s;
     out \<leftarrow> chain_bytes h1 p [];
     Some ([], out, h1, s1) }"
| "stream_exec Clear_All h s = ret [] [] (stream_clear h s)"

text \<open>
  What a caller must keep to: not to take more than there is, to receive at least one byte, and to write
  copies only when they fit into the write buffer or there is no other empty buffer behind it.
\<close>

fun stream_pre :: "stream_op \<Rightarrow> bheap \<Rightarrow> stream \<Rightarrow> bool" where
  "stream_pre (Write_Copy data) h s =
     (case s_wpos s of None \<Rightarrow> True | Some w \<Rightarrow> b_next (h_mem h w) = None \<or> length data < b_cap (h_mem h w) - b_pos (h_mem h w))"
| "stream_pre (Receive n f) h s = (0 < n)"
| "stream_pre (Skip_Data n) h s = (n \<le> s_rsize s)"
| "stream_pre (Read_Data n) h s = (n \<le> s_rsize s)"
| "stream_pre (Peek_Data n) h s = (n \<le> s_rsize s)"
| "stream_pre _ h s = True"

text \<open>The specification: a queue of bytes.\<close>

fun stream_spec :: "stream_op \<Rightarrow> u8 list \<Rightarrow> u8 list \<Rightarrow> u8 list \<times> u8 list" where
  "stream_spec (Write_Copy data) ins q = ([], q @ data)"
| "stream_spec (Write_Ref data) ins q = ([], q @ data)"
| "stream_spec (Receive n f) ins q = ([], q @ ins)"
| "stream_spec (Skip_Data n) ins q = ([], drop n q)"
| "stream_spec (Read_Data n) ins q = (take n q, drop n q)"
| "stream_spec (Peek_Data n) ins q = (take n q, q)"
| "stream_spec Pop_Data ins q = (q, [])"
| "stream_spec Clear_All ins q = ([], [])"

definition is_stream :: "bheap \<Rightarrow> stream \<Rightarrow> u8 list \<Rightarrow> bool" where
  "is_stream h s q = (0 < h_size h \<and> (\<exists>rs ws. stream_inv h s rs ws \<and> content h rs = q))"

text \<open>The number of bytes an operation takes in.\<close>

fun op_bytes :: "stream_op \<Rightarrow> nat" where
  "op_bytes (Write_Copy data) = length data"
| "op_bytes (Write_Ref data) = length data"
| "op_bytes (Receive n f) = n"
| "op_bytes _ = 0"

lemma chain_bytes_ok: "chain h as \<Longrightarrow> chain_bytes h (first_or as None) out = Some (out @ content h as)"
proof (induction as arbitrary: out)
  case Nil
  then show ?case by (subst chain_bytes.simps) simp
next
  case (Cons a as)
  then show ?case using chain_ConsD[OF Cons.prems] by (subst first_or_simps, subst chain_bytes.simps) (simp add: get_bytes_take)
qed

lemma copy_room_pre:
  assumes inv: "stream_inv h s rs ws" and "stream_pre (Write_Copy data) h s"
  shows "copy_room h rs ws (length data)"
proof (cases "wlist h rs ws")
  case (Cons w us)
  then have wp: "s_wpos s = Some w" using stream_invD(8)[OF inv] by simp
  have "b_next (h_mem h w) = first_or us None"
  proof (rule wpos_cases[OF inv wp])
    fix as assume "rs = as @ [w]" "wlist h rs ws = w # ws"
    then show ?thesis using stream_invD(1)[OF inv] Cons by (auto simp: chain_def nexts_of_def)
  next
    fix vs assume "ws = w # vs" "wlist h rs ws = ws"
    then show ?thesis using stream_invD(1)[OF inv] Cons by (auto simp: chain_def nexts_of_def)
  qed
  then show ?thesis using assms(2) wp Cons by (auto simp: copy_room_def room_def)
qed (simp add: copy_room_def)

lemma length_wbytes: "\<forall>a \<in> set as. buf_ok (h_mem h a) \<Longrightarrow> length (wbytes h as) = (\<Sum>a\<leftarrow>as. room (h_mem h a))"
  by (induction as) (auto simp: wbytes_def room_def buf_ok_def)

lemma chain_length:
  assumes "chain h as"
  shows "length as \<le> h_top h"
proof -
  have "card (set as) \<le> card {..<h_top h}" using assms by (intro card_mono) (auto simp: chain_def)
  then show ?thesis using assms by (simp add: chain_def distinct_card)
qed

lemma receive_ok:
  assumes "is_stream h s q" and n: "0 < n"
  shows "\<exists>ins h' s'. stream_exec (Receive n f) h s = Some (ins, [], h', s') \<and> is_stream h' s' (q @ ins) \<and> length ins = n"
proof -
  obtain rs ws where inv: "stream_inv h s rs ws" "content h rs = q" "0 < h_size h" using assms(1) by (auto simp: is_stream_def)
  obtain h1 s1 ws1 where E: "ensure_write_size n h s = Some (h1, s1)" "stream_inv h1 s1 rs ws1" "n \<le> s_wsize s1"
    "content h1 rs = q" "h_size h1 = h_size h"
    using ensure_write_size_ok[OF inv(1,3), of n] inv(2) by auto
  note I = stream_invD[OF E(2)]
  have ne: "wlist h1 rs ws1 \<noteq> []" using I(9) n E(3) by auto
  have sub: "set (wlist h1 rs ws1) \<subseteq> set (rs @ ws1)" by (auto simp: wlist_def)
  have "length (wlist h1 rs ws1) \<le> length (rs @ ws1)" by (cases rs) (auto simp: wlist_def)
  also have "\<dots> \<le> h_top h1" by (rule chain_length[OF I(1)])
  finally obtain vs where V: "iovecs_for_read h1 (s_wpos s1) (h_top h1) = Some vs"
    "concat (map (iov_bytes (sys_write f h1)) vs) = wbytes (sys_write f h1) (wlist h1 rs ws1)"
    using iovecs_for_read_ok[OF E(2) ne] by blast
  note S = sys_write_inv[OF E(2), of f]
  obtain h2 s2 rs2 ws2 where P: "propagate_write_pos n (sys_write f h1) s1 = Some (h2, s2)" "stream_inv h2 s2 rs2 ws2"
    "content h2 rs2 = q @ take n (wbytes (sys_write f h1) (wlist h1 rs ws1))" "h_size h2 = h_size h"
    using propagate_write_pos_ok[OF S(1) n E(3)] S(2,3) E(4,5) by auto
  have "length (wbytes (sys_write f h1) (wlist h1 rs ws1)) = (\<Sum>a\<leftarrow>wlist h1 rs ws1. room (h_mem (sys_write f h1) a))"
    using sub stream_invD(1)[OF S(1)] by (intro length_wbytes) (auto simp: chain_def)
  also have "\<dots> = s_wsize s1" using stream_invD(9)[OF S(1)] S(3) by simp
  finally have "length (take n (wbytes (sys_write f h1) (wlist h1 rs ws1))) = n" using E(3) by simp
  then show ?thesis using E(1) V P inv(3) by (auto simp: ret_def is_stream_def)
qed

lemma is_streamI: "stream_inv h s rs ws \<Longrightarrow> content h rs = q \<Longrightarrow> 0 < h_size h \<Longrightarrow> is_stream h s q"
  by (auto simp: is_stream_def)

lemma stream_exec_ok:
  assumes "is_stream h s q" and "stream_pre op h s"
  shows "\<exists>ins outs h' s' q'. stream_exec op h s = Some (ins, outs, h', s') \<and> stream_spec op ins q = (outs, q') \<and>
    is_stream h' s' q' \<and> length ins = op_bytes op"
proof -
  obtain rs ws where inv: "stream_inv h s rs ws" "content h rs = q" "0 < h_size h" using assms(1) by (auto simp: is_stream_def)
  show ?thesis
  proof (cases op)
    case (Write_Copy data)
    then obtain h' s' rs' ws' where "write_copy data h s = Some (h', s')" "stream_inv h' s' rs' ws'"
      "content h' rs' = q @ data" "h_size h' = h_size h"
      using write_copy_ok[OF inv(1,3) copy_room_pre[OF inv(1), of data]] assms(2) inv(2) by auto
    then show ?thesis using Write_Copy inv(3) is_streamI[of h' s' rs' ws' "q @ data"] by (simp add: ret_def)
  next
    case (Write_Ref data)
    obtain as h1 where B: "buffers_ref data h = Some (first_or as None, h1)" "fresh_chain h h1 as data"
      using buffers_ref_ok by blast
    then have F: "chain h1 as" "content h1 as = data" "h_frame h {} h1" "\<forall>a \<in> set as. h_top h \<le> a \<and> 0 < b_pos (h_mem h1 a)"
      by (simp_all add: fresh_chain_def)
    have same: "h_mem h1 a = h_mem h a" if "a \<in> set (rs @ ws)" for a
      using that stream_invD(1)[OF inv(1)] h_frameD[OF F(3)] by (auto simp: chain_def)
    have ct: "content h1 rs = content h rs" by (rule content_cong) (simp add: same)
    have "stream_inv h1 s rs ws"
    proof -
      have ch: "chain h1 (rs @ ws)" using chain_cong[OF stream_invD(1)[OF inv(1)] same] F(3) by (simp add: h_frame_def)
      have wl: "wlist h1 rs ws = wlist h rs ws" using same by (auto simp: wlist_def)
      have "set (wlist h rs ws) \<subseteq> set (rs @ ws)" by (auto simp: wlist_def)
      then have "(\<Sum>a\<leftarrow>wlist h rs ws. room (h_mem h1 a)) = (\<Sum>a\<leftarrow>wlist h rs ws. room (h_mem h a))"
        using same by (intro arg_cong[OF map_cong[OF refl]]) auto
      then have "s_wsize s = (\<Sum>a\<leftarrow>wlist h rs ws. room (h_mem h1 a))" using stream_invD(9)[OF inv(1)] by simp
      moreover have "\<forall>a \<in> set rs. 0 < b_pos (h_mem h1 a)" "\<forall>a \<in> set ws. b_pos (h_mem h1 a) = 0 \<and> 0 < b_cap (h_mem h1 a)"
        by (simp_all add: same stream_invD(2,3)[OF inv(1)])
      ultimately show ?thesis
        using ch stream_invD(4-8)[OF inv(1)] unfolding stream_inv_def wl ct by - (intro conjI; assumption)
    qed
    moreover have "set as \<inter> set (rs @ ws) = {}"
    proof -
      have "\<forall>a \<in> set (rs @ ws). a < h_top h" using stream_invD(1)[OF inv(1)] by (simp add: chain_def)
      then show ?thesis using F(4) by (meson disjoint_iff leD)
    qed
    ultimately obtain h' s' rs' ws' where "write_ref (first_or as None) h1 s = Some (h', s')" "stream_inv h' s' rs' ws'"
      "content h' rs' = q @ data" "h_size h' = h_size h1"
      using write_ref_ok[of h1 s rs ws as] F ct inv(2) by auto
    then show ?thesis using Write_Ref B(1) F(3) inv(3) is_streamI[of h' s' rs' ws' "q @ data"] by (simp add: ret_def h_frame_def)
  next
    case (Receive n f)
    then show ?thesis using receive_ok[OF assms(1)] assms(2) by auto
  next
    case (Skip_Data n)
    then obtain h' s' rs' ws' where "skip_data n h s = Some (h', s')" "stream_inv h' s' rs' ws'" "content h' rs' = drop n q" "h_size h' = h_size h"
      using skip_data_ok[OF inv(1), of n] assms(2) inv(2) by auto
    then show ?thesis using Skip_Data inv(3) is_streamI[of h' s' rs' ws' "drop n q"] by (simp add: ret_def)
  next
    case (Read_Data n)
    then obtain h' s' rs' ws' where "read_data n h s = Some (take n q, h', s')" "stream_inv h' s' rs' ws'" "content h' rs' = drop n q" "h_size h' = h_size h"
      using read_data_ok[OF inv(1), of n] assms(2) inv(2) by auto
    then show ?thesis using Read_Data inv(3) is_streamI[of h' s' rs' ws' "drop n q"] by simp
  next
    case (Peek_Data n)
    then show ?thesis using peek_data_ok[OF inv(1), of n] assms inv(2) by auto
  next
    case Pop_Data
    obtain h' s' us where P: "pop_data h s = Some (first_or rs None, h', s')" "stream_inv h' s' [] us"
      "chain h' rs" "content h' rs = q" "h_size h' = h_size h"
      using pop_data_ok[OF inv(1)] inv(2) by blast
    then show ?thesis using Pop_Data inv(3) chain_bytes_ok[OF P(3)] is_streamI[OF P(2)] by simp
  next
    case Clear_All
    then show ?thesis using inv(3) stream_clear_ok is_streamI[OF stream_inv_new] by (simp add: ret_def)
  qed
qed


section \<open>Runs\<close>

inductive stream_reach :: "bheap \<Rightarrow> stream \<Rightarrow> u8 list \<Rightarrow> bool" where
  new: "0 < h_size h \<Longrightarrow> stream_reach h stream_new []"
| step: "stream_reach h s q \<Longrightarrow> stream_pre op h s \<Longrightarrow> stream_exec op h s = Some (ins, outs, h', s') \<Longrightarrow>
    stream_spec op ins q = (outs', q') \<Longrightarrow> stream_reach h' s' q'"

lemma reach_is_stream: "stream_reach h s q \<Longrightarrow> is_stream h s q"
proof (induction rule: stream_reach.induct)
  case (new h)
  then show ?case using is_streamI[OF stream_inv_new] by simp
next
  case (step h s q op ins outs h' s' outs' q')
  then show ?case using stream_exec_ok[of h s q op] by auto
qed

text \<open>A write position of null does not pass the check when the last buffer has room.\<close>

lemma check_fails:
  assumes "chain h as" and "as \<noteq> []" and "0 < room (h_mem h (last as))" and "s_wpos s = None" and "\<not> cl_wpos c"
  shows "priv_check_loop h s (first_or as None) c = None"
  using assms
proof (induction as arbitrary: c)
  case (Cons a as)
  note k = chain_ConsD[OF Cons.prems(1)]
  let ?writable = "b_cap (h_mem h a) - b_pos (h_mem h a) > 0 \<and> (case b_next (h_mem h a) of None \<Rightarrow> True | Some n \<Rightarrow> b_pos (h_mem h n) = 0)"
  show ?case
  proof (cases "?writable")
    case True
    then show ?thesis using Cons.prems(4,5) by (subst first_or_simps, subst priv_check_loop.simps) (simp add: Let_def)
  next
    case False
    then have ne: "as \<noteq> []" using k Cons.prems(3) by (auto simp: room_def)
    then obtain b bs where as: "as = b # bs" by (cases as) auto
    have all: "\<not> cl_wpos c' \<Longrightarrow> priv_check_loop h s (Some b) c' = None" for c'
      using Cons.IH[of c'] k ne Cons.prems(3,4) as by simp
    have nx: "b_next (h_mem h a) = Some b" using k as by simp
    have no: "\<not> (b_pos (h_mem h a) < b_cap (h_mem h a) \<and> b_pos (h_mem h b) = 0)" using False nx by simp
    have "priv_check_loop h s (Some a) c = None"
    proof (cases "b_pos (h_mem h a) < b_cap (h_mem h a)")
      case True
      then have "0 < b_pos (h_mem h b)" using no by simp
      then show ?thesis
        using Cons.prems(5) by (subst priv_check_loop.simps) (cases "b_pos (h_mem h a) = 0"; simp add: Let_def all nx)
    next
      case False
      then show ?thesis
        using Cons.prems(5) by (subst priv_check_loop.simps) (cases "b_pos (h_mem h a) = 0"; simp add: Let_def all nx)
    qed
    then show ?thesis by simp
  qed
qed simp

section \<open>Correctness\<close>





text \<open>
  C35. The other case of \<^verbatim>\<open>WriteCopy\<close>: when the write buffer has another empty buffer behind it, as after
  \<^verbatim>\<open>EnsureWriteSize\<close> of more than one buffer, data that fill it run into an assertion, that the tail is full
  or the one of the self-check, and nothing is written.
\<close>
theorem write_copy_reserved_aborts:
  assumes "is_stream h s q" and "s_wpos s = Some w" and "b_next (h_mem h w) = Some v"
    and "b_cap (h_mem h w) - b_pos (h_mem h w) \<le> length data"
  shows "write_copy data h s = None"
proof -
  obtain rs ws where inv: "stream_inv h s rs ws" using assms(1) by (auto simp: is_stream_def)
  note I = stream_invD[OF inv]
  define cap where "cap = b_cap (h_mem h w) - b_pos (h_mem h w)"
  have rm: "0 < cap" "w \<in> set (rs @ ws)"
  proof -
    have "w \<in> set (wlist h rs ws)" using I(8) assms(2) by (cases "wlist h rs ws") auto
    then show "0 < cap" "w \<in> set (rs @ ws)" using wlist_room[OF inv, of w] by (auto simp: wlist_def cap_def room_def split: if_splits)
  qed
  then have ok: "buf_ok (h_mem h w)" "0 < length data" "b_pos (h_mem h w) < b_cap (h_mem h w)"
    using I(1) assms(4) by (auto simp: chain_def cap_def)
  define t where "t = last ws"
  have ne: "ws \<noteq> []" "t \<noteq> w"
  proof -
    have "ws \<noteq> [] \<and> last ws \<noteq> w"
    proof (rule wpos_cases[OF inv assms(2)])
      fix as assume "rs = as @ [w]" "wlist h rs ws = w # ws"
      moreover from this have "ws \<noteq> []" using I(1) assms(3) by (auto simp: chain_def nexts_of_def)
      ultimately show ?thesis using I(1) last_in_set[of ws] by (auto simp: chain_def)
    next
      fix vs assume e: "ws = w # vs" "wlist h rs ws = ws"
      then have "vs \<noteq> []" "w \<notin> set vs" using I(1) assms(3) by (auto simp: chain_def nexts_of_def)
      then show ?thesis using e last_in_set[of vs] by auto
    qed
    then show "ws \<noteq> []" "t \<noteq> w" by (simp_all add: t_def)
  qed
  have tp: "b_pos (h_mem h t) = 0" "0 < b_cap (h_mem h t)" "s_tail s = Some t" "s_head s \<noteq> None"
    using I(3)[of t] I(4,5) ne by (auto simp: t_def last_or_nonempty)
  define b where "b = (h_mem h w)\<lparr>b_data := take (b_pos (h_mem h w)) (b_data (h_mem h w)) @ take cap data @
           drop (b_pos (h_mem h w) + length (take cap data)) (b_data (h_mem h w))\<rparr>"
  have put: "put_bytes w (b_pos (h_mem h w)) (take cap data) h = Some (h_put w b h)"
    using put_bytes_ok[OF ok(1), of "b_pos (h_mem h w)" "take cap data"] ok(3) by (simp add: b_def cap_def)
  let ?h = "h_put w (b\<lparr>b_pos := b_cap b\<rparr>) h"
  have bb: "b_cap b = b_cap (h_mem h w)" "b_next b = b_next (h_mem h w)" by (simp_all add: b_def)
  have "write_copy_loop data h s1 = None" if s1: "s1 = s\<lparr>s_rsize := m\<rparr>" for s1 m
  proof (cases "cap = length data")
    case True
    let ?s = "s1\<lparr>s_rend := Some w, s_wpos := None, s_wsize := 0\<rparr>"
    have ch: "chain ?h (rs @ ws)"
    proof -
      have "nexts_of ?h = nexts_of h" using bb by (auto simp: nexts_of_def)
      moreover have "buf_ok (b\<lparr>b_pos := b_cap b\<rparr>)" using ok(1,3) True by (auto simp: b_def buf_ok_def cap_def)
      ultimately show ?thesis using I(1) by (auto simp: chain_def)
    qed
    have "last (rs @ ws) = t" using ne by (simp add: t_def)
    moreover have "0 < room (h_mem ?h t)" using tp ne by (simp add: room_def)
    ultimately have "priv_check_loop ?h ?s (first_or (rs @ ws) None) c = None" if "\<not> cl_wpos c" for c
      using check_fails[OF ch] ne that by simp
    moreover obtain a where a: "s_head ?s = Some a" "first_or (rs @ ws) None = Some a"
    proof -
      obtain a where "s_head s = Some a" using tp(4) by auto
      then show thesis using that[of a] I(4) s1 by simp
    qed
    ultimately have "priv_check_loop ?h ?s (Some a) c = None" if "\<not> cl_wpos c" for c using that by simp
    then have "priv_check ?h ?s = None" by (simp only: priv_check_def a(1) option.case) simp
    then have "checked ?h ?s = None" by (simp add: checked_def)
    then show ?thesis
      using True put ok(3) bb assms(2) s1 tp by (subst write_copy_loop.simps) (simp add: Let_def cap_def set_pos_put)
  next
    case False
    then have "cap < length data" using assms(4) by (simp add: cap_def)
    then show ?thesis
      using put ok(3) bb assms(2) s1 tp ne by (subst write_copy_loop.simps) (simp add: Let_def cap_def set_pos_put)
  qed
  then show ?thesis using assms(2) ok(2) by (simp add: write_copy_def)
qed

lemma write_copy_reserved_aborts_witness:
  "\<exists>h s. ensure_write_size 5 heap0 stream_new = Some (h, s) \<and> write_copy [1, 2, 3, 4] h s = None"
proof -
  have w: "s_wpos stream_new = None" "s_wsize stream_new = 0" "s_head stream_new = None" "s_rsize stream_new = 0" "s_tail stream_new = None"
    by (simp_all add: stream_new_def)
  obtain h s ws where E: "ensure_write_size 5 heap0 stream_new = Some (h, s)" "stream_inv h s [] ws" "h_size h = h_size heap0"
    using ensure_write_size_ok[OF stream_inv_new, of heap0 5] by (auto simp: heap0_def)
  have "s_wpos s = Some 0 \<and> b_next (h_mem h 0) = Some 1 \<and> b_cap (h_mem h 0) - b_pos (h_mem h 0) = 4"
    using E(1) w
    by (subst (asm) ensure_write_size_def, subst (asm) ensure_loop.simps)
      (auto simp: first_writable_def grow_tail_def buffer_copy_new_def h_alloc_def heap0_def h_set_mem checked_def
        split: if_splits Option.bind_splits)
  moreover have "is_stream h s []" using E by (auto simp: is_stream_def heap0_def)
  ultimately show ?thesis using E(1) write_copy_reserved_aborts[of h s "[]" 0 1 "[1, 2, 3, 4]"] by auto
qed

end
