(* ===== verification/Buffer_Links.thy ===== *)
theory Buffer_Links
  imports Buffers
begin

text \<open>
  \<^verbatim>\<open>BufferLink\<close> and \<^verbatim>\<open>BufferLinkList\<close> of \<^verbatim>\<open>net/Buffer.h\<close>: a list of references to chains of buffers. The
  links themselves are an intrusive \<^verbatim>\<open>ForwardList\<close>, which theory \<open>Forward_List\<close> shows to be a list; here
  it is the list of the pointers \<^verbatim>\<open>myHead\<close>. The chains may be shared by several lists.
\<close>

section \<open>Operations\<close>

type_synonym links = "nat ptr list"

definition links_append_ref :: "nat ptr \<Rightarrow> links \<Rightarrow> links" where
  "links_append_ref head ps = (if head = None then ps else ps @ [head])"

definition links_append_move :: "links \<Rightarrow> links \<Rightarrow> links" where
  "links_append_move qs ps = (if qs = [] then ps else ps @ qs)"

definition links_append_data :: "u8 list \<Rightarrow> bheap \<Rightarrow> links \<Rightarrow> (bheap \<times> links) option" where
  "links_append_data data h ps = do { (head, h1) \<leftarrow> buffers_ref data h; Some (h1, links_append_ref head ps) }"

definition links_append_copy :: "u8 list \<Rightarrow> bheap \<Rightarrow> links \<Rightarrow> (bheap \<times> links) option" where
  "links_append_copy data h ps = do { (head, h1) \<leftarrow> buffers_copy data h; Some (h1, links_append_ref head ps) }"

text \<open>\<^verbatim>\<open>SkipData\<close>: the loop over the buffers of a link, then the loop over the links.\<close>

partial_function (option) skip_bufs :: "bheap \<Rightarrow> nat ptr \<Rightarrow> nat \<Rightarrow> (nat ptr \<times> nat) option" where
  "skip_bufs h pos n =
     (case pos of None \<Rightarrow> Some (None, n)
      | Some a \<Rightarrow> if b_pos (h_mem h a) > n then Some (Some a, n)
                  else skip_bufs h (b_next (h_mem h a)) (n - b_pos (h_mem h a)))"

fun links_skip_loop :: "bheap \<Rightarrow> nat \<Rightarrow> links \<Rightarrow> (nat \<times> links) option" where
  "links_skip_loop h n [] = (if n = 0 then Some (0, []) else None)"
| "links_skip_loop h n (p # ps) =
     (if n = 0 then Some (0, p # ps)
      else do {
        (q, m) \<leftarrow> skip_bufs h p n;
        case q of Some a \<Rightarrow> Some (m, Some a # ps) | None \<Rightarrow> links_skip_loop h m ps })"

definition links_skip :: "bheap \<Rightarrow> nat \<Rightarrow> nat \<Rightarrow> links \<Rightarrow> (nat \<times> links) option" where
  "links_skip h off n ps = links_skip_loop h (n + off) ps"

text \<open>\<^verbatim>\<open>SkipEmptyPrefix\<close>: the same, but the head of the link moves by moving the next pointer out.\<close>

partial_function (option) prefix_bufs :: "nat ptr \<Rightarrow> nat \<Rightarrow> bheap \<Rightarrow> (nat ptr \<times> nat \<times> bheap) option" where
  "prefix_bufs head off h =
     (case head of None \<Rightarrow> Some (None, off, h)
      | Some a \<Rightarrow>
          if b_pos (h_mem h a) > 0 then
            if off < b_pos (h_mem h a) then Some (Some a, off, h)
            else do {
              mg_assert (off = b_pos (h_mem h a));
              let (next, h1) = take_next a h;
              prefix_bufs next 0 h1 }
          else do {
            let (next, h1) = take_next a h;
            prefix_bufs next off h1 })"

fun prefix_links :: "nat \<Rightarrow> links \<Rightarrow> bheap \<Rightarrow> (nat \<times> links \<times> bheap) option" where
  "prefix_links off [] h = Some (off, [], h)"
| "prefix_links off (p # ps) h = do {
     (q, off1, h1) \<leftarrow> prefix_bufs p off h;
     case q of Some a \<Rightarrow> Some (off1, Some a # ps, h1) | None \<Rightarrow> prefix_links off1 ps h1 }"

definition links_skip_prefix :: "nat \<Rightarrow> links \<Rightarrow> bheap \<Rightarrow> (nat \<times> links \<times> bheap) option" where
  "links_skip_prefix off ps h =
     (case ps of
        [] \<Rightarrow> do { mg_assert (off = 0); Some (off, [], h) }
      | p # _ \<Rightarrow>
          (case p of
             Some a \<Rightarrow> if b_pos (h_mem h a) > off then Some (off, ps, h) else prefix_links off ps h
           | None \<Rightarrow> prefix_links off ps h))"

text \<open>\<^verbatim>\<open>BuffersCopy\<close> of links, and \<^verbatim>\<open>BuffersToIOVecsForWrite\<close> of links.\<close>

fun links_start :: "bheap \<Rightarrow> links \<Rightarrow> (nat \<times> links) option option" where
  "links_start h [] = Some None"
| "links_start h (p # ps) = do {
     q \<leftarrow> skip_empty h p;
     case q of None \<Rightarrow> links_start h ps | Some a \<Rightarrow> Some (Some (a, ps)) }"

fun copy_links_rest :: "nat \<Rightarrow> links \<Rightarrow> bheap \<Rightarrow> (nat \<times> bheap) option" where
  "copy_links_rest tail [] h = Some (tail, h)"
| "copy_links_rest tail (p # ps) h = do {
     (tail1, h1) \<leftarrow> copy_chain_loop tail p h;
     copy_links_rest tail1 ps h1 }"

definition buffers_copy_links :: "links \<Rightarrow> bheap \<Rightarrow> (nat ptr \<times> bheap) option" where
  "buffers_copy_links ps h = do {
     start \<leftarrow> links_start h ps;
     case start of None \<Rightarrow> Some (None, h)
     | Some (a, rest) \<Rightarrow> do {
         let (res, h1) = buffer_copy_new h;
         (tail, h2) \<leftarrow> copy_chain_loop res (Some a) h1;
         (_, h3) \<leftarrow> copy_links_rest tail rest h2;
         Some (Some res, h3) } }"

fun iovecs_links_loop :: "bheap \<Rightarrow> links \<Rightarrow> nat \<Rightarrow> nat \<Rightarrow> iovec list \<Rightarrow> iovec list option" where
  "iovecs_links_loop h [] off lim vecs = Some vecs"
| "iovecs_links_loop h (p # ps) off lim vecs = do {
     (off1, vecs1) \<leftarrow> iovecs_for_write_loop h p off lim vecs;
     if length vecs1 = lim then Some vecs1 else iovecs_links_loop h ps off1 lim vecs1 }"

definition iovecs_links :: "bheap \<Rightarrow> links \<Rightarrow> nat \<Rightarrow> nat \<Rightarrow> iovec list option" where
  "iovecs_links h ps off lim = iovecs_links_loop h ps off lim []"

section \<open>What a list of links holds\<close>

definition links_rep :: "bheap \<Rightarrow> links \<Rightarrow> nat list list \<Rightarrow> bool" where
  "links_rep h ps ass = list_all2 (\<lambda>p as. p = first_or as None \<and> chain h as) ps ass"

definition lcontent :: "bheap \<Rightarrow> nat list list \<Rightarrow> u8 list" where
  "lcontent h ass = concat (map (content h) ass)"

lemma links_rep_simps [simp]:
  "links_rep h [] ass \<longleftrightarrow> ass = []"
  "links_rep h (p # ps) (as # ass) \<longleftrightarrow> p = first_or as None \<and> chain h as \<and> links_rep h ps ass"
  "links_rep h ps [] \<longleftrightarrow> ps = []"
  by (auto simp: links_rep_def list_all2_Cons1)

lemma links_rep_Cons1: "links_rep h (p # ps) ass \<longleftrightarrow> (\<exists>as r. ass = as # r \<and> p = first_or as None \<and> chain h as \<and> links_rep h ps r)"
  by (auto simp: links_rep_def list_all2_Cons1)

lemma links_rep_append: "links_rep h ps ass \<Longrightarrow> links_rep h qs bss \<Longrightarrow> links_rep h (ps @ qs) (ass @ bss)"
  by (simp add: links_rep_def list_all2_appendI)

lemma lcontent_simps [simp]:
  "lcontent h [] = []" "lcontent h (as # ass) = content h as @ lcontent h ass"
  "lcontent h (ass @ bss) = lcontent h ass @ lcontent h bss"
  by (simp_all add: lcontent_def)

lemma content_concat: "content h (concat ass) = lcontent h ass"
  by (induction ass) auto

lemma links_rep_frame: "links_rep h ps ass \<Longrightarrow> h_frame h {} h' \<Longrightarrow> links_rep h' ps ass \<and> lcontent h' ass = lcontent h ass"
  by (induction ps ass rule: list_induct2') (auto dest: chain_frame)

lemma skip_bufs_inside:
  assumes "chain h as" and "n < length (content h as)"
  shows "\<exists>a us vs m. as = us @ a # vs \<and> skip_bufs h (first_or as None) n = Some (Some a, m) \<and> m < b_pos (h_mem h a) \<and>
    n = length (content h us) + m"
  using assms
proof (induction as arbitrary: n)
  case (Cons a as)
  note c = chain_ConsD[OF Cons.prems(1)]
  have l: "length (readable (h_mem h a)) = b_pos (h_mem h a)" using c by simp
  show ?case
  proof (cases "n < b_pos (h_mem h a)")
    case True
    then have "skip_bufs h (Some a) n = Some (Some a, n)" by (subst skip_bufs.simps) simp
    then show ?thesis using True by (intro exI[where x = a] exI[where x = "[]"] exI[where x = as] exI[where x = n]) simp
  next
    case False
    then have "skip_bufs h (Some a) n = skip_bufs h (first_or as None) (n - b_pos (h_mem h a))"
      using c by (subst skip_bufs.simps) simp
    moreover have "n - b_pos (h_mem h a) < length (content h as)" using Cons.prems(2) False l by simp
    from Cons.IH[OF conjunct1[OF c] this] obtain b us vs m where "as = us @ b # vs" "skip_bufs h (first_or as None) (n - b_pos (h_mem h a)) = Some (Some b, m)"
      "m < b_pos (h_mem h b)" "n - b_pos (h_mem h a) = length (content h us) + m" by blast
    ultimately show ?thesis
      using False l by (intro exI[where x = b] exI[where x = "a # us"] exI[where x = vs] exI[where x = m]) simp
  qed
qed simp

lemma skip_bufs_past:
  assumes "chain h as" and "length (content h as) \<le> n"
  shows "skip_bufs h (first_or as None) n = Some (None, n - length (content h as))"
  using assms
proof (induction as arbitrary: n)
  case Nil
  then show ?case by (subst skip_bufs.simps) simp
next
  case (Cons a as)
  note c = chain_ConsD[OF Cons.prems(1)]
  have l: "length (readable (h_mem h a)) = b_pos (h_mem h a)" using c by simp
  have "skip_bufs h (Some a) n = skip_bufs h (first_or as None) (n - b_pos (h_mem h a))"
    using c Cons.prems(2) l by (subst skip_bufs.simps) simp
  then show ?case using Cons.IH[of "n - b_pos (h_mem h a)"] c Cons.prems(2) l by simp
qed

definition starts_inside :: "bheap \<Rightarrow> nat \<Rightarrow> nat list list \<Rightarrow> bool" where
  "starts_inside h off ass = (off = 0 \<or> (\<exists>a as r. ass = (a # as) # r \<and> off < b_pos (h_mem h a)))"

lemma links_skip_loop_ok:
  assumes "links_rep h ps ass" and "n \<le> length (lcontent h ass)"
  shows "\<exists>off ps' ass'. links_skip_loop h n ps = Some (off, ps') \<and> links_rep h ps' ass' \<and>
    drop off (lcontent h ass') = drop n (lcontent h ass) \<and> starts_inside h off ass'"
  using assms
proof (induction ps arbitrary: n ass)
  case Nil
  then show ?case by (simp add: starts_inside_def)
next
  case (Cons p ps)
  obtain as r where ass: "ass = as # r" "p = first_or as None" "chain h as" "links_rep h ps r"
    using Cons.prems(1) by (auto simp: links_rep_Cons1)
  show ?case
  proof (cases "n = 0")
    case True
    then show ?thesis using Cons.prems(1) by (auto simp: starts_inside_def)
  next
    case n: False
    show ?thesis
    proof (cases "n < length (content h as)")
      case True
      from skip_bufs_inside[OF ass(3) this] obtain a us vs m where S: "as = us @ a # vs"
        "skip_bufs h (first_or as None) n = Some (Some a, m)" "m < b_pos (h_mem h a)" "n = length (content h us) + m" by blast
      have "chain h (a # vs)" using chain_appendD2 ass(3) S(1) by blast
      then have "links_rep h (Some a # ps) ((a # vs) # r)" using ass(4) by simp
      moreover have "drop m (lcontent h ((a # vs) # r)) = drop n (lcontent h ass)" using ass(1) S(1,4) by simp
      ultimately show ?thesis
        using n S(2,3) ass(2) by (intro exI[where x = m] exI[where x = "Some a # ps"] exI[where x = "(a # vs) # r"])
          (simp add: starts_inside_def)
    next
      case False
      then have "links_skip_loop h n (p # ps) = links_skip_loop h (n - length (content h as)) ps"
        using n ass(2) skip_bufs_past[OF ass(3), of n] by simp
      moreover have "drop n (lcontent h ass) = drop (n - length (content h as)) (lcontent h r)" using False ass(1) by simp
      ultimately show ?thesis
        using Cons.IH[OF ass(4), of "n - length (content h as)"] Cons.prems(2) ass(1) by simp
    qed
  qed
qed


text \<open>The prefix: the first buffer with data after the offset.\<close>

definition prefix_ok :: "bheap \<Rightarrow> nat \<Rightarrow> nat list \<Rightarrow> bool" where
  "prefix_ok h off as = (case filter (nonempty h) as of [] \<Rightarrow> True | a # _ \<Rightarrow> off \<le> b_pos (h_mem h a))"

lemma prefix_ok_simps [simp]:
  "prefix_ok h off []" "prefix_ok h 0 as"
  "b_pos (h_mem h a) = 0 \<Longrightarrow> prefix_ok h off (a # as) = prefix_ok h off as"
  "0 < b_pos (h_mem h a) \<Longrightarrow> prefix_ok h off (a # as) \<longleftrightarrow> off \<le> b_pos (h_mem h a)"
  by (auto simp: prefix_ok_def nonempty_def split: list.splits)

lemma prefix_ok_frame:
  "(\<And>a. a \<in> set as \<Longrightarrow> h_mem h' a = h_mem h a) \<Longrightarrow> prefix_ok h' off as = prefix_ok h off as"
proof -
  assume same: "\<And>a. a \<in> set as \<Longrightarrow> h_mem h' a = h_mem h a"
  then have "filter (nonempty h') as = filter (nonempty h) as" by (intro filter_cong refl) (simp add: nonempty_def)
  moreover have "h_mem h' (hd (filter (nonempty h) as)) = h_mem h (hd (filter (nonempty h) as))" if "filter (nonempty h) as \<noteq> []"
    using same hd_in_set[OF that] by simp
  ultimately show ?thesis by (cases "filter (nonempty h) as") (simp_all add: prefix_ok_def)
qed

lemma prefix_bufs_ok:
  assumes "chain h as" and "prefix_ok h off (as @ bs)" and "set as \<inter> set bs = {}"
  shows "\<exists>q off1 h1 cs. prefix_bufs (first_or as None) off h = Some (q, off1, h1) \<and> q = first_or cs None \<and> chain h1 cs \<and>
    set cs \<subseteq> set as \<and> h_frame h (set as - set cs) h1 \<and>
    (cs = [] \<longrightarrow> prefix_ok h off1 bs) \<and> (cs \<noteq> [] \<longrightarrow> off1 < b_pos (h_mem h1 (hd cs))) \<and>
    drop off1 (content h1 cs @ content h bs) = drop off (content h as @ content h bs)"
  using assms
proof (induction as arbitrary: off h)
  case Nil
  then show ?case by (subst prefix_bufs.simps) (auto intro!: exI[where x = "[]"])
next
  case (Cons a as)
  note c = chain_ConsD[OF Cons.prems(1)]
  let ?h = "set_next a None h"
  have same: "h_mem ?h x = h_mem h x" if "x \<in> set (as @ bs)" for x
    using that c Cons.prems(3) by (auto simp: h_set_mem)
  have c1: "chain ?h as" using chain_cong[OF conjunct1[OF c], of ?h] same by simp
  have ct: "content ?h as = content h as" "content ?h bs = content h bs" using same by (auto intro!: content_cong)
  have l: "length (readable (h_mem h a)) = b_pos (h_mem h a)" using c by simp
  have next_step: ?case if e: "prefix_bufs (Some a) off h = prefix_bufs (first_or as None) off' ?h"
    "prefix_ok h off' (as @ bs)" "drop off' (content h as @ content h bs) = drop off (content h (a # as) @ content h bs)" for off'
  proof -
    have "prefix_ok ?h off' (as @ bs)" using e(2) same prefix_ok_frame[of "as @ bs" ?h h off'] by blast
    from Cons.IH[OF c1 this] Cons.prems(3) obtain q off1 h1 cs where
      R: "prefix_bufs (first_or as None) off' ?h = Some (q, off1, h1)" "q = first_or cs None" "chain h1 cs"
      "set cs \<subseteq> set as" "h_frame ?h (set as - set cs) h1" "cs = [] \<longrightarrow> prefix_ok ?h off1 bs" "cs \<noteq> [] \<longrightarrow> off1 < b_pos (h_mem h1 (hd cs))"
      "drop off1 (content h1 cs @ content ?h bs) = drop off' (content ?h as @ content ?h bs)" by auto
    have "a \<notin> set cs" using R(4) c by auto
    then have "h_frame h (set (a # as) - set cs) h1"
      using R(5) by (auto simp: h_frame_def h_set_mem)
    moreover have "cs = [] \<longrightarrow> prefix_ok h off1 bs" using R(6) prefix_ok_frame[of bs ?h h off1] same by simp
    ultimately show ?thesis
      using R e(1,3) ct by (intro exI[where x = q] exI[where x = off1] exI[where x = h1] exI[where x = cs]) auto
  qed
  show ?case
  proof (cases "b_pos (h_mem h a) = 0")
    case True
    then have "prefix_bufs (Some a) off h = prefix_bufs (first_or as None) off ?h"
      using c by (subst prefix_bufs.simps) (simp add: take_next_def)
    then show ?thesis using next_step[of off] Cons.prems(2) True by (simp add: readable_def)
  next
    case ne: False
    show ?thesis
    proof (cases "off < b_pos (h_mem h a)")
      case True
      then have "prefix_bufs (Some a) off h = Some (Some a, off, h)"
        using ne by (subst prefix_bufs.simps) simp
      then show ?thesis
        using True Cons.prems(1)
        by (intro exI[where x = "Some a"] exI[where x = off] exI[where x = h] exI[where x = "a # as"]) simp
    next
      case False
      then have "off = b_pos (h_mem h a)" using Cons.prems(2) ne by simp
      then have "prefix_bufs (Some a) off h = prefix_bufs (first_or as None) 0 ?h"
        using c ne by (subst prefix_bufs.simps) (simp add: take_next_def)
      then show ?thesis using next_step[of 0] \<open>off = b_pos (h_mem h a)\<close> l by simp
    qed
  qed
qed

lemma links_rep_cong:
  "links_rep h ps ass \<Longrightarrow> (\<And>a. a \<in> set (concat ass) \<Longrightarrow> h_mem h' a = h_mem h a) \<Longrightarrow> h_top h \<le> h_top h' \<Longrightarrow>
    links_rep h' ps ass \<and> lcontent h' ass = lcontent h ass"
proof (induction ps ass rule: list_induct2')
  case (4 p ps as ass)
  then show ?case using chain_cong[of h as h'] content_cong[of as h' h] by auto
qed auto

lemma prefix_links_ok:
  assumes "links_rep h ps ass" and "prefix_ok h off (concat ass)" and "distinct (concat ass)"
  shows "\<exists>off1 ps' ass' h1. prefix_links off ps h = Some (off1, ps', h1) \<and> links_rep h1 ps' ass' \<and>
    drop off1 (lcontent h1 ass') = drop off (lcontent h ass) \<and>
    (ass' = [] \<or> (\<exists>a as r. ass' = (a # as) # r \<and> off1 < b_pos (h_mem h1 a)))"
  using assms
proof (induction ps arbitrary: off ass h)
  case Nil
  then show ?case by simp
next
  case (Cons p ps)
  obtain as r where ass: "ass = as # r" "p = first_or as None" "chain h as" "links_rep h ps r"
    using Cons.prems(1) by (auto simp: links_rep_Cons1)
  have dis: "set as \<inter> set (concat r) = {}" "distinct (concat r)" using Cons.prems(3) ass(1) by auto
  have "prefix_ok h off (as @ concat r)" using Cons.prems(2) ass(1) by simp
  from prefix_bufs_ok[OF ass(3) this dis(1)] obtain q off1 h1 cs where
    R: "prefix_bufs (first_or as None) off h = Some (q, off1, h1)" "q = first_or cs None" "chain h1 cs"
    "set cs \<subseteq> set as" "h_frame h (set as - set cs) h1" "cs = [] \<longrightarrow> prefix_ok h off1 (concat r)"
    "cs \<noteq> [] \<longrightarrow> off1 < b_pos (h_mem h1 (hd cs))"
    "drop off1 (content h1 cs @ content h (concat r)) = drop off (content h as @ content h (concat r))" by blast
  have top: "x < h_top h" if "x \<in> set (concat r)" for x
    using that ass(4) by (induction ps r rule: list_induct2') (auto simp: chain_def)
  have same: "h_mem h1 x = h_mem h x" if "x \<in> set (concat r)" for x
    using R(5) that dis(1) top[OF that] by (auto simp: h_frame_def disjoint_iff)
  have rep: "links_rep h1 ps r" "lcontent h1 r = lcontent h r"
    using links_rep_cong[OF ass(4) same] R(5) by (simp_all add: h_frame_def)
  show ?case
  proof (cases cs)
    case Nil
    have "prefix_ok h1 off1 (concat r)" using R(6) Nil same prefix_ok_frame[of "concat r" h1 h off1] by blast
    from Cons.IH[OF rep(1) this dis(2)] obtain off2 ps' ass' h2 where S: "prefix_links off1 ps h1 = Some (off2, ps', h2)"
      "links_rep h2 ps' ass'" "drop off2 (lcontent h2 ass') = drop off1 (lcontent h1 r)"
      "ass' = [] \<or> (\<exists>a as r. ass' = (a # as) # r \<and> off2 < b_pos (h_mem h2 a))" by blast
    have "drop off1 (lcontent h1 r) = drop off (lcontent h ass)" using R(8) Nil ass(1) rep(2) by (simp add: content_concat)
    then show ?thesis using S R(1,2) Nil ass(2) by auto
  next
    case (Cons c cs')
    have "prefix_links off (p # ps) h = Some (off1, Some c # ps, h1)" using R(1,2) Cons ass(2) by simp
    moreover have "links_rep h1 (Some c # ps) (cs # r)" using R(3) rep(1) Cons by simp
    moreover have "drop off1 (lcontent h1 (cs # r)) = drop off (lcontent h ass)" using R(8) ass(1) rep(2) by (simp add: content_concat)
    ultimately show ?thesis using R(7) Cons by (intro exI[where x = off1] exI[where x = "Some c # ps"] exI[where x = "cs # r"] exI[where x = h1]) auto
  qed
qed

lemma links_skip_prefix_ok:
  assumes "links_rep h ps ass" and "prefix_ok h off (concat ass)" and "distinct (concat ass)" and "ps = [] \<Longrightarrow> off = 0"
  shows "\<exists>off1 ps' ass' h1. links_skip_prefix off ps h = Some (off1, ps', h1) \<and> links_rep h1 ps' ass' \<and>
    drop off1 (lcontent h1 ass') = drop off (lcontent h ass) \<and>
    (ass' = [] \<or> (\<exists>a as r. ass' = (a # as) # r \<and> off1 < b_pos (h_mem h1 a)))"
proof (cases ps)
  case Nil
  then show ?thesis using assms(1,4) by (simp add: links_skip_prefix_def)
next
  case (Cons p qs)
  note P = prefix_links_ok[OF assms(1-3)]
  show ?thesis
  proof (cases p)
    case None
    then show ?thesis using P Cons by (simp add: links_skip_prefix_def)
  next
    case (Some a)
    obtain as r where ass: "ass = (a # as) # r"
      using assms(1) Cons Some by (auto simp: links_rep_Cons1 dest!: first_or_None_SomeD[OF sym])
    show ?thesis
    proof (cases "off < b_pos (h_mem h a)")
      case True
      then have "links_skip_prefix off ps h = Some (off, ps, h)" using Cons Some by (simp add: links_skip_prefix_def)
      then show ?thesis using assms(1) ass True by blast
    next
      case False
      then show ?thesis using P Cons Some by (simp add: links_skip_prefix_def)
    qed
  qed
qed


section \<open>Sending\<close>

lemma skip_empty_links:
  assumes "links_rep h ps ass"
  shows "(links_start h ps = Some None \<and> lcontent h ass = []) \<or>
    (\<exists>a as rest r. links_start h ps = Some (Some (a, rest)) \<and> chain h (a # as) \<and> 0 < b_pos (h_mem h a) \<and> links_rep h rest r \<and>
       lcontent h ass = content h (a # as) @ lcontent h r)"
  using assms
proof (induction ps arbitrary: ass)
  case Nil
  then show ?case by simp
next
  case (Cons p ps)
  obtain as r where ass: "ass = as # r" "p = first_or as None" "chain h as" "links_rep h ps r"
    using Cons.prems(1) by (auto simp: links_rep_Cons1)
  let ?d = "dropWhile (\<lambda>a. b_pos (h_mem h a) = 0) as"
  have d: "as = takeWhile (\<lambda>a. b_pos (h_mem h a) = 0) as @ ?d" by simp
  have ch: "chain h ?d" using chain_appendD2[of h "takeWhile (\<lambda>a. b_pos (h_mem h a) = 0) as" ?d] ass(3) d by simp
  show ?case
  proof (cases ?d)
    case Nil
    then have "links_start h (p # ps) = links_start h ps" "content h as = []"
      using skip_empty_ok[OF ass(3)] ass(2) content_drop_empty[of h as, symmetric] by (simp_all del: dropWhile_eq_Nil_conv)
    then show ?thesis using Cons.IH[OF ass(4)] ass(1) by simp
  next
    case (Cons a as')
    then have "links_start h (p # ps) = Some (Some (a, ps))" using skip_empty_ok[OF ass(3)] ass(2) by simp
    moreover have "0 < b_pos (h_mem h a)" using hd_dropWhile[of "\<lambda>a. b_pos (h_mem h a) = 0" as] Cons by auto
    moreover have "content h as = content h (a # as')" using content_drop_empty[of h as] Cons by simp
    ultimately show ?thesis using ch Cons ass(1,4) by auto
  qed
qed

lemma copy_links_rest_ok:
  assumes "links_rep h ps ass" and "fresh_chain h h1 (as @ [t]) data" and "h_size h > 0"
  shows "\<exists>cs t' h'. copy_links_rest t ps h1 = Some (t', h') \<and> fresh_chain h h' (as @ t # cs) (data @ lcontent h ass)"
  using assms
proof (induction ps arbitrary: ass as t h1 data)
  case Nil
  then show ?case by (auto intro!: exI[where x = "[]"])
next
  case (Cons p ps)
  obtain ss r where ass: "ass = ss # r" "p = first_or ss None" "chain h ss" "links_rep h ps r"
    using Cons.prems(1) by (auto simp: links_rep_Cons1)
  have F: "chain h1 (as @ [t])" "content h1 (as @ [t]) = data" "h_frame h {} h1"
    "\<forall>a \<in> set (as @ [t]). h_top h \<le> a \<and> 0 < b_pos (h_mem h1 a)"
    using Cons.prems(2) by (simp_all add: fresh_chain_def)
  have src: "chain h1 ss" "content h1 ss = content h ss" using chain_frame[OF ass(3) F(3)] by auto
  have "\<forall>x \<in> set ss. x < h_top h" using ass(3) by (simp add: chain_def)
  then have dis: "set ss \<inter> set (as @ [t]) = {}" using F(4) by (meson disjoint_iff leD)
  have "h_size h1 > 0" using F(3) Cons.prems(3) by (simp add: h_frame_def)
  from copy_chain_loop_ok[OF F(1) src(1) dis this] obtain cs t1 h2 where
    R: "copy_chain_loop t (first_or ss None) h1 = Some (t1, h2)" "chain h2 (as @ t # cs)" "t1 = last (t # cs)"
    "content h2 (as @ t # cs) = content h1 (as @ [t]) @ content h1 ss" "h_frame h1 {t} h2"
    "\<forall>c \<in> set cs. h_top h1 \<le> c \<and> 0 < b_pos (h_mem h2 c)" "b_pos (h_mem h1 t) \<le> b_pos (h_mem h2 t)" by blast
  have fr: "h_frame h {} h2" using h_frame_new[OF F(3) R(5)] F(4) by simp
  have new: "h_top h \<le> x \<and> 0 < b_pos (h_mem h2 x)" if "x \<in> set (as @ t # cs)" for x
  proof -
    have "x \<in> set as \<or> x = t \<or> x \<in> set cs" using that by auto
    then show ?thesis
    proof (elim disjE)
      assume 1: "x \<in> set as"
      then have "x \<noteq> t" "x < h_top h1" using F(1) by (auto simp: chain_def)
      then have "h_mem h2 x = h_mem h1 x" using h_frameD[OF R(5), of x] by simp
      then show ?thesis using F(4) 1 by simp
    next
      assume "x = t"
      then show ?thesis using F(4) R(7) by fastforce
    next
      assume "x \<in> set cs"
      then show ?thesis using R(6) F(3) by (fastforce simp: h_frame_def)
    qed
  qed
  obtain bs where bs: "as @ t # cs = bs @ [t1]"
    using R(3) by (metis append_butlast_last_id append_is_Nil_conv last_appendR list.distinct(1))
  have "fresh_chain h h2 (bs @ [t1]) (data @ content h ss)"
    using R(2,4) F(2) src(2) fr new unfolding bs by (simp add: fresh_chain_def)
  from Cons.IH[OF ass(4) this Cons.prems(3)] obtain ds t' h' where
    S: "copy_links_rest t1 ps h2 = Some (t', h')" "fresh_chain h h' (bs @ t1 # ds) ((data @ content h ss) @ lcontent h r)" by blast
  have "bs @ t1 # ds = as @ t # cs @ ds" using bs by (metis append.assoc append_Cons append_Nil)
  then have "fresh_chain h h' (as @ t # cs @ ds) (data @ lcontent h ass)" using S(2) ass(1) by (simp only: append_assoc lcontent_simps)
  then show ?case using S(1) R(1) ass(2) by (intro exI[where x = "cs @ ds"] exI[where x = t'] exI[where x = h']) simp
qed

lemma buffers_copy_links_ok:
  assumes "links_rep h ps ass" and "h_size h > 0"
  shows "\<exists>as h'. buffers_copy_links ps h = Some (first_or as None, h') \<and> fresh_chain h h' as (lcontent h ass)"
proof -
  from skip_empty_links[OF assms(1)] show ?thesis
  proof (elim disjE exE conjE)
    assume "links_start h ps = Some None" "lcontent h ass = []"
    then show ?thesis by (intro exI[where x = "[]"] exI[where x = h]) (simp add: buffers_copy_links_def fresh_chain_def)
  next
    fix a as rest r
    assume A: "links_start h ps = Some (Some (a, rest))" "chain h (a # as)" "0 < b_pos (h_mem h a)" "links_rep h rest r"
      "lcontent h ass = content h (a # as) @ lcontent h r"
    obtain b h1 where n: "buffer_copy_new h = (b, h1)" by (cases "buffer_copy_new h")
    from copy_chain_new_ok[OF n A(2,3) assms(2)] obtain cs t h2 where
      C: "copy_chain_loop b (Some a) h1 = Some (t, h2)" "fresh_chain h h2 (b # cs) (content h (a # as))" "t = last (b # cs)" by blast
    obtain bs where bs: "b # cs = bs @ [t]" using C(3) by (metis append_butlast_last_id list.distinct(1))
    from copy_links_rest_ok[OF A(4) _ assms(2), of h2 bs t "content h (a # as)"] C(2) bs obtain ds t' h' where
      R: "copy_links_rest t rest h2 = Some (t', h')" "fresh_chain h h' (bs @ t # ds) (content h (a # as) @ lcontent h r)" by auto
    have "bs @ t # ds = b # cs @ ds" using bs by (metis append.assoc append_Cons append_Nil)
    then have "fresh_chain h h' (b # cs @ ds) (lcontent h ass)" using R(2) A(5) by (simp only:)
    then show ?thesis using A(1) n C(1) R(1) by (intro exI[where x = "b # cs @ ds"] exI[where x = h']) (simp add: buffers_copy_links_def)
  qed
qed

text \<open>The vectors of links are those of the concatenated chains.\<close>

lemma off_ok_append:
  "off_ok h off (as @ bs) = (if filter (nonempty h) as = [] then off_ok h off bs else off_ok h off as)"
  by (cases "filter (nonempty h) as") (simp_all add: off_ok_def)

lemma vecs_of_append: "vecs_of h off (as @ bs) = vecs_of h off as @ vecs_of h (if as = [] then off else 0) bs"
  by (induction as arbitrary: off) auto

lemma length_vecs_of [simp]: "length (vecs_of h off as) = length as"
  by (induction as arbitrary: off) auto

lemma iovecs_links_loop_ok:
  assumes "links_rep h ps ass" and "off_ok h off (concat ass)" and "length vecs < lim"
  shows "iovecs_links_loop h ps off lim vecs =
    Some (vecs @ vecs_of h off (take (lim - length vecs) (filter (nonempty h) (concat ass))))"
  using assms
proof (induction ps arbitrary: ass off vecs)
  case Nil
  then show ?case by simp
next
  case (Cons p ps)
  obtain as r where ass: "ass = as # r" "p = first_or as None" "chain h as" "links_rep h ps r"
    using Cons.prems(1) by (auto simp: links_rep_Cons1)
  let ?f = "filter (nonempty h)" and ?k = "lim - length vecs"
  have "off_ok h off as" using Cons.prems(2) ass(1) by (cases "filter (nonempty h) as") (auto simp: off_ok_def)
  from iovecs_for_write_loop_ok[OF ass(3) this, of vecs lim] Cons.prems(3) obtain off' where
    R: "iovecs_for_write_loop h p off lim vecs = Some (off', vecs @ vecs_of h off (take ?k (?f as)))"
    "?f as \<noteq> [] \<longrightarrow> off' = 0" "?f as = [] \<longrightarrow> off' = off" using ass(2) by auto
  let ?v = "vecs @ vecs_of h off (take ?k (?f as))"
  show ?case
  proof (cases "?k \<le> length (?f as)")
    case True
    then have "length ?v = lim" using Cons.prems(3) by simp
    then show ?thesis using R(1) True ass(1) by simp
  next
    case False
    then have lt: "length ?v < lim" by simp
    have "off_ok h off' (concat r)" using Cons.prems(2) R(2,3) ass(1) by (cases "?f as = []") (simp_all add: off_ok_append)
    from Cons.IH[OF ass(4) this lt] have
      "iovecs_links_loop h (p # ps) off lim vecs = Some (?v @ vecs_of h off' (take (lim - length ?v) (?f (concat r))))"
      using R(1) lt by simp
    moreover have "lim - length ?v = ?k - length (?f as)" using False by simp
    moreover have "take ?k (?f as) = ?f as" using False by simp
    moreover have "(if ?f as = [] then off else 0) = off'" using R(2,3) by simp
    ultimately show ?thesis using False ass(1) by (simp add: vecs_of_append)
  qed
qed

section \<open>Correctness\<close>

text \<open>
  C28. Sending from a list of links, with the data before an offset already sent: appending keeps the order,
  \<^verbatim>\<open>BuffersCopy\<close> makes new buffers with exactly the bytes of all the links, the vectors hold the bytes after
  the offset as far as there is room, and \<^verbatim>\<open>SkipData\<close> of what the system took leaves exactly the rest,
  with an offset inside the first buffer; no operation changes a buffer that exists.
\<close>
theorem links_send_correct:
  assumes "links_rep h ps ass" and "h_size h > 0" and "off_ok h off (concat ass)" and "0 < lim"
    and "off + n \<le> length (lcontent h ass)"
  shows "(\<exists>as h'. buffers_copy_links ps h = Some (first_or as None, h') \<and> fresh_chain h h' as (lcontent h ass)) \<and>
    (\<exists>h' ps' ass'. links_append_copy data h ps = Some (h', ps') \<and> links_rep h' ps' ass' \<and>
       lcontent h' ass' = lcontent h ass @ data \<and> h_frame h {} h') \<and>
    (\<exists>vs. iovecs_links h ps off lim = Some vs \<and> length vs \<le> lim \<and>
       concat (map (iov_bytes h) vs) = drop off (content h (take lim (filter (nonempty h) (concat ass))))) \<and>
    (\<exists>off' ps' ass'. links_skip h off n ps = Some (off', ps') \<and> links_rep h ps' ass' \<and>
       drop off' (lcontent h ass') = drop n (drop off (lcontent h ass)) \<and> starts_inside h off' ass')"
proof (intro conjI)
  show "\<exists>as h'. buffers_copy_links ps h = Some (first_or as None, h') \<and> fresh_chain h h' as (lcontent h ass)"
    by (rule buffers_copy_links_ok[OF assms(1,2)])
  show "\<exists>h' ps' ass'. links_append_copy data h ps = Some (h', ps') \<and> links_rep h' ps' ass' \<and>
       lcontent h' ass' = lcontent h ass @ data \<and> h_frame h {} h'"
  proof -
    from buffers_copy_ok[OF assms(2), of data] obtain as h' where
      B: "buffers_copy data h = Some (first_or as None, h')" "fresh_chain h h' as data" by blast
    have F: "chain h' as" "content h' as = data" "h_frame h {} h'" using B(2) by (simp_all add: fresh_chain_def)
    note L = links_rep_frame[OF assms(1) F(3)]
    show ?thesis
    proof (cases "as = []")
      case True
      then show ?thesis using B(1) L F by (auto simp: links_append_copy_def links_append_ref_def)
    next
      case False
      have "links_rep h' (ps @ [first_or as None]) (ass @ [as])" using links_rep_append[of h' ps ass "[first_or as None]" "[as]"] L F(1) by simp
      then show ?thesis using B(1) L F False by (auto simp: links_append_copy_def links_append_ref_def)
    qed
  qed
  show "\<exists>vs. iovecs_links h ps off lim = Some vs \<and> length vs \<le> lim \<and>
       concat (map (iov_bytes h) vs) = drop off (content h (take lim (filter (nonempty h) (concat ass))))"
  proof -
    let ?ne = "take lim (filter (nonempty h) (concat ass))"
    have "iovecs_links h ps off lim = Some (vecs_of h off ?ne)"
      using iovecs_links_loop_ok[OF assms(1,3), of "[]" lim] assms(4) by (simp add: iovecs_links_def)
    moreover have "\<forall>a \<in> set (concat ass). buf_ok (h_mem h a)"
      using assms(1) by (induction ps ass rule: list_induct2') (auto simp: chain_def)
    then have "\<forall>a \<in> set ?ne. buf_ok (h_mem h a)" by (auto dest: in_set_takeD simp del: set_concat)
    moreover have "off \<le> b_pos (h_mem h (hd ?ne))" if "?ne \<noteq> []"
      using assms(3) that by (cases lim) (auto simp: off_ok_def split: list.splits)
    ultimately show ?thesis using vecs_of_bytes[of ?ne h off] by (cases "?ne = []") auto
  qed
  show "\<exists>off' ps' ass'. links_skip h off n ps = Some (off', ps') \<and> links_rep h ps' ass' \<and>
       drop off' (lcontent h ass') = drop n (drop off (lcontent h ass)) \<and> starts_inside h off' ass'"
    using links_skip_loop_ok[OF assms(1), of "n + off"] assms(5) by (simp add: links_skip_def add.commute)
qed

lemma links_send_correct_witness:
  "\<exists>h p as off' ps' ass'. buffers_copy [1, 2, 3, 4, 5, 6] heap0 = Some (p, h) \<and> links_rep h [p] [as] \<and>
     links_skip h 0 5 [p] = Some (off', ps') \<and> links_rep h ps' ass' \<and> drop off' (lcontent h ass') = [6]"
proof -
  obtain as h where R: "buffers_copy [1, 2, 3, 4, 5, 6] heap0 = Some (first_or as None, h)" "chain h as"
      "content h as = [1, 2, 3, 4, 5, 6]" "h_size h > 0"
    using buffers_copy_ok[of heap0 "[1, 2, 3, 4, 5, 6]"] by (auto simp: fresh_chain_def heap0_def h_frame_def)
  have rep: "links_rep h [first_or as None] [as]" using R(2) by simp
  have o: "off_ok h 0 (concat [as])" by simp
  have "(0::nat) < 1" "0 + 5 \<le> length (lcontent h [as])" using R(3) by simp_all
  from links_send_correct[OF rep R(4) o this] obtain off' ps' ass' where
    "links_skip h 0 5 [first_or as None] = Some (off', ps')" "links_rep h ps' ass'" "drop off' (lcontent h ass') = drop 5 (drop 0 (lcontent h [as]))"
    by blast
  then show ?thesis using R rep by auto
qed

text \<open>
  \<^verbatim>\<open>SkipEmptyPrefix\<close> of a list whose first buffer is empty moves the pointer to the next buffer out of
  it: the list keeps its data, but another reference to the same buffer, as another list of links has
  when the buffers are shared, has lost everything after it, so that nothing of it is sent.
\<close>
theorem prefix_truncates_shared:
  assumes "chain h (a # b # bs)" and "b_pos (h_mem h a) = 0" and "0 < b_pos (h_mem h b)" and "0 < lim"
  shows "(\<exists>vs. iovecs_for_write h (Some a) 0 lim = Some vs \<and> vs \<noteq> []) \<and>
    (\<exists>h'. links_skip_prefix 0 [Some a] h = Some (0, [Some b], h') \<and> chain h' (b # bs) \<and> content h' (b # bs) = content h (a # b # bs) \<and>
       iovecs_for_write h' (Some a) 0 lim = Some [])"
proof -
  note k = chain_ConsD[OF assms(1)]
  let ?h = "set_next a None h"
  have same: "h_mem ?h x = h_mem h x" if "x \<in> set (b # bs)" for x using that k by (auto simp: h_set_mem)
  have "prefix_bufs (Some a) 0 h = prefix_bufs (Some b) 0 ?h"
    using k assms(2) by (subst prefix_bufs.simps) (simp add: take_next_def)
  also have "\<dots> = Some (Some b, 0, ?h)" using assms(3) same[of b] by (subst prefix_bufs.simps) simp
  finally have "links_skip_prefix 0 [Some a] h = Some (0, [Some b], ?h)"
    using assms(2) by (simp add: links_skip_prefix_def)
  moreover have "chain ?h (b # bs)" using chain_cong[of h "b # bs" ?h] same k by simp
  moreover have "content ?h (b # bs) = content h (b # bs)" by (rule content_cong[OF same])
  moreover have "iovecs_for_write ?h (Some a) 0 lim = Some []"
  proof -
    have "chain ?h [a]" using k by (auto simp: chain_def nexts_of_def h_set_mem buf_ok_def)
    from iovecs_for_write_loop_ok[OF this, of 0 "[]" lim] show ?thesis
      using assms(2) by (auto simp: iovecs_for_write_def nonempty_def h_set_mem)
  qed
  moreover have "\<exists>vs. iovecs_for_write h (Some a) 0 lim = Some vs \<and> vs \<noteq> []"
    using iovecs_for_write_loop_ok[OF assms(1), of 0 "[]" lim] assms(2-4)
    by (cases lim) (auto simp: iovecs_for_write_def nonempty_def)
  ultimately show ?thesis using assms(2) by (auto simp: readable_def)
qed

lemma prefix_truncates_shared_witness:
  "\<exists>h h' p. buffers_copy [1, 2, 3] heap0 = Some (p, h) \<and> p \<noteq> None \<and>
     (let (e, h1) = buffer_copy_new h; h2 = set_next e p h1 in
        links_skip_prefix 0 [Some e] h2 = Some (0, [p], h') \<and> iovecs_for_write h' (Some e) 0 10 = Some [])"
proof -
  obtain as h where R: "buffers_copy [1, 2, 3] heap0 = Some (first_or as None, h)" "chain h as"
      "content h as = [1, 2, 3]" "\<forall>a \<in> set as. 0 < b_pos (h_mem h a)"
    using buffers_copy_ok[of heap0 "[1, 2, 3]"] by (auto simp: fresh_chain_def heap0_def)
  obtain b bs where as: "as = b # bs" using R(3) by (cases as) auto
  obtain e h1 where n: "buffer_copy_new h = (e, h1)" by (cases "buffer_copy_new h")
  note N = buffer_copy_new_ok[OF n]
  have c1: "chain h1 as" using chain_frame[OF R(2) N(4)[of "{}"]] by simp
  have lt: "x < e" if "x \<in> set as" for x using R(2) that N(1) by (auto simp: chain_def)
  then have "set ([] @ [e]) \<inter> set as = {}" by auto
  from chain_join(1)[of h1 "[]" e as] N(2) c1 this have ch: "chain (set_next e (first_or as None) h1) (e # b # bs)" by (simp add: as)
  have z: "b_pos (h_mem (set_next e (first_or as None) h1) e) = 0" using N(8) by (simp add: h_set_mem)
  have p: "0 < b_pos (h_mem (set_next e (first_or as None) h1) b)"
    using R(4) as lt[of b] h_frameD[OF N(4)[of "{}"], of b] N(1) by (simp add: h_set_mem)
  from prefix_truncates_shared[OF ch z p, of 10] obtain h' where
    "links_skip_prefix 0 [Some e] (set_next e (first_or as None) h1) = Some (0, [Some b], h')"
    "iovecs_for_write h' (Some e) 0 10 = Some []" by auto
  then show ?thesis using R(1) n as by (intro exI[where x = h] exI[where x = h'] exI[where x = "Some b"]) simp
qed

end
