(* ===== verification/Strings_Url.thy ===== *)
theory Strings_Url
  imports Serverbox_Prelude
begin

text \<open>
  \<^verbatim>\<open>box/StringFunctions.cpp\<close> and \<^verbatim>\<open>net/URL.cpp\<close>. A C string is the list of its characters without the
  terminating zero. The functions of the C library that the code uses are in the \<open>C\<close> locale.
\<close>

section \<open>Characters and decimal numbers\<close>

definition is_space :: "char \<Rightarrow> bool" where
  "is_space c = (c \<in> {CHR '' '', CHR 0x09, CHR 0x0A, CHR 0x0B, CHR 0x0C, CHR 0x0D})"

definition is_digit :: "char \<Rightarrow> bool" where
  "is_digit c = (48 \<le> (of_char c :: nat) \<and> (of_char c :: nat) \<le> 57)"

definition digit_char :: "nat \<Rightarrow> char" where
  "digit_char d = char_of (48 + d)"

definition digits_value :: "string \<Rightarrow> nat" where
  "digits_value s = foldl (\<lambda>v c. v * 10 + (of_char c - 48)) 0 s"

text \<open>What the conversion \<open>%u\<close> prints.\<close>

fun dec :: "nat \<Rightarrow> string" where
  "dec n = (if n < 10 then [digit_char n] else dec (n div 10) @ [digit_char (n mod 10)])"

declare dec.simps [simp del]

lemma digit_char_ok: "d < 10 \<Longrightarrow> is_digit (digit_char d) \<and> (of_char (digit_char d) :: nat) = 48 + d"
  by (simp add: is_digit_def digit_char_def)

lemma digit_not_space: "is_digit c \<Longrightarrow> \<not> is_space c \<and> c \<noteq> CHR ''-'' \<and> c \<noteq> CHR ''+''"
  by (auto simp: is_digit_def is_space_def)

lemma dec_digits: "\<forall>c \<in> set (dec n). is_digit c" "dec n \<noteq> []"
proof (induction n rule: dec.induct)
  case (1 n)
  { case 1 then show ?case using "1.IH" by (subst dec.simps) (auto simp: digit_char_ok) }
  { case 2 then show ?case by (subst dec.simps) simp }
qed

lemma dec_value: "digits_value (dec n) = n"
proof (induction n rule: dec.induct)
  case (1 n)
  show ?case
  proof (cases "n < 10")
    case True
    then show ?thesis by (subst dec.simps) (simp add: digits_value_def digit_char_ok)
  next
    case False
    then have "digits_value (dec (n div 10) @ [digit_char (n mod 10)]) = n"
      using 1 by (simp add: digits_value_def digit_char_ok)
    then show ?thesis using False by (subst dec.simps) simp
  qed
qed

section \<open>Trimming\<close>

fun trim_length :: "string \<Rightarrow> nat \<Rightarrow> nat" where
  "trim_length s 0 = 0"
| "trim_length s (Suc n) = (if \<not> is_space (s ! n) then Suc n else trim_length s n)"

function cut_length :: "string \<Rightarrow> nat \<Rightarrow> nat \<Rightarrow> nat" where
  "cut_length s len n = (if n < len \<and> is_space (s ! n) then cut_length s len (Suc n) else n)"
  by auto
termination by (relation "measure (\<lambda>(s, len, n). len - n)") auto

declare cut_length.simps [simp del]

text \<open>
  The second loop of the code also looks at the character at the length, which is the terminating zero
  and no space.
\<close>

definition string_trim :: "string \<Rightarrow> string" where
  "string_trim s =
     (let len = trim_length s (length s) in
      if len = 0 then [] else (let s1 = take len s in drop (cut_length s1 len 0) s1))"

lemma trim_length_ok: "n \<le> length s \<Longrightarrow> take (trim_length s n) s = rev (dropWhile is_space (rev (take n s))) \<and> trim_length s n \<le> n"
proof (induction n)
  case (Suc n)
  then have "take (Suc n) s = take n s @ [s ! n]" by (simp add: take_Suc_conv_app_nth)
  then show ?case using Suc by auto
qed simp

lemma cut_length_ok: "n \<le> length s \<Longrightarrow> drop (cut_length s (length s) n) s = dropWhile is_space (drop n s)"
proof (induction s "length s" n rule: cut_length.induct)
  case (1 s n)
  show ?case
  proof (cases "n < length s")
    case True
    then have "drop n s = s ! n # drop (Suc n) s" by (rule Cons_nth_drop_Suc[symmetric])
    then show ?thesis using 1 True by (subst cut_length.simps) auto
  next
    case False
    then show ?thesis by (subst cut_length.simps) simp
  qed
qed

lemma string_trim_ok: "string_trim s = dropWhile is_space (rev (dropWhile is_space (rev s)))"
proof (cases "trim_length s (length s) = 0")
  case True
  have "take (trim_length s (length s)) s = rev (dropWhile is_space (rev s))" using trim_length_ok[of "length s" s] by simp
  then have "dropWhile is_space (rev s) = []" using True by (simp del: dropWhile_eq_Nil_conv)
  then show ?thesis using True by (simp add: string_trim_def del: dropWhile_eq_Nil_conv)
next
  case False
  let ?t = "take (trim_length s (length s)) s"
  have l: "length ?t = trim_length s (length s)"
    using conjunct2[OF trim_length_ok[of "length s" s]] by (simp only: length_take min_absorb2 order_refl)
  have "string_trim s = drop (cut_length ?t (trim_length s (length s)) 0) ?t" using False by (simp add: string_trim_def Let_def)
  also have "\<dots> = dropWhile is_space ?t" using cut_length_ok[of 0 ?t] unfolding l by simp
  also have "?t = rev (dropWhile is_space (rev s))" using trim_length_ok[of "length s" s] by simp
  finally show ?thesis .
qed

section \<open>Numbers\<close>

text \<open>
  \<^verbatim>\<open>strtoull\<close> with base 10 on a string that starts with no space and no minus: an optional plus and
  digits. It returns the value, what is left of the string, and whether it fits; with no digit nothing is
  converted and the string is left as it is.
\<close>

definition strtoull :: "string \<Rightarrow> nat \<times> string \<times> bool" where
  "strtoull s =
     (let s1 = (if s \<noteq> [] \<and> hd s = CHR ''+'' then tl s else s);
          ds = takeWhile is_digit s1
      in if ds = [] then (0, s, True)
         else if digits_value ds < 2 ^ 64 then (digits_value ds, dropWhile is_digit s1, True)
         else (2 ^ 64 - 1, dropWhile is_digit s1, False))"

definition string_to_u64 :: "string \<Rightarrow> nat option" where
  "string_to_u64 s0 =
     (let s = dropWhile is_space s0 in
      if s \<noteq> [] \<and> hd s = CHR ''-'' then None
      else let (v, rest, fits) = strtoull s in
        if fits \<and> s \<noteq> [] \<and> rest = [] then Some v else None)"

definition string_to_number :: "nat \<Rightarrow> string \<Rightarrow> nat option" where
  "string_to_number lim s = (case string_to_u64 s of None \<Rightarrow> None | Some res \<Rightarrow> if res \<le> lim then Some res else None)"

text \<open>The strings that are read: spaces, an optional plus, digits.\<close>

definition number_string :: "string \<Rightarrow> nat \<Rightarrow> bool" where
  "number_string s n = (\<exists>sp plus ds. s = sp @ plus @ ds \<and> (\<forall>c \<in> set sp. is_space c) \<and> (plus = [] \<or> plus = [CHR ''+'']) \<and>
     ds \<noteq> [] \<and> (\<forall>c \<in> set ds. is_digit c) \<and> digits_value ds = n)"

lemma takeWhile_all: "\<forall>c \<in> set ds. P c \<Longrightarrow> takeWhile P ds = ds \<and> dropWhile P ds = []"
  by (induction ds) auto

lemma dropWhile_append_all: "\<forall>c \<in> set sp. P c \<Longrightarrow> dropWhile P (sp @ s) = dropWhile P s"
  by (induction sp) auto

lemma string_to_u64_complete:
  assumes "number_string s n" and "n < 2 ^ 64"
  shows "string_to_u64 s = Some n"
proof -
  obtain sp plus ds where s: "s = sp @ plus @ ds" "\<forall>c \<in> set sp. is_space c" "plus = [] \<or> plus = [CHR ''+'']"
    "ds \<noteq> []" "\<forall>c \<in> set ds. is_digit c" "digits_value ds = n" using assms(1) by (auto simp: number_string_def)
  obtain d ds' where ds: "ds = d # ds'" using s(4) by (cases ds) auto
  have d: "\<not> is_space d" "d \<noteq> CHR ''-''" "d \<noteq> CHR ''+''" using digit_not_space[of d] s(5) ds by auto
  have "dropWhile is_space s = plus @ ds"
  proof -
    have "dropWhile is_space (plus @ ds) = plus @ ds" using s(3) d ds by (auto simp: is_space_def)
    then show ?thesis unfolding s(1) by (simp only: dropWhile_append_all[OF s(2)])
  qed
  moreover have "strtoull (plus @ ds) = (n, [], True)"
  proof -
    have "(if plus @ ds \<noteq> [] \<and> hd (plus @ ds) = CHR ''+'' then tl (plus @ ds) else plus @ ds) = ds"
      using s(3) d(3) ds by auto
    then show ?thesis using s(4,6) assms(2) takeWhile_all[OF s(5)] by (simp only: strtoull_def Let_def) simp
  qed
  moreover have "\<not> (plus @ ds \<noteq> [] \<and> hd (plus @ ds) = CHR ''-'')" "plus @ ds \<noteq> []" using s(3) d(2) ds by auto
  ultimately show ?thesis by (simp only: string_to_u64_def Let_def prod.case) simp
qed

lemma string_to_u64_sound:
  assumes "string_to_u64 s = Some n"
  shows "number_string s n \<and> n < 2 ^ 64"
proof -
  define t where "t = dropWhile is_space s"
  define u where "u = (if t \<noteq> [] \<and> hd t = CHR ''+'' then tl t else t)"
  define ds where "ds = takeWhile is_digit u"
  have st: "s = takeWhile is_space s @ t" by (simp add: t_def)
  have E: "string_to_u64 s = (if t \<noteq> [] \<and> hd t = CHR ''-'' then None
      else let (v, rest, fits) = strtoull t in if fits \<and> t \<noteq> [] \<and> rest = [] then Some v else None)"
    by (simp add: string_to_u64_def t_def Let_def)
  have S: "strtoull t = (if ds = [] then (0, t, True)
         else if digits_value ds < 2 ^ 64 then (digits_value ds, dropWhile is_digit u, True)
         else (2 ^ 64 - 1, dropWhile is_digit u, False))"
    unfolding strtoull_def Let_def u_def[symmetric] ds_def[symmetric] ..
  have tne: "t \<noteq> []" using assms E by (auto simp: S Let_def split: if_splits)
  have "ds \<noteq> []" using assms E by (auto simp: S Let_def split: if_splits)
  then have r: "dropWhile is_digit u = []" "digits_value ds = n" "n < 2 ^ 64"
    using assms E by (auto simp: S Let_def split: if_splits simp del: dropWhile_eq_Nil_conv)
  have "u = ds" using takeWhile_dropWhile_id[of is_digit u] r(1) unfolding ds_def by (metis append_Nil2)
  define plus where "plus = (if t \<noteq> [] \<and> hd t = CHR ''+'' then [CHR ''+''] else [])"
  have "t = plus @ u" using tne by (cases t) (auto simp: plus_def u_def)
  moreover have "\<forall>c \<in> set ds. is_digit c" by (auto simp: ds_def dest: set_takeWhileD)
  moreover have "\<forall>c \<in> set (takeWhile is_space s). is_space c" by (auto dest: set_takeWhileD)
  ultimately show ?thesis
    using st \<open>u = ds\<close> \<open>ds \<noteq> []\<close> r unfolding number_string_def
    by (intro conjI exI[where x = "takeWhile is_space s"] exI[where x = plus] exI[where x = ds]) (auto simp: plus_def)
qed

lemma dec_number_string: "number_string (dec n) n"
  unfolding number_string_def using dec_digits[of n] dec_value[of n]
  by (intro exI[where x = "[]"] exI[where x = "dec n"]) simp

section \<open>URLs\<close>

fun starts_with :: "string \<Rightarrow> string \<Rightarrow> bool" where
  "starts_with [] s = True"
| "starts_with (c # cs) s = (case s of [] \<Rightarrow> False | d # ds \<Rightarrow> c = d \<and> starts_with cs ds)"

text \<open>\<^verbatim>\<open>std::string::find\<close>: the first position of a string in another.\<close>

fun string_find :: "string \<Rightarrow> string \<Rightarrow> nat option" where
  "string_find p [] = (if p = [] then Some 0 else None)"
| "string_find p (c # s) = (if starts_with p (c # s) then Some 0 else map_option Suc (string_find p s))"

record url =
  u_host :: string
  u_protocol :: string
  u_port :: nat
  u_target :: string

definition url_parse :: "string \<Rightarrow> url" where
  "url_parse s =
     (let (protocol, s1) = (case string_find ''://'' s of None \<Rightarrow> ([], s) | Some pos \<Rightarrow> (take pos s, drop (pos + 3) s));
          (target, s2) = (case string_find ''/'' s1 of None \<Rightarrow> ([], s1) | Some pos \<Rightarrow> (drop pos s1, take pos s1));
          (port, s3) = (case string_find '':'' s2 of None \<Rightarrow> (0, s2)
                        | Some pos \<Rightarrow> (case string_to_number (2 ^ 16 - 1) (drop (pos + 1) s2) of None \<Rightarrow> 0 | Some n \<Rightarrow> n, take pos s2))
      in \<lparr>u_host = s3, u_protocol = protocol, u_port = port, u_target = target\<rparr>)"

lemma starts_with_iff: "starts_with p s \<longleftrightarrow> take (length p) s = p"
  by (induction p s rule: starts_with.induct) (auto split: list.splits)

lemma string_find_None: "string_find p s = None \<longleftrightarrow> (\<forall>a b. s \<noteq> a @ p @ b)"
proof (induction p s rule: string_find.induct)
  case (1 p)
  then show ?case by auto
next
  case (2 p c s)
  show ?case
  proof (cases "starts_with p (c # s)")
    case True
    then have "c # s = [] @ p @ drop (length p) (c # s)"
      using append_take_drop_id[of "length p" "c # s"] by (simp add: starts_with_iff)
    then show ?thesis using True by (metis option.distinct(1) string_find.simps(2))
  next
    case False
    have "(\<exists>a b. c # s = a @ p @ b) \<longleftrightarrow> (\<exists>a b. s = a @ p @ b)"
    proof
      assume "\<exists>a b. c # s = a @ p @ b"
      then obtain a b where e: "c # s = a @ p @ b" by blast
      then have "a \<noteq> []" using False by (auto simp: starts_with_iff)
      then show "\<exists>a b. s = a @ p @ b" using e by (cases a) auto
    next
      assume "\<exists>a b. s = a @ p @ b"
      then show "\<exists>a b. c # s = a @ p @ b" by (metis append_Cons)
    qed
    then show ?thesis using False 2 by simp blast
  qed
qed

lemma string_find_char: "c \<notin> set a \<Longrightarrow> string_find [c] (a @ c # b) = Some (length a)"
  by (induction a) auto

lemma string_find_char_None: "c \<notin> set a \<Longrightarrow> string_find [c] a = None"
  by (induction a) auto

lemma string_find_sep: "CHR '':'' \<notin> set a \<Longrightarrow> string_find ''://'' (a @ ''://'' @ b) = Some (length a)"
  by (induction a) auto


lemma string_find_skip: "CHR '':'' \<notin> set a \<Longrightarrow> string_find ''://'' (a @ b) = map_option ((+) (length a)) (string_find ''://'' b)"
  by (induction a) (cases "string_find ''://'' b"; simp)+

definition url_string :: "string option \<Rightarrow> string \<Rightarrow> nat option \<Rightarrow> string \<Rightarrow> string" where
  "url_string protocol host port target =
     (case protocol of None \<Rightarrow> [] | Some p \<Rightarrow> p @ ''://'') @ host @ (case port of None \<Rightarrow> [] | Some n \<Rightarrow> '':'' @ dec n) @ target"

lemma dec_no_sep: "CHR ''/'' \<notin> set (dec n)" "CHR '':'' \<notin> set (dec n)"
  using dec_digits(1)[of n] by (auto simp: is_digit_def)

lemma string_to_number_iff: "lim < 2 ^ 64 \<Longrightarrow> string_to_number lim s = Some n \<longleftrightarrow> number_string s n \<and> n \<le> lim"
  using string_to_u64_complete[of s n] string_to_u64_sound[of s]
  by (auto simp: string_to_number_def split: option.splits if_splits)

lemma url_no_protocol:
  assumes "CHR '':'' \<notin> set host" and "target = [] \<or> hd target = CHR ''/''" and "string_find ''://'' target = None"
  shows "string_find ''://'' (url_string None host port target) = None"
proof (cases port)
  case None
  then show ?thesis using assms string_find_skip[of host target] by (simp add: url_string_def)
next
  case (Some n)
  obtain d ds where d: "dec n = d # ds" using dec_digits(2)[of n] by (cases "dec n") auto
  have "string_find ''://'' (dec n @ target) = None"
    using string_find_skip[of "dec n" target] dec_no_sep assms(3) by simp
  moreover have "d \<noteq> CHR ''/''" using dec_no_sep(1)[of n] d by auto
  ultimately show ?thesis
    using assms Some string_find_skip[of host "'':'' @ dec n @ target"] d by (simp add: url_string_def)
qed

lemma url_rest:
  assumes "CHR '':'' \<notin> set host" "CHR ''/'' \<notin> set host" and "target = [] \<or> hd target = CHR ''/''" and "\<forall>n. port = Some n \<longrightarrow> n < 2 ^ 16"
  shows "(case string_find ''/'' (url_string None host port target) of None \<Rightarrow> ([], url_string None host port target)
      | Some pos \<Rightarrow> (drop pos (url_string None host port target), take pos (url_string None host port target))) =
      (target, url_string None host port [])"
    and "(case string_find '':'' (url_string None host port []) of None \<Rightarrow> (0, url_string None host port [])
      | Some pos \<Rightarrow> (case string_to_number (2 ^ 16 - 1) (drop (pos + 1) (url_string None host port [])) of None \<Rightarrow> 0 | Some n \<Rightarrow> n,
          take pos (url_string None host port []))) = (case port of None \<Rightarrow> 0 | Some n \<Rightarrow> n, host)"
proof -
  let ?a = "url_string None host port []"
  have u: "url_string None host port target = ?a @ target" by (simp add: url_string_def)
  have no: "CHR ''/'' \<notin> set ?a" using assms(2) dec_no_sep by (auto simp: url_string_def split: option.splits)
  show "(case string_find ''/'' (url_string None host port target) of None \<Rightarrow> ([], url_string None host port target)
      | Some pos \<Rightarrow> (drop pos (url_string None host port target), take pos (url_string None host port target))) = (target, ?a)"
  proof (cases target)
    case Nil
    then show ?thesis unfolding u using string_find_char_None[OF no] by simp
  next
    case (Cons c t)
    then have "c = CHR ''/''" using assms(3) by simp
    then show ?thesis using u string_find_char[OF no, of t] Cons by simp
  qed
  show "(case string_find '':'' ?a of None \<Rightarrow> (0, ?a)
      | Some pos \<Rightarrow> (case string_to_number (2 ^ 16 - 1) (drop (pos + 1) ?a) of None \<Rightarrow> 0 | Some n \<Rightarrow> n, take pos ?a)) =
      (case port of None \<Rightarrow> 0 | Some n \<Rightarrow> n, host)"
  proof (cases port)
    case None
    then show ?thesis using string_find_char_None[OF assms(1)] by (simp add: url_string_def)
  next
    case (Some n)
    then have "?a = host @ CHR '':'' # dec n" by (simp add: url_string_def)
    moreover have "string_to_number (2 ^ 16 - 1) (dec n) = Some n"
      using string_to_number_iff[of "2 ^ 16 - 1" "dec n" n] dec_number_string[of n] assms(4) Some by auto
    ultimately show ?thesis using string_find_char[OF assms(1), of "dec n"] Some by simp
  qed
qed

section \<open>Correctness\<close>



text \<open>
  C37. \<^verbatim>\<open>URLParse\<close> gives back the parts of a URL: protocol, host, port and target, each of the optional ones
  present or not, for a host without colon and slash. Without a protocol the target must not contain
  \<^verbatim>\<open>://\<close>, because the search for it does not stop at the target.
\<close>
theorem url_parse_correct:
  assumes "CHR '':'' \<notin> set host" and "CHR ''/'' \<notin> set host" and "target = [] \<or> hd target = CHR ''/''"
    and "\<forall>n. port = Some n \<longrightarrow> n < 2 ^ 16"
    and "case protocol of None \<Rightarrow> string_find ''://'' target = None | Some p \<Rightarrow> CHR '':'' \<notin> set p"
  shows "url_parse (url_string protocol host port target) =
    \<lparr>u_host = host, u_protocol = (case protocol of None \<Rightarrow> [] | Some p \<Rightarrow> p), u_port = (case port of None \<Rightarrow> 0 | Some n \<Rightarrow> n), u_target = target\<rparr>"
proof -
  note R = url_rest[OF assms(1-4)]
  have "(case string_find ''://'' (url_string protocol host port target) of None \<Rightarrow> ([], url_string protocol host port target)
      | Some pos \<Rightarrow> (take pos (url_string protocol host port target), drop (pos + 3) (url_string protocol host port target))) =
      (case protocol of None \<Rightarrow> [] | Some p \<Rightarrow> p, url_string None host port target)"
  proof (cases protocol)
    case None
    then show ?thesis using url_no_protocol[OF assms(1,3)] assms(5) by simp
  next
    case (Some p)
    then have "url_string protocol host port target = p @ ''://'' @ url_string None host port target" by (simp add: url_string_def)
    then show ?thesis using string_find_sep[of p "url_string None host port target"] assms(5) Some by simp
  qed
  then show ?thesis unfolding url_parse_def Let_def by (simp only: prod.case R)
qed

lemma url_parse_correct_witness:
  "url_parse (url_string (Some ''http'') ''example.org'' (Some 8080) ''/a?u=http://b'') =
    \<lparr>u_host = ''example.org'', u_protocol = ''http'', u_port = 8080, u_target = ''/a?u=http://b''\<rparr>"
  using url_parse_correct[of "''example.org''" "''/a?u=http://b''" "Some 8080" "Some ''http''"] by simp

text \<open>Without a protocol, a target that holds a URL makes everything before it the protocol.\<close>

lemma url_parse_inner_protocol:
  "url_parse ''a/b?u=http://c/d'' = \<lparr>u_host = ''c'', u_protocol = ''a/b?u=http'', u_port = 0, u_target = ''/d''\<rparr>"
  by (simp add: url_parse_def)

text \<open>The brackets of an IPv6 host are not looked at, so it is cut at its first colon.\<close>

lemma url_parse_ipv6:
  "url_parse ''http://[::1]:80/x'' = \<lparr>u_host = ''['', u_protocol = ''http'', u_port = 0, u_target = ''/x''\<rparr>"
  by (simp add: url_parse_def string_to_number_def string_to_u64_def strtoull_def is_space_def is_digit_def)

end
