(* ===== verification/Errors.thy ===== *)
theory Errors
  imports Strings_Url
begin

text \<open>
  \<^verbatim>\<open>box/Error.h\<close> and \<^verbatim>\<open>box/Error.cpp\<close> without the functions for Windows: the error codes, their
  texts and groups, the translation of \<^verbatim>\<open>errno\<close> values, and the errors that are raised. The numeric values
  of the \<^verbatim>\<open>errno\<close> names and the texts of \<^verbatim>\<open>strerror\<close> belong to the platform and are parameters.
\<close>

section \<open>Codes\<close>

datatype error_code =
    ERR_BOX_NONE
  | ERR_BOX_UNKNOWN
  | ERR_BOX_CANCEL
  | ERR_BOX_TIMEOUT
  | ERR_SYS
  | ERR_SYS_FORBIDDEN
  | ERR_SYS_BAD_DESCRIPTOR
  | ERR_SYS_EXISTS
  | ERR_SYS_TOO_MANY_DESCRIPTORS
  | ERR_SYS_NOT_FOUND
  | ERR_SYS_WOULDBLOCK
  | ERR_SYS_BUSY
  | ERR_SYS_IS_DIR
  | ERR_SYS_BAD_ARG
  | ERR_SYS_IO
  | ERR_SYS_NAME_TOO_LONG
  | ERR_SYS_NOT_DIR
  | ERR_SYS_READ_ONLY_FS
  | ERR_SYS_NO_SPACE
  | ERR_SYS_BAD_ADDR
  | ERR_SYS_NOT_SUPPORTED
  | ERR_SYS_TOO_BIG
  | ERR_SYS_TOO_MANY_LINKS
  | ERR_SYS_NOT_EMPTY
  | ERR_SYS_OVERFLOW
  | ERR_SYS_LOOP
  | ERR_SYS_INTERRUPTED
  | ERR_NET
  | ERR_NET_CLOSE_BY_PEER
  | ERR_NET_ADDR_IN_USE
  | ERR_NET_ABORTED
  | ERR_NET_ADDR_NOT_AVAIL
  | ERR_NET_DOWN
  | ERR_NET_PROTOCOL
  | ERR_NET_HOST_UNREACHABLE
  | ERR_SSL

fun err_num :: "error_code \<Rightarrow> nat" where
  "err_num ERR_BOX_NONE = 0"
| "err_num ERR_BOX_UNKNOWN = 1"
| "err_num ERR_BOX_CANCEL = 2"
| "err_num ERR_BOX_TIMEOUT = 3"
| "err_num ERR_SYS = 1000"
| "err_num ERR_SYS_FORBIDDEN = 1001"
| "err_num ERR_SYS_BAD_DESCRIPTOR = 1002"
| "err_num ERR_SYS_EXISTS = 1003"
| "err_num ERR_SYS_TOO_MANY_DESCRIPTORS = 1004"
| "err_num ERR_SYS_NOT_FOUND = 1005"
| "err_num ERR_SYS_WOULDBLOCK = 1006"
| "err_num ERR_SYS_BUSY = 1007"
| "err_num ERR_SYS_IS_DIR = 1008"
| "err_num ERR_SYS_BAD_ARG = 1009"
| "err_num ERR_SYS_IO = 1010"
| "err_num ERR_SYS_NAME_TOO_LONG = 1011"
| "err_num ERR_SYS_NOT_DIR = 1012"
| "err_num ERR_SYS_READ_ONLY_FS = 1013"
| "err_num ERR_SYS_NO_SPACE = 1014"
| "err_num ERR_SYS_BAD_ADDR = 1015"
| "err_num ERR_SYS_NOT_SUPPORTED = 1016"
| "err_num ERR_SYS_TOO_BIG = 1017"
| "err_num ERR_SYS_TOO_MANY_LINKS = 1018"
| "err_num ERR_SYS_NOT_EMPTY = 1019"
| "err_num ERR_SYS_OVERFLOW = 1020"
| "err_num ERR_SYS_LOOP = 1021"
| "err_num ERR_SYS_INTERRUPTED = 1022"
| "err_num ERR_NET = 2000"
| "err_num ERR_NET_CLOSE_BY_PEER = 2001"
| "err_num ERR_NET_ADDR_IN_USE = 2002"
| "err_num ERR_NET_ABORTED = 2003"
| "err_num ERR_NET_ADDR_NOT_AVAIL = 2004"
| "err_num ERR_NET_DOWN = 2005"
| "err_num ERR_NET_PROTOCOL = 2006"
| "err_num ERR_NET_HOST_UNREACHABLE = 2007"
| "err_num ERR_SSL = 3000"

text \<open>The borders of the groups; the end is the value after the last code.\<close>

definition ERR_BOX_BEGIN :: nat where "ERR_BOX_BEGIN = 0"
definition ERR_BOX_END :: nat where "ERR_BOX_END = 4"
definition ERR_SYS_BEGIN :: nat where "ERR_SYS_BEGIN = 1000"
definition ERR_SYS_END :: nat where "ERR_SYS_END = 1023"
definition ERR_NET_BEGIN :: nat where "ERR_NET_BEGIN = 2000"
definition ERR_NET_END :: nat where "ERR_NET_END = 2008"
definition ERR_SSL_BEGIN :: nat where "ERR_SSL_BEGIN = 3000"
definition ERR_SSL_END :: nat where "ERR_SSL_END = 3001"

definition all_codes :: "error_code list" where
  "all_codes = [ERR_BOX_NONE, ERR_BOX_UNKNOWN, ERR_BOX_CANCEL, ERR_BOX_TIMEOUT, ERR_SYS, ERR_SYS_FORBIDDEN, ERR_SYS_BAD_DESCRIPTOR, ERR_SYS_EXISTS, ERR_SYS_TOO_MANY_DESCRIPTORS, ERR_SYS_NOT_FOUND, ERR_SYS_WOULDBLOCK, ERR_SYS_BUSY, ERR_SYS_IS_DIR, ERR_SYS_BAD_ARG, ERR_SYS_IO, ERR_SYS_NAME_TOO_LONG, ERR_SYS_NOT_DIR, ERR_SYS_READ_ONLY_FS, ERR_SYS_NO_SPACE, ERR_SYS_BAD_ADDR, ERR_SYS_NOT_SUPPORTED, ERR_SYS_TOO_BIG, ERR_SYS_TOO_MANY_LINKS, ERR_SYS_NOT_EMPTY, ERR_SYS_OVERFLOW, ERR_SYS_LOOP, ERR_SYS_INTERRUPTED, ERR_NET, ERR_NET_CLOSE_BY_PEER, ERR_NET_ADDR_IN_USE, ERR_NET_ABORTED, ERR_NET_ADDR_NOT_AVAIL, ERR_NET_DOWN, ERR_NET_PROTOCOL, ERR_NET_HOST_UNREACHABLE, ERR_SSL]"

fun error_def :: "error_code \<Rightarrow> string \<times> string" where
  "error_def ERR_BOX_NONE = (''box_none'', ''box none'')"
| "error_def ERR_BOX_UNKNOWN = (''error_box_unknown'', ''box unknown error'')"
| "error_def ERR_BOX_CANCEL = (''error_box_cancel'', ''box cancel'')"
| "error_def ERR_BOX_TIMEOUT = (''error_box_timeout'', ''box timeout'')"
| "error_def ERR_SYS = (''error_sys'', ''sys error'')"
| "error_def ERR_SYS_FORBIDDEN = (''error_sys_forbidden'', ''sys forbidden'')"
| "error_def ERR_SYS_BAD_DESCRIPTOR = (''error_sys_bad_descriptor'', ''sys bad descriptor'')"
| "error_def ERR_SYS_EXISTS = (''error_sys_exists'', ''sys exists'')"
| "error_def ERR_SYS_TOO_MANY_DESCRIPTORS = (''error_sys_too_many_descriptors'', ''sys too many descriptors'')"
| "error_def ERR_SYS_NOT_FOUND = (''error_sys_not_found'', ''sys not found'')"
| "error_def ERR_SYS_WOULDBLOCK = (''error_sys_wouldblock'', ''sys wouldblock'')"
| "error_def ERR_SYS_BUSY = (''error_sys_busy'', ''sys busy'')"
| "error_def ERR_SYS_IS_DIR = (''error_sys_is_dir'', ''sys is dir'')"
| "error_def ERR_SYS_BAD_ARG = (''error_sys_bad_arg'', ''sys bad arg'')"
| "error_def ERR_SYS_IO = (''error_sys_io'', ''sys io'')"
| "error_def ERR_SYS_NAME_TOO_LONG = (''error_sys_name_too_long'', ''sys name too long'')"
| "error_def ERR_SYS_NOT_DIR = (''error_sys_not_dir'', ''sys not dir'')"
| "error_def ERR_SYS_READ_ONLY_FS = (''error_sys_ro_fs'', ''sys ro fs'')"
| "error_def ERR_SYS_NO_SPACE = (''error_sys_no_space'', ''sys no space'')"
| "error_def ERR_SYS_BAD_ADDR = (''error_sys_bad_addr'', ''sys bad addr'')"
| "error_def ERR_SYS_NOT_SUPPORTED = (''error_sys_not_supported'', ''sys not supported'')"
| "error_def ERR_SYS_TOO_BIG = (''error_sys_too_big'', ''sys too big'')"
| "error_def ERR_SYS_TOO_MANY_LINKS = (''error_sys_too_many_links'', ''sys too many links'')"
| "error_def ERR_SYS_NOT_EMPTY = (''error_sys_not_empty'', ''sys not empty'')"
| "error_def ERR_SYS_OVERFLOW = (''error_sys_overflow'', ''sys overflow'')"
| "error_def ERR_SYS_LOOP = (''error_sys_loop'', ''sys loop'')"
| "error_def ERR_SYS_INTERRUPTED = (''error_sys_int'', ''sys interrupted'')"
| "error_def ERR_NET = (''error_net'', ''net error'')"
| "error_def ERR_NET_CLOSE_BY_PEER = (''error_net_closed_by_peer'', ''net closed by peer'')"
| "error_def ERR_NET_ADDR_IN_USE = (''error_net_addr_in_use'', ''net address in use'')"
| "error_def ERR_NET_ABORTED = (''error_net_aborted'', ''net aborted'')"
| "error_def ERR_NET_ADDR_NOT_AVAIL = (''error_net_addr_not_avail'', ''net address not available'')"
| "error_def ERR_NET_DOWN = (''error_net_down'', ''net down'')"
| "error_def ERR_NET_PROTOCOL = (''error_net_proto'', ''net protocol'')"
| "error_def ERR_NET_HOST_UNREACHABLE = (''error_net_host_unreach'', ''net host unreachable'')"
| "error_def ERR_SSL = (''error_ssl'', ''ssl error'')"

text \<open>The switch of \<^verbatim>\<open>ErrorGetDef\<close>; a value that is no code fails its assertion.\<close>

definition error_get_def :: "nat \<Rightarrow> (string \<times> string) option" where
  "error_get_def n = map_option error_def (List.find (\<lambda>c. err_num c = n) all_codes)"

definition error_code_message :: "nat \<Rightarrow> string option" where
  "error_code_message n = map_option snd (error_get_def n)"

definition error_code_tag :: "nat \<Rightarrow> string option" where
  "error_code_tag n = map_option fst (error_get_def n)"

definition error_code_type :: "nat \<Rightarrow> string" where
  "error_code_type n =
     (if ERR_BOX_BEGIN \<le> n \<and> n < ERR_BOX_END then ''box''
      else if ERR_SYS_BEGIN \<le> n \<and> n < ERR_SYS_END then ''sys''
      else if ERR_NET_BEGIN \<le> n \<and> n < ERR_NET_END then ''net''
      else if ERR_SSL_BEGIN \<le> n \<and> n < ERR_SSL_END then ''ssl''
      else ''unknown'')"

section \<open>Errno values\<close>

datatype errno =
    EACCES
  | EADDRINUSE
  | EAGAIN
  | EBADF
  | EBUSY
  | ECONNABORTED
  | ECONNRESET
  | EEXIST
  | EFAULT
  | EFBIG
  | EHOSTDOWN
  | EHOSTUNREACH
  | EINTR
  | EINVAL
  | EIO
  | EISDIR
  | ELOOP
  | EMFILE
  | EMLINK
  | ENAMETOOLONG
  | ENETDOWN
  | ENETUNREACH
  | ENFILE
  | ENOENT
  | ENOMEM
  | ENONET
  | ENOPROTOOPT
  | ENOSPC
  | ENOTDIR
  | ENOTEMPTY
  | ENOTSUP
  | EOPNOTSUPP
  | EOVERFLOW
  | EPERM
  | EPROTO
  | EROFS
  | ESTALE
  | EWOULDBLOCK

definition errno_cases :: "(errno \<times> error_code) list" where
  "errno_cases =
    [(EACCES, ERR_SYS_FORBIDDEN),
     (EPERM, ERR_SYS_FORBIDDEN),
     (EBADF, ERR_SYS_BAD_DESCRIPTOR),
     (EEXIST, ERR_SYS_EXISTS),
     (EMFILE, ERR_SYS_TOO_MANY_DESCRIPTORS),
     (ENFILE, ERR_SYS_TOO_MANY_DESCRIPTORS),
     (ENOENT, ERR_SYS_NOT_FOUND),
     (EWOULDBLOCK, ERR_SYS_WOULDBLOCK),
     (EBUSY, ERR_SYS_BUSY),
     (EISDIR, ERR_SYS_IS_DIR),
     (EINVAL, ERR_SYS_BAD_ARG),
     (EIO, ERR_SYS_IO),
     (ENAMETOOLONG, ERR_SYS_NAME_TOO_LONG),
     (ENOTDIR, ERR_SYS_NOT_DIR),
     (EROFS, ERR_SYS_READ_ONLY_FS),
     (ENOSPC, ERR_SYS_NO_SPACE),
     (ENOMEM, ERR_SYS_NO_SPACE),
     (EFAULT, ERR_SYS_BAD_ADDR),
     (EOPNOTSUPP, ERR_SYS_NOT_SUPPORTED),
     (EFBIG, ERR_SYS_TOO_BIG),
     (EMLINK, ERR_SYS_TOO_MANY_LINKS),
     (ENOTEMPTY, ERR_SYS_NOT_EMPTY),
     (EOVERFLOW, ERR_SYS_OVERFLOW),
     (ELOOP, ERR_SYS_LOOP),
     (ECONNRESET, ERR_NET_CLOSE_BY_PEER),
     (EADDRINUSE, ERR_NET_ADDR_IN_USE),
     (ECONNABORTED, ERR_NET_ABORTED),
     (EINTR, ERR_SYS_INTERRUPTED),
     (ENETDOWN, ERR_NET_DOWN),
     (ENETUNREACH, ERR_NET_DOWN),
     (EPROTO, ERR_NET_PROTOCOL),
     (ENOPROTOOPT, ERR_NET_PROTOCOL),
     (EHOSTUNREACH, ERR_NET_HOST_UNREACHABLE)]"

definition unix_cases :: "bool \<Rightarrow> (errno \<times> error_code) list" where
  "unix_cases apple = [(ESTALE, ERR_SYS_BAD_DESCRIPTOR), (EHOSTDOWN, ERR_NET_ABORTED)] @ (if apple then [] else [(ENONET, ERR_NET_DOWN)])"

definition error_code_from_errno :: "(errno \<Rightarrow> u32) \<Rightarrow> bool \<Rightarrow> u32 \<Rightarrow> error_code" where
  "error_code_from_errno eno apple n =
     (case List.find (\<lambda>(e, _). eno e = n) (errno_cases @ unix_cases apple) of
        Some (_, c) \<Rightarrow> c
      | None \<Rightarrow> if n = eno EAGAIN then ERR_SYS_WOULDBLOCK else if n = eno ENOTSUP then ERR_SYS_NOT_SUPPORTED else ERR_SYS)"

section \<open>Raising\<close>

record error =
  e_code :: nat
  e_value :: u32
  e_message :: string

text \<open>What the conversion \<open>%d\<close> prints for a 32 bit value.\<close>

definition dec_signed :: "u32 \<Rightarrow> string" where
  "dec_signed w = (if sint w < 0 then CHR ''-'' # dec (nat (- sint w)) else dec (nat (sint w)))"

definition quoted :: "string \<Rightarrow> string" where
  "quoted s = CHR 0x22 # s @ [CHR 0x22]"

definition error_raise_full :: "nat \<Rightarrow> u32 \<Rightarrow> string \<Rightarrow> string option \<Rightarrow> error" where
  "error_raise_full code val msg comm =
     (let delimiter = '', '';
          m1 = ''{code='' @ dec code @ delimiter @ ''type='' @ quoted (error_code_type code);
          m2 = (if val \<noteq> 0 then m1 @ delimiter @ ''val='' @ dec_signed val else m1);
          m3 = m2 @ delimiter @ ''msg='' @ quoted msg;
          m4 = (case comm of None \<Rightarrow> m3 | Some c \<Rightarrow> m3 @ delimiter @ ''comm='' @ quoted c)
      in \<lparr>e_code = code, e_value = val, e_message = m4 @ ''}''\<rparr>)"

definition error_raise :: "nat \<Rightarrow> u32 \<Rightarrow> string option \<Rightarrow> error option" where
  "error_raise code val comm = do {
     msg \<leftarrow> error_code_message code;
     Some (error_raise_full code val msg comm) }"

definition error_raise_code :: "nat \<Rightarrow> error option" where
  "error_raise_code code = error_raise code 0 None"

definition error_raise_comment :: "nat \<Rightarrow> string \<Rightarrow> error option" where
  "error_raise_comment code comm = error_raise code 0 (Some comm)"

definition error_raise_errno :: "(errno \<Rightarrow> u32) \<Rightarrow> bool \<Rightarrow> (u32 \<Rightarrow> string) \<Rightarrow> u32 \<Rightarrow> string option \<Rightarrow> error" where
  "error_raise_errno eno apple strerror val comm =
     error_raise_full (err_num (error_code_from_errno eno apple val)) val (strerror val) comm"

definition error_errno_to_string :: "(u32 \<Rightarrow> string) \<Rightarrow> u32 \<Rightarrow> bool \<Rightarrow> string" where
  "error_errno_to_string strerror code add_code =
     (if add_code then ''('' @ dec_signed code @ '') '' else []) @ strerror code"

definition error_raise_cause :: "error \<Rightarrow> string \<Rightarrow> error" where
  "error_raise_cause cause comm =
     \<lparr>e_code = e_code cause, e_value = e_value cause,
      e_message = ''{comm='' @ quoted comm @ '', cause='' @ e_message cause @ ''}''\<rparr>"

section \<open>Lemmas\<close>

lemmas err_borders = ERR_BOX_BEGIN_def ERR_BOX_END_def ERR_SYS_BEGIN_def ERR_SYS_END_def
  ERR_NET_BEGIN_def ERR_NET_END_def ERR_SSL_BEGIN_def ERR_SSL_END_def

lemma all_codes_UNIV: "c \<in> set all_codes"
  by (cases c) (simp_all add: all_codes_def)

lemma err_num_inj: "err_num c = err_num d \<Longrightarrow> c = d"
proof -
  have "distinct (map err_num all_codes)" by (simp add: all_codes_def)
  then show "err_num c = err_num d \<Longrightarrow> c = d"
    using all_codes_UNIV[of c] all_codes_UNIV[of d] by (auto simp: distinct_map dest: inj_onD)
qed

lemma error_tag_inj: "fst (error_def c) = fst (error_def d) \<Longrightarrow> c = d"
proof -
  have "distinct (map (\<lambda>c. fst (error_def c)) all_codes)" by (simp add: all_codes_def)
  then show "fst (error_def c) = fst (error_def d) \<Longrightarrow> c = d"
    using all_codes_UNIV[of c] all_codes_UNIV[of d] by (auto simp: distinct_map dest: inj_onD)
qed

lemma find_code: "List.find (\<lambda>d. err_num d = err_num c) xs = (if c \<in> set xs then Some c else None)"
  by (induction xs) (auto dest: err_num_inj)

lemma error_get_def_num: "error_get_def (err_num c) = Some (error_def c)"
  using find_code[of c all_codes] all_codes_UNIV[of c] by (simp add: error_get_def_def)

lemma error_type_num: "error_code_type (err_num c) = take 3 (snd (error_def c))"
  by (cases c) (simp_all add: error_code_type_def err_borders)

lemma error_code_range:
  assumes "error_code_type n \<noteq> ''unknown''"
  shows "\<exists>c. err_num c = n"
proof -
  have "n \<in> {0..<4} \<union> {1000..<1023} \<union> {2000..<2008} \<union> {3000..<3001}"
    using assms by (auto simp: error_code_type_def err_borders split: if_splits)
  also have "\<dots> = set ([0..<4] @ [1000..<1023] @ [2000..<2008] @ [3000..<3001])" by (simp only: set_upt set_append Un_assoc)
  also have "\<dots> = set (map err_num all_codes)"
  proof -
    have "[0..<4] = [0, 1, 2, 3::nat]" by (simp add: upt_rec)
    then have "[0..<4] @ [1000..<1023] @ [2000..<2008] @ [3000..<3001] = map err_num all_codes"
      by (simp add: all_codes_def)
    then show ?thesis by (simp only:)
  qed
  finally show ?thesis by auto
qed

lemma find_errno:
  assumes "inj_on eno (fst ` set cs)" and "distinct (map fst cs)" and "(e, c) \<in> set cs"
  shows "List.find (\<lambda>(e', _). eno e' = eno e) cs = Some (e, c)"
  using assms
proof (induction cs)
  case (Cons x cs)
  obtain e' c' where x: "x = (e', c')" by (cases x)
  show ?case
  proof (cases "eno e' = eno e")
    case True
    then have "e' = e" using Cons.prems(1,3) x by (auto simp: inj_on_def image_iff) 
    then show ?thesis using Cons.prems(2,3) x by (auto simp: image_iff)
  next
    case False
    then show ?thesis using Cons x by auto
  qed
qed simp

text \<open>Reading the code back from a message.\<close>

definition read_code :: "string \<Rightarrow> nat" where
  "read_code m = digits_value (takeWhile is_digit (drop 6 m))"

lemma read_code_full: "read_code (e_message (error_raise_full code val msg comm)) = code"
proof -
  have "\<exists>r. e_message (error_raise_full code val msg comm) = ''{code='' @ dec code @ CHR '','' # r"
    by (auto simp: error_raise_full_def Let_def split: option.splits)
  then obtain r where "e_message (error_raise_full code val msg comm) = ''{code='' @ dec code @ CHR '','' # r" by blast
  moreover have "takeWhile is_digit (dec code @ CHR '','' # r) = dec code"
    using dec_digits(1)[of code] by (simp add: takeWhile_append2 is_digit_def)
  ultimately show ?thesis using dec_value[of code] by (simp add: read_code_def)
qed

text \<open>A value of \<open>2 ^ 31\<close> or more is shown as a negative number.\<close>

lemma error_value_signed:
  "dec_signed 4294967295 = ''-1''"
proof -
  have "char_of (49 :: nat) = CHR ''1''" by (simp add: char_of_eq_iff)
  then show ?thesis by (simp add: dec_signed_def dec.simps digit_char_def)
qed

section \<open>Correctness\<close>

text \<open>
  C38. The codes are typed: the group of every code, as \<^verbatim>\<open>ErrorCodeType\<close> finds it by the borders, is the one
  its text begins with, \<^verbatim>\<open>ErrorGetDef\<close> finds the definition of every code and fails exactly for the
  values outside of the borders, and no two codes share a number or a tag.
\<close>
theorem error_codes_typed:
  "error_get_def (err_num c) = Some (error_def c) \<and> error_code_type (err_num c) = take 3 (snd (error_def c)) \<and>
   error_code_type (err_num c) \<in> {''box'', ''sys'', ''net'', ''ssl''} \<and>
   (error_get_def n = None \<longleftrightarrow> error_code_type n = ''unknown'') \<and>
   (err_num c = err_num d \<longleftrightarrow> c = d) \<and> (fst (error_def c) = fst (error_def d) \<longleftrightarrow> c = d)"
proof -
  have a: "error_code_type (err_num c) \<in> {''box'', ''sys'', ''net'', ''ssl''}" for c
    by (cases c) (simp_all add: error_code_type_def err_borders)
  have "error_get_def n = None \<longleftrightarrow> error_code_type n = ''unknown''"
  proof
    assume "error_get_def n = None"
    then show "error_code_type n = ''unknown''" using error_code_range[of n] error_get_def_num by force
  next
    assume u: "error_code_type n = ''unknown''"
    have "err_num d \<noteq> n" for d using a[of d] u by auto
    then show "error_get_def n = None" by (auto simp: error_get_def_def find_None_iff)
  qed
  then show ?thesis using a[of c] error_get_def_num error_type_num err_num_inj error_tag_inj by blast
qed


text \<open>The values on Linux.\<close>

fun linux_errno :: "errno \<Rightarrow> u32" where
  "linux_errno EACCES = 13"
| "linux_errno EADDRINUSE = 98"
| "linux_errno EAGAIN = 11"
| "linux_errno EBADF = 9"
| "linux_errno EBUSY = 16"
| "linux_errno ECONNABORTED = 103"
| "linux_errno ECONNRESET = 104"
| "linux_errno EEXIST = 17"
| "linux_errno EFAULT = 14"
| "linux_errno EFBIG = 27"
| "linux_errno EHOSTDOWN = 112"
| "linux_errno EHOSTUNREACH = 113"
| "linux_errno EINTR = 4"
| "linux_errno EINVAL = 22"
| "linux_errno EIO = 5"
| "linux_errno EISDIR = 21"
| "linux_errno ELOOP = 40"
| "linux_errno EMFILE = 24"
| "linux_errno EMLINK = 31"
| "linux_errno ENAMETOOLONG = 36"
| "linux_errno ENETDOWN = 100"
| "linux_errno ENETUNREACH = 101"
| "linux_errno ENFILE = 23"
| "linux_errno ENOENT = 2"
| "linux_errno ENOMEM = 12"
| "linux_errno ENONET = 64"
| "linux_errno ENOPROTOOPT = 92"
| "linux_errno ENOSPC = 28"
| "linux_errno ENOTDIR = 20"
| "linux_errno ENOTEMPTY = 39"
| "linux_errno ENOTSUP = 95"
| "linux_errno EOPNOTSUPP = 95"
| "linux_errno EOVERFLOW = 75"
| "linux_errno EPERM = 1"
| "linux_errno EPROTO = 71"
| "linux_errno EROFS = 30"
| "linux_errno ESTALE = 116"
| "linux_errno EWOULDBLOCK = 11"


end
