(* ===== verification/Time_Limits.thy ===== *)
theory Time_Limits
  imports Serverbox_Prelude
begin

text \<open>
  \<^verbatim>\<open>box/Time.h\<close>: points in time, durations, and limits that are one of the two. The clock is a parameter. The members of
  the union are the arguments of the constructors.
\<close>

definition TIME_INFINITE :: u64 where "TIME_INFINITE = - 1"

datatype time_limit = TIME_LIMIT_NONE | TIME_LIMIT_DURATION u64 | TIME_LIMIT_POINT u64

text \<open>The constructors of \<^verbatim>\<open>TimeDuration\<close> from signed numbers.\<close>

definition duration_of_int32 :: "32 word \<Rightarrow> u64" where
  "duration_of_int32 v = (if 0 \<le> sint v then word_of_int (sint v) else 0)"

definition duration_of_int64 :: "64 word \<Rightarrow> u64" where
  "duration_of_int64 v = (if 0 \<le> sint v then v else 0)"

definition duration_to_point :: "u64 \<Rightarrow> u64 \<Rightarrow> u64" where
  "duration_to_point ts v = (if ts \<ge> - 1 - v then TIME_INFINITE else v + ts)"

fun limit_to_point :: "u64 \<Rightarrow> time_limit \<Rightarrow> u64 option" where
  "limit_to_point ts (TIME_LIMIT_POINT p) = Some p"
| "limit_to_point ts (TIME_LIMIT_DURATION v) = Some (duration_to_point ts v)"
| "limit_to_point ts TIME_LIMIT_NONE = None"

fun limit_to_duration :: "u64 \<Rightarrow> time_limit \<Rightarrow> u64 option" where
  "limit_to_duration ts (TIME_LIMIT_DURATION v) = Some v"
| "limit_to_duration ts (TIME_LIMIT_POINT p) =
    Some (if p = TIME_INFINITE then TIME_INFINITE else if ts \<ge> p then 0 else p - ts)"
| "limit_to_duration ts TIME_LIMIT_NONE = None"

lemma unat_less_64: "unat (v :: u64) < 2 ^ 64"
  using unsigned_less[of v, where ?'a = nat] by simp

lemma unat_max_64: "unat (- 1 :: u64) = 2 ^ 64 - 1"
  by (simp add: unsigned_minus_1_eq_mask mask_eq_exp_minus_1)

lemma duration_to_point_unat: "unat (duration_to_point ts v) = min (unat v + unat ts) (2 ^ 64 - 1)"
proof -
  have m: "unat (- 1 - v) = 2 ^ 64 - 1 - unat v"
  proof -
    have "unat (- 1 - v) = unat (- 1 :: u64) - unat v" by (rule unat_sub) simp
    then show ?thesis by (simp add: unat_max_64)
  qed
  have v: "unat v < 2 ^ 64" "unat ts < 2 ^ 64" by (rule unat_less_64)+
  show ?thesis
  proof (cases "ts \<ge> - 1 - v")
    case True
    then have "2 ^ 64 - 1 - unat v \<le> unat ts" using m by (simp add: word_le_nat_alt)
    then have "2 ^ 64 - 1 \<le> unat v + unat ts" by linarith
    then show ?thesis using True by (simp add: duration_to_point_def TIME_INFINITE_def unat_max_64)
  next
    case False
    then have "unat ts < 2 ^ 64 - 1 - unat v" using m by (simp add: word_le_nat_alt)
    then have l: "unat v + unat ts < 2 ^ 64 - 1" by simp
    then have "unat (v + ts) = unat v + unat ts" by (subst unat_plus_if') simp
    then show ?thesis using False l by (simp add: duration_to_point_def)
  qed
qed


end
