(* ===== verification/Deadline_Heap.thy ===== *)
theory Deadline_Heap
  imports Binary_Heap Time_Limits
begin

text \<open>
  The waiting queues of the two schedulers, \<^verbatim>\<open>BinaryHeapMinIntrusive\<close> over tasks that are compared by their
  deadlines: what the operations of \<open>Binary_Heap\<close> do to the set of waiting tasks.
\<close>

abbreviation dheap :: "('k \<Rightarrow> u64) \<Rightarrow> 'k heap_methods" where
  "dheap d \<equiv> min_methods d True"

lemma dheap_index: "heap_ok (dheap d) h \<Longrightarrow> (hp_idx h t \<ge> 0 \<longleftrightarrow> t \<in> set (hp_data h)) \<and> (hp_idx h t = - 1 \<longleftrightarrow> t \<notin> set (hp_data h))"
  by (cases "t \<in> set (hp_data h)") (auto simp: heap_ok_def index_inv_def in_set_conv_nth)

lemma dheap_distinct: "heap_ok (dheap d) h \<Longrightarrow> distinct (hp_data h)"
  by (simp add: heap_ok_def index_inv_def)

lemma dheap_top:
  assumes "heap_ok (dheap d) h"
  shows "heap_get_top h = None \<longleftrightarrow> set (hp_data h) = {}"
    and "heap_get_top h = Some t \<Longrightarrow> t \<in> set (hp_data h) \<and> (\<forall>u \<in> set (hp_data h). d t \<le> d u)"
  using min_heap.pq.get_None[of d True h] min_heap.pq.get_Some[of d True h t] assms
  by auto

lemma set_minus_mset: "mset xs = mset ys - {#a#} \<Longrightarrow> distinct ys \<Longrightarrow> set xs = set ys - {a}"
  by (metis mset_remove1 set_mset_mset set_remove1_eq)

lemma dheap_remove_top:
  assumes "heap_ok (dheap d) h" and "heap_get_top h = Some t"
  obtains q where "heap_remove_top (dheap d) h = Some (True, q)" "heap_ok (dheap d) q" "set (hp_data q) = set (hp_data h) - {t}"
proof -
  from min_heap.pq.del_Some[of d True h t] assms obtain q where
    q: "heap_remove_top (dheap d) h = Some (True, q)" "heap_ok (dheap d) q" "mset (hp_data q) = mset (hp_data h) - {#t#}"
    by auto
  with set_minus_mset[OF q(3) dheap_distinct[OF assms(1)]] show ?thesis using that by blast
qed

lemma dheap_remove:
  assumes "heap_ok (dheap d) h" and "t \<in> set (hp_data h)"
  obtains q where "heap_remove (dheap d) t h = Some q" "heap_ok (dheap d) q" "set (hp_data q) = set (hp_data h) - {t}"
proof -
  from min_heap.remove_heap_ok[of d True h t] assms obtain q where
    q: "heap_remove (dheap d) t h = Some q" "heap_ok (dheap d) q" "mset (hp_data q) = mset (hp_data h) - {#t#}"
    by auto
  with set_minus_mset[OF q(3) dheap_distinct[OF assms(1)]] show ?thesis using that by blast
qed

lemma dheap_push:
  assumes "heap_ok (dheap d) h" and "t \<notin> set (hp_data h)"
  shows "heap_ok (dheap d) (heap_push (dheap d) t h)" "set (hp_data (heap_push (dheap d) t h)) = insert t (set (hp_data h))"
  using min_heap.push_heap_ok[of d True h t] assms
  by (auto dest: mset_eq_setD[of _ "t # hp_data h", simplified])

text \<open>The heap property depends on the deadlines of the stored tasks only.\<close>

lemma dheap_cong:
  assumes "heap_ok (dheap d) h" and "\<And>t. t \<in> set (hp_data h) \<Longrightarrow> d' t = d t"
  shows "heap_ok (dheap d') h"
proof -
  have "heap_inv (dheap d') (hp_data h)"
    unfolding heap_inv_def
  proof (intro allI impI)
    fix j assume j: "j < length (hp_data h)" "0 < j"
    then have "hm_above (dheap d) (hp_data h ! parent_index j) (hp_data h ! j)"
      using assms(1) by (auto simp: heap_ok_def heap_inv_def)
    then show "hm_above (dheap d') (hp_data h ! parent_index j) (hp_data h ! j)"
      using assms(2)[of "hp_data h ! j"] assms(2)[of "hp_data h ! parent_index j"] j by simp
  qed
  with assms(1) show ?thesis by (simp add: heap_ok_def index_inv_def)
qed

end
