(* ===== verification/Task_Scheduler.thy ===== *)
theory Task_Scheduler
  imports Deadline_Heap Interruptible_Mutex
begin

text \<open>
  The task scheduler of \<^verbatim>\<open>sch/Task.cpp\<close> and \<^verbatim>\<open>sch/TaskScheduler.cpp\<close> as a step relation over any number of
  worker and client threads. One step is one access to what the threads share: an atomic operation on
  a task's status, on a queue, on a signal, on the scheduler mutex. The components the scheduler is built from
  appear with the contracts their theories prove: the front queue and the ready queue are lists (a push is
  linearised at its exchange, a pop takes the oldest element), the signals are flags, the mutex is an
  owner with its queue of waiters, and the waiting queue is the heap of \<open>Binary_Heap\<close> itself, with its
  intrusive index.

  A thread has a place in its main loop (\<open>ts_pc\<close>) and, while it runs client code, a place inside one
  call of the public interface (\<open>ts_call\<close>). Workers are the threads below \<open>ts_workers\<close>.
\<close>

section \<open>State\<close>

datatype task_status = PENDING | WAITING | READY | SIGNALED

text \<open>
  Places in \<^verbatim>\<open>Run\<close>, \<^verbatim>\<open>PrivSchedule\<close> and \<^verbatim>\<open>PrivExecute\<close>. The number is the local \<^verbatim>\<open>batch\<close>, the task the
  local \<^verbatim>\<open>t\<close>. \<open>Failed\<close> is a failed assertion.
\<close>

datatype 'k ts_place =
    Outside | Starting | WaitReady
  | TryLock | WaitTop nat | WaitCas 'k nat | PopFront
  | Pend nat | PendWaitCas 'k nat | PendReadyCas 'k nat | PendPush 'k nat | PendAdd 'k nat
  | Flush | CheckIdle | CheckDeadline | SleepTimed u64 | SleepBlocking | Unlock | SendReady
  | Exec nat | Counted 'k nat | Clear 'k nat | ExecCas 'k nat | Run 'k nat | Callback 'k nat
  | Aborted

text \<open>Places in \<^verbatim>\<open>PrivPost\<close>, \<^verbatim>\<open>PostWakeup\<close> and \<^verbatim>\<open>IsEmpty\<close>.\<close>

datatype 'k ts_in_call =
    NoCall | PushFront 'k | SendFront | WakeCas 'k task_status
  | EmptyLock | EmptyWait | EmptyWorker nat | EmptyFront | EmptyRest | EmptyUnlock bool | EmptySend bool | EmptyReturn bool
  | AbortedCall

text \<open>
  The first group are members of \<^verbatim>\<open>TaskScheduler\<close>, the second the locals \<^verbatim>\<open>ready\<close> and \<^verbatim>\<open>timestamp\<close> of the
  thread that schedules, the third the members of the tasks (\<^verbatim>\<open>myScheduler\<close> is null or this scheduler;
  \<^verbatim>\<open>myIndex\<close> is the index of the heap), the last the clock, the threads and a history variable: the tasks that were woken or signaled
  since their status was pending last.
\<close>

record 'k ts =
  ts_front :: "'k list"
  ts_fsig :: bool
  ts_pending :: "'k list"
  ts_waiting :: "'k heap"
  ts_rsig :: bool
  ts_exec_batch :: nat
  ts_sched_batch :: nat
  ts_ready :: "'k list"
  ts_ready_count :: nat
  ts_lock :: "nat option"
  ts_lock_queue :: "nat list"
  ts_workers :: nat

  ts_collected :: "'k list"
  ts_timestamp :: u64

  ts_status :: "'k \<Rightarrow> task_status"
  ts_posted :: "'k \<Rightarrow> bool"
  ts_deadline :: "'k \<Rightarrow> u64"
  ts_expired :: "'k \<Rightarrow> bool"

  ts_now :: u64
  ts_pc :: "nat \<Rightarrow> 'k ts_place"
  ts_call :: "nat \<Rightarrow> 'k ts_in_call"
  ts_asked :: "'k \<Rightarrow> bool"

text \<open>
  A scheduler after its constructor and \<^verbatim>\<open>Start\<close>: \<open>n\<close> threads at the beginning of \<^verbatim>\<open>Run\<close>; the product is
  one of 32 bit numbers. \<^verbatim>\<open>Task::PrivCreate\<close> gives the initial values of the tasks.
\<close>

definition ts_started :: "u32 \<Rightarrow> u32 \<Rightarrow> 'k ts" where
  "ts_started sub n =
     \<lparr>ts_front = [], ts_fsig = False, ts_pending = [], ts_waiting = empty_heap (\<lambda>_. - 1), ts_rsig = True,
      ts_exec_batch = unat sub, ts_sched_batch = unat (sub * n), ts_ready = [], ts_ready_count = 0,
      ts_lock = None, ts_lock_queue = [], ts_workers = unat n, ts_collected = [], ts_timestamp = 0,
      ts_status = \<lambda>_. PENDING, ts_posted = \<lambda>_. False, ts_deadline = \<lambda>_. 0, ts_expired = \<lambda>_. False,
      ts_now = 0, ts_pc = \<lambda>w. if w < unat n then Starting else Outside, ts_call = \<lambda>_. NoCall,
      ts_asked = \<lambda>_. False\<rparr>"

definition ts_goto :: "nat \<Rightarrow> 'k ts_place \<Rightarrow> 'k ts \<Rightarrow> 'k ts" where
  "ts_goto w p s = s\<lparr>ts_pc := (ts_pc s)(w := p)\<rparr>"

definition ts_at_call :: "nat \<Rightarrow> 'k ts_in_call \<Rightarrow> 'k ts \<Rightarrow> 'k ts" where
  "ts_at_call w c s = s\<lparr>ts_call := (ts_call s)(w := c)\<rparr>"

definition ts_set_status :: "'k \<Rightarrow> task_status \<Rightarrow> 'k ts \<Rightarrow> 'k ts" where
  "ts_set_status t x s = s\<lparr>ts_status := (ts_status s)(t := x)\<rparr>"

text \<open>The order of the waiting queue, \<^verbatim>\<open>Task::operator<=\<close>, with the index in \<^verbatim>\<open>Task::myIndex\<close>.\<close>

definition ts_heap :: "'k ts \<Rightarrow> 'k heap_methods" where
  "ts_heap s = min_methods (ts_deadline s) True"

section \<open>The scheduler role\<close>

text \<open>\<^verbatim>\<open>PrivSchedulerTryLock\<close>, and the first lines of \<^verbatim>\<open>PrivSchedule\<close> when it succeeds.\<close>

definition ts_try_lock :: "nat \<Rightarrow> 'k ts \<Rightarrow> 'k ts" where
  "ts_try_lock w s =
     (if ts_lock s = None then ts_goto w (WaitTop 0) (s\<lparr>ts_lock := Some w, ts_timestamp := ts_now s, ts_collected := []\<rparr>)
      else ts_goto w (Exec 0) s)"

text \<open>
  The waiting tasks: the condition of the loop, the check of the top and its removal are one step (only
  the thread with the role touches them), the exchange of the status is the other.
\<close>

definition ts_wait_top :: "nat \<Rightarrow> nat \<Rightarrow> 'k ts \<Rightarrow> 'k ts" where
  "ts_wait_top w b s =
     (case heap_get_top (ts_waiting s) of
        None \<Rightarrow> ts_goto w PopFront s
      | Some t \<Rightarrow>
          if \<not> b + 1 < ts_sched_batch s \<or> ts_deadline s t > ts_timestamp s then ts_goto w PopFront s
          else case heap_remove_top (ts_heap s) (ts_waiting s) of
                 None \<Rightarrow> ts_goto w Aborted s
               | Some (_, q) \<Rightarrow> ts_goto w (WaitCas t (b + 1))
                   (s\<lparr>ts_waiting := q, ts_expired := (ts_expired s)(t := True)\<rparr>))"

definition ts_wait_cas :: "nat \<Rightarrow> 'k \<Rightarrow> nat \<Rightarrow> 'k ts \<Rightarrow> 'k ts" where
  "ts_wait_cas w t b s =
     (case ts_status s t of
        WAITING \<Rightarrow> ts_goto w (WaitTop b) (ts_set_status t READY (s\<lparr>ts_collected := ts_collected s @ [t]\<rparr>))
      | PENDING \<Rightarrow> ts_goto w Aborted s
      | _ \<Rightarrow> ts_goto w (WaitTop b) s)"

definition ts_pop_front :: "nat \<Rightarrow> 'k ts \<Rightarrow> 'k ts" where
  "ts_pop_front w s = ts_goto w (Pend 0) (s\<lparr>ts_pending := ts_pending s @ ts_front s, ts_front := []\<rparr>)"

text \<open>The loop over the pending tasks.\<close>

definition ts_pend :: "nat \<Rightarrow> nat \<Rightarrow> 'k ts \<Rightarrow> 'k ts" where
  "ts_pend w b s =
     (case ts_pending s of
        [] \<Rightarrow> ts_goto w Flush s
      | t # ps \<Rightarrow>
          if \<not> b + 1 < ts_sched_batch s then ts_goto w Flush s
          else if ts_timestamp s < ts_deadline s t
          then ts_goto w (PendWaitCas t (b + 1)) (s\<lparr>ts_pending := ps, ts_expired := (ts_expired s)(t := False)\<rparr>)
          else ts_goto w (PendReadyCas t (b + 1)) (s\<lparr>ts_pending := ps, ts_expired := (ts_expired s)(t := True)\<rparr>))"

definition ts_pend_wait_cas :: "nat \<Rightarrow> 'k \<Rightarrow> nat \<Rightarrow> 'k ts \<Rightarrow> 'k ts" where
  "ts_pend_wait_cas w t b s =
     (case ts_status s t of
        PENDING \<Rightarrow>
          (if ts_deadline s t \<noteq> TIME_INFINITE then ts_goto w (PendPush t b) (ts_set_status t WAITING s)
           else ts_goto w (if hp_idx (ts_waiting s) t = - 1 then Pend b else Aborted) (ts_set_status t WAITING s))
      | WAITING \<Rightarrow> ts_goto w Aborted s
      | _ \<Rightarrow> ts_goto w (PendAdd t b) s)"

definition ts_pend_ready_cas :: "nat \<Rightarrow> 'k \<Rightarrow> nat \<Rightarrow> 'k ts \<Rightarrow> 'k ts" where
  "ts_pend_ready_cas w t b s =
     (case ts_status s t of
        PENDING \<Rightarrow> ts_goto w (PendAdd t b) (ts_set_status t READY s)
      | WAITING \<Rightarrow> ts_goto w Aborted s
      | _ \<Rightarrow> ts_goto w (PendAdd t b) s)"

definition ts_pend_push :: "nat \<Rightarrow> 'k \<Rightarrow> nat \<Rightarrow> 'k ts \<Rightarrow> 'k ts" where
  "ts_pend_push w t b s = ts_goto w (Pend b) (s\<lparr>ts_waiting := heap_push (ts_heap s) t (ts_waiting s)\<rparr>)"

definition ts_pend_add :: "nat \<Rightarrow> 'k \<Rightarrow> nat \<Rightarrow> 'k ts \<Rightarrow> 'k ts" where
  "ts_pend_add w t b s =
     (case (if hp_idx (ts_waiting s) t \<ge> 0 then heap_remove (ts_heap s) t (ts_waiting s) else Some (ts_waiting s)) of
        None \<Rightarrow> ts_goto w Aborted s
      | Some q \<Rightarrow> ts_goto w (Pend b) (s\<lparr>ts_waiting := q, ts_collected := ts_collected s @ [t]\<rparr>))"

text \<open>
  The hand-over to the workers. \<^verbatim>\<open>PushPending\<close> and \<^verbatim>\<open>FlushPending\<close> make the tasks visible in groups; here every
  one becomes visible in a step of its own, which allows all the orders of the code and more.
\<close>

definition ts_flush :: "nat \<Rightarrow> 'k ts \<Rightarrow> 'k ts" where
  "ts_flush w s =
     (case ts_collected s of
        [] \<Rightarrow> ts_goto w CheckIdle s
      | t # ts \<Rightarrow> s\<lparr>ts_collected := ts, ts_ready := ts_ready s @ [t], ts_ready_count := ts_ready_count s + 1\<rparr>)"

definition ts_check_idle :: "nat \<Rightarrow> 'k ts \<Rightarrow> 'k ts" where
  "ts_check_idle w s =
     ts_goto w (if ts_ready_count s = 0 \<and> ts_pending s = []
                then if heap_count (ts_waiting s) > 0 then CheckDeadline else SleepBlocking
                else Unlock) s"

definition ts_check_deadline :: "nat \<Rightarrow> 'k ts \<Rightarrow> 'k ts" where
  "ts_check_deadline w s =
     (case heap_get_top (ts_waiting s) of
        None \<Rightarrow> ts_goto w Aborted s
      | Some t \<Rightarrow> ts_goto w (if ts_deadline s t > ts_now s then SleepTimed (ts_deadline s t) else Unlock)
          (s\<lparr>ts_timestamp := ts_now s\<rparr>))"

text \<open>A receive of the front signal returns when the signal is there, and takes it.\<close>

definition ts_receive_front :: "nat \<Rightarrow> 'k ts \<Rightarrow> 'k ts option" where
  "ts_receive_front w s = (if ts_fsig s then Some (ts_goto w Unlock (s\<lparr>ts_fsig := False\<rparr>)) else None)"

text \<open>
  \<^verbatim>\<open>InterruptibleMutex::Unlock\<close> hands the mutex over to the first waiter; \<open>TryLock\<close> fails until then. The
  same release ends \<^verbatim>\<open>IsEmpty\<close>.
\<close>

definition ts_release :: "'k ts \<Rightarrow> 'k ts" where
  "ts_release s =
     (case ts_lock_queue s of
        [] \<Rightarrow> s\<lparr>ts_lock := None\<rparr>
      | u # us \<Rightarrow> s\<lparr>ts_lock := Some u, ts_lock_queue := us\<rparr>)"

definition ts_unlock :: "nat \<Rightarrow> 'k ts \<Rightarrow> 'k ts" where
  "ts_unlock w s = ts_goto w SendReady (ts_release s)"

definition ts_send_ready :: "nat \<Rightarrow> 'k ts \<Rightarrow> 'k ts" where
  "ts_send_ready w s = ts_goto w (Exec 0) (s\<lparr>ts_rsig := True\<rparr>)"

section \<open>Execution\<close>

text \<open>
  The loop of \<^verbatim>\<open>Run\<close> over \<^verbatim>\<open>PrivExecute\<close>; \<open>b\<close> is its \<^verbatim>\<open>batch\<close>. A pop takes an element and then decrements the counter of
  the queue; without an element the loop ends and the assertion on the batch is checked.
\<close>

definition ts_batch_done :: "nat \<Rightarrow> nat \<Rightarrow> 'k ts \<Rightarrow> 'k ts" where
  "ts_batch_done w b s =
     ts_goto w (if b = ts_exec_batch s then TryLock else if b < ts_exec_batch s then WaitReady else Aborted) s"

definition ts_exec :: "nat \<Rightarrow> nat \<Rightarrow> 'k ts \<Rightarrow> 'k ts" where
  "ts_exec w b s =
     (case ts_ready s of
        [] \<Rightarrow> ts_batch_done w b s
      | t # ts \<Rightarrow> ts_goto w (Counted t b) (s\<lparr>ts_ready := ts\<rparr>))"

definition ts_counted :: "nat \<Rightarrow> 'k \<Rightarrow> nat \<Rightarrow> 'k ts \<Rightarrow> 'k ts" where
  "ts_counted w t b s = ts_goto w (Clear t b) (s\<lparr>ts_ready_count := ts_ready_count s - 1\<rparr>)"

definition ts_clear :: "nat \<Rightarrow> 'k \<Rightarrow> nat \<Rightarrow> 'k ts \<Rightarrow> 'k ts" where
  "ts_clear w t b s =
     (if ts_posted s t then ts_goto w (ExecCas t b) (s\<lparr>ts_posted := (ts_posted s)(t := False)\<rparr>)
      else ts_goto w Aborted s)"

definition ts_exec_cas :: "nat \<Rightarrow> 'k \<Rightarrow> nat \<Rightarrow> 'k ts \<Rightarrow> 'k ts" where
  "ts_exec_cas w t b s =
     (case ts_status s t of
        READY \<Rightarrow> ts_goto w (Run t b) (ts_set_status t PENDING (s\<lparr>ts_asked := (ts_asked s)(t := False)\<rparr>))
      | SIGNALED \<Rightarrow> ts_goto w (Run t b) s
      | _ \<Rightarrow> ts_goto w Aborted s)"

text \<open>\<^verbatim>\<open>Task::PrivExecute\<close> up to the call of the callback.\<close>

definition ts_run :: "nat \<Rightarrow> 'k \<Rightarrow> nat \<Rightarrow> 'k ts \<Rightarrow> 'k ts" where
  "ts_run w t b s =
     (if ts_posted s t then ts_goto w Aborted s
      else ts_goto w (Callback t b) (s\<lparr>ts_deadline := (ts_deadline s)(t := 0)\<rparr>))"

text \<open>The callback returned.\<close>

definition ts_callback_done :: "nat \<Rightarrow> nat \<Rightarrow> 'k ts \<Rightarrow> 'k ts" where
  "ts_callback_done w b s =
     (if b + 1 < ts_exec_batch s then ts_goto w (Exec (b + 1)) s else ts_batch_done w (b + 1) s)"

text \<open>\<^verbatim>\<open>PrivWaitReady\<close>.\<close>

definition ts_wait_ready :: "nat \<Rightarrow> 'k ts \<Rightarrow> 'k ts option" where
  "ts_wait_ready w s = (if ts_rsig s then Some (ts_goto w Starting (s\<lparr>ts_rsig := False\<rparr>)) else None)"

text \<open>The state a worker publishes: it is stored on the way out of \<open>Starting\<close> and on the way into \<open>WaitReady\<close>.\<close>

fun worker_idle :: "'k ts_place \<Rightarrow> bool" where
  "worker_idle Starting = True"
| "worker_idle WaitReady = True"
| "worker_idle _ = False"

definition ts_worker_step :: "nat \<Rightarrow> 'k ts \<Rightarrow> 'k ts option" where
  "ts_worker_step w s =
     (case ts_pc s w of
        Starting \<Rightarrow> Some (ts_goto w TryLock s)
      | WaitReady \<Rightarrow> ts_wait_ready w s
      | TryLock \<Rightarrow> Some (ts_try_lock w s)
      | WaitTop b \<Rightarrow> Some (ts_wait_top w b s)
      | WaitCas t b \<Rightarrow> Some (ts_wait_cas w t b s)
      | PopFront \<Rightarrow> Some (ts_pop_front w s)
      | Pend b \<Rightarrow> Some (ts_pend w b s)
      | PendWaitCas t b \<Rightarrow> Some (ts_pend_wait_cas w t b s)
      | PendReadyCas t b \<Rightarrow> Some (ts_pend_ready_cas w t b s)
      | PendPush t b \<Rightarrow> Some (ts_pend_push w t b s)
      | PendAdd t b \<Rightarrow> Some (ts_pend_add w t b s)
      | Flush \<Rightarrow> Some (ts_flush w s)
      | CheckIdle \<Rightarrow> Some (ts_check_idle w s)
      | CheckDeadline \<Rightarrow> Some (ts_check_deadline w s)
      | SleepTimed d \<Rightarrow> ts_receive_front w s
      | SleepBlocking \<Rightarrow> ts_receive_front w s
      | Unlock \<Rightarrow> Some (ts_unlock w s)
      | SendReady \<Rightarrow> Some (ts_send_ready w s)
      | Exec b \<Rightarrow> Some (ts_exec w b s)
      | Counted t b \<Rightarrow> Some (ts_counted w t b s)
      | Clear t b \<Rightarrow> Some (ts_clear w t b s)
      | ExecCas t b \<Rightarrow> Some (ts_exec_cas w t b s)
      | Run t b \<Rightarrow> Some (ts_run w t b s)
      | _ \<Rightarrow> None)"

section \<open>Calls of the interface\<close>

text \<open>\<^verbatim>\<open>PrivPost\<close>: the assertion and the push, which says whether the queue was empty.\<close>

definition ts_push_front :: "nat \<Rightarrow> 'k \<Rightarrow> 'k ts \<Rightarrow> 'k ts" where
  "ts_push_front w t s =
     (if ts_posted s t
      then ts_at_call w (if ts_front s = [] then SendFront else NoCall) (s\<lparr>ts_front := ts_front s @ [t]\<rparr>)
      else ts_at_call w AbortedCall s)"

definition ts_send_front :: "nat \<Rightarrow> 'k ts \<Rightarrow> 'k ts" where
  "ts_send_front w s = ts_at_call w NoCall (s\<lparr>ts_fsig := True\<rparr>)"

text \<open>\<^verbatim>\<open>PostWakeup\<close>: the loop goes on with the value it found, unless the task is awake already.\<close>

definition ts_wake_check :: "nat \<Rightarrow> 'k \<Rightarrow> task_status \<Rightarrow> 'k ts \<Rightarrow> 'k ts" where
  "ts_wake_check w t old s = ts_at_call w (if old = SIGNALED \<or> old = READY then NoCall else WakeCas t old) s"

definition ts_wake_cas :: "nat \<Rightarrow> 'k \<Rightarrow> task_status \<Rightarrow> 'k ts \<Rightarrow> 'k ts" where
  "ts_wake_cas w t old s =
     (if ts_status s t = old
      then ts_at_call w (if old = WAITING then PushFront t else NoCall)
             (ts_set_status t READY (s\<lparr>ts_asked := (ts_asked s)(t := True)\<rparr>))
      else ts_wake_check w t (ts_status s t) s)"

text \<open>\<^verbatim>\<open>PostSignal\<close>.\<close>

definition ts_signal :: "nat \<Rightarrow> 'k \<Rightarrow> 'k ts \<Rightarrow> 'k ts" where
  "ts_signal w t s =
     ts_at_call w (if ts_status s t = WAITING then PushFront t else NoCall)
       (ts_set_status t SIGNALED (s\<lparr>ts_asked := (ts_asked s)(t := True)\<rparr>))"

text \<open>
  \<^verbatim>\<open>IsEmpty\<close>. \<^verbatim>\<open>PrivSchedulerLock\<close> takes the free mutex or becomes a waiter, and the first waiter wakes the thread
  that sleeps in the scheduler role. Then the workers are looked at one by one, and the queues.
\<close>

definition ts_empty_lock :: "nat \<Rightarrow> 'k ts \<Rightarrow> 'k ts" where
  "ts_empty_lock w s =
     (if ts_lock s = None then ts_at_call w (EmptyWorker 0) (s\<lparr>ts_lock := Some w\<rparr>)
      else ts_at_call w EmptyWait
             (s\<lparr>ts_fsig := (ts_lock_queue s = [] \<or> ts_fsig s), ts_lock_queue := ts_lock_queue s @ [w]\<rparr>))"

definition ts_empty_worker :: "nat \<Rightarrow> nat \<Rightarrow> 'k ts \<Rightarrow> 'k ts" where
  "ts_empty_worker w i s =
     ts_at_call w (if i \<ge> ts_workers s then EmptyFront
                   else if worker_idle (ts_pc s i) then EmptyWorker (i + 1) else EmptyUnlock False) s"

definition ts_empty_front :: "nat \<Rightarrow> 'k ts \<Rightarrow> 'k ts" where
  "ts_empty_front w s = ts_at_call w (if ts_front s = [] then EmptyRest else EmptyUnlock False) s"

definition ts_empty_rest :: "nat \<Rightarrow> 'k ts \<Rightarrow> 'k ts" where
  "ts_empty_rest w s =
     ts_at_call w (EmptyUnlock (heap_count (ts_waiting s) = 0 \<and> ts_pending s = [] \<and> ts_ready_count s = 0)) s"

definition ts_empty_unlock :: "nat \<Rightarrow> bool \<Rightarrow> 'k ts \<Rightarrow> 'k ts" where
  "ts_empty_unlock w r s = ts_at_call w (EmptySend r) (ts_release s)"

definition ts_empty_send :: "nat \<Rightarrow> bool \<Rightarrow> 'k ts \<Rightarrow> 'k ts" where
  "ts_empty_send w r s = ts_at_call w (EmptyReturn r) (s\<lparr>ts_rsig := True\<rparr>)"

definition ts_call_step :: "nat \<Rightarrow> 'k ts \<Rightarrow> 'k ts option" where
  "ts_call_step w s =
     (case ts_call s w of
        PushFront t \<Rightarrow> Some (ts_push_front w t s)
      | SendFront \<Rightarrow> Some (ts_send_front w s)
      | WakeCas t old \<Rightarrow> Some (ts_wake_cas w t old s)
      | EmptyLock \<Rightarrow> Some (ts_empty_lock w s)
      | EmptyWait \<Rightarrow> (if ts_lock s = Some w then Some (ts_at_call w (EmptyWorker 0) s) else None)
      | EmptyWorker i \<Rightarrow> Some (ts_empty_worker w i s)
      | EmptyFront \<Rightarrow> Some (ts_empty_front w s)
      | EmptyRest \<Rightarrow> Some (ts_empty_rest w s)
      | EmptyUnlock r \<Rightarrow> Some (ts_empty_unlock w r s)
      | EmptySend r \<Rightarrow> Some (ts_empty_send w r s)
      | EmptyReturn r \<Rightarrow> Some (ts_at_call w NoCall s)
      | _ \<Rightarrow> None)"

section \<open>Runs\<close>

text \<open>A timed receive may also return because its time is over.\<close>

inductive ts_step :: "'k ts \<Rightarrow> 'k ts \<Rightarrow> bool" where
  worker: "ts_worker_step w s = Some s' \<Longrightarrow> ts_step s s'"
| call: "ts_call_step w s = Some s' \<Longrightarrow> ts_step s s'"
| timeout: "ts_pc s w = SleepTimed d \<Longrightarrow> d \<le> ts_now s \<Longrightarrow> ts_step s (ts_goto w Unlock s)"

text \<open>
  Client code runs in threads of its own and in callbacks. A task belongs to the scheduler from
  \<^verbatim>\<open>Post\<close> until its callback is called: only then may others post it, change its deadline or
  receive its signal (\<^verbatim>\<open>PrivTouch\<close> asserts most of this); \<^verbatim>\<open>PostWakeup\<close> and \<^verbatim>\<open>PostSignal\<close> are free at any time.
\<close>

fun client_place :: "'k ts_place \<Rightarrow> bool" where
  "client_place Outside = True"
| "client_place (Callback t b) = True"
| "client_place _ = False"

fun dispatching :: "'k ts_place \<Rightarrow> 'k option" where
  "dispatching (ExecCas t b) = Some t"
| "dispatching (Run t b) = Some t"
| "dispatching _ = None"

definition ts_free :: "'k ts \<Rightarrow> 'k \<Rightarrow> bool" where
  "ts_free s t = (\<not> ts_posted s t \<and> (\<forall>w. dispatching (ts_pc s w) \<noteq> Some t))"

definition ts_client :: "'k ts \<Rightarrow> nat \<Rightarrow> bool" where
  "ts_client s w = (client_place (ts_pc s w) \<and> ts_call s w = NoCall)"

definition ts_post :: "nat \<Rightarrow> 'k \<Rightarrow> 'k ts \<Rightarrow> 'k ts" where
  "ts_post w t s = ts_at_call w (PushFront t) (s\<lparr>ts_posted := (ts_posted s)(t := True)\<rparr>)"

definition ts_set_deadline :: "'k \<Rightarrow> u64 \<Rightarrow> 'k ts \<Rightarrow> 'k ts" where
  "ts_set_deadline t d s = s\<lparr>ts_deadline := (ts_deadline s)(t := d)\<rparr>"

definition ts_set_delay :: "'k \<Rightarrow> u32 \<Rightarrow> 'k ts \<Rightarrow> 'k ts" where
  "ts_set_delay t d s = ts_set_deadline t (ts_now s + ucast d) s"

definition ts_adjust_deadline :: "'k \<Rightarrow> u64 \<Rightarrow> 'k ts \<Rightarrow> 'k ts" where
  "ts_adjust_deadline t d s = (if d < ts_deadline s t then ts_set_deadline t d s else s)"

definition ts_adjust_delay :: "'k \<Rightarrow> u32 \<Rightarrow> 'k ts \<Rightarrow> 'k ts" where
  "ts_adjust_delay t d s = ts_adjust_deadline t (ts_now s + ucast d) s"

definition ts_set_wait :: "'k \<Rightarrow> 'k ts \<Rightarrow> 'k ts" where
  "ts_set_wait t s = ts_set_deadline t TIME_INFINITE s"

definition ts_receive_signal :: "'k \<Rightarrow> 'k ts \<Rightarrow> bool \<times> 'k ts" where
  "ts_receive_signal t s =
     (if ts_status s t = SIGNALED
      then (True, ts_set_status t PENDING (s\<lparr>ts_asked := (ts_asked s)(t := False)\<rparr>)) else (False, s))"

definition ts_is_signaled :: "'k \<Rightarrow> 'k ts \<Rightarrow> bool" where
  "ts_is_signaled t s = (ts_status s t = SIGNALED)"

inductive ts_env :: "'k ts \<Rightarrow> 'k ts \<Rightarrow> bool" where
  post: "ts_client s w \<Longrightarrow> ts_free s t \<Longrightarrow> ts_env s (ts_post w t s)"
| set_deadline: "ts_free s t \<Longrightarrow> ts_env s (ts_set_deadline t d s)"
| receive_signal: "ts_free s t \<Longrightarrow> ts_receive_signal t s = (r, s') \<Longrightarrow> ts_env s s'"
| wakeup: "ts_client s w \<Longrightarrow> ts_env s (ts_wake_check w t (ts_status s t) s)"
| signal: "ts_client s w \<Longrightarrow> ts_env s (ts_signal w t s)"
| is_empty: "ts_client s w \<Longrightarrow> ts_env s (ts_at_call w EmptyLock s)"
| callback_done: "ts_pc s w = Callback t b \<Longrightarrow> ts_call s w = NoCall \<Longrightarrow> ts_env s (ts_callback_done w b s)"
| clock: "ts_now s \<le> x \<Longrightarrow> ts_env s (s\<lparr>ts_now := x\<rparr>)"

inductive ts_reachable :: "'k ts \<Rightarrow> bool" where
  start: "0 < sub \<Longrightarrow> 0 < n \<Longrightarrow> ts_reachable (ts_started sub n)"
| step: "ts_reachable s \<Longrightarrow> ts_step s s' \<Longrightarrow> ts_reachable s'"
| env: "ts_reachable s \<Longrightarrow> ts_env s s' \<Longrightarrow> ts_reachable s'"

text \<open>All ways to change a deadline are the one of the step relation.\<close>

lemma set_deadline_cases:
  "ts_set_delay t d s = ts_set_deadline t (ts_now s + ucast d) s"
  "ts_adjust_deadline t d' s = ts_set_deadline t (min d' (ts_deadline s t)) s"
  "ts_adjust_delay t d s = ts_set_deadline t (min (ts_now s + ucast d) (ts_deadline s t)) s"
  "ts_set_wait t s = ts_set_deadline t TIME_INFINITE s"
  by (simp_all add: ts_set_delay_def ts_adjust_deadline_def ts_adjust_delay_def ts_set_wait_def ts_set_deadline_def
      min_def not_le fun_upd_idem)
end
