(* ===== verification/Scheduler_Invariant.thy ===== *)
theory Scheduler_Invariant
  imports Task_Scheduler
begin

text \<open>
  The invariant of the scheduler, in groups: who has the scheduler role, where the threads are, where every
  task is, what the waiting queue holds, which tasks are awake, what the signals promise, and why a
  task may run. A step of a worker is first brought into the form \<open>ts_move\<close>, in which the assertions
  are discharged and the heap is described by its elements; every group is then preserved move by move.
\<close>

section \<open>Classes of places\<close>

fun role_place :: "'k ts_place \<Rightarrow> bool" where
  "role_place (WaitTop b) = True" | "role_place (WaitCas t b) = True" | "role_place PopFront = True"
| "role_place (Pend b) = True" | "role_place (PendWaitCas t b) = True" | "role_place (PendReadyCas t b) = True"
| "role_place (PendPush t b) = True" | "role_place (PendAdd t b) = True" | "role_place Flush = True"
| "role_place CheckIdle = True" | "role_place CheckDeadline = True" | "role_place (SleepTimed d) = True"
| "role_place SleepBlocking = True" | "role_place Unlock = True" | "role_place _ = False"

fun role_call :: "'k ts_in_call \<Rightarrow> bool" where
  "role_call (EmptyWorker i) = True" | "role_call EmptyFront = True" | "role_call EmptyRest = True"
| "role_call (EmptyUnlock r) = True" | "role_call _ = False"

text \<open>The task a thread holds between two queues.\<close>

fun place_holds :: "'k ts_place \<Rightarrow> 'k option" where
  "place_holds (PendWaitCas t b) = Some t" | "place_holds (PendReadyCas t b) = Some t"
| "place_holds (PendAdd t b) = Some t" | "place_holds (Counted t b) = Some t" | "place_holds (Clear t b) = Some t"
| "place_holds (ExecCas t b) = Some t" | "place_holds (Run t b) = Some t" | "place_holds _ = None"

fun call_holds :: "'k ts_in_call \<Rightarrow> 'k option" where
  "call_holds (PushFront t) = Some t" | "call_holds _ = None"

text \<open>A task on its way out of the waiting queue or into it, one on its way to its callback, one that must be awake.\<close>

fun in_limbo :: "'k ts_place \<Rightarrow> 'k option" where
  "in_limbo (WaitCas t b) = Some t" | "in_limbo (PendPush t b) = Some t" | "in_limbo _ = None"

fun popped_at :: "'k ts_place \<Rightarrow> 'k option" where
  "popped_at (Counted t b) = Some t" | "popped_at (Clear t b) = Some t" | "popped_at _ = None"

fun awake_at :: "'k ts_place \<Rightarrow> 'k option" where
  "awake_at (PendAdd t b) = Some t" | "awake_at (Counted t b) = Some t" | "awake_at (Clear t b) = Some t"
| "awake_at (ExecCas t b) = Some t" | "awake_at _ = None"

text \<open>Places after the front queue was emptied; places where tasks are being collected; sleep.\<close>

fun front_seen :: "'k ts_place \<Rightarrow> bool" where
  "front_seen (Pend b) = True" | "front_seen (PendWaitCas t b) = True" | "front_seen (PendReadyCas t b) = True"
| "front_seen (PendPush t b) = True" | "front_seen (PendAdd t b) = True" | "front_seen Flush = True"
| "front_seen CheckIdle = True" | "front_seen CheckDeadline = True" | "front_seen (SleepTimed d) = True"
| "front_seen SleepBlocking = True" | "front_seen _ = False"

fun collecting :: "'k ts_place \<Rightarrow> bool" where
  "collecting (WaitTop b) = True" | "collecting (WaitCas t b) = True" | "collecting PopFront = True"
| "collecting (Pend b) = True" | "collecting (PendWaitCas t b) = True" | "collecting (PendReadyCas t b) = True"
| "collecting (PendPush t b) = True" | "collecting (PendAdd t b) = True" | "collecting Flush = True"
| "collecting _ = False"

fun sleeping :: "'k ts_place \<Rightarrow> bool" where
  "sleeping CheckDeadline = True" | "sleeping (SleepTimed d) = True" | "sleeping SleepBlocking = True"
| "sleeping _ = False"

text \<open>A worker or a call that will elect a new thread for the scheduler role.\<close>

fun elects_place :: "'k ts_place \<Rightarrow> bool" where
  "elects_place Starting = True" | "elects_place TryLock = True" | "elects_place SendReady = True"
| "elects_place _ = False"

fun elects_call :: "'k ts_in_call \<Rightarrow> bool" where
  "elects_call (EmptySend r) = True" | "elects_call _ = False"

text \<open>A task found expired, or not expired, whose status is about to be exchanged.\<close>

fun late_at :: "'k ts_place \<Rightarrow> 'k option" where
  "late_at (WaitCas t b) = Some t" | "late_at (PendReadyCas t b) = Some t" | "late_at _ = None"

fun early_at :: "'k ts_place \<Rightarrow> 'k option" where
  "early_at (PendWaitCas t b) = Some t" | "early_at _ = None"

fun batch_at :: "'k ts_place \<Rightarrow> nat option" where
  "batch_at (Exec b) = Some b" | "batch_at (Counted t b) = Some b" | "batch_at (Clear t b) = Some b"
| "batch_at (ExecCas t b) = Some b" | "batch_at (Run t b) = Some b" | "batch_at (Callback t b) = Some b"
| "batch_at _ = None"

section \<open>The groups of the invariant\<close>

abbreviation ts_sleepers :: "'k ts \<Rightarrow> 'k set" where
  "ts_sleepers s \<equiv> set (hp_data (ts_waiting s))"

abbreviation ts_queued :: "'k ts \<Rightarrow> 'k list" where
  "ts_queued s \<equiv> ts_front s @ ts_pending s @ ts_collected s @ ts_ready s"

definition is_awake :: "'k ts \<Rightarrow> 'k \<Rightarrow> bool" where
  "is_awake s t = (ts_status s t = READY \<or> ts_status s t = SIGNALED)"

definition has_role :: "'k ts \<Rightarrow> nat \<Rightarrow> bool" where
  "has_role s w = (role_place (ts_pc s w) \<or> role_call (ts_call s w) \<or>
     ts_call s w = EmptyWait \<and> w \<notin> set (ts_lock_queue s))"

definition role_inv :: "'k ts \<Rightarrow> bool" where
  "role_inv s = ((\<forall>w. has_role s w \<longleftrightarrow> ts_lock s = Some w) \<and> distinct (ts_lock_queue s) \<and>
     (\<forall>w. w \<in> set (ts_lock_queue s) \<longrightarrow> ts_call s w = EmptyWait) \<and> (ts_lock s = None \<longrightarrow> ts_lock_queue s = []))"

definition place_inv :: "'k ts \<Rightarrow> bool" where
  "place_inv s = (0 < ts_workers s \<and> 0 < ts_exec_batch s \<and>
     (\<forall>w. (ts_call s w \<noteq> NoCall \<longrightarrow> client_place (ts_pc s w)) \<and> (w < ts_workers s \<longleftrightarrow> ts_pc s w \<noteq> Outside) \<and>
        ts_pc s w \<noteq> Aborted \<and> ts_call s w \<noteq> AbortedCall \<and>
        (\<forall>b. batch_at (ts_pc s w) = Some b \<longrightarrow> b < ts_exec_batch s)))"

definition held_by :: "'k ts \<Rightarrow> nat \<Rightarrow> 'k option" where
  "held_by s w = (case place_holds (ts_pc s w) of Some t \<Rightarrow> Some t | None \<Rightarrow> call_holds (ts_call s w))"

definition on_the_way :: "'k ts \<Rightarrow> 'k \<Rightarrow> bool" where
  "on_the_way s t = (t \<in> set (ts_queued s) \<or> (\<exists>w. held_by s w = Some t \<and> dispatching (ts_pc s w) = None))"

definition token_inv :: "'k ts \<Rightarrow> bool" where
  "token_inv s = (distinct (ts_queued s) \<and>
     (\<forall>v w t. held_by s v = Some t \<longrightarrow> held_by s w = Some t \<longrightarrow> v = w) \<and>
     (\<forall>w t. held_by s w = Some t \<longrightarrow> t \<notin> set (ts_queued s)) \<and>
     (\<forall>t. on_the_way s t \<longleftrightarrow> ts_posted s t \<and> ts_status s t \<noteq> WAITING) \<and>
     (\<forall>w t. dispatching (ts_pc s w) = Some t \<longrightarrow> \<not> ts_posted s t) \<and>
     (\<forall>t. \<not> ts_posted s t \<longrightarrow> ts_status s t \<noteq> WAITING))"

definition may_sleep :: "'k ts \<Rightarrow> 'k \<Rightarrow> bool" where
  "may_sleep s t = (ts_posted s t \<and> ts_status s t \<noteq> PENDING \<and> ts_deadline s t \<noteq> TIME_INFINITE \<and>
     t \<notin> set (ts_collected s) \<and> t \<notin> set (ts_ready s) \<and> (\<forall>w. popped_at (ts_pc s w) \<noteq> Some t))"

definition heap_inv_ts :: "'k ts \<Rightarrow> bool" where
  "heap_inv_ts s = (heap_ok (ts_heap s) (ts_waiting s) \<and> (\<forall>t \<in> ts_sleepers s. may_sleep s t) \<and>
     (\<forall>w t. in_limbo (ts_pc s w) = Some t \<longrightarrow> t \<notin> ts_sleepers s \<and> may_sleep s t) \<and>
     (\<forall>t. ts_status s t = WAITING \<longrightarrow> ts_deadline s t = TIME_INFINITE \<or> t \<in> ts_sleepers s \<or>
        (\<exists>w. in_limbo (ts_pc s w) = Some t)))"

definition awake_inv :: "'k ts \<Rightarrow> bool" where
  "awake_inv s = ((\<forall>t. t \<in> set (ts_collected s) \<longrightarrow> is_awake s t) \<and> (\<forall>t. t \<in> set (ts_ready s) \<longrightarrow> is_awake s t) \<and>
     (\<forall>w t. awake_at (ts_pc s w) = Some t \<longrightarrow> is_awake s t))"

definition taken_by :: "'k ts \<Rightarrow> nat \<Rightarrow> nat" where
  "taken_by s w = (case ts_pc s w of Counted t b \<Rightarrow> 1 | _ \<Rightarrow> 0)"

definition signal_inv :: "'k ts \<Rightarrow> bool" where
  "signal_inv s =
    ((ts_lock s = None \<longrightarrow> ts_rsig s \<or> (\<exists>w. elects_place (ts_pc s w) \<or> elects_call (ts_call s w))) \<and>
     (\<forall>w. front_seen (ts_pc s w) \<and> ts_front s \<noteq> [] \<longrightarrow> ts_fsig s \<or> (\<exists>v. ts_call s v = SendFront)) \<and>
     (\<forall>w. role_place (ts_pc s w) \<and> ts_pc s w \<noteq> Unlock \<and> ts_lock_queue s \<noteq> [] \<longrightarrow> ts_fsig s) \<and>
     (ts_collected s \<noteq> [] \<longrightarrow> (\<exists>w. collecting (ts_pc s w))) \<and>
     (\<forall>w. sleeping (ts_pc s w) \<longrightarrow> ts_pending s = [] \<and> ts_ready s = []) \<and>
     (\<forall>w. ts_pc s w = CheckDeadline \<longrightarrow> ts_sleepers s \<noteq> {}) \<and>
     (\<forall>w. ts_pc s w = SleepBlocking \<longrightarrow> ts_sleepers s = {}) \<and>
     (\<forall>w d. ts_pc s w = SleepTimed d \<longrightarrow> (\<forall>t \<in> ts_sleepers s. d \<le> ts_deadline s t)) \<and>
     ts_ready_count s = length (ts_ready s) + (\<Sum>w<ts_workers s. taken_by s w))"

definition to_run :: "'k ts \<Rightarrow> 'k \<Rightarrow> bool" where
  "to_run s t = (t \<in> set (ts_collected s) \<or> t \<in> set (ts_ready s) \<or> (\<exists>w. awake_at (ts_pc s w) = Some t))"

definition reason_inv :: "'k ts \<Rightarrow> bool" where
  "reason_inv s =
    (ts_timestamp s \<le> ts_now s \<and>
     (\<forall>t. ts_status s t = SIGNALED \<longrightarrow> ts_asked s t) \<and>
     (\<forall>t. ts_status s t = READY \<longrightarrow> ts_asked s t \<or> ts_expired s t \<and> to_run s t) \<and>
     (\<forall>t. to_run s t \<and> ts_expired s t \<longrightarrow> ts_deadline s t \<le> ts_now s) \<and>
     (\<forall>w t. late_at (ts_pc s w) = Some t \<longrightarrow> ts_expired s t \<and> ts_deadline s t \<le> ts_now s) \<and>
     (\<forall>w t. early_at (ts_pc s w) = Some t \<longrightarrow> \<not> ts_expired s t))"

definition ts_inv :: "'k ts \<Rightarrow> bool" where
  "ts_inv s = (role_inv s \<and> place_inv s \<and> token_inv s \<and> heap_inv_ts s \<and> awake_inv s \<and> signal_inv s \<and> reason_inv s)"

section \<open>Moves of the workers\<close>

inductive ts_move :: "nat \<Rightarrow> 'k ts \<Rightarrow> 'k ts \<Rightarrow> bool" for w s where
  starting: "ts_pc s w = Starting \<Longrightarrow> ts_move w s (ts_goto w TryLock s)"
| lock_ok: "ts_pc s w = TryLock \<Longrightarrow> ts_lock s = None \<Longrightarrow> ts_collected s = [] \<Longrightarrow>
    ts_move w s (ts_goto w (WaitTop 0) (s\<lparr>ts_lock := Some w, ts_timestamp := ts_now s, ts_collected := []\<rparr>))"
| lock_no: "ts_pc s w = TryLock \<Longrightarrow> ts_lock s \<noteq> None \<Longrightarrow> ts_move w s (ts_goto w (Exec 0) s)"
| wait_done: "ts_pc s w = WaitTop b \<Longrightarrow> ts_move w s (ts_goto w PopFront s)"
| wait_top: "ts_pc s w = WaitTop b \<Longrightarrow> t \<in> ts_sleepers s \<Longrightarrow> ts_deadline s t \<le> ts_timestamp s \<Longrightarrow>
    set (hp_data q) = ts_sleepers s - {t} \<Longrightarrow> heap_ok (ts_heap s) q \<Longrightarrow>
    ts_move w s (ts_goto w (WaitCas t (b + 1)) (s\<lparr>ts_waiting := q, ts_expired := (ts_expired s)(t := True)\<rparr>))"
| wait_ready: "ts_pc s w = WaitCas t b \<Longrightarrow> ts_status s t = WAITING \<Longrightarrow>
    ts_move w s (ts_goto w (WaitTop b) (ts_set_status t READY (s\<lparr>ts_collected := ts_collected s @ [t]\<rparr>)))"
| wait_skip: "ts_pc s w = WaitCas t b \<Longrightarrow> is_awake s t \<Longrightarrow> ts_move w s (ts_goto w (WaitTop b) s)"
| pop_front: "ts_pc s w = PopFront \<Longrightarrow>
    ts_move w s (ts_goto w (Pend 0) (s\<lparr>ts_pending := ts_pending s @ ts_front s, ts_front := []\<rparr>))"
| pend_done: "ts_pc s w = Pend b \<Longrightarrow> ts_move w s (ts_goto w Flush s)"
| pend_wait: "ts_pc s w = Pend b \<Longrightarrow> ts_pending s = t # ps \<Longrightarrow>
    ts_move w s (ts_goto w (PendWaitCas t (b + 1)) (s\<lparr>ts_pending := ps, ts_expired := (ts_expired s)(t := False)\<rparr>))"
| pend_now: "ts_pc s w = Pend b \<Longrightarrow> ts_pending s = t # ps \<Longrightarrow> ts_deadline s t \<le> ts_timestamp s \<Longrightarrow>
    ts_move w s (ts_goto w (PendReadyCas t (b + 1)) (s\<lparr>ts_pending := ps, ts_expired := (ts_expired s)(t := True)\<rparr>))"
| to_sleep: "ts_pc s w = PendWaitCas t b \<Longrightarrow> ts_status s t = PENDING \<Longrightarrow> ts_deadline s t \<noteq> TIME_INFINITE \<Longrightarrow>
    ts_move w s (ts_goto w (PendPush t b) (ts_set_status t WAITING s))"
| to_sleep_forever: "ts_pc s w = PendWaitCas t b \<Longrightarrow> ts_status s t = PENDING \<Longrightarrow> ts_deadline s t = TIME_INFINITE \<Longrightarrow>
    ts_move w s (ts_goto w (Pend b) (ts_set_status t WAITING s))"
| no_sleep: "ts_pc s w = PendWaitCas t b \<or> ts_pc s w = PendReadyCas t b \<Longrightarrow> is_awake s t \<Longrightarrow>
    ts_move w s (ts_goto w (PendAdd t b) s)"
| to_ready: "ts_pc s w = PendReadyCas t b \<Longrightarrow> ts_status s t = PENDING \<Longrightarrow>
    ts_move w s (ts_goto w (PendAdd t b) (ts_set_status t READY s))"
| push: "ts_pc s w = PendPush t b \<Longrightarrow> set (hp_data q) = insert t (ts_sleepers s) \<Longrightarrow> heap_ok (ts_heap s) q \<Longrightarrow>
    ts_move w s (ts_goto w (Pend b) (s\<lparr>ts_waiting := q\<rparr>))"
| add: "ts_pc s w = PendAdd t b \<Longrightarrow> set (hp_data q) = ts_sleepers s - {t} \<Longrightarrow> heap_ok (ts_heap s) q \<Longrightarrow>
    ts_move w s (ts_goto w (Pend b) (s\<lparr>ts_waiting := q, ts_collected := ts_collected s @ [t]\<rparr>))"
| flush_done: "ts_pc s w = Flush \<Longrightarrow> ts_collected s = [] \<Longrightarrow> ts_move w s (ts_goto w CheckIdle s)"
| flush: "ts_pc s w = Flush \<Longrightarrow> ts_collected s = t # ts \<Longrightarrow>
    ts_move w s (s\<lparr>ts_collected := ts, ts_ready := ts_ready s @ [t], ts_ready_count := ts_ready_count s + 1\<rparr>)"
| idle_timed: "ts_pc s w = CheckIdle \<Longrightarrow> ts_ready_count s = 0 \<Longrightarrow> ts_pending s = [] \<Longrightarrow> ts_sleepers s \<noteq> {} \<Longrightarrow>
    ts_move w s (ts_goto w CheckDeadline s)"
| idle_block: "ts_pc s w = CheckIdle \<Longrightarrow> ts_ready_count s = 0 \<Longrightarrow> ts_pending s = [] \<Longrightarrow> ts_sleepers s = {} \<Longrightarrow>
    ts_move w s (ts_goto w SleepBlocking s)"
| not_idle: "ts_pc s w = CheckIdle \<Longrightarrow> ts_move w s (ts_goto w Unlock s)"
| sleep_timed: "ts_pc s w = CheckDeadline \<Longrightarrow> \<forall>u \<in> ts_sleepers s. d \<le> ts_deadline s u \<Longrightarrow>
    ts_move w s (ts_goto w (SleepTimed d) (s\<lparr>ts_timestamp := ts_now s\<rparr>))"
| no_timed: "ts_pc s w = CheckDeadline \<Longrightarrow> ts_move w s (ts_goto w Unlock (s\<lparr>ts_timestamp := ts_now s\<rparr>))"
| receive: "ts_pc s w = SleepTimed d \<or> ts_pc s w = SleepBlocking \<Longrightarrow> ts_fsig s \<Longrightarrow>
    ts_move w s (ts_goto w Unlock (s\<lparr>ts_fsig := False\<rparr>))"
| timeout: "ts_pc s w = SleepTimed d \<Longrightarrow> ts_move w s (ts_goto w Unlock s)"
| unlock: "ts_pc s w = Unlock \<Longrightarrow> ts_move w s (ts_unlock w s)"
| send_ready: "ts_pc s w = SendReady \<Longrightarrow> ts_move w s (ts_goto w (Exec 0) (s\<lparr>ts_rsig := True\<rparr>))"
| exec_none: "ts_pc s w = Exec b \<Longrightarrow> ts_ready s = [] \<Longrightarrow> ts_move w s (ts_goto w WaitReady s)"
| exec: "ts_pc s w = Exec b \<Longrightarrow> ts_ready s = t # ts \<Longrightarrow> ts_move w s (ts_goto w (Counted t b) (s\<lparr>ts_ready := ts\<rparr>))"
| counted: "ts_pc s w = Counted t b \<Longrightarrow>
    ts_move w s (ts_goto w (Clear t b) (s\<lparr>ts_ready_count := ts_ready_count s - 1\<rparr>))"
| clear: "ts_pc s w = Clear t b \<Longrightarrow> ts_move w s (ts_goto w (ExecCas t b) (s\<lparr>ts_posted := (ts_posted s)(t := False)\<rparr>))"
| exec_ready: "ts_pc s w = ExecCas t b \<Longrightarrow> ts_status s t = READY \<Longrightarrow>
    ts_move w s (ts_goto w (Run t b) (ts_set_status t PENDING (s\<lparr>ts_asked := (ts_asked s)(t := False)\<rparr>)))"
| exec_signaled: "ts_pc s w = ExecCas t b \<Longrightarrow> ts_status s t = SIGNALED \<Longrightarrow> ts_move w s (ts_goto w (Run t b) s)"
| run: "ts_pc s w = Run t b \<Longrightarrow> ts_move w s (ts_goto w (Callback t b) (s\<lparr>ts_deadline := (ts_deadline s)(t := 0)\<rparr>))"
| wait_for_ready: "ts_pc s w = WaitReady \<Longrightarrow> ts_rsig s \<Longrightarrow> ts_move w s (ts_goto w Starting (s\<lparr>ts_rsig := False\<rparr>))"

lemma ts_invD:
  assumes "ts_inv s"
  shows "role_inv s" "place_inv s" "token_inv s" "heap_inv_ts s" "awake_inv s" "signal_inv s" "reason_inv s"
  using assms by (auto simp: ts_inv_def)

lemma ts_heap_sel [simp]:
  "hm_above (ts_heap s) a b \<longleftrightarrow> ts_deadline s a \<le> ts_deadline s b" "hm_index (ts_heap s)"
  by (auto simp: ts_heap_def)

lemmas ts_heap_index = dheap_index[of "ts_deadline s" for s :: "'k ts", folded ts_heap_def]

lemmas ts_heap_distinct = dheap_distinct[of "ts_deadline s" for s :: "'k ts", folded ts_heap_def]

lemmas ts_heap_top = dheap_top[of "ts_deadline s" for s :: "'k ts", folded ts_heap_def]

lemmas ts_heap_remove_top = dheap_remove_top[of "ts_deadline s" for s :: "'k ts", folded ts_heap_def]

lemmas ts_heap_remove = dheap_remove[of "ts_deadline s" for s :: "'k ts", folded ts_heap_def]

lemmas ts_heap_push = dheap_push[of "ts_deadline s" for s :: "'k ts", folded ts_heap_def]

lemmas ts_heap_cong = dheap_cong[of "ts_deadline s" _ "ts_deadline s'" for s s' :: "'k ts", folded ts_heap_def]

lemma collecting_role: "collecting p \<Longrightarrow> role_place p"
  by (cases p) auto

lemma nothing_collected: "role_inv s \<Longrightarrow> signal_inv s \<Longrightarrow> ts_lock s = None \<Longrightarrow> ts_collected s = []"
  using collecting_role by (fastforce simp: role_inv_def signal_inv_def has_role_def)

lemma ts_move_worker:
  assumes I: "ts_inv s" and st: "ts_worker_step w s = Some s'"
  shows "ts_move w s s'"
proof -
  note H = ts_invD[OF I]
  have hp: "heap_ok (ts_heap s) (ts_waiting s)" using H(4) by (simp add: heap_inv_ts_def)
  have limbo: "t \<notin> ts_sleepers s \<and> may_sleep s t" if "in_limbo (ts_pc s w) = Some t" for t
    using H(4) that by (auto simp: heap_inv_ts_def)
  have asleep: "may_sleep s t" if "t \<in> ts_sleepers s" for t using H(4) that by (auto simp: heap_inv_ts_def)
  have awake: "is_awake s t" if "awake_at (ts_pc s w) = Some t" for t
    using H(5) that by (auto simp: awake_inv_def)
  have tok: "ts_status s t \<noteq> WAITING \<and> ts_posted s t" if "held_by s w = Some t" "dispatching (ts_pc s w) = None" for t
    using H(3) that by (auto simp: token_inv_def on_the_way_def)
  have disp: "\<not> ts_posted s t" if "dispatching (ts_pc s w) = Some t" for t
    using H(3) that by (auto simp: token_inv_def)
  have batch: "b < ts_exec_batch s" if "batch_at (ts_pc s w) = Some b" for b
    using H(2) that by (auto simp: place_inv_def)
  show ?thesis
  proof (cases "ts_pc s w")
    case TryLock
    then show ?thesis
      using st nothing_collected[OF H(1,6)] ts_move.lock_ok[of s w] ts_move.lock_no[of s w]
      by (auto simp: ts_worker_step_def ts_try_lock_def)
  next
    case (WaitTop b)
    show ?thesis
    proof (cases "heap_get_top (ts_waiting s)")
      case None
      then show ?thesis using st WaitTop ts_move.wait_done[of s w b] by (auto simp: ts_worker_step_def ts_wait_top_def)
    next
      case (Some t)
      from ts_heap_remove_top[OF hp Some] obtain q where q: "heap_remove_top (ts_heap s) (ts_waiting s) = Some (True, q)"
        "heap_ok (ts_heap s) q" "set (hp_data q) = ts_sleepers s - {t}" .
      show ?thesis
        using st WaitTop Some q ts_heap_top(2)[OF hp Some] ts_move.wait_top[of s w b t q] ts_move.wait_done[of s w b]
        by (auto simp: ts_worker_step_def ts_wait_top_def split: if_splits)
    qed
  next
    case (WaitCas t b)
    then have "ts_status s t \<noteq> PENDING" using limbo[of t] by (simp add: may_sleep_def)
    with st WaitCas show ?thesis
      using ts_move.wait_ready[of s w t b] ts_move.wait_skip[of s w t b]
      by (auto simp: ts_worker_step_def ts_wait_cas_def is_awake_def split: task_status.splits)
  next
    case (Pend b)
    then show ?thesis
      using st ts_move.pend_done[of s w b] ts_move.pend_wait[of s w b] ts_move.pend_now[of s w b]
      by (auto simp: ts_worker_step_def ts_pend_def split: list.splits if_splits)
  next
    case (PendWaitCas t b)
    then have "ts_status s t \<noteq> WAITING" using tok[of t] by (simp add: held_by_def)
    moreover have "hp_idx (ts_waiting s) t = - 1" if "ts_status s t = PENDING"
      using ts_heap_index[OF hp, of t] asleep[of t] that by (auto simp: may_sleep_def)
    ultimately show ?thesis
      using st PendWaitCas ts_move.to_sleep[of s w t b] ts_move.to_sleep_forever[of s w t b] ts_move.no_sleep[of s w t b]
      by (auto simp: ts_worker_step_def ts_pend_wait_cas_def is_awake_def split: task_status.splits if_splits)
  next
    case (PendReadyCas t b)
    then have "ts_status s t \<noteq> WAITING" using tok[of t] by (simp add: held_by_def)
    then show ?thesis
      using st PendReadyCas ts_move.to_ready[of s w t b] ts_move.no_sleep[of s w t b]
      by (auto simp: ts_worker_step_def ts_pend_ready_cas_def is_awake_def split: task_status.splits if_splits)
  next
    case (PendPush t b)
    then show ?thesis
      using st ts_heap_push[OF hp, of t] limbo[of t] ts_move.push[of s w t b]
      by (auto simp: ts_worker_step_def ts_pend_push_def)
  next
    case (PendAdd t b)
    show ?thesis
    proof (cases "t \<in> ts_sleepers s")
      case True
      from ts_heap_remove[OF hp True] obtain q where "heap_remove (ts_heap s) t (ts_waiting s) = Some q"
        "heap_ok (ts_heap s) q" "set (hp_data q) = ts_sleepers s - {t}" .
      then show ?thesis
        using st PendAdd ts_heap_index[OF hp, of t] True ts_move.add[of s w t b]
        by (auto simp: ts_worker_step_def ts_pend_add_def)
    next
      case False
      then show ?thesis
        using st PendAdd ts_heap_index[OF hp, of t] hp ts_move.add[of s w t b "ts_waiting s"]
        by (auto simp: ts_worker_step_def ts_pend_add_def)
    qed
  next
    case Flush
    then show ?thesis using st ts_move.flush[of s w] ts_move.flush_done[of s w]
      by (auto simp: ts_worker_step_def ts_flush_def split: list.splits)
  next
    case CheckIdle
    then show ?thesis using st ts_move.idle_timed[of s w] ts_move.idle_block[of s w] ts_move.not_idle[of s w]
      by (auto simp: ts_worker_step_def ts_check_idle_def heap_count_def split: if_splits)
  next
    case CheckDeadline
    then have "ts_sleepers s \<noteq> {}" using H(6) by (auto simp: signal_inv_def)
    then obtain t where t: "heap_get_top (ts_waiting s) = Some t" using ts_heap_top(1)[OF hp] by (cases "heap_get_top (ts_waiting s)") auto
    show ?thesis
      using st CheckDeadline t ts_heap_top(2)[OF hp t] ts_move.sleep_timed[of s w "ts_deadline s t"] ts_move.no_timed[of s w]
      by (auto simp: ts_worker_step_def ts_check_deadline_def split: if_splits)
  next
    case (Exec b)
    then show ?thesis using st batch[of b] ts_move.exec[of s w b] ts_move.exec_none[of s w b]
      by (auto simp: ts_worker_step_def ts_exec_def ts_batch_done_def split: list.splits)
  next
    case (Counted t b)
    then show ?thesis using st ts_move.counted[of s w t b] by (auto simp: ts_worker_step_def ts_counted_def)
  next
    case (Clear t b)
    then show ?thesis using st tok[of t] ts_move.clear[of s w t b]
      by (auto simp: ts_worker_step_def ts_clear_def held_by_def)
  next
    case (ExecCas t b)
    then show ?thesis using st awake[of t] ts_move.exec_ready[of s w t b] ts_move.exec_signaled[of s w t b]
      by (auto simp: ts_worker_step_def ts_exec_cas_def is_awake_def split: task_status.splits)
  next
    case (Run t b)
    then show ?thesis using st disp[of t] ts_move.run[of s w t b]
      by (auto simp: ts_worker_step_def ts_run_def)
  qed (use st in \<open>auto simp: ts_worker_step_def ts_pop_front_def ts_receive_front_def ts_send_ready_def
        ts_wait_ready_def split: if_splits intro: ts_move.intros\<close>)
qed

end
