(* ===== verification/Scheduler_Moves.thy ===== *)
theory Scheduler_Moves
  imports Scheduler_Invariant
begin

text \<open>
  Every move of a worker keeps the invariant of the scheduler, group by group. Most moves change the place
  of one thread and little else; each group has a lemma for those (\<open>place_goto\<close>, \<open>role_goto\<close>, \<open>token_same\<close>,
  \<open>heap_goto\<close>), and the moves that hand a task from one place to another are instances of \<open>token_upd\<close>.
\<close>

section \<open>Places, the scheduler role, and where the tasks are\<close>

lemmas move_defs = ts_goto_def ts_set_status_def ts_unlock_def ts_release_def ts_at_call_def

lemma place_invD:
  assumes "place_inv s"
  shows "ts_call s w \<noteq> NoCall \<Longrightarrow> client_place (ts_pc s w)" "w < ts_workers s \<longleftrightarrow> ts_pc s w \<noteq> Outside"
    "ts_pc s w \<noteq> Aborted" "ts_call s w \<noteq> AbortedCall" "batch_at (ts_pc s w) = Some b \<Longrightarrow> b < ts_exec_batch s"
    "0 < ts_workers s" "0 < ts_exec_batch s"
  using assms by (auto simp: place_inv_def)

lemma place_goto:
  assumes "place_inv s" and "\<not> client_place (ts_pc s w)" "p \<noteq> Outside" "p \<noteq> Aborted"
    "batch_at p \<noteq> None \<longrightarrow> batch_at p = batch_at (ts_pc s w) \<or> batch_at p = Some 0"
    and "ts_pc s' = (ts_pc s)(w := p)" "ts_call s' = ts_call s" "ts_workers s' = ts_workers s" "ts_exec_batch s' = ts_exec_batch s"
  shows "place_inv s'"
proof -
  have "b < ts_exec_batch s" if "batch_at p = Some b" for b
    using place_invD(5,7)[OF assms(1)] assms(5) that by (metis option.distinct(1) option.inject)
  moreover have "ts_call s w = NoCall" "ts_pc s w \<noteq> Outside"
    using place_invD(1)[OF assms(1), of w] assms(2) by auto
  ultimately show ?thesis using assms(1,3,4,6-) by (auto simp: place_inv_def)
qed

lemma place_move:
  assumes I: "place_inv s" and m: "ts_move w s s'"
  shows "place_inv s'"
  using m
proof cases
  case flush
  with I show ?thesis by (auto simp: place_inv_def)
next
  case no_sleep
  then show ?thesis by (intro place_goto[OF I, of w]) (auto simp: move_defs)
next
  case receive
  then show ?thesis by (intro place_goto[OF I, of w]) (auto simp: move_defs)
next
  case unlock
  then show ?thesis by (intro place_goto[OF I, of w SendReady]) (auto simp: move_defs split: list.splits)
qed (rule place_goto[OF I, of w]; force simp: move_defs)+

lemma role_goto:
  assumes "role_inv s" and "role_place p = role_place (ts_pc s w)"
    and "ts_pc s' = (ts_pc s)(w := p)" "ts_lock s' = ts_lock s" "ts_lock_queue s' = ts_lock_queue s" "ts_call s' = ts_call s"
  shows "role_inv s'"
  using assms by (auto simp: role_inv_def has_role_def)

lemma role_move:
  assumes I: "role_inv s" and P: "place_inv s" and m: "ts_move w s s'"
  shows "role_inv s'"
  using m
proof cases
  case lock_ok
  then have "ts_call s w = NoCall" using place_invD(1)[OF P, of w] by auto
  with I lock_ok show ?thesis by (auto simp: role_inv_def has_role_def move_defs)
next
  case unlock
  then have c: "ts_call s w = NoCall" using place_invD(1)[OF P, of w] by auto
  have "ts_lock s = Some w" using I unlock by (auto simp: role_inv_def has_role_def)
  with I unlock c show ?thesis by (auto simp: role_inv_def has_role_def move_defs split: list.splits)
next
  case flush
  with I show ?thesis by (auto simp: role_inv_def has_role_def)
next
  case no_sleep
  then show ?thesis by (intro role_goto[OF I, of _ w]) (auto simp: move_defs)
next
  case receive
  then show ?thesis by (intro role_goto[OF I, of _ w]) (auto simp: move_defs)
qed (rule role_goto[OF I, of _ w]; force simp: move_defs)+
lemma held_goto:
  assumes "ts_pc s' = (ts_pc s)(w := p)" and "ts_call s' = ts_call s" and "ts_call s w = NoCall"
  shows "held_by s' v = (if v = w then place_holds p else held_by s v)"
  using assms by (auto simp: held_by_def split: option.splits)

lemma held_own: "ts_call s w = NoCall \<Longrightarrow> held_by s w = place_holds (ts_pc s w)"
  by (auto simp: held_by_def split: option.splits)


text \<open>The tokens over plain sets and functions: queued tasks, held tasks, dispatched ones, posted and waiting ones.\<close>

definition tok_inv :: "'k set \<Rightarrow> ('w \<Rightarrow> 'k option) \<Rightarrow> ('w \<Rightarrow> 'k option) \<Rightarrow> ('k \<Rightarrow> bool) \<Rightarrow> ('k \<Rightarrow> bool) \<Rightarrow> bool" where
  "tok_inv Q H D P W =
     ((\<forall>v w t. H v = Some t \<longrightarrow> H w = Some t \<longrightarrow> v = w) \<and> (\<forall>w t. H w = Some t \<longrightarrow> t \<notin> Q) \<and>
      (\<forall>t. t \<in> Q \<longrightarrow> P t \<and> \<not> W t) \<and> (\<forall>w t. H w = Some t \<longrightarrow> D w = None \<longrightarrow> P t \<and> \<not> W t) \<and>
      (\<forall>t. P t \<longrightarrow> W t \<or> t \<in> Q \<or> (\<exists>w. H w = Some t \<and> D w = None)) \<and>
      (\<forall>w t. D w = Some t \<longrightarrow> \<not> P t \<and> H w = Some t) \<and> (\<forall>t. \<not> P t \<longrightarrow> \<not> W t))"

lemma tok_invD:
  assumes "tok_inv Q H D P W"
  shows "H v = Some t \<Longrightarrow> H w = Some t \<Longrightarrow> v = w" "H w = Some t \<Longrightarrow> t \<notin> Q" "t \<in> Q \<Longrightarrow> P t \<and> \<not> W t"
    "H w = Some t \<Longrightarrow> D w = None \<Longrightarrow> P t \<and> \<not> W t" "P t \<Longrightarrow> W t \<or> t \<in> Q \<or> (\<exists>w. H w = Some t \<and> D w = None)"
    "D w = Some t \<Longrightarrow> \<not> P t \<and> H w = Some t" "\<not> P t \<Longrightarrow> \<not> W t"
  using assms unfolding tok_inv_def by blast+

lemma tok_invI:
  assumes "\<And>v w t. H v = Some t \<Longrightarrow> H w = Some t \<Longrightarrow> v = w" "\<And>w t. H w = Some t \<Longrightarrow> t \<notin> Q" "\<And>t. t \<in> Q \<Longrightarrow> P t \<and> \<not> W t"
    "\<And>w t. H w = Some t \<Longrightarrow> D w = None \<Longrightarrow> P t \<and> \<not> W t" "\<And>t. P t \<Longrightarrow> W t \<or> t \<in> Q \<or> (\<exists>w. H w = Some t \<and> D w = None)"
    "\<And>w t. D w = Some t \<Longrightarrow> \<not> P t \<and> H w = Some t" "\<And>t. \<not> P t \<Longrightarrow> \<not> W t"
  shows "tok_inv Q H D P W"
  using assms unfolding tok_inv_def by blast

lemma dispatching_holds: "dispatching p = Some t \<Longrightarrow> place_holds p = Some t"
  by (cases p) auto

lemma token_inv_alt:
  "token_inv s \<longleftrightarrow> distinct (ts_queued s) \<and>
     tok_inv (set (ts_queued s)) (held_by s) (\<lambda>w. dispatching (ts_pc s w)) (ts_posted s) (\<lambda>t. ts_status s t = WAITING)"
  unfolding token_inv_def tok_inv_def on_the_way_def using dispatching_holds
  by (fastforce simp: held_by_def)

text \<open>A step moves at most one task, and one thread lets it go or takes it.\<close>

lemma tok_upd:
  assumes I: "tok_inv Q H D P W" and Q: "\<And>u. u \<noteq> t \<Longrightarrow> u \<in> Q' \<longleftrightarrow> u \<in> Q"
    and P: "\<And>u. u \<noteq> t \<Longrightarrow> P' u = P u" and W: "\<And>u. u \<noteq> t \<Longrightarrow> W' u = W u"
    and old: "H w \<in> {None, Some t}" and new: "h \<in> {None, Some t}" "d \<in> {None, h}"
    and alone: "\<And>v. v \<noteq> w \<Longrightarrow> H v \<noteq> Some t"
    and t: "t \<in> Q' \<or> (h = Some t \<and> d = None) \<longleftrightarrow> P' t \<and> \<not> W' t" "h = Some t \<longrightarrow> t \<notin> Q'" "d \<noteq> None \<longrightarrow> \<not> P' t" "\<not> P' t \<longrightarrow> \<not> W' t"
  shows "tok_inv Q' (H(w := h)) (D(w := d)) P' W'"
proof (rule tok_invI)
  note J = tok_invD[OF I]
  show "v = x" if "(H(w := h)) v = Some u" "(H(w := h)) x = Some u" for v x u
    using that J(1)[of v u x] alone new(1) by (auto split: if_splits)
  show "u \<notin> Q'" if "(H(w := h)) x = Some u" for x u
    using that J(2)[of x u] Q[of u] alone[of x] t(2) new(1) by (cases "u = t") (auto split: if_splits)
  show "P' u \<and> \<not> W' u" if "u \<in> Q'" for u
    using that J(3)[of u] Q[of u] P[of u] W[of u] t(1) by (cases "u = t") auto
  show "P' u \<and> \<not> W' u" if "(H(w := h)) x = Some u" "(D(w := d)) x = None" for x u
    using that J(4)[of x u] P[of u] W[of u] t(1) alone[of x] new(1) by (cases "u = t") (auto split: if_splits)
  show "W' u \<or> u \<in> Q' \<or> (\<exists>x. (H(w := h)) x = Some u \<and> (D(w := d)) x = None)" if pu: "P' u" for u
  proof (cases "u = t")
    case True
    then show ?thesis using t(1) pu by auto
  next
    case False
    then consider "W u" | "u \<in> Q" | x where "H x = Some u" "D x = None" using J(5)[of u] P[OF False] pu by blast
    then show ?thesis
    proof cases
      case (3 x)
      then have "x \<noteq> w" using old False by auto
      with 3 have "(H(w := h)) x = Some u \<and> (D(w := d)) x = None" by simp
      then show ?thesis by blast
    qed (use False Q W in auto)
  qed
  show "\<not> P' u \<and> (H(w := h)) x = Some u" if "(D(w := d)) x = Some u" for x u
    using that J(6)[of x u] P[of u] t(3) new alone[of x] by (cases "u = t") (auto split: if_splits)
  show "\<not> W' u" if "\<not> P' u" for u
    using that J(7)[of u] P[of u] W[of u] t(4) by (cases "u = t") auto
qed

lemma held_dispatching: "dispatching (ts_pc s w) = Some t \<Longrightarrow> held_by s w = Some t"
  using dispatching_holds[of "ts_pc s w" t] by (simp add: held_by_def)

text \<open>The same for a step of the scheduler that moves thread \<open>w\<close> to \<open>p\<close>, within its call to \<open>c\<close>.\<close>

lemma token_upd:
  assumes I: "token_inv s" and s': "ts_pc s' = (ts_pc s)(w := p)" "ts_call s' = (ts_call s)(w := c)"
    and d: "distinct (ts_queued s')"
    and same: "\<And>u. u \<noteq> t \<Longrightarrow> (u \<in> set (ts_queued s') \<longleftrightarrow> u \<in> set (ts_queued s)) \<and> ts_posted s' u = ts_posted s u \<and>
      (ts_status s' u = WAITING \<longleftrightarrow> ts_status s u = WAITING)"
    and old: "held_by s w \<in> {None, Some t}" and new: "held_by s' w \<in> {None, Some t}"
    and alone: "\<And>v. v \<noteq> w \<Longrightarrow> held_by s v \<noteq> Some t"
    and t: "t \<in> set (ts_queued s') \<or> (held_by s' w = Some t \<and> dispatching p = None) \<longleftrightarrow> ts_posted s' t \<and> ts_status s' t \<noteq> WAITING"
      "held_by s' w = Some t \<longrightarrow> t \<notin> set (ts_queued s')" "dispatching p \<noteq> None \<longrightarrow> \<not> ts_posted s' t"
      "\<not> ts_posted s' t \<longrightarrow> ts_status s' t \<noteq> WAITING"
  shows "token_inv s'"
proof -
  have h: "held_by s' = (held_by s)(w := held_by s' w)"
    by (rule ext) (auto simp: held_by_def s' split: option.splits)
  have p: "(\<lambda>v. dispatching (ts_pc s' v)) = (\<lambda>v. dispatching (ts_pc s v))(w := dispatching p)"
    by (rule ext) (simp add: s')
  have "dispatching p \<in> {None, held_by s' w}"
    using held_dispatching[of s' w] by (cases "dispatching p") (auto simp: s')
  moreover have "tok_inv (set (ts_queued s)) (held_by s) (\<lambda>w. dispatching (ts_pc s w)) (ts_posted s) (\<lambda>t. ts_status s t = WAITING)"
    using I by (simp add: token_inv_alt)
  ultimately have "tok_inv (set (ts_queued s')) (held_by s') (\<lambda>v. dispatching (ts_pc s' v)) (ts_posted s') (\<lambda>t. ts_status s' t = WAITING)"
    unfolding p by (subst h) (rule tok_upd[where t = t], use same old new alone t in auto)
  with d show ?thesis by (simp add: token_inv_alt)
qed

lemma token_same:
  assumes I: "token_inv s" and s': "\<And>v. v \<noteq> w \<Longrightarrow> ts_pc s' v = ts_pc s v" "ts_call s' = ts_call s" "ts_posted s' = ts_posted s"
    and st: "\<And>t. (ts_status s' t = WAITING) = (ts_status s t = WAITING)"
    and q: "mset (ts_queued s') = mset (ts_queued s)"
    and p: "place_holds (ts_pc s' w) = place_holds (ts_pc s w)" "dispatching (ts_pc s' w) = dispatching (ts_pc s w)"
  shows "token_inv s'"
proof -
  have h: "held_by s' v = held_by s v" for v using p(1) s'(1)[of v] by (cases "v = w") (auto simp: held_by_def s' split: option.splits)
  have d: "dispatching (ts_pc s' v) = dispatching (ts_pc s v)" for v using p s'(1)[of v] by (cases "v = w") auto
  have e: "set (ts_queued s') = set (ts_queued s)" "distinct (ts_queued s') = distinct (ts_queued s)"
    using q mset_eq_setD mset_eq_imp_distinct_iff by blast+
  have o: "on_the_way s' t = on_the_way s t" for t unfolding on_the_way_def e h d ..
  show ?thesis using I unfolding token_inv_def e o h d s'(3) st .
qed

lemma token_invD:
  assumes "token_inv s"
  shows "distinct (ts_queued s)" "held_by s v = Some t \<Longrightarrow> held_by s w = Some t \<Longrightarrow> v = w"
    "held_by s w = Some t \<Longrightarrow> t \<notin> set (ts_queued s)" "t \<in> set (ts_queued s) \<Longrightarrow> ts_posted s t \<and> ts_status s t \<noteq> WAITING"
    "held_by s w = Some t \<Longrightarrow> dispatching (ts_pc s w) = None \<Longrightarrow> ts_posted s t \<and> ts_status s t \<noteq> WAITING"
    "dispatching (ts_pc s w) = Some t \<Longrightarrow> \<not> ts_posted s t" "ts_status s t = WAITING \<Longrightarrow> ts_posted s t"
    "ts_status s t = WAITING \<Longrightarrow> t \<notin> set (ts_queued s) \<and> held_by s w \<noteq> Some t"
proof -
  show "distinct (ts_queued s)" "held_by s v = Some t \<Longrightarrow> held_by s w = Some t \<Longrightarrow> v = w"
    "held_by s w = Some t \<Longrightarrow> t \<notin> set (ts_queued s)"
    using assms unfolding token_inv_def by blast+
  show a: "t \<in> set (ts_queued s) \<Longrightarrow> ts_posted s t \<and> ts_status s t \<noteq> WAITING"
    "held_by s w = Some t \<Longrightarrow> dispatching (ts_pc s w) = None \<Longrightarrow> ts_posted s t \<and> ts_status s t \<noteq> WAITING"
    using assms unfolding token_inv_def on_the_way_def by blast+
  show b: "dispatching (ts_pc s w) = Some t \<Longrightarrow> \<not> ts_posted s t" "ts_status s t = WAITING \<Longrightarrow> ts_posted s t"
    using assms unfolding token_inv_def by blast+
  show "ts_status s t = WAITING \<Longrightarrow> t \<notin> set (ts_queued s) \<and> held_by s w \<noteq> Some t"
    using a b held_dispatching[of s w] by (cases "dispatching (ts_pc s w)") auto
qed

lemma token_move:
  assumes I: "token_inv s" and P: "place_inv s" and m: "ts_move w s s'"
  shows "token_inv s'"
proof -
  note T = token_invD[OF I]
  have c: "ts_call s w = NoCall" if "\<not> client_place (ts_pc s w)" using place_invD(1)[OF P, of w] that by blast
  from m show ?thesis
  proof cases
    case (wait_ready t b)
    have cc: "ts_call s w = NoCall" by (rule c) (use wait_ready in simp)
    show ?thesis
      by (rule token_upd[OF I, where w = w and t = t and p = "WaitTop b" and c = NoCall])
        (use wait_ready cc T(1) T(7)[of t] T(8)[of t] in \<open>auto simp: move_defs held_by_def\<close>)
  next
    case (pend_wait b t ps)
    have cc: "ts_call s w = NoCall" by (rule c) (use pend_wait in simp)
    show ?thesis
      by (rule token_upd[OF I, where w = w and t = t and p = "PendWaitCas t (b + 1)" and c = NoCall])
        (use pend_wait cc T(1) T(3)[of _ t] T(4)[of t] in \<open>auto simp: move_defs held_by_def\<close>)
  next
    case (pend_now b t ps)
    have cc: "ts_call s w = NoCall" by (rule c) (use pend_now in simp)
    show ?thesis
      by (rule token_upd[OF I, where w = w and t = t and p = "PendReadyCas t (b + 1)" and c = NoCall])
        (use pend_now cc T(1) T(3)[of _ t] T(4)[of t] in \<open>auto simp: move_defs held_by_def\<close>)
  next
    case (to_sleep t b)
    have cc: "ts_call s w = NoCall" by (rule c) (use to_sleep in simp)
    have h: "held_by s w = Some t" using to_sleep by (simp add: held_by_def)
    show ?thesis
      by (rule token_upd[OF I, where w = w and t = t and p = "PendPush t b" and c = NoCall])
        (use to_sleep cc h T(1) T(2)[OF h] T(3)[OF h] T(5)[OF h] in \<open>auto simp: move_defs held_by_def\<close>)
  next
    case (to_sleep_forever t b)
    have cc: "ts_call s w = NoCall" by (rule c) (use to_sleep_forever in simp)
    have h: "held_by s w = Some t" using to_sleep_forever by (simp add: held_by_def)
    show ?thesis
      by (rule token_upd[OF I, where w = w and t = t and p = "Pend b" and c = NoCall])
        (use to_sleep_forever cc h T(1) T(2)[OF h] T(3)[OF h] T(5)[OF h] in \<open>auto simp: move_defs held_by_def\<close>)
  next
    case (add t b q)
    have cc: "ts_call s w = NoCall" by (rule c) (use add in simp)
    have h: "held_by s w = Some t" using add by (simp add: held_by_def)
    show ?thesis
      by (rule token_upd[OF I, where w = w and t = t and p = "Pend b" and c = NoCall])
        (use add cc h T(1) T(2)[OF h] T(3)[OF h] T(5)[OF h] in \<open>auto simp: move_defs held_by_def\<close>)
  next
    case (exec b t ts)
    have cc: "ts_call s w = NoCall" by (rule c) (use exec in simp)
    show ?thesis
      by (rule token_upd[OF I, where w = w and t = t and p = "Counted t b" and c = NoCall])
        (use exec cc T(1) T(3)[of _ t] T(4)[of t] in \<open>auto simp: move_defs held_by_def\<close>)
  next
    case (clear t b)
    have cc: "ts_call s w = NoCall" by (rule c) (use clear in simp)
    have h: "held_by s w = Some t" using clear by (simp add: held_by_def)
    show ?thesis
      by (rule token_upd[OF I, where w = w and t = t and p = "ExecCas t b" and c = NoCall])
        (use clear cc h T(1) T(2)[OF h] T(3)[OF h] T(5)[OF h] in \<open>auto simp: move_defs held_by_def\<close>)
  next
    case (run t b)
    have cc: "ts_call s w = NoCall" by (rule c) (use run in simp)
    have h: "held_by s w = Some t" using run by (simp add: held_by_def)
    show ?thesis
      by (rule token_upd[OF I, where w = w and t = t and p = "Callback t b" and c = NoCall])
        (use run cc h T(1) T(2)[OF h] T(3)[OF h] T(6)[of w t] T(7)[of t] in \<open>auto simp: move_defs held_by_def\<close>)
  next
    case (no_sleep t b)
    then show ?thesis by (intro token_same[OF I, of w]) (auto simp: move_defs)
  next
    case receive
    then show ?thesis by (intro token_same[OF I, of w]) (auto simp: move_defs)
  next
    case unlock
    then show ?thesis by (intro token_same[OF I, of w]) (auto simp: move_defs split: list.splits)
  qed (rule token_same[OF I, of w]; force simp: move_defs)+
qed

section \<open>The waiting queue\<close>

lemma role_unique:
  assumes "role_inv s" and "role_place (ts_pc s v)" and "role_place (ts_pc s w)"
  shows "v = w"
  using assms unfolding role_inv_def has_role_def by (metis option.inject)

lemma limbo_role: "in_limbo p = Some t \<Longrightarrow> role_place p"
  by (cases p) auto

lemma front_seen_role: "front_seen p \<Longrightarrow> role_place p"
  by (cases p) auto

lemma sleeping_role: "sleeping p \<Longrightarrow> role_place p"
  by (cases p) auto

lemma heap_invD:
  assumes "heap_inv_ts s"
  shows "heap_ok (ts_heap s) (ts_waiting s)" "t \<in> ts_sleepers s \<Longrightarrow> may_sleep s t"
    "in_limbo (ts_pc s w) = Some t \<Longrightarrow> t \<notin> ts_sleepers s \<and> may_sleep s t"
    "ts_status s t = WAITING \<Longrightarrow> ts_deadline s t = TIME_INFINITE \<or> t \<in> ts_sleepers s \<or> (\<exists>w. in_limbo (ts_pc s w) = Some t)"
  using assms by (auto simp: heap_inv_ts_def)

lemma heap_invI:
  assumes "heap_ok (ts_heap s) (ts_waiting s)" "\<And>t. t \<in> ts_sleepers s \<Longrightarrow> may_sleep s t"
    "\<And>w t. in_limbo (ts_pc s w) = Some t \<Longrightarrow> t \<notin> ts_sleepers s \<and> may_sleep s t"
    "\<And>t. ts_status s t = WAITING \<Longrightarrow> ts_deadline s t = TIME_INFINITE \<or> t \<in> ts_sleepers s \<or> (\<exists>w. in_limbo (ts_pc s w) = Some t)"
  shows "heap_inv_ts s"
  using assms by (auto simp: heap_inv_ts_def)

text \<open>A step that leaves the sleepers alone.\<close>

lemma heap_goto:
  assumes I: "heap_inv_ts s" and s': "ts_waiting s' = ts_waiting s" "in_limbo p = in_limbo (ts_pc s w)" "ts_pc s' = (ts_pc s)(w := p)"
    and d: "\<And>t. may_sleep s t \<Longrightarrow> ts_deadline s' t = ts_deadline s t"
    and m: "\<And>t. may_sleep s t \<Longrightarrow> may_sleep s' t"
    and st: "\<And>t. ts_status s' t = WAITING \<Longrightarrow> ts_status s t = WAITING \<and> ts_deadline s' t = ts_deadline s t \<or> ts_deadline s' t = TIME_INFINITE"
  shows "heap_inv_ts s'"
proof (rule heap_invI)
  note H = heap_invD[OF I]
  have l: "in_limbo (ts_pc s' v) = in_limbo (ts_pc s v)" for v using s' by simp
  show "heap_ok (ts_heap s') (ts_waiting s')"
    unfolding s' by (rule ts_heap_cong[OF H(1)]) (use H(2) d in blast)
  show "may_sleep s' t" if "t \<in> ts_sleepers s'" for t using H(2)[of t] m that s' by simp
  show "t \<notin> ts_sleepers s' \<and> may_sleep s' t" if "in_limbo (ts_pc s' v) = Some t" for v t
    using H(3)[of v t] m that l s' by simp
  show "ts_deadline s' t = TIME_INFINITE \<or> t \<in> ts_sleepers s' \<or> (\<exists>w. in_limbo (ts_pc s' w) = Some t)"
    if "ts_status s' t = WAITING" for t using st[OF that] H(4)[of t] l s'(1) by auto
qed

lemma may_sleep_goto:
  assumes "may_sleep s t" and "ts_pc s' = (ts_pc s)(w := p)" and "ts_posted s' t = ts_posted s t" and "ts_status s' t \<noteq> PENDING"
    and "ts_deadline s' t = ts_deadline s t" and "set (ts_collected s') \<union> set (ts_ready s') \<subseteq> set (ts_collected s) \<union> set (ts_ready s)"
    and "popped_at p = Some t \<Longrightarrow> t \<in> set (ts_ready s) \<or> popped_at (ts_pc s w) = Some t"
  shows "may_sleep s' t"
  using assms unfolding may_sleep_def by auto

lemma may_sleepD: 
  assumes "may_sleep s t"
  shows "ts_posted s t" "ts_status s t \<noteq> PENDING" "ts_deadline s t \<noteq> TIME_INFINITE" "t \<notin> set (ts_collected s)" "t \<notin> set (ts_ready s)" "popped_at (ts_pc s w) \<noteq> Some t"
  using assms by (auto simp: may_sleep_def)

lemma heap_move:
  assumes I: "heap_inv_ts s" and R: "role_inv s" and T: "token_inv s" and m: "ts_move w s s'"
  shows "heap_inv_ts s'"
proof -
  note H = heap_invD[OF I]
  have alone: "in_limbo (ts_pc s v) = None" if "role_place (ts_pc s w)" "v \<noteq> w" for v
    using role_unique[OF R _ that(1)] limbo_role[of "ts_pc s v"] that(2) by (cases "in_limbo (ts_pc s v)") auto
  have hd: "\<not> ts_posted s t" if "dispatching (ts_pc s w) = Some t" for t
    using token_invD(6)[OF T that] .
  from m show ?thesis
  proof cases
    case (wait_top b t q)
    have a: "in_limbo (ts_pc s v) = None" if "v \<noteq> w" for v by (rule alone[OF _ that]) (use wait_top in simp)
    have n: "may_sleep s' u" if "may_sleep s u" for u
      by (rule may_sleep_goto[OF that, of _ w "WaitCas t (b + 1)"]) (use wait_top may_sleepD(2)[OF that] in \<open>auto simp: move_defs\<close>)
    have h: "ts_heap s' = ts_heap s" using wait_top by (simp add: ts_heap_def move_defs)
    show ?thesis
    proof (rule heap_invI)
      show "heap_ok (ts_heap s') (ts_waiting s')" unfolding h using wait_top by (simp add: move_defs)
      show "may_sleep s' u" if "u \<in> ts_sleepers s'" for u
        by (rule n[OF H(2)]) (use that wait_top in \<open>simp add: move_defs\<close>)
      show "u \<notin> ts_sleepers s' \<and> may_sleep s' u" if "in_limbo (ts_pc s' v) = Some u" for u v
        using that wait_top a[of v] n[OF H(2)[of t]] by (auto simp: move_defs split: if_splits)
      show "ts_deadline s' u = TIME_INFINITE \<or> u \<in> ts_sleepers s' \<or> (\<exists>w. in_limbo (ts_pc s' w) = Some u)"
        if "ts_status s' u = WAITING" for u
      proof (cases "u = t")
        case True
        then have "in_limbo (ts_pc s' w) = Some u" using wait_top by (simp add: move_defs)
        then show ?thesis by blast
      next
        case False
        have "in_limbo (ts_pc s v) = None" for v using a[of v] wait_top by (cases "v = w") auto
        then show ?thesis using H(4)[of u] that False wait_top by (auto simp: move_defs)
      qed
    qed
  next
    case (wait_ready t b)
    have a: "in_limbo (ts_pc s v) = None" if "v \<noteq> w" for v by (rule alone[OF _ that]) (use wait_ready in simp)
    have l: "t \<notin> ts_sleepers s" using H(3)[of w t] wait_ready by simp
    have n: "may_sleep s' u" if "may_sleep s u" "u \<noteq> t" for u
      using that wait_ready by (auto simp: may_sleep_def move_defs)
    have h: "ts_heap s' = ts_heap s" using wait_ready by (simp add: ts_heap_def move_defs)
    show ?thesis
    proof (rule heap_invI)
      show "heap_ok (ts_heap s') (ts_waiting s')" unfolding h using wait_ready H(1) by (simp add: move_defs)
      show "may_sleep s' u" if "u \<in> ts_sleepers s'" for u
        by (rule n[OF H(2)]) (use that wait_ready l in \<open>auto simp: move_defs\<close>)
      show "u \<notin> ts_sleepers s' \<and> may_sleep s' u" if "in_limbo (ts_pc s' v) = Some u" for u v
        using that wait_ready a[of v] by (auto simp: move_defs split: if_splits)
      show "ts_deadline s' u = TIME_INFINITE \<or> u \<in> ts_sleepers s' \<or> (\<exists>w. in_limbo (ts_pc s' w) = Some u)"
        if "ts_status s' u = WAITING" for u
      proof -
        have u: "u \<noteq> t" "ts_status s u = WAITING" using that wait_ready by (auto simp: move_defs split: if_splits)
        have "in_limbo (ts_pc s v) \<noteq> Some u" for v using a[of v] wait_ready u by (cases "v = w") auto
        then show ?thesis using H(4)[OF u(2)] wait_ready by (auto simp: move_defs)
      qed
    qed
  next
    case (wait_skip t b)
    have a: "in_limbo (ts_pc s v) = None" if "v \<noteq> w" for v by (rule alone[OF _ that]) (use wait_skip in simp)
    have n: "may_sleep s' u" if "may_sleep s u" for u
      using that wait_skip by (auto simp: may_sleep_def move_defs)
    have h: "ts_heap s' = ts_heap s" using wait_skip by (simp add: ts_heap_def move_defs)
    show ?thesis
    proof (rule heap_invI)
      show "heap_ok (ts_heap s') (ts_waiting s')" unfolding h using wait_skip H(1) by (simp add: move_defs)
      show "may_sleep s' u" if "u \<in> ts_sleepers s'" for u
        by (rule n[OF H(2)]) (use that wait_skip in \<open>auto simp: move_defs\<close>)
      show "u \<notin> ts_sleepers s' \<and> may_sleep s' u" if "in_limbo (ts_pc s' v) = Some u" for u v
        using that wait_skip a[of v] by (auto simp: move_defs split: if_splits)
      show "ts_deadline s' u = TIME_INFINITE \<or> u \<in> ts_sleepers s' \<or> (\<exists>w. in_limbo (ts_pc s' w) = Some u)"
        if "ts_status s' u = WAITING" for u
      proof -
        have u: "u \<noteq> t" "ts_status s u = WAITING" using that wait_skip by (auto simp: move_defs is_awake_def split: if_splits)
        have "in_limbo (ts_pc s v) \<noteq> Some u" for v using a[of v] wait_skip u by (cases "v = w") auto
        then show ?thesis using H(4)[OF u(2)] wait_skip by (auto simp: move_defs)
      qed
    qed
  next
    case (to_sleep t b)
    have a: "in_limbo (ts_pc s v) = None" if "v \<noteq> w" for v by (rule alone[OF _ that]) (use to_sleep in simp)
    have hb: "held_by s w = Some t" "dispatching (ts_pc s w) = None" using to_sleep by (simp_all add: held_by_def)
    have l: "t \<notin> ts_sleepers s" using may_sleepD(2)[OF H(2), of t] to_sleep by blast
    have q: "t \<notin> set (ts_queued s)" "ts_posted s t" using token_invD(3,5)[OF T hb(1)] hb(2) by blast+
    have pp: "popped_at (ts_pc s v) \<noteq> Some t" for v
    proof
      assume "popped_at (ts_pc s v) = Some t"
      then have "held_by s v = Some t" "v \<noteq> w" using to_sleep by (cases "ts_pc s v"; auto simp: held_by_def)+
      with token_invD(2)[OF T hb(1), of v] show False by simp
    qed
    have n: "may_sleep s' u" if "may_sleep s u" for u
      by (rule may_sleep_goto[OF that, of _ w "PendPush t b"]) (use to_sleep may_sleepD(2)[OF that] in \<open>auto simp: move_defs\<close>)
    have nt: "may_sleep s' t" using q pp to_sleep by (auto simp: may_sleep_def move_defs)
    have h: "ts_heap s' = ts_heap s" using to_sleep by (simp add: ts_heap_def move_defs)
    show ?thesis
    proof (rule heap_invI)
      show "heap_ok (ts_heap s') (ts_waiting s')" unfolding h using to_sleep H(1) by (simp add: move_defs)
      show "may_sleep s' u" if "u \<in> ts_sleepers s'" for u
        by (rule n[OF H(2)]) (use that to_sleep in \<open>auto simp: move_defs\<close>)
      show "u \<notin> ts_sleepers s' \<and> may_sleep s' u" if "in_limbo (ts_pc s' v) = Some u" for u v
        using that to_sleep a[of v] nt l by (auto simp: move_defs split: if_splits)
      show "ts_deadline s' u = TIME_INFINITE \<or> u \<in> ts_sleepers s' \<or> (\<exists>w. in_limbo (ts_pc s' w) = Some u)"
        if "ts_status s' u = WAITING" for u
      proof (cases "u = t")
        case True
        then have "in_limbo (ts_pc s' w) = Some u" using to_sleep by (simp add: move_defs)
        then show ?thesis by blast
      next
        case False
        have "in_limbo (ts_pc s v) = None" for v using a[of v] to_sleep by (cases "v = w") auto
        then show ?thesis using H(4)[of u] that False to_sleep by (auto simp: move_defs)
      qed
    qed
  next
    case (push t b q)
    have a: "in_limbo (ts_pc s v) = None" if "v \<noteq> w" for v by (rule alone[OF _ that]) (use push in simp)
    have n: "may_sleep s' u" if "may_sleep s u" for u
      using that push by (auto simp: may_sleep_def move_defs)
    have h: "ts_heap s' = ts_heap s" using push by (simp add: ts_heap_def move_defs)
    show ?thesis
    proof (rule heap_invI)
      show "heap_ok (ts_heap s') (ts_waiting s')" unfolding h using push by (simp add: move_defs)
      show "may_sleep s' u" if "u \<in> ts_sleepers s'" for u
        using n[OF H(2)[of u]] n[of t] H(3)[of w t] that push by (auto simp: move_defs)
      show "u \<notin> ts_sleepers s' \<and> may_sleep s' u" if "in_limbo (ts_pc s' v) = Some u" for u v
        using that push a[of v] by (auto simp: move_defs split: if_splits)
      show "ts_deadline s' u = TIME_INFINITE \<or> u \<in> ts_sleepers s' \<or> (\<exists>w. in_limbo (ts_pc s' w) = Some u)"
        if "ts_status s' u = WAITING" for u
      proof -
        have "u = t" if "in_limbo (ts_pc s v) = Some u" for v using a[of v] push that by (cases "v = w") auto
        then show ?thesis using H(4)[of u] that push by (auto simp: move_defs)
      qed
    qed
  next
    case (add t b q)
    have a: "in_limbo (ts_pc s v) = None" for v using alone[of v] add by (cases "v = w") auto
    have n: "may_sleep s' u" if "may_sleep s u" "u \<noteq> t" for u
      using that add by (auto simp: may_sleep_def move_defs)
    have h: "ts_heap s' = ts_heap s" using add by (simp add: ts_heap_def move_defs)
    have hb: "held_by s w = Some t" "dispatching (ts_pc s w) = None" using add by (simp_all add: held_by_def)
    show ?thesis
    proof (rule heap_invI)
      show "heap_ok (ts_heap s') (ts_waiting s')" unfolding h using add by (simp add: move_defs)
      show "may_sleep s' u" if "u \<in> ts_sleepers s'" for u
        by (rule n[OF H(2)]) (use that add in \<open>auto simp: move_defs\<close>)
      show "u \<notin> ts_sleepers s' \<and> may_sleep s' u" if "in_limbo (ts_pc s' v) = Some u" for u v
        using that add a[of v] by (auto simp: move_defs split: if_splits)
      show "ts_deadline s' u = TIME_INFINITE \<or> u \<in> ts_sleepers s' \<or> (\<exists>w. in_limbo (ts_pc s' w) = Some u)"
        if "ts_status s' u = WAITING" for u
        using H(4)[of u] a that add token_invD(5)[OF T hb] by (auto simp: move_defs)
    qed
  next
    case (flush t ts)
    show ?thesis
      by (rule heap_goto[OF I, where w = w and p = Flush]) (use flush in \<open>auto simp: may_sleep_def\<close>)
  next
    case no_sleep
    then show ?thesis by (intro heap_goto[OF I, of _ _ w]) (auto simp: move_defs may_sleep_def)
  next
    case receive
    then show ?thesis by (intro heap_goto[OF I, of _ _ w]) (auto simp: move_defs may_sleep_def)
  next
    case unlock
    then show ?thesis by (intro heap_goto[OF I, of _ SendReady w]) (auto simp: move_defs may_sleep_def split: list.splits)
  next
    case (counted t b)
    have "\<not> may_sleep s t" using may_sleepD(6)[of s t w] counted by auto
    then have n: "may_sleep s' u" if "may_sleep s u" for u
      using that counted by (cases "u = t") (auto simp: may_sleep_def move_defs)
    show ?thesis by (rule heap_goto[OF I, of _ "Clear t b" w]) (use counted n in \<open>auto simp: move_defs\<close>)
  next
    case (clear t b)
    have "\<not> may_sleep s t" using may_sleepD(6)[of s t w] clear by auto
    then have n: "may_sleep s' u" if "may_sleep s u" for u
      using that clear by (cases "u = t") (auto simp: may_sleep_def move_defs)
    show ?thesis by (rule heap_goto[OF I, of _ "ExecCas t b" w]) (use clear n in \<open>auto simp: move_defs\<close>)
  next
    case (exec_ready t b)
    then show ?thesis using hd[of t] by (intro heap_goto[OF I, of _ "Run t b" w]) (auto simp: move_defs may_sleep_def split: if_splits)
  next
    case (run t b)
    then show ?thesis using hd[of t] token_invD(7)[OF T, of t]
      by (intro heap_goto[OF I, of _ "Callback t b" w]) (auto simp: move_defs may_sleep_def split: if_splits)
  qed (rule heap_goto[OF I, of _ _ w]; force simp: move_defs may_sleep_def split: if_splits)+
qed

section \<open>Awake tasks and the reason to run them\<close>

lemma awake_holds: "awake_at p = Some t \<Longrightarrow> place_holds p = Some t"
  by (cases p) auto

lemma awake_held: "awake_at (ts_pc s w) = Some t \<Longrightarrow> held_by s w = Some t"
  using awake_holds[of "ts_pc s w" t] by (simp add: held_by_def)

lemma awake_invD:
  assumes "awake_inv s"
  shows "t \<in> set (ts_collected s) \<Longrightarrow> is_awake s t" "t \<in> set (ts_ready s) \<Longrightarrow> is_awake s t"
    "awake_at (ts_pc s w) = Some t \<Longrightarrow> is_awake s t"
  using assms by (auto simp: awake_inv_def)

lemma to_run_awake: "awake_inv s \<Longrightarrow> to_run s t \<Longrightarrow> is_awake s t"
  by (auto simp: awake_inv_def to_run_def)

lemma awake_inv_alt: "awake_inv s \<longleftrightarrow> (\<forall>t. to_run s t \<longrightarrow> is_awake s t)"
  by (auto simp: awake_inv_def to_run_def)

text \<open>The tasks that are about to run, move by move.\<close>

lemma to_run_move:
  assumes m: "ts_move w s s'" and t: "to_run s' t"
  shows "to_run s t \<or> is_awake s' t \<and> (ts_expired s' t \<longrightarrow> ts_expired s t) \<and> (\<exists>b. ts_pc s w = WaitCas t b \<or> ts_pc s w = PendReadyCas t b \<or> ts_pc s w = PendWaitCas t b)"
  using m
proof cases
  case (wait_ready u b)
  then show ?thesis using t by (auto simp: to_run_def move_defs is_awake_def split: if_splits)
next
  case (no_sleep u b)
  then show ?thesis using t by (auto simp: to_run_def move_defs is_awake_def split: if_splits)
next
  case (to_ready u b)
  then show ?thesis using t by (auto simp: to_run_def move_defs is_awake_def split: if_splits)
next
  case (add u b q)
  then have "to_run s u" unfolding to_run_def by (intro disjI2 exI[of _ w]) simp
  then show ?thesis using t add by (cases "t = u") (auto simp: to_run_def move_defs is_awake_def split: if_splits)
next
  case (flush u ts)
  then show ?thesis using t by (auto simp: to_run_def)
next
  case (exec b u ts)
  then show ?thesis using t by (auto simp: to_run_def move_defs split: if_splits)
next
  case (counted u b)
  then have "to_run s u" unfolding to_run_def by (intro disjI2 exI[of _ w]) simp
  then show ?thesis using t counted by (cases "t = u") (auto simp: to_run_def move_defs split: if_splits)
next
  case (clear u b)
  then have "to_run s u" unfolding to_run_def by (intro disjI2 exI[of _ w]) simp
  then show ?thesis using t clear by (cases "t = u") (auto simp: to_run_def move_defs split: if_splits)
next
  case unlock
  then show ?thesis using t by (auto simp: to_run_def move_defs split: if_splits list.splits)
qed (use t in \<open>force simp: to_run_def move_defs split: if_splits\<close>)+

text \<open>A task that is asked to run is not put to sleep or forgotten, except by its own execution.\<close>

lemma awake_move_status:
  assumes "ts_move w s s'" and "is_awake s t"
  shows "is_awake s' t \<or> (\<exists>b. ts_pc s w = ExecCas t b \<and> ts_pc s' w = Run t b)"
  using assms by cases (auto simp: is_awake_def move_defs split: list.splits)

lemma run_alone:
  assumes T: "token_inv s" and "ts_pc s w = ExecCas t b" and "ts_pc s' w = Run t b"
    and same: "\<And>v. v \<noteq> w \<Longrightarrow> ts_pc s' v = ts_pc s v" "ts_collected s' = ts_collected s" "ts_ready s' = ts_ready s"
  shows "\<not> to_run s' t"
proof -
  have h: "held_by s w = Some t" using assms(2) by (simp add: held_by_def)
  have "awake_at (ts_pc s' v) \<noteq> Some t" for v
    using token_invD(2)[OF T h, of v] awake_held[of s v t] same(1)[of v] assms(3) by (cases "v = w") auto
  with token_invD(3)[OF T h] same show ?thesis by (auto simp: to_run_def)
qed

lemma exec_cas_move:
  assumes "ts_move w s s'" and "ts_pc s w = ExecCas t b"
  shows "(\<forall>v. v \<noteq> w \<longrightarrow> ts_pc s' v = ts_pc s v) \<and> ts_collected s' = ts_collected s \<and> ts_ready s' = ts_ready s"
  using assms by cases (auto simp: move_defs)

lemma awake_move:
  assumes I: "awake_inv s" and T: "token_inv s" and m: "ts_move w s s'"
  shows "awake_inv s'"
  unfolding awake_inv_alt
proof (intro allI impI)
  fix t assume t: "to_run s' t"
  show "is_awake s' t"
  proof (cases "to_run s t")
    case True
    have "\<not> (ts_pc s w = ExecCas t b \<and> ts_pc s' w = Run t b)" for b
      using run_alone[OF T, of w t b s'] exec_cas_move[OF m, of t b] t by blast
    then show ?thesis using awake_move_status[OF m to_run_awake[OF I True]] by blast
  qed (use to_run_move[OF m t] in blast)
qed

lemma to_run_keep:
  assumes m: "ts_move w s s'" and t: "to_run s t"
  shows "to_run s' t \<or> (\<exists>b. ts_pc s w = ExecCas t b)"
proof -
  consider "t \<in> set (ts_collected s) \<union> set (ts_ready s)" | v where "v \<noteq> w" "awake_at (ts_pc s v) = Some t"
    | "awake_at (ts_pc s w) = Some t"
    using t unfolding to_run_def by (metis Un_iff)
  then show ?thesis
  proof cases
    case 1
    from m show ?thesis
    proof cases
      case (exec b u ts)
      then have "to_run s' u" unfolding to_run_def by (intro disjI2 exI[of _ w]) (simp add: move_defs)
      then show ?thesis using 1 exec by (auto simp: to_run_def move_defs)
    qed (use 1 in \<open>auto simp: to_run_def move_defs split: list.splits\<close>)
  next
    case 2
    have "ts_pc s' v = ts_pc s v" using m 2(1) by cases (auto simp: move_defs split: list.splits)
    then have "awake_at (ts_pc s' v) = Some t" using 2(2) by simp
    then have "to_run s' t" unfolding to_run_def by blast
    then show ?thesis ..
  next
    case 3
    have "awake_at (ts_pc s' w) = Some t \<or> t \<in> set (ts_collected s') \<or> (\<exists>b. ts_pc s w = ExecCas t b)"
      using m 3 by cases (auto simp: move_defs split: list.splits)
    then show ?thesis by (auto simp: to_run_def)
  qed
qed

lemma reason_invD:
  assumes "reason_inv s"
  shows "ts_timestamp s \<le> ts_now s" "ts_status s t = SIGNALED \<Longrightarrow> ts_asked s t"
    "ts_status s t = READY \<Longrightarrow> ts_asked s t \<or> ts_expired s t \<and> to_run s t"
    "to_run s t \<Longrightarrow> ts_expired s t \<Longrightarrow> ts_deadline s t \<le> ts_now s"
    "late_at (ts_pc s w) = Some t \<Longrightarrow> ts_expired s t \<and> ts_deadline s t \<le> ts_now s"
    "early_at (ts_pc s w) = Some t \<Longrightarrow> \<not> ts_expired s t"
  using assms by (auto simp: reason_inv_def)

lemma late_role: "late_at p = Some t \<or> early_at p = Some t \<Longrightarrow> role_place p"
  by (cases p) auto

lemma move_other:
  assumes "ts_move w s s'" and "v \<noteq> w"
  shows "ts_pc s' v = ts_pc s v"
  using assms(1,2) by cases (auto simp: move_defs split: list.splits)

lemma move_deadline:
  assumes "ts_move w s s'"
  shows "ts_deadline s' t = ts_deadline s t \<or> ts_deadline s' t = 0"
  using assms by cases (auto simp: move_defs split: list.splits)

lemma move_now:
  assumes "ts_move w s s'"
  shows "ts_now s' = ts_now s"
  using assms by cases (auto simp: move_defs split: list.splits)

lemma move_asked:
  assumes "ts_move w s s'"
  shows "ts_asked s' t = ts_asked s t \<or> ts_status s' t = PENDING"
  using assms by cases (auto simp: move_defs split: list.splits)

lemma move_expired:
  assumes "ts_move w s s'"
  shows "ts_expired s' t = ts_expired s t \<or> role_place (ts_pc s w) \<and>
     (ts_expired s' t \<and> ts_deadline s t \<le> ts_timestamp s \<or> \<not> ts_expired s' t \<and> t \<in> set (ts_pending s) \<and> ts_status s' t = ts_status s t)"
  using assms by cases (auto simp: move_defs split: list.splits)

lemma move_status:
  assumes "ts_move w s s'"
  shows "ts_status s' t = ts_status s t \<or> ts_status s' t = PENDING \<or> ts_status s' t = WAITING \<or>
    ts_status s' t = READY \<and> late_at (ts_pc s w) = Some t \<and> to_run s' t \<and> ts_expired s' t = ts_expired s t"
  using assms
proof cases
  case (to_ready u b)
  have "to_run s' u" unfolding to_run_def using to_ready by (intro disjI2 exI[of _ w]) (simp add: move_defs)
  with to_ready show ?thesis by (auto simp: move_defs)
qed (auto simp: to_run_def move_defs split: list.splits)

lemma pending_not_run:
  assumes T: "token_inv s" and "t \<in> set (ts_pending s)"
  shows "\<not> to_run s t"
  using token_invD(1)[OF T] token_invD(3)[OF T awake_held, of _ t] assms(2) unfolding to_run_def by auto

lemma reason_move:
  assumes I: "reason_inv s" and L: "role_inv s" and A: "awake_inv s" and T: "token_inv s" and m: "ts_move w s s'"
  shows "reason_inv s'"
  unfolding reason_inv_def
proof (intro conjI allI impI)
  note R = reason_invD[OF I]
  have now: "ts_now s' = ts_now s" by (rule move_now[OF m])
  show "ts_timestamp s' \<le> ts_now s'" using m R(1) by cases (auto simp: move_defs split: list.splits)
  fix t
  show "ts_asked s' t" if "ts_status s' t = SIGNALED"
    using move_status[OF m, of t] move_asked[OF m, of t] R(2)[of t] that by auto
  show "ts_asked s' t \<or> ts_expired s' t \<and> to_run s' t" if st: "ts_status s' t = READY"
  proof (cases "ts_status s t = READY")
    case True
    then consider "ts_asked s t" | "ts_expired s t" "to_run s t" using R(3) by blast
    then show ?thesis
    proof cases
      case 1
      then show ?thesis using move_asked[OF m, of t] st by auto
    next
      case 2
      have "ts_pc s w \<noteq> ExecCas t b" for b using m True st by cases (auto simp: move_defs)
      then have "to_run s' t" using to_run_keep[OF m 2(2)] by blast
      moreover have "ts_expired s' t" using move_expired[OF m, of t] 2 pending_not_run[OF T] by auto
      ultimately show ?thesis by blast
    qed
  next
    case False
    then show ?thesis using move_status[OF m, of t] st R(5)[of w t] by auto
  qed
  show "ts_deadline s' t \<le> ts_now s'" if tr: "to_run s' t \<and> ts_expired s' t"
  proof (cases "ts_deadline s' t = 0")
    case False
    then have d: "ts_deadline s' t = ts_deadline s t" using move_deadline[OF m] by blast
    show ?thesis
    proof (cases "to_run s t")
      case True
      then show ?thesis using move_expired[OF m, of t] R(1) R(4)[of t] tr by (auto simp: d now)
    next
      case False
      then have "ts_expired s t" "\<exists>b. ts_pc s w = WaitCas t b \<or> ts_pc s w = PendReadyCas t b \<or> ts_pc s w = PendWaitCas t b"
        using to_run_move[OF m, of t] tr by blast+
      then show ?thesis using R(5)[of w t] R(6)[of w t] by (auto simp: d now)
    qed
  qed simp
  fix v
  show "ts_expired s' t" "ts_deadline s' t \<le> ts_now s'" if l: "late_at (ts_pc s' v) = Some t"
  proof -
    have "ts_expired s' t \<and> ts_deadline s' t \<le> ts_now s'"
    proof (cases "v = w")
      case True
      from m l R(1) show ?thesis unfolding True by cases (auto simp: move_defs split: list.splits)
    next
      case False
      then have v: "late_at (ts_pc s v) = Some t" using l move_other[OF m] by simp
      then have "\<not> role_place (ts_pc s w)" using role_unique[OF L, of v w] late_role[of "ts_pc s v" t] False by blast
      then show ?thesis using move_expired[OF m, of t] R(5)[OF v] move_deadline[OF m, of t] by (auto simp: now)
    qed
    then show "ts_expired s' t" "ts_deadline s' t \<le> ts_now s'" by auto
  qed
  show "\<not> ts_expired s' t" if l: "early_at (ts_pc s' v) = Some t"
  proof (cases "v = w")
    case True
    from m l show ?thesis unfolding True by cases (auto simp: move_defs split: list.splits)
  next
    case False
    then have v: "early_at (ts_pc s v) = Some t" using l move_other[OF m] by simp
    then have "\<not> role_place (ts_pc s w)" using role_unique[OF L, of v w] late_role[of "ts_pc s v" t] False by blast
    then show ?thesis using move_expired[OF m, of t] R(6)[OF v] by auto
  qed
qed

section \<open>Signals and counters\<close>

lemma signal_invD:
  assumes "signal_inv s"
  shows "ts_lock s = None \<Longrightarrow> ts_rsig s \<or> (\<exists>w. elects_place (ts_pc s w) \<or> elects_call (ts_call s w))"
    "front_seen (ts_pc s w) \<Longrightarrow> ts_front s \<noteq> [] \<Longrightarrow> ts_fsig s \<or> (\<exists>v. ts_call s v = SendFront)"
    "role_place (ts_pc s w) \<Longrightarrow> ts_pc s w \<noteq> Unlock \<Longrightarrow> ts_lock_queue s \<noteq> [] \<Longrightarrow> ts_fsig s"
    "ts_collected s \<noteq> [] \<Longrightarrow> \<exists>w. collecting (ts_pc s w)"
    "sleeping (ts_pc s w) \<Longrightarrow> ts_pending s = [] \<and> ts_ready s = []"
    "ts_pc s w = CheckDeadline \<Longrightarrow> ts_sleepers s \<noteq> {}"
    "ts_pc s w = SleepBlocking \<Longrightarrow> ts_sleepers s = {}"
    "ts_pc s w = SleepTimed d \<Longrightarrow> t \<in> ts_sleepers s \<Longrightarrow> d \<le> ts_deadline s t"
    "ts_ready_count s = length (ts_ready s) + (\<Sum>w<ts_workers s. taken_by s w)"
  using assms unfolding signal_inv_def by blast+

lemma sum_fun_upd_nat:
  fixes f g :: "nat \<Rightarrow> nat"
  assumes "\<And>v. v \<noteq> w \<Longrightarrow> g v = f v" and "w < n" and "g w + a = f w + b"
  shows "(\<Sum>v<n. g v) + a = (\<Sum>v<n. f v) + b"
  using sum_change[of w g f n] assms by simp

lemma count_move:
  assumes I: "signal_inv s" and P: "place_inv s" and m: "ts_move w s s'"
  shows "ts_ready_count s' = length (ts_ready s') + (\<Sum>w<ts_workers s'. taken_by s' w)"
proof -
  have wk: "ts_workers s' = ts_workers s" using m by cases (auto simp: move_defs split: list.splits)
  have "ts_pc s w \<noteq> Outside" using m by cases auto
  then have w: "w < ts_workers s" using place_invD(2)[OF P] by simp
  have o: "taken_by s' v = taken_by s v" if "v \<noteq> w" for v using move_other[OF m that] by (simp add: taken_by_def)
  have "ts_ready_count s' + length (ts_ready s) + taken_by s w = ts_ready_count s + length (ts_ready s') + taken_by s' w \<or>
      ts_ready_count s = 0 \<and> taken_by s w = 1"
    using m by cases (auto simp: taken_by_def move_defs split: list.splits ts_place.splits)
  moreover have "taken_by s w \<le> (\<Sum>w<ts_workers s. taken_by s w)" using w by (intro member_le_sum) auto
  moreover have "(\<Sum>v<ts_workers s. taken_by s' v) + taken_by s w = (\<Sum>v<ts_workers s. taken_by s v) + taken_by s' w"
    by (rule sum_fun_upd_nat[of w "taken_by s'" "taken_by s", OF o w], assumption, rule add.commute)
  moreover note signal_invD(9)[OF I]
  ultimately show ?thesis unfolding wk by linarith
qed

lemma move_quiet:
  assumes "ts_move w s s'" and "\<not> role_place (ts_pc s w)" and "\<not> role_place (ts_pc s' w)"
  shows "ts_fsig s' = ts_fsig s" "ts_front s' = ts_front s" "ts_pending s' = ts_pending s" "ts_waiting s' = ts_waiting s"
    "ts_collected s' = ts_collected s" "set (ts_ready s') \<subseteq> set (ts_ready s)" "ts_lock_queue s' = ts_lock_queue s"
    "ts_lock s' = ts_lock s"
  using assms by (cases; auto simp: move_defs split: list.splits)+

lemma move_run_deadline:
  assumes "ts_move w s s'" and "ts_deadline s' t \<noteq> ts_deadline s t"
  shows "dispatching (ts_pc s w) = Some t"
  using assms by cases (auto simp: move_defs split: list.splits if_splits)

lemma signal_move:
  assumes I: "signal_inv s" and L: "role_inv s" and P: "place_inv s" and T: "token_inv s" and H: "heap_inv_ts s"
    and m: "ts_move w s s'"
  shows "signal_inv s'"
  unfolding signal_inv_def
proof (intro conjI allI impI)
  note S = signal_invD[OF I]
  have calls: "ts_call s' = ts_call s" using m by cases (auto simp: move_defs split: list.splits)
  have role': "role_inv s'" by (rule role_move[OF L P m])
  have quiet: "\<not> role_place (ts_pc s w) \<and> \<not> role_place (ts_pc s' w)" if "role_place (ts_pc s' v)" "v \<noteq> w" for v
    using role_unique[OF role' that(1), of w] role_unique[OF L, of v w] that move_other[OF m that(2)] by auto
  have lockq: "ts_lock_queue s = []" if "ts_lock s = None" using L that by (auto simp: role_inv_def)
  show "ts_rsig s' \<or> (\<exists>w. elects_place (ts_pc s' w) \<or> elects_call (ts_call s' w))" if l: "ts_lock s' = None"
  proof -
    have "ts_rsig s' \<or> elects_place (ts_pc s' w) \<or> ts_lock s = None \<and> ts_rsig s' = ts_rsig s \<and> \<not> elects_place (ts_pc s w)"
      using m l by cases (auto simp: move_defs split: list.splits)
    then show ?thesis
    proof (elim disjE)
      assume a: "ts_lock s = None \<and> ts_rsig s' = ts_rsig s \<and> \<not> elects_place (ts_pc s w)"
      then consider "ts_rsig s'" | v where "elects_place (ts_pc s v)" | v where "elects_call (ts_call s v)" using S(1) by auto
      then show ?thesis
      proof cases
        case (2 v)
        then have "v \<noteq> w" using a by auto
        then have "elects_place (ts_pc s' v)" using move_other[OF m] 2 by simp
        then show ?thesis by blast
      qed (use calls in auto)
    qed blast+
  qed
  fix v
  show "ts_fsig s' \<or> (\<exists>v. ts_call s' v = SendFront)" if f: "front_seen (ts_pc s' v) \<and> ts_front s' \<noteq> []"
  proof (cases "v = w")
    case True
    have "front_seen (ts_pc s w) \<and> ts_front s \<noteq> [] \<and> ts_fsig s' = ts_fsig s"
      using m f unfolding True by cases (auto simp: move_defs split: list.splits if_splits)
    then show ?thesis using S(2) calls by auto
  next
    case False
    have r: "\<not> role_place (ts_pc s w)" "\<not> role_place (ts_pc s' w)" using quiet[OF front_seen_role False] f by blast+
    show ?thesis using S(2)[of v] f move_other[OF m False] move_quiet(1,2)[OF m r] calls by auto
  qed
  show "ts_fsig s'" if f: "role_place (ts_pc s' v) \<and> ts_pc s' v \<noteq> Unlock \<and> ts_lock_queue s' \<noteq> []"
  proof (cases "v = w")
    case True
    have "role_place (ts_pc s w) \<and> ts_pc s w \<noteq> Unlock \<and> ts_lock_queue s \<noteq> [] \<and> ts_fsig s' = ts_fsig s"
      using m f lockq unfolding True by cases (auto simp: move_defs split: list.splits if_splits)
    then show ?thesis using S(3) by auto
  next
    case False
    have r: "\<not> role_place (ts_pc s w)" "\<not> role_place (ts_pc s' w)" using quiet[OF _ False] f by blast+
    show ?thesis using S(3)[of v] f move_other[OF m False] move_quiet(1,7)[OF m r] by auto
  qed
  show "\<exists>w. collecting (ts_pc s' w)" if c: "ts_collected s' \<noteq> []"
  proof -
    have "collecting (ts_pc s' w) \<or> ts_collected s' = ts_collected s \<and> (collecting (ts_pc s w) \<longrightarrow> ts_collected s = [])"
      using m by cases (auto simp: move_defs split: list.splits)
    then show ?thesis
    proof
      assume a: "ts_collected s' = ts_collected s \<and> (collecting (ts_pc s w) \<longrightarrow> ts_collected s = [])"
      then obtain v where v: "collecting (ts_pc s v)" using S(4) c by auto
      then have "v \<noteq> w" using a c by auto
      then have "collecting (ts_pc s' v)" using move_other[OF m] v by simp
      then show ?thesis by blast
    qed blast
  qed
  have sl: "ts_pending s' = [] \<and> ts_ready s' = []" if f: "sleeping (ts_pc s' v)"
  proof (cases "v = w")
    case True
    from m f show ?thesis unfolding True using S(5)[of w] S(9) by cases (auto simp: move_defs split: list.splits)
  next
    case False
    have r: "\<not> role_place (ts_pc s w)" "\<not> role_place (ts_pc s' w)" using quiet[OF sleeping_role[OF f] False] by blast+
    show ?thesis using S(5)[of v] f move_other[OF m False] move_quiet(3,6)[OF m r] by auto
  qed
  then show "sleeping (ts_pc s' v) \<Longrightarrow> ts_pending s' = []" "sleeping (ts_pc s' v) \<Longrightarrow> ts_ready s' = []" by blast+
  have sw: "ts_waiting s' = ts_waiting s" if "sleeping (ts_pc s' v)" "v \<noteq> w"
    using move_quiet(4)[OF m] quiet[OF sleeping_role[OF that(1)] that(2)] by blast
  show "ts_sleepers s' \<noteq> {}" if f: "ts_pc s' v = CheckDeadline"
  proof (cases "v = w")
    case True
    from m f show ?thesis unfolding True by cases (auto simp: move_defs split: list.splits)
  next
    case False
    then show ?thesis using S(6)[of v] f move_other[OF m False] sw by simp
  qed
  show "ts_sleepers s' = {}" if f: "ts_pc s' v = SleepBlocking"
  proof (cases "v = w")
    case True
    from m f show ?thesis unfolding True by cases (auto simp: move_defs split: list.splits)
  next
    case False
    then show ?thesis using S(7)[of v] f move_other[OF m False] sw by simp
  qed
  fix d
  show "\<forall>t \<in> ts_sleepers s'. d \<le> ts_deadline s' t" if f: "ts_pc s' v = SleepTimed d"
  proof (cases "v = w")
    case True
    from m f show ?thesis unfolding True by cases (auto simp: move_defs split: list.splits)
  next
    case False
    have "ts_deadline s' t = ts_deadline s t" if "t \<in> ts_sleepers s" for t
      using move_run_deadline[OF m, of t] token_invD(6)[OF T, of w t] may_sleepD(1)[OF heap_invD(2)[OF H that]] by blast
    then show ?thesis using S(8)[of v d] f move_other[OF m False] sw False by simp
  qed
qed (rule count_move[OF I P m])

lemma ts_inv_move:
  assumes I: "ts_inv s" and m: "ts_move w s s'"
  shows "ts_inv s'"
  unfolding ts_inv_def
  using role_move[OF _ _ m] place_move[OF _ m] token_move[OF _ _ m] heap_move[OF _ _ _ m] awake_move[OF _ _ m]
    signal_move[OF _ _ _ _ _ m] reason_move[OF _ _ _ _ m] ts_invD[OF I]
  by blast

end
