(* ===== verification/Scheduler_Calls.thy ===== *)
theory Scheduler_Calls
  imports Scheduler_Moves
begin

text \<open>
  The calls of the clients keep the invariant of the scheduler: \<^verbatim>\<open>PostWakeup\<close>, \<^verbatim>\<open>PostSignal\<close>, the pushes to the
  front queue and \<^verbatim>\<open>IsEmpty\<close> step by step, the actions on tasks that are not in the scheduler, the end of a callback,
  and the clock. With the initial state this makes it an invariant of all reachable states.
\<close>

text \<open>The parts of the invariant that do not look at the calls.\<close>

lemma tasks_frame:
  assumes "ts_pc s' = ts_pc s" "ts_waiting s' = ts_waiting s" "ts_posted s' = ts_posted s" "ts_status s' = ts_status s"
    "ts_deadline s' = ts_deadline s" "ts_collected s' = ts_collected s" "ts_ready s' = ts_ready s"
    "ts_expired s' = ts_expired s" "ts_asked s' = ts_asked s" "ts_now s' = ts_now s" "ts_timestamp s' = ts_timestamp s"
  shows "heap_inv_ts s' = heap_inv_ts s" "awake_inv s' = awake_inv s" "reason_inv s' = reason_inv s"
  using assms by (simp_all add: heap_inv_ts_def awake_inv_def reason_inv_def may_sleep_def to_run_def is_awake_def ts_heap_def)

lemma place_call:
  assumes "place_inv s" and "client_place (ts_pc s w)" and "c \<noteq> AbortedCall"
    and "ts_pc s' = ts_pc s" "ts_call s' = (ts_call s)(w := c)" "ts_workers s' = ts_workers s" "ts_exec_batch s' = ts_exec_batch s"
  shows "place_inv s'"
  using assms by (auto simp: place_inv_def)

lemma role_call_goto:
  assumes "role_inv s" and "role_call c = role_call (ts_call s w)" "c \<noteq> EmptyWait" "ts_call s w \<noteq> EmptyWait"
    and "ts_pc s' = ts_pc s" "ts_lock s' = ts_lock s" "ts_lock_queue s' = ts_lock_queue s" "ts_call s' = (ts_call s)(w := c)"
  shows "role_inv s'"
  using assms by (auto simp: role_inv_def has_role_def)

lemma signal_call_goto:
  assumes I: "signal_inv s" and c: "ts_call s' = (ts_call s)(w := c)" 
    and same: "ts_pc s' = ts_pc s" "ts_collected s' = ts_collected s" "ts_pending s' = ts_pending s" "ts_ready s' = ts_ready s"
      "ts_ready_count s' = ts_ready_count s" "ts_workers s' = ts_workers s" "ts_waiting s' = ts_waiting s" "ts_deadline s' = ts_deadline s"
    and l: "ts_lock s' = None \<Longrightarrow> elects_call c \<or> ts_rsig s' \<or> ts_lock s = None \<and> ts_rsig s' = ts_rsig s \<and> \<not> elects_call (ts_call s w)"
    and f: "ts_front s' \<noteq> [] \<Longrightarrow> c = SendFront \<or> ts_fsig s' \<or> ts_front s \<noteq> [] \<and> ts_fsig s' = ts_fsig s \<and> ts_call s w \<noteq> SendFront"
    and q: "\<And>v. role_place (ts_pc s v) \<Longrightarrow> ts_lock_queue s' \<noteq> [] \<Longrightarrow> ts_fsig s' \<or> ts_lock_queue s \<noteq> [] \<and> ts_fsig s' = ts_fsig s"
  shows "signal_inv s'"
  unfolding signal_inv_def same
proof (intro conjI allI impI)
  note S = signal_invD[OF I]
  show "ts_rsig s' \<or> (\<exists>w. elects_place (ts_pc s w) \<or> elects_call (ts_call s' w))" if "ts_lock s' = None"
    using l[OF that]
  proof (elim disjE)
    assume a: "ts_lock s = None \<and> ts_rsig s' = ts_rsig s \<and> \<not> elects_call (ts_call s w)"
    then consider "ts_rsig s'" | v where "elects_place (ts_pc s v)" | v where "elects_call (ts_call s v)" using S(1) by auto
    then show ?thesis
    proof cases
      case (3 v)
      with a have "elects_call (ts_call s' v)" by (auto simp: c)
      then show ?thesis by blast
    qed auto
  qed (auto simp: c)
  fix v
  show "ts_fsig s' \<or> (\<exists>v. ts_call s' v = SendFront)" if a: "front_seen (ts_pc s v) \<and> ts_front s' \<noteq> []"
  proof -
    from f a consider "c = SendFront" | "ts_fsig s'" | "ts_front s \<noteq> []" "ts_fsig s' = ts_fsig s" "ts_call s w \<noteq> SendFront" by blast
    then show ?thesis
    proof cases
      case 1
      then have "ts_call s' w = SendFront" by (simp add: c)
      then show ?thesis by blast
    next
      case 3
      from S(2)[of v] a 3 consider "ts_fsig s'" | x where "ts_call s x = SendFront" by auto
      then show ?thesis
      proof cases
        case (2 x)
        with 3 have "ts_call s' x = SendFront" by (auto simp: c)
        then show ?thesis by blast
      qed simp
    qed simp
  qed
  show "ts_fsig s'" if "role_place (ts_pc s v) \<and> ts_pc s v \<noteq> Unlock \<and> ts_lock_queue s' \<noteq> []"
    using q[of v] S(3)[of v] that by auto
qed (use signal_invD[OF I] same in \<open>auto simp: taken_by_def\<close>)

lemma free_facts:
  assumes T: "token_inv s" and H: "heap_inv_ts s" and f: "ts_free s t"
  shows "t \<notin> set (ts_queued s)" "held_by s w \<noteq> Some t" "\<not> may_sleep s t" "t \<notin> ts_sleepers s" "\<not> to_run s t"
    "late_at (ts_pc s w) \<noteq> Some t" "early_at (ts_pc s w) \<noteq> Some t" "ts_status s t \<noteq> WAITING" "in_limbo (ts_pc s w) \<noteq> Some t"
proof -
  have p: "\<not> ts_posted s t" "dispatching (ts_pc s w) \<noteq> Some t" for w using f by (auto simp: ts_free_def)
  show q: "t \<notin> set (ts_queued s)" using token_invD(4)[OF T, of t] p by blast
  have h: "held_by s w \<noteq> Some t" for w
  proof
    assume a: "held_by s w = Some t"
    then have "dispatching (ts_pc s w) \<noteq> None" using token_invD(5)[OF T a] p by blast
    then obtain u where "dispatching (ts_pc s w) = Some u" by blast
    with held_dispatching[OF this] a p show False by simp
  qed
  then show "held_by s w \<noteq> Some t" .
  show m: "\<not> may_sleep s t" using p by (simp add: may_sleep_def)
  then show "t \<notin> ts_sleepers s" using heap_invD(2)[OF H] by blast
  show "\<not> to_run s t" using q awake_held[of s _ t] h by (auto simp: to_run_def)
  show "in_limbo (ts_pc s w) \<noteq> Some t" using heap_invD(3)[OF H, of w t] m by blast
  then show "late_at (ts_pc s w) \<noteq> Some t" "early_at (ts_pc s w) \<noteq> Some t"
    using h[of w] by (cases "ts_pc s w"; auto simp: held_by_def)+
  show "ts_status s t \<noteq> WAITING" using token_invD(7)[OF T, of t] p by blast
qed

text \<open>Waking and signaling: the task is asked to run.\<close>

lemma asked_frame:
  assumes H: "heap_inv_ts s" and A: "awake_inv s" and R: "reason_inv s" and x: "x = READY \<or> x = SIGNALED"
    and same: "ts_pc s' = ts_pc s" "ts_waiting s' = ts_waiting s" "ts_posted s' = ts_posted s"
    "ts_deadline s' = ts_deadline s" "ts_collected s' = ts_collected s" "ts_ready s' = ts_ready s"
    "ts_expired s' = ts_expired s" "ts_now s' = ts_now s" "ts_timestamp s' = ts_timestamp s"
    and st: "ts_status s' = (ts_status s)(t := x)" "ts_asked s' = (ts_asked s)(t := True)"
  shows "heap_inv_ts s'" "awake_inv s'" "reason_inv s'"
proof -
  have m: "may_sleep s u \<Longrightarrow> may_sleep s' u" for u using x by (auto simp: may_sleep_def same st)
  have r: "to_run s' u = to_run s u" for u by (simp add: to_run_def same)
  have h: "ts_heap s' = ts_heap s" by (simp add: ts_heap_def same)
  show "heap_inv_ts s'"
    using H m x unfolding heap_inv_ts_def h same st by auto
  show "awake_inv s'" using A x by (auto simp: awake_inv_def is_awake_def same st)
  show "reason_inv s'" using R x unfolding reason_inv_def r by (simp add: same st)
qed

section \<open>Steps of the calls\<close>

lemma token_call:
  assumes I: "token_inv s" and s': "ts_pc s' = ts_pc s" "ts_call s' = (ts_call s)(w := c)" "call_holds c = call_holds (ts_call s w)"
    and "ts_posted s' = ts_posted s" "\<And>t. (ts_status s' t = WAITING) = (ts_status s t = WAITING)" "ts_queued s' = ts_queued s"
  shows "token_inv s'"
proof -
  have h: "held_by s' = held_by s" using s'(3) by (auto simp: held_by_def s' fun_eq_iff split: option.splits)
  show ?thesis using I unfolding token_inv_def on_the_way_def h s'(1) assms(5-7) .
qed

lemma client_holds: "client_place p \<Longrightarrow> place_holds p = None \<and> dispatching p = None \<and> \<not> role_place p"
  by (cases p) auto

lemma held_client: "client_place (ts_pc s w) \<Longrightarrow> held_by s w = call_holds (ts_call s w)"
  using client_holds[of "ts_pc s w"] by (simp add: held_by_def)

text \<open>A step inside a call that touches no task.\<close>

lemma ts_inv_quiet_call:
  assumes I: "ts_inv s" and cl: "client_place (ts_pc s w)" and c: "ts_call s' = (ts_call s)(w := c)" "c \<noteq> AbortedCall"
      "call_holds c = call_holds (ts_call s w)"
    and same: "ts_pc s' = ts_pc s" "ts_waiting s' = ts_waiting s" "ts_posted s' = ts_posted s" "ts_status s' = ts_status s"
    "ts_deadline s' = ts_deadline s" "ts_collected s' = ts_collected s" "ts_ready s' = ts_ready s"
    "ts_expired s' = ts_expired s" "ts_asked s' = ts_asked s" "ts_now s' = ts_now s" "ts_timestamp s' = ts_timestamp s"
    "ts_pending s' = ts_pending s" "ts_front s' = ts_front s"
    "ts_ready_count s' = ts_ready_count s" "ts_workers s' = ts_workers s" "ts_exec_batch s' = ts_exec_batch s"
    and R: "role_inv s'"
    and l: "ts_lock s' = None \<Longrightarrow> elects_call c \<or> ts_rsig s' \<or> ts_lock s = None \<and> ts_rsig s' = ts_rsig s \<and> \<not> elects_call (ts_call s w)"
    and f: "ts_fsig s' \<or> ts_fsig s' = ts_fsig s \<and> ts_call s w \<noteq> SendFront"
    and q: "\<And>v. role_place (ts_pc s v) \<Longrightarrow> ts_lock_queue s' \<noteq> [] \<Longrightarrow> ts_fsig s' \<or> ts_lock_queue s \<noteq> [] \<and> ts_fsig s' = ts_fsig s"
  shows "ts_inv s'"
  unfolding ts_inv_def
proof (intro conjI)
  note H = ts_invD[OF I]
  show "place_inv s'" by (rule place_call[OF H(2) cl, of c]) (use c same in auto)
  show "token_inv s'" by (rule token_call[OF H(3), of s' w c]) (use c same in auto)
  show "heap_inv_ts s'" "awake_inv s'" "reason_inv s'" using tasks_frame[of s' s, OF same(1-11)] H by auto
  show "signal_inv s'"
    by (rule signal_call_goto[OF H(6) c(1) same(1,6,12,7,14,15,2,5) l _ q]) (use f same in auto)
qed (rule R)

text \<open>The mutex is passed on by a thread that calls.\<close>

lemma role_release:
  assumes R: "role_inv s" and lw: "ts_lock s = Some w" and c: "ts_call s' = (ts_call s)(w := c)" "\<not> role_call c" "c \<noteq> EmptyWait"
    "ts_call s w \<noteq> EmptyWait"
    and nr: "\<And>v. \<not> role_place (ts_pc s v)" and pc: "ts_pc s' = ts_pc s"
    and l: "ts_lock s' = ts_lock (ts_release s)" "ts_lock_queue s' = ts_lock_queue (ts_release s)"
  shows "role_inv s'"
proof -
  have o: "has_role s v \<longleftrightarrow> v = w" for v using R lw by (auto simp: role_inv_def)
  have q: "distinct (ts_lock_queue s)" "\<And>v. v \<in> set (ts_lock_queue s) \<Longrightarrow> ts_call s v = EmptyWait"
    using R by (auto simp: role_inv_def)
  have nc: "\<not> role_call (ts_call s v) \<and> (ts_call s v = EmptyWait \<longrightarrow> v \<in> set (ts_lock_queue s))" if "v \<noteq> w" for v
    using o[of v] that by (auto simp: has_role_def)
  show ?thesis
  proof (cases "ts_lock_queue s")
    case Nil
    then have "\<not> has_role s' v" for v using nc[of v] nr[of v] c pc by (cases "v = w") (auto simp: has_role_def)
    then show ?thesis using Nil l by (simp add: role_inv_def ts_release_def)
  next
    case (Cons u us)
    have u: "u \<noteq> w" "u \<notin> set us" "ts_call s u = EmptyWait" using q Cons c(4) by auto
    have "w \<notin> set us" using q(2)[of w] Cons c(4) by auto
    moreover have "has_role s' v \<longleftrightarrow> v = u" for v
      using nc[of v] nr[of v] c pc u q(2)[of v] Cons l by (cases "v = w") (auto simp: has_role_def ts_release_def)
    ultimately show ?thesis using Cons l q c by (auto simp: role_inv_def ts_release_def)
  qed
qed

lemma ts_inv_call:
  assumes I: "ts_inv s" and st: "ts_call_step w s = Some s'"
  shows "ts_inv s'"
proof -
  note H = ts_invD[OF I]
  have n: "ts_call s w \<noteq> NoCall" using st by (auto simp: ts_call_step_def)
  then have cl: "client_place (ts_pc s w)" using place_invD(1)[OF H(2)] by blast
  note hc = held_client[OF cl]
  have pc: "ts_pc s = (ts_pc s)(w := ts_pc s w)" by simp
  have cp: "place_holds (ts_pc s w) = None" "dispatching (ts_pc s w) = None" "\<not> role_place (ts_pc s w)" using client_holds[OF cl] by auto
  note T = token_invD[OF H(3)]
  have quiet: "ts_inv (ts_at_call w c s)"
    if "c \<noteq> AbortedCall" "call_holds c = call_holds (ts_call s w)" "role_inv (ts_at_call w c s)" "\<not> elects_call (ts_call s w)" "ts_call s w \<noteq> SendFront" for c
    by (rule ts_inv_quiet_call[OF I cl, where c = c]) (use that in \<open>auto simp: ts_at_call_def\<close>)
  have goto: "role_inv (ts_at_call w c s)"
    if "role_call c = role_call (ts_call s w)" "c \<noteq> EmptyWait" "ts_call s w \<noteq> EmptyWait" for c
    by (rule role_call_goto[OF H(1), where w = w and c = c]) (use that in \<open>auto simp: ts_at_call_def\<close>)
  show ?thesis
  proof (cases "ts_call s w")
    case (PushFront t)
    have h: "held_by s w = Some t" using hc PushFront by simp
    have p: "ts_posted s t" "ts_status s t \<noteq> WAITING" using T(5)[OF h cp(2)] by auto
    define c :: "'a ts_in_call" where "c = (if ts_front s = [] then SendFront else NoCall)"
    have s': "s' = ts_at_call w c (s\<lparr>ts_front := ts_front s @ [t]\<rparr>)"
      using st PushFront p by (simp add: ts_call_step_def ts_push_front_def c_def)
    have cc: "c \<noteq> AbortedCall" "call_holds c = None" "\<not> role_call c" "c \<noteq> EmptyWait" "\<not> elects_call c" by (auto simp: c_def)
    have h': "held_by s' w = None" using cc cp by (simp add: s' held_by_def ts_at_call_def)
    show ?thesis
      unfolding ts_inv_def
    proof (intro conjI)
      show "role_inv s'" by (rule role_call_goto[OF H(1), where w = w and c = c]) (use cc PushFront in \<open>auto simp: s' ts_at_call_def\<close>)
      show "place_inv s'" by (rule place_call[OF H(2) cl, of c]) (use cc in \<open>auto simp: s' ts_at_call_def\<close>)
      show "token_inv s'"
      proof (rule token_upd[OF H(3), where w = w and t = t and p = "ts_pc s w" and c = c])
        show "held_by s w \<in> {None, Some t}" "held_by s' w \<in> {None, Some t}" using h h' by auto
        show "held_by s v \<noteq> Some t" if "v \<noteq> w" for v using T(2)[OF h, of v] that by blast
        show "distinct (ts_queued s')" using T(1) T(3)[OF h] by (auto simp: s' ts_at_call_def)
      qed (use p h' T(3)[OF h] cp in \<open>auto simp: s' ts_at_call_def\<close>)
      show "heap_inv_ts s'" "awake_inv s'" "reason_inv s'" using tasks_frame[of s' s] H by (auto simp: s' ts_at_call_def)
      show "signal_inv s'"
        by (rule signal_call_goto[OF H(6), where w = w and c = c]) (use PushFront in \<open>auto simp: s' ts_at_call_def c_def\<close>)
    qed
  next
    case SendFront
    have s': "s' = ts_at_call w NoCall (s\<lparr>ts_fsig := True\<rparr>)"
      using st SendFront by (simp add: ts_call_step_def ts_send_front_def)
    show ?thesis
    proof (rule ts_inv_quiet_call[OF I cl, where c = NoCall])
      show "role_inv s'" by (rule role_call_goto[OF H(1), where w = w and c = NoCall]) (use SendFront in \<open>auto simp: s' ts_at_call_def\<close>)
    qed (use SendFront in \<open>auto simp: s' ts_at_call_def\<close>)
  next
    case (WakeCas t old)
    show ?thesis
    proof (cases "ts_status s t = old")
      case False
      then have "s' = ts_wake_check w t (ts_status s t) s" using st WakeCas by (simp add: ts_call_step_def ts_wake_cas_def)
      then show ?thesis using WakeCas by (auto simp: ts_wake_check_def intro!: quiet goto)
    next
      case True
      define c :: "'a ts_in_call" where "c = (if old = WAITING then PushFront t else NoCall)"
      have s': "s' = ts_at_call w c (ts_set_status t READY (s\<lparr>ts_asked := (ts_asked s)(t := True)\<rparr>))"
        using st WakeCas True by (simp add: ts_call_step_def ts_wake_cas_def c_def)
      have cc: "c \<noteq> AbortedCall" "\<not> role_call c" "c \<noteq> EmptyWait" "\<not> elects_call c" by (auto simp: c_def)
      have h: "held_by s w = None" using hc WakeCas by simp
      have h': "held_by s' w = call_holds c" using cp by (simp add: s' held_by_def ts_at_call_def ts_set_status_def)
      show ?thesis
        unfolding ts_inv_def
      proof (intro conjI)
        show "role_inv s'" by (rule role_call_goto[OF H(1), where w = w and c = c]) (use cc WakeCas in \<open>auto simp: s' move_defs\<close>)
        show "place_inv s'" by (rule place_call[OF H(2) cl, of c]) (use cc in \<open>auto simp: s' move_defs\<close>)
        show "token_inv s'"
        proof (cases "old = WAITING")
          case True
          then have w: "ts_status s t = WAITING" using \<open>ts_status s t = old\<close> by simp
          show ?thesis
          proof (rule token_upd[OF H(3), where w = w and t = t and p = "ts_pc s w" and c = c])
            show "held_by s w \<in> {None, Some t}" "held_by s' w \<in> {None, Some t}" using h h' by (auto simp: c_def)
            show "held_by s v \<noteq> Some t" for v using T(8)[OF w, of v] by blast
          qed (use w h' T(1) T(7)[OF w] T(8)[OF w] cp True in \<open>auto simp: s' move_defs c_def\<close>)
        next
          case False
          show ?thesis
            by (rule token_call[OF H(3), of s' w c]) (use False True WakeCas in \<open>auto simp: s' move_defs c_def\<close>)
        qed
        show "heap_inv_ts s'" "awake_inv s'" "reason_inv s'"
          using asked_frame[OF H(4,5,7), of READY s' t] by (auto simp: s' move_defs)
        show "signal_inv s'"
          by (rule signal_call_goto[OF H(6), where w = w and c = c]) (use WakeCas in \<open>auto simp: s' move_defs c_def\<close>)
      qed
    qed
  next
    case EmptyLock
    show ?thesis
    proof (cases "ts_lock s = None")
      case True
      have s': "s' = ts_at_call w (EmptyWorker 0) (s\<lparr>ts_lock := Some w\<rparr>)"
        using st EmptyLock True by (simp add: ts_call_step_def ts_empty_lock_def)
      show ?thesis
      proof (rule ts_inv_quiet_call[OF I cl, where c = "EmptyWorker 0"])
        show "role_inv s'" using H(1) True EmptyLock by (auto simp: role_inv_def has_role_def s' ts_at_call_def)
        show "ts_fsig s' \<or> ts_lock_queue s \<noteq> [] \<and> ts_fsig s' = ts_fsig s" if "ts_lock_queue s' \<noteq> []"
          using that H(1) True by (auto simp: role_inv_def s' ts_at_call_def)
      qed (use EmptyLock in \<open>auto simp: s' ts_at_call_def\<close>)
    next
      case False
      have s': "s' = ts_at_call w EmptyWait
             (s\<lparr>ts_fsig := (ts_lock_queue s = [] \<or> ts_fsig s), ts_lock_queue := ts_lock_queue s @ [w]\<rparr>)"
        using st EmptyLock False by (simp add: ts_call_step_def ts_empty_lock_def)
      show ?thesis
      proof (rule ts_inv_quiet_call[OF I cl, where c = EmptyWait])
        show "role_inv s'" using H(1) False EmptyLock cp by (auto simp: role_inv_def has_role_def s' ts_at_call_def)
      qed (use EmptyLock False in \<open>auto simp: s' ts_at_call_def\<close>)
    qed
  next
    case EmptyWait
    then have s': "s' = ts_at_call w (EmptyWorker 0) s" "ts_lock s = Some w"
      using st by (auto simp: ts_call_step_def split: if_splits)
    have "has_role s w" using H(1) s'(2) by (simp add: role_inv_def)
    then have "w \<notin> set (ts_lock_queue s)" using EmptyWait cp by (simp add: has_role_def)
    then have "role_inv s'" using H(1) EmptyWait s'(2) by (auto simp: role_inv_def has_role_def s'(1) ts_at_call_def)
    then show ?thesis using EmptyWait unfolding s'(1) by (intro quiet) auto
  next
    case (EmptyWorker i)
    then show ?thesis using st by (auto simp: ts_call_step_def ts_empty_worker_def split: if_splits intro!: quiet goto)
  next
    case EmptyFront
    then show ?thesis using st by (auto simp: ts_call_step_def ts_empty_front_def split: if_splits intro!: quiet goto)
  next
    case EmptyRest
    then show ?thesis using st by (auto simp: ts_call_step_def ts_empty_rest_def intro!: quiet goto)
  next
    case (EmptyUnlock r)
    have s': "s' = ts_at_call w (EmptySend r) (ts_release s)"
      using st EmptyUnlock by (simp add: ts_call_step_def ts_empty_unlock_def)
    have lw: "ts_lock s = Some w" using H(1) EmptyUnlock by (auto simp: role_inv_def has_role_def)
    have nr: "\<not> role_place (ts_pc s v)" for v
      using H(1) lw cp(3) unfolding role_inv_def has_role_def by (metis option.inject)
    show ?thesis
    proof (rule ts_inv_quiet_call[OF I cl, where c = "EmptySend r"])
      show "role_inv s'"
        by (rule role_release[OF H(1) lw, where c = "EmptySend r"]) (use EmptyUnlock nr in \<open>auto simp: s' ts_at_call_def ts_release_def split: list.splits\<close>)
    qed (use EmptyUnlock nr in \<open>auto simp: s' move_defs split: list.splits\<close>)
  next
    case (EmptySend r)
    have s': "s' = ts_at_call w (EmptyReturn r) (s\<lparr>ts_rsig := True\<rparr>)"
      using st EmptySend by (simp add: ts_call_step_def ts_empty_send_def)
    show ?thesis
    proof (rule ts_inv_quiet_call[OF I cl, where c = "EmptyReturn r"])
      show "role_inv s'" by (rule role_call_goto[OF H(1), where w = w and c = "EmptyReturn r"]) (use EmptySend in \<open>auto simp: s' move_defs\<close>)
    qed (use EmptySend in \<open>auto simp: s' ts_at_call_def\<close>)
  next
    case (EmptyReturn r)
    then show ?thesis using st by (auto simp: ts_call_step_def intro!: quiet goto)
  qed (use st n place_invD(4)[OF H(2), of w] in \<open>auto simp: ts_call_step_def\<close>)
qed

section \<open>Clients, clock and the initial state\<close>

lemma place_frame:
  assumes "ts_pc s' = ts_pc s" "ts_call s' = ts_call s" "ts_workers s' = ts_workers s" "ts_exec_batch s' = ts_exec_batch s"
  shows "place_inv s' = place_inv s"
  by (simp only: place_inv_def assms)

lemma ts_inv_started:
  assumes "0 < sub" and "0 < n"
  shows "ts_inv (ts_started sub n :: 'k ts)"
proof -
  let ?s = "ts_started sub n :: 'k ts"
  have n: "0 < unat n" "0 < unat sub" using assms by (auto simp: unat_gt_0 word_gt_0)
  have pc: "ts_pc ?s w = Starting \<or> ts_pc ?s w = Outside" for w by (simp add: ts_started_def)
  have no: "place_holds (ts_pc ?s w) = None" "in_limbo (ts_pc ?s w) = None" "popped_at (ts_pc ?s w) = None"
    "awake_at (ts_pc ?s w) = None" "late_at (ts_pc ?s w) = None" "early_at (ts_pc ?s w) = None" "dispatching (ts_pc ?s w) = None"
    "\<not> role_place (ts_pc ?s w)" "\<not> front_seen (ts_pc ?s w)" "\<not> sleeping (ts_pc ?s w)" "batch_at (ts_pc ?s w) = None"
    "taken_by ?s w = 0" for w
    using pc[of w] by (auto simp: taken_by_def)
  have call: "ts_call ?s w = NoCall" for w by (simp add: ts_started_def)
  have r: "role_inv ?s" unfolding role_inv_def has_role_def using no call by (simp add: ts_started_def)
  have p: "place_inv ?s" unfolding place_inv_def using n pc no(11) call by (auto simp: ts_started_def)
  have h: "held_by ?s w = None" for w using no call by (simp add: held_by_def)
  have t: "token_inv ?s" unfolding token_inv_def on_the_way_def h no(7) by (simp add: ts_started_def)
  have hp: "heap_inv_ts ?s" unfolding heap_inv_ts_def no(2)
    by (simp add: ts_started_def heap_ok_def heap_inv_def index_inv_def empty_heap_def)
  have a: "awake_inv ?s" unfolding awake_inv_def no(4) by (simp add: ts_started_def)
  have sl: "ts_pc ?s w \<noteq> CheckDeadline" "ts_pc ?s w \<noteq> SleepBlocking" "ts_pc ?s w \<noteq> SleepTimed d" for w d
    using pc[of w] by auto
  have "(\<Sum>w<ts_workers ?s. taken_by ?s w) = 0" using no(12) by simp
  then have s: "signal_inv ?s" unfolding signal_inv_def using no(8-10) sl by (simp add: ts_started_def)
  have "reason_inv ?s" unfolding reason_inv_def no(5,6) to_run_def no(4) by (simp add: ts_started_def)
  with r p t hp a s show ?thesis by (simp add: ts_inv_def)
qed

lemma ts_inv_env:
  assumes I: "ts_inv s" and e: "ts_env s s'"
  shows "ts_inv s'"
proof -
  note H = ts_invD[OF I]
  note T = token_invD[OF H(3)]
  from e show ?thesis
  proof cases
    case (post w t)
    have cl: "client_place (ts_pc s w)" and nc: "ts_call s w = NoCall" using post by (auto simp: ts_client_def)
    note cp = client_holds[OF cl]
    note F = free_facts[OF H(3,4) \<open>ts_free s t\<close>]
    have np: "\<not> ts_posted s t" "\<And>v. dispatching (ts_pc s v) \<noteq> Some t" using post by (auto simp: ts_free_def)
    have s': "s' = ts_at_call w (PushFront t) (s\<lparr>ts_posted := (ts_posted s)(t := True)\<rparr>)" using post by (simp add: ts_post_def)
    have h: "held_by s w = None" "held_by s' w = Some t"
      using held_client[OF cl] nc cp by (auto simp: s' held_by_def ts_at_call_def)
    show ?thesis
      unfolding ts_inv_def
    proof (intro conjI)
      show "role_inv s'" by (rule role_call_goto[OF H(1), where w = w and c = "PushFront t"]) (use nc in \<open>auto simp: s' ts_at_call_def\<close>)
      show "place_inv s'" by (rule place_call[OF H(2) cl, of "PushFront t"]) (auto simp: s' ts_at_call_def)
      show "token_inv s'"
      proof (rule token_upd[OF H(3), where w = w and t = t and p = "ts_pc s w" and c = "PushFront t"])
        show "held_by s w \<in> {None, Some t}" "held_by s' w \<in> {None, Some t}" using h by auto
        show "held_by s v \<noteq> Some t" for v using F(2) by blast
        show "distinct (ts_queued s')" using T(1) by (simp add: s' ts_at_call_def)
        show "t \<in> set (ts_queued s') \<or> held_by s' w = Some t \<and> dispatching (ts_pc s w) = None \<longleftrightarrow> ts_posted s' t \<and> ts_status s' t \<noteq> WAITING"
          using F(8) cp h by (simp add: s' ts_at_call_def)
        show "held_by s' w = Some t \<longrightarrow> t \<notin> set (ts_queued s')" using F(1) by (simp add: s' ts_at_call_def)
      qed (use cp in \<open>auto simp: s' ts_at_call_def\<close>)
      have m: "may_sleep s u \<Longrightarrow> may_sleep s' u" for u by (auto simp: may_sleep_def s' ts_at_call_def)
      have hp: "ts_heap s' = ts_heap s" by (simp add: ts_heap_def s' ts_at_call_def)
      show "heap_inv_ts s'" using H(4) m unfolding heap_inv_ts_def hp by (auto simp: s' ts_at_call_def)
      have r: "to_run s' u = to_run s u" for u by (simp add: to_run_def s' ts_at_call_def)
      show "awake_inv s'" using H(5) by (auto simp: awake_inv_def is_awake_def s' ts_at_call_def)
      show "reason_inv s'" using H(7) unfolding reason_inv_def r by (simp add: s' ts_at_call_def)
      show "signal_inv s'"
        by (rule signal_call_goto[OF H(6), where w = w and c = "PushFront t"]) (use nc in \<open>auto simp: s' ts_at_call_def\<close>)
    qed
  next
    case (set_deadline t d)
    note F = free_facts[OF H(3,4) \<open>ts_free s t\<close>]
    have s': "s' = s\<lparr>ts_deadline := (ts_deadline s)(t := d)\<rparr>" using set_deadline by (simp add: ts_set_deadline_def)
    have m: "may_sleep s u \<Longrightarrow> may_sleep s' u" for u using F(3) by (auto simp: may_sleep_def s')
    have hp: "heap_ok (ts_heap s') (ts_waiting s)"
      by (rule ts_heap_cong[OF heap_invD(1)[OF H(4)]]) (use F(4) in \<open>auto simp: s'\<close>)
    have r: "to_run s' u = to_run s u" for u by (simp add: to_run_def s')
    show ?thesis
      unfolding ts_inv_def
    proof (intro conjI)
      show "role_inv s'" using H(1) by (simp add: s' role_inv_def has_role_def)
      show "place_inv s'" using H(2) place_frame[of s' s] by (simp add: s')
      show "token_inv s'" by (rule token_same[OF H(3), of 0]) (simp_all add: s')
      show "heap_inv_ts s'"
      proof (rule heap_invI)
        show "ts_deadline s' u = TIME_INFINITE \<or> u \<in> ts_sleepers s' \<or> (\<exists>w. in_limbo (ts_pc s' w) = Some u)"
          if "ts_status s' u = WAITING" for u
          using heap_invD(4)[OF H(4), of u] that F(8) by (auto simp: s')
        show "heap_ok (ts_heap s') (ts_waiting s')" using hp by (simp add: s')
      qed (use m heap_invD(2,3)[OF H(4)] in \<open>auto simp: s'\<close>)
      show "awake_inv s'" using H(5) by (simp add: awake_inv_def is_awake_def s')
      show "reason_inv s'" using H(7) F(5,6) unfolding reason_inv_def r by (auto simp: s')
      show "signal_inv s'" using H(6) F(4) unfolding signal_inv_def by (auto simp: s' taken_by_def)
    qed
  next
    case (receive_signal t r)
    note F = free_facts[OF H(3,4) \<open>ts_free s t\<close>]
    show ?thesis
    proof (cases "ts_status s t = SIGNALED")
      case False
      then show ?thesis using receive_signal I by (simp add: ts_receive_signal_def)
    next
      case True
      have s': "s' = ts_set_status t PENDING (s\<lparr>ts_asked := (ts_asked s)(t := False)\<rparr>)"
        using receive_signal True by (simp add: ts_receive_signal_def)
      have m: "may_sleep s u \<Longrightarrow> may_sleep s' u" for u using F(3) by (auto simp: may_sleep_def s' ts_set_status_def)
      have hp: "ts_heap s' = ts_heap s" by (simp add: ts_heap_def s' ts_set_status_def)
      have r: "to_run s' u = to_run s u" for u by (simp add: to_run_def s' ts_set_status_def)
      show ?thesis
        unfolding ts_inv_def
      proof (intro conjI)
        show "role_inv s'" using H(1) by (simp add: s' role_inv_def has_role_def ts_set_status_def)
        show "place_inv s'" using H(2) place_frame[of s' s] by (simp add: s' ts_set_status_def)
        show "token_inv s'" by (rule token_same[OF H(3), of 0]) (use True in \<open>simp_all add: s' ts_set_status_def\<close>)
        show "heap_inv_ts s'" using H(4) m unfolding heap_inv_ts_def hp by (auto simp: s' ts_set_status_def)
        show "awake_inv s'" using H(5) F(5) unfolding awake_inv_alt r by (auto simp: is_awake_def s' ts_set_status_def)
        show "reason_inv s'" using H(7) unfolding reason_inv_def r by (auto simp: s' ts_set_status_def)
        show "signal_inv s'" using H(6) unfolding signal_inv_def by (simp add: s' ts_set_status_def taken_by_def)
      qed
    qed
  next
    case (wakeup w t)
    have cl: "client_place (ts_pc s w)" and nc: "ts_call s w = NoCall" using wakeup by (auto simp: ts_client_def)
    define c :: "'a ts_in_call" where
      "c = (if ts_status s t = SIGNALED \<or> ts_status s t = READY then NoCall else WakeCas t (ts_status s t))"
    have s': "s' = ts_at_call w c s" using wakeup by (simp add: ts_wake_check_def c_def)
    show ?thesis
    proof (rule ts_inv_quiet_call[OF I cl, where c = c])
      show "role_inv s'" by (rule role_call_goto[OF H(1), where w = w and c = c]) (use nc in \<open>auto simp: s' ts_at_call_def c_def\<close>)
    qed (use nc in \<open>auto simp: s' ts_at_call_def c_def\<close>)
  next
    case (signal w t)
    have cl: "client_place (ts_pc s w)" and nc: "ts_call s w = NoCall" using signal by (auto simp: ts_client_def)
    note cp = client_holds[OF cl]
    define c :: "'a ts_in_call" where "c = (if ts_status s t = WAITING then PushFront t else NoCall)"
    have s': "s' = ts_at_call w c (ts_set_status t SIGNALED (s\<lparr>ts_asked := (ts_asked s)(t := True)\<rparr>))"
      using signal by (simp add: ts_signal_def c_def)
    have h: "held_by s w = None" "held_by s' w = call_holds c"
      using held_client[OF cl] nc cp by (auto simp: s' held_by_def move_defs)
    show ?thesis
      unfolding ts_inv_def
    proof (intro conjI)
      show "role_inv s'" by (rule role_call_goto[OF H(1), where w = w and c = c]) (use nc in \<open>auto simp: s' move_defs c_def\<close>)
      show "place_inv s'" by (rule place_call[OF H(2) cl, of c]) (auto simp: s' move_defs c_def)
      show "token_inv s'"
      proof (cases "ts_status s t = WAITING")
        case True
        show ?thesis
        proof (rule token_upd[OF H(3), where w = w and t = t and p = "ts_pc s w" and c = c])
          show "held_by s w \<in> {None, Some t}" "held_by s' w \<in> {None, Some t}" using h by (auto simp: c_def)
          show "held_by s v \<noteq> Some t" for v using T(8)[OF True, of v] by blast
        qed (use True h T(1) T(7)[OF True] T(8)[OF True] cp in \<open>auto simp: s' move_defs c_def\<close>)
      next
        case False
        show ?thesis by (rule token_call[OF H(3), of s' w c]) (use False nc in \<open>auto simp: s' move_defs c_def\<close>)
      qed
      show "heap_inv_ts s'" "awake_inv s'" "reason_inv s'"
        using asked_frame[OF H(4,5,7), of SIGNALED s' t] by (auto simp: s' move_defs)
      show "signal_inv s'"
        by (rule signal_call_goto[OF H(6), where w = w and c = c]) (use nc in \<open>auto simp: s' move_defs c_def\<close>)
    qed
  next
    case (is_empty w)
    have cl: "client_place (ts_pc s w)" and nc: "ts_call s w = NoCall" using is_empty by (auto simp: ts_client_def)
    show ?thesis
    proof (rule ts_inv_quiet_call[OF I cl, where c = EmptyLock])
      show "role_inv s'" by (rule role_call_goto[OF H(1), where w = w and c = EmptyLock]) (use nc is_empty in \<open>auto simp: ts_at_call_def\<close>)
    qed (use nc is_empty in \<open>auto simp: ts_at_call_def\<close>)
  next
    case (callback_done w t b)
    have b: "b < ts_exec_batch s" using place_invD(5)[OF H(2), of w b] callback_done by simp
    define p :: "'a ts_place" where "p = (if b + 1 < ts_exec_batch s then Exec (b + 1) else TryLock)"
    have s': "s' = s\<lparr>ts_pc := (ts_pc s)(w := p)\<rparr>"
      using callback_done b by (auto simp: ts_callback_done_def ts_batch_done_def ts_goto_def p_def)
    note cb = callback_done(2,3)
    have pc: "\<And>v. v \<noteq> w \<Longrightarrow> ts_pc s' v = ts_pc s v" by (simp add: s')
    have r: "to_run s' u = to_run s u" for u
    proof -
      have "awake_at (ts_pc s' v) = awake_at (ts_pc s v)" for v using cb by (cases "v = w") (auto simp: s' p_def)
      then show ?thesis by (simp add: to_run_def s')
    qed
    show ?thesis
      unfolding ts_inv_def
    proof (intro conjI)
      show "role_inv s'" by (rule role_goto[OF H(1), of p w]) (use cb in \<open>auto simp: s' p_def\<close>)
      show "place_inv s'" using H(2) cb b unfolding place_inv_def by (auto simp: s' p_def)
      show "token_inv s'" by (rule token_same[OF H(3), of w]) (use cb in \<open>auto simp: s' p_def\<close>)
      show "heap_inv_ts s'" by (rule heap_goto[OF H(4), of s' p w]) (use cb in \<open>auto simp: s' p_def may_sleep_def\<close>)
      show "awake_inv s'" using H(5) unfolding awake_inv_alt r by (simp add: s' is_awake_def)
      show "reason_inv s'" using H(7) cb unfolding reason_inv_def r by (auto simp: s' p_def)
      have tk: "taken_by s' = taken_by s" using cb by (auto simp: fun_eq_iff taken_by_def s' p_def)
      show "signal_inv s'"
      proof -
        have cls: "front_seen (ts_pc s' v) = front_seen (ts_pc s v)" "role_place (ts_pc s' v) = role_place (ts_pc s v)"
          "collecting (ts_pc s' v) = collecting (ts_pc s v)" "sleeping (ts_pc s' v) = sleeping (ts_pc s v)"
          "(ts_pc s' v = Unlock) = (ts_pc s v = Unlock)" "(ts_pc s' v = CheckDeadline) = (ts_pc s v = CheckDeadline)"
          "(ts_pc s' v = SleepBlocking) = (ts_pc s v = SleepBlocking)" "(ts_pc s' v = SleepTimed d) = (ts_pc s v = SleepTimed d)"
          "elects_place (ts_pc s v) \<Longrightarrow> elects_place (ts_pc s' v)" for v d
          using cb by (cases "v = w"; simp add: s' p_def)+
        have f: "ts_lock s' = ts_lock s" "ts_rsig s' = ts_rsig s" "ts_call s' = ts_call s" "ts_front s' = ts_front s"
          "ts_fsig s' = ts_fsig s" "ts_lock_queue s' = ts_lock_queue s" "ts_collected s' = ts_collected s"
          "ts_pending s' = ts_pending s" "ts_ready s' = ts_ready s" "ts_waiting s' = ts_waiting s" "ts_deadline s' = ts_deadline s"
          "ts_ready_count s' = ts_ready_count s" "ts_workers s' = ts_workers s" by (simp_all add: s')
        have "ts_lock s = None \<longrightarrow> ts_rsig s \<or> (\<exists>w. elects_place (ts_pc s' w) \<or> elects_call (ts_call s w))"
          using signal_invD(1)[OF H(6)] cls(9) by blast
        then show ?thesis using H(6) unfolding signal_inv_def tk cls(1-8) f by blast
      qed
    qed
  next
    case (clock x)
    have le: "ts_deadline s t \<le> x" if "ts_deadline s t \<le> ts_now s" for t using that clock by (meson order_trans)
    have r: "to_run s' u = to_run s u" for u by (simp add: to_run_def clock)
    show ?thesis
      unfolding ts_inv_def
    proof (intro conjI)
      show "role_inv s'" using H(1) by (simp add: clock role_inv_def has_role_def)
      show "place_inv s'" using H(2) place_frame[of s' s] by (simp add: clock)
      show "token_inv s'" by (rule token_same[OF H(3), of 0]) (simp_all add: clock)
      show "heap_inv_ts s'" using H(4) by (simp add: clock heap_inv_ts_def may_sleep_def ts_heap_def)
      show "awake_inv s'" using H(5) by (simp add: awake_inv_def is_awake_def clock)
      show "reason_inv s'" using H(7) clock(2) le unfolding reason_inv_def r by (auto simp: clock(1))
      show "signal_inv s'" using H(6) unfolding signal_inv_def by (simp add: clock taken_by_def)
    qed
  qed
qed

lemma ts_inv_step: "ts_inv s \<Longrightarrow> ts_step s s' \<Longrightarrow> ts_inv s'"
  by (erule ts_step.cases) (auto intro: ts_inv_move ts_inv_call ts_move_worker ts_move.timeout)

lemma ts_reachable_inv: "ts_reachable s \<Longrightarrow> ts_inv s"
  by (induction rule: ts_reachable.induct) (auto intro: ts_inv_started ts_inv_step ts_inv_env)

end
