(* ===== verification/Scheduler_Correct.thy ===== *)
theory Scheduler_Correct
  imports Scheduler_Calls
begin

text \<open>
  What the scheduler promises, for all reachable states, and runs that are computed from a schedule: the
  witnesses and the two cases in which the scheduler does not do what its comments say.
\<close>

section \<open>Schedules\<close>

text \<open>
  Runs can be computed: an event is a step of a thread in its main loop or in its call, or one of the
  actions of the clients.
\<close>

datatype 'k ts_event = Work nat | InCall nat | PostTask nat 'k | AskEmpty nat | CallbackDone nat

definition ts_free_exec :: "'k ts \<Rightarrow> 'k \<Rightarrow> bool" where
  "ts_free_exec s t = (\<not> ts_posted s t \<and> list_all (\<lambda>w. dispatching (ts_pc s w) \<noteq> Some t) [0..<ts_workers s])"

fun ts_perform :: "'k ts_event \<Rightarrow> 'k ts \<Rightarrow> 'k ts option" where
  "ts_perform (Work w) s = ts_worker_step w s"
| "ts_perform (InCall w) s = ts_call_step w s"
| "ts_perform (PostTask w t) s = (if ts_client s w \<and> ts_free_exec s t then Some (ts_post w t s) else None)"
| "ts_perform (AskEmpty w) s = (if ts_client s w then Some (ts_at_call w EmptyLock s) else None)"
| "ts_perform (CallbackDone w) s =
    (case ts_pc s w of Callback t b \<Rightarrow> if ts_call s w = NoCall then Some (ts_callback_done w b s) else None | _ \<Rightarrow> None)"

fun ts_events :: "'k ts_event list \<Rightarrow> 'k ts \<Rightarrow> 'k ts option" where
  "ts_events [] s = Some s"
| "ts_events (e # es) s = Option.bind (ts_perform e s) (ts_events es)"

lemma ts_free_exec:
  assumes "ts_reachable s" and "ts_free_exec s t"
  shows "ts_free s t"
proof -
  have "place_inv s" using ts_invD(2)[OF ts_reachable_inv[OF assms(1)]] .
  then have "dispatching (ts_pc s w) \<noteq> Some t" for w
    using place_invD(2)[of s w] assms(2) by (cases "w < ts_workers s") (auto simp: ts_free_exec_def list_all_iff)
  with assms(2) show ?thesis by (simp add: ts_free_def ts_free_exec_def)
qed

lemma ts_perform_reachable: "ts_reachable s \<Longrightarrow> ts_perform e s = Some s' \<Longrightarrow> ts_reachable s'"
  by (cases e) (auto split: if_splits ts_place.splits intro: ts_reachable.step ts_reachable.env ts_step.worker ts_step.call
      ts_env.post ts_env.is_empty ts_env.callback_done ts_free_exec)

lemma ts_events_reachable: "ts_reachable s \<Longrightarrow> ts_events es s = Some s' \<Longrightarrow> ts_reachable s'"
  by (induction es arbitrary: s) (auto simp: bind_eq_Some_conv intro: ts_perform_reachable)

lemmas ts_eval = replicate_numeral ts_worker_step_def ts_call_step_def ts_started_def ts_goto_def ts_at_call_def ts_set_status_def ts_try_lock_def
  ts_wait_top_def ts_wait_cas_def ts_pop_front_def ts_pend_def ts_pend_wait_cas_def ts_pend_ready_cas_def ts_pend_push_def
  ts_pend_add_def ts_flush_def ts_check_idle_def ts_check_deadline_def ts_receive_front_def ts_release_def ts_unlock_def
  ts_send_ready_def ts_batch_done_def ts_exec_def ts_counted_def ts_clear_def ts_exec_cas_def ts_run_def ts_callback_done_def
  ts_wait_ready_def ts_push_front_def ts_send_front_def ts_empty_lock_def ts_empty_worker_def ts_empty_front_def
  ts_empty_rest_def ts_empty_unlock_def ts_empty_send_def ts_client_def ts_free_exec_def ts_post_def
  heap_get_top_def heap_count_def empty_heap_def list_all_iff

section \<open>Correctness\<close>

text \<open>
  C4. Safety of the scheduler for any number of workers and clients and any interleaving. No assertion of \<^verbatim>\<open>Task.cpp\<close>
  and \<^verbatim>\<open>TaskScheduler.cpp\<close> fails; one thread at most is in the scheduler role; a task is in one queue
  at most (front, pending, collected or ready) and at one place of it, and never while a thread holds it between two
  queues, which one thread at most does; a task of the waiting queue is not about to run. No posted task is lost: it is
  queued, held, or asleep, and then it has no deadline or is in the waiting queue or on its way into or out of it.
\<close>
theorem scheduler_safe:
  assumes "ts_reachable s"
  shows "(\<forall>w. ts_pc s w \<noteq> Aborted \<and> ts_call s w \<noteq> AbortedCall) \<and>
    (\<forall>v w. role_place (ts_pc s v) \<and> role_place (ts_pc s w) \<longrightarrow> v = w) \<and>
    distinct (ts_queued s) \<and>
    (\<forall>v w t. held_by s v = Some t \<longrightarrow> t \<notin> set (ts_queued s) \<and> (held_by s w = Some t \<longrightarrow> v = w)) \<and>
    (\<forall>t. t \<in> ts_sleepers s \<longrightarrow> ts_posted s t \<and> t \<notin> set (ts_collected s) \<and> t \<notin> set (ts_ready s)) \<and>
    (\<forall>t. ts_posted s t \<longrightarrow> t \<in> set (ts_queued s) \<or> (\<exists>w. held_by s w = Some t) \<or>
       ts_status s t = WAITING \<and>
         (ts_deadline s t = TIME_INFINITE \<or> t \<in> ts_sleepers s \<or> (\<exists>w. in_limbo (ts_pc s w) = Some t)))"
proof -
  note H = ts_invD[OF ts_reachable_inv[OF assms]]
  note T = token_invD[OF H(3)]
  have lost: "t \<in> set (ts_queued s) \<or> (\<exists>w. held_by s w = Some t) \<or> ts_status s t = WAITING \<and>
         (ts_deadline s t = TIME_INFINITE \<or> t \<in> ts_sleepers s \<or> (\<exists>w. in_limbo (ts_pc s w) = Some t))"
    if "ts_posted s t" for t
  proof (cases "ts_status s t = WAITING")
    case True
    then show ?thesis using heap_invD(4)[OF H(4)] by blast
  next
    case False
    then have "on_the_way s t" using H(3) that by (simp add: token_inv_def)
    then show ?thesis unfolding on_the_way_def by blast
  qed
  have abort: "ts_pc s w \<noteq> Aborted \<and> ts_call s w \<noteq> AbortedCall" for w using place_invD(3,4)[OF H(2)] by blast
  have sleep: "ts_posted s t \<and> t \<notin> set (ts_collected s) \<and> t \<notin> set (ts_ready s)" if "t \<in> ts_sleepers s" for t
    using may_sleepD(1,4,5)[OF heap_invD(2)[OF H(4) that]] by blast
  show ?thesis using abort role_unique[OF H(1)] T(1,2,3) sleep lost by blast
qed

text \<open>
  C24. No task is run early: a worker that is about to call a task's callback finds it ready or signaled, and what
  \<^verbatim>\<open>IsExpired\<close> will tell the callback is true: with true the deadline is over, with false somebody woke or
  signaled the task since its last execution.
\<close>
theorem scheduler_not_early:
  assumes "ts_reachable s" and "ts_pc s w = ExecCas t b"
  shows "is_awake s t \<and> (if ts_expired s t then ts_deadline s t \<le> ts_now s else ts_asked s t)"
proof -
  note H = ts_invD[OF ts_reachable_inv[OF assms(1)]]
  have r: "to_run s t" unfolding to_run_def using assms(2) by (intro disjI2 exI[of _ w]) simp
  then have a: "is_awake s t" by (rule to_run_awake[OF H(5)])
  with r show ?thesis using reason_invD(2-4)[OF H(7), of t] by (auto simp: is_awake_def)
qed

text \<open>A task that a client posts is collected, handed over and reaches the exchange of its status.\<close>

lemma scheduler_not_early_witness:
  "\<exists>s :: nat ts. ts_reachable s \<and> ts_pc s 0 = ExecCas 7 0 \<and> is_awake s 7 \<and> (if ts_expired s 7 then ts_deadline s 7 \<le> ts_now s else ts_asked s 7)"
proof -
  obtain s :: "nat ts" where s: "ts_events ([PostTask 1 7, InCall 1] @ replicate 16 (Work 0)) (ts_started 2 1) = Some s"
    "ts_pc s 0 = ExecCas 7 0"
    by (simp add: ts_eval)
  have r: "ts_reachable s" by (rule ts_events_reachable[OF ts_reachable.start s(1)]) simp_all
  from scheduler_not_early[OF this s(2)] r s(2) show ?thesis by blast
qed

lemma scheduler_safe_witness:
  "\<exists>s :: nat ts. ts_reachable s \<and> ts_ready s = [7] \<and> ts_posted s 7 \<and> ts_pc s 0 \<noteq> Aborted \<and> held_by s 0 \<noteq> Some 7"
proof -
  obtain s :: "nat ts" where s: "ts_events ([PostTask 1 7, InCall 1] @ replicate 13 (Work 0)) (ts_started 2 1) = Some s"
    "ts_ready s = [7]" "ts_posted s 7"
    by (simp add: ts_eval)
  have r: "ts_reachable s" by (rule ts_events_reachable[OF ts_reachable.start s(1)]) simp_all
  have "7 \<in> set (ts_queued s)" using s(2) by simp
  with scheduler_safe[OF r] have "ts_pc s 0 \<noteq> Aborted \<and> held_by s 0 \<noteq> Some 7" by blast
  with r s(2,3) show ?thesis by blast
qed

section \<open>No task is forgotten\<close>

lemma worker_stuck:
  assumes "\<forall>s'. \<not> ts_step s s'" and "\<forall>t b. ts_pc s w \<noteq> Callback t b" and "ts_pc s w \<noteq> Aborted"
  shows "ts_pc s w = Outside \<or> ts_pc s w = WaitReady \<and> \<not> ts_rsig s \<or> ts_pc s w = SleepBlocking \<and> \<not> ts_fsig s \<or>
    (\<exists>d. ts_pc s w = SleepTimed d \<and> \<not> ts_fsig s \<and> ts_now s < d)"
proof -
  have "ts_worker_step w s = None" using assms(1) ts_step.worker[of w s] by (cases "ts_worker_step w s") auto
  moreover have "ts_now s < d" if "ts_pc s w = SleepTimed d" for d using assms(1) ts_step.timeout[OF that] not_le by blast
  ultimately show ?thesis using assms(2,3)
    by (cases "ts_pc s w") (auto simp: ts_worker_step_def ts_wait_ready_def ts_receive_front_def split: if_splits)
qed

lemma call_stuck:
  assumes "\<forall>s'. \<not> ts_step s s'" and "ts_call s w \<noteq> AbortedCall"
  shows "ts_call s w = NoCall \<or> ts_call s w = EmptyWait \<and> ts_lock s \<noteq> Some w"
proof -
  have "ts_call_step w s = None" using assms(1) ts_step.call[of w s] by (cases "ts_call_step w s") auto
  then show ?thesis using assms(2) by (cases "ts_call s w") (auto simp: ts_call_step_def split: if_splits)
qed

text \<open>
  C3. No lost wakeups: when no thread can make a step and no callback is running, then all calls have returned, no
  task is in the front, pending or ready queue, every posted task sleeps until a deadline that is in the future or for a wakeup, and one
  worker sleeps in the scheduler role, not longer than until the first of these deadlines.
\<close>
theorem scheduler_no_deadlock:
  assumes "ts_reachable s" and "\<forall>s'. \<not> ts_step s s'" and "\<forall>w t b. ts_pc s w \<noteq> Callback t b"
  shows "(\<forall>w. ts_call s w = NoCall) \<and> ts_queued s = [] \<and>
    (\<forall>t. ts_posted s t \<longrightarrow> ts_status s t = WAITING \<and>
       (ts_deadline s t = TIME_INFINITE \<or> t \<in> ts_sleepers s \<and> ts_now s < ts_deadline s t)) \<and>
    (\<exists>w. ts_pc s w = SleepBlocking \<and> ts_sleepers s = {} \<or>
       (\<exists>d. ts_pc s w = SleepTimed d \<and> (\<forall>t \<in> ts_sleepers s. d \<le> ts_deadline s t)))"
proof -
  note H = ts_invD[OF ts_reachable_inv[OF assms(1)]]
  note P = place_invD[OF H(2)] and S = signal_invD[OF H(6)] and T = token_invD[OF H(3)]
  have W: "ts_pc s w = Outside \<or> ts_pc s w = WaitReady \<and> \<not> ts_rsig s \<or> ts_pc s w = SleepBlocking \<and> \<not> ts_fsig s \<or>
    (\<exists>d. ts_pc s w = SleepTimed d \<and> \<not> ts_fsig s \<and> ts_now s < d)" for w
    using worker_stuck[OF assms(2) _ P(3)] assms(3) by blast
  have C: "ts_call s w = NoCall \<or> ts_call s w = EmptyWait \<and> ts_lock s \<noteq> Some w" for w
    using call_stuck[OF assms(2) P(4)] .
  have locked: "ts_lock s \<noteq> None"
  proof
    assume n: "ts_lock s = None"
    have "\<not> elects_place (ts_pc s w)" "\<not> elects_call (ts_call s w)" for w using W[of w] C[of w] by auto
    with S(1)[OF n] have rs: "ts_rsig s" by blast
    have "\<not> role_place (ts_pc s 0)" using H(1) n by (simp add: role_inv_def has_role_def)
    moreover have "ts_pc s 0 \<noteq> Outside" using P(2)[of 0] P(6) by simp
    ultimately show False using W[of 0] rs by auto
  qed
  then obtain w where w: "ts_lock s = Some w" by blast
  then have "has_role s w" using H(1) by (simp add: role_inv_def)
  then have rw: "role_place (ts_pc s w)" using C[of w] w by (auto simp: has_role_def)
  then have sl: "sleeping (ts_pc s w)" "front_seen (ts_pc s w)" "ts_pc s w \<noteq> Unlock" "\<not> ts_fsig s" using W[of w] by auto
  have q: "ts_lock_queue s = []" using S(3)[OF rw sl(3)] sl(4) by blast
  have calls: "ts_call s v = NoCall" for v
  proof -
    have "v = w" if "ts_call s v = EmptyWait"
    proof -
      have "has_role s v" using that q by (simp add: has_role_def)
      then show ?thesis using H(1) w by (simp add: role_inv_def)
    qed
    with C[of v] w show ?thesis by blast
  qed
  have front: "ts_front s = []" using S(2)[OF sl(2)] sl(4) calls by auto
  have "\<not> collecting (ts_pc s v)" for v using W[of v] by auto
  then have "ts_collected s = []" using S(4) by blast
  with front S(5)[OF sl(1)] have queued: "ts_queued s = []" by simp
  have held: "held_by s v = None" for v using W[of v] calls[of v] by (auto simp: held_by_def)
  have no_limbo: "in_limbo (ts_pc s v) = None" for v using W[of v] by auto
  have sleep: "ts_pc s w = SleepBlocking \<and> ts_sleepers s = {} \<or>
       (\<exists>d. ts_pc s w = SleepTimed d \<and> ts_now s < d \<and> (\<forall>t \<in> ts_sleepers s. d \<le> ts_deadline s t))"
    using W[of w] rw S(7)[of w] S(8)[of w] by auto
  have tasks: "ts_status s t = WAITING \<and> (ts_deadline s t = TIME_INFINITE \<or> t \<in> ts_sleepers s \<and> ts_now s < ts_deadline s t)"
    if "ts_posted s t" for t
  proof -
    have "\<not> on_the_way s t" unfolding on_the_way_def queued held by simp
    then have "ts_status s t = WAITING" using H(3) that by (simp add: token_inv_def)
    moreover have "ts_deadline s t = TIME_INFINITE \<or> t \<in> ts_sleepers s"
      using heap_invD(4)[OF H(4) calculation] by (simp add: no_limbo)
    moreover have "ts_now s < ts_deadline s t" if i: "t \<in> ts_sleepers s"
    proof -
      from sleep i obtain d where "ts_now s < d" "d \<le> ts_deadline s t" by auto
      then show ?thesis by (rule less_le_trans)
    qed
    ultimately show ?thesis by blast
  qed
  have "\<exists>w. ts_pc s w = SleepBlocking \<and> ts_sleepers s = {} \<or>
       (\<exists>d. ts_pc s w = SleepTimed d \<and> (\<forall>t \<in> ts_sleepers s. d \<le> ts_deadline s t))"
    using sleep by (intro exI[of _ w]) auto
  with calls queued tasks show ?thesis by (intro conjI allI impI) simp_all
qed

lemma scheduler_no_deadlock_witness:
  "\<exists>s :: nat ts. ts_reachable s \<and> (\<forall>s'. \<not> ts_step s s') \<and> ts_queued s = []"
proof -
  obtain s :: "nat ts" where s: "ts_events (replicate 7 (Work 0)) (ts_started 2 1) = Some s"
    and f: "ts_pc s = (\<lambda>w. if w = 0 then SleepBlocking else Outside)" "ts_call s = (\<lambda>_. NoCall)" "\<not> ts_fsig s"
    by (simp add: ts_eval fun_eq_iff)
  have r: "ts_reachable s" by (rule ts_events_reachable[OF ts_reachable.start s]) simp_all
  have n: "\<not> ts_step s s'" for s'
    using f by (auto elim!: ts_step.cases simp: ts_worker_step_def ts_call_step_def ts_receive_front_def split: if_splits)
  have cb: "\<forall>w t b. ts_pc s w \<noteq> Callback t b" using f(1) by simp
  from scheduler_no_deadlock[OF r _ cb] n r show ?thesis by blast
qed

section \<open>Two surprises\<close>

text \<open>
  C25. \<^verbatim>\<open>IsEmpty\<close> is not reliable: with two workers and one task it can return true while the task's callback runs. The
  first worker is seen before it wakes up, takes the task and starts it; the second, which was the scheduler, is seen after it went to
  sleep; and all queues are empty by then. The comment in the code says that the worker states are checked against
  this very case, and the destructor relies on it.
\<close>
theorem is_empty_may_miss_running:
  "\<exists>s :: nat ts. ts_reachable s \<and> ts_call s 2 = EmptyReturn True \<and> ts_pc s 0 = Callback 7 0"
proof -
  obtain s :: "nat ts" where s: "ts_events ([PostTask 2 7, InCall 2, InCall 2] @ replicate 12 (Work 1) @
      [AskEmpty 2, InCall 2, InCall 2] @ replicate 7 (Work 0) @ replicate 2 (Work 1) @ replicate 6 (InCall 2)) (ts_started 2 2) = Some s"
    "ts_call s 2 = EmptyReturn True" "ts_pc s 0 = Callback 7 0"
    by (simp add: ts_eval)
  have "ts_reachable s" by (rule ts_events_reachable[OF ts_reachable.start s(1)]) simp_all
  with s(2,3) show ?thesis by blast
qed

text \<open>A batch of one task.\<close>

fun handles :: "'k ts_place \<Rightarrow> bool" where
  "handles (WaitCas t b) = True" | "handles (PendWaitCas t b) = True" | "handles (PendReadyCas t b) = True"
| "handles (PendPush t b) = True" | "handles (PendAdd t b) = True" | "handles (Counted t b) = True" | "handles (Clear t b) = True"
| "handles (ExecCas t b) = True" | "handles (Run t b) = True" | "handles (Callback t b) = True" | "handles _ = False"

lemma idle_batch_step:
  assumes "ts_sched_batch s \<le> 1" and "\<forall>w. \<not> handles (ts_pc s w)" and "ts_collected s = []" and "ts_ready s = []"
    and st: "ts_worker_step w s = Some s'"
  shows "ts_sched_batch s' \<le> 1 \<and> (\<forall>w. \<not> handles (ts_pc s' w)) \<and> ts_collected s' = [] \<and> ts_ready s' = []"
proof (cases "ts_pc s w")
  case Unlock
  then show ?thesis using assms by (auto simp: ts_eval split: list.splits if_splits)
qed (use assms(1-4) st assms(2)[rule_format, of w] in \<open>auto simp: ts_eval split: if_splits option.splits list.splits\<close>)

text \<open>
  C26. The loops over waiting and pending tasks run while \<^verbatim>\<open>++batch < maxBatch\<close>, so they handle one task less than
  the batch size. With a batch size of one, which one thread and a sub-queue size of one give, no
  task is ever executed.
\<close>
theorem batch_of_one_starves:
  assumes "ts_reachable s" and "ts_sched_batch s \<le> 1"
  shows "ts_pc s w \<noteq> Callback t b"
proof -
  have "ts_sched_batch s \<le> 1 \<longrightarrow> (\<forall>w. \<not> handles (ts_pc s w)) \<and> ts_collected s = [] \<and> ts_ready s = []"
    using assms(1)
  proof induction
    case (start sub n)
    then show ?case by (simp add: ts_started_def)
  next
    case (step s s')
    from step.hyps(2) show ?case
    proof cases
      case (worker w)
      have "ts_sched_batch s' = ts_sched_batch s"
        using ts_move_worker[OF ts_reachable_inv[OF step.hyps(1)] worker] by cases (auto simp: move_defs split: list.splits)
      then show ?thesis using idle_batch_step[OF _ _ _ _ worker] step.IH by auto
    next
      case (call w)
      have "ts_sched_batch s' = ts_sched_batch s \<and> ts_pc s' = ts_pc s \<and> ts_collected s' = ts_collected s \<and> ts_ready s' = ts_ready s"
        using call by (cases "ts_call s w") (auto simp: ts_call_step_def ts_eval ts_wake_cas_def ts_wake_check_def split: if_splits list.splits)
      then show ?thesis using step.IH by simp
    next
      case (timeout w d)
      then show ?thesis using step.IH by (auto simp: ts_goto_def)
    qed
  next
    case (env s s')
    from env.hyps(2) show ?case
    proof cases
      case (callback_done w t b)
      then have "handles (ts_pc s w)" by simp
      moreover have "ts_sched_batch s' = ts_sched_batch s" using callback_done by (auto simp: ts_eval)
      ultimately show ?thesis using env.IH by auto
    qed (use env.IH in \<open>auto simp: ts_eval ts_set_deadline_def ts_receive_signal_def ts_wake_check_def ts_signal_def split: if_splits\<close>)
  qed
  with assms(2) have "\<not> handles (ts_pc s w)" by blast
  then show ?thesis by auto
qed

lemma batch_of_one_starves_witness:
  "\<exists>s :: nat ts. ts_reachable s \<and> ts_sched_batch s \<le> 1 \<and> ts_pending s = [7] \<and> ts_pc s 0 \<noteq> Callback 7 0"
proof -
  obtain s :: "nat ts" where s: "ts_events ([PostTask 1 7, InCall 1] @ replicate 5 (Work 0)) (ts_started 1 1) = Some s"
    "ts_pending s = [7]" "ts_sched_batch s = 1"
    by (simp add: ts_eval)
  have r: "ts_reachable s" by (rule ts_events_reachable[OF ts_reachable.start s(1)]) simp_all
  from batch_of_one_starves[OF r, of 0 7 0] r s(2,3) show ?thesis by auto
qed

end
