(* ===== verification/IO_Core.thy ===== *)
theory IO_Core
  imports Deadline_Heap
begin

unbundle bit_operations_syntax

text \<open>
  The asynchronous IO core of \<^verbatim>\<open>aio/IOCore.cpp\<close>, \<^verbatim>\<open>aio/IOCore_epoll.cpp\<close> and \<^verbatim>\<open>aio/IOTask.cpp\<close> as a step relation over
  any number of worker and client threads. A step is one access to what the threads share (a status, a
  queue, a signal, the scheduler flag, the kernel) together with the accesses to data that only the thread itself can
  reach at that moment: the members of a task it holds, the pending and the waiting queue while it is the scheduler.
  The front queue, the ready queue and the ready signal appear with the contracts of their theories, the waiting queue is
  the heap of \<open>Binary_Heap\<close>.

  The kernel is an epoll instance in edge-triggered mode: per registered socket a mask of events that happened since it
  was reported last, and the same for the eventfd. \<^verbatim>\<open>epoll_wait\<close> reports any part of what is there.
\<close>

section \<open>Tasks\<close>

datatype io_status =
  IOTASK_PENDING | IOTASK_WAITING | IOTASK_READY | IOTASK_CLOSING | IOTASK_CLOSED

text \<open>The members of \<^verbatim>\<open>IOTask\<close>; of the subscription and of the socket only whether they are there.\<close>

record io_task =
  it_status :: io_status
  it_ready :: u32
  it_pending :: u32
  it_sub :: bool
  it_sock :: bool
  it_guard :: bool
  it_deadline :: u64
  it_closed :: bool
  it_queued :: bool
  it_expired :: bool

definition io_task_new :: io_task where
  "io_task_new =
     \<lparr>it_status = IOTASK_PENDING, it_ready = 0, it_pending = 0, it_sub = False, it_sock = False, it_guard = False,
      it_deadline = TIME_INFINITE, it_closed = False, it_queued = False, it_expired = False\<rparr>"

definition EPOLLIN :: u32 where "EPOLLIN = 1"
definition EPOLLOUT :: u32 where "EPOLLOUT = 4"
definition MG_IOCORE_READY_BATCH :: u32 where "MG_IOCORE_READY_BATCH = 4096"
definition MG_IOCORE_EPOLL_BATCH :: nat where "MG_IOCORE_EPOLL_BATCH = 1024"

section \<open>State\<close>

text \<open>
  Places in \<^verbatim>\<open>Run\<close>, \<^verbatim>\<open>PrivScheduleDo\<close> and \<^verbatim>\<open>PrivExecute\<close>. The number is the local \<^verbatim>\<open>batch\<close>, the task the
  local \<^verbatim>\<open>t\<close>, the flag \<^verbatim>\<open>isExpired\<close>, the mask the arguments of \<^verbatim>\<open>OnEvent\<close>. \<open>Aborted\<close> is a failed assertion.
\<close>

datatype 'k io_place =
    Outside | Starting | WaitReady
  | TryRole | Epoll | PopFront | Kernel | Pend nat | PendClose 'k nat bool | PendClosed 'k nat bool | WaitTop nat
  | Flush | CheckIdle | CheckDeadline | PollFor u64 | PollForever | EndRole | SendReady
  | Exec nat | Counted 'k nat | ExecCas 'k nat | Callback 'k nat u32 | Repost 'k nat | RepostSignal nat | CloseCallback 'k nat
  | Aborted

text \<open>Places in \<^verbatim>\<open>Post\<close>, \<^verbatim>\<open>PostWakeup\<close> and \<^verbatim>\<open>PostClose\<close>.\<close>

datatype 'k io_in_call =
    NoCall | Register 'k | PostPush 'k | PushFront 'k | SendEvent | WakeCas 'k io_status | CloseXchg 'k | AbortedCall

text \<open>
  The first group are members of \<^verbatim>\<open>IOCore\<close>, the second the kernel (a mask for every registered socket), the third
  the locals \<^verbatim>\<open>evs\<close>, \<^verbatim>\<open>ready\<close> and \<^verbatim>\<open>timestamp\<close> of the thread that schedules, then the tasks, the clock and the
  threads. The last two are history: the events that epoll reported for a task and that its \<^verbatim>\<open>OnEvent\<close> has not been called with,
  and whether somebody woke or closed the task since its status was pending last.
\<close>

record 'k io =
  io_front :: "'k list"
  io_pendq :: "'k list"
  io_waiting :: "'k heap"
  io_readyq :: "'k list"
  io_ready_count :: nat
  io_rsig :: bool
  io_exec_batch :: nat
  io_sched_batch :: nat
  io_role :: bool
  io_desc :: u32
  io_workers :: nat

  io_eventfd :: bool
  io_kernel :: "'k \<Rightarrow> u32 option"

  io_evs :: "('k \<times> u32) list"
  io_collected :: "'k list"
  io_timestamp :: u64

  io_tasks :: "'k \<Rightarrow> io_task"
  io_now :: u64
  io_pc :: "nat \<Rightarrow> 'k io_place"
  io_call :: "nat \<Rightarrow> 'k io_in_call"

  io_owed :: "'k \<Rightarrow> u32"
  io_asked :: "'k \<Rightarrow> bool"

text \<open>After the constructor and \<^verbatim>\<open>Start\<close> with \<open>n\<close> threads; the assertion allows 1 to 255 of them.\<close>

definition io_start :: "u32 \<Rightarrow> 'k io option" where
  "io_start n =
     (if 0 < n \<and> n < 256
      then Some \<lparr>io_front = [], io_pendq = [], io_waiting = empty_heap (\<lambda>_. - 1), io_readyq = [], io_ready_count = 0, io_rsig = False,
        io_exec_batch = unat MG_IOCORE_READY_BATCH, io_sched_batch = unat (MG_IOCORE_READY_BATCH * n), io_role = False, io_desc = 0,
        io_workers = unat n, io_eventfd = False, io_kernel = \<lambda>_. None, io_evs = [], io_collected = [], io_timestamp = 0,
        io_tasks = \<lambda>_. io_task_new, io_now = 0, io_pc = \<lambda>w. if w < unat n then Starting else Outside,
        io_call = \<lambda>_. NoCall, io_owed = \<lambda>_. 0, io_asked = \<lambda>_. False\<rparr>
      else None)"

definition io_goto :: "nat \<Rightarrow> 'k io_place \<Rightarrow> 'k io \<Rightarrow> 'k io" where
  "io_goto w p s = s\<lparr>io_pc := (io_pc s)(w := p)\<rparr>"

definition io_at_call :: "nat \<Rightarrow> 'k io_in_call \<Rightarrow> 'k io \<Rightarrow> 'k io" where
  "io_at_call w c s = s\<lparr>io_call := (io_call s)(w := c)\<rparr>"

definition io_set :: "'k \<Rightarrow> io_task \<Rightarrow> 'k io \<Rightarrow> 'k io" where
  "io_set t x s = s\<lparr>io_tasks := (io_tasks s)(t := x)\<rparr>"

text \<open>The order of the waiting queue is \<^verbatim>\<open>IOTask::operator<=\<close>.\<close>

definition io_heap :: "'k io \<Rightarrow> 'k heap_methods" where
  "io_heap s = min_methods (\<lambda>t. it_deadline (io_tasks s t)) True"

text \<open>\<^verbatim>\<open>if (t->myIndex >= 0) myWaitingQueue.Remove(t)\<close>\<close>

definition io_unwait :: "'k \<Rightarrow> 'k io \<Rightarrow> 'k heap option" where
  "io_unwait t s = (if hp_idx (io_waiting s) t \<ge> 0 then heap_remove (io_heap s) t (io_waiting s) else Some (io_waiting s))"

section \<open>The scheduler\<close>

definition io_try_role :: "nat \<Rightarrow> 'k io \<Rightarrow> 'k io" where
  "io_try_role w s = (if io_role s then io_goto w (Exec 0) s else io_goto w Epoll (s\<lparr>io_role := True\<rparr>))"

text \<open>
  \<^verbatim>\<open>epoll_wait\<close> without a timeout reports some of the sockets with events (\<open>ts\<close>) and maybe the eventfd, which clears
  their edges. An interrupted call reports nothing.
\<close>

definition io_epoll :: "nat \<Rightarrow> 'k list \<Rightarrow> bool \<Rightarrow> 'k io \<Rightarrow> 'k io option" where
  "io_epoll w ts fd s =
     (if distinct ts \<and> list_all (\<lambda>t. \<exists>m. io_kernel s t = Some m \<and> m \<noteq> 0) ts \<and> (fd \<longrightarrow> io_eventfd s) \<and>
         length ts + (if fd then 1 else 0) \<le> MG_IOCORE_EPOLL_BATCH
      then Some (io_goto w (if io_role s then PopFront else Aborted)
        (s\<lparr>io_evs := map (\<lambda>t. (t, the (io_kernel s t))) ts, io_kernel := (\<lambda>t. if t \<in> set ts then Some 0 else io_kernel s t),
           io_eventfd := (io_eventfd s \<and> \<not> fd), io_timestamp := io_now s, io_collected := []\<rparr>))
      else None)"

definition io_pop_front :: "nat \<Rightarrow> 'k io \<Rightarrow> 'k io" where
  "io_pop_front w s = io_goto w Kernel (s\<lparr>io_pendq := io_pendq s @ io_front s, io_front := []\<rparr>)"

text \<open>The task goes to the list of ready tasks, with its events.\<close>

definition io_collect :: "'k \<Rightarrow> bool \<Rightarrow> io_task \<Rightarrow> 'k io \<Rightarrow> 'k io" where
  "io_collect t e x s =
     io_set t (x\<lparr>it_ready := it_ready x OR it_pending x, it_pending := 0, it_expired := e\<rparr>) (s\<lparr>io_collected := io_collected s @ [t]\<rparr>)"

text \<open>One event of the kernel.\<close>

definition io_kernel_event :: "nat \<Rightarrow> 'k io \<Rightarrow> 'k io" where
  "io_kernel_event w s =
     (case io_evs s of
        [] \<Rightarrow> io_goto w (Pend 0) s
      | (t, e) # r \<Rightarrow>
          let x = (io_tasks s t)\<lparr>it_pending := it_pending (io_tasks s t) OR e\<rparr>;
              s1 = s\<lparr>io_evs := r, io_owed := (io_owed s)(t := io_owed s t OR e)\<rparr>
          in case it_status x of
               IOTASK_WAITING \<Rightarrow>
                 (case io_unwait t s of
                    None \<Rightarrow> io_goto w Aborted s
                  | Some q \<Rightarrow> io_collect t (io_timestamp s \<ge> it_deadline x) (x\<lparr>it_status := IOTASK_READY\<rparr>) (s1\<lparr>io_waiting := q\<rparr>))
             | IOTASK_CLOSED \<Rightarrow> io_goto w Aborted s
             | _ \<Rightarrow> io_set t x s1)"

text \<open>
  One task of the pending queue. It is compared with the deadline, its status is exchanged, and it goes to sleep, to the
  ready tasks, or to be closed.
\<close>

definition io_pend_out :: "nat \<Rightarrow> 'k \<Rightarrow> nat \<Rightarrow> bool \<Rightarrow> io_task \<Rightarrow> 'k io \<Rightarrow> 'k io" where
  "io_pend_out w t b e x s =
     (case io_unwait t s of
        None \<Rightarrow> io_goto w Aborted s
      | Some q \<Rightarrow>
          (case it_status x of
             IOTASK_CLOSING \<Rightarrow> io_goto w (PendClose t b e) (s\<lparr>io_waiting := q\<rparr>)
           | IOTASK_READY \<Rightarrow> io_goto w (Pend b) (io_collect t e x (s\<lparr>io_waiting := q\<rparr>))
           | _ \<Rightarrow> io_goto w Aborted s))"

definition io_pend_sleep :: "nat \<Rightarrow> 'k \<Rightarrow> nat \<Rightarrow> io_task \<Rightarrow> 'k io \<Rightarrow> 'k io" where
  "io_pend_sleep w t b x s =
     (let x1 = x\<lparr>it_status := IOTASK_WAITING\<rparr>
      in if it_deadline x \<noteq> TIME_INFINITE
         then io_goto w (Pend b) (io_set t x1 (s\<lparr>io_waiting := heap_push (io_heap s) t (io_waiting s)\<rparr>))
         else io_goto w (if hp_idx (io_waiting s) t = - 1 then Pend b else Aborted) (io_set t x1 s))"

definition io_pend :: "nat \<Rightarrow> nat \<Rightarrow> 'k io \<Rightarrow> 'k io" where
  "io_pend w b s =
     (case io_pendq s of
        [] \<Rightarrow> io_goto w (WaitTop 0) s
      | t # ps \<Rightarrow>
          if \<not> b + 1 < io_sched_batch s then io_goto w (WaitTop 0) s
          else
            let x = io_tasks s t;
                e = (io_timestamp s \<ge> it_deadline x);
                s1 = s\<lparr>io_pendq := ps\<rparr>
            in if it_status x = IOTASK_PENDING
               then if it_pending x \<noteq> 0 \<or> e then io_pend_out w t (b + 1) e (x\<lparr>it_status := IOTASK_READY\<rparr>) s1
                    else io_pend_sleep w t (b + 1) x s1
               else io_pend_out w t (b + 1) e x s1)"

text \<open>\<^verbatim>\<open>PrivKernelUnregister\<close> and \<^verbatim>\<open>PrivCloseDo\<close>; deleting a socket from epoll fails when it is not there.\<close>

definition io_pend_close :: "nat \<Rightarrow> 'k \<Rightarrow> nat \<Rightarrow> bool \<Rightarrow> 'k io \<Rightarrow> 'k io" where
  "io_pend_close w t b e s =
     (let x = io_tasks s t
      in if (it_sock x \<longrightarrow> io_kernel s t \<noteq> None) \<and> it_status x = IOTASK_CLOSING \<and> it_guard x \<and> \<not> it_closed x
         then io_goto w (PendClosed t b e)
                (io_set t (x\<lparr>it_closed := True, it_sock := False\<rparr>) (s\<lparr>io_kernel := (io_kernel s)(t := if it_sock x then None else io_kernel s t)\<rparr>))
         else io_goto w Aborted s)"

definition io_pend_closed :: "nat \<Rightarrow> 'k \<Rightarrow> nat \<Rightarrow> bool \<Rightarrow> 'k io \<Rightarrow> 'k io" where
  "io_pend_closed w t b e s =
     (let x = io_tasks s t
      in io_goto w (if it_status x = IOTASK_CLOSING then Pend b else Aborted)
           (io_set t (x\<lparr>it_status := IOTASK_CLOSED, it_ready := 0, it_pending := 0, it_expired := e\<rparr>)
             (s\<lparr>io_collected := io_collected s @ [t], io_owed := (io_owed s)(t := 0)\<rparr>)))"

text \<open>The top of the waiting queue.\<close>

definition io_wait_top :: "nat \<Rightarrow> nat \<Rightarrow> 'k io \<Rightarrow> 'k io" where
  "io_wait_top w b s =
     (case heap_get_top (io_waiting s) of
        None \<Rightarrow> io_goto w Flush s
      | Some t \<Rightarrow>
          let x = io_tasks s t
          in if \<not> b + 1 < io_sched_batch s \<or> it_deadline x > io_timestamp s then io_goto w Flush s
             else case heap_remove_top (io_heap s) (io_waiting s) of
                    None \<Rightarrow> io_goto w Aborted s
                  | Some (_, q) \<Rightarrow>
                      (case it_status x of
                         IOTASK_WAITING \<Rightarrow>
                           io_goto w (if it_pending x = 0 then WaitTop (b + 1) else Aborted)
                             (io_set t (x\<lparr>it_status := IOTASK_READY, it_expired := True\<rparr>)
                               (s\<lparr>io_waiting := q, io_collected := io_collected s @ [t]\<rparr>))
                       | IOTASK_PENDING \<Rightarrow> io_goto w Aborted s
                       | IOTASK_CLOSED \<Rightarrow> io_goto w Aborted s
                       | _ \<Rightarrow> io_goto w (WaitTop (b + 1)) (s\<lparr>io_waiting := q\<rparr>)))"

text \<open>
  The hand-over to the workers. \<^verbatim>\<open>FlushPending\<close> makes the tasks visible in groups; here every one becomes visible in a
  step of its own, which allows all the orders of the code and more.
\<close>

definition io_flush :: "nat \<Rightarrow> 'k io \<Rightarrow> 'k io" where
  "io_flush w s =
     (case io_collected s of
        [] \<Rightarrow> io_goto w CheckIdle s
      | t # ts \<Rightarrow>
          if hp_idx (io_waiting s) t = - 1
          then s\<lparr>io_collected := ts, io_readyq := io_readyq s @ [t], io_ready_count := io_ready_count s + 1\<rparr>
          else io_goto w Aborted s)"

definition io_check_idle :: "nat \<Rightarrow> 'k io \<Rightarrow> 'k io" where
  "io_check_idle w s = io_goto w (if io_ready_count s > 0 \<or> io_pendq s \<noteq> [] then EndRole else CheckDeadline) s"

text \<open>
  The end of \<^verbatim>\<open>PrivScheduleDo\<close>: the time \<^verbatim>\<open>poll\<close> is given, which is at most \<^verbatim>\<open>INT_MAX\<close>. When it returns, the caller starts the
  next round. The core is running.
\<close>

definition poll_limit :: "u64 \<Rightarrow> u64 \<Rightarrow> u64" where
  "poll_limit deadline now = now + min (deadline - now) 0x7FFFFFFF"

definition io_check_deadline :: "nat \<Rightarrow> 'k io \<Rightarrow> 'k io" where
  "io_check_deadline w s =
     (case heap_get_top (io_waiting s) of
        None \<Rightarrow> io_goto w PollForever s
      | Some t \<Rightarrow>
          let deadline = it_deadline (io_tasks s t)
          in io_goto w (if io_now s \<ge> deadline then Epoll else PollFor (poll_limit deadline (io_now s))) (s\<lparr>io_timestamp := io_now s\<rparr>))"

definition io_readable :: "'k io \<Rightarrow> bool" where
  "io_readable s = (io_eventfd s \<or> (\<exists>t m. io_kernel s t = Some m \<and> m \<noteq> 0))"

text \<open>\<^verbatim>\<open>PrivScheduleEnd\<close>\<close>

definition io_end_role :: "nat \<Rightarrow> 'k io \<Rightarrow> 'k io" where
  "io_end_role w s = io_goto w (if io_role s then SendReady else Aborted) (s\<lparr>io_role := False\<rparr>)"

definition io_send_ready :: "nat \<Rightarrow> 'k io \<Rightarrow> 'k io" where
  "io_send_ready w s = io_goto w (Exec 0) (s\<lparr>io_rsig := True\<rparr>)"

section \<open>Execution\<close>

definition io_batch_done :: "nat \<Rightarrow> nat \<Rightarrow> 'k io \<Rightarrow> 'k io" where
  "io_batch_done w b s = io_goto w (if b = io_exec_batch s then TryRole else WaitReady) s"

definition io_next :: "nat \<Rightarrow> nat \<Rightarrow> 'k io \<Rightarrow> 'k io" where
  "io_next w b s = (if b + 1 < io_exec_batch s then io_goto w (Exec (b + 1)) s else io_batch_done w (b + 1) s)"

definition io_exec :: "nat \<Rightarrow> nat \<Rightarrow> 'k io \<Rightarrow> 'k io" where
  "io_exec w b s =
     (case io_readyq s of
        [] \<Rightarrow> io_batch_done w b s
      | t # ts \<Rightarrow> io_goto w (Counted t b) (s\<lparr>io_readyq := ts\<rparr>))"

definition io_counted :: "nat \<Rightarrow> 'k \<Rightarrow> nat \<Rightarrow> 'k io \<Rightarrow> 'k io" where
  "io_counted w t b s = io_goto w (ExecCas t b) (s\<lparr>io_ready_count := io_ready_count s - 1\<rparr>)"

text \<open>
  \<^verbatim>\<open>IOCore::PrivExecute\<close> and \<^verbatim>\<open>IOTask::PrivExecute\<close> up to the call of \<^verbatim>\<open>OnEvent\<close>, with \<^verbatim>\<open>PrivDumpReadyEvents\<close> and
  \<^verbatim>\<open>PrivCloseEnd\<close>.
\<close>

definition io_exec_cas :: "nat \<Rightarrow> 'k \<Rightarrow> nat \<Rightarrow> 'k io \<Rightarrow> 'k io" where
  "io_exec_cas w t b s =
     (let x = io_tasks s t;
          x1 = x\<lparr>it_queued := False, it_status := (if it_status x = IOTASK_READY then IOTASK_PENDING else it_status x),
                 it_ready := 0, it_deadline := TIME_INFINITE\<rparr>;
          s1 = s\<lparr>io_asked := (io_asked s)(t := io_asked s t \<and> it_status x \<noteq> IOTASK_READY),
                 io_owed := (io_owed s)(t := it_pending x)\<rparr>
      in if \<not> it_queued x \<or> it_status x = IOTASK_PENDING \<or> \<not> it_sub x then io_goto w Aborted s
         else if it_closed x
         then if it_status x1 = IOTASK_CLOSED \<and> it_pending x = 0
              then io_goto w (CloseCallback t b) (io_set t (x1\<lparr>it_sub := False\<rparr>) s1)
              else io_goto w Aborted s
         else io_goto w (Callback t b (it_ready x)) (io_set t x1 s1))"

text \<open>A task that is not closed goes back to the scheduler: \<^verbatim>\<open>PrivPost\<close> and \<^verbatim>\<open>PrivRePost\<close>.\<close>

definition io_repost :: "nat \<Rightarrow> 'k \<Rightarrow> nat \<Rightarrow> 'k io \<Rightarrow> 'k io" where
  "io_repost w t b s =
     (let x = io_tasks s t; s1 = io_set t (x\<lparr>it_queued := True\<rparr>) (s\<lparr>io_front := io_front s @ [t]\<rparr>)
      in if it_queued x then io_goto w Aborted s
         else if io_front s = [] then io_goto w (RepostSignal b) s1 else io_next w b s1)"

definition io_repost_signal :: "nat \<Rightarrow> nat \<Rightarrow> 'k io \<Rightarrow> 'k io" where
  "io_repost_signal w b s = io_next w b (s\<lparr>io_eventfd := True\<rparr>)"

definition io_wait_ready :: "nat \<Rightarrow> 'k io \<Rightarrow> 'k io option" where
  "io_wait_ready w s = (if io_rsig s then Some (io_goto w Starting (s\<lparr>io_rsig := False\<rparr>)) else None)"

definition io_worker_step :: "nat \<Rightarrow> 'k io \<Rightarrow> 'k io option" where
  "io_worker_step w s =
     (case io_pc s w of
        Starting \<Rightarrow> Some (io_goto w TryRole s)
      | WaitReady \<Rightarrow> io_wait_ready w s
      | TryRole \<Rightarrow> Some (io_try_role w s)
      | PopFront \<Rightarrow> Some (io_pop_front w s)
      | Kernel \<Rightarrow> Some (io_kernel_event w s)
      | Pend b \<Rightarrow> Some (io_pend w b s)
      | PendClose t b e \<Rightarrow> Some (io_pend_close w t b e s)
      | PendClosed t b e \<Rightarrow> Some (io_pend_closed w t b e s)
      | WaitTop b \<Rightarrow> Some (io_wait_top w b s)
      | Flush \<Rightarrow> Some (io_flush w s)
      | CheckIdle \<Rightarrow> Some (io_check_idle w s)
      | CheckDeadline \<Rightarrow> Some (io_check_deadline w s)
      | EndRole \<Rightarrow> Some (io_end_role w s)
      | SendReady \<Rightarrow> Some (io_send_ready w s)
      | Exec b \<Rightarrow> Some (io_exec w b s)
      | Counted t b \<Rightarrow> Some (io_counted w t b s)
      | ExecCas t b \<Rightarrow> Some (io_exec_cas w t b s)
      | Repost t b \<Rightarrow> Some (io_repost w t b s)
      | RepostSignal b \<Rightarrow> Some (io_repost_signal w b s)
      | _ \<Rightarrow> None)"

section \<open>Calls of the interface\<close>

text \<open>\<^verbatim>\<open>IsInWorkerNow\<close>\<close>

fun current_task :: "'k io_place \<Rightarrow> 'k option" where
  "current_task (Callback t b a) = Some t"
| "current_task (CloseCallback t b) = Some t"
| "current_task _ = None"

text \<open>
  \<^verbatim>\<open>Post\<close>: \<^verbatim>\<open>PrivAttach\<close>, with a closed task being used again (only its own last callback may do that), then
  \<^verbatim>\<open>PrivPostStart\<close>.
\<close>

definition io_attach :: "nat \<Rightarrow> 'k \<Rightarrow> bool \<Rightarrow> 'k io \<Rightarrow> 'k io" where
  "io_attach w t sock s =
     (let x = io_tasks s t; x1 = x\<lparr>it_sub := True, it_sock := sock\<rparr>
      in if it_sub x \<or> it_sock x then io_at_call w AbortedCall s
         else if it_status x = IOTASK_CLOSED
         then if current_task (io_pc s w) = Some t \<and> it_closed x \<and> it_guard x
              then io_at_call w (Register t) (io_set t (x1\<lparr>it_status := IOTASK_PENDING, it_closed := False, it_guard := False\<rparr>) s)
              else io_at_call w AbortedCall s
         else if it_closed x then io_at_call w AbortedCall s
         else io_at_call w (Register t) (io_set t x1 s))"

text \<open>\<^verbatim>\<open>PrivKernelRegister\<close>; adding a socket to epoll fails when it is there already.\<close>

definition io_kernel_register :: "'k \<Rightarrow> 'k io \<Rightarrow> 'k io option" where
  "io_kernel_register t s =
     (if it_ready (io_tasks s t) = 0 \<and> it_pending (io_tasks s t) = 0 \<and> it_sock (io_tasks s t) \<and> io_kernel s t = None
      then Some (s\<lparr>io_kernel := (io_kernel s)(t := Some 0)\<rparr>) else None)"

definition io_register :: "nat \<Rightarrow> 'k \<Rightarrow> 'k io \<Rightarrow> 'k io" where
  "io_register w t s =
     (case (if it_sock (io_tasks s t) then io_kernel_register t s else Some s) of
        None \<Rightarrow> io_at_call w AbortedCall s
      | Some s1 \<Rightarrow> io_at_call w (PostPush t) (s1\<lparr>io_desc := io_desc s1 + 1\<rparr>))"

definition io_post_push :: "nat \<Rightarrow> 'k \<Rightarrow> 'k io \<Rightarrow> 'k io" where
  "io_post_push w t s =
     (let x = io_tasks s t
      in if it_queued x then io_at_call w AbortedCall s
         else io_at_call w (if io_front s = [] then SendEvent else NoCall)
                (io_set t (x\<lparr>it_queued := True\<rparr>) (s\<lparr>io_front := io_front s @ [t]\<rparr>)))"

text \<open>\<^verbatim>\<open>PrivRePost\<close> and \<^verbatim>\<open>PrivPlatformSignal\<close>\<close>

definition io_push_front :: "nat \<Rightarrow> 'k \<Rightarrow> 'k io \<Rightarrow> 'k io" where
  "io_push_front w t s =
     (if it_queued (io_tasks s t)
      then io_at_call w (if io_front s = [] then SendEvent else NoCall) (s\<lparr>io_front := io_front s @ [t]\<rparr>)
      else io_at_call w AbortedCall s)"

definition io_send_event :: "nat \<Rightarrow> 'k io \<Rightarrow> 'k io" where
  "io_send_event w s = io_at_call w NoCall (s\<lparr>io_eventfd := True\<rparr>)"

text \<open>\<^verbatim>\<open>PostWakeup\<close>: the loop goes on with the value it found, unless the task is awake or closed.\<close>

definition io_wake_cas :: "nat \<Rightarrow> 'k \<Rightarrow> io_status \<Rightarrow> 'k io \<Rightarrow> 'k io" where
  "io_wake_cas w t old s =
     (let x = io_tasks s t
      in if it_status x = old
         then io_at_call w (if old = IOTASK_WAITING then PushFront t else NoCall)
                (io_set t (x\<lparr>it_status := IOTASK_READY\<rparr>) (s\<lparr>io_asked := (io_asked s)(t := True)\<rparr>))
         else io_at_call w
                (if it_status x = IOTASK_PENDING \<or> it_status x = IOTASK_WAITING then WakeCas t (it_status x) else NoCall) s)"

text \<open>\<^verbatim>\<open>PostClose\<close>\<close>

definition io_close :: "nat \<Rightarrow> 'k \<Rightarrow> 'k io \<Rightarrow> 'k io" where
  "io_close w t s =
     (let x = io_tasks s t
      in if it_guard x then s else io_at_call w (CloseXchg t) (io_set t (x\<lparr>it_guard := True\<rparr>) s))"

definition io_close_xchg :: "nat \<Rightarrow> 'k \<Rightarrow> 'k io \<Rightarrow> 'k io" where
  "io_close_xchg w t s =
     (let x = io_tasks s t
      in io_at_call w
           (if it_status x = IOTASK_WAITING then PushFront t
            else if it_status x = IOTASK_PENDING \<or> it_status x = IOTASK_READY then NoCall else AbortedCall)
           (io_set t (x\<lparr>it_status := IOTASK_CLOSING\<rparr>) (s\<lparr>io_asked := (io_asked s)(t := True)\<rparr>)))"

definition io_call_step :: "nat \<Rightarrow> 'k io \<Rightarrow> 'k io option" where
  "io_call_step w s =
     (case io_call s w of
        Register t \<Rightarrow> Some (io_register w t s)
      | PostPush t \<Rightarrow> Some (io_post_push w t s)
      | PushFront t \<Rightarrow> Some (io_push_front w t s)
      | SendEvent \<Rightarrow> Some (io_send_event w s)
      | WakeCas t old \<Rightarrow> Some (io_wake_cas w t old s)
      | CloseXchg t \<Rightarrow> Some (io_close_xchg w t s)
      | _ \<Rightarrow> None)"

section \<open>Runs\<close>

inductive io_step :: "'k io \<Rightarrow> 'k io \<Rightarrow> bool" where
  worker: "io_worker_step w s = Some s' \<Longrightarrow> io_step s s'"
| epoll: "io_pc s w = Epoll \<Longrightarrow> io_epoll w ts fd s = Some s' \<Longrightarrow> io_step s s'"
| poll: "io_pc s w = PollFor d \<or> io_pc s w = PollForever \<Longrightarrow> io_readable s \<Longrightarrow> io_step s (io_goto w Epoll s)"
| poll_timeout: "io_pc s w = PollFor d \<Longrightarrow> d \<le> io_now s \<Longrightarrow> io_step s (io_goto w Epoll s)"
| call: "io_call_step w s = Some s' \<Longrightarrow> io_step s s'"

text \<open>
  Client code runs in threads of its own and inside of \<^verbatim>\<open>OnEvent\<close>. A task belongs to the core from \<^verbatim>\<open>Post\<close> until its last callback
  is called; \<^verbatim>\<open>OnEvent\<close> may set its deadline, save events it did not consume, and attach a socket when there is none.
  \<^verbatim>\<open>PostWakeup\<close> and \<^verbatim>\<open>PostClose\<close> are free at any time.
\<close>

fun io_client_place :: "'k io_place \<Rightarrow> bool" where
  "io_client_place Outside = True"
| "io_client_place (Callback t b a) = True"
| "io_client_place (CloseCallback t b) = True"
| "io_client_place _ = False"

definition io_client :: "'k io \<Rightarrow> nat \<Rightarrow> bool" where
  "io_client s w = (io_client_place (io_pc s w) \<and> io_call s w = NoCall)"

definition io_set_deadline :: "'k \<Rightarrow> u64 \<Rightarrow> 'k io \<Rightarrow> 'k io" where
  "io_set_deadline t d s =
     (let x = io_tasks s t in if d < it_deadline x then io_set t (x\<lparr>it_deadline := d\<rparr>) s else s)"

definition io_reschedule :: "'k \<Rightarrow> 'k io \<Rightarrow> 'k io" where
  "io_reschedule t s = io_set t ((io_tasks s t)\<lparr>it_deadline := 0\<rparr>) s"

definition io_save_event :: "'k \<Rightarrow> u32 \<Rightarrow> 'k io \<Rightarrow> 'k io" where
  "io_save_event t m s = io_set t ((io_tasks s t)\<lparr>it_ready := it_ready (io_tasks s t) OR m\<rparr>) s"

definition io_attach_socket :: "nat \<Rightarrow> 'k \<Rightarrow> 'k io \<Rightarrow> 'k io" where
  "io_attach_socket w t s =
     (let x = io_tasks s t
      in if current_task (io_pc s w) = Some t \<and> \<not> it_closed x \<and> \<not> it_sock x
         then case io_kernel_register t (io_set t (x\<lparr>it_sock := True\<rparr>) s) of
                None \<Rightarrow> io_at_call w AbortedCall s | Some s1 \<Rightarrow> s1
         else io_at_call w AbortedCall s)"

definition io_close_done :: "nat \<Rightarrow> nat \<Rightarrow> 'k io \<Rightarrow> 'k io" where
  "io_close_done w b s = io_next w b (s\<lparr>io_desc := io_desc s - 1\<rparr>)"

inductive io_env :: "'k io \<Rightarrow> 'k io \<Rightarrow> bool" where
  post: "io_client s w \<Longrightarrow> \<not> it_sub (io_tasks s t) \<Longrightarrow>
     (it_status (io_tasks s t) = IOTASK_CLOSED \<longrightarrow> current_task (io_pc s w) = Some t) \<Longrightarrow> io_env s (io_attach w t sock s)"
| wakeup: "io_client s w \<Longrightarrow> io_env s (io_at_call w (WakeCas t IOTASK_WAITING) s)"
| close: "io_client s w \<Longrightarrow> io_env s (io_close w t s)"
| set_deadline: "\<not> it_sub (io_tasks s t) \<or> io_pc s w = Callback t b a \<Longrightarrow> io_env s (io_set_deadline t d s)"
| reschedule: "io_pc s w = Callback t b a \<Longrightarrow> io_env s (io_reschedule t s)"
| save_event: "io_pc s w = Callback t b a \<Longrightarrow> it_sock (io_tasks s t) \<Longrightarrow> m \<in> {EPOLLIN, EPOLLOUT} \<Longrightarrow> io_env s (io_save_event t m s)"
| attach_socket: "io_pc s w = Callback t b a \<Longrightarrow> io_call s w = NoCall \<Longrightarrow> \<not> it_sock (io_tasks s t) \<Longrightarrow>
     io_env s (io_attach_socket w t s)"
| callback_done: "io_pc s w = Callback t b a \<Longrightarrow> io_call s w = NoCall \<Longrightarrow> io_env s (io_goto w (Repost t b) s)"
| close_done: "io_pc s w = CloseCallback t b \<Longrightarrow> io_call s w = NoCall \<Longrightarrow> io_env s (io_close_done w b s)"
| kernel: "io_kernel s t = Some m \<Longrightarrow> e \<noteq> 0 \<Longrightarrow> io_env s (s\<lparr>io_kernel := (io_kernel s)(t := Some (m OR e))\<rparr>)"
| interrupt: "io_pc s w = PollFor d \<or> io_pc s w = PollForever \<Longrightarrow> io_env s (io_goto w Epoll s)"
| clock: "io_now s \<le> x \<Longrightarrow> io_env s (s\<lparr>io_now := x\<rparr>)"

inductive io_reachable :: "'k io \<Rightarrow> bool" where
  start: "io_start n = Some s \<Longrightarrow> io_reachable s"
| step: "io_reachable s \<Longrightarrow> io_step s s' \<Longrightarrow> io_reachable s'"
| env: "io_reachable s \<Longrightarrow> io_env s s' \<Longrightarrow> io_reachable s'"

end
