(* ===== verification/IO_Invariant.thy ===== *)
theory IO_Invariant
  imports IO_Core
begin

text \<open>
  The invariant of the IO core. Every task is at one location: free, asleep, in one of the queues, or held by a
  thread; \<open>core\<close> says so for a function of locations, which is no part of the state, and relates the members of every
  task to the class of its location (\<open>task_ok\<close>). The other groups are about the scheduler role, the places of the threads,
  the waiting queue, the reported events and the signals. A step of a worker is first brought into the form \<open>io_move\<close>, in which the
  assertions are discharged.
\<close>

section \<open>Classes of places\<close>

fun io_role_place :: "'k io_place \<Rightarrow> bool" where
  "io_role_place Epoll = True" | "io_role_place PopFront = True" | "io_role_place Kernel = True" | "io_role_place (Pend b) = True"
| "io_role_place (PendClose t b e) = True" | "io_role_place (PendClosed t b e) = True" | "io_role_place (WaitTop b) = True"
| "io_role_place Flush = True" | "io_role_place CheckIdle = True" | "io_role_place CheckDeadline = True" | "io_role_place (PollFor d) = True"
| "io_role_place PollForever = True" | "io_role_place EndRole = True" | "io_role_place _ = False"

text \<open>Places after the front queue was emptied; places where tasks are collected; sleep.\<close>

fun io_front_seen :: "'k io_place \<Rightarrow> bool" where
  "io_front_seen Kernel = True" | "io_front_seen (Pend b) = True" | "io_front_seen (PendClose t b e) = True"
| "io_front_seen (PendClosed t b e) = True" | "io_front_seen (WaitTop b) = True" | "io_front_seen Flush = True"
| "io_front_seen CheckIdle = True" | "io_front_seen CheckDeadline = True" | "io_front_seen (PollFor d) = True"
| "io_front_seen PollForever = True" | "io_front_seen _ = False"

fun io_collecting :: "'k io_place \<Rightarrow> bool" where
  "io_collecting PopFront = True" | "io_collecting Kernel = True" | "io_collecting (Pend b) = True" | "io_collecting (PendClose t b e) = True"
| "io_collecting (PendClosed t b e) = True" | "io_collecting (WaitTop b) = True" | "io_collecting Flush = True" | "io_collecting _ = False"

fun io_sleeping :: "'k io_place \<Rightarrow> bool" where
  "io_sleeping CheckDeadline = True" | "io_sleeping (PollFor d) = True" | "io_sleeping PollForever = True" | "io_sleeping _ = False"

fun elects :: "'k io_place \<Rightarrow> bool" where
  "elects Starting = True" | "elects TryRole = True" | "elects SendReady = True" | "elects _ = False"

fun reports :: "'k io_place \<Rightarrow> bool" where
  "reports PopFront = True" | "reports Kernel = True" | "reports _ = False"

text \<open>The task a thread holds.\<close>

fun io_place_holds :: "'k io_place \<Rightarrow> 'k option" where
  "io_place_holds (PendClose t b e) = Some t" | "io_place_holds (PendClosed t b e) = Some t" | "io_place_holds (Counted t b) = Some t"
| "io_place_holds (ExecCas t b) = Some t" | "io_place_holds (Callback t b a) = Some t" | "io_place_holds (Repost t b) = Some t"
| "io_place_holds _ = None"

fun io_call_holds :: "'k io_in_call \<Rightarrow> 'k option" where
  "io_call_holds (Register t) = Some t" | "io_call_holds (PostPush t) = Some t" | "io_call_holds (PushFront t) = Some t"
| "io_call_holds _ = None"

fun call_closes :: "'k io_in_call \<Rightarrow> 'k option" where
  "call_closes (CloseXchg t) = Some t" | "call_closes _ = None"

section \<open>Locations\<close>

datatype io_loc = Free | Asleep | InFront | InPending | InCollected | InReady | AtPlace nat | AtCall nat

text \<open>What a location means for a task: outside, asleep, on its way to the scheduler, being closed, closed, about to run, running, being posted.\<close>

datatype io_class = CFree | CSleep | CQueued | CClosing bool | CClosed bool | CToRun | CRun | CNew | CPost

fun place_class :: "'k io_place \<Rightarrow> io_class" where
  "place_class (PendClose t b e) = CClosing e" | "place_class (PendClosed t b e) = CClosed e" | "place_class (Counted t b) = CToRun"
| "place_class (ExecCas t b) = CToRun" | "place_class (Callback t b a) = CRun" | "place_class (Repost t b) = CRun"
| "place_class _ = CFree"

fun call_class :: "'k io_in_call \<Rightarrow> io_class" where
  "call_class (Register t) = CNew" | "call_class (PostPush t) = CPost" | "call_class (PushFront t) = CQueued" | "call_class _ = CFree"

fun class_of :: "'k io \<Rightarrow> io_loc \<Rightarrow> io_class" where
  "class_of s Free = CFree" | "class_of s Asleep = CSleep" | "class_of s InFront = CQueued" | "class_of s InPending = CQueued"
| "class_of s InCollected = CToRun" | "class_of s InReady = CToRun" | "class_of s (AtPlace w) = place_class (io_pc s w)"
| "class_of s (AtCall w) = call_class (io_call s w)"

definition in_loc :: "'k io \<Rightarrow> 'k \<Rightarrow> io_loc \<Rightarrow> bool" where
  "in_loc s t l =
     ((t \<in> set (io_front s) \<longleftrightarrow> l = InFront) \<and> (t \<in> set (io_pendq s) \<longleftrightarrow> l = InPending) \<and>
      (t \<in> set (io_collected s) \<longleftrightarrow> l = InCollected) \<and> (t \<in> set (io_readyq s) \<longleftrightarrow> l = InReady) \<and>
      (\<forall>w. io_place_holds (io_pc s w) = Some t \<longleftrightarrow> l = AtPlace w) \<and> (\<forall>w. io_call_holds (io_call s w) = Some t \<longleftrightarrow> l = AtCall w))"

definition closer :: "'k io \<Rightarrow> 'k \<Rightarrow> nat option \<Rightarrow> bool" where
  "closer s t c = (\<forall>w. call_closes (io_call s w) = Some t \<longleftrightarrow> c = Some w)"

text \<open>Masks of events.\<close>

definition covers :: "u32 \<Rightarrow> u32 \<Rightarrow> bool" where
  "covers m ow = (ow OR m = m)"

lemma covers_simps [simp]: "covers m 0" "covers m m" "covers m a \<Longrightarrow> covers (b OR m) a" "covers m a \<Longrightarrow> covers (m OR b) a"
  "covers 0 a \<longleftrightarrow> a = 0"
  by (auto simp: covers_def or.assoc or.left_commute bit_eq_iff bit_or_iff)

lemma covers_add: "covers m a \<Longrightarrow> covers (m OR e) (a OR e)"
  by (auto simp: covers_def bit_eq_iff bit_or_iff)

lemma or_eq_0 [simp]: "(a :: u32) OR b = 0 \<longleftrightarrow> a = 0 \<and> b = 0"
  by (auto simp: bit_eq_iff bit_or_iff)

abbreviation io_sleepers :: "'k io \<Rightarrow> 'k set" where
  "io_sleepers s \<equiv> set (hp_data (io_waiting s))"

fun class_status :: "io_class \<Rightarrow> io_status \<Rightarrow> bool" where
  "class_status CFree st = (st \<noteq> IOTASK_WAITING)"
| "class_status CSleep st = (st = IOTASK_WAITING)"
| "class_status (CClosing e) st = (st = IOTASK_CLOSING)"
| "class_status (CClosed e) st = (st = IOTASK_CLOSING)"
| "class_status CToRun st = (st = IOTASK_READY \<or> st = IOTASK_CLOSING \<or> st = IOTASK_CLOSED)"
| "class_status _ st = (st = IOTASK_PENDING \<or> st = IOTASK_READY \<or> st = IOTASK_CLOSING)"

fun class_queued :: "io_class \<Rightarrow> bool" where
  "class_queued CSleep = True" | "class_queued CQueued = True" | "class_queued (CClosing e) = True"
| "class_queued (CClosed e) = True" | "class_queued CToRun = True" | "class_queued _ = False"

fun class_closed :: "io_class \<Rightarrow> bool" where
  "class_closed (CClosed e) = True" | "class_closed _ = False"

fun class_late :: "io_class \<Rightarrow> io_task \<Rightarrow> bool" where
  "class_late (CClosed e) x = e" | "class_late (CClosing e) x = e" | "class_late CToRun x = it_expired x" | "class_late _ x = False"

fun class_sleeps :: "io_class \<Rightarrow> bool" where
  "class_sleeps CSleep = True" | "class_sleeps CQueued = True" | "class_sleeps _ = False"

text \<open>
  The members of a task at a location of class \<open>c\<close>; \<open>g\<close> says that a thread closes it, \<open>k\<close> is its entry in epoll, \<open>ow\<close> and
  \<open>a\<close> are the history, \<open>h\<close> says that it is in the waiting queue.
\<close>

definition task_ok :: "io_class \<Rightarrow> bool \<Rightarrow> io_task \<Rightarrow> u32 option \<Rightarrow> u32 \<Rightarrow> bool \<Rightarrow> bool \<Rightarrow> u64 \<Rightarrow> bool" where
  "task_ok c g x k ow a h now =
    (class_status c (it_status x) \<and>
     it_guard x = (g \<or> it_status x = IOTASK_CLOSING \<or> it_status x = IOTASK_CLOSED) \<and>
     (g \<longrightarrow> it_status x \<noteq> IOTASK_CLOSING \<and> it_status x \<noteq> IOTASK_CLOSED) \<and>
     it_closed x = (it_status x = IOTASK_CLOSED \<or> class_closed c) \<and>
     it_sub x = (c \<noteq> CFree) \<and>
     it_queued x = class_queued c \<and>
     (k = None) = (\<not> it_sock x \<or> c = CNew) \<and>
     (it_sock x \<longrightarrow> c \<noteq> CFree \<and> \<not> it_closed x) \<and>
     (k = None \<and> \<not> class_closed c \<longrightarrow> it_ready x = 0 \<and> it_pending x = 0) \<and>
     covers (if c = CToRun then it_ready x OR it_pending x else it_pending x) ow \<and>
     (c = CSleep \<longrightarrow> it_pending x = 0 \<and> (it_deadline x = TIME_INFINITE \<or> h)) \<and>
     (h \<longrightarrow> class_sleeps c \<and> it_status x \<noteq> IOTASK_PENDING \<and> it_deadline x \<noteq> TIME_INFINITE) \<and>
     (it_status x = IOTASK_READY \<longrightarrow> a \<or> c = CToRun \<and> (it_expired x \<or> it_ready x \<noteq> 0)) \<and>
     (class_late c x \<longrightarrow> it_deadline x \<le> now))"

abbreviation ok_at :: "'k io \<Rightarrow> 'k \<Rightarrow> io_class \<Rightarrow> bool \<Rightarrow> bool" where
  "ok_at s t c g \<equiv> task_ok c g (io_tasks s t) (io_kernel s t) (io_owed s t) (io_asked s t) (t \<in> io_sleepers s) (io_now s)"

definition core :: "'k io \<Rightarrow> ('k \<Rightarrow> io_loc) \<Rightarrow> ('k \<Rightarrow> nat option) \<Rightarrow> bool" where
  "core s L C =
    (distinct (io_front s) \<and> distinct (io_pendq s) \<and> distinct (io_collected s) \<and> distinct (io_readyq s) \<and>
     (\<forall>t. in_loc s t (L t) \<and> closer s t (C t) \<and> ok_at s t (class_of s (L t)) (C t \<noteq> None)))"

section \<open>The other groups\<close>

definition io_role_inv :: "'k io \<Rightarrow> bool" where
  "io_role_inv s = ((\<forall>v w. io_role_place (io_pc s v) \<longrightarrow> io_role_place (io_pc s w) \<longrightarrow> v = w) \<and>
     (io_role s \<longleftrightarrow> (\<exists>w. io_role_place (io_pc s w))))"

definition io_place_inv :: "'k io \<Rightarrow> bool" where
  "io_place_inv s = (0 < io_workers s \<and>
     (\<forall>w. (io_call s w \<noteq> NoCall \<longrightarrow> io_client_place (io_pc s w)) \<and> (w < io_workers s \<longleftrightarrow> io_pc s w \<noteq> Outside) \<and>
        io_pc s w \<noteq> Aborted \<and> io_call s w \<noteq> AbortedCall \<and>
        (\<forall>t old. io_call s w = WakeCas t old \<longrightarrow> old = IOTASK_PENDING \<or> old = IOTASK_WAITING)))"

definition event_inv :: "'k io \<Rightarrow> bool" where
  "event_inv s = ((\<forall>t e. (t, e) \<in> set (io_evs s) \<longrightarrow> io_kernel s t \<noteq> None \<and> e \<noteq> 0) \<and>
     (io_evs s \<noteq> [] \<longrightarrow> (\<exists>w. reports (io_pc s w))) \<and> io_timestamp s \<le> io_now s)"

definition io_taken_by :: "'k io \<Rightarrow> nat \<Rightarrow> nat" where
  "io_taken_by s w = (case io_pc s w of Counted t b \<Rightarrow> 1 | _ \<Rightarrow> 0)"

definition io_signal_inv :: "'k io \<Rightarrow> bool" where
  "io_signal_inv s =
    ((\<not> io_role s \<longrightarrow> io_rsig s \<or> (\<exists>w. elects (io_pc s w))) \<and>
     (\<forall>w. io_front_seen (io_pc s w) \<and> io_front s \<noteq> [] \<longrightarrow>
        io_eventfd s \<or> (\<exists>v. io_call s v = SendEvent \<or> (\<exists>b. io_pc s v = RepostSignal b))) \<and>
     (io_collected s \<noteq> [] \<longrightarrow> (\<exists>w. io_collecting (io_pc s w))) \<and>
     (\<forall>w. io_sleeping (io_pc s w) \<longrightarrow> io_pendq s = [] \<and> io_readyq s = []) \<and>
     (\<forall>w. io_pc s w = PollForever \<longrightarrow> io_sleepers s = {}) \<and>
     (\<forall>w d. io_pc s w = PollFor d \<longrightarrow> (\<forall>t \<in> io_sleepers s. d \<le> it_deadline (io_tasks s t))) \<and>
     io_ready_count s = length (io_readyq s) + (\<Sum>w<io_workers s. io_taken_by s w))"

definition io_inv :: "'k io \<Rightarrow> bool" where
  "io_inv s = ((\<exists>L C. core s L C) \<and> heap_ok (io_heap s) (io_waiting s) \<and> io_role_inv s \<and> io_place_inv s \<and> event_inv s \<and> io_signal_inv s)"

lemma io_invD:
  assumes "io_inv s"
  shows "\<exists>L C. core s L C" "heap_ok (io_heap s) (io_waiting s)" "io_role_inv s" "io_place_inv s" "event_inv s" "io_signal_inv s"
  using assms by (auto simp: io_inv_def)

lemma coreD:
  assumes "core s L C"
  shows "distinct (io_front s)" "distinct (io_pendq s)" "distinct (io_collected s)" "distinct (io_readyq s)"
    "in_loc s t (L t)" "closer s t (C t)" "ok_at s t (class_of s (L t)) (C t \<noteq> None)"
  using assms by (auto simp: core_def)

lemma task_okD:
  assumes "task_ok c g x k ow a h now"
  shows "class_status c (it_status x)" "it_guard x = (g \<or> it_status x = IOTASK_CLOSING \<or> it_status x = IOTASK_CLOSED)"
    "it_closed x = (it_status x = IOTASK_CLOSED \<or> class_closed c)" "it_sub x = (c \<noteq> CFree)" "it_queued x = class_queued c"
    "(k = None) = (\<not> it_sock x \<or> c = CNew)" "it_sock x \<Longrightarrow> c \<noteq> CFree \<and> \<not> it_closed x"
    "k = None \<Longrightarrow> \<not> class_closed c \<Longrightarrow> it_ready x = 0 \<and> it_pending x = 0"
    "covers (if c = CToRun then it_ready x OR it_pending x else it_pending x) ow"
    "c = CSleep \<Longrightarrow> it_pending x = 0 \<and> (it_deadline x = TIME_INFINITE \<or> h)"
    "h \<Longrightarrow> class_sleeps c \<and> it_status x \<noteq> IOTASK_PENDING \<and> it_deadline x \<noteq> TIME_INFINITE"
    "it_status x = IOTASK_READY \<Longrightarrow> a \<or> c = CToRun \<and> (it_expired x \<or> it_ready x \<noteq> 0)"
    "class_late c x \<Longrightarrow> it_deadline x \<le> now" "g \<Longrightarrow> it_status x \<noteq> IOTASK_CLOSING \<and> it_status x \<noteq> IOTASK_CLOSED"
  using assms unfolding task_ok_def by blast+

lemma class_status_waiting: "class_status c IOTASK_WAITING \<longleftrightarrow> c = CSleep"
  by (cases c) auto

lemma in_locD:
  assumes "in_loc s t l"
  shows "t \<in> set (io_front s) \<longleftrightarrow> l = InFront" "t \<in> set (io_pendq s) \<longleftrightarrow> l = InPending"
    "t \<in> set (io_collected s) \<longleftrightarrow> l = InCollected" "t \<in> set (io_readyq s) \<longleftrightarrow> l = InReady"
    "io_place_holds (io_pc s w) = Some t \<longleftrightarrow> l = AtPlace w" "io_call_holds (io_call s w) = Some t \<longleftrightarrow> l = AtCall w"
  using assms by (auto simp: in_loc_def)

lemma task_okI:
  assumes "class_status c (it_status x)" "it_guard x = (g \<or> it_status x = IOTASK_CLOSING \<or> it_status x = IOTASK_CLOSED)"
    "g \<Longrightarrow> it_status x \<noteq> IOTASK_CLOSING \<and> it_status x \<noteq> IOTASK_CLOSED"
    "it_closed x = (it_status x = IOTASK_CLOSED \<or> class_closed c)" "it_sub x = (c \<noteq> CFree)" "it_queued x = class_queued c"
    "(k = None) = (\<not> it_sock x \<or> c = CNew)" "it_sock x \<Longrightarrow> c \<noteq> CFree \<and> \<not> it_closed x"
    "k = None \<Longrightarrow> \<not> class_closed c \<Longrightarrow> it_ready x = 0 \<and> it_pending x = 0"
    "covers (if c = CToRun then it_ready x OR it_pending x else it_pending x) ow"
    "c = CSleep \<Longrightarrow> it_pending x = 0 \<and> (it_deadline x = TIME_INFINITE \<or> h)"
    "h \<Longrightarrow> class_sleeps c \<and> it_status x \<noteq> IOTASK_PENDING \<and> it_deadline x \<noteq> TIME_INFINITE"
    "it_status x = IOTASK_READY \<Longrightarrow> a \<or> c = CToRun \<and> (it_expired x \<or> it_ready x \<noteq> 0)"
    "class_late c x \<Longrightarrow> it_deadline x \<le> now"
  shows "task_ok c g x k ow a h now"
  using assms unfolding task_ok_def by blast

section \<open>Transitions of a task\<close>

text \<open>How the members of a task change with its location, one lemma for each way.\<close>

lemma task_wakes:
  assumes "task_ok CSleep g x k ow a h now" and "e \<noteq> 0" and "k \<noteq> None" and "d \<longrightarrow> it_deadline x \<le> now"
  shows "task_ok CToRun g (x\<lparr>it_status := IOTASK_READY, it_ready := it_ready x OR (it_pending x OR e), it_pending := 0, it_expired := d\<rparr>)
    k (ow OR e) a False now"
proof -
  note D = task_okD[OF assms(1)]
  have "it_pending x = 0" "ow = 0" using D(9,10) by auto
  then show ?thesis by (intro task_okI) (use D assms(2-4) in simp_all)
qed

lemma class_late_pending [simp]: "class_late c (x\<lparr>it_pending := p\<rparr>) = class_late c x" "class_late c (x\<lparr>it_status := st\<rparr>) = class_late c x"
  "class_late c (x\<lparr>it_guard := gd\<rparr>) = class_late c x" "class_late c (x\<lparr>it_ready := r\<rparr>) = class_late c x"
  by (cases c; simp)+

lemma task_noted:
  assumes "task_ok c g x k ow a h now" and "k \<noteq> None" and "c \<noteq> CSleep"
  shows "task_ok c g (x\<lparr>it_pending := it_pending x OR e\<rparr>) k (ow OR e) a h now"
proof -
  note D = task_okD[OF assms(1)]
  have "covers (if c = CToRun then it_ready x OR (it_pending x OR e) else it_pending x OR e) (ow OR e)"
    using covers_add[OF D(9), of e] by (simp add: or.assoc split: if_splits)
  then show ?thesis by (intro task_okI) (use D assms(2,3) in auto)
qed

lemma task_goes:
  assumes "task_ok CQueued g x k ow a h now" and "d \<longrightarrow> it_deadline x \<le> now"
    and "it_status x = IOTASK_READY \<or> it_status x = IOTASK_PENDING \<and> (d \<or> it_pending x \<noteq> 0)"
  shows "task_ok CToRun g (x\<lparr>it_status := IOTASK_READY, it_ready := it_ready x OR it_pending x, it_pending := 0, it_expired := d\<rparr>) k ow a False now"
  by (intro task_okI) (use task_okD[OF assms(1)] assms(2,3) in auto)

lemma task_to_close:
  assumes "task_ok CQueued g x k ow a h now" and "d \<longrightarrow> it_deadline x \<le> now" and "it_status x = IOTASK_CLOSING"
  shows "task_ok (CClosing d) g x k ow a False now"
  by (intro task_okI) (use task_okD[OF assms(1)] assms(2,3) in auto)

lemma task_to_sleep:
  assumes "task_ok CQueued g x k ow a h now" and "it_status x = IOTASK_PENDING" and "it_pending x = 0"
    and "h' \<longleftrightarrow> it_deadline x \<noteq> TIME_INFINITE"
  shows "task_ok CSleep g (x\<lparr>it_status := IOTASK_WAITING\<rparr>) k ow a h' now"
  by (intro task_okI) (use task_okD[OF assms(1)] assms(2-4) in auto)

lemma task_closes:
  assumes "task_ok (CClosing d) g x k ow a h now"
  shows "task_ok (CClosed d) g (x\<lparr>it_closed := True, it_sock := False\<rparr>) (if it_sock x then None else k) ow a h now"
  by (intro task_okI) (use task_okD[OF assms] in auto)

lemma task_is_closed:
  assumes "task_ok (CClosed d) g x k ow a h now"
  shows "task_ok CToRun g (x\<lparr>it_status := IOTASK_CLOSED, it_ready := 0, it_pending := 0, it_expired := d\<rparr>) k 0 a h now"
  by (intro task_okI) (use task_okD[OF assms] in auto)

lemma task_expires:
  assumes "task_ok CSleep g x k ow a h now" and "it_deadline x \<le> now"
  shows "task_ok CToRun g (x\<lparr>it_status := IOTASK_READY, it_expired := True\<rparr>) k ow a False now"
  by (intro task_okI) (use task_okD[OF assms(1)] assms(2) in auto)

lemma task_unwaits:
  assumes "task_ok c g x k ow a h now" and "c \<noteq> CSleep"
  shows "task_ok c g x k ow a False now"
  by (intro task_okI) (use task_okD[OF assms(1)] assms(2) in auto)

lemma task_runs:
  assumes "task_ok CToRun g x k ow a h now" and "\<not> it_closed x"
  shows "task_ok CRun g (x\<lparr>it_queued := False, it_status := (if it_status x = IOTASK_READY then IOTASK_PENDING else it_status x),
                 it_ready := 0, it_deadline := TIME_INFINITE\<rparr>) k (it_pending x) (a \<and> it_status x \<noteq> IOTASK_READY) h now"
  by (intro task_okI) (use task_okD[OF assms(1)] assms(2) in auto)

lemma task_ends:
  assumes "task_ok CToRun g x k ow a h now" and "it_closed x"
  shows "task_ok CFree g (x\<lparr>it_queued := False, it_status := (if it_status x = IOTASK_READY then IOTASK_PENDING else it_status x),
                 it_ready := 0, it_deadline := TIME_INFINITE, it_sub := False\<rparr>) k (it_pending x) (a \<and> it_status x \<noteq> IOTASK_READY) h now"
  by (intro task_okI) (use task_okD[OF assms(1)] assms(2) in auto)

lemma task_returns:
  assumes "task_ok CRun g x k ow a h now"
  shows "task_ok CQueued g (x\<lparr>it_queued := True\<rparr>) k ow a h now"
  by (intro task_okI) (use task_okD[OF assms(1)] in auto)

section \<open>Moves of the workers\<close>

text \<open>After a task: the next one, an attempt to become the scheduler, or sleep.\<close>

definition after_task :: "'k io_place \<Rightarrow> bool" where
  "after_task p = ((\<exists>b. p = Exec b) \<or> p = TryRole \<or> p = WaitReady)"

inductive io_move :: "nat \<Rightarrow> 'k io \<Rightarrow> 'k io \<Rightarrow> bool" for w s where
  starting: "io_pc s w = Starting \<Longrightarrow> io_move w s (io_goto w TryRole s)"
| role_ok: "io_pc s w = TryRole \<Longrightarrow> \<not> io_role s \<Longrightarrow> io_move w s (io_goto w Epoll (s\<lparr>io_role := True\<rparr>))"
| role_no: "io_pc s w = TryRole \<Longrightarrow> io_role s \<Longrightarrow> io_move w s (io_goto w (Exec 0) s)"
| epoll: "io_pc s w = Epoll \<Longrightarrow> \<forall>t \<in> set ts. \<exists>m. io_kernel s t = Some m \<and> m \<noteq> 0 \<Longrightarrow> io_collected s = [] \<Longrightarrow>
    io_move w s (io_goto w PopFront
        (s\<lparr>io_evs := map (\<lambda>t. (t, the (io_kernel s t))) ts, io_kernel := (\<lambda>t. if t \<in> set ts then Some 0 else io_kernel s t),
           io_eventfd := (io_eventfd s \<and> \<not> fd), io_timestamp := io_now s, io_collected := []\<rparr>))"
| pop_front: "io_pc s w = PopFront \<Longrightarrow> io_move w s (io_goto w Kernel (s\<lparr>io_pendq := io_pendq s @ io_front s, io_front := []\<rparr>))"
| kernel_done: "io_pc s w = Kernel \<Longrightarrow> io_evs s = [] \<Longrightarrow> io_move w s (io_goto w (Pend 0) s)"
| kernel_wake: "io_pc s w = Kernel \<Longrightarrow> io_evs s = (t, e) # r \<Longrightarrow> it_status (io_tasks s t) = IOTASK_WAITING \<Longrightarrow>
    set (hp_data q) = io_sleepers s - {t} \<Longrightarrow> heap_ok (io_heap s) q \<Longrightarrow>
    io_move w s (io_collect t (io_timestamp s \<ge> it_deadline (io_tasks s t))
      ((io_tasks s t)\<lparr>it_pending := it_pending (io_tasks s t) OR e, it_status := IOTASK_READY\<rparr>)
      (s\<lparr>io_evs := r, io_owed := (io_owed s)(t := io_owed s t OR e), io_waiting := q\<rparr>))"
| kernel_note: "io_pc s w = Kernel \<Longrightarrow> io_evs s = (t, e) # r \<Longrightarrow> it_status (io_tasks s t) \<noteq> IOTASK_WAITING \<Longrightarrow>
    io_move w s (io_set t ((io_tasks s t)\<lparr>it_pending := it_pending (io_tasks s t) OR e\<rparr>)
      (s\<lparr>io_evs := r, io_owed := (io_owed s)(t := io_owed s t OR e)\<rparr>))"
| pend_done: "io_pc s w = Pend b \<Longrightarrow> io_move w s (io_goto w (WaitTop 0) s)"
| pend_out: "io_pc s w = Pend b \<Longrightarrow> io_pendq s = t # ps \<Longrightarrow> e = (io_timestamp s \<ge> it_deadline (io_tasks s t)) \<Longrightarrow>
    it_status (io_tasks s t) = IOTASK_READY \<or> it_status (io_tasks s t) = IOTASK_PENDING \<and> (e \<or> it_pending (io_tasks s t) \<noteq> 0) \<Longrightarrow>
    set (hp_data q) = io_sleepers s - {t} \<Longrightarrow> heap_ok (io_heap s) q \<Longrightarrow>
    io_move w s (io_goto w (Pend (b + 1))
      (io_collect t e ((io_tasks s t)\<lparr>it_status := IOTASK_READY\<rparr>) (s\<lparr>io_pendq := ps, io_waiting := q\<rparr>)))"
| pend_closing: "io_pc s w = Pend b \<Longrightarrow> io_pendq s = t # ps \<Longrightarrow> e = (io_timestamp s \<ge> it_deadline (io_tasks s t)) \<Longrightarrow>
    it_status (io_tasks s t) = IOTASK_CLOSING \<Longrightarrow> set (hp_data q) = io_sleepers s - {t} \<Longrightarrow> heap_ok (io_heap s) q \<Longrightarrow>
    io_move w s (io_goto w (PendClose t (b + 1) e) (s\<lparr>io_pendq := ps, io_waiting := q\<rparr>))"
| pend_sleep: "io_pc s w = Pend b \<Longrightarrow> io_pendq s = t # ps \<Longrightarrow> it_status (io_tasks s t) = IOTASK_PENDING \<Longrightarrow>
    it_pending (io_tasks s t) = 0 \<Longrightarrow>
    set (hp_data q) = (if it_deadline (io_tasks s t) = TIME_INFINITE then io_sleepers s else insert t (io_sleepers s)) \<Longrightarrow>
    heap_ok (io_heap s) q \<Longrightarrow>
    io_move w s (io_goto w (Pend (b + 1)) (io_set t ((io_tasks s t)\<lparr>it_status := IOTASK_WAITING\<rparr>) (s\<lparr>io_pendq := ps, io_waiting := q\<rparr>)))"
| close: "io_pc s w = PendClose t b e \<Longrightarrow>
    io_move w s (io_goto w (PendClosed t b e) (io_set t ((io_tasks s t)\<lparr>it_closed := True, it_sock := False\<rparr>)
      (s\<lparr>io_kernel := (io_kernel s)(t := if it_sock (io_tasks s t) then None else io_kernel s t)\<rparr>)))"
| closed: "io_pc s w = PendClosed t b e \<Longrightarrow>
    io_move w s (io_goto w (Pend b)
      (io_set t ((io_tasks s t)\<lparr>it_status := IOTASK_CLOSED, it_ready := 0, it_pending := 0, it_expired := e\<rparr>)
        (s\<lparr>io_collected := io_collected s @ [t], io_owed := (io_owed s)(t := 0)\<rparr>)))"
| wait_done: "io_pc s w = WaitTop b \<Longrightarrow> io_move w s (io_goto w Flush s)"
| wait_run: "io_pc s w = WaitTop b \<Longrightarrow> it_deadline (io_tasks s t) \<le> io_timestamp s \<Longrightarrow> it_status (io_tasks s t) = IOTASK_WAITING \<Longrightarrow>
    set (hp_data q) = io_sleepers s - {t} \<Longrightarrow> heap_ok (io_heap s) q \<Longrightarrow>
    io_move w s (io_goto w (WaitTop (b + 1)) (io_set t ((io_tasks s t)\<lparr>it_status := IOTASK_READY, it_expired := True\<rparr>)
      (s\<lparr>io_waiting := q, io_collected := io_collected s @ [t]\<rparr>)))"
| wait_skip: "io_pc s w = WaitTop b \<Longrightarrow> it_status (io_tasks s t) \<noteq> IOTASK_WAITING \<Longrightarrow>
    set (hp_data q) = io_sleepers s - {t} \<Longrightarrow> heap_ok (io_heap s) q \<Longrightarrow>
    io_move w s (io_goto w (WaitTop (b + 1)) (s\<lparr>io_waiting := q\<rparr>))"
| flush_done: "io_pc s w = Flush \<Longrightarrow> io_collected s = [] \<Longrightarrow> io_move w s (io_goto w CheckIdle s)"
| flush: "io_pc s w = Flush \<Longrightarrow> io_collected s = t # ts \<Longrightarrow>
    io_move w s (s\<lparr>io_collected := ts, io_readyq := io_readyq s @ [t], io_ready_count := io_ready_count s + 1\<rparr>)"
| busy: "io_pc s w = CheckIdle \<Longrightarrow> io_move w s (io_goto w EndRole s)"
| idle: "io_pc s w = CheckIdle \<Longrightarrow> io_ready_count s = 0 \<Longrightarrow> io_pendq s = [] \<Longrightarrow> io_move w s (io_goto w CheckDeadline s)"
| poll_forever: "io_pc s w = CheckDeadline \<Longrightarrow> io_sleepers s = {} \<Longrightarrow> io_move w s (io_goto w PollForever s)"
| poll_for: "io_pc s w = CheckDeadline \<Longrightarrow> \<forall>t \<in> io_sleepers s. d \<le> it_deadline (io_tasks s t) \<Longrightarrow>
    io_move w s (io_goto w (PollFor d) (s\<lparr>io_timestamp := io_now s\<rparr>))"
| poll_not: "io_pc s w = CheckDeadline \<Longrightarrow> io_move w s (io_goto w Epoll (s\<lparr>io_timestamp := io_now s\<rparr>))"
| poll_end: "io_pc s w = PollFor d \<or> io_pc s w = PollForever \<Longrightarrow> io_move w s (io_goto w Epoll s)"
| end_role: "io_pc s w = EndRole \<Longrightarrow> io_move w s (io_goto w SendReady (s\<lparr>io_role := False\<rparr>))"
| send_ready: "io_pc s w = SendReady \<Longrightarrow> io_move w s (io_goto w (Exec 0) (s\<lparr>io_rsig := True\<rparr>))"
| exec_none: "io_pc s w = Exec b \<Longrightarrow> io_readyq s = [] \<Longrightarrow> after_task p \<Longrightarrow> io_move w s (io_goto w p s)"
| exec: "io_pc s w = Exec b \<Longrightarrow> io_readyq s = t # ts \<Longrightarrow> io_move w s (io_goto w (Counted t b) (s\<lparr>io_readyq := ts\<rparr>))"
| counted: "io_pc s w = Counted t b \<Longrightarrow> io_move w s (io_goto w (ExecCas t b) (s\<lparr>io_ready_count := io_ready_count s - 1\<rparr>))"
| run: "io_pc s w = ExecCas t b \<Longrightarrow> \<not> it_closed (io_tasks s t) \<Longrightarrow> x = io_tasks s t \<Longrightarrow>
    io_move w s (io_goto w (Callback t b (it_ready x))
      (io_set t (x\<lparr>it_queued := False, it_status := (if it_status x = IOTASK_READY then IOTASK_PENDING else it_status x),
                 it_ready := 0, it_deadline := TIME_INFINITE\<rparr>)
        (s\<lparr>io_asked := (io_asked s)(t := io_asked s t \<and> it_status x \<noteq> IOTASK_READY), io_owed := (io_owed s)(t := it_pending x)\<rparr>)))"
| run_closed: "io_pc s w = ExecCas t b \<Longrightarrow> it_closed (io_tasks s t) \<Longrightarrow> x = io_tasks s t \<Longrightarrow>
    io_move w s (io_goto w (CloseCallback t b)
      (io_set t (x\<lparr>it_queued := False, it_status := (if it_status x = IOTASK_READY then IOTASK_PENDING else it_status x),
                 it_ready := 0, it_deadline := TIME_INFINITE, it_sub := False\<rparr>)
        (s\<lparr>io_asked := (io_asked s)(t := io_asked s t \<and> it_status x \<noteq> IOTASK_READY), io_owed := (io_owed s)(t := it_pending x)\<rparr>)))"
| repost: "io_pc s w = Repost t b \<Longrightarrow> p = RepostSignal b \<or> after_task p \<and> io_front s \<noteq> [] \<Longrightarrow>
    io_move w s (io_goto w p (io_set t ((io_tasks s t)\<lparr>it_queued := True\<rparr>) (s\<lparr>io_front := io_front s @ [t]\<rparr>)))"
| repost_signal: "io_pc s w = RepostSignal b \<Longrightarrow> after_task p \<Longrightarrow> io_move w s (io_goto w p (s\<lparr>io_eventfd := True\<rparr>))"
| wait_ready: "io_pc s w = WaitReady \<Longrightarrow> io_rsig s \<Longrightarrow> io_move w s (io_goto w Starting (s\<lparr>io_rsig := False\<rparr>))"

section \<open>The waiting queue as a set\<close>

lemmas io_heap_index = dheap_index[of "\<lambda>t. it_deadline (io_tasks s t)" for s :: "'k io", folded io_heap_def]

lemmas io_heap_top = dheap_top[of "\<lambda>t. it_deadline (io_tasks s t)" for s :: "'k io", folded io_heap_def]

lemmas io_heap_remove_top = dheap_remove_top[of "\<lambda>t. it_deadline (io_tasks s t)" for s :: "'k io", folded io_heap_def]

lemmas io_heap_remove = dheap_remove[of "\<lambda>t. it_deadline (io_tasks s t)" for s :: "'k io", folded io_heap_def]

lemmas io_heap_push = dheap_push[of "\<lambda>t. it_deadline (io_tasks s t)" for s :: "'k io", folded io_heap_def]

lemmas io_heap_cong = dheap_cong[of "\<lambda>t. it_deadline (io_tasks s t)" _ "\<lambda>t. it_deadline (io_tasks s' t)" for s s' :: "'k io", folded io_heap_def]

lemma io_unwait_ok:
  assumes "heap_ok (io_heap s) (io_waiting s)"
  obtains q where "io_unwait t s = Some q" "heap_ok (io_heap s) q" "set (hp_data q) = io_sleepers s - {t}"
proof (cases "t \<in> io_sleepers s")
  case True
  from io_heap_remove[OF assms True] obtain q where "heap_remove (io_heap s) t (io_waiting s) = Some q"
    "heap_ok (io_heap s) q" "set (hp_data q) = io_sleepers s - {t}" .
  then show ?thesis using that True io_heap_index[OF assms, of t] by (simp add: io_unwait_def)
next
  case False
  then show ?thesis using that[of "io_waiting s"] assms io_heap_index[OF assms, of t] by (simp add: io_unwait_def)
qed

lemma poll_limit_le:
  assumes "now \<le> (deadline :: u64)"
  shows "poll_limit deadline now \<le> deadline"
proof -
  have "now \<le> now + (deadline - now)" using assms by simp
  then have "now + min (deadline - now) 0x7FFFFFFF \<le> now + (deadline - now)"
    by (intro word_plus_mono_right) auto
  then show ?thesis by (simp add: poll_limit_def)
qed

end
