(* ===== verification/IO_Moves.thy ===== *)
theory IO_Moves
  imports IO_Invariant
begin

text \<open>
  Every step of a worker is a move, and every move keeps the invariant of the IO core. What happens to the tasks is
  an instance of \<open>core_upd\<close>: a step changes one task, its location and its members, and nothing else about the tasks.
\<close>

section \<open>Steps are moves\<close>

lemma io_unwait_pendq [simp]: "io_unwait t (s\<lparr>io_pendq := ps\<rparr>) = io_unwait t s"
  by (simp add: io_unwait_def io_heap_def)

lemma role_invD:
  assumes "io_role_inv s"
  shows "io_role_place (io_pc s v) \<Longrightarrow> io_role_place (io_pc s w) \<Longrightarrow> v = w" "io_role_place (io_pc s w) \<Longrightarrow> io_role s"
  using assms by (auto simp: io_role_inv_def)

lemma io_collecting_role: "io_collecting p \<Longrightarrow> io_role_place p"
  by (cases p) auto

lemma io_nothing_collected:
  assumes "io_role_inv s" and "io_signal_inv s" and "io_pc s w = Epoll"
  shows "io_collected s = []"
proof (rule ccontr)
  assume "io_collected s \<noteq> []"
  then obtain v where "io_collecting (io_pc s v)" using assms(2) by (auto simp: io_signal_inv_def)
  then show False using role_invD(1)[OF assms(1), of v w] io_collecting_role[of "io_pc s v"] assms(3) by auto
qed

lemma io_pendq_waiting [simp]: "s\<lparr>io_pendq := ps, io_waiting := io_waiting s\<rparr> = s\<lparr>io_pendq := ps\<rparr>"
  by (cases s) simp

lemma io_heap_pendq [simp]: "io_heap (s\<lparr>io_pendq := ps\<rparr>) = io_heap s"
  by (simp add: io_heap_def)

text \<open>What the invariant says of a task at the place where a step finds it.\<close>

lemma queued_task:
  assumes "core s L C" and "t \<in> set (io_pendq s)"
  shows "it_status (io_tasks s t) \<in> {IOTASK_PENDING, IOTASK_READY, IOTASK_CLOSING}"
    "it_status (io_tasks s t) = IOTASK_PENDING \<Longrightarrow> t \<notin> io_sleepers s"
proof -
  have "L t = InPending" using coreD(5)[OF assms(1), of t] assms(2) in_locD(2)[of s t "L t"] by simp
  then have k: "ok_at s t CQueued (C t \<noteq> None)" using coreD(7)[OF assms(1), of t] by simp
  show "it_status (io_tasks s t) \<in> {IOTASK_PENDING, IOTASK_READY, IOTASK_CLOSING}" using task_okD(1)[OF k] by simp
  show "it_status (io_tasks s t) = IOTASK_PENDING \<Longrightarrow> t \<notin> io_sleepers s" using task_okD(11)[OF k] by blast
qed

lemma asleep_task:
  assumes "core s L C" and "t \<in> io_sleepers s"
  shows "it_status (io_tasks s t) \<in> {IOTASK_WAITING, IOTASK_READY, IOTASK_CLOSING}"
    "it_status (io_tasks s t) = IOTASK_WAITING \<Longrightarrow> it_pending (io_tasks s t) = 0"
proof -
  note k = coreD(7)[OF assms(1), of t]
  have h: "class_sleeps (class_of s (L t))" "it_status (io_tasks s t) \<noteq> IOTASK_PENDING" using task_okD(11)[OF k assms(2)] by blast+
  show "it_status (io_tasks s t) \<in> {IOTASK_WAITING, IOTASK_READY, IOTASK_CLOSING}"
    using task_okD(1)[OF k] h by (cases "class_of s (L t)") auto
  show "it_status (io_tasks s t) = IOTASK_WAITING \<Longrightarrow> it_pending (io_tasks s t) = 0"
    using task_okD(1,10)[OF k] class_status_waiting by metis
qed

lemma holds_at:
  assumes "core s L C" and "io_place_holds (io_pc s w) = Some t"
  shows "L t = AtPlace w" "ok_at s t (place_class (io_pc s w)) (C t \<noteq> None)"
proof -
  show "L t = AtPlace w" using coreD(5)[OF assms(1), of t] assms(2) in_locD(5)[of s t "L t" w] by simp
  then show "ok_at s t (place_class (io_pc s w)) (C t \<noteq> None)" using coreD(7)[OF assms(1), of t] by simp
qed

lemma closing_task:
  assumes "core s L C" and "io_pc s w = PendClose t b e"
  shows "it_status (io_tasks s t) = IOTASK_CLOSING" "it_guard (io_tasks s t)" "\<not> it_closed (io_tasks s t)"
    "it_sock (io_tasks s t) \<Longrightarrow> io_kernel s t \<noteq> None"
proof -
  have "ok_at s t (CClosing e) (C t \<noteq> None)" using holds_at(2)[OF assms(1), of w t] assms(2) by simp
  note k = task_okD[OF this]
  show st: "it_status (io_tasks s t) = IOTASK_CLOSING" using k(1) by simp
  show "it_guard (io_tasks s t)" "\<not> it_closed (io_tasks s t)" "it_sock (io_tasks s t) \<Longrightarrow> io_kernel s t \<noteq> None"
    using k(2,3,6) st by simp_all
qed

lemma closed_task:
  assumes "core s L C" and "io_pc s w = PendClosed t b e"
  shows "it_status (io_tasks s t) = IOTASK_CLOSING"
proof -
  have "ok_at s t (CClosed e) (C t \<noteq> None)" using holds_at(2)[OF assms(1), of w t] assms(2) by simp
  then show ?thesis using task_okD(1) by fastforce
qed

lemma collected_task:
  assumes "core s L C" and "t \<in> set (io_collected s)"
  shows "t \<notin> io_sleepers s"
proof
  assume h: "t \<in> io_sleepers s"
  have "L t = InCollected" using coreD(5)[OF assms(1), of t] assms(2) in_locD(3)[of s t "L t"] by simp
  then show False using task_okD(11)[OF coreD(7)[OF assms(1), of t] h] by simp
qed

lemma exec_task:
  assumes "core s L C" and "io_pc s w = ExecCas t b"
  shows "it_queued (io_tasks s t)" "it_sub (io_tasks s t)" "it_status (io_tasks s t) \<in> {IOTASK_READY, IOTASK_CLOSING, IOTASK_CLOSED}"
    "it_closed (io_tasks s t) \<longleftrightarrow> it_status (io_tasks s t) = IOTASK_CLOSED"
    "it_closed (io_tasks s t) \<Longrightarrow> it_pending (io_tasks s t) = 0 \<and> it_ready (io_tasks s t) = 0"
proof -
  have "ok_at s t CToRun (C t \<noteq> None)" using holds_at(2)[OF assms(1), of w t] assms(2) by simp
  note k = task_okD[OF this]
  show "it_queued (io_tasks s t)" "it_sub (io_tasks s t)" "it_status (io_tasks s t) \<in> {IOTASK_READY, IOTASK_CLOSING, IOTASK_CLOSED}"
    "it_closed (io_tasks s t) \<longleftrightarrow> it_status (io_tasks s t) = IOTASK_CLOSED"
    using k(1,3,4,5) by simp_all
  show "it_pending (io_tasks s t) = 0 \<and> it_ready (io_tasks s t) = 0" if "it_closed (io_tasks s t)"
    using k(6,7,8) that by auto
qed

lemma running_task:
  assumes "core s L C" and "io_pc s w = Repost t b \<or> io_pc s w = Callback t b' a"
  shows "\<not> it_queued (io_tasks s t)" "\<not> it_closed (io_tasks s t)" "it_sub (io_tasks s t)"
    "it_status (io_tasks s t) \<in> {IOTASK_PENDING, IOTASK_READY, IOTASK_CLOSING}"
proof -
  have "ok_at s t CRun (C t \<noteq> None)" using holds_at(2)[OF assms(1), of w t] assms(2) by auto
  note k = task_okD[OF this]
  show "\<not> it_queued (io_tasks s t)" "it_sub (io_tasks s t)" using k(4,5) by simp_all
  show st: "it_status (io_tasks s t) \<in> {IOTASK_PENDING, IOTASK_READY, IOTASK_CLOSING}" using k(1) by simp
  show "\<not> it_closed (io_tasks s t)" using k(3) st by auto
qed

lemma reported_task:
  assumes "core s L C" and "event_inv s" and "io_evs s = (t, e) # r"
  shows "it_status (io_tasks s t) \<noteq> IOTASK_CLOSED" "e \<noteq> 0" "io_kernel s t \<noteq> None"
proof -
  show k: "e \<noteq> 0" "io_kernel s t \<noteq> None" using assms(2,3) by (auto simp: event_inv_def)
  show "it_status (io_tasks s t) \<noteq> IOTASK_CLOSED" using task_okD(3,6,7)[OF coreD(7)[OF assms(1), of t]] k by blast
qed

lemma io_next_after: "\<exists>p. io_next w b s = io_goto w p s \<and> after_task p"
  by (auto simp: io_next_def io_batch_done_def after_task_def)

lemma io_move_pend:
  assumes K: "core s L C" and hp: "heap_ok (io_heap s) (io_waiting s)" and pc: "io_pc s w = Pend b"
  shows "io_move w s (io_pend w b s)"
proof (cases "io_pendq s")
  case Nil
  then show ?thesis using io_move.pend_done[OF pc] by (simp add: io_pend_def)
next
  case (Cons t ps)
  have st: "it_status (io_tasks s t) \<in> {IOTASK_PENDING, IOTASK_READY, IOTASK_CLOSING}"
    "it_status (io_tasks s t) = IOTASK_PENDING \<Longrightarrow> t \<notin> io_sleepers s" using queued_task[OF K, of t] Cons by auto
  from io_unwait_ok[OF hp] obtain q where q: "io_unwait t s = Some q" "heap_ok (io_heap s) q" "set (hp_data q) = io_sleepers s - {t}" .
  show ?thesis
  proof (cases "b + 1 < io_sched_batch s")
    case False
    then show ?thesis using Cons io_move.pend_done[OF pc] by (simp add: io_pend_def)
  next
    case True
    show ?thesis
    proof (cases "it_status (io_tasks s t) = IOTASK_PENDING \<and> it_pending (io_tasks s t) = 0 \<and> \<not> io_timestamp s \<ge> it_deadline (io_tasks s t)")
      case True
      note push = io_heap_push[OF hp st(2)] and idx = io_heap_index[OF hp, of t]
      show ?thesis
      proof (cases "it_deadline (io_tasks s t) = TIME_INFINITE")
        case inf: True
        have "io_pend w b s = io_goto w (Pend (b + 1)) (io_set t ((io_tasks s t)\<lparr>it_status := IOTASK_WAITING\<rparr>) (s\<lparr>io_pendq := ps\<rparr>))"
          using True inf st(2) idx Cons \<open>b + 1 < io_sched_batch s\<close> by (simp add: io_pend_def io_pend_sleep_def Let_def)
        then show ?thesis using io_move.pend_sleep[OF pc Cons _ _ _ hp] True inf by simp
      next
        case fin: False
        have "io_pend w b s = io_goto w (Pend (b + 1)) (io_set t ((io_tasks s t)\<lparr>it_status := IOTASK_WAITING\<rparr>)
            (s\<lparr>io_pendq := ps, io_waiting := heap_push (io_heap s) t (io_waiting s)\<rparr>))"
          using True fin Cons \<open>b + 1 < io_sched_batch s\<close> by (simp add: io_pend_def io_pend_sleep_def Let_def)
        then show ?thesis using io_move.pend_sleep[OF pc Cons _ _ _ push(1)] True fin st(2) push(2) by simp
      qed
    next
      case F: False
      define e where "e = (io_timestamp s \<ge> it_deadline (io_tasks s t))"
      note eq = io_pend_def io_pend_out_def Let_def Cons q(1) True[unfolded Suc_eq_plus1[symmetric]] e_def[symmetric]
      from st(1) consider "it_status (io_tasks s t) = IOTASK_PENDING" | "it_status (io_tasks s t) = IOTASK_READY"
        | "it_status (io_tasks s t) = IOTASK_CLOSING" by blast
      then show ?thesis
      proof cases
        case 1
        then have "it_pending (io_tasks s t) \<noteq> 0 \<or> e" using F by (auto simp: e_def)
        then show ?thesis using io_move.pend_out[OF pc Cons e_def _ q(3,2)] 1 by (auto simp: eq)
      next
        case 2
        have same: "(io_tasks s t)\<lparr>it_status := IOTASK_READY\<rparr> = io_tasks s t" using 2 by (cases "io_tasks s t") simp
        show ?thesis using io_move.pend_out[OF pc Cons e_def _ q(3,2), unfolded same] 2 by (simp add: eq)
      next
        case 3
        then show ?thesis using io_move.pend_closing[OF pc Cons e_def _ q(3,2)] by (simp add: eq)
      qed
    qed
  qed
qed

lemma io_move_worker:
  assumes I: "io_inv s" and st: "io_worker_step w s = Some s'"
  shows "io_move w s s'"
proof -
  note H = io_invD[OF I]
  obtain L C where K: "core s L C" using H(1) by blast
  note hp = H(2)
  note nx = io_next_after[of w]
  show ?thesis
  proof (cases "io_pc s w")
    case TryRole
    then show ?thesis using st io_move.role_ok[OF TryRole] io_move.role_no[OF TryRole] by (auto simp: io_worker_step_def io_try_role_def)
  next
    case PopFront
    then show ?thesis using st io_move.pop_front[OF PopFront] by (auto simp: io_worker_step_def io_pop_front_def)
  next
    case Kernel
    show ?thesis
    proof (cases "io_evs s")
      case Nil
      then show ?thesis using st Kernel io_move.kernel_done[OF Kernel] by (auto simp: io_worker_step_def io_kernel_event_def)
    next
      case (Cons p r)
      obtain t e where p: "io_evs s = (t, e) # r" using Cons by (cases p) auto
      from io_unwait_ok[OF hp] obtain q where q: "io_unwait t s = Some q" "heap_ok (io_heap s) q" "set (hp_data q) = io_sleepers s - {t}" .
      show ?thesis
        using st Kernel p q reported_task(1)[OF K H(5) p] io_move.kernel_wake[OF Kernel p _ q(3,2)] io_move.kernel_note[OF Kernel p]
        by (cases "it_status (io_tasks s t)") (auto simp: io_worker_step_def io_kernel_event_def Let_def)
    qed
  next
    case (Pend b)
    then show ?thesis using st io_move_pend[OF K hp Pend] by (simp add: io_worker_step_def)
  next
    case (PendClose t b e)
    then show ?thesis using st closing_task[OF K PendClose] io_move.close[OF PendClose]
      by (simp add: io_worker_step_def io_pend_close_def Let_def)
  next
    case (PendClosed t b e)
    then show ?thesis using st closed_task[OF K PendClosed] io_move.closed[OF PendClosed]
      by (simp add: io_worker_step_def io_pend_closed_def Let_def)
  next
    case (WaitTop b)
    show ?thesis
    proof (cases "heap_get_top (io_waiting s)")
      case None
      then show ?thesis using st WaitTop io_move.wait_done[OF WaitTop] by (simp add: io_worker_step_def io_wait_top_def)
    next
      case (Some t)
      from io_heap_remove_top[OF hp Some] obtain q where q: "heap_remove_top (io_heap s) (io_waiting s) = Some (True, q)"
        "heap_ok (io_heap s) q" "set (hp_data q) = io_sleepers s - {t}" .
      have t: "t \<in> io_sleepers s" using io_heap_top(2)[OF hp Some] by blast
      note eq = st[unfolded io_worker_step_def WaitTop io_place.case option.inject, symmetric] io_wait_top_def Some Let_def q(1)
      show ?thesis
      proof (cases "\<not> b + 1 < io_sched_batch s \<or> it_deadline (io_tasks s t) > io_timestamp s")
        case True
        then show ?thesis using io_move.wait_done[OF WaitTop] by (simp add: eq)
      next
        case False
        then have d: "b + 1 < io_sched_batch s" "it_deadline (io_tasks s t) \<le> io_timestamp s" by auto
        show ?thesis
        proof (cases "it_status (io_tasks s t) = IOTASK_WAITING")
          case True
          then show ?thesis using io_move.wait_run[OF WaitTop d(2) _ q(3,2)] asleep_task(2)[OF K t] d by (auto simp: eq)
        next
          case False
          then show ?thesis using io_move.wait_skip[OF WaitTop _ q(3,2)] asleep_task(1)[OF K t] d by (auto simp: eq)
        qed
      qed
    qed
  next
    case Flush
    then show ?thesis
      using st collected_task[OF K, of "hd (io_collected s)"] io_heap_index[OF hp] io_move.flush[OF Flush] io_move.flush_done[OF Flush]
      by (auto simp: io_worker_step_def io_flush_def split: list.splits)
  next
    case CheckIdle
    then show ?thesis using st io_move.busy[OF CheckIdle] io_move.idle[OF CheckIdle]
      by (auto simp: io_worker_step_def io_check_idle_def split: if_splits)
  next
    case CheckDeadline
    show ?thesis
    proof (cases "heap_get_top (io_waiting s)")
      case None
      then show ?thesis using st CheckDeadline io_heap_top(1)[OF hp] io_move.poll_forever[OF CheckDeadline]
        by (simp add: io_worker_step_def io_check_deadline_def)
    next
      case (Some t)
      let ?d = "it_deadline (io_tasks s t)"
      have "\<forall>u \<in> io_sleepers s. poll_limit ?d (io_now s) \<le> it_deadline (io_tasks s u)" if "io_now s < ?d"
        using io_heap_top(2)[OF hp Some] poll_limit_le[of "io_now s" ?d] that by (fastforce intro: order_trans)
      then show ?thesis using st CheckDeadline Some io_move.poll_for[OF CheckDeadline] io_move.poll_not[OF CheckDeadline]
        by (auto simp: io_worker_step_def io_check_deadline_def Let_def not_le)
    qed
  next
    case EndRole
    then have "io_role s" using role_invD(2)[OF H(3), of w] by simp
    then show ?thesis using st EndRole io_move.end_role[OF EndRole] by (simp add: io_worker_step_def io_end_role_def)
  next
    case (Exec b)
    have "after_task TryRole" "after_task WaitReady" by (auto simp: after_task_def)
    then show ?thesis using st Exec io_move.exec[OF Exec] io_move.exec_none[OF Exec]
      by (auto simp: io_worker_step_def io_exec_def io_batch_done_def split: list.splits)
  next
    case (Counted t b)
    then show ?thesis using st io_move.counted[OF Counted] by (simp add: io_worker_step_def io_counted_def)
  next
    case (ExecCas t b)
    show ?thesis
      using st ExecCas exec_task[OF K ExecCas] io_move.run[OF ExecCas _ refl] io_move.run_closed[OF ExecCas _ refl]
      by (auto simp: io_worker_step_def io_exec_cas_def Let_def split: if_splits)
  next
    case (Repost t b)
    let ?s1 = "io_set t ((io_tasks s t)\<lparr>it_queued := True\<rparr>) (s\<lparr>io_front := io_front s @ [t]\<rparr>)"
    obtain p where "io_next w b ?s1 = io_goto w p ?s1" "after_task p" using nx by blast
    then show ?thesis using st Repost running_task(1)[OF K, of w t b] io_move.repost[OF Repost]
      by (auto simp: io_worker_step_def io_repost_def Let_def split: if_splits)
  next
    case (RepostSignal b)
    let ?s1 = "s\<lparr>io_eventfd := True\<rparr>"
    obtain p where "io_next w b ?s1 = io_goto w p ?s1" "after_task p" using nx by blast
    then show ?thesis using st RepostSignal io_move.repost_signal[OF RepostSignal, of p]
      by (simp add: io_worker_step_def io_repost_signal_def)
  qed (use st in \<open>auto simp: io_worker_step_def io_send_ready_def io_counted_def io_wait_ready_def split: if_splits
        intro: io_move.intros\<close>)
qed

lemma io_move_epoll:
  assumes I: "io_inv s" and pc: "io_pc s w = Epoll" and st: "io_epoll w ts fd s = Some s'"
  shows "io_move w s s'"
proof -
  note H = io_invD[OF I]
  have "io_role s" using role_invD(2)[OF H(3), of w] pc by simp
  then have "\<forall>t \<in> set ts. \<exists>m. io_kernel s t = Some m \<and> m \<noteq> 0" and s': "s' = io_goto w PopFront
        (s\<lparr>io_evs := map (\<lambda>t. (t, the (io_kernel s t))) ts, io_kernel := (\<lambda>t. if t \<in> set ts then Some 0 else io_kernel s t),
           io_eventfd := (io_eventfd s \<and> \<not> fd), io_timestamp := io_now s, io_collected := []\<rparr>)"
    using st by (simp_all add: io_epoll_def list_all_iff split: if_split_asm)
  then show ?thesis using io_move.epoll[OF pc _ io_nothing_collected[OF H(3,6) pc]] by simp
qed

section \<open>One task changes\<close>

lemma core_upd:
  assumes K: "core s L C" and pc: "io_pc s' = (io_pc s)(w := p)" and call: "io_call s' = (io_call s)(w := c)"
    and d: "distinct (io_front s')" "distinct (io_pendq s')" "distinct (io_collected s')" "distinct (io_readyq s')"
    and q: "\<And>u. u \<noteq> t \<Longrightarrow> (u \<in> set (io_front s') \<longleftrightarrow> u \<in> set (io_front s)) \<and> (u \<in> set (io_pendq s') \<longleftrightarrow> u \<in> set (io_pendq s)) \<and>
      (u \<in> set (io_collected s') \<longleftrightarrow> u \<in> set (io_collected s)) \<and> (u \<in> set (io_readyq s') \<longleftrightarrow> u \<in> set (io_readyq s))"
    and data: "\<And>u. u \<noteq> t \<Longrightarrow> io_tasks s' u = io_tasks s u \<and> io_kernel s' u = io_kernel s u \<and> io_owed s' u = io_owed s u \<and>
      io_asked s' u = io_asked s u \<and> (u \<in> io_sleepers s' \<longleftrightarrow> u \<in> io_sleepers s)"
    and now: "io_now s' = io_now s"
    and p: "place_class p = place_class (io_pc s w) \<and> io_place_holds p = io_place_holds (io_pc s w) \<or>
      io_place_holds p \<in> {None, Some t} \<and> io_place_holds (io_pc s w) \<in> {None, Some t}"
    and c: "c = io_call s w \<or> io_call_holds c \<in> {None, Some t} \<and> io_call_holds (io_call s w) \<in> {None, Some t} \<and>
      call_closes c \<in> {None, Some t} \<and> call_closes (io_call s w) \<in> {None, Some t}"
    and t: "in_loc s' t l" "closer s' t k" "ok_at s' t (class_of s' l) (k \<noteq> None)"
  shows "core s' (L(t := l)) (C(t := k))"
  unfolding core_def
proof (intro conjI allI)
  fix u
  note J = coreD[OF K]
  show "in_loc s' u ((L(t := l)) u)"
  proof (cases "u = t")
    case False
    have "io_place_holds (io_pc s' v) = Some u \<longleftrightarrow> io_place_holds (io_pc s v) = Some u" for v using p False by (cases "v = w") (auto simp: pc)
    moreover have "io_call_holds (io_call s' v) = Some u \<longleftrightarrow> io_call_holds (io_call s v) = Some u" for v
      using c False by (cases "v = w") (auto simp: call)
    ultimately show ?thesis using J(5)[of u] q[OF False] False unfolding in_loc_def by simp
  qed (use t in simp)
  show "closer s' u ((C(t := k)) u)"
  proof (cases "u = t")
    case False
    have "call_closes (io_call s' v) = Some u \<longleftrightarrow> call_closes (io_call s v) = Some u" for v
      using c False by (cases "v = w") (auto simp: call)
    then show ?thesis using J(6)[of u] False unfolding closer_def by simp
  qed (use t in simp)
  show "ok_at s' u (class_of s' ((L(t := l)) u)) ((C(t := k)) u \<noteq> None)"
  proof (cases "u = t")
    case False
    have "class_of s' (L u) = class_of s (L u)"
    proof (cases "L u")
      case (AtPlace v)
      then have "io_place_holds (io_pc s v) = Some u" using in_locD(5)[OF J(5)[of u]] by blast
      with p False have "place_class (io_pc s' v) = place_class (io_pc s v)" by (cases "v = w") (auto simp: pc)
      then show ?thesis using AtPlace by simp
    next
      case (AtCall v)
      then have "io_call_holds (io_call s v) = Some u" using in_locD(6)[OF J(5)[of u]] by blast
      with c False have "io_call s' v = io_call s v" by (cases "v = w") (auto simp: call)
      then show ?thesis using AtCall by simp
    qed auto
    then show ?thesis using J(7)[of u] data[OF False] False now by simp
  qed (use t in simp)
qed (use d in auto)

text \<open>A step that changes no task: the queues stay as they are up to the order, and thread \<open>w\<close> keeps what it holds.\<close>

lemma core_same:
  assumes K: "core s L C" and pc: "\<And>v. place_class (io_pc s' v) = place_class (io_pc s v) \<and> io_place_holds (io_pc s' v) = io_place_holds (io_pc s v)"
    and call: "\<And>v. call_class (io_call s' v) = call_class (io_call s v) \<and> io_call_holds (io_call s' v) = io_call_holds (io_call s v) \<and>
      call_closes (io_call s' v) = call_closes (io_call s v)"
    and q: "mset (io_front s') = mset (io_front s)" "mset (io_pendq s') = mset (io_pendq s)"
      "mset (io_collected s') = mset (io_collected s)" "mset (io_readyq s') = mset (io_readyq s)"
    and data: "io_tasks s' = io_tasks s" "\<And>u. io_kernel s' u = None \<longleftrightarrow> io_kernel s u = None" "io_owed s' = io_owed s" "io_asked s' = io_asked s"
      "io_waiting s' = io_waiting s" "io_now s' = io_now s"
  shows "core s' L C"
proof -
  note e = q[THEN mset_eq_setD]
  have d: "distinct (io_front s') = distinct (io_front s)" "distinct (io_pendq s') = distinct (io_pendq s)"
    "distinct (io_collected s') = distinct (io_collected s)" "distinct (io_readyq s') = distinct (io_readyq s)"
    using q mset_eq_imp_distinct_iff by blast+
  have l: "in_loc s' t x = in_loc s t x" for t x unfolding in_loc_def e pc[THEN conjunct2] call[THEN conjunct2, THEN conjunct1] ..
  have c: "closer s' t x = closer s t x" for t x unfolding closer_def call[THEN conjunct2, THEN conjunct2] ..
  have cl: "class_of s' x = class_of s x" for x using pc call by (cases x) auto
  have ok: "ok_at s' t x g = ok_at s t x g" for t x g using data(2)[of t] unfolding task_ok_def data(1,3-6) by auto
  show ?thesis using K unfolding core_def d l c cl ok .
qed

lemmas io_defs = io_goto_def io_set_def io_collect_def io_at_call_def

lemma in_queue:
  assumes "core s L C"
  shows "t \<in> set (io_front s) \<Longrightarrow> L t = InFront \<and> ok_at s t CQueued (C t \<noteq> None)"
    "t \<in> set (io_pendq s) \<Longrightarrow> L t = InPending \<and> ok_at s t CQueued (C t \<noteq> None)"
    "t \<in> set (io_collected s) \<Longrightarrow> L t = InCollected \<and> ok_at s t CToRun (C t \<noteq> None)"
    "t \<in> set (io_readyq s) \<Longrightarrow> L t = InReady \<and> ok_at s t CToRun (C t \<noteq> None)"
  using coreD(5,7)[OF assms, of t] in_locD(1-4)[of s t "L t"] by auto

lemma waiting_at:
  assumes "core s L C" and "it_status (io_tasks s t) = IOTASK_WAITING"
  shows "L t = Asleep" "ok_at s t CSleep (C t \<noteq> None)"
proof -
  have c: "class_of s (L t) = CSleep" using task_okD(1)[OF coreD(7)[OF assms(1), of t]] class_status_waiting assms(2) by metis
  then show "ok_at s t CSleep (C t \<noteq> None)" using coreD(7)[OF assms(1), of t] by simp
  have "place_class p \<noteq> CSleep" for p :: "'a io_place" by (cases p) auto
  moreover have "call_class c \<noteq> CSleep" for c :: "'a io_in_call" by (cases c) auto
  ultimately show "L t = Asleep" using c by (cases "L t") auto
qed

lemma closer_same: "closer s t k \<Longrightarrow> io_call s' = io_call s \<Longrightarrow> closer s' t k"
  by (simp add: closer_def)

text \<open>The instance for a thread in its main loop that holds \<open>t\<close> or nothing before and after.\<close>

lemma core_upd_place:
  assumes K: "core s L C" and pc: "io_pc s' = (io_pc s)(w := p)" and call: "io_call s' = io_call s"
    and d: "distinct (io_front s')" "distinct (io_pendq s')" "distinct (io_collected s')" "distinct (io_readyq s')"
    and q: "\<And>u. u \<noteq> t \<Longrightarrow> (u \<in> set (io_front s') \<longleftrightarrow> u \<in> set (io_front s)) \<and> (u \<in> set (io_pendq s') \<longleftrightarrow> u \<in> set (io_pendq s)) \<and>
      (u \<in> set (io_collected s') \<longleftrightarrow> u \<in> set (io_collected s)) \<and> (u \<in> set (io_readyq s') \<longleftrightarrow> u \<in> set (io_readyq s))"
    and data: "\<And>u. u \<noteq> t \<Longrightarrow> io_tasks s' u = io_tasks s u \<and> io_kernel s' u = io_kernel s u \<and> io_owed s' u = io_owed s u \<and>
      io_asked s' u = io_asked s u \<and> (u \<in> io_sleepers s' \<longleftrightarrow> u \<in> io_sleepers s)"
    and now: "io_now s' = io_now s"
    and p: "io_place_holds p \<in> {None, Some t} \<and> io_place_holds (io_pc s w) \<in> {None, Some t}"
    and t: "in_loc s' t l" "ok_at s' t (class_of s' l) (C t \<noteq> None)"
  shows "\<exists>L C. core s' L C"
proof -
  have "core s' (L(t := l)) (C(t := C t))"
    by (rule core_upd[OF K pc _ d q data now, where c = "io_call s w"])
      (use call p t closer_same[OF coreD(6)[OF K, of t] call] in auto)
  then show ?thesis by blast
qed

lemma core_move:
  assumes K: "core s L C" and E: "event_inv s" and m: "io_move w s s'"
  shows "\<exists>L C. core s' L C"
proof -
  have tm: "d \<le> io_timestamp s \<Longrightarrow> d \<le> io_now s" for d using E by (auto simp: event_inv_def)
  from m show ?thesis
proof cases
  case (pop_front)
  let ?L = "\<lambda>t. if L t = InFront then InPending else L t"
  note J = coreD[OF K]
  have ph: "io_place_holds (io_pc s' v) = io_place_holds (io_pc s v)" for v using pop_front by (simp add: io_defs)
  have "core s' ?L C"
    unfolding core_def
  proof (intro conjI allI)
    fix t
    show "in_loc s' t (?L t)" using J(5)[of t] pop_front(1) unfolding in_loc_def ph by (auto simp: io_defs)
    show "closer s' t (C t)" using J(6)[of t] pop_front by (simp add: closer_def io_defs)
    have "class_of s' (?L t) = class_of s (L t)" using pop_front by (cases "L t") (auto simp: io_defs)
    then show "ok_at s' t (class_of s' (?L t)) (C t \<noteq> None)" using J(7)[of t] pop_front by (simp add: io_defs)
  qed (use J pop_front in_queue(1,2)[OF K] in \<open>fastforce simp: io_defs\<close>)+
  then show ?thesis by blast
next
  case (kernel_wake t e r q)
  note W = waiting_at[OF K kernel_wake(4)] and I = in_locD[OF coreD(5)[OF K, of t]]
  have e: "e \<noteq> 0" and k: "io_kernel s t \<noteq> None" using E kernel_wake(3) by (auto simp: event_inv_def)
  have n: "t \<notin> set (io_collected s)" using I(3) W(1) by simp
  have pc: "io_pc s' = (io_pc s)(w := io_pc s w)" using kernel_wake(1) by (simp add: io_defs)
  show ?thesis
  proof (rule core_upd_place[OF K pc, where t = t and l = InCollected])
    show "in_loc s' t InCollected" using I W(1) kernel_wake by (auto simp: in_loc_def io_defs)
    show "ok_at s' t (class_of s' InCollected) (C t \<noteq> None)"
      using task_wakes[OF W(2) e k, of "it_deadline (io_tasks s t) \<le> io_timestamp s"] tm[of "it_deadline (io_tasks s t)"] kernel_wake(1,5)
      by (simp add: io_defs)
  qed (use coreD[OF K] n kernel_wake in \<open>auto simp: io_defs\<close>)
next
  case (kernel_note t e r)
  have k: "io_kernel s t \<noteq> None" using E kernel_note(3) by (auto simp: event_inv_def)
  have pc: "io_pc s' = (io_pc s)(w := io_pc s w)" using kernel_note(1) by (simp add: io_defs)
  show ?thesis
  proof (rule core_upd_place[OF K pc, where t = t and l = "L t"])
    show "in_loc s' t (L t)" using coreD(5)[OF K, of t] kernel_note by (simp add: in_loc_def io_defs)
    have "class_of s' (L t) = class_of s (L t)" using kernel_note by (cases "L t") (auto simp: io_defs)
    moreover have "class_of s (L t) \<noteq> CSleep" using task_okD(1)[OF coreD(7)[OF K, of t]] kernel_note(4) by auto
    ultimately show "ok_at s' t (class_of s' (L t)) (C t \<noteq> None)"
      using task_noted[OF coreD(7)[OF K, of t] k, of e] kernel_note(1) by (simp add: io_defs)
  qed (use coreD[OF K] kernel_note in \<open>auto simp: io_defs\<close>)
next
  case (pend_out b t ps e q)
  have t: "t \<in> set (io_pendq s)" using pend_out by simp
  note W = in_queue(2)[OF K t] and I = in_locD[OF coreD(5)[OF K, of t]]
  have "t \<notin> set ps" "distinct ps" using coreD(2)[OF K] pend_out by auto
  then show ?thesis
  proof (intro core_upd_place[OF K, where w = w and p = "Pend (b + 1)" and t = t and l = InCollected])
    show "in_loc s' t InCollected" using I W pend_out \<open>t \<notin> set ps\<close> by (auto simp: in_loc_def io_defs)
    show "ok_at s' t (class_of s' InCollected) (C t \<noteq> None)"
      using task_goes[of _ _ _ _ _ _ _ e, OF conjunct2[OF W]] tm[of "it_deadline (io_tasks s t)"] pend_out(1,4-6) by (simp add: io_defs)
  qed (use coreD[OF K] I W pend_out in \<open>auto simp: io_defs\<close>)
next
  case (pend_closing b t ps e q)
  have t: "t \<in> set (io_pendq s)" using pend_closing by simp
  note W = in_queue(2)[OF K t] and I = in_locD[OF coreD(5)[OF K, of t]]
  have "t \<notin> set ps" "distinct ps" using coreD(2)[OF K] pend_closing by auto
  then show ?thesis
  proof (intro core_upd_place[OF K, where w = w and p = "PendClose t (b + 1) e" and t = t and l = "AtPlace w"])
    show "in_loc s' t (AtPlace w)" using I W pend_closing \<open>t \<notin> set ps\<close> by (auto simp: in_loc_def io_defs)
    show "ok_at s' t (class_of s' (AtPlace w)) (C t \<noteq> None)"
      using task_to_close[OF conjunct2[OF W], of e] tm[of "it_deadline (io_tasks s t)"] pend_closing(1,4-6) by (simp add: io_defs)
  qed (use coreD[OF K] I W pend_closing in \<open>auto simp: io_defs\<close>)
next
  case (pend_sleep b t ps q)
  have t: "t \<in> set (io_pendq s)" using pend_sleep by simp
  note W = in_queue(2)[OF K t] and I = in_locD[OF coreD(5)[OF K, of t]]
  have ns: "t \<notin> io_sleepers s" using task_okD(11)[OF conjunct2[OF W]] pend_sleep(4) by blast
  have "t \<notin> set ps" "distinct ps" using coreD(2)[OF K] pend_sleep by auto
  then show ?thesis
  proof (intro core_upd_place[OF K, where w = w and p = "Pend (b + 1)" and t = t and l = Asleep])
    show "in_loc s' t Asleep" using I W pend_sleep \<open>t \<notin> set ps\<close> by (auto simp: in_loc_def io_defs)
    show "ok_at s' t (class_of s' Asleep) (C t \<noteq> None)"
      using task_to_sleep[OF conjunct2[OF W] pend_sleep(4,5) refl] ns pend_sleep(1,6) by (simp add: io_defs split: if_splits)
  qed (use coreD[OF K] I W pend_sleep in \<open>auto simp: io_defs split: if_splits\<close>)
next
  case (close t b e)
  note W = holds_at[OF K, of w t, unfolded close, simplified] and I = in_locD[OF coreD(5)[OF K, of t]]
  show ?thesis
  proof (rule core_upd_place[OF K, where w = w and p = "PendClosed t b e" and t = t and l = "AtPlace w"])
    show "in_loc s' t (AtPlace w)" using I W(1) close by (auto simp: in_loc_def io_defs)
    show "ok_at s' t (class_of s' (AtPlace w)) (C t \<noteq> None)"
      using task_closes[OF W(2)] close(1) by (simp add: io_defs)
  qed (use coreD[OF K] close in \<open>auto simp: io_defs\<close>)
next
  case (closed t b e)
  note W = holds_at[OF K, of w t, unfolded closed, simplified] and I = in_locD[OF coreD(5)[OF K, of t]]
  show ?thesis
  proof (rule core_upd_place[OF K, where w = w and p = "Pend b" and t = t and l = InCollected])
    show "in_loc s' t InCollected" using I W(1) closed by (auto simp: in_loc_def io_defs)
    show "ok_at s' t (class_of s' InCollected) (C t \<noteq> None)"
      using task_is_closed[OF W(2)] closed(1) by (simp add: io_defs)
  qed (use coreD[OF K] I W(1) closed in \<open>auto simp: io_defs\<close>)
next
  case (wait_run b t q)
  note W = waiting_at[OF K wait_run(4)] and I = in_locD[OF coreD(5)[OF K, of t]]
  show ?thesis
  proof (rule core_upd_place[OF K, where w = w and p = "WaitTop (b + 1)" and t = t and l = InCollected])
    show "in_loc s' t InCollected" using I W(1) wait_run by (auto simp: in_loc_def io_defs)
    show "ok_at s' t (class_of s' InCollected) (C t \<noteq> None)"
      using task_expires[OF W(2)] tm[of "it_deadline (io_tasks s t)"] wait_run(1,3,5) by (simp add: io_defs)
  qed (use coreD[OF K] I W(1) wait_run in \<open>auto simp: io_defs\<close>)
next
  case (wait_skip b t q)
  show ?thesis
  proof (rule core_upd_place[OF K, where w = w and p = "WaitTop (b + 1)" and t = t and l = "L t"])
    have ph: "io_place_holds (io_pc s' v) = io_place_holds (io_pc s v)" for v using wait_skip by (simp add: io_defs)
    show "in_loc s' t (L t)" using coreD(5)[OF K, of t] wait_skip(1) unfolding in_loc_def ph by (simp add: io_defs)
    have "L t \<noteq> AtPlace w" using in_locD(5)[OF coreD(5)[OF K, of t], of w] wait_skip by simp
    then have "class_of s' (L t) = class_of s (L t)" using wait_skip by (cases "L t") (auto simp: io_defs)
    moreover have "class_of s (L t) \<noteq> CSleep" using task_okD(1)[OF coreD(7)[OF K, of t]] wait_skip(3) by auto
    ultimately show "ok_at s' t (class_of s' (L t)) (C t \<noteq> None)"
      using task_unwaits[OF coreD(7)[OF K, of t]] wait_skip(1,4) by (simp add: io_defs)
  qed (use coreD[OF K] wait_skip in \<open>auto simp: io_defs\<close>)
next
  case (flush t ts)
  have t: "t \<in> set (io_collected s)" using flush by simp
  note W = in_queue(3)[OF K t] and I = in_locD[OF coreD(5)[OF K, of t]]
  have n: "t \<notin> set ts" "distinct ts" using coreD(3)[OF K] flush by auto
  have pc: "io_pc s' = (io_pc s)(w := io_pc s w)" using flush(1) by simp
  show ?thesis
  proof (rule core_upd_place[OF K pc, where t = t and l = InReady])
    show "in_loc s' t InReady" using I W flush n by (auto simp: in_loc_def)
    show "ok_at s' t (class_of s' InReady) (C t \<noteq> None)" using W flush by simp
  qed (use coreD[OF K] I W flush n in auto)
next
  case (exec b t ts)
  have t: "t \<in> set (io_readyq s)" using exec by simp
  note W = in_queue(4)[OF K t] and I = in_locD[OF coreD(5)[OF K, of t]]
  have n: "t \<notin> set ts" "distinct ts" using coreD(4)[OF K] exec by auto
  show ?thesis
  proof (rule core_upd_place[OF K, where w = w and p = "Counted t b" and t = t and l = "AtPlace w"])
    show "in_loc s' t (AtPlace w)" using I W exec n by (auto simp: in_loc_def io_defs)
    show "ok_at s' t (class_of s' (AtPlace w)) (C t \<noteq> None)" using W exec by (simp add: io_defs)
  qed (use coreD[OF K] I W exec n in \<open>auto simp: io_defs\<close>)
next
  case (run t b x)
  note W = holds_at[OF K, of w t, unfolded run, simplified] and I = in_locD[OF coreD(5)[OF K, of t]]
  show ?thesis
  proof (rule core_upd_place[OF K, where w = w and p = "Callback t b (it_ready x)" and t = t and l = "AtPlace w"])
    show "in_loc s' t (AtPlace w)" using I W(1) run by (auto simp: in_loc_def io_defs)
    show "ok_at s' t (class_of s' (AtPlace w)) (C t \<noteq> None)"
      using task_runs[OF W(2)] run(3) unfolding run(1,4) by (simp add: io_defs split del: if_split)
  qed (use coreD[OF K] run in \<open>auto simp: io_defs\<close>)
next
  case (run_closed t b x)
  note W = holds_at[OF K, of w t, unfolded run_closed, simplified] and I = in_locD[OF coreD(5)[OF K, of t]]
  show ?thesis
  proof (rule core_upd_place[OF K, where w = w and p = "CloseCallback t b" and t = t and l = Free])
    show "in_loc s' t Free" using I W(1) run_closed by (auto simp: in_loc_def io_defs)
    show "ok_at s' t (class_of s' Free) (C t \<noteq> None)"
      using task_ends[OF W(2)] run_closed(3) unfolding run_closed(1,4) by (simp add: io_defs split del: if_split)
  qed (use coreD[OF K] run_closed in \<open>auto simp: io_defs\<close>)
next
  case (repost t b p)
  note W = holds_at[OF K, of w t, unfolded repost, simplified] and I = in_locD[OF coreD(5)[OF K, of t]]
  have p: "io_place_holds p = None" using repost by (auto simp: after_task_def)
  show ?thesis
  proof (rule core_upd_place[OF K, where w = w and p = p and t = t and l = InFront])
    show "in_loc s' t InFront" using I W(1) repost p by (auto simp: in_loc_def io_defs)
    show "ok_at s' t (class_of s' InFront) (C t \<noteq> None)"
      using task_returns[OF W(2)] repost(1) by (simp add: io_defs)
  qed (use coreD[OF K] I W(1) repost p in \<open>auto simp: io_defs\<close>)
qed (intro exI; rule core_same[OF K]; force simp: io_defs after_task_def)+
qed

section \<open>The other groups\<close>

lemma move_calls: "io_move w s s' \<Longrightarrow> io_call s' = io_call s"
  by (erule io_move.cases) (simp_all add: io_defs)

lemma io_move_other: "io_move w s s' \<Longrightarrow> v \<noteq> w \<Longrightarrow> io_pc s' v = io_pc s v"
  by (erule io_move.cases) (simp_all add: io_defs)

lemma io_move_now: "io_move w s s' \<Longrightarrow> io_now s' = io_now s"
  by (erule io_move.cases) (simp_all add: io_defs)

lemma move_workers: "io_move w s s' \<Longrightarrow> io_workers s' = io_workers s"
  by (erule io_move.cases) (simp_all add: io_defs)

lemma move_place:
  assumes "io_move w s s'"
  shows "\<not> io_client_place (io_pc s w)" "io_pc s w \<noteq> Outside" "io_pc s' w \<noteq> Outside" "io_pc s' w \<noteq> Aborted"
  using assms by (cases; auto simp: io_defs after_task_def)+

lemma io_place_move:
  assumes I: "io_place_inv s" and m: "io_move w s s'"
  shows "io_place_inv s'"
proof -
  note P = move_place[OF m]
  have "io_call s w = NoCall" using I P(1) by (auto simp: io_place_inv_def)
  then have c: "io_call s v \<noteq> NoCall \<longrightarrow> io_client_place (io_pc s' v)" for v
    using I io_move_other[OF m, of v] by (cases "v = w") (auto simp: io_place_inv_def)
  have "(v < io_workers s \<longleftrightarrow> io_pc s' v \<noteq> Outside) \<and> io_pc s' v \<noteq> Aborted" for v
    using I P io_move_other[OF m, of v] by (cases "v = w") (auto simp: io_place_inv_def)
  with I c show ?thesis unfolding io_place_inv_def move_calls[OF m] move_workers[OF m] by blast
qed

lemma move_role:
  assumes "io_move w s s'"
  shows "io_role_place (io_pc s' w) \<and> (io_role_place (io_pc s w) \<and> io_role s' = io_role s \<or> \<not> io_role s \<and> io_role s') \<or>
    \<not> io_role_place (io_pc s' w) \<and> (io_role_place (io_pc s w) \<and> \<not> io_role s' \<or> \<not> io_role_place (io_pc s w) \<and> io_role s' = io_role s)"
  using assms
proof cases
  case (poll_end d)
  then show ?thesis by (auto simp: io_defs)
next
  case (exec_none b p)
  then show ?thesis by (auto simp: io_defs after_task_def)
next
  case (repost t b p)
  then show ?thesis by (auto simp: io_defs after_task_def)
next
  case (repost_signal b p)
  then show ?thesis by (auto simp: io_defs after_task_def)
qed (simp_all add: io_defs)

lemma io_role_move:
  assumes I: "io_role_inv s" and m: "io_move w s s'"
  shows "io_role_inv s'"
proof -
  have o: "io_role_place (io_pc s' v) = io_role_place (io_pc s v)" if "v \<noteq> w" for v using io_move_other[OF m that] by simp
  have u: "v = x" if "io_role_place (io_pc s v)" "io_role_place (io_pc s x)" for v x using I that by (simp add: io_role_inv_def)
  have r: "io_role s \<longleftrightarrow> (\<exists>v. io_role_place (io_pc s v))" using I by (simp add: io_role_inv_def)
  from move_role[OF m] consider "io_role_place (io_pc s' w)" "io_role_place (io_pc s w) \<and> io_role s' = io_role s \<or> \<not> io_role s \<and> io_role s'"
    | "\<not> io_role_place (io_pc s' w)" "io_role_place (io_pc s w)" "\<not> io_role s'"
    | "\<not> io_role_place (io_pc s' w)" "\<not> io_role_place (io_pc s w)" "io_role s' = io_role s" by blast
  then show ?thesis
  proof cases
    case 1
    then have "\<not> io_role_place (io_pc s v)" if "v \<noteq> w" for v using u[of v w] r that by blast
    then have "io_role_place (io_pc s' v) \<longleftrightarrow> v = w" for v using 1(1) o[of v] by (cases "v = w") auto
    moreover have "io_role s'" using 1(2) r by blast
    ultimately show ?thesis by (simp add: io_role_inv_def)
  next
    case 2
    then have "\<not> io_role_place (io_pc s v)" if "v \<noteq> w" for v using u[of v w] that by blast
    then have "\<not> io_role_place (io_pc s' v)" for v using 2(1) o[of v] by (cases "v = w") auto
    then show ?thesis using 2(3) by (simp add: io_role_inv_def)
  next
    case 3
    then have "io_role_place (io_pc s' v) = io_role_place (io_pc s v)" for v using o[of v] by (cases "v = w") auto
    then show ?thesis using I 3(3) by (simp add: io_role_inv_def)
  qed
qed

lemma io_heap_move:
  assumes hp: "heap_ok (io_heap s) (io_waiting s)" and K: "core s L C" and m: "io_move w s s'"
  shows "heap_ok (io_heap s') (io_waiting s')"
proof -
  have same: "io_heap s' = io_heap s" if "\<And>t. it_deadline (io_tasks s' t) = it_deadline (io_tasks s t)"
    using that by (simp add: io_heap_def)
  from m show ?thesis
  proof cases
    case (run t b x)
    have "t \<notin> io_sleepers s" using task_okD(11)[OF holds_at(2)[OF K, of w t]] run(2) by auto
    then have "heap_ok (io_heap s') (io_waiting s)" by (intro io_heap_cong[OF hp]) (use run(1) in \<open>auto simp: io_defs\<close>)
    then show ?thesis using run(1) by (simp add: io_defs)
  next
    case (run_closed t b x)
    have "t \<notin> io_sleepers s" using task_okD(11)[OF holds_at(2)[OF K, of w t]] run_closed(2) by auto
    then have "heap_ok (io_heap s') (io_waiting s)" by (intro io_heap_cong[OF hp]) (use run_closed(1) in \<open>auto simp: io_defs\<close>)
    then show ?thesis using run_closed(1) by (simp add: io_defs)
  qed (subst same; use hp in \<open>simp add: io_defs\<close>)+
qed

lemma reports_role: "reports p \<Longrightarrow> io_role_place p"
  by (cases p) auto

lemma move_events:
  assumes "io_move w s s'"
  shows "io_pc s w = Epoll \<and> reports (io_pc s' w) \<and> (\<forall>t e. (t, e) \<in> set (io_evs s') \<longrightarrow> io_kernel s' t \<noteq> None \<and> e \<noteq> 0) \<or>
    (\<exists>t b e. io_pc s w = PendClose t b e) \<and> io_evs s' = io_evs s \<or>
    io_kernel s' = io_kernel s \<and> set (io_evs s') \<subseteq> set (io_evs s) \<and> (reports (io_pc s w) \<and> io_evs s' \<noteq> [] \<longrightarrow> reports (io_pc s' w))"
  using assms by cases (auto simp: io_defs after_task_def)

lemma event_move:
  assumes I: "event_inv s" and R: "io_role_inv s" and m: "io_move w s s'"
  shows "event_inv s'"
proof -
  have t: "io_timestamp s' \<le> io_now s'" using m I by cases (auto simp: io_defs event_inv_def)
  have ev: "\<exists>v. reports (io_pc s v)" if "io_evs s \<noteq> []" using I that by (simp add: event_inv_def)
  have e: "io_kernel s t \<noteq> None \<and> e \<noteq> 0" if "(t, e) \<in> set (io_evs s)" for t e using I that by (auto simp: event_inv_def)
  from move_events[OF m] consider "reports (io_pc s' w)" "\<forall>t e. (t, e) \<in> set (io_evs s') \<longrightarrow> io_kernel s' t \<noteq> None \<and> e \<noteq> 0"
    | t b e where "io_pc s w = PendClose t b e" "io_evs s' = io_evs s"
    | "io_kernel s' = io_kernel s" "set (io_evs s') \<subseteq> set (io_evs s)" "reports (io_pc s w) \<and> io_evs s' \<noteq> [] \<longrightarrow> reports (io_pc s' w)"
    by blast
  then show ?thesis
  proof cases
    case 1
    then show ?thesis using t unfolding event_inv_def by blast
  next
    case (2 u b e)
    have "io_evs s = []"
    proof (rule ccontr)
      assume "io_evs s \<noteq> []"
      then obtain v where "reports (io_pc s v)" using ev by blast
      then show False using role_invD(1)[OF R reports_role, of v w] 2(1) by auto
    qed
    then show ?thesis using 2(2) t by (simp add: event_inv_def)
  next
    case 3
    have "\<exists>v. reports (io_pc s' v)" if n: "io_evs s' \<noteq> []"
    proof -
      have "io_evs s \<noteq> []" using 3(2) n by auto
      then obtain v where "reports (io_pc s v)" using ev by blast
      then have "reports (io_pc s' v)" using 3(3) n io_move_other[OF m, of v] by (cases "v = w") auto
      then show ?thesis by blast
    qed
    then show ?thesis using 3(1,2) e t unfolding event_inv_def by auto
  qed
qed

section \<open>Signals and counters\<close>

lemma io_signal_invD:
  assumes "io_signal_inv s"
  shows "\<not> io_role s \<Longrightarrow> io_rsig s \<or> (\<exists>w. elects (io_pc s w))"
    "io_front_seen (io_pc s w) \<Longrightarrow> io_front s \<noteq> [] \<Longrightarrow>
       io_eventfd s \<or> (\<exists>v. io_call s v = SendEvent) \<or> (\<exists>v b. io_pc s v = RepostSignal b)"
    "io_collected s \<noteq> [] \<Longrightarrow> \<exists>w. io_collecting (io_pc s w)"
    "io_sleeping (io_pc s w) \<Longrightarrow> io_pendq s = [] \<and> io_readyq s = []"
    "io_pc s w = PollForever \<Longrightarrow> io_sleepers s = {}"
    "io_pc s w = PollFor d \<Longrightarrow> t \<in> io_sleepers s \<Longrightarrow> d \<le> it_deadline (io_tasks s t)"
    "io_ready_count s = length (io_readyq s) + (\<Sum>w<io_workers s. io_taken_by s w)"
  using assms unfolding io_signal_inv_def by blast+

lemma io_front_seen_role: "io_front_seen p \<Longrightarrow> io_role_place p"
  by (cases p) auto

lemma io_sleeping_role: "io_sleeping p \<Longrightarrow> io_role_place p"
  by (cases p) auto

lemma move_count:
  assumes "io_move w s s'"
  shows "io_ready_count s' + length (io_readyq s) + io_taken_by s w = io_ready_count s + length (io_readyq s') + io_taken_by s' w \<or>
      io_ready_count s = 0 \<and> io_taken_by s w = 1"
  using assms
proof cases
  case (poll_end d)
  then show ?thesis by (auto simp: io_taken_by_def io_defs)
next
  case (exec_none b p)
  then show ?thesis by (auto simp: io_taken_by_def io_defs after_task_def)
next
  case (repost t b p)
  then show ?thesis by (auto simp: io_taken_by_def io_defs after_task_def)
next
  case (repost_signal b p)
  then show ?thesis by (auto simp: io_taken_by_def io_defs after_task_def)
qed (simp_all add: io_taken_by_def io_defs, (auto)?)

lemma io_count_move:
  assumes I: "io_signal_inv s" and P: "io_place_inv s" and m: "io_move w s s'"
  shows "io_ready_count s' = length (io_readyq s') + (\<Sum>w<io_workers s'. io_taken_by s' w)"
proof -
  have w: "w < io_workers s" using P move_place(2)[OF m] by (simp add: io_place_inv_def)
  have o: "io_taken_by s' v = io_taken_by s v" if "v \<noteq> w" for v using io_move_other[OF m that] by (simp add: io_taken_by_def)
  have "io_taken_by s w \<le> (\<Sum>w<io_workers s. io_taken_by s w)" using w by (intro member_le_sum) auto
  with move_count[OF m] sum_change[of w "io_taken_by s'" "io_taken_by s", OF o w] io_signal_invD(7)[OF I]
  show ?thesis unfolding move_workers[OF m] by linarith
qed

lemma io_move_quiet:
  assumes "io_move w s s'" and "\<not> io_role_place (io_pc s w)" and "\<not> io_role_place (io_pc s' w)"
  shows "io_pendq s' = io_pendq s" "io_waiting s' = io_waiting s" "io_collected s' = io_collected s"
    "set (io_readyq s') \<subseteq> set (io_readyq s)" "io_role s' = io_role s"
  using assms by (cases; (simp add: io_defs; fail | auto simp: io_defs; fail))+

lemma io_move_deadline:
  assumes "io_move w s s'" and "it_deadline (io_tasks s' t) \<noteq> it_deadline (io_tasks s t)"
  shows "\<exists>b. io_pc s w = ExecCas t b"
  using assms by cases (auto simp: io_defs split: if_splits)

lemma move_front:
  assumes "io_move w s s'" and "io_front s' \<noteq> []"
  shows "(\<exists>b. io_pc s' w = RepostSignal b) \<or> io_eventfd s' \<or> io_role_place (io_pc s w) \<and> io_front s' = io_front s \<or>
    io_front s \<noteq> [] \<and> io_eventfd s' = io_eventfd s \<and> (\<forall>b. io_pc s w \<noteq> RepostSignal b)"
  using assms by (cases; simp add: io_defs; (auto; fail)?)

lemma move_elects:
  assumes "io_move w s s'" and "\<not> io_role s'"
  shows "io_rsig s' \<or> elects (io_pc s' w) \<or> \<not> io_role s \<and> io_rsig s' = io_rsig s \<and> \<not> elects (io_pc s w)"
  using assms by (cases; simp add: io_defs; (auto; fail)?)

lemma move_collected:
  assumes "io_move w s s'"
  shows "io_collecting (io_pc s' w) \<or> io_collected s' = io_collected s \<and> (io_collecting (io_pc s w) \<longrightarrow> io_collected s = [])"
  using assms by (cases; simp add: io_defs; (auto; fail)?)


lemma io_signal_move:
  assumes I: "io_signal_inv s" and R: "io_role_inv s" and K: "core s L C" and m: "io_move w s s'" and P: "io_place_inv s"
  shows "io_signal_inv s'"
  unfolding io_signal_inv_def
proof (intro conjI allI impI)
  note S = io_signal_invD[OF I]
  have R': "io_role_inv s'" by (rule io_role_move[OF R m])
  have quiet: "\<not> io_role_place (io_pc s w)" "\<not> io_role_place (io_pc s' w)" if "io_role_place (io_pc s' v)" "v \<noteq> w" for v
    using role_invD(1)[OF R' that(1), of w] role_invD(1)[OF R, of v w] that io_move_other[OF m that(2)] by auto
  show "io_rsig s' \<or> (\<exists>w. elects (io_pc s' w))" if r: "\<not> io_role s'"
    using move_elects[OF m r]
  proof (elim disjE)
    assume a: "\<not> io_role s \<and> io_rsig s' = io_rsig s \<and> \<not> elects (io_pc s w)"
    with S(1) consider "io_rsig s'" | v where "elects (io_pc s v)" by auto
    then show ?thesis
    proof cases
      case (2 v)
      then have "elects (io_pc s' v)" using a io_move_other[OF m, of v] by (cases "v = w") auto
      then show ?thesis by blast
    qed blast
  qed blast+
  fix v
  show "io_eventfd s' \<or> (\<exists>v. io_call s' v = SendEvent \<or> (\<exists>b. io_pc s' v = RepostSignal b))"
    if f: "io_front_seen (io_pc s' v) \<and> io_front s' \<noteq> []"
  proof -
    have old: ?thesis if a: "io_front_seen (io_pc s x)" "io_front s \<noteq> []" "io_eventfd s' = io_eventfd s" "\<forall>b. io_pc s w \<noteq> RepostSignal b" for x
    proof -
      from S(2)[OF a(1,2)] a(3) consider "io_eventfd s'" | y where "io_call s y = SendEvent" | y b where "io_pc s y = RepostSignal b" by auto
      then show ?thesis
      proof cases
        case (3 y b)
        then have "io_pc s' y = RepostSignal b" using a(4) io_move_other[OF m, of y] by (cases "y = w") auto
        then show ?thesis by blast
      qed (use move_calls[OF m] in auto)
    qed
    show ?thesis
    proof (cases "v = w")
      case True
      have "(\<exists>b. io_pc s' w = RepostSignal b) \<or> io_eventfd s' \<or>
          io_front_seen (io_pc s w) \<and> io_front s \<noteq> [] \<and> io_eventfd s' = io_eventfd s \<and> (\<forall>b. io_pc s w \<noteq> RepostSignal b)"
        using m f unfolding True by (cases; simp add: io_defs; (auto simp: after_task_def; fail)?)
      then show ?thesis using old[of w] by blast
    next
      case False
      have r: "io_role_place (io_pc s' v)" using io_front_seen_role f by blast
      have "io_front_seen (io_pc s v)" using f io_move_other[OF m False] by simp
      then show ?thesis using move_front[OF m] f quiet[OF r False] old[of v] by blast
    qed
  qed
  show "\<exists>w. io_collecting (io_pc s' w)" if c: "io_collected s' \<noteq> []"
    using move_collected[OF m]
  proof
    assume a: "io_collected s' = io_collected s \<and> (io_collecting (io_pc s w) \<longrightarrow> io_collected s = [])"
    then obtain x where "io_collecting (io_pc s x)" using S(3) c by auto
    then have "io_collecting (io_pc s' x)" using a c io_move_other[OF m, of x] by (cases "x = w") auto
    then show ?thesis by blast
  qed blast
  have sl: "io_pendq s' = [] \<and> io_readyq s' = []" if f: "io_sleeping (io_pc s' v)"
  proof (cases "v = w")
    case True
    have "io_sleeping (io_pc s w) \<and> io_pendq s' = io_pendq s \<and> io_readyq s' = io_readyq s \<or> io_pendq s' = [] \<and> io_readyq s' = io_readyq s \<and> io_ready_count s = 0"
      using m f unfolding True by (cases; simp add: io_defs; (auto simp: after_task_def; fail)?)
    then show ?thesis using S(4)[of w] S(7) by auto
  next
    case False
    note r = quiet[OF io_sleeping_role[OF f] False]
    show ?thesis using S(4)[of v] f io_move_other[OF m False] io_move_quiet(1,4)[OF m r] by auto
  qed
  then show "io_sleeping (io_pc s' v) \<Longrightarrow> io_pendq s' = []" "io_sleeping (io_pc s' v) \<Longrightarrow> io_readyq s' = []" by blast+
  show "io_sleepers s' = {}" if f: "io_pc s' v = PollForever"
  proof (cases "v = w")
    case True
    from m f show ?thesis unfolding True by (cases; simp add: io_defs; (auto simp: after_task_def; fail)?)
  next
    case False
    have "io_sleeping (io_pc s' v)" using f by simp
    note r = quiet[OF io_sleeping_role[OF this] False]
    show ?thesis using S(5)[of v] f io_move_other[OF m False] io_move_quiet(2)[OF m r] by simp
  qed
  fix d
  show "\<forall>t \<in> io_sleepers s'. d \<le> it_deadline (io_tasks s' t)" if f: "io_pc s' v = PollFor d"
  proof (cases "v = w")
    case True
    from m f show ?thesis unfolding True by (cases; simp add: io_defs; (auto simp: after_task_def; fail)?)
  next
    case False
    have "io_sleeping (io_pc s' v)" using f by simp
    note r = quiet[OF io_sleeping_role[OF this] False]
    have "it_deadline (io_tasks s' t) = it_deadline (io_tasks s t)" if "t \<in> io_sleepers s" for t
    proof (rule ccontr)
      assume "it_deadline (io_tasks s' t) \<noteq> it_deadline (io_tasks s t)"
      then obtain b where "io_pc s w = ExecCas t b" using io_move_deadline[OF m] by blast
      then show False using task_okD(11)[OF holds_at(2)[OF K, of w t] that] by simp
    qed
    then show ?thesis using S(6)[of v d] f io_move_other[OF m False] io_move_quiet(2)[OF m r] by simp
  qed
qed (rule io_count_move[OF I P m])

lemma io_inv_move:
  assumes I: "io_inv s" and m: "io_move w s s'"
  shows "io_inv s'"
proof -
  note H = io_invD[OF I]
  obtain L C where K: "core s L C" using H(1) by blast
  show ?thesis unfolding io_inv_def
    using core_move[OF K H(5) m] io_heap_move[OF H(2) K m] io_role_move[OF H(3) m] io_place_move[OF H(4) m]
      event_move[OF H(5,3) m] io_signal_move[OF H(6,3) K m H(4)] by blast
qed

end
