(* ===== verification/IO_Calls.thy ===== *)
theory IO_Calls
  imports IO_Moves
begin

text \<open>
  The calls of the clients, the actions of \<^verbatim>\<open>OnEvent\<close>, the kernel and the clock keep the invariant of the IO core; with the
  initial state this makes it an invariant of all reachable states.
\<close>

section \<open>Transitions of a task\<close>

lemma task_registers:
  assumes "task_ok CNew g x k ow a h now"
  shows "task_ok CPost g x (if it_sock x then Some 0 else k) ow a h now"
  by (intro task_okI) (use task_okD[OF assms] in auto)

lemma task_posted:
  assumes "task_ok CPost g x k ow a h now"
  shows "task_ok CQueued g (x\<lparr>it_queued := True\<rparr>) k ow a h now"
  by (intro task_okI) (use task_okD[OF assms] in auto)

lemma task_woken:
  assumes "task_ok CSleep g x k ow a h now"
  shows "task_ok CQueued g (x\<lparr>it_status := IOTASK_READY\<rparr>) k ow True h now"
  by (intro task_okI) (use task_okD[OF assms] in auto)

lemma task_stirred:
  assumes "task_ok c g x k ow a h now" and "it_status x = IOTASK_PENDING"
  shows "task_ok c g (x\<lparr>it_status := IOTASK_READY\<rparr>) k ow True h now"
  by (intro task_okI; cases c) (use task_okD[OF assms(1)] assms(2) in auto)

lemma task_guarded:
  assumes "task_ok c g x k ow a h now" and "\<not> it_guard x"
  shows "task_ok c True (x\<lparr>it_guard := True\<rparr>) k ow a h now"
  by (intro task_okI) (use task_okD[OF assms(1)] assms(2) in auto)

lemma task_closing_asleep:
  assumes "task_ok CSleep True x k ow a h now"
  shows "task_ok CQueued False (x\<lparr>it_status := IOTASK_CLOSING\<rparr>) k ow True h now"
  by (intro task_okI) (use task_okD[OF assms(1)] in auto)

lemma task_closing_awake:
  assumes "task_ok c True x k ow a h now" and "it_status x \<noteq> IOTASK_WAITING"
  shows "task_ok c False (x\<lparr>it_status := IOTASK_CLOSING\<rparr>) k ow True h now"
  by (intro task_okI; cases c) (use task_okD[OF assms(1)] assms(2) in auto)

lemma task_attached:
  assumes "task_ok CFree g x k ow a h now" and "it_status x \<noteq> IOTASK_CLOSED"
  shows "task_ok CNew g (x\<lparr>it_sub := True, it_sock := sock\<rparr>) k ow a h now"
  by (cases "it_status x"; intro task_okI) (use task_okD[OF assms(1)] assms(2) in auto)

lemma task_attached_again:
  assumes "task_ok CFree g x k ow a h now" and "it_status x = IOTASK_CLOSED"
  shows "task_ok CNew g (x\<lparr>it_sub := True, it_sock := sock, it_status := IOTASK_PENDING, it_closed := False, it_guard := False\<rparr>) k ow a h now"
  by (intro task_okI) (use task_okD[OF assms(1)] assms(2) in auto)

lemma task_deadline:
  assumes "task_ok c g x k ow a h now" and "c = CFree \<or> c = CRun"
  shows "task_ok c g (x\<lparr>it_deadline := d\<rparr>) k ow a h now"
  by (intro task_okI) (use task_okD[OF assms(1)] assms(2) in auto)

lemma task_saves:
  assumes "task_ok CRun g x k ow a h now" and "it_sock x"
  shows "task_ok CRun g (x\<lparr>it_ready := r\<rparr>) k ow a h now"
  by (intro task_okI) (use task_okD[OF assms(1)] assms(2) in auto)

lemma task_gets_socket:
  assumes "task_ok CRun g x k ow a h now" and "\<not> it_sock x"
  shows "task_ok CRun g (x\<lparr>it_sock := True\<rparr>) (Some 0) ow a h now" "it_ready x = 0" "it_pending x = 0" "k = None" "\<not> it_closed x"
proof -
  note D = task_okD[OF assms(1)]
  show "it_ready x = 0" "it_pending x = 0" "k = None" "\<not> it_closed x" using D(1,3,6,8) assms(2) by auto
  then show "task_ok CRun g (x\<lparr>it_sock := True\<rparr>) (Some 0) ow a h now" by (intro task_okI) (use D in auto)
qed

lemma task_later:
  assumes "task_ok c g x k ow a h now" and "now \<le> now'"
  shows "task_ok c g x k ow a h now'"
  by (intro task_okI) (use task_okD[OF assms(1)] assms(2) in auto)

section \<open>Frames\<close>

lemma signal_call:
  assumes I: "io_signal_inv s" and pc: "io_pc s' = io_pc s" and call: "io_call s' = (io_call s)(w := c)"
    and same: "io_role s' = io_role s" "io_rsig s' = io_rsig s" "io_collected s' = io_collected s" "io_pendq s' = io_pendq s"
      "io_readyq s' = io_readyq s" "io_ready_count s' = io_ready_count s" "io_workers s' = io_workers s" "io_waiting s' = io_waiting s"
    and d: "\<And>t. t \<in> io_sleepers s \<Longrightarrow> it_deadline (io_tasks s' t) = it_deadline (io_tasks s t)"
    and f: "io_front s' \<noteq> [] \<Longrightarrow> c = SendEvent \<or> io_eventfd s' \<or> io_front s \<noteq> [] \<and> io_eventfd s' = io_eventfd s \<and> io_call s w \<noteq> SendEvent"
  shows "io_signal_inv s'"
proof -
  have sl: "\<forall>t \<in> io_sleepers s. d \<le> it_deadline (io_tasks s' t)" if "io_pc s v = PollFor d" for v d
    using io_signal_invD(6)[OF I that] assms(12) by simp
  have fr: "io_eventfd s' \<or> (\<exists>v. io_call s' v = SendEvent \<or> (\<exists>b. io_pc s v = RepostSignal b))"
    if a: "io_front_seen (io_pc s v)" "io_front s' \<noteq> []" for v
  proof -
    from f[OF a(2)] consider "c = SendEvent" | "io_eventfd s'" | "io_front s \<noteq> []" "io_eventfd s' = io_eventfd s" "io_call s w \<noteq> SendEvent" by blast
    then show ?thesis
    proof cases
      case 1
      then have "io_call s' w = SendEvent" by (simp add: call)
      then show ?thesis by blast
    next
      case 3
      from io_signal_invD(2)[OF I a(1) 3(1)] consider "io_eventfd s" | x where "io_call s x = SendEvent" | x b where "io_pc s x = RepostSignal b" by blast
      then show ?thesis
      proof cases
        case (2 x)
        with 3(3) have "io_call s' x = SendEvent" by (auto simp: call)
        then show ?thesis by blast
      qed (use 3(2) in auto)
    qed blast
  qed
  have t: "io_taken_by s' = io_taken_by s" by (simp add: io_taken_by_def pc fun_eq_iff)
  show ?thesis using I fr sl unfolding io_signal_inv_def pc same t by blast
qed

lemma io_inv_call:
  assumes I: "io_inv s" and K: "\<exists>L C. core s' L C" and cl: "io_client_place (io_pc s w) \<or> c = io_call s w" and pc: "io_pc s' = io_pc s"
    and call: "io_call s' = (io_call s)(w := c)" "c \<noteq> AbortedCall" "\<And>t old. c = WakeCas t old \<Longrightarrow> old = IOTASK_PENDING \<or> old = IOTASK_WAITING"
    and same: "io_role s' = io_role s" "io_rsig s' = io_rsig s" "io_collected s' = io_collected s" "io_pendq s' = io_pendq s"
      "io_readyq s' = io_readyq s" "io_ready_count s' = io_ready_count s" "io_workers s' = io_workers s" "io_waiting s' = io_waiting s"
      "io_evs s' = io_evs s" "io_timestamp s' = io_timestamp s" "io_now s \<le> io_now s'"
    and d: "\<And>t. t \<in> io_sleepers s \<Longrightarrow> it_deadline (io_tasks s' t) = it_deadline (io_tasks s t)"
    and k: "\<And>t. io_kernel s t \<noteq> None \<Longrightarrow> io_kernel s' t \<noteq> None"
    and f: "io_front s' \<noteq> [] \<Longrightarrow> c = SendEvent \<or> io_eventfd s' \<or> io_front s \<noteq> [] \<and> io_eventfd s' = io_eventfd s \<and> io_call s w \<noteq> SendEvent"
  shows "io_inv s'"
  unfolding io_inv_def
proof (intro conjI)
  note H = io_invD[OF I]
  show "heap_ok (io_heap s') (io_waiting s')" unfolding same(8) by (rule io_heap_cong[OF H(2)]) (rule d)
  show "io_role_inv s'" using H(3) by (simp add: io_role_inv_def pc same)
  show "io_place_inv s'" using H(4) cl call unfolding io_place_inv_def pc same by auto
  show "event_inv s'" using H(5) k same(11) unfolding event_inv_def pc same(9,10) by (blast intro: order_trans)
  show "io_signal_inv s'" by (rule signal_call[OF H(6) pc call(1) same(1-8) d f])
qed (rule K)

text \<open>The instance of \<open>core_upd\<close> for a thread inside a call.\<close>

lemma core_upd_call:
  assumes K: "core s L C" and pc: "io_pc s' = io_pc s" and call: "io_call s' = (io_call s)(w := c)"
    and d: "distinct (io_front s')" "io_pendq s' = io_pendq s" "io_collected s' = io_collected s" "io_readyq s' = io_readyq s"
    and q: "\<And>u. u \<noteq> t \<Longrightarrow> u \<in> set (io_front s') \<longleftrightarrow> u \<in> set (io_front s)"
    and data: "\<And>u. u \<noteq> t \<Longrightarrow> io_tasks s' u = io_tasks s u \<and> io_kernel s' u = io_kernel s u \<and> io_owed s' u = io_owed s u \<and>
      io_asked s' u = io_asked s u" "io_waiting s' = io_waiting s"
    and now: "io_now s' = io_now s"
    and c: "c = io_call s w \<or> io_call_holds c \<in> {None, Some t} \<and> io_call_holds (io_call s w) \<in> {None, Some t} \<and>
      call_closes c \<in> {None, Some t} \<and> call_closes (io_call s w) \<in> {None, Some t}"
    and t: "in_loc s' t l" "closer s' t k" "ok_at s' t (class_of s' l) (k \<noteq> None)"
  shows "\<exists>L C. core s' L C"
proof -
  have "core s' (L(t := l)) (C(t := k))"
    by (rule core_upd[OF K _ call, where p = "io_pc s w"]) (use pc d q data now c t coreD(2-4)[OF K] in auto)
  then show ?thesis by blast
qed

lemma in_call:
  assumes "core s L C" and "io_call_holds (io_call s w) = Some t"
  shows "L t = AtCall w" "ok_at s t (call_class (io_call s w)) (C t \<noteq> None)"
proof -
  show "L t = AtCall w" using coreD(5)[OF assms(1), of t] assms(2) in_locD(6)[of s t "L t" w] by simp
  then show "ok_at s t (call_class (io_call s w)) (C t \<noteq> None)" using coreD(7)[OF assms(1), of t] by simp
qed

lemma closerD: "closer s t c \<Longrightarrow> call_closes (io_call s w) = Some t \<longleftrightarrow> c = Some w"
  by (simp add: closer_def)

lemma closer_call:
  assumes "closer s t k" and "io_call s' = (io_call s)(w := c)" and "call_closes c = call_closes (io_call s w)"
  shows "closer s' t k"
  using assms by (auto simp: closer_def)

section \<open>Steps of the calls\<close>

lemma in_loc_frame:
  assumes "io_front s' = io_front s" "io_pendq s' = io_pendq s" "io_collected s' = io_collected s" "io_readyq s' = io_readyq s"
    and "\<And>v. io_place_holds (io_pc s' v) = io_place_holds (io_pc s v)" "\<And>v. io_call_holds (io_call s' v) = io_call_holds (io_call s v)"
  shows "in_loc s' t l = in_loc s t l"
  unfolding in_loc_def assms ..

lemma io_inv_step_call:
  assumes I: "io_inv s" and st: "io_call_step w s = Some s'"
  shows "io_inv s'"
proof -
  note H = io_invD[OF I]
  obtain L C where K: "core s L C" using H(1) by blast
  have "io_call s w \<noteq> NoCall" using st by (auto simp: io_call_step_def)
  then have cl: "io_client_place (io_pc s w)" using H(4) by (simp add: io_place_inv_def)
  note front = coreD(1)[OF K]
  show ?thesis
  proof (cases "io_call s w")
    case (Register t)
    note W = in_call[OF K, of w t, unfolded Register, simplified] and N = in_locD[OF coreD(5)[OF K, of t]]
    note R = task_okD(6,7,8)[OF W(2)]
    let ?x = "io_tasks s t"
    have s': "s' = io_at_call w (PostPush t) (s\<lparr>io_kernel := (io_kernel s)(t := if it_sock ?x then Some 0 else io_kernel s t), io_desc := io_desc s + 1\<rparr>)"
      using st Register R by (cases s) (auto simp: io_call_step_def io_register_def io_kernel_register_def io_at_call_def fun_upd_idem)
    have "\<exists>L C. core s' L C"
    proof (rule core_upd_call[OF K, where w = w and t = t and l = "AtCall w" and k = "C t" and c = "PostPush t"])
      show "in_loc s' t (AtCall w)" using N W(1) by (auto simp: in_loc_def s' io_defs)
      show "closer s' t (C t)" by (rule closer_call[OF coreD(6)[OF K, of t], of s' w]) (use Register in \<open>auto simp: s' io_defs\<close>)
      show "ok_at s' t (class_of s' (AtCall w)) (C t \<noteq> None)" using task_registers[OF W(2)] by (simp add: s' io_defs)
    qed (use Register front in \<open>auto simp: s' io_defs\<close>)
    then show ?thesis
      by (rule io_inv_call[OF I _ disjI1[OF cl], where c = "PostPush t"]) (use Register in \<open>auto simp: s' io_defs\<close>)
  next
    case (PostPush t)
    note W = in_call[OF K, of w t, unfolded PostPush, simplified] and N = in_locD[OF coreD(5)[OF K, of t]]
    let ?x = "io_tasks s t"
    define c :: "'a io_in_call" where "c = (if io_front s = [] then SendEvent else NoCall)"
    have "\<not> it_queued ?x" using task_okD(5)[OF W(2)] by simp
    then have s': "s' = io_at_call w c (io_set t (?x\<lparr>it_queued := True\<rparr>) (s\<lparr>io_front := io_front s @ [t]\<rparr>))"
      using st PostPush by (simp add: io_call_step_def io_post_push_def Let_def c_def)
    have "\<exists>L C. core s' L C"
    proof (rule core_upd_call[OF K, where w = w and t = t and l = InFront and k = "C t" and c = c])
      show "in_loc s' t InFront" using N W(1) by (auto simp: in_loc_def s' io_defs c_def)
      show "closer s' t (C t)" by (rule closer_call[OF coreD(6)[OF K, of t], of s' w]) (use PostPush in \<open>auto simp: s' io_defs c_def\<close>)
      show "ok_at s' t (class_of s' InFront) (C t \<noteq> None)" using task_posted[OF W(2)] by (simp add: s' io_defs)
    qed (use PostPush front N W(1) in \<open>auto simp: s' io_defs c_def\<close>)
    then show ?thesis
      by (rule io_inv_call[OF I _ disjI1[OF cl], where c = c]) (use PostPush in \<open>auto simp: s' io_defs c_def split: if_splits\<close>)
  next
    case (PushFront t)
    note W = in_call[OF K, of w t, unfolded PushFront, simplified] and N = in_locD[OF coreD(5)[OF K, of t]]
    define c :: "'a io_in_call" where "c = (if io_front s = [] then SendEvent else NoCall)"
    have "it_queued (io_tasks s t)" using task_okD(5)[OF W(2)] by simp
    then have s': "s' = io_at_call w c (s\<lparr>io_front := io_front s @ [t]\<rparr>)"
      using st PushFront by (simp add: io_call_step_def io_push_front_def c_def)
    have "\<exists>L C. core s' L C"
    proof (rule core_upd_call[OF K, where w = w and t = t and l = InFront and k = "C t" and c = c])
      show "in_loc s' t InFront" using N W(1) by (auto simp: in_loc_def s' io_defs c_def)
      show "closer s' t (C t)" by (rule closer_call[OF coreD(6)[OF K, of t], of s' w]) (use PushFront in \<open>auto simp: s' io_defs c_def\<close>)
      show "ok_at s' t (class_of s' InFront) (C t \<noteq> None)" using W(2) by (simp add: s' io_defs)
    qed (use PushFront front N W(1) in \<open>auto simp: s' io_defs c_def\<close>)
    then show ?thesis
      by (rule io_inv_call[OF I _ disjI1[OF cl], where c = c]) (use PushFront in \<open>auto simp: s' io_defs c_def split: if_splits\<close>)
  next
    case SendEvent
    have s': "s' = io_at_call w NoCall (s\<lparr>io_eventfd := True\<rparr>)" using st SendEvent by (simp add: io_call_step_def io_send_event_def)
    have "core s' L C" by (rule core_same[OF K]) (use SendEvent in \<open>auto simp: s' io_defs\<close>)
    then have "\<exists>L C. core s' L C" by blast
    then show ?thesis by (rule io_inv_call[OF I _ disjI1[OF cl], where c = NoCall]) (use SendEvent in \<open>auto simp: s' io_defs\<close>)
  next
    case (WakeCas t old)
    let ?x = "io_tasks s t"
    have old: "old = IOTASK_PENDING \<or> old = IOTASK_WAITING" using H(4) WakeCas by (simp add: io_place_inv_def)
    show ?thesis
    proof (cases "it_status ?x = old")
      case False
      define c :: "'a io_in_call" where
        "c = (if it_status ?x = IOTASK_PENDING \<or> it_status ?x = IOTASK_WAITING then WakeCas t (it_status ?x) else NoCall)"
      have s': "s' = io_at_call w c s" using st WakeCas False by (simp add: io_call_step_def io_wake_cas_def c_def Let_def)
      have "core s' L C" by (rule core_same[OF K]) (use WakeCas in \<open>auto simp: s' io_defs c_def\<close>)
      then have "\<exists>L C. core s' L C" by blast
      then show ?thesis
        by (rule io_inv_call[OF I _ disjI1[OF cl], where c = c]) (use WakeCas in \<open>auto simp: s' io_defs c_def split: if_splits\<close>)
    next
      case True
      define c :: "'a io_in_call" where "c = (if old = IOTASK_WAITING then PushFront t else NoCall)"
      have s': "s' = io_at_call w c (io_set t (?x\<lparr>it_status := IOTASK_READY\<rparr>) (s\<lparr>io_asked := (io_asked s)(t := True)\<rparr>))"
        using st WakeCas True by (simp add: io_call_step_def io_wake_cas_def c_def Let_def)
      have "\<exists>L C. core s' L C"
      proof (cases "old = IOTASK_WAITING")
        case w: True
        have W: "L t = Asleep" "ok_at s t CSleep (C t \<noteq> None)" using waiting_at[OF K] True w by auto
        note N = in_locD[OF coreD(5)[OF K, of t]]
        show ?thesis
        proof (rule core_upd_call[OF K, where w = w and t = t and l = "AtCall w" and k = "C t" and c = c])
          show "in_loc s' t (AtCall w)" using N W(1) w by (auto simp: in_loc_def s' io_defs c_def)
          show "closer s' t (C t)" by (rule closer_call[OF coreD(6)[OF K, of t], of s' w]) (use WakeCas in \<open>auto simp: s' io_defs c_def\<close>)
          show "ok_at s' t (class_of s' (AtCall w)) (C t \<noteq> None)" using task_woken[OF W(2)] w by (simp add: s' io_defs c_def)
        qed (use WakeCas front in \<open>auto simp: s' io_defs c_def\<close>)
      next
        case p: False
        show ?thesis
        proof (rule core_upd_call[OF K, where w = w and t = t and l = "L t" and k = "C t" and c = c])
          show "in_loc s' t (L t)"
            using coreD(5)[OF K, of t] WakeCas p by (subst in_loc_frame[of s' s]) (auto simp: s' io_defs c_def)
          show "closer s' t (C t)" by (rule closer_call[OF coreD(6)[OF K, of t], of s' w]) (use WakeCas in \<open>auto simp: s' io_defs c_def\<close>)
          have "L t \<noteq> AtCall w" using in_locD(6)[OF coreD(5)[OF K, of t], of w] WakeCas by simp
          then have "class_of s' (L t) = class_of s (L t)" by (cases "L t") (auto simp: s' io_defs)
          then show "ok_at s' t (class_of s' (L t)) (C t \<noteq> None)"
            using task_stirred[OF coreD(7)[OF K, of t]] True p old by (simp add: s' io_defs)
        qed (use WakeCas front p in \<open>auto simp: s' io_defs c_def\<close>)
      qed
      then show ?thesis
        by (rule io_inv_call[OF I _ disjI1[OF cl], where c = c]) (use WakeCas in \<open>auto simp: s' io_defs c_def split: if_splits\<close>)
    qed
  next
    case (CloseXchg t)
    let ?x = "io_tasks s t"
    have g: "C t = Some w" using closerD[OF coreD(6)[OF K, of t], of w] CloseXchg by simp
    note k = coreD(7)[OF K, of t, unfolded g, simplified]
    have nc: "it_status ?x \<noteq> IOTASK_CLOSING \<and> it_status ?x \<noteq> IOTASK_CLOSED" using task_okD(14)[OF k] by simp
    define c :: "'a io_in_call" where "c = (if it_status ?x = IOTASK_WAITING then PushFront t else NoCall)"
    have s': "s' = io_at_call w c (io_set t (?x\<lparr>it_status := IOTASK_CLOSING\<rparr>) (s\<lparr>io_asked := (io_asked s)(t := True)\<rparr>))"
      using st CloseXchg nc by (cases "it_status ?x") (auto simp: io_call_step_def io_close_xchg_def c_def Let_def)
    have g': "closer s' t None" using closerD[OF coreD(6)[OF K, of t]] g by (auto simp: closer_def s' io_defs c_def)
    have "\<exists>L C. core s' L C"
    proof (cases "it_status ?x = IOTASK_WAITING")
      case w: True
      have W: "L t = Asleep" "ok_at s t CSleep True" using waiting_at[OF K w] g by auto
      note N = in_locD[OF coreD(5)[OF K, of t]]
      show ?thesis
      proof (rule core_upd_call[OF K, where w = w and t = t and l = "AtCall w" and k = None and c = c])
        show "in_loc s' t (AtCall w)" using N W(1) w by (auto simp: in_loc_def s' io_defs c_def)
        show "ok_at s' t (class_of s' (AtCall w)) (None \<noteq> None)" using task_closing_asleep[OF W(2)] w by (simp add: s' io_defs c_def)
      qed (use CloseXchg front g' in \<open>auto simp: s' io_defs c_def\<close>)
    next
      case p: False
      show ?thesis
      proof (rule core_upd_call[OF K, where w = w and t = t and l = "L t" and k = None and c = c])
        show "in_loc s' t (L t)"
          using coreD(5)[OF K, of t] CloseXchg p by (subst in_loc_frame[of s' s]) (auto simp: s' io_defs c_def)
        have "L t \<noteq> AtCall w" using in_locD(6)[OF coreD(5)[OF K, of t], of w] CloseXchg by simp
        then have "class_of s' (L t) = class_of s (L t)" by (cases "L t") (auto simp: s' io_defs)
        then show "ok_at s' t (class_of s' (L t)) (None \<noteq> None)"
          using task_closing_awake[OF k p] by (simp add: s' io_defs)
      qed (use CloseXchg front p g' in \<open>auto simp: s' io_defs c_def\<close>)
    qed
    then show ?thesis
      by (rule io_inv_call[OF I _ disjI1[OF cl], where c = c]) (use CloseXchg in \<open>auto simp: s' io_defs c_def split: if_splits\<close>)
  qed (use st in \<open>auto simp: io_call_step_def\<close>)
qed

section \<open>Clients, kernel, clock and the initial state\<close>

lemma free_at:
  assumes "core s L C" and "\<not> it_sub (io_tasks s t)"
  shows "L t = Free" "ok_at s t CFree (C t \<noteq> None)"
proof -
  have c: "class_of s (L t) = CFree" using task_okD(4)[OF coreD(7)[OF assms(1), of t]] assms(2) by simp
  then show "ok_at s t CFree (C t \<noteq> None)" using coreD(7)[OF assms(1), of t] by simp
  show "L t = Free"
  proof (cases "L t")
    case (AtPlace w)
    then have "io_place_holds (io_pc s w) = Some t" using in_locD(5)[OF coreD(5)[OF assms(1), of t]] by blast
    then show ?thesis using c AtPlace by (cases "io_pc s w") auto
  next
    case (AtCall w)
    then have "io_call_holds (io_call s w) = Some t" using in_locD(6)[OF coreD(5)[OF assms(1), of t]] by blast
    then show ?thesis using c AtCall by (cases "io_call s w") auto
  qed (use c in auto)
qed

text \<open>The members of a task change in place, without any call.\<close>

lemma io_inv_in_place:
  assumes I: "io_inv s" and K: "core s L C" and s': "s' = io_set t x s"
    and d: "t \<in> io_sleepers s \<Longrightarrow> it_deadline x = it_deadline (io_tasks s t)"
    and ok: "task_ok (class_of s (L t)) (C t \<noteq> None) x (io_kernel s t) (io_owed s t) (io_asked s t) (t \<in> io_sleepers s) (io_now s)"
  shows "io_inv s'"
proof -
  have "\<exists>L C. core s' L C"
  proof (rule core_upd_call[OF K, where w = 0 and c = "io_call s 0" and t = t and l = "L t" and k = "C t"])
    show "in_loc s' t (L t)" using coreD(5)[OF K, of t] by (simp add: in_loc_def s' io_defs)
    show "closer s' t (C t)" using coreD(6)[OF K, of t] by (simp add: closer_def s' io_defs)
    have "class_of s' (L t) = class_of s (L t)" by (cases "L t") (auto simp: s' io_defs)
    then show "ok_at s' t (class_of s' (L t)) (C t \<noteq> None)" using ok by (simp add: s' io_defs)
  qed (use coreD(1)[OF K] in \<open>auto simp: s' io_defs\<close>)
  then show ?thesis
    by (rule io_inv_call[OF I, where w = 0 and c = "io_call s 0"])
      (use io_invD(4)[OF I] d in \<open>auto simp: s' io_defs io_place_inv_def\<close>)
qed

text \<open>A thread leaves the client code.\<close>

lemma io_inv_leave:
  assumes I: "io_inv s" and nc: "io_call s w = NoCall" and old: "io_client_place (io_pc s w)" "io_pc s w \<noteq> Outside"
    and p: "(\<exists>t b. p = Repost t b) \<or> after_task p" "place_class p = place_class (io_pc s w)" "io_place_holds p = io_place_holds (io_pc s w)"
    and s': "s' = io_goto w p (s\<lparr>io_desc := n\<rparr>)"
  shows "io_inv s'"
  unfolding io_inv_def
proof (intro conjI)
  note H = io_invD[OF I]
  obtain L C where K: "core s L C" using H(1) by blast
  have "core s' L C" by (rule core_same[OF K]) (use p in \<open>auto simp: s' io_defs\<close>)
  then show "\<exists>L C. core s' L C" by blast
  show "heap_ok (io_heap s') (io_waiting s')" using H(2) by (simp add: s' io_defs io_heap_def)
  have oc: "(\<exists>t b a. io_pc s w = Callback t b a) \<or> (\<exists>t b. io_pc s w = CloseCallback t b)"
    using old by (cases "io_pc s w") auto
  have cls: "io_role_place (io_pc s' v) = io_role_place (io_pc s v)" "reports (io_pc s' v) = reports (io_pc s v)"
    "io_front_seen (io_pc s' v) = io_front_seen (io_pc s v)" "io_collecting (io_pc s' v) = io_collecting (io_pc s v)"
    "io_sleeping (io_pc s' v) = io_sleeping (io_pc s v)" "(io_pc s' v = PollForever) = (io_pc s v = PollForever)"
    "(io_pc s' v = PollFor d) = (io_pc s v = PollFor d)" "(io_pc s' v = RepostSignal b) = (io_pc s v = RepostSignal b)"
    "io_taken_by s' v = io_taken_by s v" "elects (io_pc s v) \<Longrightarrow> elects (io_pc s' v)" for v d b
    using oc p(1) by (cases "v = w"; auto simp: s' io_defs after_task_def io_taken_by_def)+
  have same: "io_role s' = io_role s" "io_rsig s' = io_rsig s" "io_collected s' = io_collected s" "io_pendq s' = io_pendq s"
      "io_readyq s' = io_readyq s" "io_ready_count s' = io_ready_count s" "io_workers s' = io_workers s" "io_waiting s' = io_waiting s"
      "io_evs s' = io_evs s" "io_timestamp s' = io_timestamp s" "io_now s' = io_now s" "io_call s' = io_call s" "io_kernel s' = io_kernel s"
      "io_tasks s' = io_tasks s" "io_front s' = io_front s" "io_eventfd s' = io_eventfd s"
    by (simp_all add: s' io_defs)
  show "io_role_inv s'" using H(3) unfolding io_role_inv_def cls(1) same .
  show "event_inv s'" using H(5) unfolding event_inv_def cls(2) same .
  show "io_place_inv s'" using H(4) nc old p(1) unfolding io_place_inv_def by (auto simp: s' io_defs after_task_def)
  have "\<not> io_role s \<longrightarrow> io_rsig s \<or> (\<exists>w. elects (io_pc s' w))" using io_signal_invD(1)[OF H(6)] cls(10) by blast
  then show "io_signal_inv s'" using H(6) unfolding io_signal_inv_def cls(3-9) same by blast
qed

lemma io_inv_env:
  assumes I: "io_inv s" and e: "io_env s s'"
  shows "io_inv s'"
proof -
  note H = io_invD[OF I]
  obtain L C where K: "core s L C" using H(1) by blast
  note front = coreD(1)[OF K]
  from e show ?thesis
  proof cases
    case (post w t sock)
    have cl: "io_client_place (io_pc s w)" and nc: "io_call s w = NoCall" using post by (auto simp: io_client_def)
    note W = free_at[OF K post(3)] and N = in_locD[OF coreD(5)[OF K, of t]]
    note F = task_okD[OF W(2)]
    let ?x = "io_tasks s t"
    define x' where "x' = (if it_status ?x = IOTASK_CLOSED
      then ?x\<lparr>it_sub := True, it_sock := sock, it_status := IOTASK_PENDING, it_closed := False, it_guard := False\<rparr>
      else ?x\<lparr>it_sub := True, it_sock := sock\<rparr>)"
    have s': "s' = io_at_call w (Register t) (io_set t x' s)"
      using post F(2,3,7) by (auto simp: io_attach_def Let_def x'_def)
    have ok: "task_ok CNew (C t \<noteq> None) x' (io_kernel s t) (io_owed s t) (io_asked s t) (t \<in> io_sleepers s) (io_now s)"
      using task_attached[OF W(2)] task_attached_again[OF W(2)] by (simp add: x'_def)
    have "\<exists>L C. core s' L C"
    proof (rule core_upd_call[OF K, where w = w and t = t and l = "AtCall w" and k = "C t" and c = "Register t"])
      show "in_loc s' t (AtCall w)" using N W(1) by (auto simp: in_loc_def s' io_defs)
      show "closer s' t (C t)" by (rule closer_call[OF coreD(6)[OF K, of t], of s' w]) (use nc in \<open>auto simp: s' io_defs\<close>)
      show "ok_at s' t (class_of s' (AtCall w)) (C t \<noteq> None)" using ok by (simp add: s' io_defs)
    qed (use front nc in \<open>auto simp: s' io_defs\<close>)
    then show ?thesis
      by (rule io_inv_call[OF I _ disjI1[OF cl], where c = "Register t"]) (use nc in \<open>auto simp: s' io_defs x'_def\<close>)
  next
    case (wakeup w t)
    have cl: "io_client_place (io_pc s w)" and nc: "io_call s w = NoCall" using wakeup by (auto simp: io_client_def)
    have "core s' L C" by (rule core_same[OF K]) (use nc wakeup(1) in \<open>auto simp: io_defs\<close>)
    then have "\<exists>L C. core s' L C" by blast
    then show ?thesis
      by (rule io_inv_call[OF I _ disjI1[OF cl], where c = "WakeCas t IOTASK_WAITING"]) (use nc wakeup(1) in \<open>auto simp: io_defs\<close>)
  next
    case (close w t)
    have cl: "io_client_place (io_pc s w)" and nc: "io_call s w = NoCall" using close by (auto simp: io_client_def)
    let ?x = "io_tasks s t"
    show ?thesis
    proof (cases "it_guard ?x")
      case True
      then show ?thesis using close I by (simp add: io_close_def Let_def)
    next
      case False
      have s': "s' = io_at_call w (CloseXchg t) (io_set t (?x\<lparr>it_guard := True\<rparr>) s)"
        using close False by (simp add: io_close_def Let_def)
      have g: "C t = None" using task_okD(2)[OF coreD(7)[OF K, of t]] False by auto
      then have n: "call_closes (io_call s v) \<noteq> Some t" for v using closerD[OF coreD(6)[OF K, of t], of v] by simp
      have "\<exists>L C. core s' L C"
      proof (rule core_upd_call[OF K, where w = w and t = t and l = "L t" and k = "Some w" and c = "CloseXchg t"])
        show "in_loc s' t (L t)" using coreD(5)[OF K, of t] nc by (subst in_loc_frame[of s' s]) (auto simp: s' io_defs)
        show "closer s' t (Some w)" using n by (auto simp: closer_def s' io_defs)
        have "L t \<noteq> AtCall w" using in_locD(6)[OF coreD(5)[OF K, of t], of w] nc by simp
        then have "class_of s' (L t) = class_of s (L t)" by (cases "L t") (auto simp: s' io_defs)
        then show "ok_at s' t (class_of s' (L t)) (Some w \<noteq> None)"
          using task_guarded[OF coreD(7)[OF K, of t] False] by (simp add: s' io_defs)
      qed (use front nc in \<open>auto simp: s' io_defs\<close>)
      then show ?thesis
        by (rule io_inv_call[OF I _ disjI1[OF cl], where c = "CloseXchg t"]) (use nc in \<open>auto simp: s' io_defs\<close>)
    qed
  next
    case (set_deadline t w b a d)
    let ?x = "io_tasks s t"
    have c: "class_of s (L t) = CFree \<or> class_of s (L t) = CRun"
      using set_deadline(2) free_at(1)[OF K, of t] holds_at(1)[OF K, of w t] by auto
    have h: "t \<notin> io_sleepers s" using task_okD(11)[OF coreD(7)[OF K, of t]] c by auto
    show ?thesis
    proof (cases "d < it_deadline ?x")
      case True
      then have s': "s' = io_set t (?x\<lparr>it_deadline := d\<rparr>) s" using set_deadline(1) by (simp add: io_set_deadline_def Let_def)
      show ?thesis by (rule io_inv_in_place[OF I K s']) (use h task_deadline[OF coreD(7)[OF K, of t] c] in auto)
    next
      case False
      then show ?thesis using set_deadline(1) I by (simp add: io_set_deadline_def Let_def)
    qed
  next
    case (reschedule w t b a)
    have c: "class_of s (L t) = CRun" using reschedule(2) holds_at(1)[OF K, of w t] by simp
    have h: "t \<notin> io_sleepers s" using task_okD(11)[OF coreD(7)[OF K, of t]] c by auto
    show ?thesis
      by (rule io_inv_in_place[OF I K, of s' t "(io_tasks s t)\<lparr>it_deadline := 0\<rparr>"])
        (use h task_deadline[OF coreD(7)[OF K, of t]] c reschedule(1) in \<open>auto simp: io_reschedule_def\<close>)
  next
    case (save_event w t b a m)
    have c: "class_of s (L t) = CRun" using save_event(2) holds_at(1)[OF K, of w t] by simp
    show ?thesis
      by (rule io_inv_in_place[OF I K, of s' t "(io_tasks s t)\<lparr>it_ready := it_ready (io_tasks s t) OR m\<rparr>"])
        (use task_saves[OF coreD(7)[OF K, of t, unfolded c]] c save_event(1,3) in \<open>auto simp: io_save_event_def\<close>)
  next
    case (attach_socket w t b a)
    have at: "L t = AtPlace w" and c: "class_of s (L t) = CRun" using attach_socket(2) holds_at(1)[OF K, of w t] by auto
    note G = task_gets_socket[OF coreD(7)[OF K, of t, unfolded c] attach_socket(4)]
    have s': "s' = io_set t ((io_tasks s t)\<lparr>it_sock := True\<rparr>) (s\<lparr>io_kernel := (io_kernel s)(t := Some 0)\<rparr>)"
      using attach_socket G(2-5) by (cases s) (simp add: io_attach_socket_def io_kernel_register_def Let_def io_set_def)
    have "\<exists>L C. core s' L C"
    proof (rule core_upd_call[OF K, where w = w and c = "io_call s w" and t = t and l = "L t" and k = "C t"])
      show "in_loc s' t (L t)" using coreD(5)[OF K, of t] by (simp add: in_loc_def s' io_defs)
      show "closer s' t (C t)" using coreD(6)[OF K, of t] by (simp add: closer_def s' io_defs)
      show "ok_at s' t (class_of s' (L t)) (C t \<noteq> None)" using G(1) c at by (simp add: s' io_defs)
    qed (use front in \<open>auto simp: s' io_defs\<close>)
    then show ?thesis
      by (rule io_inv_call[OF I, where w = w and c = "io_call s w"]) (use attach_socket(3) in \<open>auto simp: s' io_defs\<close>)
  next
    case (callback_done w t b a)
    show ?thesis
      by (rule io_inv_leave[OF I callback_done(3), where p = "Repost t b" and n = "io_desc s"])
        (use callback_done(1,2) in \<open>auto simp: io_defs\<close>)
  next
    case (close_done w t b)
    obtain p where p: "s' = io_goto w p (s\<lparr>io_desc := io_desc s - 1\<rparr>)" "after_task p"
      using io_next_after[of w b "s\<lparr>io_desc := io_desc s - 1\<rparr>"] close_done(1) by (auto simp: io_close_done_def)
    show ?thesis
      by (rule io_inv_leave[OF I close_done(3) _ _ _ _ _ p(1)]) (use close_done(2) p(2) in \<open>auto simp: after_task_def\<close>)
  next
    case (kernel t m e)
    have "core s' L C" by (rule core_same[OF K]) (use kernel in auto)
    then have "\<exists>L C. core s' L C" by blast
    then show ?thesis
      by (rule io_inv_call[OF I, where w = 0 and c = "io_call s 0"]) (use H(4) kernel(1) in \<open>auto simp: io_place_inv_def\<close>)
  next
    case (interrupt w d)
    show ?thesis using io_inv_move[OF I io_move.poll_end[OF interrupt(2)]] interrupt(1) by simp
  next
    case (clock x)
    have "core s' L C"
      unfolding core_def
    proof (intro conjI allI)
      fix t
      show "in_loc s' t (L t)" using coreD(5)[OF K, of t] clock(1) by (simp add: in_loc_def)
      show "closer s' t (C t)" using coreD(6)[OF K, of t] clock(1) by (simp add: closer_def)
      have "class_of s' (L t) = class_of s (L t)" using clock(1) by (cases "L t") auto
      then show "ok_at s' t (class_of s' (L t)) (C t \<noteq> None)" using task_later[OF coreD(7)[OF K, of t] clock(2)] clock(1) by simp
    qed (use coreD(1-4)[OF K] clock(1) in auto)
    then have "\<exists>L C. core s' L C" by blast
    then show ?thesis
      by (rule io_inv_call[OF I, where w = 0 and c = "io_call s 0"]) (use H(4) clock in \<open>auto simp: io_place_inv_def\<close>)
  qed
qed

lemma io_inv_start:
  assumes "io_start n = Some s"
  shows "io_inv s"
proof -
  have n: "0 < unat n" using assms by (auto simp: io_start_def unat_gt_0 word_gt_0 split: if_splits)
  have s: "io_front s = []" "io_pendq s = []" "io_collected s = []" "io_readyq s = []" "io_evs s = []" "\<not> io_role s" "io_ready_count s = 0"
    "io_tasks s = (\<lambda>_. io_task_new)" "io_kernel s = (\<lambda>_. None)" "io_owed s = (\<lambda>_. 0)" "io_call s = (\<lambda>_. NoCall)"
    "io_pc s = (\<lambda>w. if w < unat n then Starting else Outside)" "io_workers s = unat n" "io_waiting s = empty_heap (\<lambda>_. - 1)"
    "io_timestamp s = 0" "io_now s = 0"
    using assms by (auto simp: io_start_def split: if_splits)
  have pc: "io_place_holds (io_pc s w) = None" "\<not> io_role_place (io_pc s w)" "\<not> reports (io_pc s w)" "\<not> io_front_seen (io_pc s w)"
    "\<not> io_sleeping (io_pc s w)" "io_taken_by s w = 0" "io_pc s w \<noteq> PollFor d" "io_pc s w \<noteq> PollForever" for w d
    by (auto simp: s(12) io_taken_by_def)
  have "core s (\<lambda>_. Free) (\<lambda>_. None)"
    unfolding core_def
  proof (intro conjI allI)
    fix t
    show "in_loc s t Free" using pc(1) by (simp add: in_loc_def s)
    show "closer s t None" by (simp add: closer_def s)
    show "ok_at s t (class_of s Free) (None \<noteq> None)"
      by (intro task_okI) (auto simp: s io_task_new_def empty_heap_def)
  qed (auto simp: s)
  moreover have "heap_ok (io_heap s) (io_waiting s)" by (simp add: s heap_ok_def heap_inv_def index_inv_def empty_heap_def)
  moreover have "io_role_inv s" using pc(2) by (simp add: io_role_inv_def s)
  moreover have "io_place_inv s" using n by (auto simp: io_place_inv_def s)
  moreover have "event_inv s" by (simp add: event_inv_def s)
  moreover have "\<exists>w. elects (io_pc s w)" using n by (intro exI[of _ 0]) (simp add: s)
  then have "io_signal_inv s" using pc by (simp add: io_signal_inv_def s(1-7))
  ultimately show ?thesis unfolding io_inv_def by blast
qed

lemma io_inv_step: "io_inv s \<Longrightarrow> io_step s s' \<Longrightarrow> io_inv s'"
  by (erule io_step.cases)
    (auto intro: io_inv_move io_inv_step_call io_move_worker io_move_epoll io_move.poll_end)

lemma io_reachable_inv: "io_reachable s \<Longrightarrow> io_inv s"
  by (induction rule: io_reachable.induct) (auto intro: io_inv_start io_inv_step io_inv_env)

end
