(* ===== verification/IO_Correct.thy ===== *)
theory IO_Correct
  imports IO_Calls
begin

text \<open>
  What the IO core promises, for all reachable states, and runs that are computed from a schedule for the
  witnesses.
\<close>

section \<open>Schedules\<close>

text \<open>An action is a step of a thread, a report of epoll, an end of a poll, or an action of the clients, the kernel or the clock.\<close>

datatype 'k io_action =
    EvWork nat | EvCall nat | EvEpoll nat "'k list" bool | EvPollEnd nat
  | EvPost nat 'k bool | EvWakeup nat 'k | EvClose nat 'k | EvDone nat | EvCloseDone nat | EvKernel 'k u32 | EvClock u64

fun io_perform :: "'k io_action \<Rightarrow> 'k io \<Rightarrow> 'k io option" where
  "io_perform (EvWork w) s = io_worker_step w s"
| "io_perform (EvCall w) s = io_call_step w s"
| "io_perform (EvEpoll w ts fd) s = (if io_pc s w = Epoll then io_epoll w ts fd s else None)"
| "io_perform (EvPollEnd w) s =
    (case io_pc s w of PollFor d \<Rightarrow> Some (io_goto w Epoll s) | PollForever \<Rightarrow> Some (io_goto w Epoll s) | _ \<Rightarrow> None)"
| "io_perform (EvPost w t sock) s =
    (if io_client s w \<and> \<not> it_sub (io_tasks s t) \<and> it_status (io_tasks s t) \<noteq> IOTASK_CLOSED then Some (io_attach w t sock s) else None)"
| "io_perform (EvWakeup w t) s = (if io_client s w then Some (io_at_call w (WakeCas t IOTASK_WAITING) s) else None)"
| "io_perform (EvClose w t) s = (if io_client s w then Some (io_close w t s) else None)"
| "io_perform (EvDone w) s =
    (case io_pc s w of Callback t b a \<Rightarrow> if io_call s w = NoCall then Some (io_goto w (Repost t b) s) else None | _ \<Rightarrow> None)"
| "io_perform (EvCloseDone w) s =
    (case io_pc s w of CloseCallback t b \<Rightarrow> if io_call s w = NoCall then Some (io_close_done w b s) else None | _ \<Rightarrow> None)"
| "io_perform (EvKernel t e) s =
    (case io_kernel s t of Some m \<Rightarrow> if e \<noteq> 0 then Some (s\<lparr>io_kernel := (io_kernel s)(t := Some (m OR e))\<rparr>) else None | None \<Rightarrow> None)"
| "io_perform (EvClock x) s = (if io_now s \<le> x then Some (s\<lparr>io_now := x\<rparr>) else None)"

fun io_events :: "'k io_action list \<Rightarrow> 'k io \<Rightarrow> 'k io option" where
  "io_events [] s = Some s"
| "io_events (e # es) s = Option.bind (io_perform e s) (io_events es)"

lemma io_perform_reachable: "io_reachable s \<Longrightarrow> io_perform e s = Some s' \<Longrightarrow> io_reachable s'"
  by (cases e) (auto split: if_splits io_place.splits option.splits intro: io_reachable.step io_reachable.env io_step.worker io_step.call
      io_step.epoll io_env.intros)

lemma io_events_reachable: "io_reachable s \<Longrightarrow> io_events es s = Some s' \<Longrightarrow> io_reachable s'"
  by (induction es arbitrary: s) (auto simp: bind_eq_Some_conv intro: io_perform_reachable)

definition io_run :: "u32 \<Rightarrow> 'k io_action list \<Rightarrow> 'k io option" where
  "io_run n es = Option.bind (io_start n) (io_events es)"

lemma io_run_reachable: "io_run n es = Some s \<Longrightarrow> io_reachable s"
  by (auto simp: io_run_def bind_eq_Some_conv intro: io_events_reachable io_reachable.start)

lemmas io_eval = replicate_numeral io_run_def io_start_def io_task_new_def io_worker_step_def io_call_step_def io_goto_def io_at_call_def io_set_def io_unwait_def
  io_try_role_def io_epoll_def io_pop_front_def io_kernel_event_def io_collect_def io_pend_def io_pend_out_def io_pend_sleep_def
  io_pend_close_def io_pend_closed_def io_wait_top_def io_flush_def io_check_idle_def io_check_deadline_def io_end_role_def
  io_send_ready_def io_exec_def io_counted_def io_exec_cas_def io_next_def io_batch_done_def io_repost_def io_repost_signal_def
  io_wait_ready_def io_client_def io_attach_def io_register_def io_kernel_register_def io_post_push_def io_push_front_def
  io_send_event_def io_wake_cas_def io_close_def io_close_xchg_def io_close_done_def
  MG_IOCORE_READY_BATCH_def MG_IOCORE_EPOLL_BATCH_def TIME_INFINITE_def heap_get_top_def heap_count_def empty_heap_def

section \<open>Where a task is\<close>

abbreviation io_queued :: "'k io \<Rightarrow> 'k list" where
  "io_queued s \<equiv> io_front s @ io_pendq s @ io_collected s @ io_readyq s"

text \<open>A thread holds a task that it took from a queue and has not put into another, and a task that it is posting.\<close>

definition io_holds :: "'k io \<Rightarrow> nat \<Rightarrow> 'k \<Rightarrow> bool" where
  "io_holds s w t = (io_place_holds (io_pc s w) = Some t \<or> io_call_holds (io_call s w) = Some t)"

lemma io_located:
  assumes "in_loc s t l"
  shows "t \<in> set (io_queued s) \<longleftrightarrow> l \<in> {InFront, InPending, InCollected, InReady}"
    "io_holds s w t \<longleftrightarrow> l = AtPlace w \<or> l = AtCall w"
  using in_locD[OF assms] by (auto simp: io_holds_def)

lemma io_at_queue:
  assumes "in_loc s t (L t)" and "t \<in> set (io_queued s) \<or> io_holds s w t"
  shows "class_of s (L t) \<noteq> CFree" "class_of s (L t) \<noteq> CSleep"
proof -
  have p: "place_class p \<noteq> CFree \<and> place_class p \<noteq> CSleep" if "io_place_holds p = Some t" for p :: "'a io_place"
    using that by (cases p) auto
  have c: "call_class p \<noteq> CFree \<and> call_class p \<noteq> CSleep" if "io_call_holds p = Some t" for p :: "'a io_in_call"
    using that by (cases p) auto
  from assms(2) have "class_of s (L t) \<noteq> CFree \<and> class_of s (L t) \<noteq> CSleep"
    unfolding io_located[OF assms(1)] using in_locD(5,6)[OF assms(1)] p c by auto
  then show "class_of s (L t) \<noteq> CFree" "class_of s (L t) \<noteq> CSleep" by auto
qed

section \<open>Correctness\<close>



section \<open>Nothing is forgotten\<close>

lemma io_worker_stuck:
  assumes "\<forall>s'. \<not> io_step s s'" and "io_pc s w \<noteq> Aborted" and "\<forall>t b a. io_pc s w \<noteq> Callback t b a"
    and "\<forall>t b. io_pc s w \<noteq> CloseCallback t b"
  shows "io_pc s w = Outside \<or> io_pc s w = WaitReady \<and> \<not> io_rsig s \<or> io_pc s w = PollForever \<and> \<not> io_readable s \<or>
    (\<exists>d. io_pc s w = PollFor d \<and> \<not> io_readable s \<and> io_now s < d)"
proof -
  have "io_worker_step w s = None" using assms(1) io_step.worker[of w s] by (cases "io_worker_step w s") auto
  moreover have "io_now s < d" if "io_pc s w = PollFor d" for d using assms(1) io_step.poll_timeout[OF that] not_le by blast
  moreover have "\<not> io_readable s" if "io_pc s w = PollFor d \<or> io_pc s w = PollForever" for d
    using assms(1) io_step.poll[OF that] by blast
  moreover have "io_pc s w \<noteq> Epoll"
  proof
    assume "io_pc s w = Epoll"
    moreover obtain s' where "io_epoll w [] False s = Some s'" by (simp add: io_epoll_def)
    ultimately show False using assms(1) io_step.epoll by blast
  qed
  ultimately show ?thesis using assms(2-4)
    by (cases "io_pc s w") (auto simp: io_worker_step_def io_wait_ready_def split: if_splits)
qed

lemma io_call_stuck:
  assumes "\<forall>s'. \<not> io_step s s'" and "io_call s w \<noteq> AbortedCall"
  shows "io_call s w = NoCall"
proof -
  have "io_call_step w s = None" using assms(1) io_step.call[of w s] by (cases "io_call_step w s") auto
  then show ?thesis using assms(2) by (cases "io_call s w") (auto simp: io_call_step_def)
qed

text \<open>
  C1. No lost wakeups: when no thread can make a step and no callback is running, then all calls have returned, no task is in a
  queue and the kernel has no event that was not handled. Every posted task sleeps, with no event, wakeup or close
  pending for it, and its deadline is infinite or in the future. One worker is in \<^verbatim>\<open>poll\<close>, not longer than until the first
  of the deadlines.
\<close>
theorem io_no_deadlock:
  assumes "io_reachable s" and "\<forall>s'. \<not> io_step s s'" and "\<forall>w t b a. io_pc s w \<noteq> Callback t b a \<and> io_pc s w \<noteq> CloseCallback t b"
  shows "(\<forall>w. io_call s w = NoCall) \<and> io_queued s = [] \<and> (\<forall>t m. io_kernel s t = Some m \<longrightarrow> m = 0) \<and>
    (\<forall>t. it_sub (io_tasks s t) \<longrightarrow> it_status (io_tasks s t) = IOTASK_WAITING \<and> it_pending (io_tasks s t) = 0 \<and> io_owed s t = 0 \<and>
       \<not> it_guard (io_tasks s t) \<and>
       (it_deadline (io_tasks s t) = TIME_INFINITE \<or> t \<in> io_sleepers s \<and> io_now s < it_deadline (io_tasks s t))) \<and>
    (\<exists>w. io_pc s w = PollForever \<and> io_sleepers s = {} \<or>
       (\<exists>d. io_pc s w = PollFor d \<and> (\<forall>t \<in> io_sleepers s. d \<le> it_deadline (io_tasks s t))))"
proof -
  note H = io_invD[OF io_reachable_inv[OF assms(1)]]
  from H(1) obtain L C where K: "core s L C" by blast
  note D = task_okD[OF coreD(7)[OF K]] and S = io_signal_invD[OF H(6)]
  have P: "io_pc s w \<noteq> Aborted" "io_call s w \<noteq> AbortedCall" "w < io_workers s \<longleftrightarrow> io_pc s w \<noteq> Outside" "0 < io_workers s" for w
    using H(4) by (auto simp: io_place_inv_def)
  have W: "io_pc s w = Outside \<or> io_pc s w = WaitReady \<and> \<not> io_rsig s \<or> io_pc s w = PollForever \<and> \<not> io_readable s \<or>
    (\<exists>d. io_pc s w = PollFor d \<and> \<not> io_readable s \<and> io_now s < d)" for w
    using io_worker_stuck[OF assms(2) P(1)] assms(3) by blast
  have calls: "io_call s w = NoCall" for w using io_call_stuck[OF assms(2) P(2)] .
  have "io_role s"
  proof (rule ccontr)
    assume n: "\<not> io_role s"
    have "\<not> elects (io_pc s w)" for w using W[of w] by auto
    with S(1)[OF n] have "io_rsig s" by blast
    moreover have "\<not> io_role_place (io_pc s 0)" using n H(3) by (auto simp: io_role_inv_def)
    moreover have "io_pc s 0 \<noteq> Outside" using P(3)[of 0] P(4) by simp
    ultimately show False using W[of 0] by auto
  qed
  then obtain w where w: "io_role_place (io_pc s w)" using H(3) by (auto simp: io_role_inv_def)
  have sl: "io_sleeping (io_pc s w)" "io_front_seen (io_pc s w)" "\<not> io_readable s" using W[of w] w by auto
  have front: "io_front s = []"
  proof (rule ccontr)
    assume "io_front s \<noteq> []"
    moreover have "\<not> io_eventfd s" using sl(3) by (simp add: io_readable_def)
    ultimately obtain v where "io_call s v = SendEvent \<or> (\<exists>b. io_pc s v = RepostSignal b)" using S(2)[OF sl(2)] by blast
    with calls W[of v] show False by auto
  qed
  have "\<not> io_collecting (io_pc s v)" for v using W[of v] by auto
  then have queued: "io_queued s = []" using S(3) S(4)[OF sl(1)] front by auto
  have events: "m = 0" if "io_kernel s t = Some m" for t m using sl(3) that by (auto simp: io_readable_def)
  have sleep: "io_pc s w = PollForever \<and> io_sleepers s = {} \<or>
       (\<exists>d. io_pc s w = PollFor d \<and> io_now s < d \<and> (\<forall>t \<in> io_sleepers s. d \<le> it_deadline (io_tasks s t)))"
    using W[of w] w S(5)[of w] S(6)[of w] by auto
  have later: "io_now s < it_deadline (io_tasks s t)" if i: "t \<in> io_sleepers s" for t
  proof -
    from sleep i obtain d where "io_now s < d" "d \<le> it_deadline (io_tasks s t)" by auto
    then show ?thesis by (rule less_le_trans)
  qed
  have tasks: "it_status (io_tasks s t) = IOTASK_WAITING \<and> it_pending (io_tasks s t) = 0 \<and> io_owed s t = 0 \<and> \<not> it_guard (io_tasks s t) \<and>
       (it_deadline (io_tasks s t) = TIME_INFINITE \<or> t \<in> io_sleepers s \<and> io_now s < it_deadline (io_tasks s t))"
    if sub: "it_sub (io_tasks s t)" for t
  proof -
    note N = in_locD[OF coreD(5)[OF K, of t]]
    have "io_place_holds (io_pc s v) = None" "io_call_holds (io_call s v) = None" for v using W[of v] calls[of v] by auto
    then have at: "L t = Asleep" using N sub D(4)[of t] queued by (cases "L t") auto
    have "C t = None" using coreD(6)[OF K, of t] calls by (cases "C t") (auto simp: closer_def)
    then show ?thesis using D(1,2,9,10)[of t] later[of t] at by auto
  qed
  have "\<exists>w. io_pc s w = PollForever \<and> io_sleepers s = {} \<or>
       (\<exists>d. io_pc s w = PollFor d \<and> (\<forall>t \<in> io_sleepers s. d \<le> it_deadline (io_tasks s t)))"
    using sleep by (intro exI[of _ w]) auto
  with calls queued events tasks show ?thesis by (intro conjI allI impI) simp_all
qed

lemma io_no_deadlock_witness:
  "\<exists>s :: nat io. io_reachable s \<and> (\<forall>s'. \<not> io_step s s') \<and> it_sub (io_tasks s 7) \<and> it_status (io_tasks s 7) = IOTASK_WAITING \<and>
     \<not> it_guard (io_tasks s 7)"
proof -
  obtain s :: "nat io" where s: "io_run 1 ([EvPost 1 7 True, EvCall 1, EvCall 1, EvCall 1, EvWork 0, EvWork 0, EvEpoll 0 [] True] @
      replicate 8 (EvWork 0)) = Some s"
    and f: "io_pc s = (\<lambda>w. if w = 0 then PollForever else Outside)" "io_call s = (\<lambda>_. NoCall)" "\<not> io_eventfd s"
      "io_kernel s = (\<lambda>t. if t = 7 then Some 0 else None)" "it_sub (io_tasks s 7)"
    by (simp add: io_eval fun_eq_iff)
  note r = io_run_reachable[OF s]
  have "\<not> io_readable s" using f by (auto simp: io_readable_def split: if_splits)
  then have n: "\<not> io_step s s'" for s'
    using f by (auto elim!: io_step.cases simp: io_worker_step_def io_call_step_def split: if_splits)
  have cb: "\<forall>w t b a. io_pc s w \<noteq> Callback t b a \<and> io_pc s w \<noteq> CloseCallback t b" using f(1) by simp
  from io_no_deadlock[OF r _ cb] n r f(5) show ?thesis by blast
qed

section \<open>Events and closing\<close>

text \<open>A worker that is about to call a task's callback.\<close>

lemma io_exec_cas_at:
  assumes "core s L C" and "io_pc s w = ExecCas t b"
  shows "class_of s (L t) = CToRun"
  using holds_at(1)[OF assms(1), of w t] assms(2) by simp

text \<open>
  C5. No event of a socket is lost, although epoll reports it once: while the core owes a task an event, the task is not asleep and
  not between two posts, but queued or held by a thread; and when its callback is called, every event that the core owes is in the mask
  that \<^verbatim>\<open>OnEvent\<close> is given, or is still owed afterwards. A closed task is owed nothing.
\<close>
theorem io_event_kept:
  assumes "io_reachable s"
  shows "(io_owed s t \<noteq> 0 \<longrightarrow> it_sub (io_tasks s t) \<and> it_status (io_tasks s t) \<noteq> IOTASK_WAITING \<and>
       (t \<in> set (io_queued s) \<or> (\<exists>w. io_holds s w t))) \<and>
    (\<forall>w b. io_pc s w = ExecCas t b \<longrightarrow> (\<exists>s'. io_worker_step w s = Some s' \<and>
       (it_closed (io_tasks s t) \<longrightarrow> io_pc s' w = CloseCallback t b \<and> io_owed s t = 0) \<and>
       (\<not> it_closed (io_tasks s t) \<longrightarrow> (\<exists>a. io_pc s' w = Callback t b a \<and> covers (a OR io_owed s' t) (io_owed s t)))))"
proof -
  note H = io_invD[OF io_reachable_inv[OF assms]]
  from H(1) obtain L C where K: "core s L C" by blast
  note D = task_okD[OF coreD(7)[OF K, of t]]
  note Q = io_located[OF coreD(5)[OF K, of t]]
  have owed: "it_sub (io_tasks s t) \<and> it_status (io_tasks s t) \<noteq> IOTASK_WAITING \<and> (t \<in> set (io_queued s) \<or> (\<exists>w. io_holds s w t))"
    if ow: "io_owed s t \<noteq> 0"
  proof -
    have "L t \<noteq> Asleep" using D(9,10) ow by auto
    moreover have "class_of s (L t) \<noteq> CFree"
    proof
      assume f: "class_of s (L t) = CFree"
      then have "io_kernel s t = None" using D(6,7) by auto
      then show False using D(8,9) f ow by auto
    qed
    ultimately have "t \<in> set (io_queued s) \<or> (\<exists>w. io_holds s w t)" using Q(1) Q(2) by (cases "L t") auto
    moreover have "class_of s (L t) \<noteq> CSleep" using calculation io_at_queue(2)[where L = L, OF coreD(5)[OF K]] by blast
    then have "it_status (io_tasks s t) \<noteq> IOTASK_WAITING" using D(1) class_status_waiting by metis
    ultimately show ?thesis using D(4) \<open>class_of s (L t) \<noteq> CFree\<close> by blast
  qed
  have run: "\<exists>s'. io_worker_step w s = Some s' \<and> (it_closed (io_tasks s t) \<longrightarrow> io_pc s' w = CloseCallback t b \<and> io_owed s t = 0) \<and>
       (\<not> it_closed (io_tasks s t) \<longrightarrow> (\<exists>a. io_pc s' w = Callback t b a \<and> covers (a OR io_owed s' t) (io_owed s t)))"
    if at: "io_pc s w = ExecCas t b" for w b
  proof -
    note c = io_exec_cas_at[OF K at]
    have ok: "it_queued (io_tasks s t)" "it_sub (io_tasks s t)" "it_status (io_tasks s t) \<noteq> IOTASK_PENDING"
      "covers (it_ready (io_tasks s t) OR it_pending (io_tasks s t)) (io_owed s t)"
      using D(1,4,5,9) c by auto
    show ?thesis
    proof (cases "it_closed (io_tasks s t)")
      case True
      then have "it_status (io_tasks s t) = IOTASK_CLOSED" "it_pending (io_tasks s t) = 0" "io_owed s t = 0"
        using D(3,6,7,8,9) c by auto
      then show ?thesis using at True ok by (simp add: io_worker_step_def io_exec_cas_def io_goto_def io_set_def)
    next
      case False
      then show ?thesis using at ok by (simp add: io_worker_step_def io_exec_cas_def io_goto_def io_set_def Let_def)
    qed
  qed
  show ?thesis using owed run by blast
qed

text \<open>
  C7. No callback without a reason: a worker that is about to call a task's callback finds it ready, being closed, or closed.
  A ready task was woken by somebody since its last execution, or has events, or its deadline is over; the last is what \<^verbatim>\<open>IsExpired\<close>
  tells it, and this is true whenever it does. A closing or closed task was asked to close.
\<close>
theorem io_not_spurious:
  assumes "io_reachable s" and "io_pc s w = ExecCas t b"
  shows "(it_status (io_tasks s t) = IOTASK_READY \<and> (io_asked s t \<or> it_ready (io_tasks s t) \<noteq> 0 \<or> it_expired (io_tasks s t)) \<or>
     it_status (io_tasks s t) \<in> {IOTASK_CLOSING, IOTASK_CLOSED} \<and> it_guard (io_tasks s t)) \<and>
    (it_expired (io_tasks s t) \<longrightarrow> it_deadline (io_tasks s t) \<le> io_now s)"
proof -
  from io_invD(1)[OF io_reachable_inv[OF assms(1)]] obtain L C where K: "core s L C" by blast
  note c = io_exec_cas_at[OF K assms(2)]
  note D = task_okD[OF coreD(7)[OF K, of t]]
  have "it_expired (io_tasks s t) \<Longrightarrow> it_deadline (io_tasks s t) \<le> io_now s" using D(13) c by simp
  moreover have "it_status (io_tasks s t) \<in> {IOTASK_READY, IOTASK_CLOSING, IOTASK_CLOSED}" using D(1) c by simp
  moreover have "it_status (io_tasks s t) \<in> {IOTASK_CLOSING, IOTASK_CLOSED} \<Longrightarrow> it_guard (io_tasks s t)" using D(2) by simp
  ultimately show ?thesis using D(12) by blast
qed

text \<open>
  C6. A close request is carried out once: after \<^verbatim>\<open>PostClose\<close> set the guard, exactly one thread is about to exchange the
  status, or the task is closing, or closed. A posted task that closes is not asleep, it is queued or held by a thread on its way to the
  scheduler or to its last callback; a closed task has no socket, and the kernel does not know it. Further calls of \<^verbatim>\<open>PostClose\<close> change nothing.
\<close>
theorem io_close_carried_out:
  assumes "io_reachable s" and "it_guard (io_tasks s t)"
  shows "((\<exists>!w. io_call s w = CloseXchg t) \<and> it_status (io_tasks s t) \<notin> {IOTASK_CLOSING, IOTASK_CLOSED} \<or>
     (\<forall>w. io_call s w \<noteq> CloseXchg t) \<and> it_status (io_tasks s t) \<in> {IOTASK_CLOSING, IOTASK_CLOSED} \<and>
       (it_sub (io_tasks s t) \<longrightarrow> t \<in> set (io_queued s) \<or> (\<exists>w. io_holds s w t))) \<and>
    (it_status (io_tasks s t) = IOTASK_CLOSED \<longrightarrow> it_closed (io_tasks s t) \<and> \<not> it_sock (io_tasks s t) \<and> io_kernel s t = None) \<and>
    io_close v t s = s"
proof -
  from io_invD(1)[OF io_reachable_inv[OF assms(1)]] obtain L C where K: "core s L C" by blast
  note D = task_okD[OF coreD(7)[OF K, of t]]
  note Q = io_located[OF coreD(5)[OF K, of t]]
  have x: "io_call s w = CloseXchg t \<longleftrightarrow> C t = Some w" for w
    unfolding closerD[OF coreD(6)[OF K, of t], symmetric] by (cases "io_call s w") simp_all
  have away: "t \<in> set (io_queued s) \<or> (\<exists>w. io_holds s w t)" if "it_sub (io_tasks s t)" "it_status (io_tasks s t) \<noteq> IOTASK_WAITING"
  proof -
    have "L t \<noteq> Free" "L t \<noteq> Asleep" using that D(1,4) by auto
    then show ?thesis using Q(1) Q(2) by (cases "L t") auto
  qed
  have closed: "it_status (io_tasks s t) = IOTASK_CLOSED \<longrightarrow> it_closed (io_tasks s t) \<and> \<not> it_sock (io_tasks s t) \<and> io_kernel s t = None"
    using D(3,6,7) by auto
  have same: "io_close v t s = s" using assms(2) by (simp add: io_close_def)
  show ?thesis
  proof (cases "C t")
    case None
    then have "it_status (io_tasks s t) \<in> {IOTASK_CLOSING, IOTASK_CLOSED}" using D(2) assms(2) by simp
    then show ?thesis using away closed same None unfolding x by auto
  next
    case (Some u)
    then have "it_status (io_tasks s t) \<notin> {IOTASK_CLOSING, IOTASK_CLOSED}" using D(14) by simp
    then show ?thesis using closed same Some unfolding x by auto
  qed
qed

lemma io_event_kept_witness:
  "\<exists>s :: nat io. io_reachable s \<and> io_owed s 7 = 1 \<and> it_sub (io_tasks s 7) \<and> it_status (io_tasks s 7) \<noteq> IOTASK_WAITING"
proof -
  obtain s :: "nat io" where s: "io_run 1 ([EvPost 1 7 True, EvCall 1, EvCall 1, EvCall 1, EvKernel 7 1, EvWork 0, EvWork 0, EvEpoll 0 [7] True] @
      replicate 13 (EvWork 0)) = Some s" "io_owed s 7 = 1"
    by (simp add: io_eval)
  note r = io_run_reachable[OF s(1)]
  from io_event_kept[OF r, of 7] s(2) have "it_sub (io_tasks s 7)" "it_status (io_tasks s 7) \<noteq> IOTASK_WAITING" by simp_all
  with r s(2) show ?thesis by blast
qed

lemma io_not_spurious_witness:
  "\<exists>s :: nat io. io_reachable s \<and> io_pc s 0 = ExecCas 7 0 \<and> (io_asked s 7 \<or> it_ready (io_tasks s 7) \<noteq> 0 \<or> it_expired (io_tasks s 7))"
proof -
  obtain s :: "nat io" where s: "io_run 1 ([EvPost 1 7 True, EvCall 1, EvCall 1, EvCall 1, EvKernel 7 1, EvWork 0, EvWork 0, EvEpoll 0 [7] True] @
      replicate 13 (EvWork 0)) = Some s" "io_pc s 0 = ExecCas 7 0" "it_status (io_tasks s 7) = IOTASK_READY"
    by (simp add: io_eval)
  note r = io_run_reachable[OF s(1)]
  from io_not_spurious[OF r s(2)] r s(2,3) show ?thesis by auto
qed

text \<open>A task that sleeps is closed by a client, and gets to its last callback.\<close>

lemma io_close_carried_out_witness:
  "\<exists>s :: nat io. io_reachable s \<and> it_guard (io_tasks s 7) \<and> it_status (io_tasks s 7) = IOTASK_CLOSED \<and> io_kernel s 7 = None \<and>
     io_pc s 0 = CloseCallback 7 0"
proof -
  obtain s :: "nat io" where s: "io_run 1 ([EvPost 1 7 True, EvCall 1, EvCall 1, EvCall 1, EvWork 0, EvWork 0, EvEpoll 0 [] True] @
      replicate 8 (EvWork 0) @ [EvClose 1 7, EvCall 1, EvCall 1, EvCall 1, EvPollEnd 0, EvEpoll 0 [] True] @ replicate 15 (EvWork 0)) = Some s"
    "it_guard (io_tasks s 7)" "it_status (io_tasks s 7) = IOTASK_CLOSED" "io_pc s 0 = CloseCallback 7 0"
    by (simp add: io_eval)
  note r = io_run_reachable[OF s(1)]
  from io_close_carried_out[OF r s(2)] r s(2-4) show ?thesis by blast
qed

end
