(* ===== verification/IO_Operations.thy ===== *)
theory IO_Operations
  imports IO_Core Errors
begin

text \<open>
  The operations of \<^verbatim>\<open>IOEvent\<close> (\<^verbatim>\<open>aio/IOTask.h\<close>), and the IO operations of an \<^verbatim>\<open>IOTask\<close> over epoll (\<^verbatim>\<open>aio/IOTask.cpp\<close>,
  \<^verbatim>\<open>aio/IOTask_epoll.cpp\<close>): what a callback can do with the socket of its task. While a callback runs, the members that
  these operations use belong to its thread (theorem \<open>io_safe\<close>), so the operations are functions. An event
  belongs to the owner of the task and has a name \<open>'e\<close>; the task points to the events that wait for the kernel. What a
  system call returns is an argument.
\<close>

section \<open>Events\<close>

text \<open>The union of the byte count and the error is two fields, of which the flag \<^verbatim>\<open>myIsError\<close> says which one is valid.\<close>

record io_event =
  ev_locked :: bool
  ev_empty :: bool
  ev_error :: bool
  ev_code :: error_code
  ev_bytes :: u32

definition ev_reset :: io_event where
  "ev_reset = \<lparr>ev_locked = False, ev_empty = True, ev_error = False, ev_code = ERR_BOX_NONE, ev_bytes = 0\<rparr>"

definition ev_lock :: "io_event \<Rightarrow> io_event option" where
  "ev_lock e = do { mg_assert (\<not> ev_locked e); Some (e\<lparr>ev_locked := True\<rparr>) }"

definition ev_unlock :: "io_event \<Rightarrow> io_event option" where
  "ev_unlock e = do { mg_assert (ev_locked e); Some (e\<lparr>ev_locked := False\<rparr>) }"

definition ev_unlock_forced :: "io_event \<Rightarrow> io_event" where
  "ev_unlock_forced e = e\<lparr>ev_locked := False\<rparr>"

definition ev_return_error :: "error_code \<Rightarrow> io_event \<Rightarrow> io_event" where
  "ev_return_error c e = e\<lparr>ev_empty := False, ev_error := True, ev_code := c\<rparr>"

definition ev_return_bytes :: "u32 \<Rightarrow> io_event \<Rightarrow> io_event" where
  "ev_return_bytes n e = e\<lparr>ev_empty := False, ev_error := False, ev_bytes := n\<rparr>"

definition ev_return_empty :: "io_event \<Rightarrow> io_event option" where
  "ev_return_empty e = do { mg_assert (\<not> ev_locked e); Some (e\<lparr>ev_empty := True\<rparr>) }"

definition ev_is_empty :: "io_event \<Rightarrow> bool option" where
  "ev_is_empty e = do { mg_assert (\<not> ev_locked e); Some (ev_empty e) }"

definition ev_is_error :: "io_event \<Rightarrow> bool option" where
  "ev_is_error e = do { mg_assert (\<not> ev_locked e); mg_assert (\<not> ev_empty e); Some (ev_error e) }"

definition ev_get_error :: "io_event \<Rightarrow> error_code option" where
  "ev_get_error e = do { mg_assert (\<not> ev_locked e); mg_assert (\<not> ev_empty e); mg_assert (ev_error e); Some (ev_code e) }"

definition ev_pop_error :: "io_event \<Rightarrow> (error_code \<times> io_event) option" where
  "ev_pop_error e =
     do { mg_assert (\<not> ev_locked e); mg_assert (\<not> ev_empty e); mg_assert (ev_error e); Some (ev_code e, e\<lparr>ev_empty := True\<rparr>) }"

definition ev_get_bytes :: "io_event \<Rightarrow> u32 option" where
  "ev_get_bytes e = do { mg_assert (\<not> ev_locked e); mg_assert (\<not> ev_empty e); mg_assert (\<not> ev_error e); Some (ev_bytes e) }"

definition ev_pop_bytes :: "io_event \<Rightarrow> (u32 \<times> io_event) option" where
  "ev_pop_bytes e =
     do { mg_assert (\<not> ev_locked e); mg_assert (\<not> ev_empty e); mg_assert (\<not> ev_error e); Some (ev_bytes e, e\<lparr>ev_empty := True\<rparr>) }"

lemmas ev_defs = ev_reset_def ev_lock_def ev_unlock_def ev_unlock_forced_def ev_return_error_def ev_return_bytes_def ev_return_empty_def
  ev_is_empty_def ev_is_error_def ev_get_error_def ev_pop_error_def ev_get_bytes_def ev_pop_bytes_def

section \<open>The task of a running callback\<close>

text \<open>
  The members of \<^verbatim>\<open>IOTask\<close> that its callback can reach, and the events. A socket is a number.
\<close>

record 'e task_io =
  tk_sock :: "nat option"
  tk_ready :: u32
  tk_in :: "'e option"
  tk_out :: "'e option"
  tk_closed :: bool
  tk_deadline :: u64
  tk_event :: "'e \<Rightarrow> io_event"

definition EPOLLERR :: u32 where "EPOLLERR = 8"
definition EPOLLHUP :: u32 where "EPOLLHUP = 16"

text \<open>
  What a system call returned: a count, a socket or zero; \<^verbatim>\<open>EWOULDBLOCK\<close>, \<^verbatim>\<open>EAGAIN\<close> or, from \<^verbatim>\<open>connect\<close>,
  \<^verbatim>\<open>EINPROGRESS\<close>; another error.
\<close>

datatype sys_result = SysOk nat | SysAgain | SysFail error_code

definition tk_set :: "'e \<Rightarrow> io_event \<Rightarrow> 'e task_io \<Rightarrow> 'e task_io" where
  "tk_set v e k = k\<lparr>tk_event := (tk_event k)(v := e)\<rparr>"

definition save_event_writable :: "'e task_io \<Rightarrow> 'e task_io" where
  "save_event_writable k = k\<lparr>tk_ready := tk_ready k OR EPOLLOUT\<rparr>"

definition save_event_readable :: "'e task_io \<Rightarrow> 'e task_io" where
  "save_event_readable k = k\<lparr>tk_ready := tk_ready k OR EPOLLIN\<rparr>"

definition task_set_deadline :: "u64 \<Rightarrow> 'e task_io \<Rightarrow> 'e task_io" where
  "task_set_deadline d k = (if d < tk_deadline k then k\<lparr>tk_deadline := d\<rparr> else k)"

definition task_reschedule :: "'e task_io \<Rightarrow> 'e task_io" where
  "task_reschedule k = k\<lparr>tk_deadline := 0\<rparr>"

text \<open>The pending events of a task without a socket are none (\<open>io_safe\<close>), so of the assertions of the registration one is left.\<close>

definition task_attach_socket :: "nat \<Rightarrow> 'e task_io \<Rightarrow> 'e task_io option" where
  "task_attach_socket s k =
     do { mg_assert (\<not> tk_closed k);
          mg_assert (tk_sock k = None);
          mg_assert (tk_ready k = 0);
          Some (k\<lparr>tk_sock := Some s\<rparr>) }"

definition task_send :: "sys_result \<Rightarrow> 'e \<Rightarrow> 'e task_io \<Rightarrow> (bool \<times> 'e task_io) option" where
  "task_send rc v k =
     do { mg_assert (\<not> ev_locked (tk_event k v));
          case rc of
            SysOk n \<Rightarrow>
              do { mg_assert (n > 0);
                   Some (True, tk_set v (ev_return_bytes (of_nat n) (tk_event k v)) (save_event_writable k)) }
          | SysFail c \<Rightarrow> Some (False, tk_set v (ev_return_error c (tk_event k v)) k)
          | SysAgain \<Rightarrow>
              do { e \<leftarrow> ev_return_empty (tk_event k v);
                   e \<leftarrow> ev_lock e;
                   mg_assert (tk_out k = None);
                   Some (True, (tk_set v e k)\<lparr>tk_out := Some v\<rparr>) } }"

definition task_recv :: "sys_result \<Rightarrow> 'e \<Rightarrow> 'e task_io \<Rightarrow> (bool \<times> 'e task_io) option" where
  "task_recv rc v k =
     do { mg_assert (\<not> ev_locked (tk_event k v));
          case rc of
            SysOk n \<Rightarrow> Some (True, tk_set v (ev_return_bytes (of_nat n) (tk_event k v)) (save_event_readable k))
          | SysFail c \<Rightarrow> Some (False, tk_set v (ev_return_error c (tk_event k v)) k)
          | SysAgain \<Rightarrow>
              do { e \<leftarrow> ev_return_empty (tk_event k v);
                   e \<leftarrow> ev_lock e;
                   mg_assert (tk_in k = None);
                   Some (True, (tk_set v e k)\<lparr>tk_in := Some v\<rparr>) } }"

definition task_connect_start :: "nat \<Rightarrow> sys_result \<Rightarrow> 'e \<Rightarrow> 'e task_io \<Rightarrow> (bool \<times> 'e task_io) option" where
  "task_connect_start s rc v k =
     do { mg_assert (\<not> ev_locked (tk_event k v));
          mg_assert (tk_sock k = None);
          case rc of
            SysOk n \<Rightarrow>
              do { k1 \<leftarrow> task_attach_socket s k;
                   Some (True, tk_set v (ev_return_bytes 0 (tk_event k v)) k1) }
          | SysFail c \<Rightarrow> Some (False, tk_set v (ev_return_error c (tk_event k v)) k)
          | SysAgain \<Rightarrow>
              do { k1 \<leftarrow> task_attach_socket s k;
                   e \<leftarrow> ev_lock (tk_event k v);
                   mg_assert (tk_out k = None);
                   Some (True, (tk_set v e k1)\<lparr>tk_out := Some v\<rparr>) } }"

text \<open>
  With a socket that is created here. The third result is whether the socket was closed again, \<open>cr\<close> is what its creation returned.
\<close>

definition task_connect_host :: "error_code + nat \<Rightarrow> sys_result \<Rightarrow> 'e \<Rightarrow> 'e task_io \<Rightarrow> (bool \<times> 'e task_io \<times> bool) option" where
  "task_connect_host cr rc v k =
     (case cr of
        Inl c \<Rightarrow> Some (False, tk_set v (ev_return_error c (tk_event k v)) k, False)
      | Inr s \<Rightarrow>
          do { (ok, k1) \<leftarrow> task_connect_start s rc v k;
               if ok then Some (True, k1, False)
               else do { er \<leftarrow> ev_is_error (tk_event k1 v);
                         mg_assert er;
                         Some (False, k1, tk_sock k1 = None) } })"

definition task_connect_update :: "'e \<Rightarrow> 'e task_io \<Rightarrow> (bool \<times> 'e task_io) option" where
  "task_connect_update v k =
     do { mg_assert (tk_sock k \<noteq> None);
          if ev_locked (tk_event k v) then Some (True, k)
          else do { em \<leftarrow> ev_is_empty (tk_event k v);
                    mg_assert em;
                    Some (True, tk_set v (ev_return_bytes 0 (tk_event k v)) k) } }"

text \<open>\<^verbatim>\<open>SocketIsAcceptErrorCritical\<close> on Linux.\<close>

definition accept_error_critical :: "error_code \<Rightarrow> bool option" where
  "accept_error_critical c =
     do { mg_assert (c \<noteq> ERR_BOX_NONE);
          mg_assert (c \<noteq> ERR_SYS_WOULDBLOCK);
          Some (c \<notin> {ERR_NET_DOWN, ERR_NET_PROTOCOL, ERR_NET_ABORTED, ERR_NET_HOST_UNREACHABLE, ERR_SYS_NOT_SUPPORTED, ERR_SYS_INTERRUPTED}) }"

definition task_accept :: "sys_result \<Rightarrow> 'e \<Rightarrow> 'e task_io \<Rightarrow> (nat option \<times> 'e task_io) option" where
  "task_accept rc v k =
     (if ev_locked (tk_event k v) then Some (None, k)
      else do { em \<leftarrow> ev_is_empty (tk_event k v);
                mg_assert em;
                mg_assert (tk_in k = None);
                case rc of
                  SysOk s \<Rightarrow> Some (Some s, k)
                | SysAgain \<Rightarrow>
                    do { e \<leftarrow> ev_lock (tk_event k v);
                         Some (None, (tk_set v e k)\<lparr>tk_in := Some v\<rparr>) }
                | SysFail c \<Rightarrow>
                    do { cr \<leftarrow> accept_error_critical c;
                         if cr then Some (None, tk_set v (ev_return_error c (tk_event k v)) k)
                         else do { e \<leftarrow> ev_return_empty (tk_event k v);
                                   Some (None, tk_set v e k) } } })"

text \<open>\<open>st\<close> is the error that the socket reports. The result is the error or none.\<close>

definition unlock_waiting :: "'e option \<Rightarrow> 'e task_io \<Rightarrow> 'e task_io" where
  "unlock_waiting p k = (case p of None \<Rightarrow> k | Some v \<Rightarrow> tk_set v (ev_unlock_forced (tk_event k v)) k)"

definition task_process_args :: "u32 \<Rightarrow> error_code option \<Rightarrow> 'e task_io \<Rightarrow> (error_code option \<times> 'e task_io) option" where
  "task_process_args m st k =
     do { mg_assert (\<not> tk_closed k);
          if m AND (EPOLLERR OR EPOLLHUP) \<noteq> 0
          then Some (Some (case (if tk_sock k \<noteq> None then st else None) of Some c \<Rightarrow> c | None \<Rightarrow> ERR_NET_ABORTED), k)
          else
            let k1 = (if m AND EPOLLOUT \<noteq> 0 then (unlock_waiting (tk_out k) k)\<lparr>tk_out := None\<rparr> else k);
                k2 = (if m AND EPOLLIN \<noteq> 0 then (unlock_waiting (tk_in k1) k1)\<lparr>tk_in := None\<rparr> else k1)
            in Some (None, k2) }"

definition task_dump_ready :: "'e task_io \<Rightarrow> u32 \<times> 'e task_io" where
  "task_dump_ready k = (tk_ready k, k\<lparr>tk_ready := 0\<rparr>)"

definition abort_waiting :: "'e option \<Rightarrow> 'e task_io \<Rightarrow> 'e task_io option" where
  "abort_waiting p k =
     (case p of None \<Rightarrow> Some k
      | Some v \<Rightarrow> do { e \<leftarrow> ev_unlock (ev_return_error ERR_NET_ABORTED (tk_event k v)); Some (tk_set v e k) })"

definition task_close_end :: "'e task_io \<Rightarrow> 'e task_io option" where
  "task_close_end k =
     do { k1 \<leftarrow> abort_waiting (tk_in k) (k\<lparr>tk_ready := 0\<rparr>);
          k2 \<leftarrow> abort_waiting (tk_out k1) (k1\<lparr>tk_in := None\<rparr>);
          Some (k2\<lparr>tk_out := None\<rparr>) }"

lemmas task_io_defs = tk_set_def save_event_writable_def save_event_readable_def task_attach_socket_def task_send_def task_recv_def
  task_connect_start_def task_connect_host_def task_connect_update_def accept_error_critical_def task_accept_def unlock_waiting_def
  task_process_args_def abort_waiting_def task_close_end_def ev_defs

section \<open>The promises of the interface\<close>

text \<open>
  The events that a task waits for are locked and distinct; without a socket there is nothing to wait for.
\<close>

definition task_io_ok :: "'e task_io \<Rightarrow> bool" where
  "task_io_ok k =
     ((\<forall>v. tk_in k = Some v \<or> tk_out k = Some v \<longrightarrow> ev_locked (tk_event k v)) \<and>
      (tk_in k \<noteq> None \<longrightarrow> tk_in k \<noteq> tk_out k) \<and>
      (tk_sock k = None \<and> \<not> tk_closed k \<longrightarrow> tk_in k = None \<and> tk_out k = None \<and> tk_ready k = 0))"

text \<open>What the header promises for every operation: the outcomes that the caller has to tell apart.\<close>

definition outcome_ok :: "sys_result \<Rightarrow> 'e \<Rightarrow> nat \<Rightarrow> 'e task_io \<Rightarrow> bool \<times> 'e task_io \<Rightarrow> bool" where
  "outcome_ok rc v n k r =
     (case r of (ok, k') \<Rightarrow>
        (case rc of
           SysOk _ \<Rightarrow> ok \<and> \<not> ev_locked (tk_event k' v) \<and> map_option fst (ev_pop_bytes (tk_event k' v)) = Some (of_nat n)
         | SysFail c \<Rightarrow> \<not> ok \<and> \<not> ev_locked (tk_event k' v) \<and> map_option fst (ev_pop_error (tk_event k' v)) = Some c
         | SysAgain \<Rightarrow> ok \<and> ev_locked (tk_event k' v) \<and> (tk_in k' = Some v \<or> tk_out k' = Some v)) \<and>
        (\<forall>u. u \<noteq> v \<longrightarrow> tk_event k' u = tk_event k u))"

fun sys_count :: "sys_result \<Rightarrow> nat" where
  "sys_count (SysOk n) = n" | "sys_count _ = 0"

lemma task_send_outcome:
  assumes "task_io_ok k" and "\<not> ev_locked (tk_event k v)" and "tk_out k = None" and "rc \<noteq> SysOk 0" and "tk_sock k \<noteq> None"
  shows "\<exists>r. task_send rc v k = Some r \<and> task_io_ok (snd r) \<and> outcome_ok rc v (sys_count rc) k r"
  using assms by (cases rc) (auto simp: task_io_defs task_io_ok_def outcome_ok_def)

lemma task_recv_outcome:
  assumes "task_io_ok k" and "\<not> ev_locked (tk_event k v)" and "tk_in k = None" and "tk_sock k \<noteq> None"
  shows "\<exists>r. task_recv rc v k = Some r \<and> task_io_ok (snd r) \<and> outcome_ok rc v (sys_count rc) k r"
  using assms by (cases rc) (auto simp: task_io_defs task_io_ok_def outcome_ok_def)

lemma task_connect_outcome:
  assumes "task_io_ok k" and "\<not> ev_locked (tk_event k v)" and "tk_sock k = None" and "\<not> tk_closed k"
    and "rc = SysAgain \<longrightarrow> ev_empty (tk_event k v)"
  shows "\<exists>r. task_connect_start s rc v k = Some r \<and> task_io_ok (snd r) \<and> outcome_ok rc v 0 k r \<and>
    tk_sock (snd r) = (if fst r then Some s else None) \<and> task_connect_host (Inr s) rc v k = Some (fst r, snd r, \<not> fst r)"
  using assms by (cases rc) (auto simp: task_io_defs task_io_ok_def outcome_ok_def)

lemma task_process_args_unlocks:
  assumes "task_io_ok k" and "\<not> tk_closed k" and "m AND (EPOLLERR OR EPOLLHUP) = 0"
  shows "\<exists>k'. task_process_args m st k = Some (None, k') \<and> task_io_ok k' \<and>
    tk_out k' = (if m AND EPOLLOUT \<noteq> 0 then None else tk_out k) \<and> tk_in k' = (if m AND EPOLLIN \<noteq> 0 then None else tk_in k) \<and>
    (\<forall>v. tk_event k' v = (if tk_out k = Some v \<and> m AND EPOLLOUT \<noteq> 0 \<or> tk_in k = Some v \<and> m AND EPOLLIN \<noteq> 0
       then ev_unlock_forced (tk_event k v) else tk_event k v))"
  using assms
  by (cases "tk_in k"; cases "tk_out k") (auto simp: task_process_args_def unlock_waiting_def tk_set_def task_io_ok_def Let_def ev_unlock_forced_def)

lemma task_close_end_unlocks:
  assumes "task_io_ok k"
  shows "\<exists>k'. task_close_end k = Some k' \<and> tk_in k' = None \<and> tk_out k' = None \<and> tk_ready k' = 0 \<and>
    (\<forall>v. if tk_in k = Some v \<or> tk_out k = Some v then \<not> ev_locked (tk_event k' v) \<and> ev_get_error (tk_event k' v) = Some ERR_NET_ABORTED
         else tk_event k' v = tk_event k v)"
  using assms by (cases "tk_in k"; cases "tk_out k") (auto simp: task_io_defs task_io_ok_def)



text \<open>The errors that \<^verbatim>\<open>accept\<close> may forward from a connection do not stop a server.\<close>

lemma accept_errors_retried:
  "\<forall>e \<in> {ENETDOWN, EPROTO, ENOPROTOOPT, EHOSTDOWN, ENONET, EHOSTUNREACH, EOPNOTSUPP, ENETUNREACH, ECONNABORTED, EINTR}.
     accept_error_critical (error_code_from_errno linux_errno False (linux_errno e)) = Some False"
  by code_simp

end
