(* ===== verification/Tcp_Server.thy ===== *)
theory Tcp_Server
  imports IO_Operations
begin

text \<open>
  \<^verbatim>\<open>aio/TCPServer.cpp\<close>: a listening socket that is served by a task. The calls of the clients are atomic, because they hold
  the mutex; so is a callback of the task, except the last one, which lets go of the mutex before it gives up the
  subscription. Of the IO core the model has what \<open>IO_Correct\<close> shows: callbacks do not overlap, a close that was asked for closes
  the socket between two callbacks and is followed by one last callback.
\<close>

section \<open>State and operations\<close>

datatype tcp_server_state =
  TCP_SERVER_STATE_NEW | TCP_SERVER_STATE_BOUND | TCP_SERVER_STATE_LISTENING | TCP_SERVER_STATE_CLOSING | TCP_SERVER_STATE_CLOSED

text \<open>
  The members; of the subscription only whether there is one. The fields of the second group are about the task: it is posted, a close
  was asked for, a wakeup is on its way, its last callback has let go of the mutex. The last group is history: the sockets
  given to \<^verbatim>\<open>OnAccept\<close>, and the number of calls of \<^verbatim>\<open>OnClose\<close>.
\<close>

record tcp_server =
  sv_state :: tcp_server_state
  sv_task :: "unit task_io"
  sv_sub :: bool
  sv_bound :: "nat option"
  sv_posted :: bool
  sv_close_asked :: bool
  sv_woken :: bool
  sv_leaving :: bool
  sv_accepted :: "nat list"
  sv_closes :: nat

definition server_new :: tcp_server where
  "server_new =
     \<lparr>sv_state = TCP_SERVER_STATE_NEW,
      sv_task = \<lparr>tk_sock = None, tk_ready = 0, tk_in = None, tk_out = None, tk_closed = False, tk_deadline = TIME_INFINITE, tk_event = \<lambda>_. ev_reset\<rparr>,
      sv_sub = False, sv_bound = None, sv_posted = False, sv_close_asked = False, sv_woken = False, sv_leaving = False,
      sv_accepted = [], sv_closes = 0\<rparr>"

text \<open>\<open>r\<close> is what \<^verbatim>\<open>SocketBind\<close> returned, and \<open>ok\<close> what \<^verbatim>\<open>SocketListen\<close> did.\<close>

definition server_bind :: "nat option \<Rightarrow> tcp_server \<Rightarrow> (bool \<times> tcp_server) option" where
  "server_bind r s =
     do { mg_assert (sv_state s = TCP_SERVER_STATE_NEW);
          Some (case r of
                  None \<Rightarrow> (False, s)
                | Some k \<Rightarrow> (True, s\<lparr>sv_state := TCP_SERVER_STATE_BOUND, sv_bound := Some k\<rparr>)) }"

definition server_listen :: "bool \<Rightarrow> tcp_server \<Rightarrow> (bool \<times> tcp_server) option" where
  "server_listen ok s =
     do { mg_assert (sv_state s = TCP_SERVER_STATE_BOUND);
          mg_assert (\<not> sv_sub s);
          mg_assert (sv_bound s \<noteq> None);
          if \<not> ok then Some (False, s)
          else do { mg_assert (\<not> sv_posted s \<and> tk_sock (sv_task s) = None \<and> \<not> tk_closed (sv_task s));
                    Some (True, s\<lparr>sv_state := TCP_SERVER_STATE_LISTENING, sv_sub := True, sv_bound := None,
                            sv_task := (sv_task s)\<lparr>tk_sock := sv_bound s\<rparr>, sv_posted := True, sv_woken := True\<rparr>) } }"

definition server_post_close :: "tcp_server \<Rightarrow> tcp_server option" where
  "server_post_close s =
     (if sv_state s = TCP_SERVER_STATE_LISTENING
      then Some (s\<lparr>sv_state := TCP_SERVER_STATE_CLOSING, sv_close_asked := True\<rparr>)
      else do { mg_assert (\<not> sv_sub s);
                Some (s\<lparr>sv_state := TCP_SERVER_STATE_CLOSED, sv_bound := None\<rparr>) })"

definition server_destroy :: "tcp_server \<Rightarrow> unit option" where
  "server_destroy s =
     do { mg_assert (sv_state s = TCP_SERVER_STATE_CLOSED \<or> sv_state s = TCP_SERVER_STATE_NEW);
          mg_assert (\<not> sv_sub s) }"

text \<open>A callback before the close: \<open>m\<close> are the events, \<open>rc\<close> is what \<^verbatim>\<open>accept4\<close> returned.\<close>

definition server_on_event :: "u32 \<Rightarrow> error_code option \<Rightarrow> sys_result \<Rightarrow> tcp_server \<Rightarrow> tcp_server option" where
  "server_on_event m st rc s =
     do { (er, k) \<leftarrow> task_process_args m st (sv_task s);
          mg_assert (er = None);
          (peer, k) \<leftarrow> task_accept rc () k;
          if peer = None \<and> ev_locked (tk_event k ()) then Some (s\<lparr>sv_task := k\<rparr>)
          else do { em \<leftarrow> ev_is_empty (tk_event k ());
                    mg_assert em;
                    Some (s\<lparr>sv_task := task_reschedule k,
                            sv_accepted := sv_accepted s @ (case peer of None \<Rightarrow> [] | Some p \<Rightarrow> [p])\<rparr>) } }"

text \<open>The last callback, up to where it unlocks the mutex, and the rest of it.\<close>

definition server_on_closed :: "tcp_server \<Rightarrow> tcp_server option" where
  "server_on_closed s =
     do { mg_assert (sv_state s = TCP_SERVER_STATE_CLOSING);
          Some (s\<lparr>sv_state := TCP_SERVER_STATE_CLOSED, sv_leaving := True\<rparr>) }"

definition server_leave :: "tcp_server \<Rightarrow> tcp_server option" where
  "server_leave s =
     do { mg_assert (sv_sub s);
          Some (s\<lparr>sv_sub := False, sv_leaving := False, sv_closes := sv_closes s + 1\<rparr>) }"

section \<open>Runs\<close>

text \<open>
  The task runs when it was woken up, has events, or its deadline is over; before each run its saved events are taken and its deadline is
  reset (\<^verbatim>\<open>IOTask::PrivExecute\<close>). A listening socket reports no error, and \<^verbatim>\<open>accept\<close> no critical one: the server stops
  the program then. The result \<open>None\<close> is a failed assertion.
\<close>

definition server_run :: "u32 \<Rightarrow> error_code option \<Rightarrow> sys_result \<Rightarrow> tcp_server \<Rightarrow> tcp_server option" where
  "server_run m st rc s =
     server_on_event m st rc (s\<lparr>sv_task := (sv_task s)\<lparr>tk_ready := 0, tk_deadline := TIME_INFINITE\<rparr>, sv_woken := False\<rparr>)"

definition server_run_closed :: "tcp_server \<Rightarrow> tcp_server option" where
  "server_run_closed s =
     do { k \<leftarrow> task_close_end (sv_task s); server_on_closed (s\<lparr>sv_task := k, sv_posted := False\<rparr>) }"

definition server_task_close :: "tcp_server \<Rightarrow> tcp_server" where
  "server_task_close s = s\<lparr>sv_task := (sv_task s)\<lparr>tk_closed := True, tk_sock := None\<rparr>\<rparr>"

fun peaceful :: "u32 \<Rightarrow> sys_result \<Rightarrow> bool" where
  "peaceful m (SysFail c) = (m AND (EPOLLERR OR EPOLLHUP) = 0 \<and> accept_error_critical c = Some False)"
| "peaceful m rc = (m AND (EPOLLERR OR EPOLLHUP) = 0)"

inductive server_step :: "tcp_server \<Rightarrow> tcp_server option \<Rightarrow> bool" where
  bind: "sv_state s = TCP_SERVER_STATE_NEW \<Longrightarrow> server_step s (map_option snd (server_bind r s))"
| listen: "sv_state s = TCP_SERVER_STATE_BOUND \<Longrightarrow> server_step s (map_option snd (server_listen ok s))"
| run: "sv_posted s \<Longrightarrow> \<not> tk_closed (sv_task s) \<Longrightarrow> peaceful m rc \<Longrightarrow> server_step s (server_run m st rc s)"
| task_close: "sv_posted s \<Longrightarrow> sv_close_asked s \<Longrightarrow> \<not> tk_closed (sv_task s) \<Longrightarrow> server_step s (Some (server_task_close s))"
| run_closed: "sv_posted s \<Longrightarrow> tk_closed (sv_task s) \<Longrightarrow> server_step s (server_run_closed s)"
| leave: "sv_leaving s \<Longrightarrow> server_step s (server_leave s)"
| close: "sv_state s \<noteq> TCP_SERVER_STATE_CLOSING \<and> \<not> sv_leaving s \<Longrightarrow> server_step s (server_post_close s)"

inductive server_reachable :: "tcp_server \<Rightarrow> bool" where
  new: "server_reachable server_new"
| step: "server_reachable s \<Longrightarrow> server_step s (Some s') \<Longrightarrow> server_reachable s'"

section \<open>Correctness\<close>

text \<open>The task waits for the kernel, or will run again.\<close>

definition server_serves :: "tcp_server \<Rightarrow> bool" where
  "server_serves s = (tk_in (sv_task s) = Some () \<or> tk_deadline (sv_task s) = 0 \<or> sv_woken s)"

definition server_inv :: "tcp_server \<Rightarrow> bool" where
  "server_inv s =
    (task_io_ok (sv_task s) \<and> tk_out (sv_task s) = None \<and>
     (ev_locked (tk_event (sv_task s) ()) \<longleftrightarrow> tk_in (sv_task s) = Some ()) \<and>
     (sv_posted s \<longrightarrow> ev_empty (tk_event (sv_task s) ())) \<and>
     (case sv_state s of
        TCP_SERVER_STATE_NEW \<Rightarrow> sv_task s = sv_task server_new \<and> \<not> sv_sub s \<and> sv_bound s = None \<and> \<not> sv_posted s \<and> \<not> sv_close_asked s \<and>
          \<not> sv_leaving s \<and> sv_closes s = 0
      | TCP_SERVER_STATE_BOUND \<Rightarrow> sv_task s = sv_task server_new \<and> \<not> sv_sub s \<and> sv_bound s \<noteq> None \<and> \<not> sv_posted s \<and> \<not> sv_close_asked s \<and>
          \<not> sv_leaving s \<and> sv_closes s = 0
      | TCP_SERVER_STATE_LISTENING \<Rightarrow> sv_sub s \<and> sv_posted s \<and> \<not> sv_close_asked s \<and> \<not> tk_closed (sv_task s) \<and> tk_sock (sv_task s) \<noteq> None \<and>
          server_serves s \<and> \<not> sv_leaving s \<and> sv_closes s = 0
      | TCP_SERVER_STATE_CLOSING \<Rightarrow> sv_sub s \<and> sv_posted s \<and> sv_close_asked s \<and> (tk_closed (sv_task s) \<or> tk_sock (sv_task s) \<noteq> None) \<and>
          \<not> sv_leaving s \<and> sv_closes s = 0
      | TCP_SERVER_STATE_CLOSED \<Rightarrow> \<not> sv_posted s \<and> (sv_sub s \<longleftrightarrow> sv_leaving s) \<and> sv_closes s \<le> 1 \<and> (sv_leaving s \<longrightarrow> sv_closes s = 0)))"

text \<open>The task of a server between two callbacks.\<close>

definition accepts :: "unit task_io \<Rightarrow> bool" where
  "accepts k = (task_io_ok k \<and> tk_out k = None \<and> (ev_locked (tk_event k ()) \<longleftrightarrow> tk_in k = Some ()) \<and> ev_empty (tk_event k ()) \<and>
     \<not> tk_closed k \<and> tk_sock k \<noteq> None)"

lemma accepts_args:
  assumes "accepts k" and "m AND (EPOLLERR OR EPOLLHUP) = 0"
  shows "\<exists>k'. task_process_args m st k = Some (None, k') \<and> accepts k'"
proof -
  obtain k' where k': "task_process_args m st k = Some (None, k')" "task_io_ok k'"
    using task_process_args_unlocks[of k m st] assms by (auto simp: accepts_def)
  then have "tk_out k' = None \<and> (ev_locked (tk_event k' ()) \<longleftrightarrow> tk_in k' = Some ()) \<and> ev_empty (tk_event k' ()) \<and> \<not> tk_closed k' \<and> tk_sock k' \<noteq> None"
    using assms by (cases "tk_in k") (auto simp: accepts_def task_process_args_def unlock_waiting_def tk_set_def ev_unlock_forced_def Let_def split: if_splits)
  with k' show ?thesis by (auto simp: accepts_def)
qed

lemma accepts_accept:
  assumes "accepts k" and "peaceful m rc"
  shows "\<exists>p k'. task_accept rc () k = Some (p, k') \<and> accepts k' \<and> (p \<noteq> None \<longrightarrow> \<not> ev_locked (tk_event k' ()))"
proof (cases "ev_locked (tk_event k ())")
  case True
  then show ?thesis using assms(1) by (simp add: task_accept_def)
next
  case False
  then have f: "tk_in k = None" "ev_empty (tk_event k ())" using assms(1) by (cases "tk_in k"; simp add: accepts_def)+
  show ?thesis
  proof (cases rc)
    case (SysOk n)
    then show ?thesis using assms(1) False f by (simp add: task_accept_def ev_is_empty_def)
  next
    case SysAgain
    then show ?thesis using assms(1) False f
      by (simp add: task_accept_def ev_is_empty_def ev_lock_def accepts_def task_io_ok_def tk_set_def)
  next
    case (SysFail c)
    then show ?thesis using assms False f
      by (simp add: task_accept_def ev_is_empty_def ev_return_empty_def accepts_def task_io_ok_def tk_set_def)
  qed
qed

lemma server_open:
  assumes "server_inv s" and "sv_posted s" and "\<not> tk_closed (sv_task s)"
  shows "sv_state s = TCP_SERVER_STATE_LISTENING \<or> sv_state s = TCP_SERVER_STATE_CLOSING" "accepts (sv_task s)"
  using assms by (cases "sv_state s"; simp add: server_inv_def accepts_def)+

lemma server_run_serves:
  assumes "server_inv s" and "sv_posted s" and "\<not> tk_closed (sv_task s)" and "peaceful m rc"
  shows "\<exists>s'. server_run m st rc s = Some s' \<and> server_inv s' \<and> server_serves s'"
proof -
  note O = server_open[OF assms(1-3)]
  have m: "m AND (EPOLLERR OR EPOLLHUP) = 0" using assms(4) by (cases rc) auto
  let ?k0 = "(sv_task s)\<lparr>tk_ready := 0, tk_deadline := TIME_INFINITE\<rparr>"
  have "accepts ?k0" using O(2) by (auto simp: accepts_def task_io_ok_def)
  from accepts_args[OF this m] obtain k1 where k1: "task_process_args m st ?k0 = Some (None, k1)" "accepts k1" by blast
  from accepts_accept[OF k1(2) assms(4)] obtain p k2 where
    k2: "task_accept rc () k1 = Some (p, k2)" "accepts k2" "p \<noteq> None \<longrightarrow> \<not> ev_locked (tk_event k2 ())" by blast
  have r: "accepts (task_reschedule k2)" using k2(2) by (simp add: accepts_def task_io_ok_def task_reschedule_def)
  let ?s0 = "s\<lparr>sv_task := ?k0, sv_woken := False\<rparr>"
  have inv: "server_inv (?s0\<lparr>sv_task := k, sv_accepted := ac\<rparr>)" if "accepts k" "tk_in k = Some () \<or> tk_deadline k = 0" for k ac
    using O(1) that assms(1) by (auto simp: server_inv_def accepts_def server_serves_def)
  show ?thesis
  proof (cases "ev_locked (tk_event k2 ())")
    case True
    then have "p = None" "tk_in k2 = Some ()" using k2(2,3) by (auto simp: accepts_def)
    then show ?thesis using inv[OF k2(2), of "sv_accepted s"] True k1(1) k2(1)
      by (simp add: server_run_def server_on_event_def server_serves_def)
  next
    case False
    then show ?thesis using inv[OF r] k1(1) k2(1,2)
      by (simp add: server_run_def server_on_event_def server_serves_def ev_is_empty_def accepts_def task_reschedule_def)
  qed
qed

lemma server_inv_step:
  assumes "server_inv s" and "server_step s r"
  shows "\<exists>s'. r = Some s' \<and> server_inv s'"
  using assms(2)
proof cases
  case (run m rc st)
  then show ?thesis using server_run_serves[OF assms(1)] by blast
next
  case run_closed
  have st: "sv_state s = TCP_SERVER_STATE_CLOSING" using run_closed assms(1) by (cases "sv_state s") (auto simp: server_inv_def)
  have "task_io_ok (sv_task s)" using assms(1) by (simp add: server_inv_def)
  from task_close_end_unlocks[OF this] obtain k where k: "task_close_end (sv_task s) = Some k" "tk_in k = None" "tk_out k = None" "tk_ready k = 0"
    "\<forall>v. if tk_in (sv_task s) = Some v \<or> tk_out (sv_task s) = Some v then \<not> ev_locked (tk_event k v) \<and> ev_get_error (tk_event k v) = Some ERR_NET_ABORTED
         else tk_event k v = tk_event (sv_task s) v" by blast
  have "\<not> ev_locked (tk_event k ())" using k(5)[rule_format, of "()"] assms(1) by (auto simp: server_inv_def split: if_splits)
  then have "task_io_ok k" using k by (auto simp: task_io_ok_def)
  then show ?thesis using k(1-4) \<open>\<not> ev_locked (tk_event k ())\<close> st assms(1) run_closed(1)
    by (auto simp: server_run_closed_def server_on_closed_def server_inv_def)
qed (use assms(1) in \<open>auto simp: server_inv_def server_bind_def server_listen_def server_task_close_def server_leave_def server_post_close_def
  server_serves_def server_new_def task_io_ok_def ev_reset_def split: option.splits tcp_server_state.splits\<close>)

lemma server_reachable_inv: "server_reachable s \<Longrightarrow> server_inv s"
proof (induction rule: server_reachable.induct)
  case new
  show ?case by (simp add: server_inv_def server_new_def task_io_ok_def ev_reset_def)
next
  case (step s s')
  then show ?case using server_inv_step by blast
qed


text \<open>
  C23. The second close of a server aborts the program: after \<^verbatim>\<open>PostClose\<close> of a listening server, another \<^verbatim>\<open>PostClose\<close>
  that comes before the last callback has given up the subscription fails the assertion that there is none. The last callback
  lets go of the mutex before it does, so even a call that sees the server closed fails.
\<close>
theorem server_second_close_aborts:
  assumes "server_reachable s"
  shows "(sv_state s = TCP_SERVER_STATE_LISTENING \<longrightarrow> (\<exists>s'. server_post_close s = Some s' \<and> server_post_close s' = None)) \<and>
    (sv_leaving s \<longrightarrow> sv_state s = TCP_SERVER_STATE_CLOSED \<and> server_post_close s = None)"
  using server_reachable_inv[OF assms] by (cases "sv_state s"; simp add: server_inv_def server_post_close_def)

text \<open>A server that listens and is served once.\<close>

definition sample_server :: "tcp_server option" where
  "sample_server =
     do { (_, s) \<leftarrow> server_bind (Some 3) server_new; (_, s) \<leftarrow> server_listen True s; server_run 1 None (SysOk 9) s }"

lemma sample_server:
  "\<exists>s. sample_server = Some s \<and> server_reachable s \<and> sv_state s = TCP_SERVER_STATE_LISTENING \<and> sv_accepted s = [9]"
proof -
  obtain s1 where s1: "server_bind (Some 3) server_new = Some (True, s1)" "sv_state s1 = TCP_SERVER_STATE_BOUND"
    by (simp add: server_bind_def server_new_def)
  have r1: "server_reachable s1" using server_reachable.step[OF server_reachable.new, of s1] server_step.bind[of server_new "Some 3"] s1
    by (simp add: server_new_def)
  obtain s2 where s2: "server_listen True s1 = Some (True, s2)" "sv_posted s2" "\<not> tk_closed (sv_task s2)"
    using s1(1) by (auto simp: server_bind_def server_listen_def server_new_def)
  have r2: "server_reachable s2" using server_reachable.step[OF r1, of s2] server_step.listen[OF s1(2), of True] s2(1) by simp
  have p: "peaceful 1 (SysOk 9)" by (simp add: EPOLLERR_def EPOLLHUP_def)
  obtain s3 where s3: "server_run 1 None (SysOk 9) s2 = Some s3" using server_run_serves[OF server_reachable_inv[OF r2] s2(2,3) p] by blast
  have r3: "server_reachable s3" using server_reachable.step[OF r2, of s3] server_step.run[OF s2(2,3) p, of None] s3 by simp
  have "sv_state s3 = TCP_SERVER_STATE_LISTENING \<and> sv_accepted s3 = [9]"
    using s1(1) s2(1) s3
    by (auto simp: server_bind_def server_listen_def server_new_def server_run_def server_on_event_def task_process_args_def unlock_waiting_def
      task_accept_def ev_reset_def ev_is_empty_def EPOLLERR_def EPOLLHUP_def Let_def split: if_splits)
  with s1(1) s2(1) s3 r3 show ?thesis by (simp add: sample_server_def)
qed


lemma server_second_close_aborts_witness:
  "\<exists>s s'. server_reachable s \<and> sv_accepted s = [9] \<and> server_post_close s = Some s' \<and> server_post_close s' = None"
  using sample_server server_second_close_aborts by blast

end
