(* ===== verification/Tcp_Socket.thy ===== *)
theory Tcp_Socket
  imports IO_Operations
begin

text \<open>
  \<^verbatim>\<open>aio/TCPSocketCtl.cpp\<close>, \<^verbatim>\<open>aio/TCPSocketIFace.cpp\<close> and \<^verbatim>\<open>aio/TCPSocket.cpp\<close>: a client socket that is served by a
  task of the IO core. A call of a client is atomic, because it holds the mutex. A callback of the task is a sequence
  of steps with a place between any two of them, where the other threads may call: one step for each section under the mutex,
  each system call, and each part of the code between them that only the callback can see. At the places where the code calls the
  subscription, client code runs inside of the callback.

  Of the other components the model has their contracts. The IO core: callbacks do not overlap, a close that was asked for closes
  the socket between two callbacks and is followed by one last callback (\<open>IO_Correct\<close>); the operations of a task are those of
  \<open>IO_Operations\<close>. The queues for sending and receiving are lists of bytes (\<open>links_send_correct\<close>, \<open>stream_refines\<close>). Results of system calls
  and of the resolver are arguments.
\<close>

section \<open>Control messages\<close>

text \<open>A request of a domain name: not sent, sent, or done with an error or an address.\<close>

datatype domain_request = DomNew | DomSent | DomDone "error_code option"

text \<open>
  The members of \<^verbatim>\<open>TCPSocketCtl\<close>; of the host whether it is set, of the handshake object whether it is there. The event of the
  connect is \<open>ConnectEvent\<close> of the task.
\<close>

record tcp_ctl =
  ct_shutdown :: bool
  ct_connect :: bool
  ct_started :: bool
  ct_host :: bool
  ct_domain :: "domain_request option"
  ct_socket :: "nat option"
  ct_delay :: time_limit
  ct_deadline :: u64
  ct_attach :: bool
  ct_attach_socket :: "nat option"
  ct_handshake :: bool
  ct_handler :: bool

definition ctl_new :: tcp_ctl where
  "ctl_new =
     \<lparr>ct_shutdown = False, ct_connect = False, ct_started = False, ct_host = False, ct_domain = None, ct_socket = None,
      ct_delay = TIME_LIMIT_NONE, ct_deadline = 0, ct_attach = False, ct_attach_socket = None, ct_handshake = False, ct_handler = False\<rparr>"

definition ctl_merge_shutdown :: "tcp_ctl \<Rightarrow> tcp_ctl \<Rightarrow> tcp_ctl" where
  "ctl_merge_shutdown src c = (if ct_shutdown src then c\<lparr>ct_shutdown := True\<rparr> else c)"

definition ctl_merge_attach :: "tcp_ctl \<Rightarrow> tcp_ctl \<Rightarrow> tcp_ctl option" where
  "ctl_merge_attach src c =
     (if ct_attach src then do { mg_assert (\<not> ct_attach c); Some (c\<lparr>ct_attach := True, ct_attach_socket := ct_attach_socket src\<rparr>) }
      else Some c)"

definition ctl_merge_connect :: "tcp_ctl \<Rightarrow> tcp_ctl \<Rightarrow> tcp_ctl option" where
  "ctl_merge_connect src c =
     (if ct_connect src
      then do { mg_assert (\<not> ct_connect c);
                mg_assert (\<not> ct_started src);
                Some (c\<lparr>ct_connect := True, ct_host := ct_host src, ct_domain := ct_domain src, ct_socket := ct_socket src,
                        ct_delay := ct_delay src\<rparr>) }
      else Some c)"

definition ctl_merge :: "tcp_ctl \<Rightarrow> tcp_ctl \<Rightarrow> tcp_ctl option" where
  "ctl_merge src c =
     do { mg_assert (\<not> ct_handshake src);
          mg_assert (\<not> ct_handler src);
          c \<leftarrow> ctl_merge_attach src (ctl_merge_shutdown src c);
          ctl_merge_connect src c }"

text \<open>\<open>ip\<close> says whether \<^verbatim>\<open>Host::Set\<close> understood the host of the endpoint as an address.\<close>

definition ctl_add_connect :: "nat option \<Rightarrow> time_limit \<Rightarrow> bool \<Rightarrow> tcp_ctl \<Rightarrow> tcp_ctl option" where
  "ctl_add_connect so d ip c =
     do { mg_assert (\<not> ct_connect c);
          mg_assert (\<not> ct_attach c);
          mg_assert (\<not> ct_shutdown c);
          mg_assert (ct_socket c = None);
          mg_assert (ct_domain c = None);
          mg_assert (\<not> ct_started c);
          Some (c\<lparr>ct_connect := True, ct_socket := so, ct_delay := d, ct_host := ip, ct_domain := (if ip then None else Some DomNew)\<rparr>) }"

definition ctl_add_attach :: "nat \<Rightarrow> tcp_ctl \<Rightarrow> tcp_ctl option" where
  "ctl_add_attach so c =
     do { mg_assert (\<not> ct_connect c);
          mg_assert (\<not> ct_attach c);
          mg_assert (\<not> ct_shutdown c);
          Some (c\<lparr>ct_attach := True, ct_attach_socket := Some so\<rparr>) }"

definition ctl_add_shutdown :: "tcp_ctl \<Rightarrow> tcp_ctl" where
  "ctl_add_shutdown c = c\<lparr>ct_shutdown := True\<rparr>"

definition ctl_is_idle :: "tcp_ctl \<Rightarrow> bool" where
  "ctl_is_idle c = (\<not> ct_shutdown c \<and> \<not> ct_connect c \<and> \<not> ct_attach c \<and> \<not> ct_handshake c \<and> \<not> ct_handler c)"

definition ctl_end_connect :: "tcp_ctl \<Rightarrow> tcp_ctl option" where
  "ctl_end_connect c =
     do { mg_assert (ct_connect c);
          Some (c\<lparr>ct_domain := None, ct_socket := None, ct_started := False, ct_connect := False\<rparr>) }"

definition ctl_start_handshake :: "tcp_ctl \<Rightarrow> tcp_ctl option" where
  "ctl_start_handshake c =
     do { mg_assert (\<not> ct_connect c);
          mg_assert (\<not> ct_attach c);
          mg_assert (\<not> ct_handshake c);
          Some (c\<lparr>ct_handshake := True\<rparr>) }"

definition ctl_end_handshake :: "tcp_ctl \<Rightarrow> tcp_ctl" where
  "ctl_end_handshake c = c\<lparr>ct_handler := False, ct_handshake := False\<rparr>"

section \<open>The task of a socket\<close>

datatype tcp_event = SendEvent | RecvEvent | ConnectEvent

type_synonym tcp_task = "tcp_event task_io"

text \<open>\<open>er\<close> is what \<^verbatim>\<open>SocketShutdown\<close> reports. The results are the error or none, and the message.\<close>

definition ctl_do_shutdown :: "error_code option \<Rightarrow> tcp_task \<Rightarrow> tcp_ctl \<Rightarrow> (error_code option \<times> tcp_ctl) option" where
  "ctl_do_shutdown er k c =
     do { mg_assert (ct_shutdown c);
          if ct_connect c then Some (None, c)
          else Some (if tk_sock k = None then None else er, c\<lparr>ct_shutdown := False\<rparr>) }"

definition ctl_do_attach :: "tcp_ctl \<Rightarrow> tcp_task \<Rightarrow> (tcp_ctl \<times> tcp_task) option" where
  "ctl_do_attach c k =
     do { mg_assert (ct_attach c);
          mg_assert (\<not> ct_connect c);
          so \<leftarrow> ct_attach_socket c;
          k \<leftarrow> task_attach_socket so k;
          c \<leftarrow> ctl_start_handshake (c\<lparr>ct_attach := False, ct_attach_socket := None\<rparr>);
          Some (c, k) }"

text \<open>\<open>hs\<close> is what the update of a handshake object returns.\<close>

definition ctl_do_handshake :: "bool \<Rightarrow> tcp_ctl \<Rightarrow> tcp_ctl option" where
  "ctl_do_handshake hs c =
     do { mg_assert (\<not> ct_connect c);
          mg_assert (\<not> ct_attach c);
          mg_assert (ct_handshake c);
          Some (if \<not> ct_handler c \<or> hs then ctl_end_handshake c else c) }"

text \<open>
  Connecting, when it is time and the host is known: \<open>rc\<close> is the result of \<^verbatim>\<open>connect\<close> and \<open>cr\<close> of the creation of a
  socket.
\<close>

definition ctl_connect_io :: "error_code + nat \<Rightarrow> sys_result \<Rightarrow> tcp_ctl \<Rightarrow> tcp_task \<Rightarrow> (error_code option \<times> tcp_ctl \<times> tcp_task) option" where
  "ctl_connect_io cr rc c k =
     do { (ok, k) \<leftarrow>
            (if tk_sock k \<noteq> None then task_connect_update ConnectEvent k
             else case ct_socket c of
                    Some so \<Rightarrow> task_connect_start so rc ConnectEvent k
                  | None \<Rightarrow> map_option (\<lambda>(ok, k, _). (ok, k)) (task_connect_host cr rc ConnectEvent k));
          let c = (if ok then c\<lparr>ct_socket := None\<rparr> else c);
          if ev_locked (tk_event k ConnectEvent) then Some (None, c, k)
          else if \<not> ok
          then do { (er, e) \<leftarrow> ev_pop_error (tk_event k ConnectEvent);
                    c \<leftarrow> ctl_end_connect c;
                    Some (Some er, c, tk_set ConnectEvent e k) }
          else do { (n, e) \<leftarrow> ev_pop_bytes (tk_event k ConnectEvent);
                    mg_assert (n = 0);
                    c \<leftarrow> ctl_end_connect c;
                    c \<leftarrow> ctl_start_handshake c;
                    let k = tk_set ConnectEvent e k;
                    Some (None, c, if ct_shutdown c then task_reschedule k else k) } }"

text \<open>The first two arguments are the clock when the connect is started and when it is compared with the deadline.\<close>

definition ctl_start_connect :: "u64 \<Rightarrow> tcp_ctl \<Rightarrow> tcp_ctl" where
  "ctl_start_connect ts c =
     (if ct_started c then c
      else c\<lparr>ct_started := True, ct_deadline := (case limit_to_point ts (ct_delay c) of None \<Rightarrow> 0 | Some p \<Rightarrow> p)\<rparr>)"

definition ctl_do_connect ::
    "u64 \<Rightarrow> u64 \<Rightarrow> error_code + nat \<Rightarrow> sys_result \<Rightarrow> tcp_ctl \<Rightarrow> tcp_task \<Rightarrow> (error_code option \<times> tcp_ctl \<times> tcp_task) option" where
  "ctl_do_connect ts now cr rc c0 k =
     do { mg_assert (ct_connect c0);
          mg_assert (\<not> ct_attach c0);
          let c = ctl_start_connect ts c0;
          if ct_deadline c \<noteq> 0 \<and> now < ct_deadline c then Some (None, c, task_set_deadline (ct_deadline c) k)
          else let c = c\<lparr>ct_deadline := 0\<rparr> in
               case ct_domain c of
                 None \<Rightarrow> ctl_connect_io cr rc c k
               | Some d \<Rightarrow>
                   do { mg_assert (\<not> ct_host c);
                        case d of
                          DomNew \<Rightarrow> Some (None, c\<lparr>ct_domain := Some DomSent\<rparr>, k)
                        | DomSent \<Rightarrow> Some (None, c, k)
                        | DomDone None \<Rightarrow> ctl_connect_io cr rc (c\<lparr>ct_host := True, ct_domain := None\<rparr>) k
                        | DomDone (Some er) \<Rightarrow>
                            do { c \<leftarrow> ctl_end_connect (c\<lparr>ct_host := False, ct_domain := None\<rparr>);
                                 Some (Some er, c, k) } } }"

section \<open>State\<close>

datatype tcp_state =
    TCP_SOCKET_STATE_NEW | TCP_SOCKET_STATE_EMPTY | TCP_SOCKET_STATE_CONNECTING | TCP_SOCKET_STATE_HANDSHAKE
  | TCP_SOCKET_STATE_CONNECTED | TCP_SOCKET_STATE_CLOSING | TCP_SOCKET_STATE_CLOSED

text \<open>\<^verbatim>\<open>myState >= TCP_SOCKET_STATE_CLOSING\<close>\<close>

definition compromised :: "tcp_state \<Rightarrow> bool" where
  "compromised st = (st = TCP_SOCKET_STATE_CLOSING \<or> st = TCP_SOCKET_STATE_CLOSED)"

text \<open>What went wrong, or the end of the stream; the flag says that the system call of this callback was done before.\<close>

datatype tcp_fail = FailIo | FailShutdown | FailConnect | FailSend | FailRecv | Eof bool

text \<open>
  Places in a callback of the task. At those that end in \<open>Cb\<close> the subscription is being called.
\<close>

datatype tcp_place =
    Idle | EventCb
  | CtlTake | CtlShutdown | CtlAttach | CtlAttached | CtlConnect | CtlConnected | CtlHandshake | CtlCommit | ConnectCb | CtlIdle | CtlEnd
  | RecvBegin | RecvCall | RecvEnd | RecvCb bool | RecvDone
  | SendBegin | SendCall | SendEnd | SendCb bool | SendDone
  | Failing tcp_fail | FailCb tcp_fail | FailClose tcp_fail
  | Closed | ClosedRest | CloseCb

datatype tcp_callback =
  OnEvent | OnConnect | OnConnectError | OnSend | OnSendError | OnRecv | OnRecvError | OnError | OnClose

text \<open>
  The first group is protected by the mutex, the second belongs to the callback; \<open>tp_reserved\<close> are received bytes that the queue does
  not know yet. The third group is about the IO core: the task is posted, a close was asked for, a wakeup is on its way. The last group is
  history since the socket was posted: bytes that went into the queue for sending, that the kernel
  took, that the kernel gave, that the client read; and the callbacks.
\<close>

record tcp =
  tp_state :: tcp_state
  tp_ready :: bool
  tp_running :: bool
  tp_sub :: bool
  tp_front_send :: "u8 list"
  tp_front_recv :: u64
  tp_front_ctl :: "tcp_ctl option"

  tp_handshaked :: bool
  tp_send :: "u8 list"
  tp_recv :: "u8 list"
  tp_reserved :: "u8 list"
  tp_recv_size :: u64
  tp_ctl :: "tcp_ctl option"
  tp_task :: tcp_task
  tp_place :: tcp_place

  tp_posted :: bool
  tp_close_asked :: bool
  tp_woken :: bool

  tp_accepted :: "u8 list"
  tp_wire :: "u8 list"
  tp_got :: "u8 list"
  tp_read :: "u8 list"
  tp_log :: "tcp_callback list"

definition disabled_events :: "tcp_event \<Rightarrow> io_event" where
  "disabled_events v = (if v = ConnectEvent then ev_reset else ev_reset\<lparr>ev_locked := True\<rparr>)"

definition tcp_new :: tcp where
  "tcp_new =
     \<lparr>tp_state = TCP_SOCKET_STATE_NEW, tp_ready = False, tp_running = False, tp_sub = False, tp_front_send = [], tp_front_recv = 0,
      tp_front_ctl = None, tp_handshaked = False, tp_send = [], tp_recv = [], tp_reserved = [], tp_recv_size = 0, tp_ctl = None,
      tp_task = \<lparr>tk_sock = None, tk_ready = 0, tk_in = None, tk_out = None, tk_closed = False, tk_deadline = TIME_INFINITE,
        tk_event = disabled_events\<rparr>,
      tp_place = Idle, tp_posted = False, tp_close_asked = False, tp_woken = False,
      tp_accepted = [], tp_wire = [], tp_got = [], tp_read = [], tp_log = []\<rparr>"

section \<open>Calls of the clients\<close>

text \<open>
  \<open>inw\<close> says that the call is made in a callback of the socket (\<^verbatim>\<open>IsInWorkerNow\<close>). \<open>tcp_task_post\<close> is \<^verbatim>\<open>IOTask::Post\<close>: a closed
  task may only be posted again by its last callback.
\<close>

definition tcp_task_post :: "bool \<Rightarrow> tcp \<Rightarrow> tcp option" where
  "tcp_task_post inw s =
     do { mg_assert (\<not> tp_posted s);
          mg_assert (tk_sock (tp_task s) = None);
          mg_assert (tk_closed (tp_task s) \<longrightarrow> inw);
          Some (s\<lparr>tp_task := (tp_task s)\<lparr>tk_closed := False\<rparr>,
                  tp_close_asked := (tp_close_asked s \<and> \<not> tk_closed (tp_task s)), tp_posted := True\<rparr>) }"

definition tcp_open :: "tcp \<Rightarrow> tcp option" where
  "tcp_open s =
     do { mg_assert (tp_recv s = []);
          mg_assert (tp_recv_size s = 0);
          mg_assert (\<not> tp_handshaked s);
          mg_assert (tp_state s = TCP_SOCKET_STATE_NEW \<or> tp_state s = TCP_SOCKET_STATE_CLOSED);
          mg_assert (\<not> tp_running s);
          mg_assert (\<not> tp_ready s);
          Some (s\<lparr>tp_ready := True\<rparr>) }"

text \<open>The common beginning of \<^verbatim>\<open>PostConnect\<close>, \<^verbatim>\<open>PostWrap\<close> and \<^verbatim>\<open>PostTask\<close>; the histories begin with it.\<close>

definition tcp_start :: "tcp_state \<Rightarrow> tcp \<Rightarrow> tcp option" where
  "tcp_start st s =
     do { mg_assert (tp_state s = TCP_SOCKET_STATE_CLOSED \<or> tp_state s = TCP_SOCKET_STATE_NEW);
          mg_assert (tp_ready s);
          mg_assert (\<not> tp_running s);
          Some (s\<lparr>tp_ready := False, tp_running := True, tp_sub := True, tp_state := st,
                  tp_accepted := [], tp_wire := [], tp_got := [], tp_read := [], tp_log := []\<rparr>) }"

definition front_ctl :: "tcp \<Rightarrow> tcp_ctl" where
  "front_ctl s = (case tp_front_ctl s of None \<Rightarrow> ctl_new | Some c \<Rightarrow> c)"

definition tcp_post_connect :: "bool \<Rightarrow> nat option \<Rightarrow> time_limit \<Rightarrow> bool \<Rightarrow> tcp \<Rightarrow> tcp option" where
  "tcp_post_connect inw so d ip s0 =
     do { s \<leftarrow> tcp_start TCP_SOCKET_STATE_CONNECTING s0;
          c \<leftarrow> ctl_add_connect so d ip (front_ctl s);
          s \<leftarrow> tcp_task_post inw (s\<lparr>tp_front_ctl := Some c\<rparr>);
          Some (s\<lparr>tp_woken := True\<rparr>) }"

definition tcp_post_wrap :: "bool \<Rightarrow> nat \<Rightarrow> tcp \<Rightarrow> tcp option" where
  "tcp_post_wrap inw so s0 =
     do { s \<leftarrow> tcp_start TCP_SOCKET_STATE_CONNECTING s0;
          c \<leftarrow> ctl_add_attach so (front_ctl s);
          s \<leftarrow> tcp_task_post inw (s\<lparr>tp_front_ctl := Some c\<rparr>);
          Some (s\<lparr>tp_woken := True\<rparr>) }"

definition tcp_post_task :: "bool \<Rightarrow> tcp \<Rightarrow> tcp option" where
  "tcp_post_task inw s0 =
     do { s \<leftarrow> tcp_start TCP_SOCKET_STATE_EMPTY s0;
          tcp_task_post inw s }"

text \<open>Sending takes the whole chain; a closed task throws it away.\<close>

definition tcp_send_move :: "u8 list \<Rightarrow> tcp \<Rightarrow> tcp" where
  "tcp_send_move bs s =
     (if tk_closed (tp_task s) then s else s\<lparr>tp_send := tp_send s @ bs, tp_accepted := tp_accepted s @ bs\<rparr>)"

definition tcp_post_send_move :: "bool \<Rightarrow> u8 list \<Rightarrow> tcp \<Rightarrow> tcp" where
  "tcp_post_send_move inw bs s =
     (if inw then tcp_send_move bs s
      else s\<lparr>tp_front_send := tp_front_send s @ bs, tp_woken := (tp_woken s \<or> tp_front_send s = [])\<rparr>)"

definition tcp_recv_more :: "u64 \<Rightarrow> tcp \<Rightarrow> tcp" where
  "tcp_recv_more n s = s\<lparr>tp_recv_size := tp_recv_size s + n\<rparr>"

definition tcp_post_recv :: "bool \<Rightarrow> u64 \<Rightarrow> tcp \<Rightarrow> tcp" where
  "tcp_post_recv inw n s =
     (if inw then tcp_recv_more n s
      else s\<lparr>tp_front_recv := tp_front_recv s + n, tp_woken := (tp_woken s \<or> tp_front_recv s = 0)\<rparr>)"

definition tcp_post_close :: "tcp \<Rightarrow> tcp" where
  "tcp_post_close s =
     (if compromised (tp_state s) then s
      else if tp_state s = TCP_SOCKET_STATE_NEW then s\<lparr>tp_state := TCP_SOCKET_STATE_CLOSED\<rparr>
      else s\<lparr>tp_state := TCP_SOCKET_STATE_CLOSING, tp_close_asked := True\<rparr>)"

definition tcp_post_shutdown :: "tcp \<Rightarrow> tcp option" where
  "tcp_post_shutdown s =
     (if compromised (tp_state s) then Some s
      else do { mg_assert (tp_state s \<noteq> TCP_SOCKET_STATE_NEW);
                Some (s\<lparr>tp_front_ctl := Some (ctl_add_shutdown (front_ctl s)), tp_woken := True\<rparr>) })"

definition tcp_connect :: "nat option \<Rightarrow> time_limit \<Rightarrow> bool \<Rightarrow> tcp \<Rightarrow> tcp option" where
  "tcp_connect so d ip s =
     (if tp_state s = TCP_SOCKET_STATE_CLOSING then Some s
      else do { mg_assert (tp_state s = TCP_SOCKET_STATE_EMPTY);
                mg_assert (tp_running s);
                c \<leftarrow> ctl_add_connect so d ip (front_ctl s);
                Some (s\<lparr>tp_state := TCP_SOCKET_STATE_CONNECTING, tp_front_ctl := Some c, tp_task := task_reschedule (tp_task s)\<rparr>) })"

definition tcp_is_closed :: "tcp \<Rightarrow> bool" where "tcp_is_closed s = (tp_state s = TCP_SOCKET_STATE_CLOSED)"
definition tcp_is_connected :: "tcp \<Rightarrow> bool" where "tcp_is_connected s = (tp_state s = TCP_SOCKET_STATE_CONNECTED)"

section \<open>Callbacks of the task\<close>

definition tcp_at :: "tcp_place \<Rightarrow> tcp \<Rightarrow> tcp" where "tcp_at p s = s\<lparr>tp_place := p\<rparr>"

definition tcp_call :: "tcp_callback list \<Rightarrow> tcp_place \<Rightarrow> tcp \<Rightarrow> tcp option" where
  "tcp_call cbs p s = do { mg_assert (tp_sub s); Some (s\<lparr>tp_log := tp_log s @ cbs, tp_place := p\<rparr>) }"

text \<open>\<^verbatim>\<open>TCPSocket::OnEvent\<close> up to the callback in \<^verbatim>\<open>ProtOnEvent\<close>; before it \<^verbatim>\<open>IOTask::PrivExecute\<close>.\<close>

definition tcp_run :: "u32 \<Rightarrow> error_code option \<Rightarrow> tcp \<Rightarrow> tcp option" where
  "tcp_run m st s =
     do { (er, k) \<leftarrow> task_process_args m st ((snd (task_dump_ready (tp_task s)))\<lparr>tk_deadline := TIME_INFINITE\<rparr>);
          let s1 = s\<lparr>tp_task := k, tp_woken := False\<rparr>;
          if er = None then tcp_call [OnEvent] EventCb s1 else Some (tcp_at (Failing FailIo) s1) }"

text \<open>\<^verbatim>\<open>PrivCtl\<close>. A message that becomes the current one brings its own event.\<close>

definition tcp_ctl_take :: "tcp \<Rightarrow> tcp option" where
  "tcp_ctl_take s =
     (case tp_front_ctl s of
        None \<Rightarrow> Some (tcp_at (if tp_ctl s = None then CtlEnd else CtlShutdown) s)
      | Some f \<Rightarrow>
          (case tp_ctl s of
             None \<Rightarrow> Some (tcp_at CtlShutdown (s\<lparr>tp_ctl := Some f, tp_front_ctl := None, tp_task := tk_set ConnectEvent ev_reset (tp_task s)\<rparr>))
           | Some c \<Rightarrow>
               do { c \<leftarrow> ctl_merge f c;
                    Some (tcp_at CtlShutdown (s\<lparr>tp_ctl := Some c, tp_front_ctl := None\<rparr>)) }))"

definition tcp_ctl_shutdown :: "error_code option \<Rightarrow> tcp \<Rightarrow> tcp option" where
  "tcp_ctl_shutdown er s =
     do { c \<leftarrow> tp_ctl s;
          if \<not> ct_shutdown c then Some (tcp_at CtlAttach s)
          else do { (er, c) \<leftarrow> ctl_do_shutdown er (tp_task s) c;
                    Some (tcp_at (if er = None then CtlAttach else Failing FailShutdown) (s\<lparr>tp_ctl := Some c\<rparr>)) } }"

definition tcp_ctl_attach :: "tcp \<Rightarrow> tcp option" where
  "tcp_ctl_attach s =
     do { c \<leftarrow> tp_ctl s;
          if \<not> ct_attach c then Some (tcp_at CtlConnect s)
          else do { (c, k) \<leftarrow> ctl_do_attach c (tp_task s);
                    Some (tcp_at CtlAttached (s\<lparr>tp_ctl := Some c, tp_task := k\<rparr>)) } }"

definition tcp_handshake_start :: "tcp \<Rightarrow> tcp option" where
  "tcp_handshake_start s =
     do { mg_assert (\<not> tp_handshaked s);
          c \<leftarrow> tp_ctl s;
          mg_assert (ct_handshake c);
          if tp_state s = TCP_SOCKET_STATE_CONNECTING then Some (s\<lparr>tp_state := TCP_SOCKET_STATE_HANDSHAKE\<rparr>)
          else do { mg_assert (tp_state s = TCP_SOCKET_STATE_CLOSING); Some s } }"

definition tcp_enable_io :: "tcp \<Rightarrow> tcp option" where
  "tcp_enable_io s =
     do { e1 \<leftarrow> ev_unlock (tk_event (tp_task s) SendEvent);
          e2 \<leftarrow> ev_unlock (tk_event (tp_task s) RecvEvent);
          Some (s\<lparr>tp_task := tk_set RecvEvent e2 (tk_set SendEvent e1 (tp_task s))\<rparr>) }"

definition tcp_ctl_attached :: "tcp \<Rightarrow> tcp option" where
  "tcp_ctl_attached s = do { s \<leftarrow> tcp_handshake_start s; s \<leftarrow> tcp_enable_io s; Some (tcp_at CtlConnect s) }"

definition tcp_ctl_connect :: "u64 \<Rightarrow> u64 \<Rightarrow> error_code + nat \<Rightarrow> sys_result \<Rightarrow> tcp \<Rightarrow> tcp option" where
  "tcp_ctl_connect ts now cr rc s =
     do { c \<leftarrow> tp_ctl s;
          if \<not> ct_connect c then Some (tcp_at CtlHandshake s)
          else do { (er, c, k) \<leftarrow> ctl_do_connect ts now cr rc c (tp_task s);
                    mg_assert (er \<noteq> None \<longrightarrow> \<not> ct_connect c);
                    Some (tcp_at (if er \<noteq> None then Failing FailConnect else if ct_connect c then CtlHandshake else CtlConnected)
                      (s\<lparr>tp_ctl := Some c, tp_task := k\<rparr>)) } }"

definition tcp_ctl_connected :: "tcp \<Rightarrow> tcp option" where
  "tcp_ctl_connected s =
     do { s \<leftarrow> tcp_handshake_start s; s \<leftarrow> tcp_enable_io s;
          Some (tcp_at CtlHandshake (s\<lparr>tp_task := task_reschedule (tp_task s)\<rparr>)) }"

definition tcp_ctl_handshake :: "bool \<Rightarrow> tcp \<Rightarrow> tcp option" where
  "tcp_ctl_handshake hs s =
     do { c \<leftarrow> tp_ctl s;
          if \<not> ct_handshake c then Some (tcp_at CtlIdle s)
          else do { c \<leftarrow> ctl_do_handshake hs c;
                    Some (tcp_at (if ct_handshake c then CtlIdle else CtlCommit) (s\<lparr>tp_ctl := Some c\<rparr>)) } }"

definition tcp_handshake_commit :: "tcp \<Rightarrow> tcp option" where
  "tcp_handshake_commit s =
     do { mg_assert (\<not> tp_handshaked s);
          mg_assert (tp_state s = TCP_SOCKET_STATE_HANDSHAKE \<or> tp_state s = TCP_SOCKET_STATE_CLOSING);
          tcp_call [OnConnect] ConnectCb
            (s\<lparr>tp_state := (if tp_state s = TCP_SOCKET_STATE_HANDSHAKE then TCP_SOCKET_STATE_CONNECTED else tp_state s), tp_handshaked := True\<rparr>) }"

definition tcp_connect_done :: "tcp \<Rightarrow> tcp" where
  "tcp_connect_done s = tcp_at CtlIdle (s\<lparr>tp_task := task_reschedule (tp_task s)\<rparr>)"

definition tcp_ctl_idle :: "tcp \<Rightarrow> tcp option" where
  "tcp_ctl_idle s =
     do { c \<leftarrow> tp_ctl s;
          Some (tcp_at CtlEnd (s\<lparr>tp_ctl := (if ctl_is_idle c then None else Some c)\<rparr>)) }"

definition tcp_ctl_end :: "tcp \<Rightarrow> tcp" where
  "tcp_ctl_end s =
     tcp_at RecvBegin
       (s\<lparr>tp_send := tp_send s @ tp_front_send s, tp_accepted := tp_accepted s @ tp_front_send s, tp_front_send := [],
          tp_recv_size := tp_recv_size s + tp_front_recv s, tp_front_recv := 0\<rparr>)"

text \<open>\<^verbatim>\<open>PrivRecv\<close>. The result of an event is taken before the system call and after it; \<open>called\<close> says which.\<close>

definition tcp_recv_commit :: "bool \<Rightarrow> u32 \<Rightarrow> tcp \<Rightarrow> tcp option" where
  "tcp_recv_commit called n s =
     (if n = 0 then Some (tcp_at (FailClose (Eof called)) s)
      else do { mg_assert (unat n \<le> length (tp_reserved s));
                tcp_call [OnRecv] (RecvCb called)
                  (s\<lparr>tp_recv := tp_recv s @ take (unat n) (tp_reserved s), tp_reserved := drop (unat n) (tp_reserved s), tp_recv_size := 0\<rparr>) })"

definition tcp_recv_consume :: "bool \<Rightarrow> tcp \<Rightarrow> tcp option" where
  "tcp_recv_consume called s =
     (let ev = tk_event (tp_task s) RecvEvent in
      if ev_locked ev then Some (tcp_at SendBegin s)
      else do { em \<leftarrow> ev_is_empty ev;
                if em then Some (tcp_at (if called then RecvDone else RecvCall) s)
                else do { er \<leftarrow> ev_is_error ev;
                          if er then do { (_, e) \<leftarrow> ev_pop_error ev; Some (tcp_at (Failing FailRecv) (s\<lparr>tp_task := tk_set RecvEvent e (tp_task s)\<rparr>)) }
                          else do { (n, e) \<leftarrow> ev_pop_bytes ev; tcp_recv_commit called n (s\<lparr>tp_task := tk_set RecvEvent e (tp_task s)\<rparr>) } } })"

text \<open>The system call, which puts the bytes \<open>bs\<close> into the reserved buffers.\<close>

fun recv_result :: "sys_result \<Rightarrow> u8 list \<Rightarrow> bool" where
  "recv_result (SysOk n) bs = (n = length bs \<and> n < 2 ^ 31)"
| "recv_result rc bs = (bs = [])"

definition tcp_recv_call :: "sys_result \<Rightarrow> u8 list \<Rightarrow> tcp \<Rightarrow> tcp option" where
  "tcp_recv_call rc bs s =
     (if tp_recv_size s = 0 then Some (tcp_at SendBegin s)
      else do { (_, k) \<leftarrow> task_recv rc RecvEvent (tp_task s);
                Some (tcp_at RecvEnd (s\<lparr>tp_task := k, tp_reserved := bs, tp_got := tp_got s @ bs\<rparr>)) })"

definition tcp_recv_done :: "tcp \<Rightarrow> tcp" where
  "tcp_recv_done s = tcp_at SendBegin (if tp_recv_size s > 0 then s\<lparr>tp_task := task_reschedule (tp_task s)\<rparr> else s)"

text \<open>\<^verbatim>\<open>PrivSend\<close>. \<open>rest\<close> says that the queue has links left without bytes.\<close>

definition tcp_send_commit :: "bool \<Rightarrow> u32 \<Rightarrow> tcp \<Rightarrow> tcp option" where
  "tcp_send_commit called n s =
     do { mg_assert (unat n \<le> length (tp_send s));
          tcp_call [OnSend] (SendCb called) (s\<lparr>tp_send := drop (unat n) (tp_send s)\<rparr>) }"

definition tcp_send_consume :: "bool \<Rightarrow> tcp \<Rightarrow> tcp option" where
  "tcp_send_consume called s =
     (let ev = tk_event (tp_task s) SendEvent in
      if ev_locked ev then Some (tcp_at Idle s)
      else do { em \<leftarrow> ev_is_empty ev;
                if em then Some (tcp_at (if called then SendDone else SendCall) s)
                else do { er \<leftarrow> ev_is_error ev;
                          if er then do { (_, e) \<leftarrow> ev_pop_error ev; Some (tcp_at (Failing FailSend) (s\<lparr>tp_task := tk_set SendEvent e (tp_task s)\<rparr>)) }
                          else do { (n, e) \<leftarrow> ev_pop_bytes ev; tcp_send_commit called n (s\<lparr>tp_task := tk_set SendEvent e (tp_task s)\<rparr>) } } })"

text \<open>\<^verbatim>\<open>sendmsg\<close> takes a part of what it is given, which is not empty here.\<close>

fun send_result :: "sys_result \<Rightarrow> u8 list \<Rightarrow> bool" where
  "send_result (SysOk n) bs = (0 < n \<and> n \<le> length bs \<and> n < 2 ^ 31)"
| "send_result rc bs = True"

definition tcp_send_call :: "sys_result \<Rightarrow> tcp \<Rightarrow> tcp option" where
  "tcp_send_call rc s =
     (if tp_send s = [] then Some (tcp_at Idle s)
      else do { (_, k) \<leftarrow> task_send rc SendEvent (tp_task s);
                Some (tcp_at SendEnd (s\<lparr>tp_task := k, tp_wire := tp_wire s @ take (sys_count rc) (tp_send s)\<rparr>)) })"

definition tcp_send_done :: "bool \<Rightarrow> tcp \<Rightarrow> tcp" where
  "tcp_send_done rest s = tcp_at Idle (if tp_send s \<noteq> [] \<or> rest then s\<lparr>tp_task := task_reschedule (tp_task s)\<rparr> else s)"

text \<open>
  Errors: \<^verbatim>\<open>ProtCloseError\<close>, \<^verbatim>\<open>PrivConnectAbort\<close>, \<^verbatim>\<open>ProtOnSendError\<close>, \<^verbatim>\<open>ProtOnRecvError\<close>. An error is reported unless the socket is
  compromised; then the socket is closed, and the event that had the error is locked.
\<close>

fun fail_calls :: "tcp_fail \<Rightarrow> tcp_callback list" where
  "fail_calls FailConnect = [OnConnectError, OnError]"
| "fail_calls FailSend = [OnSendError, OnError]"
| "fail_calls FailRecv = [OnRecvError, OnError]"
| "fail_calls _ = [OnError]"

fun fail_next :: "tcp_fail \<Rightarrow> tcp_place" where
  "fail_next FailIo = Idle"
| "fail_next FailShutdown = CtlAttach"
| "fail_next FailConnect = CtlHandshake"
| "fail_next FailSend = Idle"
| "fail_next FailRecv = SendBegin"
| "fail_next (Eof called) = (if called then RecvDone else RecvCall)"

definition tcp_failing :: "tcp_fail \<Rightarrow> tcp \<Rightarrow> tcp option" where
  "tcp_failing f s = (if compromised (tp_state s) then Some (tcp_at (FailClose f) s) else tcp_call (fail_calls f) (FailCb f) s)"

definition tcp_prot_close :: "tcp \<Rightarrow> tcp option" where
  "tcp_prot_close s =
     do { mg_assert (tp_running s);
          mg_assert (tp_state s \<noteq> TCP_SOCKET_STATE_NEW);
          mg_assert (tp_state s \<noteq> TCP_SOCKET_STATE_CLOSED);
          Some (s\<lparr>tp_state := TCP_SOCKET_STATE_CLOSING, tp_close_asked := True\<rparr>) }"

definition tcp_lock_event :: "tcp_event \<Rightarrow> tcp \<Rightarrow> tcp option" where
  "tcp_lock_event v s = do { e \<leftarrow> ev_lock (tk_event (tp_task s) v); Some (s\<lparr>tp_task := tk_set v e (tp_task s)\<rparr>) }"

definition tcp_fail_close :: "tcp_fail \<Rightarrow> tcp \<Rightarrow> tcp option" where
  "tcp_fail_close f s =
     do { s \<leftarrow> tcp_prot_close s;
          s \<leftarrow> (case f of FailSend \<Rightarrow> tcp_lock_event SendEvent s | FailRecv \<Rightarrow> tcp_lock_event RecvEvent s | _ \<Rightarrow> Some s);
          Some (tcp_at (fail_next f) s) }"

text \<open>The last callback: \<^verbatim>\<open>IOTask::PrivExecute\<close>, and the parts of \<^verbatim>\<open>ProtClose\<close> under the mutex and after it.\<close>

definition tcp_run_closed :: "tcp \<Rightarrow> tcp option" where
  "tcp_run_closed s =
     do { k \<leftarrow> task_close_end (tp_task s); Some (tcp_at Closed (s\<lparr>tp_task := k, tp_posted := False, tp_woken := False\<rparr>)) }"

definition tcp_closed :: "tcp \<Rightarrow> tcp option" where
  "tcp_closed s =
     do { mg_assert (tp_running s);
          mg_assert (tp_state s \<noteq> TCP_SOCKET_STATE_NEW);
          if tp_state s = TCP_SOCKET_STATE_CLOSED then Some (tcp_at Idle s)
          else do { mg_assert (tp_sub s);
                    Some (tcp_at ClosedRest
                      (s\<lparr>tp_front_send := [], tp_front_recv := 0, tp_handshaked := False, tp_running := False,
                         tp_state := TCP_SOCKET_STATE_CLOSED, tp_front_ctl := None, tp_sub := False\<rparr>)) } }"

definition tcp_disable_io :: "tcp \<Rightarrow> tcp option" where
  "tcp_disable_io s =
     do { mg_assert (\<not> tp_running s);
          Some (s\<lparr>tp_task := tk_set RecvEvent (disabled_events RecvEvent) (tk_set SendEvent (disabled_events SendEvent) (tp_task s))\<rparr>) }"

definition tcp_closed_rest :: "tcp \<Rightarrow> tcp option" where
  "tcp_closed_rest s =
     do { s \<leftarrow> tcp_disable_io (s\<lparr>tp_send := [], tp_recv := [], tp_reserved := [], tp_recv_size := 0\<rparr>);
          Some (s\<lparr>tp_ctl := None, tp_log := tp_log s @ [OnClose], tp_place := CloseCb\<rparr>) }"

end
