(* ===== verification/Tcp_Invariant.thy ===== *)
theory Tcp_Invariant
  imports Tcp_Socket
begin

text \<open>
  The runs of a socket, and the invariant that no assertion of it fails. A step that has no result is a failed assertion.
\<close>

section \<open>Runs\<close>

text \<open>The step of a callback at its place; at the places where client code runs it goes on when that returns.\<close>

inductive tcp_worker :: "tcp \<Rightarrow> tcp option \<Rightarrow> bool" for s where
  event: "tp_place s = EventCb \<Longrightarrow> tcp_worker s (Some (tcp_at CtlTake s))"
| take: "tp_place s = CtlTake \<Longrightarrow> tcp_worker s (tcp_ctl_take s)"
| shutdown: "tp_place s = CtlShutdown \<Longrightarrow> tcp_worker s (tcp_ctl_shutdown er s)"
| attach: "tp_place s = CtlAttach \<Longrightarrow> tcp_worker s (tcp_ctl_attach s)"
| attached: "tp_place s = CtlAttached \<Longrightarrow> tcp_worker s (tcp_ctl_attached s)"
| connect: "tp_place s = CtlConnect \<Longrightarrow> tcp_worker s (tcp_ctl_connect ts now cr rc s)"
| connected: "tp_place s = CtlConnected \<Longrightarrow> tcp_worker s (tcp_ctl_connected s)"
| handshake: "tp_place s = CtlHandshake \<Longrightarrow> tcp_worker s (tcp_ctl_handshake hs s)"
| commit: "tp_place s = CtlCommit \<Longrightarrow> tcp_worker s (tcp_handshake_commit s)"
| connect_cb: "tp_place s = ConnectCb \<Longrightarrow> tcp_worker s (Some (tcp_connect_done s))"
| idle: "tp_place s = CtlIdle \<Longrightarrow> tcp_worker s (tcp_ctl_idle s)"
| ctl_end: "tp_place s = CtlEnd \<Longrightarrow> tcp_worker s (Some (tcp_ctl_end s))"
| recv_begin: "tp_place s = RecvBegin \<Longrightarrow> tcp_worker s (tcp_recv_consume False s)"
| recv_call: "tp_place s = RecvCall \<Longrightarrow> recv_result rc bs \<Longrightarrow> tcp_worker s (tcp_recv_call rc bs s)"
| recv_end: "tp_place s = RecvEnd \<Longrightarrow> tcp_worker s (tcp_recv_consume True s)"
| recv_cb: "tp_place s = RecvCb called \<Longrightarrow> tcp_worker s (Some (tcp_at (if called then RecvDone else RecvCall) s))"
| recv_done: "tp_place s = RecvDone \<Longrightarrow> tcp_worker s (Some (tcp_recv_done s))"
| send_begin: "tp_place s = SendBegin \<Longrightarrow> tcp_worker s (tcp_send_consume False s)"
| send_call: "tp_place s = SendCall \<Longrightarrow> send_result rc (tp_send s) \<Longrightarrow> tcp_worker s (tcp_send_call rc s)"
| send_end: "tp_place s = SendEnd \<Longrightarrow> tcp_worker s (tcp_send_consume True s)"
| send_cb: "tp_place s = SendCb called \<Longrightarrow> tcp_worker s (Some (tcp_at (if called then SendDone else SendCall) s))"
| send_done: "tp_place s = SendDone \<Longrightarrow> tcp_worker s (Some (tcp_send_done rest s))"
| failing: "tp_place s = Failing f \<Longrightarrow> tcp_worker s (tcp_failing f s)"
| fail_cb: "tp_place s = FailCb f \<Longrightarrow> tcp_worker s (Some (tcp_at (FailClose f) s))"
| fail_close: "tp_place s = FailClose f \<Longrightarrow> tcp_worker s (tcp_fail_close f s)"
| closed: "tp_place s = Closed \<Longrightarrow> tcp_worker s (tcp_closed s)"
| closed_rest: "tp_place s = ClosedRest \<Longrightarrow> tcp_worker s (tcp_closed_rest s)"
| close_cb: "tp_place s = CloseCb \<Longrightarrow> tcp_worker s (Some (tcp_at Idle s))"

text \<open>
  What the IO core does with the task: it runs it at any time (more often than the code), closes it when that was asked for, and runs it a
  last time.
\<close>

inductive tcp_core :: "tcp \<Rightarrow> tcp option \<Rightarrow> bool" for s where
  run: "tp_place s = Idle \<Longrightarrow> tp_posted s \<Longrightarrow> \<not> tk_closed (tp_task s) \<Longrightarrow> tcp_core s (tcp_run m st s)"
| task_close: "tp_place s = Idle \<Longrightarrow> tp_posted s \<Longrightarrow> tp_close_asked s \<Longrightarrow> \<not> tk_closed (tp_task s) \<Longrightarrow>
    tcp_core s (Some (s\<lparr>tp_task := (tp_task s)\<lparr>tk_closed := True, tk_sock := None\<rparr>\<rparr>))"
| run_closed: "tp_place s = Idle \<Longrightarrow> tp_posted s \<Longrightarrow> tk_closed (tp_task s) \<Longrightarrow> tcp_core s (tcp_run_closed s)"
| resolved: "tp_ctl s = Some c \<Longrightarrow> ct_domain c = Some DomSent \<Longrightarrow>
    tcp_core s (Some (s\<lparr>tp_ctl := Some (c\<lparr>ct_domain := Some (DomDone er)\<rparr>), tp_woken := True\<rparr>))"

text \<open>Client code is running in a callback.\<close>

fun in_callback :: "tcp_place \<Rightarrow> bool" where
  "in_callback EventCb = True" | "in_callback ConnectCb = True" | "in_callback (RecvCb called) = True" | "in_callback (SendCb called) = True"
| "in_callback (FailCb f) = True" | "in_callback CloseCb = True" | "in_callback _ = False"

text \<open>
  A socket is opened and started when it is not in use: before its first start, or in \<^verbatim>\<open>OnClose\<close>, whose callback leaves
  the socket alone when it has started it again.
\<close>

definition may_start :: "bool \<Rightarrow> tcp \<Rightarrow> bool" where
  "may_start inw s = (\<not> tp_running s \<and> (if tk_closed (tp_task s) then inw \<and> tp_place s = CloseCb else tp_place s = Idle))"

text \<open>
  The calls of the clients. Shutdown is not asked for before the socket is started, nor while it is started without a connection:
  the code does not bear that (\<open>tcp_shutdown_surprises\<close>).
\<close>

inductive tcp_client :: "tcp \<Rightarrow> tcp option \<Rightarrow> bool" for s where
  opens: "may_start inw s \<Longrightarrow> \<not> tp_ready s \<Longrightarrow> tp_recv_size s = 0 \<Longrightarrow> tcp_client s (tcp_open s)"
| post_connect: "may_start inw s \<Longrightarrow> tp_ready s \<Longrightarrow> tcp_client s (map_option (tcp_at Idle) (tcp_post_connect inw so d ip s))"
| post_wrap: "may_start inw s \<Longrightarrow> tp_ready s \<Longrightarrow> tcp_client s (map_option (tcp_at Idle) (tcp_post_wrap inw k s))"
| post_task: "may_start inw s \<Longrightarrow> tp_ready s \<Longrightarrow> tcp_client s (map_option (tcp_at Idle) (tcp_post_task inw s))"
| send: "tcp_client s (Some (tcp_post_send_move False bs s))"
| recv: "tcp_client s (Some (tcp_post_recv False n s))"
| wakeup: "tcp_client s (Some (s\<lparr>tp_woken := True\<rparr>))"
| close: "tcp_client s (Some (tcp_post_close s))"
| shutdown: "tp_state s \<noteq> TCP_SOCKET_STATE_NEW \<Longrightarrow> tp_state s \<noteq> TCP_SOCKET_STATE_EMPTY \<Longrightarrow> tcp_client s (tcp_post_shutdown s)"
| send_in: "in_callback (tp_place s) \<Longrightarrow> tcp_client s (Some (tcp_post_send_move True bs s))"
| recv_in: "in_callback (tp_place s) \<Longrightarrow> tcp_client s (Some (tcp_post_recv True n s))"
| connect: "in_callback (tp_place s) \<Longrightarrow> tp_state s = TCP_SOCKET_STATE_EMPTY \<or> tp_state s = TCP_SOCKET_STATE_CLOSING \<Longrightarrow>
    tcp_client s (tcp_connect so d ip s)"
| deadline: "in_callback (tp_place s) \<Longrightarrow> tcp_client s (Some (s\<lparr>tp_task := task_set_deadline d (tp_task s)\<rparr>))"
| reschedule: "in_callback (tp_place s) \<Longrightarrow> tcp_client s (Some (s\<lparr>tp_task := task_reschedule (tp_task s)\<rparr>))"
| read: "tp_place s = RecvCb called \<Longrightarrow> n \<le> length (tp_recv s) \<Longrightarrow>
    tcp_client s (Some (s\<lparr>tp_read := tp_read s @ take n (tp_recv s), tp_recv := drop n (tp_recv s)\<rparr>))"

definition tcp_step :: "tcp \<Rightarrow> tcp option \<Rightarrow> bool" where
  "tcp_step s r = (tcp_worker s r \<or> tcp_core s r \<or> tcp_client s r)"

inductive tcp_reachable :: "tcp \<Rightarrow> bool" where
  new: "tcp_reachable tcp_new"
| step: "tcp_reachable s \<Longrightarrow> tcp_step s (Some s') \<Longrightarrow> tcp_reachable s'"

section \<open>The invariant\<close>

text \<open>Places of a callback before the last one; places where the current message is there.\<close>

fun running_place :: "tcp_place \<Rightarrow> bool" where
  "running_place Idle = False" | "running_place Closed = False" | "running_place ClosedRest = False" | "running_place CloseCb = False"
| "running_place _ = True"

fun ctl_place :: "tcp_place \<Rightarrow> bool" where
  "ctl_place CtlShutdown = True" | "ctl_place CtlAttach = True" | "ctl_place CtlAttached = True" | "ctl_place CtlConnect = True"
| "ctl_place CtlConnected = True" | "ctl_place CtlHandshake = True" | "ctl_place CtlCommit = True" | "ctl_place ConnectCb = True"
| "ctl_place CtlIdle = True" | "ctl_place (Failing f) = (f = FailShutdown \<or> f = FailConnect)"
| "ctl_place (FailCb f) = (f = FailShutdown \<or> f = FailConnect)" | "ctl_place (FailClose f) = (f = FailShutdown \<or> f = FailConnect)"
| "ctl_place _ = False"

text \<open>Places where the event of receiving is free, and where it is free and empty; the same for sending.\<close>

fun recv_free :: "tcp_place \<Rightarrow> bool" where
  "recv_free RecvCall = True" | "recv_free (RecvCb called) = True" | "recv_free (Failing f) = (f \<in> {FailRecv, Eof False, Eof True})"
| "recv_free (FailCb f) = (f \<in> {FailRecv, Eof False, Eof True})" | "recv_free (FailClose f) = (f \<in> {FailRecv, Eof False, Eof True})"
| "recv_free _ = False"

fun send_free :: "tcp_place \<Rightarrow> bool" where
  "send_free SendCall = True" | "send_free (SendCb called) = True" | "send_free (Failing f) = (f = FailSend)"
| "send_free (FailCb f) = (f = FailSend)" | "send_free (FailClose f) = (f = FailSend)" | "send_free _ = False"

definition ctl_starts :: "tcp_ctl option \<Rightarrow> bool" where
  "ctl_starts co = (case co of None \<Rightarrow> False | Some c \<Rightarrow> ct_attach c \<or> ct_connect c)"

definition ctl_shakes :: "tcp_ctl option \<Rightarrow> bool" where
  "ctl_shakes co = (case co of None \<Rightarrow> False | Some c \<Rightarrow> ct_handshake c)"

text \<open>A message is well-formed; a new one was not worked at.\<close>

definition ctl_ok :: "tcp_ctl \<Rightarrow> bool" where
  "ctl_ok c =
    (\<not> ct_handler c \<and> \<not> (ct_attach c \<and> ct_connect c) \<and> (ct_handshake c \<longrightarrow> \<not> ct_attach c \<and> \<not> ct_connect c) \<and>
     (ct_domain c \<noteq> None \<longrightarrow> ct_connect c \<and> \<not> ct_host c) \<and> (\<not> ct_connect c \<longrightarrow> ct_socket c = None \<and> \<not> ct_started c) \<and>
     (ct_attach c \<longleftrightarrow> ct_attach_socket c \<noteq> None))"

definition front_ok :: "tcp_ctl \<Rightarrow> bool" where
  "front_ok c = (ctl_ok c \<and> \<not> ct_handshake c \<and> \<not> ct_started c)"

text \<open>Input and output are enabled.\<close>

definition io_enabled :: "tcp \<Rightarrow> bool" where
  "io_enabled s = (tp_handshaked s \<or> tp_place s = CtlCommit \<or>
     ctl_shakes (tp_ctl s) \<and> (tp_place s = CtlConnect \<or> tp_place s = CtlHandshake))"

text \<open>
  While the socket runs and its last callback has not begun: the states of the socket and of its task;
\<close>

definition run_life :: "tcp \<Rightarrow> bool" where
  "run_life s =
    (tp_state s \<noteq> TCP_SOCKET_STATE_NEW \<and> tp_state s \<noteq> TCP_SOCKET_STATE_CLOSED \<and> tp_sub s \<and> \<not> tp_ready s \<and> tp_posted s \<and>
     tp_place s \<noteq> Closed \<and> tp_place s \<noteq> ClosedRest \<and> tp_place s \<noteq> CloseCb \<and>
     (running_place (tp_place s) \<longrightarrow> \<not> tk_closed (tp_task s)) \<and>
     (tk_closed (tp_task s) \<longrightarrow> tk_sock (tp_task s) = None \<and> tp_close_asked s) \<and>
     tp_close_asked s = (tp_state s = TCP_SOCKET_STATE_CLOSING))"

text \<open>the messages and the state;\<close>

definition run_ctl :: "tcp \<Rightarrow> bool" where
  "run_ctl s =
    ((\<forall>c. tp_ctl s = Some c \<longrightarrow> ctl_ok c) \<and> (\<forall>c. tp_front_ctl s = Some c \<longrightarrow> front_ok c) \<and>
     (ctl_place (tp_place s) \<longrightarrow> tp_ctl s \<noteq> None) \<and>
     (ctl_shakes (tp_ctl s) \<longrightarrow> tp_place s \<in> {CtlAttached, CtlConnected, CtlConnect, CtlHandshake} \<and> \<not> tp_handshaked s) \<and>
     (tp_place s = CtlAttached \<or> tp_place s = CtlConnected \<longrightarrow> ctl_shakes (tp_ctl s) \<and>
        (tp_state s = TCP_SOCKET_STATE_CONNECTING \<or> tp_state s = TCP_SOCKET_STATE_CLOSING)) \<and>
     (tp_place s = CtlCommit \<longrightarrow> \<not> tp_handshaked s) \<and>
     (io_enabled s \<or> tp_place s = CtlAttached \<or> tp_place s = CtlConnected \<longrightarrow> \<not> ctl_starts (tp_ctl s) \<and> \<not> ctl_starts (tp_front_ctl s)) \<and>
     (ctl_starts (tp_front_ctl s) \<longrightarrow> tp_ctl s = None) \<and>
     (tp_state s = TCP_SOCKET_STATE_EMPTY \<longrightarrow> tp_ctl s = None \<and> tp_front_ctl s = None) \<and>
     (ctl_starts (tp_ctl s) \<or> ctl_starts (tp_front_ctl s) \<longrightarrow>
        tp_state s = TCP_SOCKET_STATE_CONNECTING \<or> tp_state s = TCP_SOCKET_STATE_CLOSING) \<and>
     (io_enabled s \<longrightarrow>
        tp_state s = (if tp_handshaked s then TCP_SOCKET_STATE_CONNECTED else TCP_SOCKET_STATE_HANDSHAKE) \<or> tp_state s = TCP_SOCKET_STATE_CLOSING))"

text \<open>the socket of the task, and who put it there;\<close>

definition run_sock :: "tcp \<Rightarrow> bool" where
  "run_sock s =
    (\<not> tk_closed (tp_task s) \<longrightarrow>
     (io_enabled s \<or> tp_place s = CtlAttached \<or> tp_place s = CtlConnected \<longrightarrow> tk_sock (tp_task s) \<noteq> None) \<and>
     (tk_sock (tp_task s) \<noteq> None \<longrightarrow> io_enabled s \<or> tp_place s = CtlAttached \<or> tp_place s = CtlConnected \<or>
        (\<exists>c. tp_ctl s = Some c \<and> ct_connect c \<and> ct_domain c = None \<and> ct_deadline c = 0 \<and> ct_started c)))"

text \<open>
  the events: sending waits for writing and receiving for reading; before they are enabled both are locked; an
  event has a result only between the system call and its use;
\<close>

definition waits_ok :: "tcp_task \<Rightarrow> bool" where
  "waits_ok k = (task_io_ok k \<and> (tk_in k = None \<or> tk_in k = Some RecvEvent) \<and>
     (tk_out k = None \<or> tk_out k = Some SendEvent \<or> tk_out k = Some ConnectEvent))"

definition run_event :: "tcp \<Rightarrow> bool" where
  "run_event s =
    (let k = tp_task s in
     waits_ok k \<and>
     (\<not> io_enabled s \<longrightarrow> ev_locked (tk_event k SendEvent) \<and> ev_locked (tk_event k RecvEvent) \<and> tk_out k \<noteq> Some SendEvent \<and> tk_in k = None) \<and>
     (tp_place s \<noteq> RecvEnd \<or> ev_locked (tk_event k RecvEvent) \<longrightarrow> ev_empty (tk_event k RecvEvent)) \<and>
     (tp_place s \<noteq> SendEnd \<or> ev_locked (tk_event k SendEvent) \<longrightarrow> ev_empty (tk_event k SendEvent)) \<and>
     (recv_free (tp_place s) \<longrightarrow> \<not> ev_locked (tk_event k RecvEvent)) \<and> (send_free (tp_place s) \<longrightarrow> \<not> ev_locked (tk_event k SendEvent)) \<and>
     (tp_place s = RecvEnd \<or> tp_place s = SendEnd \<longrightarrow> tp_handshaked s) \<and>
     (tk_out k = Some ConnectEvent \<longrightarrow> (\<exists>c. tp_ctl s = Some c \<and> ct_connect c)) \<and>
     (\<forall>c. tp_ctl s = Some c \<and> ct_connect c \<longrightarrow>
        ev_empty (tk_event k ConnectEvent) \<and> (ev_locked (tk_event k ConnectEvent) \<longrightarrow> tk_out k = Some ConnectEvent)))"

text \<open>the bytes that the kernel took and the queue does not know yet, those that it gave;\<close>

definition taken_bytes :: "tcp \<Rightarrow> nat" where
  "taken_bytes s =
     (let e = tk_event (tp_task s) SendEvent in
      if tp_place s = SendEnd \<and> \<not> ev_locked e \<and> \<not> ev_empty e \<and> \<not> ev_error e then unat (ev_bytes e) else 0)"

definition given_bytes :: "tcp \<Rightarrow> nat" where
  "given_bytes s =
     (let e = tk_event (tp_task s) RecvEvent in
      if tp_place s = RecvEnd \<and> \<not> ev_locked e \<and> \<not> ev_empty e \<and> \<not> ev_error e then unat (ev_bytes e) else 0)"

definition run_data :: "tcp \<Rightarrow> bool" where
  "run_data s =
    (taken_bytes s \<le> length (tp_send s) \<and> tp_wire s @ drop (taken_bytes s) (tp_send s) = tp_accepted s \<and>
     tp_read s @ tp_recv s @ tp_reserved s = tp_got s \<and> length (tp_reserved s) = given_bytes s)"

text \<open>and the callbacks.\<close>

definition log_ok :: "bool \<Rightarrow> bool \<Rightarrow> tcp_callback list \<Rightarrow> bool" where
  "log_ok h er l =
    (count_list l OnClose = 0 \<and> count_list l OnConnect = (if h then 1 else 0) \<and> count_list l OnError \<le> (if er then 1 else 0) \<and>
     (OnSend \<in> set l \<or> OnRecv \<in> set l \<longrightarrow> h))"

fun fail_place :: "tcp_place \<Rightarrow> bool" where
  "fail_place (FailCb f) = True" | "fail_place (FailClose f) = True" | "fail_place _ = False"

definition run_log :: "tcp \<Rightarrow> bool" where
  "run_log s = log_ok (tp_handshaked s) (tp_close_asked s \<or> fail_place (tp_place s)) (tp_log s)"

text \<open>When the last callback has begun, the task waits for nothing; when it has ended, everything is as in a new socket.\<close>

definition no_waits :: "tcp_task \<Rightarrow> bool" where
  "no_waits k = (tk_in k = None \<and> tk_out k = None \<and> tk_ready k = 0)"

definition last_inv :: "tcp \<Rightarrow> bool" where
  "last_inv s =
    (tp_state s = TCP_SOCKET_STATE_CLOSING \<and> tp_sub s \<and> \<not> tp_ready s \<and> \<not> tp_posted s \<and> tk_closed (tp_task s) \<and>
     tk_sock (tp_task s) = None \<and> tp_close_asked s \<and> no_waits (tp_task s) \<and> log_ok (tp_handshaked s) True (tp_log s))"

definition ended_ok :: "tcp_callback list \<Rightarrow> bool" where
  "ended_ok l =
    (count_list l OnConnect \<le> 1 \<and> count_list l OnError \<le> 1 \<and> (OnSend \<in> set l \<or> OnRecv \<in> set l \<longrightarrow> OnConnect \<in> set l) \<and>
     count_list l OnClose \<le> 1 \<and> (OnClose \<in> set l \<longrightarrow> last l = OnClose))"

definition rest_inv :: "tcp \<Rightarrow> bool" where
  "rest_inv s =
    ((tp_state s = TCP_SOCKET_STATE_NEW \<or> tp_state s = TCP_SOCKET_STATE_CLOSED) \<and> \<not> tp_posted s \<and> tp_front_ctl s = None \<and>
     \<not> tp_handshaked s \<and> tk_sock (tp_task s) = None \<and> no_waits (tp_task s) \<and> ended_ok (tp_log s) \<and>
     (tp_place s = Idle \<or> tp_place s = ClosedRest \<or> tp_place s = CloseCb) \<and>
     (tp_place s \<noteq> Idle \<longrightarrow> tk_closed (tp_task s)) \<and>
     (\<not> tk_closed (tp_task s) \<longrightarrow> \<not> tp_close_asked s) \<and>
     (if tp_place s = ClosedRest then OnClose \<notin> set (tp_log s)
      else tp_ctl s = None \<and> tp_recv s = [] \<and> tp_send s = [] \<and> tp_reserved s = [] \<and>
        tk_event (tp_task s) SendEvent = disabled_events SendEvent \<and> tk_event (tp_task s) RecvEvent = disabled_events RecvEvent) \<and>
     (tp_place s = CloseCb \<longrightarrow> OnClose \<in> set (tp_log s)))"

definition run_inv :: "tcp \<Rightarrow> bool" where
  "run_inv s = (run_life s \<and> run_ctl s \<and> run_sock s \<and> run_event s \<and> run_data s \<and> run_log s)"

definition tcp_inv :: "tcp \<Rightarrow> bool" where
  "tcp_inv s = (if \<not> tp_running s then rest_inv s else if tp_place s = Closed then last_inv s else run_inv s)"

end
