(* ===== verification/Tcp_Steps.thy ===== *)
theory Tcp_Steps
  imports Tcp_Invariant
begin

text \<open>
  The steps of a callback of a socket keep the invariant and have a result: messages, handshake and failures. The lemma of a step of
  \<open>tcp_worker\<close> has its name with the prefix \<open>w\<close>.
\<close>

section \<open>Steps with a result\<close>

definition keeps :: "tcp \<Rightarrow> tcp option \<Rightarrow> bool" where
  "keeps s r = (\<exists>s'. r = Some s' \<and> run_inv s' \<and> tp_running s' = tp_running s)"

lemma keeps_simps [simp]: "keeps s (Some s') \<longleftrightarrow> run_inv s' \<and> tp_running s' = tp_running s" "keeps s (if b then x else y) \<longleftrightarrow> (if b then keeps s x else keeps s y)"
  by (auto simp: keeps_def)

lemmas inv_defs = run_life_def run_ctl_def run_sock_def run_event_def run_data_def run_log_def taken_bytes_def given_bytes_def io_enabled_def tcp_at_def Let_def

lemma tcp_inv_running:
  assumes "tcp_inv s" and "running_place (tp_place s)"
  shows "tp_running s" "run_inv s"
  using assms by (auto simp: tcp_inv_def rest_inv_def split: if_splits)

lemma run_inv_done: "run_inv s \<Longrightarrow> tp_running s \<Longrightarrow> tp_place s \<noteq> Closed \<Longrightarrow> tcp_inv s"
  by (simp add: tcp_inv_def)

lemma w_event: "run_inv s \<Longrightarrow> tp_place s = EventCb \<Longrightarrow> run_inv (tcp_at CtlTake s)"
  by (clarsimp simp: run_inv_def inv_defs)
lemma w_connect_done: "run_inv s \<Longrightarrow> tp_place s = ConnectCb \<Longrightarrow> run_inv (tcp_connect_done s)"
  by (clarsimp simp: run_inv_def inv_defs tcp_connect_done_def task_reschedule_def waits_ok_def task_io_ok_def)
lemma w_ctl_end: "run_inv s \<Longrightarrow> tp_place s = CtlEnd \<Longrightarrow> run_inv (tcp_ctl_end s)"
  by (clarsimp simp: run_inv_def inv_defs tcp_ctl_end_def)

lemma log_ok_calls [simp]:
  "log_ok h er (l @ [OnEvent]) = log_ok h er l"
  "log_ok True er (l @ [OnSend]) = log_ok True er l" "log_ok True er (l @ [OnRecv]) = log_ok True er l"
  "log_ok False er l \<Longrightarrow> log_ok True er (l @ [OnConnect])"
  "log_ok h False l \<Longrightarrow> log_ok h True (l @ fail_calls f)"
  by (auto simp: log_ok_def elim: fail_calls.elims) (cases f; simp)+

lemma log_ok_weaken: "log_ok h er l \<Longrightarrow> (er \<longrightarrow> er') \<Longrightarrow> log_ok h er' l"
  by (auto simp: log_ok_def split: if_splits)

lemma ctl_there:
  assumes "run_inv s" and "ctl_place (tp_place s)"
  obtains c where "tp_ctl s = Some c" "ctl_ok c"
  using assms unfolding run_inv_def run_ctl_def by blast

text \<open>The message changes, the task does not.\<close>

lemma run_inv_ctl:
  assumes I: "run_inv s" and c: "tp_ctl s = Some c" and p: "ctl_place (tp_place s)" "tp_place s \<notin> {CtlAttached, CtlConnected, CtlCommit}" "\<not> ct_handshake c" "\<not> fail_place (tp_place s)"
    and ok: "ctl_ok c'" "ct_attach c' = ct_attach c" "ct_connect c' = ct_connect c" "\<not> ct_handshake c'" "ct_domain c' = ct_domain c"
      "ct_deadline c' = ct_deadline c" "ct_started c' = ct_started c"
    and q: "q \<in> {CtlAttach, CtlConnect, CtlHandshake, CtlIdle, Failing FailShutdown}"
  shows "run_inv (s\<lparr>tp_ctl := Some c', tp_place := q\<rparr>)"
proof -
  note R = I[unfolded run_inv_def]
  have h: "\<not> ctl_shakes (tp_ctl s)" using c p(3) by (simp add: ctl_shakes_def)
  have pl: "tp_place s \<noteq> RecvEnd" "tp_place s \<noteq> SendEnd" "tp_place s \<noteq> Closed" "running_place (tp_place s)" using p(1) by (cases "tp_place s"; simp)+
  have ql: "running_place q" "\<not> recv_free q" "\<not> send_free q" "\<not> fail_place q" using q by auto
  have "run_life (s\<lparr>tp_ctl := Some c', tp_place := q\<rparr>)" using R q pl by (auto simp: run_life_def)
  moreover have "run_ctl (s\<lparr>tp_ctl := Some c', tp_place := q\<rparr>)"
  proof -
    have st: "ctl_starts (Some c') = ctl_starts (Some c)" "\<not> ctl_shakes (Some c')" using ok by (simp_all add: ctl_starts_def ctl_shakes_def)
    have q2: "q \<notin> {CtlAttached, CtlConnected, CtlCommit}" "ctl_place q" using q by auto
    have en: "io_enabled (s\<lparr>tp_ctl := Some c', tp_place := q\<rparr>) = io_enabled s" using p(2) q2 h st(2) by (auto simp: io_enabled_def)
    have "run_ctl s" using R by simp
    then show ?thesis using c ok(1) p(2) q2 h st en unfolding run_ctl_def by simp
  qed
  moreover have "run_sock (s\<lparr>tp_ctl := Some c', tp_place := q\<rparr>)"
    using R c ok q p h pl by (auto simp: run_sock_def run_life_def io_enabled_def ctl_starts_def ctl_shakes_def)
  moreover have "run_event (s\<lparr>tp_ctl := Some c', tp_place := q\<rparr>)"
    using R c ok q p h pl ql by (auto simp: run_event_def Let_def io_enabled_def ctl_starts_def ctl_shakes_def)
  moreover have "run_data (s\<lparr>tp_ctl := Some c', tp_place := q\<rparr>)"
    using R q pl by (auto simp: run_data_def taken_bytes_def given_bytes_def Let_def)
  moreover have "run_log (s\<lparr>tp_ctl := Some c', tp_place := q\<rparr>)"
    using R ql p(4) by (simp add: run_log_def)
  ultimately show ?thesis by (simp add: run_inv_def)
qed

lemma w_idle:
  assumes I: "run_inv s" and p: "tp_place s = CtlIdle"
  shows "keeps s (tcp_ctl_idle s)"
proof -
  note R = I[unfolded run_inv_def]
  from ctl_there[OF I] p obtain c where c: "tp_ctl s = Some c" "ctl_ok c" by auto
  have "run_inv (s\<lparr>tp_ctl := co, tp_place := CtlEnd\<rparr>)" if "co = None \<and> ctl_is_idle c \<or> co = Some c" for co
    unfolding run_inv_def
  proof (intro conjI)
    let ?s = "s\<lparr>tp_ctl := co, tp_place := CtlEnd\<rparr>"
    show "run_life ?s" "run_data ?s" "run_log ?s" using R p by (auto simp: run_life_def run_data_def run_log_def taken_bytes_def given_bytes_def)
    have rc: "run_ctl s" using R by simp
    have h: "\<not> ctl_shakes (Some c)" using rc p c(1) unfolding run_ctl_def by simp
    have idle: "ctl_is_idle c \<Longrightarrow> \<not> ctl_starts (Some c) \<and> \<not> ct_connect c" by (simp add: ctl_is_idle_def ctl_starts_def)
    have no: "\<not> ctl_starts None" "\<not> ctl_shakes None" by (simp_all add: ctl_starts_def ctl_shakes_def)
    have en: "io_enabled ?s = io_enabled s" using p h c(1) no that by (auto simp: io_enabled_def)
    show "run_ctl ?s" using that
    proof
      assume "co = None \<and> ctl_is_idle c"
      then show ?thesis using rc p c h idle no en unfolding run_ctl_def by simp
    next
      assume "co = Some c"
      then show ?thesis using rc p c h en unfolding run_ctl_def by simp
    qed
    show "run_sock ?s" using R p c that by (auto simp: run_sock_def run_ctl_def io_enabled_def ctl_is_idle_def ctl_shakes_def)
    have re: "run_event s" using R by simp
    show "run_event ?s" using that
    proof
      assume "co = None \<and> ctl_is_idle c"
      then show ?thesis using re p c(1) idle en unfolding run_event_def Let_def by simp
    next
      assume "co = Some c"
      then show ?thesis using re p c(1) en unfolding run_event_def Let_def by simp
    qed
  qed
  then show ?thesis using c(1) by (simp add: tcp_ctl_idle_def tcp_at_def)
qed

lemma w_shutdown:
  assumes I: "run_inv s" and p: "tp_place s = CtlShutdown"
  shows "keeps s (tcp_ctl_shutdown er s)"
proof -
  from ctl_there[OF I] p obtain c where c: "tp_ctl s = Some c" "ctl_ok c" by auto
  have h: "\<not> ct_handshake c" using I c(1) p by (auto simp: run_inv_def run_ctl_def ctl_shakes_def)
  have same: "run_inv (s\<lparr>tp_ctl := Some c, tp_place := CtlAttach\<rparr>)"
    by (rule run_inv_ctl[OF I c(1) _ _ h]) (use p c h in simp_all)
  have fin: "run_inv (s\<lparr>tp_ctl := Some (c\<lparr>ct_shutdown := False\<rparr>), tp_place := q\<rparr>)" if "q \<in> {CtlAttach, Failing FailShutdown}" for q
    by (rule run_inv_ctl[OF I c(1) _ _ h]) (use p c h that in \<open>auto simp: ctl_ok_def\<close>)
  show ?thesis
  proof (cases "ct_shutdown c \<and> \<not> ct_connect c")
    case True
    then show ?thesis using fin[of CtlAttach] fin[of "Failing FailShutdown"] c(1)
      by (simp add: tcp_ctl_shutdown_def ctl_do_shutdown_def tcp_at_def)
  next
    case False
    have "s\<lparr>tp_ctl := Some c, tp_place := CtlAttach\<rparr> = tcp_at CtlAttach s" using c(1) by (cases s) (simp add: tcp_at_def)
    with same have "run_inv (tcp_at CtlAttach s)" by simp
    moreover have "tcp_ctl_shutdown er s = Some (tcp_at CtlAttach s)"
      using False c(1) by (cases s) (auto simp: tcp_ctl_shutdown_def ctl_do_shutdown_def tcp_at_def)
    ultimately show ?thesis by (simp add: tcp_at_def)
  qed
qed

lemma enabling:
  assumes I: "run_inv s" and p: "tp_place s = CtlAttached \<or> tp_place s = CtlConnected" and q: "q = CtlConnect \<or> q = CtlHandshake"
  shows "\<exists>s1 s2. tcp_handshake_start s = Some s1 \<and> tcp_enable_io s1 = Some s2 \<and> tp_running s2 = tp_running s \<and>
    run_inv (s2\<lparr>tp_place := q\<rparr>) \<and> run_inv (s2\<lparr>tp_task := task_reschedule (tp_task s2), tp_place := q\<rparr>)"
proof -
  note R = I[unfolded run_inv_def]
  obtain c where c: "tp_ctl s = Some c" "ctl_ok c" "ct_handshake c" "\<not> ct_connect c" "\<not> ct_attach c" "\<not> tp_handshaked s"
    "tp_state s = TCP_SOCKET_STATE_CONNECTING \<or> tp_state s = TCP_SOCKET_STATE_CLOSING" "\<not> ctl_starts (tp_front_ctl s)"
    using R p by (auto simp: run_ctl_def ctl_shakes_def ctl_starts_def split: option.splits)
  have en: "\<not> io_enabled s" using p c(6) by (auto simp: io_enabled_def)
  have ev: "ev_locked (tk_event (tp_task s) SendEvent)" "ev_locked (tk_event (tp_task s) RecvEvent)" "tk_out (tp_task s) = None"
    "tk_in (tp_task s) = None" "waits_ok (tp_task s)" "ev_empty (tk_event (tp_task s) SendEvent)" "ev_empty (tk_event (tp_task s) RecvEvent)"
    using R en p c(1,4) by (auto simp: run_event_def waits_ok_def Let_def)
  have run: "\<not> tk_closed (tp_task s)" "tk_sock (tp_task s) \<noteq> None" using R p by (auto simp: run_life_def run_sock_def)
  let ?k = "tk_set RecvEvent ((tk_event (tp_task s) RecvEvent)\<lparr>ev_locked := False\<rparr>)
    (tk_set SendEvent ((tk_event (tp_task s) SendEvent)\<lparr>ev_locked := False\<rparr>) (tp_task s))"
  let ?st = "if tp_state s = TCP_SOCKET_STATE_CONNECTING then TCP_SOCKET_STATE_HANDSHAKE else tp_state s"
  have inv: "run_inv (s\<lparr>tp_state := ?st, tp_task := k, tp_place := q\<rparr>)"
    if k: "tk_event k = tk_event ?k" "tk_in k = None" "tk_out k = None" "tk_closed k = tk_closed (tp_task s)" "tk_sock k = tk_sock (tp_task s)" for k
    unfolding run_inv_def
  proof (intro conjI)
    let ?s = "s\<lparr>tp_state := ?st, tp_task := k, tp_place := q\<rparr>"
    show "run_life ?s" using R p q c(7) run k by (auto simp: run_life_def)
    show "run_ctl ?s" using R p q c by (auto simp: run_ctl_def io_enabled_def ctl_starts_def ctl_shakes_def)
    show "run_sock ?s" using q run k c(1,3) by (auto simp: run_sock_def io_enabled_def ctl_shakes_def)
    show "run_event ?s" using q run k ev c(1,3,4)
      by (auto simp: run_event_def io_enabled_def ctl_shakes_def waits_ok_def task_io_ok_def tk_set_def Let_def)
    show "run_data ?s" using R p q by (auto simp: run_data_def taken_bytes_def given_bytes_def)
    show "run_log ?s" using R p q by (auto simp: run_log_def)
  qed
  have "tcp_handshake_start s = Some (s\<lparr>tp_state := ?st\<rparr>)" using c by (cases s) (auto simp: tcp_handshake_start_def)
  moreover have "tcp_enable_io (s\<lparr>tp_state := ?st\<rparr>) = Some (s\<lparr>tp_state := ?st, tp_task := ?k\<rparr>)"
    using ev(1,2) by (simp add: tcp_enable_io_def ev_unlock_def)
  moreover have "run_inv (s\<lparr>tp_state := ?st, tp_task := ?k, tp_place := q\<rparr>)" by (rule inv) (use ev in \<open>simp_all add: tk_set_def\<close>)
  moreover have "run_inv (s\<lparr>tp_state := ?st, tp_task := task_reschedule ?k, tp_place := q\<rparr>)"
    by (rule inv) (use ev in \<open>simp_all add: tk_set_def task_reschedule_def\<close>)
  ultimately show ?thesis by (intro exI[of _ "s\<lparr>tp_state := ?st\<rparr>"] exI[of _ "s\<lparr>tp_state := ?st, tp_task := ?k\<rparr>"]) simp
qed

lemma w_attached: "run_inv s \<Longrightarrow> tp_place s = CtlAttached \<Longrightarrow> keeps s (tcp_ctl_attached s)"
  using enabling[of s CtlConnect] by (auto simp: tcp_ctl_attached_def tcp_at_def)

lemma w_connected: "run_inv s \<Longrightarrow> tp_place s = CtlConnected \<Longrightarrow> keeps s (tcp_ctl_connected s)"
  using enabling[of s CtlHandshake] by (auto simp: tcp_ctl_connected_def tcp_at_def)

lemma w_handshake:
  assumes I: "run_inv s" and p: "tp_place s = CtlHandshake"
  shows "keeps s (tcp_ctl_handshake hs s)"
proof -
  note R = I[unfolded run_inv_def]
  from ctl_there[OF I] p obtain c where c: "tp_ctl s = Some c" "ctl_ok c" by auto
  let ?c = "c\<lparr>ct_handler := False, ct_handshake := False\<rparr>"
  have "run_inv (s\<lparr>tp_place := CtlIdle\<rparr>)" if h: "\<not> ct_handshake c"
    using run_inv_ctl[OF I c(1) _ _ h, of c CtlIdle] c h p by (cases s) simp
  moreover have "run_inv (s\<lparr>tp_ctl := Some ?c, tp_place := CtlCommit\<rparr>)" if h: "ct_handshake c"
    unfolding run_inv_def
  proof (intro conjI)
    let ?s = "s\<lparr>tp_ctl := Some ?c, tp_place := CtlCommit\<rparr>"
    have e: "io_enabled s" "\<not> tp_handshaked s" "\<not> ct_attach c" "\<not> ct_connect c"
      using R p c h by (auto simp: run_ctl_def io_enabled_def ctl_shakes_def ctl_ok_def)
    show "run_life ?s" using R p by (auto simp: run_life_def)
    show "run_ctl ?s" using R p c e by (auto simp: run_ctl_def io_enabled_def ctl_shakes_def ctl_starts_def ctl_ok_def)
    show "run_sock ?s" using R e by (auto simp: run_sock_def io_enabled_def)
    show "run_event ?s" using R p c e by (auto simp: run_event_def io_enabled_def Let_def)
    show "run_data ?s" using R p by (auto simp: run_data_def taken_bytes_def given_bytes_def)
    show "run_log ?s" using R p by (auto simp: run_log_def)
  qed
  moreover have "\<not> ct_handler c" using c(2) by (simp add: ctl_ok_def)
  moreover have "\<not> ct_attach c \<and> \<not> ct_connect c" if "ct_handshake c" using c(2) that by (simp add: ctl_ok_def)
  ultimately show ?thesis using c(1) by (auto simp: tcp_ctl_handshake_def ctl_do_handshake_def ctl_end_handshake_def tcp_at_def)
qed

lemma w_commit:
  assumes I: "run_inv s" and p: "tp_place s = CtlCommit"
  shows "keeps s (tcp_handshake_commit s)"
proof -
  note R = I[unfolded run_inv_def]
  have c: "\<not> tp_handshaked s" "io_enabled s" using R p by (auto simp: run_ctl_def io_enabled_def)
  have st: "tp_state s = TCP_SOCKET_STATE_HANDSHAKE \<or> tp_state s = TCP_SOCKET_STATE_CLOSING" using R c by (auto simp: run_ctl_def)
  let ?st = "if tp_state s = TCP_SOCKET_STATE_HANDSHAKE then TCP_SOCKET_STATE_CONNECTED else tp_state s"
  let ?s = "s\<lparr>tp_state := ?st, tp_handshaked := True, tp_log := tp_log s @ [OnConnect], tp_place := ConnectCb\<rparr>"
  have "run_inv ?s"
    unfolding run_inv_def
  proof (intro conjI)
    show "run_life ?s" using R p st by (auto simp: run_life_def)
    show "run_ctl ?s" using R p c st by (auto simp: run_ctl_def io_enabled_def)
    show "run_sock ?s" using R p c by (auto simp: run_sock_def io_enabled_def)
    show "run_event ?s" using R p by (auto simp: run_event_def io_enabled_def Let_def)
    show "run_data ?s" using R p by (auto simp: run_data_def taken_bytes_def given_bytes_def)
    have "log_ok False (tp_close_asked s) (tp_log s)" using R p c by (simp add: run_log_def)
    then have "log_ok True (tp_close_asked s) (tp_log s @ [OnConnect])" by (rule log_ok_calls)
    then show "run_log ?s" by (simp add: run_log_def)
  qed
  moreover have "tp_sub s" using R by (simp add: run_life_def)
  ultimately show ?thesis using c(1) st by (auto simp: tcp_handshake_commit_def tcp_call_def)
qed

lemma w_failing:
  assumes I: "run_inv s" and p: "tp_place s = Failing f"
  shows "keeps s (tcp_failing f s)"
proof -
  note R = I[unfolded run_inv_def]
  have st: "compromised (tp_state s) = tp_close_asked s" using R by (auto simp: run_life_def compromised_def)
  have inv: "run_inv (s\<lparr>tp_log := l, tp_place := q\<rparr>)"
    if "q = FailCb f \<or> q = FailClose f" "log_ok (tp_handshaked s) True l" for q l
    unfolding run_inv_def
  proof (intro conjI)
    let ?s = "s\<lparr>tp_log := l, tp_place := q\<rparr>"
    have q: "q \<notin> {CtlAttached, CtlConnected, CtlConnect, CtlHandshake, CtlCommit, Closed, ClosedRest, CloseCb, RecvEnd, SendEnd}"
      "ctl_place q = ctl_place (Failing f)" "recv_free q = recv_free (Failing f)" "send_free q = send_free (Failing f)"
      using that(1) by auto
    have h: "\<not> ctl_shakes (tp_ctl s)" using R p by (simp add: run_ctl_def)
    have en: "io_enabled ?s = io_enabled s" using p q(1) h by (simp add: io_enabled_def)
    show "run_life ?s" using R p q by (auto simp: run_life_def)
    show "run_ctl ?s" using R p q en h by (simp add: run_ctl_def)
    show "run_sock ?s" using R p q en by (simp add: run_sock_def)
    show "run_event ?s" using R p q en by (simp add: run_event_def Let_def)
    show "run_data ?s" using R p that by (auto simp: run_data_def taken_bytes_def given_bytes_def)
    show "run_log ?s" using that by (auto simp: run_log_def)
  qed
  have l: "log_ok (tp_handshaked s) (tp_close_asked s) (tp_log s)" using R p by (simp add: run_log_def)
  show ?thesis
  proof (cases "tp_close_asked s")
    case True
    then have "run_inv (s\<lparr>tp_log := tp_log s, tp_place := FailClose f\<rparr>)" using l by (intro inv) simp_all
    then show ?thesis using True st by (cases s) (simp add: tcp_failing_def tcp_at_def)
  next
    case False
    then have "run_inv (s\<lparr>tp_log := tp_log s @ fail_calls f, tp_place := FailCb f\<rparr>)" using l by (intro inv) simp_all
    moreover have "tp_sub s" using R by (simp add: run_life_def)
    ultimately show ?thesis using False st by (simp add: tcp_failing_def tcp_call_def)
  qed
qed

lemma w_fail_cb: "run_inv s \<Longrightarrow> tp_place s = FailCb f \<Longrightarrow> run_inv (tcp_at (FailClose f) s)"
  by (clarsimp simp: run_inv_def inv_defs)

lemma w_fail_close:
  assumes I: "run_inv s" and r: "tp_running s" and p: "tp_place s = FailClose f"
  shows "keeps s (tcp_fail_close f s)"
proof -
  note R = I[unfolded run_inv_def]
  let ?k = "case f of FailSend \<Rightarrow> tk_set SendEvent ((tk_event (tp_task s) SendEvent)\<lparr>ev_locked := True\<rparr>) (tp_task s)
    | FailRecv \<Rightarrow> tk_set RecvEvent ((tk_event (tp_task s) RecvEvent)\<lparr>ev_locked := True\<rparr>) (tp_task s) | _ \<Rightarrow> tp_task s"
  let ?s = "s\<lparr>tp_state := TCP_SOCKET_STATE_CLOSING, tp_close_asked := True, tp_task := ?k, tp_place := fail_next f\<rparr>"
  have st: "tp_state s \<noteq> TCP_SOCKET_STATE_NEW" "tp_state s \<noteq> TCP_SOCKET_STATE_CLOSED" "\<not> tk_closed (tp_task s)"
    using R p by (auto simp: run_life_def)
  have free: "f = FailSend \<Longrightarrow> \<not> ev_locked (tk_event (tp_task s) SendEvent)" "f = FailRecv \<Longrightarrow> \<not> ev_locked (tk_event (tp_task s) RecvEvent)"
    using R p by (auto simp: run_event_def Let_def)
  have k: "tk_sock ?k = tk_sock (tp_task s)" "tk_closed ?k = tk_closed (tp_task s)" "tk_in ?k = tk_in (tp_task s)" "tk_out ?k = tk_out (tp_task s)"
    "tk_ready ?k = tk_ready (tp_task s)" by (cases f; simp add: tk_set_def)+
  have "run_inv ?s"
    unfolding run_inv_def
  proof (intro conjI)
    have q: "fail_next f \<notin> {Closed, ClosedRest, CloseCb, RecvEnd, SendEnd}" "\<not> fail_place (fail_next f)" by (cases f; simp)+
    have en: "io_enabled ?s = io_enabled s" using R p by (cases f) (auto simp: io_enabled_def run_ctl_def)
    show "run_life ?s" using R p q k by (auto simp: run_life_def)
    show "run_ctl ?s" using R p en by (cases f) (auto simp: run_ctl_def)
    show "run_sock ?s" using R p en k by (cases f) (auto simp: run_sock_def)
    show "run_event ?s" using R p en by (cases f) (auto simp: run_event_def Let_def waits_ok_def task_io_ok_def tk_set_def)
    show "run_data ?s" using R p q by (auto simp: run_data_def taken_bytes_def given_bytes_def)
    show "run_log ?s" using R p by (simp add: run_log_def)
  qed
  then show ?thesis using r st free
    by (cases f) (simp_all add: tcp_fail_close_def tcp_prot_close_def tcp_lock_event_def tcp_at_def ev_lock_def)
qed

lemma w_take:
  assumes I: "run_inv s" and p: "tp_place s = CtlTake"
  shows "keeps s (tcp_ctl_take s)"
proof -
  note R = I[unfolded run_inv_def]
  have frame: "run_life (s\<lparr>tp_ctl := co, tp_front_ctl := fo, tp_task := k, tp_place := q\<rparr>) \<and> run_data (s\<lparr>tp_ctl := co, tp_front_ctl := fo, tp_task := k, tp_place := q\<rparr>) \<and>
      run_log (s\<lparr>tp_ctl := co, tp_front_ctl := fo, tp_task := k, tp_place := q\<rparr>)"
    if "q \<in> {CtlEnd, CtlShutdown}" "tk_closed k = tk_closed (tp_task s)" "tk_sock k = tk_sock (tp_task s)" for co fo k q
    using R p that by (auto simp: run_life_def run_data_def run_log_def taken_bytes_def given_bytes_def)
  have h: "\<not> ctl_shakes (tp_ctl s)" using R p by (auto simp: run_ctl_def)
  show ?thesis
  proof (cases "tp_front_ctl s")
    case None
    let ?s = "\<lambda>q. s\<lparr>tp_ctl := tp_ctl s, tp_front_ctl := None, tp_task := tp_task s, tp_place := q\<rparr>"
    have "run_inv (?s q)" if "q = CtlEnd \<or> q = CtlShutdown \<and> tp_ctl s \<noteq> None" for q
      unfolding run_inv_def
    proof (intro conjI)
      show "run_life (?s q)" "run_data (?s q)" "run_log (?s q)" using frame[where q = q and k = "tp_task s" and co = "tp_ctl s" and fo = None] that by auto
      have en: "io_enabled (?s q) = io_enabled s" using p that h by (auto simp: io_enabled_def)
      have rc: "run_ctl s" using R by simp
      show "run_ctl (?s q)" using that by (elim disjE) (use rc p h None en in \<open>simp_all add: run_ctl_def\<close>)
      show "run_sock (?s q)" using R p that h None by (auto simp: run_sock_def io_enabled_def)
      show "run_event (?s q)" using R p that h None by (auto simp: run_event_def io_enabled_def Let_def)
    qed
    then show ?thesis using None by (cases s) (auto simp: tcp_ctl_take_def tcp_at_def)
  next
    case (Some f)
    then have f: "front_ok f" using R by (simp add: run_ctl_def)
    show ?thesis
    proof (cases "tp_ctl s")
      case None
      let ?k = "tk_set ConnectEvent ev_reset (tp_task s)"
      let ?s = "s\<lparr>tp_ctl := Some f, tp_front_ctl := None, tp_task := ?k, tp_place := CtlShutdown\<rparr>"
      have ev: "tk_out (tp_task s) \<noteq> Some ConnectEvent" "waits_ok (tp_task s)" using R None by (auto simp: run_event_def Let_def)
      have k: "waits_ok ?k" using ev by (auto simp: waits_ok_def task_io_ok_def tk_set_def)
      have "run_inv ?s"
        unfolding run_inv_def
      proof (intro conjI)
        show "run_life ?s" "run_data ?s" "run_log ?s" using frame[of CtlShutdown ?k] by (auto simp: tk_set_def)
        have f2: "ctl_ok f" "\<not> ct_handshake f" using f by (simp_all add: front_ok_def)
        have en: "io_enabled ?s = io_enabled s" using p by (simp add: io_enabled_def)
        have cs: "ctl_starts (tp_front_ctl s) = ctl_starts (Some f)" "\<not> ctl_starts None" "\<not> ctl_shakes (Some f)"
          using Some f2 by (simp_all add: ctl_starts_def ctl_shakes_def)
        have "run_ctl s" using R by simp
        then show "run_ctl ?s" using p f2 en cs None Some unfolding run_ctl_def by (simp add: cs)
        have "run_sock s" using R by simp
        then show "run_sock ?s" using p en None unfolding run_sock_def by (auto simp: tk_set_def)
        have "run_event s" using R by simp
        then show "run_event ?s" using p en None k ev(1) unfolding run_event_def Let_def by (auto simp: tk_set_def ev_reset_def)
      qed
      then show ?thesis using None Some by (simp add: tcp_ctl_take_def tcp_at_def)
    next
      case c: (Some c)
      have nf: "\<not> ct_attach f" "\<not> ct_connect f" using R c Some by (auto simp: run_ctl_def ctl_starts_def)
      let ?c = "c\<lparr>ct_shutdown := ct_shutdown c \<or> ct_shutdown f\<rparr>"
      have m: "ctl_merge f c = Some ?c" using nf f
        by (cases c) (auto simp: ctl_merge_def ctl_merge_attach_def ctl_merge_connect_def ctl_merge_shutdown_def front_ok_def ctl_ok_def)
      let ?s = "s\<lparr>tp_ctl := Some ?c, tp_front_ctl := None, tp_task := tp_task s, tp_place := CtlShutdown\<rparr>"
      have "run_inv ?s"
        unfolding run_inv_def
      proof (intro conjI)
        show "run_life ?s" "run_data ?s" "run_log ?s" using frame[of CtlShutdown "tp_task s"] by auto
        have st: "ctl_starts (Some ?c) = ctl_starts (Some c)" "ctl_shakes (Some ?c) = ctl_shakes (Some c)" "ctl_ok ?c = ctl_ok c"
          by (simp_all add: ctl_starts_def ctl_shakes_def ctl_ok_def)
        have en: "io_enabled ?s = io_enabled s" using p c h st(2) by (simp add: io_enabled_def)
        have no: "\<not> ctl_starts None" by (simp add: ctl_starts_def)
        have "run_ctl s" using R by simp
        then show "run_ctl ?s" using p c h st en no unfolding run_ctl_def by simp
        show "run_sock ?s" using R p c h by (auto simp: run_sock_def io_enabled_def ctl_shakes_def)
        show "run_event ?s" using R p c h by (auto simp: run_event_def Let_def io_enabled_def ctl_shakes_def)
      qed
      then show ?thesis using c Some m by (cases s) (simp add: tcp_ctl_take_def tcp_at_def)
    qed
  qed
qed

lemma w_attach:
  assumes I: "run_inv s" and p: "tp_place s = CtlAttach"
  shows "keeps s (tcp_ctl_attach s)"
proof -
  note R = I[unfolded run_inv_def]
  from ctl_there[OF I] p obtain c where c: "tp_ctl s = Some c" "ctl_ok c" by auto
  have h: "\<not> ct_handshake c" using R c(1) p by (auto simp: run_ctl_def ctl_shakes_def)
  show ?thesis
  proof (cases "ct_attach c")
    case False
    then show ?thesis using run_inv_ctl[OF I c(1) _ _ h, of c CtlConnect] c h p by (cases s) (simp add: tcp_ctl_attach_def tcp_at_def)
  next
    case True
    then obtain so where so: "ct_attach_socket c = Some so" "\<not> ct_connect c" using c(2) by (auto simp: ctl_ok_def)
    have st: "\<not> io_enabled s" "ctl_starts (tp_ctl s)" using R c True p by (auto simp: run_ctl_def ctl_starts_def)
    have k: "\<not> tk_closed (tp_task s)" "tk_sock (tp_task s) = None"
      using R p st so(2) c by (auto simp: run_life_def run_sock_def)
    have w: "tk_in (tp_task s) = None" "tk_out (tp_task s) = None" "tk_ready (tp_task s) = 0"
      using R k by (auto simp: run_event_def waits_ok_def task_io_ok_def Let_def)
    let ?k = "(tp_task s)\<lparr>tk_sock := Some so\<rparr>" and ?c = "c\<lparr>ct_attach := False, ct_attach_socket := None, ct_handshake := True\<rparr>"
    have e: "ctl_do_attach c (tp_task s) = Some (?c, ?k)"
      using True so k w h by (simp add: ctl_do_attach_def task_attach_socket_def ctl_start_handshake_def)
    let ?s = "s\<lparr>tp_ctl := Some ?c, tp_task := ?k, tp_place := CtlAttached\<rparr>"
    have "run_inv ?s"
      unfolding run_inv_def
    proof (intro conjI)
      show "run_life ?s" "run_data ?s" "run_log ?s" using R p by (auto simp: run_life_def run_data_def run_log_def taken_bytes_def given_bytes_def)
      show "run_ctl ?s" using R p c st True so(2) by (auto simp: run_ctl_def io_enabled_def ctl_ok_def ctl_starts_def ctl_shakes_def)
      show "run_sock ?s" by (simp add: run_sock_def)
      show "run_event ?s" using R p c st w so(2) by (auto simp: run_event_def waits_ok_def task_io_ok_def Let_def io_enabled_def)
    qed
    then show ?thesis using c True e by (simp add: tcp_ctl_attach_def tcp_at_def)
  qed
qed

end
