(* ===== verification/Tcp_Connecting.thy ===== *)
theory Tcp_Connecting
  imports Tcp_Steps
begin

text \<open>
  The step of a callback that connects keeps the invariant of the socket and has a result.
\<close>

section \<open>Connecting\<close>

text \<open>What an attempt to connect finds, and the three ways it ends.\<close>

definition connecting :: "tcp_ctl \<Rightarrow> tcp_task \<Rightarrow> bool" where
  "connecting c k =
    (ctl_ok c \<and> ct_connect c \<and> waits_ok k \<and> \<not> tk_closed k \<and> tk_in k = None \<and> tk_out k \<noteq> Some SendEvent \<and>
     ev_empty (tk_event k ConnectEvent) \<and> (ev_locked (tk_event k ConnectEvent) \<longrightarrow> tk_out k = Some ConnectEvent) \<and>
     (tk_sock k \<noteq> None \<longrightarrow> ct_domain c = None \<and> ct_deadline c = 0 \<and> ct_started c))"

definition connect_ended :: "tcp_task \<Rightarrow> error_code option \<Rightarrow> tcp_ctl \<Rightarrow> tcp_task \<Rightarrow> bool" where
  "connect_ended k0 er c k =
    (tk_event k SendEvent = tk_event k0 SendEvent \<and> tk_event k RecvEvent = tk_event k0 RecvEvent \<and>
     (connecting c k \<and> er = None \<or>
      ctl_ok c \<and> \<not> ct_connect c \<and> \<not> ct_attach c \<and> ct_handshake c = (er = None) \<and> waits_ok k \<and> \<not> tk_closed k \<and>
      tk_in k = None \<and> tk_out k = None \<and> (tk_sock k = None) = (er \<noteq> None)))"

text \<open>The end of an attempt, after the system call has said \<open>ok\<close> and left the task as \<open>k\<close>.\<close>

definition connect_io_end :: "bool \<Rightarrow> tcp_ctl \<Rightarrow> tcp_task \<Rightarrow> (error_code option \<times> tcp_ctl \<times> tcp_task) option" where
  "connect_io_end ok c0 k =
     (let c = (if ok then c0\<lparr>ct_socket := None\<rparr> else c0) in
      if ev_locked (tk_event k ConnectEvent) then Some (None, c, k)
      else if \<not> ok
      then do { (er, e) \<leftarrow> ev_pop_error (tk_event k ConnectEvent);
                c \<leftarrow> ctl_end_connect c;
                Some (Some er, c, tk_set ConnectEvent e k) }
      else do { (n, e) \<leftarrow> ev_pop_bytes (tk_event k ConnectEvent);
                mg_assert (n = 0);
                c \<leftarrow> ctl_end_connect c;
                c \<leftarrow> ctl_start_handshake c;
                let k = tk_set ConnectEvent e k;
                Some (None, c, if ct_shutdown c then task_reschedule k else k) })"

lemma connect_io_split:
  "ctl_connect_io cr rc c k =
     do { (ok, k) \<leftarrow>
            (if tk_sock k \<noteq> None then task_connect_update ConnectEvent k
             else case ct_socket c of
                    Some so \<Rightarrow> task_connect_start so rc ConnectEvent k
                  | None \<Rightarrow> map_option (\<lambda>(ok, k, _). (ok, k)) (task_connect_host cr rc ConnectEvent k));
          connect_io_end ok c k }"
  by (simp add: ctl_connect_io_def connect_io_end_def Let_def)

definition connect_made :: "tcp_task \<Rightarrow> bool \<Rightarrow> tcp_task \<Rightarrow> bool" where
  "connect_made k0 ok k =
    (tk_event k SendEvent = tk_event k0 SendEvent \<and> tk_event k RecvEvent = tk_event k0 RecvEvent \<and>
     waits_ok k \<and> \<not> tk_closed k \<and> tk_in k = None \<and> (tk_sock k \<noteq> None) = ok \<and>
     (let e = tk_event k ConnectEvent in
      if ev_locked e then tk_out k = Some ConnectEvent \<and> ev_empty e \<and> ok
      else tk_out k = None \<and> \<not> ev_empty e \<and> ev_error e = (\<not> ok) \<and> (ok \<longrightarrow> ev_bytes e = 0)))"

lemma connect_io_made:
  assumes c: "connecting c k" and d: "ct_domain c = None" "ct_deadline c = 0" "ct_started c" and m: "connect_made k ok k1"
  shows "\<exists>er c' k'. connect_io_end ok c k1 = Some (er, c', k') \<and> connect_ended k er c' k'"
proof -
  have a: "ct_connect c" "\<not> ct_attach c" "\<not> ct_handshake c" "ct_attach_socket c = None" "\<not> ct_handler c"
    using c by (auto simp: connecting_def ctl_ok_def)
  note m' = m[unfolded connect_made_def Let_def]
  show ?thesis
  proof (cases "ev_locked (tk_event k1 ConnectEvent)")
    case True
    then show ?thesis using m' a d by (simp add: connect_io_end_def connect_ended_def connecting_def ctl_ok_def)
  next
    case False
    show ?thesis
    proof (cases ok)
      case True
      let ?c = "c\<lparr>ct_socket := None, ct_domain := None, ct_started := False, ct_connect := False, ct_handshake := True\<rparr>"
      let ?k = "tk_set ConnectEvent ((tk_event k1 ConnectEvent)\<lparr>ev_empty := True\<rparr>) k1"
      have "connect_io_end ok c k1 = Some (None, ?c, if ct_shutdown c then task_reschedule ?k else ?k)"
        using True m' a False
        by (simp add: connect_io_end_def ev_pop_bytes_def ctl_end_connect_def ctl_start_handshake_def Let_def)
      moreover have "connect_ended k None ?c (if ct_shutdown c then task_reschedule ?k else ?k)"
        using True m' a False by (auto simp: connect_ended_def ctl_ok_def tk_set_def task_reschedule_def waits_ok_def task_io_ok_def)
      ultimately show ?thesis by blast
    next
      case nok: False
      let ?c = "c\<lparr>ct_domain := None, ct_socket := None, ct_started := False, ct_connect := False\<rparr>"
      let ?k = "tk_set ConnectEvent ((tk_event k1 ConnectEvent)\<lparr>ev_empty := True\<rparr>) k1"
      have "connect_io_end ok c k1 = Some (Some (ev_code (tk_event k1 ConnectEvent)), ?c, ?k)"
        using nok m' a False by (simp add: connect_io_end_def ev_pop_error_def ctl_end_connect_def Let_def)
      moreover have "connect_ended k (Some (ev_code (tk_event k1 ConnectEvent))) ?c ?k"
        using nok m' a False by (auto simp: connect_ended_def ctl_ok_def tk_set_def waits_ok_def task_io_ok_def)
      ultimately show ?thesis by blast
    qed
  qed
qed

lemma connect_start_made:
  assumes "connecting c k" and "tk_sock k = None"
  shows "\<exists>ok k1. task_connect_start so rc ConnectEvent k = Some (ok, k1) \<and> connect_made k ok k1"
    and "\<exists>ok k1 cl. task_connect_host cr rc ConnectEvent k = Some (ok, k1, cl) \<and> connect_made k ok k1"
proof -
  have w: "tk_out k = None" "tk_in k = None" "tk_ready k = 0" "\<not> ev_locked (tk_event k ConnectEvent)" "ev_empty (tk_event k ConnectEvent)"
    "waits_ok k" "\<not> tk_closed k"
    using assms by (auto simp: connecting_def waits_ok_def task_io_ok_def)
  have 1: "\<exists>ok k1. task_connect_start so rc ConnectEvent k = Some (ok, k1) \<and> connect_made k ok k1 \<and> (\<not> ok \<longrightarrow> \<not> ev_locked (tk_event k1 ConnectEvent))" for so
    using w assms(2)
    by (cases rc) (auto simp: task_connect_start_def task_attach_socket_def connect_made_def Let_def tk_set_def ev_defs waits_ok_def task_io_ok_def)
  then show "\<exists>ok k1. task_connect_start so rc ConnectEvent k = Some (ok, k1) \<and> connect_made k ok k1" by blast
  show "\<exists>ok k1 cl. task_connect_host cr rc ConnectEvent k = Some (ok, k1, cl) \<and> connect_made k ok k1"
  proof (cases cr)
    case (Inl e)
    then show ?thesis using w assms(2)
      by (auto simp: task_connect_host_def connect_made_def Let_def tk_set_def ev_defs waits_ok_def task_io_ok_def)
  next
    case (Inr x)
    from 1[of x] obtain ok k1 where s: "task_connect_start x rc ConnectEvent k = Some (ok, k1)" "connect_made k ok k1"
      "\<not> ok \<longrightarrow> \<not> ev_locked (tk_event k1 ConnectEvent)" by blast
    then show ?thesis using Inr by (cases ok) (auto simp: task_connect_host_def connect_made_def Let_def ev_is_error_def)
  qed
qed

lemma connect_update_made:
  assumes "connecting c k" and "tk_sock k = Some so"
  shows "\<exists>k1. task_connect_update ConnectEvent k = Some (True, k1) \<and> connect_made k True k1"
proof (cases "ev_locked (tk_event k ConnectEvent)")
  case True
  then show ?thesis using assms by (simp add: connecting_def connect_made_def task_connect_update_def)
next
  case False
  then have "tk_out k = None" using assms by (auto simp: connecting_def waits_ok_def task_io_ok_def)
  then show ?thesis using assms False
    by (simp add: connecting_def connect_made_def task_connect_update_def tk_set_def ev_is_empty_def ev_return_bytes_def waits_ok_def task_io_ok_def)
qed

lemma connect_io_ended:
  assumes c: "connecting c k" and d: "ct_domain c = None" "ct_deadline c = 0" "ct_started c"
  shows "\<exists>er c' k'. ctl_connect_io cr rc c k = Some (er, c', k') \<and> connect_ended k er c' k'"
proof -
  note made = connect_io_made[OF c d]
  show ?thesis
  proof (cases "tk_sock k")
    case (Some so)
    with connect_update_made[OF c] obtain k1 where "task_connect_update ConnectEvent k = Some (True, k1)" "connect_made k True k1" by blast
    then show ?thesis using made[of True k1] Some by (simp add: connect_io_split)
  next
    case None
    note st = connect_start_made[OF c None]
    show ?thesis
    proof (cases "ct_socket c")
      case so: None
      from st(2)[of cr rc] obtain ok k1 cl where "task_connect_host cr rc ConnectEvent k = Some (ok, k1, cl)" "connect_made k ok k1" by blast
      then show ?thesis using made[of ok k1] None so by (simp add: connect_io_split)
    next
      case (Some so)
      from st(1)[of so rc] obtain ok k1 where "task_connect_start so rc ConnectEvent k = Some (ok, k1)" "connect_made k ok k1" by blast
      then show ?thesis using made[of ok k1] None Some by (simp add: connect_io_split)
    qed
  qed
qed

lemma do_connect_ended:
  assumes c: "connecting c k"
  shows "\<exists>er c' k'. ctl_do_connect ts now cr rc c k = Some (er, c', k') \<and> connect_ended k er c' k'"
proof -
  let ?c = "ctl_start_connect ts c"
  have s: "connecting ?c k" "ct_started ?c" using c by (auto simp: connecting_def ctl_start_connect_def ctl_ok_def)
  have a: "ct_connect c" "\<not> ct_attach c" using c by (auto simp: connecting_def ctl_ok_def)
  let ?z = "?c\<lparr>ct_deadline := 0\<rparr>"
  have z: "connecting ?z k" "ct_started ?z" using s by (auto simp: connecting_def ctl_ok_def)
  consider (later) "ct_deadline ?c \<noteq> 0" "now < ct_deadline ?c" | (now) "\<not> (ct_deadline ?c \<noteq> 0 \<and> now < ct_deadline ?c)" by blast
  then show ?thesis
  proof cases
    case later
    then show ?thesis using s a
      by (auto simp: ctl_do_connect_def Let_def connect_ended_def connecting_def task_set_deadline_def waits_ok_def task_io_ok_def)
  next
    case now
    note n = if_not_P[OF now]
    show ?thesis
    proof (cases "ct_domain ?z")
      case None
      have dl: "ct_deadline ?z = 0" by simp
      from connect_io_ended[OF z(1) None dl z(2)] show ?thesis using None a unfolding ctl_do_connect_def Let_def n by simp
    next
      case (Some d)
      then have h: "\<not> ct_host ?c" "tk_sock k = None" using s by (auto simp: connecting_def ctl_ok_def)
      let ?r = "?z\<lparr>ct_host := True, ct_domain := None\<rparr>"
      have r: "connecting ?r k" using z h by (auto simp: connecting_def ctl_ok_def)
      have w: "waits_ok k" "tk_out k = None" "tk_in k = None" "\<not> tk_closed k" using z h by (auto simp: connecting_def waits_ok_def task_io_ok_def)
      have e: "ctl_end_connect (?z\<lparr>ct_host := False, ct_domain := None\<rparr>) =
          Some (?z\<lparr>ct_host := False, ct_domain := None, ct_socket := None, ct_started := False, ct_connect := False\<rparr>)"
        using z by (simp add: ctl_end_connect_def connecting_def)
      show ?thesis
      proof (cases d)
        case (DomDone er)
        show ?thesis
        proof (cases er)
          case None
          then show ?thesis using a h Some DomDone connect_io_ended[OF r, of cr rc] z(2) unfolding ctl_do_connect_def Let_def n by simp
        next
          case er: (Some x)
          then show ?thesis using a h Some DomDone e w z unfolding ctl_do_connect_def Let_def n
            by (simp add: connect_ended_def) (auto simp: connecting_def ctl_ok_def)
        qed
      qed (use a h Some z in \<open>unfold ctl_do_connect_def Let_def n, auto simp: connect_ended_def connecting_def ctl_ok_def\<close>)
    qed
  qed
qed

lemma w_connect:
  assumes I: "run_inv s" and p: "tp_place s = CtlConnect"
  shows "keeps s (tcp_ctl_connect ts now cr rc s)"
proof -
  note R = I[unfolded run_inv_def]
  from ctl_there[OF I] p obtain c where c: "tp_ctl s = Some c" "ctl_ok c" by auto
  have run: "\<not> tk_closed (tp_task s)" using R p by (auto simp: run_life_def)
  show ?thesis
  proof (cases "ct_connect c")
    case False
    have "run_inv (s\<lparr>tp_place := CtlHandshake\<rparr>)"
      unfolding run_inv_def
    proof (intro conjI)
      let ?s = "s\<lparr>tp_place := CtlHandshake\<rparr>"
      have en: "io_enabled ?s = io_enabled s" using p by (auto simp: io_enabled_def)
      show "run_life ?s" using R p by (auto simp: run_life_def)
      show "run_ctl ?s" using R p en by (simp add: run_ctl_def)
      show "run_sock ?s" using R p en by (simp add: run_sock_def)
      show "run_event ?s" using R p en by (simp add: run_event_def Let_def)
      show "run_data ?s" using R p by (auto simp: run_data_def taken_bytes_def given_bytes_def)
      show "run_log ?s" using R p by (auto simp: run_log_def)
    qed
    then show ?thesis using c False by (simp add: tcp_ctl_connect_def tcp_at_def)
  next
    case True
    have starts: "ctl_starts (tp_ctl s)" using c True by (simp add: ctl_starts_def)
    have no: "\<not> ct_attach c" "\<not> ct_handshake c" using c True by (auto simp: ctl_ok_def)
    have rc: "run_ctl s" using R by simp
    have en0: "\<not> io_enabled s" using rc starts unfolding run_ctl_def by blast
    have en: "\<not> io_enabled s" "\<not> tp_handshaked s" "\<not> ctl_starts (tp_front_ctl s)"
      "tp_state s = TCP_SOCKET_STATE_CONNECTING \<or> tp_state s = TCP_SOCKET_STATE_CLOSING"
    proof -
      show "\<not> io_enabled s" by (rule en0)
      show "\<not> tp_handshaked s" using en0 by (simp add: io_enabled_def)
      have "ctl_starts (tp_front_ctl s) \<longrightarrow> tp_ctl s = None" using rc unfolding run_ctl_def by blast
      then show "\<not> ctl_starts (tp_front_ctl s)" using c(1) by auto
      show "tp_state s = TCP_SOCKET_STATE_CONNECTING \<or> tp_state s = TCP_SOCKET_STATE_CLOSING"
        using rc starts unfolding run_ctl_def by blast
    qed
    have conn: "connecting c (tp_task s)"
      using R c True run en(1) p by (auto simp: connecting_def run_event_def run_sock_def Let_def)
    from do_connect_ended[OF conn] obtain er c' k where e: "ctl_do_connect ts now cr rc c (tp_task s) = Some (er, c', k)"
      and en': "connect_ended (tp_task s) er c' k" by blast
    let ?q = "if er \<noteq> None then Failing FailConnect else if ct_connect c' then CtlHandshake else CtlConnected"
    let ?s = "s\<lparr>tp_ctl := Some c', tp_task := k, tp_place := ?q\<rparr>"
    have er: "er \<noteq> None \<longrightarrow> \<not> ct_connect c'" using en' by (auto simp: connect_ended_def)
    have c': "ctl_ok c'" "\<not> ct_attach c'" "ct_handshake c' = (er = None \<and> \<not> ct_connect c')"
      using en' by (auto simp: connect_ended_def connecting_def ctl_ok_def)
    have k: "tk_event k SendEvent = tk_event (tp_task s) SendEvent" "tk_event k RecvEvent = tk_event (tp_task s) RecvEvent"
      "waits_ok k" "\<not> tk_closed k" "tk_in k = None" "tk_out k \<noteq> Some SendEvent"
      using en' by (auto simp: connect_ended_def connecting_def)
    have kc: "ct_connect c' \<Longrightarrow> connecting c' k" "\<not> ct_connect c' \<Longrightarrow> tk_out k = None \<and> (tk_sock k = None) = (er \<noteq> None)"
      using en' by (auto simp: connect_ended_def connecting_def)
    have en2: "\<not> io_enabled ?s" using en(2) c' by (auto simp: io_enabled_def ctl_shakes_def)
    have q: "?q \<in> {Failing FailConnect, CtlHandshake, CtlConnected}" by auto
    have "run_inv ?s"
      unfolding run_inv_def
    proof (intro conjI)
      show "run_life ?s" using R p k(4) by (auto simp: run_life_def)
      have fo: "\<forall>c. tp_front_ctl s = Some c \<longrightarrow> front_ok c" using R by (simp add: run_ctl_def)
      have st: "ctl_starts (Some c') = ct_connect c'" "ctl_shakes (Some c') = (er = None \<and> \<not> ct_connect c')"
        using c' by (auto simp: ctl_starts_def ctl_shakes_def)
      have st2: "tp_state s \<noteq> TCP_SOCKET_STATE_EMPTY" using en(4) by auto
      show "run_ctl ?s"
        using fo st st2 en(2-4) en2 c'(1) q unfolding run_ctl_def
        by (cases "er = None"; cases "ct_connect c'") simp_all
      show "run_sock ?s" using en2 kc by (cases "ct_connect c'") (auto simp: run_sock_def connecting_def)
      have ev: "ev_locked (tk_event k SendEvent)" "ev_locked (tk_event k RecvEvent)" "ev_empty (tk_event k SendEvent)" "ev_empty (tk_event k RecvEvent)"
        using R en(1) p k by (auto simp: run_event_def Let_def)
      show "run_event ?s" using en2 k kc ev q by (cases "ct_connect c'") (auto simp: run_event_def Let_def connecting_def)
      show "run_data ?s" using R p by (auto simp: run_data_def taken_bytes_def given_bytes_def)
      show "run_log ?s" using R p by (auto simp: run_log_def)
    qed
    then show ?thesis using c True e er by (simp add: tcp_ctl_connect_def tcp_at_def)
  qed
qed

end
