(* ===== verification/Tcp_Data.thy ===== *)
theory Tcp_Data
  imports Tcp_Steps
begin

text \<open>
  The steps of a callback that receive and send keep the invariant of the socket and have a result.
\<close>

section \<open>Receiving and sending\<close>

text \<open>A step that only moves between places of the data part, where the event has no result.\<close>

fun data_place :: "tcp_place \<Rightarrow> bool" where
  "data_place RecvBegin = True" | "data_place RecvCall = True" | "data_place RecvEnd = True" | "data_place (RecvCb called) = True"
| "data_place RecvDone = True" | "data_place SendBegin = True" | "data_place SendCall = True" | "data_place SendEnd = True"
| "data_place (SendCb called) = True" | "data_place SendDone = True" | "data_place Idle = True"
| "data_place (Failing f) = (f = FailSend \<or> f = FailRecv)" | "data_place (FailClose f) = (f \<in> {Eof True, Eof False})" | "data_place _ = False"

lemma data_places:
  assumes "data_place p"
  shows "p \<notin> {CtlAttached, CtlConnected, CtlConnect, CtlHandshake, CtlCommit, Closed, ClosedRest, CloseCb}" "\<not> ctl_place p"
  using assms by (cases p; auto)+

text \<open>The groups that do not look at the data, when only it, the events of sending and receiving and the log change.\<close>

lemma data_frame:
  assumes I: "run_inv s" and p: "data_place (tp_place s)" and q: "data_place q"
    and k: "tk_sock k = tk_sock (tp_task s)" "tk_closed k = tk_closed (tp_task s)" "tk_event k ConnectEvent = tk_event (tp_task s) ConnectEvent"
    and run: "\<not> tk_closed (tp_task s)"
    and s': "tp_state s' = tp_state s" "tp_ready s' = tp_ready s" "tp_sub s' = tp_sub s" "tp_front_ctl s' = tp_front_ctl s"
      "tp_handshaked s' = tp_handshaked s" "tp_ctl s' = tp_ctl s" "tp_task s' = k" "tp_place s' = q" "tp_posted s' = tp_posted s"
      "tp_close_asked s' = tp_close_asked s"
  shows "io_enabled s = tp_handshaked s" "io_enabled s' = tp_handshaked s" "run_life s'" "run_ctl s'" "run_sock s'"
proof -
  note R = I[unfolded run_inv_def]
  note d = data_places[OF p] data_places[OF q]
  show e: "io_enabled s = tp_handshaked s" and e': "io_enabled s' = tp_handshaked s" using d s' by (auto simp: io_enabled_def)
  have h: "\<not> ctl_shakes (tp_ctl s)" using R d by (auto simp: run_ctl_def)
  show "run_life s'" using R d s' k run by (auto simp: run_life_def)
  have "run_ctl s" using R by simp
  then show "run_ctl s'" using d s' e e' h unfolding run_ctl_def by simp
  have "run_sock s" using R by simp
  then show "run_sock s'" using d s' e e' k unfolding run_sock_def by simp
qed

lemma open_task:
  assumes "run_inv s" and "running_place (tp_place s)"
  shows "\<not> tk_closed (tp_task s)"
  using assms by (auto simp: run_inv_def run_life_def)

definition data_events :: "tcp \<Rightarrow> tcp_task \<Rightarrow> tcp_place \<Rightarrow> bool" where
  "data_events s k q =
    (waits_ok k \<and> (tk_out k = Some ConnectEvent \<longrightarrow> tk_out (tp_task s) = Some ConnectEvent) \<and>
     (tk_out (tp_task s) = Some ConnectEvent \<longrightarrow> tk_out k = Some ConnectEvent) \<and>
     (\<not> tp_handshaked s \<longrightarrow> ev_locked (tk_event k SendEvent) \<and> ev_locked (tk_event k RecvEvent) \<and> tk_out k \<noteq> Some SendEvent \<and> tk_in k = None) \<and>
     (q \<noteq> RecvEnd \<or> ev_locked (tk_event k RecvEvent) \<longrightarrow> ev_empty (tk_event k RecvEvent)) \<and>
     (q \<noteq> SendEnd \<or> ev_locked (tk_event k SendEvent) \<longrightarrow> ev_empty (tk_event k SendEvent)) \<and>
     (recv_free q \<longrightarrow> \<not> ev_locked (tk_event k RecvEvent)) \<and> (send_free q \<longrightarrow> \<not> ev_locked (tk_event k SendEvent)) \<and>
     (q = RecvEnd \<or> q = SendEnd \<longrightarrow> tp_handshaked s))"

lemma data_events_there:
  assumes "run_inv s" and "data_place (tp_place s)"
  shows "data_events s (tp_task s) (tp_place s)"
proof -
  have "io_enabled s = tp_handshaked s" using data_places[OF assms(2)] by (auto simp: io_enabled_def)
  moreover have "run_event s" using assms(1) by (simp add: run_inv_def)
  ultimately show ?thesis by (simp add: run_event_def data_events_def Let_def)
qed

lemma data_step:
  assumes I: "run_inv s" and p: "data_place (tp_place s)" "running_place (tp_place s)" "\<not> fail_place (tp_place s)" and q: "data_place q"
    and k: "tk_sock k = tk_sock (tp_task s)" "tk_closed k = tk_closed (tp_task s)" "tk_event k ConnectEvent = tk_event (tp_task s) ConnectEvent"
    and ev: "data_events s k q"
    and s': "tp_state s' = tp_state s" "tp_ready s' = tp_ready s" "tp_sub s' = tp_sub s" "tp_front_ctl s' = tp_front_ctl s"
      "tp_handshaked s' = tp_handshaked s" "tp_ctl s' = tp_ctl s" "tp_task s' = k" "tp_place s' = q" "tp_posted s' = tp_posted s"
      "tp_close_asked s' = tp_close_asked s"
    and d: "run_data s'" and l: "log_ok (tp_handshaked s) (tp_close_asked s) (tp_log s) \<Longrightarrow> log_ok (tp_handshaked s) (tp_close_asked s) (tp_log s')"
  shows "run_inv s'"
proof -
  note R = I[unfolded run_inv_def]
  note fr = data_frame[OF I p(1) q k open_task[OF I p(2)] s']
  have re: "run_event s" using R by simp
  have co: "tk_out (tp_task s) = Some ConnectEvent \<longrightarrow> (\<exists>c. tp_ctl s = Some c \<and> ct_connect c)"
    "\<forall>c. tp_ctl s = Some c \<and> ct_connect c \<longrightarrow> ev_empty (tk_event (tp_task s) ConnectEvent) \<and>
      (ev_locked (tk_event (tp_task s) ConnectEvent) \<longrightarrow> tk_out (tp_task s) = Some ConnectEvent)"
    using re by (simp_all add: run_event_def Let_def)
  have oc: "(tk_out k = Some ConnectEvent) = (tk_out (tp_task s) = Some ConnectEvent)" using ev unfolding data_events_def by blast
  have "run_event s'" using ev co fr(2) unfolding run_event_def data_events_def Let_def s' k(3) oc by simp
  moreover have "run_log s'"
  proof -
    have "log_ok (tp_handshaked s) (tp_close_asked s) (tp_log s')" using R p(3) by (intro l) (simp add: run_log_def)
    then show ?thesis using s' by (auto simp: run_log_def intro: log_ok_weaken)
  qed
  ultimately show ?thesis using fr d by (simp add: run_inv_def)
qed


lemma data_free:
  assumes "run_inv s" and "data_place (tp_place s)"
  shows "\<not> ev_locked (tk_event (tp_task s) SendEvent) \<Longrightarrow> tp_handshaked s \<and> tk_out (tp_task s) \<noteq> Some SendEvent"
    and "\<not> ev_locked (tk_event (tp_task s) RecvEvent) \<Longrightarrow> tp_handshaked s \<and> tk_in (tp_task s) = None"
proof -
  have ev: "data_events s (tp_task s) (tp_place s)" by (rule data_events_there[OF assms])
  then have un: "\<not> tp_handshaked s \<longrightarrow> ev_locked (tk_event (tp_task s) SendEvent) \<and> ev_locked (tk_event (tp_task s) RecvEvent)"
    unfolding data_events_def by blast
  have w: "waits_ok (tp_task s)" using ev unfolding data_events_def by blast
  then have lk: "tk_in (tp_task s) = Some v \<or> tk_out (tp_task s) = Some v \<Longrightarrow> ev_locked (tk_event (tp_task s) v)" for v
    unfolding waits_ok_def task_io_ok_def by blast
  have i: "tk_in (tp_task s) = None \<or> tk_in (tp_task s) = Some RecvEvent" using w unfolding waits_ok_def by blast
  show "\<not> ev_locked (tk_event (tp_task s) SendEvent) \<Longrightarrow> tp_handshaked s \<and> tk_out (tp_task s) \<noteq> Some SendEvent" using un lk by blast
  show "\<not> ev_locked (tk_event (tp_task s) RecvEvent) \<Longrightarrow> tp_handshaked s \<and> tk_in (tp_task s) = None" using un lk i by blast
qed

lemma data_handshaked:
  assumes I: "run_inv s" and p: "data_place (tp_place s)" "running_place (tp_place s)" and h: "tp_handshaked s"
  shows "tk_sock (tp_task s) \<noteq> None" "tk_out (tp_task s) \<noteq> Some ConnectEvent"
proof -
  note R = I[unfolded run_inv_def]
  have e: "io_enabled s" using h by (simp add: io_enabled_def)
  have "run_sock s" using R by simp
  then show "tk_sock (tp_task s) \<noteq> None" using e open_task[OF I p(2)] unfolding run_sock_def by blast
  have "run_ctl s" using R by simp
  then have "\<not> ctl_starts (tp_ctl s)" using e unfolding run_ctl_def by blast
  moreover have "run_event s" using R by simp
  ultimately show "tk_out (tp_task s) \<noteq> Some ConnectEvent" unfolding run_event_def Let_def by (auto simp: ctl_starts_def)
qed

text \<open>Places change, the task may be rescheduled.\<close>

lemma data_move:
  assumes I: "run_inv s" and p: "data_place (tp_place s)" "running_place (tp_place s)" "\<not> fail_place (tp_place s)" "tp_place s \<notin> {RecvEnd, SendEnd}"
    and q: "data_place q" "q \<notin> {RecvEnd, SendEnd}" "recv_free q \<longrightarrow> \<not> ev_locked (tk_event (tp_task s) RecvEvent)"
      "send_free q \<longrightarrow> \<not> ev_locked (tk_event (tp_task s) SendEvent)"
  shows "run_inv (s\<lparr>tp_task := (tp_task s)\<lparr>tk_deadline := d\<rparr>, tp_place := q\<rparr>)" "run_inv (tcp_at q s)"
proof -
  have ev: "data_events s (tp_task s) (tp_place s)" by (rule data_events_there[OF I p(1)])
  have dt: "run_data s" using I by (simp add: run_inv_def)
  have w: "waits_ok ((tp_task s)\<lparr>tk_deadline := d\<rparr>) = waits_ok (tp_task s)" for d by (simp add: waits_ok_def task_io_ok_def)
  have "data_events s ((tp_task s)\<lparr>tk_deadline := d\<rparr>) q" for d
    using ev p(4) q unfolding data_events_def by (simp add: w)
  moreover have "run_data (s\<lparr>tp_task := (tp_task s)\<lparr>tk_deadline := d\<rparr>, tp_place := q\<rparr>)" for d
    using dt p(4) q(2) by (auto simp: run_data_def taken_bytes_def given_bytes_def)
  ultimately have r: "run_inv (s\<lparr>tp_task := (tp_task s)\<lparr>tk_deadline := d\<rparr>, tp_place := q\<rparr>)" for d
    by (intro data_step[OF I p(1-3) q(1)]) simp_all
  show "run_inv (s\<lparr>tp_task := (tp_task s)\<lparr>tk_deadline := d\<rparr>, tp_place := q\<rparr>)" by (rule r)
  show "run_inv (tcp_at q s)" using r[of "tk_deadline (tp_task s)"] by (simp add: tcp_at_def)
qed

lemma w_recv_done: "run_inv s \<Longrightarrow> tp_place s = RecvDone \<Longrightarrow> run_inv (tcp_recv_done s)"
  using data_move(1)[of s SendBegin 0] data_move(2)[of s SendBegin] by (simp add: tcp_recv_done_def task_reschedule_def tcp_at_def)

lemma w_send_done: "run_inv s \<Longrightarrow> tp_place s = SendDone \<Longrightarrow> run_inv (tcp_send_done rest s)"
  using data_move(1)[of s Idle 0] data_move(2)[of s Idle] by (simp add: tcp_send_done_def task_reschedule_def tcp_at_def)

lemma w_recv_cb: "run_inv s \<Longrightarrow> tp_place s = RecvCb called \<Longrightarrow> run_inv (tcp_at (if called then RecvDone else RecvCall) s)"
  using data_events_there[of s] data_move(2)[of s "if called then RecvDone else RecvCall"] by (simp add: data_events_def)

lemma w_send_cb: "run_inv s \<Longrightarrow> tp_place s = SendCb called \<Longrightarrow> run_inv (tcp_at (if called then SendDone else SendCall) s)"
  using data_events_there[of s] data_move(2)[of s "if called then SendDone else SendCall"] by (simp add: data_events_def)

lemma w_recv_consume:
  assumes I: "run_inv s" and p: "tp_place s = (if called then RecvEnd else RecvBegin)"
  shows "keeps s (tcp_recv_consume called s)"
proof -
  note R = I[unfolded run_inv_def]
  let ?ev = "tk_event (tp_task s) RecvEvent"
  have pl: "data_place (tp_place s)" "running_place (tp_place s)" "\<not> fail_place (tp_place s)" "tp_place s \<noteq> SendEnd" using p by auto
  note step = data_step[OF I pl(1-3)]
  have ev: "data_events s (tp_task s) (tp_place s)" by (rule data_events_there[OF I pl(1)])
  have d: "run_data s" and sub: "tp_sub s" using R by (auto simp: run_life_def)
  show ?thesis
  proof (cases "ev_locked ?ev \<or> ev_empty ?ev")
    case True
    define q where "q = (if ev_locked ?ev then SendBegin else if called then RecvDone else RecvCall)"
    have q: "data_place q" "q \<notin> {RecvEnd, SendEnd}" "\<not> send_free q" "recv_free q \<longrightarrow> \<not> ev_locked ?ev" by (auto simp: q_def)
    have dq: "data_events s (tp_task s) q" using ev q True pl(4) unfolding data_events_def by auto
    have "run_data (tcp_at q s)" using d True q(2) pl(4) by (auto simp: run_data_def taken_bytes_def given_bytes_def Let_def tcp_at_def)
    then have "run_inv (tcp_at q s)"
      by (intro step[where k = "tp_task s" and q = q]) (use dq q(1) in \<open>simp_all add: tcp_at_def\<close>)
    moreover have "tcp_recv_consume called s = Some (tcp_at q s)"
      using True by (auto simp: tcp_recv_consume_def q_def ev_is_empty_def Let_def)
    ultimately show ?thesis by (simp add: tcp_at_def)
  next
    case False
    then have pe: "called" "tp_place s = RecvEnd" using ev p by (auto simp: data_events_def split: if_splits)
    have h: "tp_handshaked s" using ev pe by (simp add: data_events_def)
    let ?k = "tk_set RecvEvent (?ev\<lparr>ev_empty := True\<rparr>) (tp_task s)"
    have k: "data_events s ?k q" if "recv_free q" "\<not> send_free q" "q \<notin> {RecvEnd, SendEnd}" for q
      using ev that h False pl(4) by (auto simp: data_events_def tk_set_def waits_ok_def task_io_ok_def)
    show ?thesis
    proof (cases "ev_error ?ev")
      case True
      have "run_inv (tcp_at (Failing FailRecv) (s\<lparr>tp_task := ?k\<rparr>))"
        by (rule step[where k = ?k and q = "Failing FailRecv"])
          (use d k[of "Failing FailRecv"] pe True in \<open>auto simp: tcp_at_def tk_set_def run_data_def taken_bytes_def given_bytes_def Let_def\<close>)
      then show ?thesis using False True by (simp add: tcp_recv_consume_def Let_def ev_is_empty_def ev_is_error_def ev_pop_error_def tcp_at_def)
    next
      case ok: False
      let ?n = "unat (ev_bytes ?ev)"
      have dd: "tp_read s @ tp_recv s @ tp_reserved s = tp_got s" "length (tp_reserved s) = ?n" "tp_wire s @ tp_send s = tp_accepted s"
        using d pe False ok by (auto simp: run_data_def given_bytes_def taken_bytes_def Let_def)
      show ?thesis
      proof (cases "ev_bytes ?ev = 0")
        case True
        have "run_inv (tcp_at (FailClose (Eof called)) (s\<lparr>tp_task := ?k\<rparr>))"
          by (rule step[where k = ?k and q = "FailClose (Eof called)"])
            (use dd k[of "FailClose (Eof called)"] pe True in \<open>auto simp: tcp_at_def tk_set_def run_data_def taken_bytes_def given_bytes_def Let_def\<close>)
        then show ?thesis using False ok True
          by (simp add: tcp_recv_consume_def tcp_recv_commit_def Let_def ev_is_empty_def ev_is_error_def ev_pop_bytes_def tcp_at_def)
      next
        case n: False
        let ?s = "s\<lparr>tp_task := ?k, tp_recv := tp_recv s @ tp_reserved s, tp_reserved := [], tp_recv_size := 0,
          tp_log := tp_log s @ [OnRecv], tp_place := RecvCb called\<rparr>"
        have "run_inv ?s"
          by (rule step[where k = ?k and q = "RecvCb called"])
            (use dd k[of "RecvCb called"] pe h in \<open>auto simp: tk_set_def run_data_def taken_bytes_def given_bytes_def Let_def\<close>)
        then show ?thesis using False ok n dd(2) sub
          by (simp add: tcp_recv_consume_def tcp_recv_commit_def tcp_call_def Let_def ev_is_empty_def ev_is_error_def ev_pop_bytes_def)
      qed
    qed
  qed
qed

lemma w_recv_call:
  assumes I: "run_inv s" and p: "tp_place s = RecvCall" and rc: "recv_result rc bs"
  shows "keeps s (tcp_recv_call rc bs s)"
proof -
  note R = I[unfolded run_inv_def]
  let ?ev = "tk_event (tp_task s) RecvEvent"
  have pl: "data_place (tp_place s)" "running_place (tp_place s)" "\<not> fail_place (tp_place s)" using p by auto
  note step = data_step[OF I pl]
  have ev: "data_events s (tp_task s) RecvCall" using data_events_there[OF I pl(1)] p by simp
  then have f: "\<not> ev_locked ?ev" "waits_ok (tp_task s)" by (auto simp: data_events_def)
  have h: "tp_handshaked s" "tk_in (tp_task s) = None" using data_free(2)[OF I pl(1) f(1)] by auto
  note hs = data_handshaked[OF I pl(1,2) h(1)]
  have d: "run_data s" using R by simp
  then have dd: "tp_read s @ tp_recv s = tp_got s" "tp_reserved s = []" "tp_wire s @ tp_send s = tp_accepted s"
    using p by (auto simp: run_data_def taken_bytes_def given_bytes_def Let_def)
  show ?thesis
  proof (cases "tp_recv_size s = 0")
    case True
    have "run_inv (tcp_at SendBegin s)"
      by (rule step[where k = "tp_task s" and q = SendBegin])
        (use d ev p in \<open>auto simp: tcp_at_def data_events_def run_data_def taken_bytes_def given_bytes_def Let_def\<close>)
    then show ?thesis using True by (simp add: tcp_recv_call_def tcp_at_def)
  next
    case False
    have io: "task_io_ok (tp_task s)" using f(2) by (simp add: waits_ok_def)
    from task_recv_outcome[OF io f(1) h(2) hs(1), of rc] obtain ok k
      where k: "task_recv rc RecvEvent (tp_task s) = Some (ok, k)" "task_io_ok k" "outcome_ok rc RecvEvent (sys_count rc) (tp_task s) (ok, k)" by auto
    have k2: "tk_sock k = tk_sock (tp_task s)" "tk_closed k = tk_closed (tp_task s)" "tk_out k = tk_out (tp_task s)"
      "tk_in k = None \<or> tk_in k = Some RecvEvent" "tk_event k SendEvent = tk_event (tp_task s) SendEvent"
      "tk_event k ConnectEvent = tk_event (tp_task s) ConnectEvent" "ev_locked (tk_event k RecvEvent) \<longrightarrow> ev_empty (tk_event k RecvEvent)"
      using k(1) f(1) h(2)
      by (cases rc; auto simp: task_recv_def save_event_readable_def tk_set_def ev_return_bytes_def ev_return_error_def ev_return_empty_def ev_lock_def)+
    have g: "(if \<not> ev_locked (tk_event k RecvEvent) \<and> \<not> ev_empty (tk_event k RecvEvent) \<and> \<not> ev_error (tk_event k RecvEvent)
        then unat (ev_bytes (tk_event k RecvEvent)) else 0) = length bs"
      using k(1) f(1) h(2) rc
      by (cases rc) (auto simp: task_recv_def save_event_readable_def tk_set_def ev_return_bytes_def ev_return_error_def ev_return_empty_def ev_lock_def
        unat_of_nat take_bit_nat_eq_self)
    have ev2: "data_events s k RecvEnd" using ev h k(2) k2 by (auto simp: data_events_def waits_ok_def)
    have "run_inv (tcp_at RecvEnd (s\<lparr>tp_task := k, tp_reserved := bs, tp_got := tp_got s @ bs\<rparr>))"
      by (rule step[where k = k and q = RecvEnd])
        (use dd ev2 k2 g in \<open>simp_all add: tcp_at_def run_data_def taken_bytes_def given_bytes_def Let_def flip: append_assoc\<close>)
    then show ?thesis using False k(1) by (simp add: tcp_recv_call_def tcp_at_def)
  qed
qed

lemma w_send_consume:
  assumes I: "run_inv s" and p: "tp_place s = (if called then SendEnd else SendBegin)"
  shows "keeps s (tcp_send_consume called s)"
proof -
  note R = I[unfolded run_inv_def]
  let ?ev = "tk_event (tp_task s) SendEvent"
  have pl: "data_place (tp_place s)" "running_place (tp_place s)" "\<not> fail_place (tp_place s)" "tp_place s \<noteq> RecvEnd" using p by auto
  note step = data_step[OF I pl(1-3)]
  have ev: "data_events s (tp_task s) (tp_place s)" by (rule data_events_there[OF I pl(1)])
  have d: "run_data s" and sub: "tp_sub s" using R by (auto simp: run_life_def)
  show ?thesis
  proof (cases "ev_locked ?ev \<or> ev_empty ?ev")
    case True
    define q where "q = (if ev_locked ?ev then Idle else if called then SendDone else SendCall)"
    have q: "data_place q" "q \<notin> {RecvEnd, SendEnd}" "\<not> recv_free q" "send_free q \<longrightarrow> \<not> ev_locked ?ev" by (auto simp: q_def)
    have dq: "data_events s (tp_task s) q" using ev q True pl(4) unfolding data_events_def by auto
    have "run_data (tcp_at q s)" using d True q(2) pl(4) by (auto simp: run_data_def taken_bytes_def given_bytes_def Let_def tcp_at_def)
    then have "run_inv (tcp_at q s)"
      by (intro step[where k = "tp_task s" and q = q]) (use dq q(1) in \<open>simp_all add: tcp_at_def\<close>)
    moreover have "tcp_send_consume called s = Some (tcp_at q s)"
      using True by (auto simp: tcp_send_consume_def q_def ev_is_empty_def Let_def)
    ultimately show ?thesis by (simp add: tcp_at_def)
  next
    case False
    then have pe: "called" "tp_place s = SendEnd" using ev p by (auto simp: data_events_def split: if_splits)
    have h: "tp_handshaked s" using ev pe by (simp add: data_events_def)
    let ?k = "tk_set SendEvent (?ev\<lparr>ev_empty := True\<rparr>) (tp_task s)"
    have k: "data_events s ?k q" if "send_free q" "\<not> recv_free q" "q \<notin> {RecvEnd, SendEnd}" for q
      using ev that h False pl(4) by (auto simp: data_events_def tk_set_def waits_ok_def task_io_ok_def)
    show ?thesis
    proof (cases "ev_error ?ev")
      case True
      have "run_inv (tcp_at (Failing FailSend) (s\<lparr>tp_task := ?k\<rparr>))"
        by (rule step[where k = ?k and q = "Failing FailSend"])
          (use d k[of "Failing FailSend"] pe True in \<open>auto simp: tcp_at_def tk_set_def run_data_def taken_bytes_def given_bytes_def Let_def\<close>)
      then show ?thesis using False True by (simp add: tcp_send_consume_def Let_def ev_is_empty_def ev_is_error_def ev_pop_error_def tcp_at_def)
    next
      case ok: False
      let ?n = "unat (ev_bytes ?ev)"
      have dd: "tp_read s @ tp_recv s = tp_got s" "tp_reserved s = []" "?n \<le> length (tp_send s)" "tp_wire s @ drop ?n (tp_send s) = tp_accepted s"
        using d pe False ok by (auto simp: run_data_def given_bytes_def taken_bytes_def Let_def)
      let ?s = "s\<lparr>tp_task := ?k, tp_send := drop ?n (tp_send s), tp_log := tp_log s @ [OnSend], tp_place := SendCb called\<rparr>"
      have "run_inv ?s"
        by (rule step[where k = ?k and q = "SendCb called"])
          (use dd k[of "SendCb called"] pe h in \<open>auto simp: tk_set_def run_data_def taken_bytes_def given_bytes_def Let_def\<close>)
      then show ?thesis using False ok dd(3) sub
        by (simp add: tcp_send_consume_def tcp_send_commit_def tcp_call_def Let_def ev_is_empty_def ev_is_error_def ev_pop_bytes_def)
    qed
  qed
qed

lemma task_send_frame:
  assumes "task_send rc v k = Some (ok, k')"
  shows "tk_sock k' = tk_sock k \<and> tk_closed k' = tk_closed k \<and> tk_in k' = tk_in k \<and> (tk_out k' = tk_out k \<or> tk_out k' = Some v) \<and>
    (\<forall>u. u \<noteq> v \<longrightarrow> tk_event k' u = tk_event k u) \<and> ev_locked (tk_event k' v) = (rc = SysAgain) \<and>
    ev_empty (tk_event k' v) = (rc = SysAgain) \<and> (rc \<noteq> SysAgain \<longrightarrow> ev_error (tk_event k' v) = (\<forall>n. rc \<noteq> SysOk n)) \<and>
    (\<forall>n. rc = SysOk n \<longrightarrow> ev_bytes (tk_event k' v) = of_nat n)"
proof (cases rc)
  case (SysOk n)
  then have "k' = tk_set v (ev_return_bytes (of_nat n) (tk_event k v)) (save_event_writable k)" "\<not> ev_locked (tk_event k v)"
    using assms by (auto simp: task_send_def split: if_splits)
  then show ?thesis using SysOk by (simp add: tk_set_def save_event_writable_def ev_return_bytes_def)
next
  case SysAgain
  then have "k' = (tk_set v ((tk_event k v)\<lparr>ev_empty := True, ev_locked := True\<rparr>) k)\<lparr>tk_out := Some v\<rparr>"
    using assms by (auto simp: task_send_def ev_return_empty_def ev_lock_def split: if_splits)
  then show ?thesis using SysAgain by (simp add: tk_set_def)
next
  case (SysFail c)
  then have "k' = tk_set v (ev_return_error c (tk_event k v)) k" "\<not> ev_locked (tk_event k v)"
    using assms by (auto simp: task_send_def split: if_splits)
  then show ?thesis using SysFail by (simp add: tk_set_def ev_return_error_def)
qed

lemma w_send_call:
  assumes I: "run_inv s" and p: "tp_place s = SendCall" and rc: "send_result rc (tp_send s)"
  shows "keeps s (tcp_send_call rc s)"
proof -
  note R = I[unfolded run_inv_def]
  let ?ev = "tk_event (tp_task s) SendEvent"
  have pl: "data_place (tp_place s)" "running_place (tp_place s)" "\<not> fail_place (tp_place s)" using p by auto
  note step = data_step[OF I pl]
  have ev: "data_events s (tp_task s) SendCall" using data_events_there[OF I pl(1)] p by simp
  then have f: "\<not> ev_locked ?ev" "waits_ok (tp_task s)" by (auto simp: data_events_def)
  have h: "tp_handshaked s" using data_free(1)[OF I pl(1) f(1)] by auto
  note hs = data_handshaked[OF I pl(1,2) h]
  have "tk_out (tp_task s) \<noteq> Some SendEvent" using data_free(1)[OF I pl(1) f(1)] by simp
  then have o: "tk_out (tp_task s) = None" using hs(2) f(2) unfolding waits_ok_def by blast
  have d: "run_data s" using R by simp
  then have dd: "tp_read s @ tp_recv s = tp_got s" "tp_reserved s = []" "tp_wire s @ tp_send s = tp_accepted s"
    using p by (auto simp: run_data_def taken_bytes_def given_bytes_def Let_def)
  show ?thesis
  proof (cases "tp_send s = []")
    case True
    have "run_inv (tcp_at Idle s)"
      by (rule step[where k = "tp_task s" and q = Idle])
        (use d ev p in \<open>auto simp: tcp_at_def data_events_def run_data_def taken_bytes_def given_bytes_def Let_def\<close>)
    then show ?thesis using True by (simp add: tcp_send_call_def tcp_at_def)
  next
    case False
    have io: "task_io_ok (tp_task s)" "rc \<noteq> SysOk 0" using f(2) rc by (auto simp: waits_ok_def)
    from task_send_outcome[OF io(1) f(1) o io(2) hs(1)] obtain ok k
      where k: "task_send rc SendEvent (tp_task s) = Some (ok, k)" "task_io_ok k" by auto
    have k2: "tk_sock k = tk_sock (tp_task s)" "tk_closed k = tk_closed (tp_task s)" "tk_in k = tk_in (tp_task s)"
      "tk_out k = None \<or> tk_out k = Some SendEvent" "tk_event k RecvEvent = tk_event (tp_task s) RecvEvent"
      "tk_event k ConnectEvent = tk_event (tp_task s) ConnectEvent" "ev_locked (tk_event k SendEvent) \<longrightarrow> ev_empty (tk_event k SendEvent)"
      using k(1) f(1) o task_send_frame[OF k(1)] by auto
    have g: "(if \<not> ev_locked (tk_event k SendEvent) \<and> \<not> ev_empty (tk_event k SendEvent) \<and> \<not> ev_error (tk_event k SendEvent)
        then unat (ev_bytes (tk_event k SendEvent)) else 0) = sys_count rc"
      using task_send_frame[OF k(1)] rc by (cases rc) (auto simp: unat_of_nat take_bit_nat_eq_self)
    have n: "sys_count rc \<le> length (tp_send s)" using rc by (cases rc) auto
    have wk: "waits_ok k" using k(2) k2(3,4) f(2) unfolding waits_ok_def by auto
    have "tk_out k \<noteq> Some ConnectEvent" using k2(4) by auto
    then have ev2: "data_events s k SendEnd" using ev h o wk k2(5,7) by (simp add: data_events_def)
    have "run_inv (tcp_at SendEnd (s\<lparr>tp_task := k, tp_wire := tp_wire s @ take (sys_count rc) (tp_send s)\<rparr>))"
      by (rule step[where k = k and q = SendEnd])
        (use dd ev2 k2 g n in \<open>simp_all add: tcp_at_def run_data_def taken_bytes_def given_bytes_def Let_def\<close>)
    then show ?thesis using False k(1) by (simp add: tcp_send_call_def tcp_at_def)
  qed
qed

end
