(* ===== verification/Tcp_Calls.thy ===== *)
theory Tcp_Calls
  imports Tcp_Steps
begin

text \<open>
  The end of a socket, the steps of the IO core and the calls of the clients keep the invariant and have a result.
\<close>

section \<open>The end of a socket\<close>

lemma log_ended: "log_ok h True l \<Longrightarrow> ended_ok l \<and> OnClose \<notin> set l"
  by (auto simp: log_ok_def ended_ok_def count_list_0_iff split: if_splits)
    (metis One_nat_def count_list_0_iff zero_neq_one)+

lemma ended_close: "ended_ok l \<Longrightarrow> OnClose \<notin> set l \<Longrightarrow> ended_ok (l @ [OnClose])"
  by (auto simp: ended_ok_def count_list_0_iff)

lemma w_closed:
  assumes "tp_running s" and "last_inv s"
  shows "\<exists>s'. tcp_closed s = Some s' \<and> \<not> tp_running s' \<and> rest_inv s'"
  using assms log_ended by (auto simp: tcp_closed_def last_inv_def rest_inv_def tcp_at_def)

lemma w_closed_rest:
  assumes "\<not> tp_running s" and "rest_inv s" and "tp_place s = ClosedRest"
  shows "\<exists>s'. tcp_closed_rest s = Some s' \<and> \<not> tp_running s' \<and> rest_inv s'"
  using assms ended_close by (auto simp: tcp_closed_rest_def tcp_disable_io_def rest_inv_def tk_set_def no_waits_def)

lemma w_close_cb:
  assumes "\<not> tp_running s" and "rest_inv s" and "tp_place s = CloseCb"
  shows "rest_inv (tcp_at Idle s)"
  using assms by (auto simp: tcp_at_def rest_inv_def)

section \<open>Steps of the IO core\<close>

lemma task_close_end_frame:
  assumes "task_io_ok k"
  shows "\<exists>k'. task_close_end k = Some k' \<and> no_waits k' \<and> tk_sock k' = tk_sock k \<and> tk_closed k' = tk_closed k"
  using assms by (cases "tk_in k"; cases "tk_out k") (auto simp: task_io_defs task_io_ok_def no_waits_def)

lemma c_run_closed:
  assumes I: "run_inv s" and r: "tp_running s" and k: "tk_closed (tp_task s)" "tp_place s = Idle"
  shows "\<exists>s'. tcp_run_closed s = Some s' \<and> tp_running s' \<and> tp_place s' = Closed \<and> last_inv s'"
proof -
  note R = I[unfolded run_inv_def]
  have "task_io_ok (tp_task s)" using R by (simp add: run_event_def waits_ok_def Let_def)
  then obtain k' where k': "task_close_end (tp_task s) = Some k'" "no_waits k'" "tk_sock k' = tk_sock (tp_task s)"
    "tk_closed k' = tk_closed (tp_task s)" using task_close_end_frame by blast
  have l: "run_life s" "run_log s" using R by simp_all
  then have "log_ok (tp_handshaked s) True (tp_log s)" using k by (auto simp: run_life_def run_log_def)
  then show ?thesis using k' k l(1) r by (auto simp: tcp_run_closed_def tcp_at_def last_inv_def run_life_def)
qed

lemma process_args_frame:
  assumes "\<not> tk_closed k"
  shows "\<exists>er k'. task_process_args m st k = Some (er, k') \<and> tk_sock k' = tk_sock k \<and> tk_closed k' = tk_closed k \<and> tk_ready k' = tk_ready k \<and>
    (tk_in k' = tk_in k \<or> tk_in k' = None) \<and> (tk_out k' = tk_out k \<or> tk_out k' = None) \<and>
    (\<forall>v. tk_event k' v =
      (if tk_in k = Some v \<and> tk_in k' = None \<or> tk_out k = Some v \<and> tk_out k' = None then ev_unlock_forced (tk_event k v) else tk_event k v))"
  using assms by (cases "tk_in k"; cases "tk_out k") (auto simp: task_process_args_def unlock_waiting_def tk_set_def Let_def ev_unlock_forced_def)

lemma c_run:
  assumes I: "run_inv s" and r: "tp_running s" and k: "\<not> tk_closed (tp_task s)" "tp_place s = Idle"
  shows "keeps s (tcp_run m st s)"
proof -
  note R = I[unfolded run_inv_def]
  let ?k0 = "(tp_task s)\<lparr>tk_ready := 0, tk_deadline := TIME_INFINITE\<rparr>"
  have k0: "\<not> tk_closed ?k0" using k by simp
  have same: "tk_sock ?k0 = tk_sock (tp_task s)" "tk_closed ?k0 = tk_closed (tp_task s)" "tk_ready ?k0 = 0" "tk_in ?k0 = tk_in (tp_task s)"
    "tk_out ?k0 = tk_out (tp_task s)" "tk_event ?k0 = tk_event (tp_task s)" by simp_all
  from process_args_frame[OF k0, of m st, unfolded same] k(1) obtain er k' where k': "task_process_args m st ?k0 = Some (er, k')"
    "tk_sock k' = tk_sock (tp_task s)" "\<not> tk_closed k'" "tk_ready k' = 0" "tk_in k' = tk_in (tp_task s) \<or> tk_in k' = None"
    "tk_out k' = tk_out (tp_task s) \<or> tk_out k' = None"
    "\<And>v. tk_event k' v = (if tk_in (tp_task s) = Some v \<and> tk_in k' = None \<or> tk_out (tp_task s) = Some v \<and> tk_out k' = None
       then ev_unlock_forced (tk_event (tp_task s) v) else tk_event (tp_task s) v)"
    by metis
  have re: "run_event s" using R by simp
  have em: "ev_empty (tk_event k' v) = ev_empty (tk_event (tp_task s) v)" for v
    using k'(7)[of v] by (auto simp: ev_unlock_forced_def)
  have lk: "ev_locked (tk_event k' v)" if "ev_locked (tk_event (tp_task s) v)" "tk_in (tp_task s) \<noteq> Some v" "tk_out (tp_task s) \<noteq> Some v" for v
    using k'(7)[of v] that by auto
  have w0: "waits_ok (tp_task s)" using re by (simp add: run_event_def Let_def)
  have io: "task_io_ok (tp_task s)" using w0 by (simp add: waits_ok_def)
  have ne: "tk_in (tp_task s) \<noteq> None \<longrightarrow> tk_in (tp_task s) \<noteq> tk_out (tp_task s)" using io by (simp add: task_io_ok_def)
  have lk2: "ev_locked (tk_event k' v)" if "tk_in k' = Some v \<or> tk_out k' = Some v" for v
  proof -
    have "tk_in (tp_task s) = Some v \<or> tk_out (tp_task s) = Some v" using that k'(5,6) by auto
    then have "ev_locked (tk_event (tp_task s) v)" using io by (auto simp: task_io_ok_def)
    then show ?thesis using k'(7)[of v] that k'(5,6) ne by auto
  qed
  have w: "waits_ok k'"
  proof -
    have "tk_in k' \<noteq> None \<longrightarrow> tk_in k' \<noteq> tk_out k'" using ne k'(5,6) by auto
    moreover have "tk_sock (tp_task s) = None \<longrightarrow> tk_in (tp_task s) = None \<and> tk_out (tp_task s) = None" using io k(1) by (simp add: task_io_ok_def)
    then have "tk_sock k' = None \<longrightarrow> tk_in k' = None \<and> tk_out k' = None" using k'(2,5,6) by auto
    ultimately have "task_io_ok k'" using lk2 k'(4) unfolding task_io_ok_def by blast
    moreover have "tk_in k' = None \<or> tk_in k' = Some RecvEvent" "tk_out k' = None \<or> tk_out k' = Some SendEvent \<or> tk_out k' = Some ConnectEvent"
      using w0 k'(5,6) by (auto simp: waits_ok_def)
    ultimately show ?thesis by (simp add: waits_ok_def)
  qed
  have inv: "run_inv (s\<lparr>tp_task := k', tp_woken := False, tp_log := l, tp_place := q\<rparr>)"
    if q: "q = EventCb \<or> q = Failing FailIo" and l: "l = tp_log s \<or> l = tp_log s @ [OnEvent]" for q l
    unfolding run_inv_def
  proof (intro conjI)
    let ?s = "s\<lparr>tp_task := k', tp_woken := False, tp_log := l, tp_place := q\<rparr>"
    have en: "io_enabled ?s = io_enabled s" using q k(2) by (auto simp: io_enabled_def)
    have nh: "\<not> ctl_shakes (tp_ctl s)" using R k(2) by (simp add: run_ctl_def)
    show "run_life ?s" using R k k' q by (auto simp: run_life_def)
    have "run_ctl s" using R by simp
    then show "run_ctl ?s" using q k(2) en nh unfolding run_ctl_def by (elim disjE) simp_all
    have "run_sock s" using R by simp
    then show "run_sock ?s" using q k(2) en k'(2) k(1) unfolding run_sock_def by (elim disjE) simp_all
    have locked: "ev_locked (tk_event k' SendEvent) \<and> ev_locked (tk_event k' RecvEvent) \<and> tk_out k' \<noteq> Some SendEvent \<and> tk_in k' = None" if "\<not> io_enabled s"
    proof -
      have "ev_locked (tk_event (tp_task s) SendEvent)" "ev_locked (tk_event (tp_task s) RecvEvent)" "tk_out (tp_task s) \<noteq> Some SendEvent"
        "tk_in (tp_task s) = None" using re that by (simp_all add: run_event_def Let_def)
      moreover have "tk_out (tp_task s) \<noteq> Some RecvEvent" using w0 by (auto simp: waits_ok_def)
      ultimately show ?thesis using lk k'(5,6) by auto
    qed
    have "tk_out k' = Some ConnectEvent \<longrightarrow> tk_out (tp_task s) = Some ConnectEvent" using k'(6) by auto
    moreover have "ev_locked (tk_event k' ConnectEvent) \<longrightarrow> ev_locked (tk_event (tp_task s) ConnectEvent) \<and> (tk_out (tp_task s) = Some ConnectEvent \<longrightarrow> tk_out k' = Some ConnectEvent)"
      using k'(6) k'(7)[of ConnectEvent] by (auto simp: ev_unlock_forced_def split: if_splits)
    ultimately show "run_event ?s" using re q k(2) en w locked em unfolding run_event_def Let_def by (elim disjE) auto
    show "run_data ?s" using R k(2) q by (auto simp: run_data_def taken_bytes_def given_bytes_def)
    have "log_ok (tp_handshaked s) (tp_close_asked s) (tp_log s)" using R k(2) by (simp add: run_log_def)
    then show "run_log ?s" using l q by (elim disjE) (simp_all add: run_log_def)
  qed
  have p0: "task_process_args m st (snd (task_dump_ready (tp_task s))\<lparr>tk_deadline := TIME_INFINITE\<rparr>) = Some (er, k')"
    using k'(1) by (simp add: task_dump_ready_def)
  have sub: "tp_sub s" using R by (simp add: run_life_def)
  show ?thesis
  proof (cases "er = None")
    case True
    then show ?thesis using p0 sub inv[of EventCb "tp_log s @ [OnEvent]"] by (simp add: tcp_run_def tcp_call_def Let_def)
  next
    case False
    then obtain e where e: "er = Some e" by auto
    have "tcp_run m st s = Some (s\<lparr>tp_task := k', tp_woken := False, tp_log := tp_log s, tp_place := Failing FailIo\<rparr>)"
      using p0 e by (cases s) (simp add: tcp_run_def tcp_at_def Let_def)
    then show ?thesis using inv[of "Failing FailIo" "tp_log s"] by simp
  qed
qed

lemma c_close:
  assumes I: "run_inv s" and p: "tp_place s = Idle" "tp_close_asked s" "\<not> tk_closed (tp_task s)"
  shows "run_inv (s\<lparr>tp_task := (tp_task s)\<lparr>tk_closed := True, tk_sock := None\<rparr>\<rparr>)"
  unfolding run_inv_def
proof (intro conjI)
  let ?s = "s\<lparr>tp_task := (tp_task s)\<lparr>tk_closed := True, tk_sock := None\<rparr>\<rparr>"
  note R = I[unfolded run_inv_def]
  have en: "io_enabled ?s = io_enabled s" by (simp add: io_enabled_def)
  show "run_life ?s" using R p by (simp add: run_life_def)
  show "run_ctl ?s" using R en by (simp add: run_ctl_def)
  show "run_sock ?s" by (simp add: run_sock_def)
  show "run_event ?s" using R en by (simp add: run_event_def waits_ok_def task_io_ok_def Let_def)
  show "run_data ?s" "run_log ?s" using R by (simp_all add: run_data_def taken_bytes_def given_bytes_def run_log_def)
qed

lemma c_resolved:
  assumes I: "run_inv s" and c: "tp_ctl s = Some c" "ct_domain c = Some DomSent"
  shows "run_inv (s\<lparr>tp_ctl := Some (c\<lparr>ct_domain := Some (DomDone er)\<rparr>), tp_woken := True\<rparr>)"
  unfolding run_inv_def
proof (intro conjI)
  let ?s = "s\<lparr>tp_ctl := Some (c\<lparr>ct_domain := Some (DomDone er)\<rparr>), tp_woken := True\<rparr>"
  note R = I[unfolded run_inv_def]
  have st: "ctl_shakes (tp_ctl ?s) = ctl_shakes (tp_ctl s)" "ctl_starts (tp_ctl ?s) = ctl_starts (tp_ctl s)"
    using c by (simp_all add: ctl_shakes_def ctl_starts_def)
  then have en: "io_enabled ?s = io_enabled s" by (simp add: io_enabled_def)
  show "run_life ?s" using R by (auto simp: run_life_def)
  have rc: "run_ctl s" using R by simp
  then have "ctl_ok c" using c(1) unfolding run_ctl_def by blast
  then have ok: "\<forall>c'. tp_ctl ?s = Some c' \<longrightarrow> ctl_ok c'" using c by (auto simp: ctl_ok_def)
  note rc
  then show "run_ctl ?s" using ok en st c unfolding run_ctl_def by simp
  show "run_sock ?s" using R en c unfolding run_sock_def by simp
  show "run_event ?s" using R en c unfolding run_event_def Let_def by simp
  show "run_data ?s" "run_log ?s" using R by (simp_all add: run_data_def taken_bytes_def given_bytes_def run_log_def)
qed

section \<open>Calls of the clients\<close>

lemma waits_deadline [simp]: "waits_ok (k\<lparr>tk_deadline := d\<rparr>) = waits_ok k" "no_waits (k\<lparr>tk_deadline := d\<rparr>) = no_waits k"
  by (simp_all add: waits_ok_def task_io_ok_def no_waits_def)

text \<open>What the invariant does not depend on.\<close>

lemma inv_frame [simp]:
  "tcp_inv (s\<lparr>tp_front_send := a\<rparr>) = tcp_inv s" "tcp_inv (s\<lparr>tp_front_recv := b\<rparr>) = tcp_inv s" "tcp_inv (s\<lparr>tp_recv_size := b\<rparr>) = tcp_inv s"
  "tcp_inv (s\<lparr>tp_woken := w\<rparr>) = tcp_inv s" "tcp_inv (s\<lparr>tp_task := (tp_task s)\<lparr>tk_deadline := b\<rparr>\<rparr>) = tcp_inv s"
  by (simp_all add: tcp_inv_def run_inv_def inv_defs rest_inv_def last_inv_def)

lemma inv_deadline [simp]:
  "tcp_inv (s\<lparr>tp_task := task_set_deadline d (tp_task s)\<rparr>) = tcp_inv s" "tcp_inv (s\<lparr>tp_task := task_reschedule (tp_task s)\<rparr>) = tcp_inv s"
  by (simp_all add: task_set_deadline_def task_reschedule_def)

lemma t_post_send: "tcp_inv s \<Longrightarrow> tcp_inv (tcp_post_send_move False bs s)"
  by (simp add: tcp_post_send_move_def)
lemma t_post_recv: "tcp_inv s \<Longrightarrow> tcp_inv (tcp_post_recv inw n s)"
  by (simp add: tcp_post_recv_def tcp_recv_more_def)

lemma run_bytes:
  assumes "run_inv s" and "run_data (s\<lparr>tp_send := a, tp_accepted := b, tp_recv := c, tp_read := d\<rparr>)"
  shows "run_inv (s\<lparr>tp_send := a, tp_accepted := b, tp_recv := c, tp_read := d\<rparr>)"
proof -
  let ?s = "s\<lparr>tp_send := a, tp_accepted := b, tp_recv := c, tp_read := d\<rparr>"
  have "io_enabled ?s = io_enabled s" by (simp add: io_enabled_def)
  then have "run_life ?s = run_life s" "run_ctl ?s = run_ctl s" "run_sock ?s = run_sock s" "run_event ?s = run_event s" "run_log ?s = run_log s"
    by (simp_all add: run_life_def run_ctl_def run_sock_def run_event_def run_log_def)
  then show ?thesis using assms unfolding run_inv_def by blast
qed

lemma t_send_in:
  assumes I: "tcp_inv s" and p: "in_callback (tp_place s)"
  shows "tcp_inv (tcp_post_send_move True bs s)"
proof (cases "tk_closed (tp_task s)")
  case True
  then show ?thesis using I by (simp add: tcp_post_send_move_def tcp_send_move_def)
next
  case False
  have pl: "tp_place s \<noteq> Closed" "tp_place s \<noteq> SendEnd" using p by auto
  then have "run_inv s" "tp_running s" using I False p by (auto simp: tcp_inv_def rest_inv_def split: if_splits)
  have d: "run_data s" using \<open>run_inv s\<close> by (simp add: run_inv_def)
  then have "run_data (s\<lparr>tp_send := tp_send s @ bs, tp_accepted := tp_accepted s @ bs, tp_recv := tp_recv s, tp_read := tp_read s\<rparr>)"
    using pl(2) by (auto simp: run_data_def taken_bytes_def given_bytes_def)
  from run_bytes[OF \<open>run_inv s\<close> this] have "run_inv (s\<lparr>tp_send := tp_send s @ bs, tp_accepted := tp_accepted s @ bs\<rparr>)"
    by simp
  then show ?thesis using \<open>tp_running s\<close> pl False by (simp add: tcp_post_send_move_def tcp_send_move_def tcp_inv_def)
qed

lemma t_read:
  assumes I: "tcp_inv s" and p: "tp_place s = RecvCb called" and n: "n \<le> length (tp_recv s)"
  shows "tcp_inv (s\<lparr>tp_read := tp_read s @ take n (tp_recv s), tp_recv := drop n (tp_recv s)\<rparr>)"
proof -
  have R: "run_inv s" "tp_running s" using tcp_inv_running[OF I] p by simp_all
  have a: "take n (tp_recv s) @ drop n (tp_recv s) @ x = tp_recv s @ x" for x by (simp flip: append_assoc)
  have "run_data s" using R(1) by (simp add: run_inv_def)
  then have "run_data (s\<lparr>tp_send := tp_send s, tp_accepted := tp_accepted s, tp_recv := drop n (tp_recv s), tp_read := tp_read s @ take n (tp_recv s)\<rparr>)"
    using p a by (auto simp: run_data_def taken_bytes_def given_bytes_def)
  from run_bytes[OF R(1) this] have "run_inv (s\<lparr>tp_read := tp_read s @ take n (tp_recv s), tp_recv := drop n (tp_recv s)\<rparr>)" by (cases s) simp
  then show ?thesis using R(2) p by (simp add: tcp_inv_def)
qed

lemma t_post_close:
  assumes I: "tcp_inv s"
  shows "tcp_inv (tcp_post_close s)"
proof (cases "tp_running s \<and> tp_place s \<noteq> Closed \<and> \<not> compromised (tp_state s)")
  case False
  then show ?thesis using I by (auto simp: tcp_inv_def tcp_post_close_def compromised_def last_inv_def rest_inv_def split: if_splits)
next
  case True
  then have R: "run_inv s" using I by (simp add: tcp_inv_def)
  let ?s = "s\<lparr>tp_state := TCP_SOCKET_STATE_CLOSING, tp_close_asked := True\<rparr>"
  have en: "io_enabled ?s = io_enabled s" by (simp add: io_enabled_def)
  note R' = R[unfolded run_inv_def]
  have "run_inv ?s"
    unfolding run_inv_def
  proof (intro conjI)
    show "run_life ?s" using R' by (simp add: run_life_def)
    show "run_ctl ?s" using R' en by (simp add: run_ctl_def)
    show "run_sock ?s" using R' en by (simp add: run_sock_def)
    show "run_event ?s" using R' en by (simp add: run_event_def Let_def)
    show "run_data ?s" using R' by (simp add: run_data_def taken_bytes_def given_bytes_def)
    show "run_log ?s" using R' by (auto simp: run_log_def intro: log_ok_weaken)
  qed
  moreover have "tp_state s \<noteq> TCP_SOCKET_STATE_NEW" using R' by (simp add: run_life_def)
  ultimately show ?thesis using True by (simp add: tcp_post_close_def tcp_inv_def)
qed

lemma run_front:
  assumes R: "run_inv s" and f: "front_ok f" and st: "st = tp_state s \<and> ctl_starts (Some f) = ctl_starts (tp_front_ctl s) \<and> st \<noteq> TCP_SOCKET_STATE_EMPTY \<or>
      tp_state s = TCP_SOCKET_STATE_EMPTY \<and> st = TCP_SOCKET_STATE_CONNECTING"
  shows "run_inv (s\<lparr>tp_state := st, tp_front_ctl := Some f\<rparr>)"
  unfolding run_inv_def
proof (intro conjI)
  let ?s = "s\<lparr>tp_state := st, tp_front_ctl := Some f\<rparr>"
  have en: "io_enabled ?s = io_enabled s" by (simp add: io_enabled_def)
  note R' = R[unfolded run_inv_def]
  have em: "tp_state s = TCP_SOCKET_STATE_EMPTY \<Longrightarrow> \<not> io_enabled s \<and> tp_place s \<noteq> CtlAttached \<and> tp_place s \<noteq> CtlConnected \<and> tp_ctl s = None"
    using R' by (auto simp: run_ctl_def ctl_shakes_def split: if_splits)
  show "run_life ?s" using R' st by (auto simp: run_life_def)
  have "run_ctl s" using R' by simp
  then show "run_ctl ?s"
  proof (cases "tp_state s = TCP_SOCKET_STATE_EMPTY")
    case True
    then have s: "st = TCP_SOCKET_STATE_CONNECTING" "\<not> ctl_starts None" using st by (auto simp: ctl_starts_def)
    show ?thesis using \<open>run_ctl s\<close> f em[OF True] en s unfolding run_ctl_def by simp
  next
    case False
    then have s: "st = tp_state s" "ctl_starts (Some f) = ctl_starts (tp_front_ctl s)" using st by auto
    show ?thesis using \<open>run_ctl s\<close> f False en s(2) unfolding run_ctl_def s(1) by simp
  qed
  show "run_sock ?s" using R' en by (simp add: run_sock_def)
  show "run_event ?s" using R' en by (simp add: run_event_def Let_def)
  show "run_data ?s" using R' by (simp add: run_data_def taken_bytes_def given_bytes_def)
  show "run_log ?s" using R' by (simp add: run_log_def)
qed

lemma front_ctl_ok: "run_inv s \<Longrightarrow> front_ok (front_ctl s) \<and> ctl_starts (Some (front_ctl s)) = ctl_starts (tp_front_ctl s)"
proof -
  assume "run_inv s"
  then have "run_ctl s" by (simp add: run_inv_def)
  then have "\<forall>c. tp_front_ctl s = Some c \<longrightarrow> front_ok c" unfolding run_ctl_def by blast
  then show ?thesis by (cases "tp_front_ctl s") (auto simp: front_ctl_def ctl_new_def front_ok_def ctl_ok_def ctl_starts_def)
qed

lemma t_post_shutdown:
  assumes I: "tcp_inv s" and st: "tp_state s \<noteq> TCP_SOCKET_STATE_NEW" "tp_state s \<noteq> TCP_SOCKET_STATE_EMPTY"
  shows "\<exists>s'. tcp_post_shutdown s = Some s' \<and> tcp_inv s'"
proof (cases "compromised (tp_state s)")
  case True
  then show ?thesis using I by (simp add: tcp_post_shutdown_def)
next
  case False
  then have r: "tp_running s" "tp_place s \<noteq> Closed" "run_inv s"
    using I st by (auto simp: tcp_inv_def rest_inv_def last_inv_def compromised_def split: if_splits)
  let ?f = "ctl_add_shutdown (front_ctl s)"
  have "front_ok ?f" "ctl_starts (Some ?f) = ctl_starts (tp_front_ctl s)"
    using front_ctl_ok[OF r(3)] by (auto simp: ctl_add_shutdown_def front_ok_def ctl_ok_def ctl_starts_def)
  then have "run_inv (s\<lparr>tp_state := tp_state s, tp_front_ctl := Some ?f\<rparr>)" using st(2) by (intro run_front r) auto
  then have "tcp_inv (s\<lparr>tp_front_ctl := Some ?f\<rparr>)" using r by (cases s) (simp add: tcp_inv_def)
  then show ?thesis using False st by (simp add: tcp_post_shutdown_def)
qed

lemma t_connect:
  assumes I: "tcp_inv s" and st: "tp_state s = TCP_SOCKET_STATE_EMPTY \<or> tp_state s = TCP_SOCKET_STATE_CLOSING"
  shows "\<exists>s'. tcp_connect so d ip s = Some s' \<and> tcp_inv s'"
proof (cases "tp_state s = TCP_SOCKET_STATE_CLOSING")
  case True
  then show ?thesis using I by (simp add: tcp_connect_def)
next
  case False
  then have r: "tp_running s" "tp_place s \<noteq> Closed" "run_inv s" "tp_state s = TCP_SOCKET_STATE_EMPTY"
    using I st by (auto simp: tcp_inv_def rest_inv_def last_inv_def split: if_splits)
  have f: "tp_front_ctl s = None" using r(3,4) by (simp add: run_inv_def run_ctl_def)
  let ?f = "ctl_new\<lparr>ct_connect := True, ct_socket := so, ct_delay := d, ct_host := ip, ct_domain := (if ip then None else Some DomNew)\<rparr>"
  have e: "ctl_add_connect so d ip (front_ctl s) = Some ?f" using f by (simp add: ctl_add_connect_def front_ctl_def ctl_new_def)
  have "front_ok ?f" by (simp add: front_ok_def ctl_ok_def ctl_new_def)
  then have "run_inv (s\<lparr>tp_state := TCP_SOCKET_STATE_CONNECTING, tp_front_ctl := Some ?f\<rparr>)" using r(4) by (intro run_front r) auto
  then have "tcp_inv (s\<lparr>tp_state := TCP_SOCKET_STATE_CONNECTING, tp_front_ctl := Some ?f\<rparr>)" using r by (simp add: tcp_inv_def)
  then have "tcp_inv (s\<lparr>tp_state := TCP_SOCKET_STATE_CONNECTING, tp_front_ctl := Some ?f,
      tp_task := task_reschedule (tp_task (s\<lparr>tp_state := TCP_SOCKET_STATE_CONNECTING, tp_front_ctl := Some ?f\<rparr>))\<rparr>)"
    by (simp only: inv_deadline)
  then show ?thesis using e r by (simp add: tcp_connect_def)
qed

lemma t_open:
  assumes I: "tcp_inv s" and m: "may_start inw s" and o: "\<not> tp_ready s" "tp_recv_size s = 0"
  shows "\<exists>s'. tcp_open s = Some s' \<and> tcp_inv s'"
proof -
  have r: "\<not> tp_running s" "rest_inv s" "tp_place s \<noteq> ClosedRest" using I m by (auto simp: tcp_inv_def may_start_def split: if_splits)
  then have "tcp_open s = Some (s\<lparr>tp_ready := True\<rparr>)" using o by (simp add: rest_inv_def tcp_open_def)
  moreover have "rest_inv (s\<lparr>tp_ready := True\<rparr>)" using r(2) by (simp add: rest_inv_def)
  ultimately show ?thesis using r by (simp add: tcp_inv_def)
qed

text \<open>The state after a start.\<close>

lemma started_inv:
  assumes r: "\<not> tp_running s" "rest_inv s" "may_start inw s" "tp_ready s"
    and f: "fo = None \<or> (\<exists>f. fo = Some f \<and> front_ok f) \<and> st = TCP_SOCKET_STATE_CONNECTING"
    and st: "st = TCP_SOCKET_STATE_CONNECTING \<or> st = TCP_SOCKET_STATE_EMPTY"
  shows "\<exists>s1 s2. tcp_start st s = Some s1 \<and> tp_front_ctl s1 = None \<and> tcp_task_post inw (s1\<lparr>tp_front_ctl := fo\<rparr>) = Some s2 \<and> tcp_inv (tcp_at Idle s2)"
proof -
  have pl: "tp_place s \<noteq> ClosedRest" "tk_closed (tp_task s) \<longrightarrow> inw" using r(3) by (auto simp: may_start_def split: if_splits)
  note i = r(2)[unfolded rest_inv_def]
  let ?s1 = "s\<lparr>tp_ready := False, tp_running := True, tp_sub := True, tp_state := st,
                  tp_accepted := [], tp_wire := [], tp_got := [], tp_read := [], tp_log := []\<rparr>"
  let ?s2 = "?s1\<lparr>tp_front_ctl := fo, tp_task := (tp_task s)\<lparr>tk_closed := False\<rparr>, tp_close_asked := False, tp_posted := True\<rparr>"
  have 1: "tcp_start st s = Some ?s1" using r(1,4) i by (auto simp: tcp_start_def)
  have ca: "(tp_close_asked s \<and> \<not> tk_closed (tp_task s)) = False" using i by blast
  have 2: "tcp_task_post inw (?s1\<lparr>tp_front_ctl := fo\<rparr>) = Some ?s2" using i pl ca by (simp add: tcp_task_post_def)
  have "run_inv (tcp_at Idle ?s2)"
    unfolding run_inv_def
  proof (intro conjI)
    let ?s = "tcp_at Idle ?s2"
    have n: "tp_ctl s = None" "\<not> tp_handshaked s" "no_waits (tp_task s)" "tk_sock (tp_task s) = None"
      "tk_event (tp_task s) SendEvent = disabled_events SendEvent" "tk_event (tp_task s) RecvEvent = disabled_events RecvEvent"
      "tp_recv s = []" "tp_send s = []" "tp_reserved s = []" using i pl by auto
    have en: "\<not> io_enabled ?s" using n by (simp add: io_enabled_def tcp_at_def)
    show "run_life ?s" using st by (auto simp: run_life_def tcp_at_def)
    show "run_ctl ?s" using n f en st by (auto simp: run_ctl_def tcp_at_def ctl_shakes_def ctl_starts_def)
    show "run_sock ?s" using n by (simp add: run_sock_def tcp_at_def io_enabled_def ctl_shakes_def)
    show "run_event ?s" using n en
      by (simp add: run_event_def tcp_at_def waits_ok_def task_io_ok_def no_waits_def disabled_events_def ev_reset_def Let_def)
    show "run_data ?s" using n by (simp add: run_data_def taken_bytes_def given_bytes_def tcp_at_def)
    show "run_log ?s" using n by (simp add: run_log_def log_ok_def tcp_at_def)
  qed
  then have "tcp_inv (tcp_at Idle ?s2)" by (simp add: tcp_inv_def tcp_at_def)
  with 1 2 i show ?thesis by (intro exI[of _ ?s1] exI[of _ ?s2]) simp
qed

lemma add_connect_new: "\<exists>c. ctl_add_connect so d ip ctl_new = Some c \<and> front_ok c"
  by (simp add: ctl_add_connect_def ctl_new_def front_ok_def ctl_ok_def)

lemma add_attach_new: "\<exists>c. ctl_add_attach so ctl_new = Some c \<and> front_ok c"
  by (simp add: ctl_add_attach_def ctl_new_def front_ok_def ctl_ok_def)

lemma t_post_connect:
  assumes I: "tcp_inv s" and m: "may_start inw s" "tp_ready s"
  shows "\<exists>s'. tcp_post_connect inw so d ip s = Some s' \<and> tcp_inv (tcp_at Idle s')"
proof -
  have r: "\<not> tp_running s" "rest_inv s" using I m(1) by (auto simp: tcp_inv_def may_start_def split: if_splits)
  obtain c where c: "ctl_add_connect so d ip ctl_new = Some c" "front_ok c" using add_connect_new by blast
  from started_inv[OF r m, of "Some c" TCP_SOCKET_STATE_CONNECTING] c(2) obtain s1 s2
    where s: "tcp_start TCP_SOCKET_STATE_CONNECTING s = Some s1" "tp_front_ctl s1 = None"
      "tcp_task_post inw (s1\<lparr>tp_front_ctl := Some c\<rparr>) = Some s2" "tcp_inv (tcp_at Idle s2)" by auto
  have "tcp_at Idle (s2\<lparr>tp_woken := True\<rparr>) = (tcp_at Idle s2)\<lparr>tp_woken := True\<rparr>" by (simp add: tcp_at_def)
  with s(4) have "tcp_inv (tcp_at Idle (s2\<lparr>tp_woken := True\<rparr>))" by simp
  then show ?thesis using s(1-3) c(1) by (simp add: tcp_post_connect_def front_ctl_def)
qed

lemma t_post_wrap:
  assumes I: "tcp_inv s" and m: "may_start inw s" "tp_ready s"
  shows "\<exists>s'. tcp_post_wrap inw so s = Some s' \<and> tcp_inv (tcp_at Idle s')"
proof -
  have r: "\<not> tp_running s" "rest_inv s" using I m(1) by (auto simp: tcp_inv_def may_start_def split: if_splits)
  obtain c where c: "ctl_add_attach so ctl_new = Some c" "front_ok c" using add_attach_new by blast
  from started_inv[OF r m, of "Some c" TCP_SOCKET_STATE_CONNECTING] c(2) obtain s1 s2
    where s: "tcp_start TCP_SOCKET_STATE_CONNECTING s = Some s1" "tp_front_ctl s1 = None"
      "tcp_task_post inw (s1\<lparr>tp_front_ctl := Some c\<rparr>) = Some s2" "tcp_inv (tcp_at Idle s2)" by auto
  have "tcp_at Idle (s2\<lparr>tp_woken := True\<rparr>) = (tcp_at Idle s2)\<lparr>tp_woken := True\<rparr>" by (simp add: tcp_at_def)
  with s(4) have "tcp_inv (tcp_at Idle (s2\<lparr>tp_woken := True\<rparr>))" by simp
  then show ?thesis using s(1-3) c(1) by (simp add: tcp_post_wrap_def front_ctl_def)
qed

lemma t_post_task:
  assumes I: "tcp_inv s" and m: "may_start inw s" "tp_ready s"
  shows "\<exists>s'. tcp_post_task inw s = Some s' \<and> tcp_inv (tcp_at Idle s')"
proof -
  have r: "\<not> tp_running s" "rest_inv s" using I m(1) by (auto simp: tcp_inv_def may_start_def split: if_splits)
  from started_inv[OF r m, of None TCP_SOCKET_STATE_EMPTY] obtain s1 s2
    where s: "tcp_start TCP_SOCKET_STATE_EMPTY s = Some s1" "tp_front_ctl s1 = None"
      "tcp_task_post inw (s1\<lparr>tp_front_ctl := None\<rparr>) = Some s2" "tcp_inv (tcp_at Idle s2)" by auto
  then have "s1\<lparr>tp_front_ctl := None\<rparr> = s1" by (cases s1) simp
  with s show ?thesis by (simp add: tcp_post_task_def)
qed

end
