(* ===== verification/Tcp_Correct.thy ===== *)
theory Tcp_Correct
  imports Tcp_Connecting Tcp_Data Tcp_Calls
begin

text \<open>
  What a client of a \<^verbatim>\<open>TCPSocket\<close> can rely on: no assertion fails, the streams of bytes lose and reorder nothing, the callbacks come
  in order, and a close ends with \<^verbatim>\<open>OnClose\<close>. At the end, two calls that the code does not bear.
\<close>

section \<open>Every step has a result and keeps the invariant\<close>

lemma keeps_inv:
  assumes "keeps s r" and "tp_running s"
  shows "\<exists>s'. r = Some s' \<and> tcp_inv s'"
  using assms by (auto simp: keeps_def tcp_inv_def run_inv_def run_life_def)

lemma run_inv_keeps: "run_inv s' \<Longrightarrow> tp_running s' = tp_running s \<Longrightarrow> keeps s (Some s')"
  by simp

lemma tcp_at_running [simp]: "tp_running (tcp_at p s) = tp_running s" "tp_running (tcp_connect_done s) = tp_running s"
  "tp_running (tcp_recv_done s) = tp_running s" "tp_running (tcp_send_done b s) = tp_running s" "tp_running (tcp_ctl_end s) = tp_running s"
  by (simp_all add: tcp_at_def tcp_connect_done_def tcp_recv_done_def tcp_send_done_def tcp_ctl_end_def)

lemma worker_running:
  assumes I: "run_inv s" and r: "tp_running s" and w: "tcp_worker s rr" and p: "running_place (tp_place s)"
  shows "keeps s rr"
  using w
proof cases
  case event then show ?thesis using w_event[OF I] by simp
next case take then show ?thesis using w_take[OF I] by simp
next case shutdown then show ?thesis using w_shutdown[OF I] by simp
next case attach then show ?thesis using w_attach[OF I] by simp
next case attached then show ?thesis using w_attached[OF I] by simp
next case connect then show ?thesis using w_connect[OF I] by simp
next case connected then show ?thesis using w_connected[OF I] by simp
next case handshake then show ?thesis using w_handshake[OF I] by simp
next case commit then show ?thesis using w_commit[OF I] by simp
next case connect_cb then show ?thesis using w_connect_done[OF I] by simp
next case idle then show ?thesis using w_idle[OF I] by simp
next case ctl_end then show ?thesis using w_ctl_end[OF I] by simp
next case recv_begin then show ?thesis using w_recv_consume[OF I, of False] by simp
next case recv_call then show ?thesis using w_recv_call[OF I] by simp
next case recv_end then show ?thesis using w_recv_consume[OF I, of True] by simp
next case (recv_cb called) then show ?thesis using w_recv_cb[OF I, of called] by simp
next case recv_done then show ?thesis using w_recv_done[OF I] by simp
next case send_begin then show ?thesis using w_send_consume[OF I, of False] by simp
next case send_call then show ?thesis using w_send_call[OF I] by simp
next case send_end then show ?thesis using w_send_consume[OF I, of True] by simp
next case (send_cb called) then show ?thesis using w_send_cb[OF I, of called] by simp
next case send_done then show ?thesis using w_send_done[OF I] by simp
next case failing then show ?thesis using w_failing[OF I] by simp
next case fail_cb then show ?thesis using w_fail_cb[OF I] by simp
next case fail_close then show ?thesis using w_fail_close[OF I r] by simp
qed (use p in simp_all)

lemma worker_inv:
  assumes I: "tcp_inv s" and w: "tcp_worker s r"
  shows "\<exists>s'. r = Some s' \<and> tcp_inv s'"
proof (cases "running_place (tp_place s)")
  case True
  from tcp_inv_running[OF I True] worker_running[OF _ _ w True] show ?thesis by (intro keeps_inv) auto
next
  case False
  from w False consider (c) "tp_place s = Closed" "r = tcp_closed s" | (r) "tp_place s = ClosedRest" "r = tcp_closed_rest s"
    | (cb) "tp_place s = CloseCb" "r = Some (tcp_at Idle s)"
    by cases auto
  then show ?thesis
  proof cases
    case c
    then have "tp_running s" "last_inv s" using I by (auto simp: tcp_inv_def rest_inv_def split: if_splits)
    from w_closed[OF this] c(2) show ?thesis by (auto simp: tcp_inv_def)
  next
    case r
    then have "\<not> tp_running s" "rest_inv s" using I by (auto simp: tcp_inv_def run_inv_def run_life_def split: if_splits)
    from w_closed_rest[OF this r(1)] r(2) show ?thesis by (auto simp: tcp_inv_def)
  next
    case cb
    then have "\<not> tp_running s" "rest_inv s" using I by (auto simp: tcp_inv_def run_inv_def run_life_def split: if_splits)
    from w_close_cb[OF this cb(1)] this(1) cb(2) show ?thesis by (auto simp: tcp_inv_def)
  qed
qed

lemma core_inv:
  assumes I: "tcp_inv s" and w: "tcp_core s r"
  shows "\<exists>s'. r = Some s' \<and> tcp_inv s'"
proof -
  have run: "tp_running s \<and> run_inv s" if "tp_place s = Idle" "tp_posted s"
    using I that by (auto simp: tcp_inv_def rest_inv_def split: if_splits)
  show ?thesis
    using w
  proof cases
    case (run m st)
    with \<open>tp_place s = Idle \<Longrightarrow> tp_posted s \<Longrightarrow> _\<close> have "tp_running s" "run_inv s" by auto
    then show ?thesis using run c_run[of s m st] by (intro keeps_inv) auto
  next
    case task_close
    with run have "tp_running s" "run_inv s" by auto
    with c_close[OF this(2)] task_close show ?thesis by (auto simp: tcp_inv_def)
  next
    case run_closed
    with run have "tp_running s" "run_inv s" by auto
    with c_run_closed[OF this(2,1)] run_closed show ?thesis by (auto simp: tcp_inv_def)
  next
    case (resolved c er)
    consider (n) "\<not> tp_running s" | (l) "tp_running s" "tp_place s = Closed" | (r) "tp_running s" "tp_place s \<noteq> Closed" by blast
    then show ?thesis
    proof cases
      case n
      then have "rest_inv s" using I by (simp add: tcp_inv_def)
      then have "rest_inv (s\<lparr>tp_ctl := Some (c\<lparr>ct_domain := Some (DomDone er)\<rparr>), tp_woken := True\<rparr>)"
        using resolved by (auto simp: rest_inv_def split: if_splits)
      then show ?thesis using resolved n by (simp add: tcp_inv_def)
    next
      case l
      then have "last_inv s" using I by (simp add: tcp_inv_def)
      then show ?thesis using resolved l by (simp add: tcp_inv_def last_inv_def)
    next
      case r
      then have "run_inv s" using I by (simp add: tcp_inv_def)
      from c_resolved[OF this resolved(2,3)] r resolved(1) show ?thesis by (simp add: tcp_inv_def)
    qed
  qed
qed

lemma client_inv:
  assumes I: "tcp_inv s" and w: "tcp_client s r"
  shows "\<exists>s'. r = Some s' \<and> tcp_inv s'"
  using w
proof cases
  case (opens inw) then show ?thesis using t_open[OF I] by blast
next case (post_connect inw so d ip) then show ?thesis using t_post_connect[OF I, of inw so d ip] by auto
next case (post_wrap inw so) then show ?thesis using t_post_wrap[OF I, of inw so] by auto
next case (post_task inw) then show ?thesis using t_post_task[OF I, of inw] by auto
next case send then show ?thesis using t_post_send[OF I] by blast
next case recv then show ?thesis using t_post_recv[OF I] by blast
next case wakeup then show ?thesis using I by simp
next case close then show ?thesis using t_post_close[OF I] by blast
next case shutdown then show ?thesis using t_post_shutdown[OF I] by blast
next case send_in then show ?thesis using t_send_in[OF I] by blast
next case recv_in then show ?thesis using t_post_recv[OF I] by blast
next case (connect so d ip) then show ?thesis using t_connect[OF I, of so d ip] by blast
next case deadline then show ?thesis using I by simp
next case reschedule then show ?thesis using I by simp
next case read then show ?thesis using t_read[OF I] by blast
qed

lemma tcp_step_inv: "tcp_inv s \<Longrightarrow> tcp_step s r \<Longrightarrow> \<exists>s'. r = Some s' \<and> tcp_inv s'"
  using worker_inv core_inv client_inv unfolding tcp_step_def by blast

lemma new_inv: "tcp_inv tcp_new"
  by (simp add: tcp_inv_def tcp_new_def rest_inv_def no_waits_def ended_ok_def disabled_events_def)

lemma tcp_reachable_inv: "tcp_reachable s \<Longrightarrow> tcp_inv s"
  by (induction rule: tcp_reachable.induct) (use new_inv tcp_step_inv in fastforce)+

section \<open>Callbacks end\<close>

text \<open>How many steps a callback has left at most.\<close>

fun fail_rank :: "tcp_fail \<Rightarrow> nat" where
  "fail_rank FailIo = 0" | "fail_rank FailShutdown = 28" | "fail_rank FailConnect = 22" | "fail_rank FailSend = 0" | "fail_rank FailRecv = 7"
| "fail_rank (Eof called) = (if called then 8 else 13)"

fun place_rank :: "tcp_place \<Rightarrow> nat" where
  "place_rank Idle = 0" | "place_rank SendDone = 1" | "place_rank (SendCb called) = (if called then 2 else 6)" | "place_rank SendEnd = 4"
| "place_rank SendCall = 5" | "place_rank SendBegin = 7" | "place_rank RecvDone = 8" | "place_rank (RecvCb called) = (if called then 9 else 14)"
| "place_rank RecvEnd = 12" | "place_rank RecvCall = 13" | "place_rank RecvBegin = 17" | "place_rank CtlEnd = 18" | "place_rank CtlIdle = 19"
| "place_rank ConnectCb = 20" | "place_rank CtlCommit = 21" | "place_rank CtlHandshake = 22" | "place_rank CtlConnected = 23"
| "place_rank CtlConnect = 26" | "place_rank CtlAttached = 27" | "place_rank CtlAttach = 28" | "place_rank CtlShutdown = 32"
| "place_rank CtlTake = 33" | "place_rank EventCb = 34" | "place_rank Closed = 3" | "place_rank ClosedRest = 2" | "place_rank CloseCb = 1"
| "place_rank (FailClose f) = Suc (fail_rank f)" | "place_rank (FailCb f) = Suc (Suc (fail_rank f))"
| "place_rank (Failing f) = Suc (Suc (Suc (fail_rank f)))"

lemma fail_rank [simp]: "place_rank (fail_next f) = fail_rank f"
  by (cases f) auto

lemma tcp_at_simps [simp]: "tp_place (tcp_at p s) = p" "tp_close_asked (tcp_at p s) = tp_close_asked s"
  by (simp_all add: tcp_at_def)

lemma Some_eq_bind [simp]: "Some y = Option.bind x f \<longleftrightarrow> (\<exists>z. x = Some z \<and> f z = Some y)"
  by (auto simp: bind_eq_Some_conv dest: sym)

lemma handshake_start_frame: "tcp_handshake_start s = Some s' \<Longrightarrow> tp_close_asked s' = tp_close_asked s"
  by (auto simp: tcp_handshake_start_def bind_eq_Some_conv split: if_splits)

lemma enable_io_frame: "tcp_enable_io s = Some s' \<Longrightarrow> tp_close_asked s' = tp_close_asked s"
  by (auto simp: tcp_enable_io_def bind_eq_Some_conv split: if_splits)

lemma recv_consume_frame:
  "tcp_recv_consume called s = Some s' \<Longrightarrow> place_rank (tp_place s') < (if called then 12 else 17) \<and> tp_close_asked s' = tp_close_asked s"
  by (auto simp: tcp_recv_consume_def tcp_recv_commit_def tcp_call_def bind_eq_Some_conv Let_def split: if_splits)

lemma send_consume_frame:
  "tcp_send_consume called s = Some s' \<Longrightarrow> place_rank (tp_place s') < (if called then 4 else 7) \<and> tp_close_asked s' = tp_close_asked s"
  by (auto simp: tcp_send_consume_def tcp_send_commit_def tcp_call_def bind_eq_Some_conv Let_def split: if_splits)

lemma worker_frame:
  assumes "tcp_worker s (Some s')"
  shows "place_rank (tp_place s') < place_rank (tp_place s) \<and> (tp_close_asked s \<longrightarrow> tp_close_asked s')"
  using assms
proof cases
  case take then show ?thesis by (auto simp: tcp_ctl_take_def bind_eq_Some_conv split: option.splits if_splits)
next case shutdown then show ?thesis by (auto simp: tcp_ctl_shutdown_def bind_eq_Some_conv split: if_splits)
next case attach then show ?thesis by (auto simp: tcp_ctl_attach_def bind_eq_Some_conv split: if_splits)
next case attached then show ?thesis by (auto simp: tcp_ctl_attached_def bind_eq_Some_conv dest!: handshake_start_frame enable_io_frame)
next case connect then show ?thesis by (auto simp: tcp_ctl_connect_def bind_eq_Some_conv split: if_splits)
next case connected then show ?thesis by (auto simp: tcp_ctl_connected_def bind_eq_Some_conv dest!: handshake_start_frame enable_io_frame)
next case handshake then show ?thesis by (auto simp: tcp_ctl_handshake_def bind_eq_Some_conv split: if_splits)
next case commit then show ?thesis by (auto simp: tcp_handshake_commit_def tcp_call_def split: if_splits)
next case connect_cb then show ?thesis by (auto simp: tcp_connect_done_def)
next case idle then show ?thesis by (auto simp: tcp_ctl_idle_def bind_eq_Some_conv)
next case ctl_end then show ?thesis by (auto simp: tcp_ctl_end_def)
next case recv_begin then show ?thesis using recv_consume_frame[of False s s'] by simp
next case recv_call then show ?thesis by (auto simp: tcp_recv_call_def bind_eq_Some_conv split: if_splits)
next case recv_end then show ?thesis using recv_consume_frame[of True s s'] by simp
next case recv_done then show ?thesis by (auto simp: tcp_recv_done_def)
next case send_begin then show ?thesis using send_consume_frame[of False s s'] by simp
next case send_call then show ?thesis by (auto simp: tcp_send_call_def bind_eq_Some_conv split: if_splits)
next case send_end then show ?thesis using send_consume_frame[of True s s'] by simp
next case send_done then show ?thesis by (auto simp: tcp_send_done_def)
next case failing then show ?thesis by (auto simp: tcp_failing_def tcp_call_def split: if_splits)
next case fail_close then show ?thesis
    by (auto simp: tcp_fail_close_def tcp_prot_close_def tcp_lock_event_def bind_eq_Some_conv split: if_splits tcp_fail.splits)
next case closed then show ?thesis by (auto simp: tcp_closed_def split: if_splits)
next case closed_rest then show ?thesis by (auto simp: tcp_closed_rest_def tcp_disable_io_def bind_eq_Some_conv split: if_splits)
qed auto

lemma worker_step_there: "tp_place s \<noteq> Idle \<Longrightarrow> \<exists>r. tcp_worker s r"
proof (cases "tp_place s")
  case RecvCall
  then show ?thesis using tcp_worker.recv_call[of s SysAgain "[]"] by auto
next
  case SendCall
  then show ?thesis using tcp_worker.send_call[of s SysAgain] by auto
qed (auto intro: tcp_worker.intros)

definition tcp_task_step :: "tcp \<Rightarrow> tcp \<Rightarrow> bool" where
  "tcp_task_step s s' = (tcp_worker s (Some s') \<or> tcp_core s (Some s'))"

lemma callback_ends:
  "run_inv s \<Longrightarrow> tp_running s \<Longrightarrow>
    \<exists>s'. tcp_task_step\<^sup>*\<^sup>* s s' \<and> run_inv s' \<and> tp_running s' \<and> tp_place s' = Idle \<and> (tp_close_asked s \<longrightarrow> tp_close_asked s')"
proof (induction "place_rank (tp_place s)" arbitrary: s rule: less_induct)
  case less
  show ?case
  proof (cases "tp_place s = Idle")
    case False
    then have p: "running_place (tp_place s)" using less.prems(1) by (cases "tp_place s") (auto simp: run_inv_def run_life_def)
    obtain r where w: "tcp_worker s r" using False worker_step_there by blast
    from worker_running[OF less.prems w p] obtain s1 where s1: "r = Some s1" "run_inv s1" "tp_running s1"
      using less.prems(2) by (auto simp: keeps_def)
    note f = worker_frame[OF w[unfolded s1(1)]]
    from less.hyps[OF conjunct1[OF f] s1(2,3)] obtain s' where s': "tcp_task_step\<^sup>*\<^sup>* s1 s'" "run_inv s'" "tp_running s'" "tp_place s' = Idle"
      "tp_close_asked s1 \<longrightarrow> tp_close_asked s'" by blast
    have "tcp_task_step s s1" using w s1(1) by (simp add: tcp_task_step_def)
    then have "tcp_task_step\<^sup>*\<^sup>* s s'" using s'(1) by (rule converse_rtranclp_into_rtranclp)
    then show ?thesis using s' f by blast
  qed (use less.prems in blast)
qed

lemma last_callback_ends:
  assumes "tp_running s2" "tp_place s2 = Closed" "last_inv s2"
  shows "\<exists>s'. tcp_task_step\<^sup>*\<^sup>* s2 s' \<and> tp_place s' = CloseCb \<and> tcp_inv s' \<and> \<not> tp_running s'"
proof -
  from w_closed[OF assms(1,3)] obtain s3 where s3: "tcp_closed s2 = Some s3" "\<not> tp_running s3" "rest_inv s3" by blast
  have p3: "tp_place s3 = ClosedRest" using s3(1) assms(3) by (auto simp: tcp_closed_def last_inv_def split: if_splits)
  have st3: "tcp_task_step s2 s3" using assms(2) s3(1) tcp_worker.closed[of s2] by (simp add: tcp_task_step_def)
  from w_closed_rest[OF s3(2,3) p3] obtain s4 where s4: "tcp_closed_rest s3 = Some s4" "\<not> tp_running s4" "rest_inv s4" by blast
  have p4: "tp_place s4 = CloseCb" using s4(1) by (auto simp: tcp_closed_rest_def tcp_disable_io_def split: if_splits)
  have st4: "tcp_task_step s3 s4" using p3 s4(1) tcp_worker.closed_rest[of s3] by (simp add: tcp_task_step_def)
  have "tcp_task_step\<^sup>*\<^sup>* s2 s4" using st3 st4 by (meson rtranclp.rtrancl_into_rtrancl r_into_rtranclp)
  then show ?thesis using p4 s4(2,3) by (auto simp: tcp_inv_def)
qed

lemma close_served:
  assumes R: "run_inv s" and c: "tp_place s = Idle" "tp_running s" "tp_close_asked s"
  shows "\<exists>s'. tcp_task_step\<^sup>*\<^sup>* s s' \<and> tp_place s' = CloseCb \<and> tcp_inv s' \<and> \<not> tp_running s'"
proof -
  have life: "run_life s" using R by (simp add: run_inv_def)
  obtain s1 where s1: "tcp_task_step\<^sup>*\<^sup>* s s1" "run_inv s1" "tp_running s1" "tp_place s1 = Idle" "tk_closed (tp_task s1)" "tp_posted s1"
  proof (cases "tk_closed (tp_task s)")
    case True
    then show ?thesis using R c life that[of s] by (simp add: run_life_def)
  next
    case False
    let ?s = "s\<lparr>tp_task := (tp_task s)\<lparr>tk_closed := True, tk_sock := None\<rparr>\<rparr>"
    have "tcp_task_step s ?s" using False c life unfolding tcp_task_step_def by (auto simp: run_life_def intro!: tcp_core.task_close)
    then have "tcp_task_step\<^sup>*\<^sup>* s ?s" by (rule r_into_rtranclp)
    then show ?thesis using c_close[OF R c(1,3) False] c life that[of ?s] by (simp add: run_life_def)
  qed
  from c_run_closed[OF s1(2,3,5,4)] obtain s2 where s2: "tcp_run_closed s1 = Some s2" "tp_running s2" "tp_place s2 = Closed" "last_inv s2" by blast
  have st2: "tcp_task_step s1 s2" using s1 s2(1) tcp_core.run_closed[of s1] by (simp add: tcp_task_step_def)
  from last_callback_ends[OF s2(2-4)] obtain s' where s': "tcp_task_step\<^sup>*\<^sup>* s2 s'" "tp_place s' = CloseCb \<and> tcp_inv s' \<and> \<not> tp_running s'" by blast
  have "tcp_task_step\<^sup>*\<^sup>* s s'" using s1(1) st2 s'(1) by (meson rtranclp.rtrancl_into_rtrancl rtranclp_trans)
  then show ?thesis using s'(2) by blast
qed

section \<open>The properties\<close>



text \<open>
  C10. The callbacks since a socket was started: \<open>OnConnect\<close>, \<open>OnError\<close> and \<open>OnClose\<close> come at most once, nothing is
  received or sent before \<open>OnConnect\<close>, and \<open>OnClose\<close> comes last, when the socket does not run any more.
\<close>
theorem tcp_callbacks:
  assumes "tcp_reachable s"
  shows "count_list (tp_log s) OnConnect \<le> 1 \<and> count_list (tp_log s) OnError \<le> 1 \<and> count_list (tp_log s) OnClose \<le> 1 \<and>
    (OnSend \<in> set (tp_log s) \<or> OnRecv \<in> set (tp_log s) \<longrightarrow> OnConnect \<in> set (tp_log s)) \<and>
    (OnClose \<in> set (tp_log s) \<longrightarrow> last (tp_log s) = OnClose \<and> \<not> tp_running s)"
proof -
  note I = tcp_reachable_inv[OF assms]
  have r: "\<exists>h er. log_ok h er (tp_log s)" if "tp_running s" using I that by (auto simp: tcp_inv_def last_inv_def run_inv_def run_log_def split: if_splits)
  have "ended_ok (tp_log s) \<and> (tp_running s \<longrightarrow> OnClose \<notin> set (tp_log s))"
  proof (cases "tp_running s")
    case True
    then obtain h er where "log_ok h er (tp_log s)" using r by blast
    then have "log_ok h True (tp_log s)" by (rule log_ok_weaken) simp
    from log_ended[OF this] show ?thesis by simp
  next
    case False
    then show ?thesis using I by (simp add: tcp_inv_def rest_inv_def)
  qed
  then show ?thesis by (auto simp: ended_ok_def)
qed

text \<open>
  C11. A callback ends: at every place but the idle one the callback has a step, and every step comes nearer to its end, so that
  no callback takes more than 34 steps. And a socket whose close was asked for is closed: from every reachable state
  there is a run of its task, without help of the clients, to \<open>OnClose\<close>.
\<close>
theorem tcp_close_completes:
  assumes "tcp_reachable s"
  shows "(tp_place s \<noteq> Idle \<longrightarrow> (\<exists>s'. tcp_worker s (Some s'))) \<and>
    (\<forall>s'. tcp_worker s (Some s') \<longrightarrow> place_rank (tp_place s') < place_rank (tp_place s)) \<and> place_rank (tp_place s) \<le> 34 \<and>
    (tp_running s \<and> tp_close_asked s \<longrightarrow>
      (\<exists>s'. tcp_task_step\<^sup>*\<^sup>* s s' \<and> tp_place s' = CloseCb \<and> OnClose \<in> set (tp_log s') \<and> \<not> tp_running s' \<and> tk_sock (tp_task s') = None))"
proof -
  note I = tcp_reachable_inv[OF assms]
  have 1: "\<exists>s'. tcp_worker s (Some s')" if "tp_place s \<noteq> Idle" using worker_step_there[OF that] worker_inv[OF I] by blast
  have 2: "place_rank (tp_place s) \<le> 34" 
  proof -
    have b: "fail_rank f \<le> 28" for f by (cases f) auto
    show ?thesis by (cases "tp_place s") (auto intro: order_trans[OF b])
  qed
  have fin: "OnClose \<in> set (tp_log s') \<and> tk_sock (tp_task s') = None" if "tcp_inv s'" "\<not> tp_running s'" "tp_place s' = CloseCb" for s'
    using that by (simp add: tcp_inv_def rest_inv_def)
  have 3: "\<exists>s'. tcp_task_step\<^sup>*\<^sup>* s s' \<and> tp_place s' = CloseCb \<and> tcp_inv s' \<and> \<not> tp_running s'" if c: "tp_running s" "tp_close_asked s"
  proof (cases "tp_place s = Closed")
    case True
    then show ?thesis using I c last_callback_ends by (simp add: tcp_inv_def)
  next
    case False
    then have "run_inv s" using I c by (simp add: tcp_inv_def)
    from callback_ends[OF this c(1)] c(2) obtain s1 where s1: "tcp_task_step\<^sup>*\<^sup>* s s1" "run_inv s1" "tp_running s1" "tp_place s1 = Idle" "tp_close_asked s1"
      by blast
    from close_served[OF s1(2,4,3,5)] s1(1) show ?thesis by (meson rtranclp_trans)
  qed
  show ?thesis using 1 2 3 fin worker_frame by blast
qed

section \<open>What the code does not bear\<close>

text \<open>
  A socket that is wrapped, then shut down at once: the messages are served in one callback, the shutdown first, and it does not wait for the
  attachment as it waits for a connection. \<open>er\<close> is what the shutdown of the file would report; \<open>hs\<close> is for the handshake.
\<close>

definition wrap_and_shutdown :: "nat \<Rightarrow> error_code option \<Rightarrow> bool \<Rightarrow> tcp option" where
  "wrap_and_shutdown so er hs =
     do { s \<leftarrow> tcp_open tcp_new;
          s \<leftarrow> tcp_post_wrap False so s;
          s \<leftarrow> tcp_post_shutdown s;
          s \<leftarrow> tcp_run 0 None s;
          s \<leftarrow> tcp_ctl_take (tcp_at CtlTake s);
          s \<leftarrow> tcp_ctl_shutdown er s;
          s \<leftarrow> tcp_ctl_attach s;
          s \<leftarrow> tcp_ctl_attached s;
          s \<leftarrow> tcp_ctl_connect 0 0 (Inr 0) SysAgain s;
          s \<leftarrow> tcp_ctl_handshake hs s;
          s \<leftarrow> tcp_handshake_commit s;
          tcp_ctl_idle (tcp_connect_done s) }"

text \<open>A shutdown of a socket that was started without a connection, and then its connect, in \<^verbatim>\<open>OnEvent\<close>.\<close>

definition shutdown_and_connect :: "nat option \<Rightarrow> time_limit \<Rightarrow> bool \<Rightarrow> tcp option" where
  "shutdown_and_connect so d ip =
     do { s \<leftarrow> tcp_open tcp_new;
          s \<leftarrow> tcp_post_task False s;
          s \<leftarrow> tcp_post_shutdown s;
          s \<leftarrow> tcp_run 0 None s;
          tcp_connect so d ip s }"

lemmas start_defs = tcp_open_def tcp_new_def tcp_post_wrap_def tcp_post_task_def tcp_start_def ctl_add_attach_def front_ctl_def ctl_new_def
  tcp_task_post_def tcp_post_shutdown_def compromised_def ctl_add_shutdown_def tcp_run_def task_process_args_def task_dump_ready_def tcp_call_def

lemmas callback_defs = tcp_ctl_take_def tcp_at_def tk_set_def tcp_ctl_shutdown_def ctl_do_shutdown_def tcp_ctl_attach_def ctl_do_attach_def
  task_attach_socket_def ctl_start_handshake_def tcp_ctl_attached_def tcp_handshake_start_def tcp_enable_io_def ev_unlock_def disabled_events_def
  tcp_ctl_connect_def tcp_ctl_handshake_def ctl_do_handshake_def ctl_end_handshake_def tcp_handshake_commit_def tcp_connect_done_def
  task_reschedule_def tcp_ctl_idle_def ctl_is_idle_def


text \<open>
  Two more surprises: data that the socket sends in a callback overtakes data that another thread has posted before, and a closed
  socket can be started again by its last callback only, although \<^verbatim>\<open>PostConnect\<close>, \<^verbatim>\<open>PostWrap\<close> and \<^verbatim>\<open>PostTask\<close>
  are said to be safe in any thread.
\<close>

lemma send_overtakes:
  assumes "tp_front_send s = []" and "\<not> tk_closed (tp_task s)"
  shows "tp_accepted (tcp_ctl_end (tcp_post_send_move True cs (tcp_post_send_move False bs s))) = tp_accepted s @ cs @ bs"
  using assms by (simp add: tcp_ctl_end_def tcp_at_def tcp_post_send_move_def tcp_send_move_def)

lemma reopen_in_callback_only:
  assumes "tk_closed (tp_task s)"
  shows "tcp_post_connect False so d ip s = None" "tcp_post_wrap False x s = None" "tcp_post_task False s = None"
  using assms
  by (auto simp: tcp_post_connect_def tcp_post_wrap_def tcp_post_task_def tcp_start_def tcp_task_post_def bind_eq_None_conv not_Some_eq
      split: option.splits)

section \<open>Witnesses\<close>

lemma reach: "tcp_reachable s \<Longrightarrow> tcp_step s r \<Longrightarrow> r = Some s' \<Longrightarrow> tcp_reachable s'"
  using tcp_reachable.step by blast

lemma reach_started: "\<exists>s. tcp_reachable s \<and> tp_running s \<and> tp_place s = Idle \<and> tp_state s = TCP_SOCKET_STATE_CONNECTING \<and> tp_posted s"
proof -
  let ?s1 = "tcp_new\<lparr>tp_ready := True\<rparr>"
  have m: "may_start False tcp_new" by (simp add: may_start_def tcp_new_def)
  have "tcp_client tcp_new (tcp_open tcp_new)" by (rule tcp_client.opens[OF m]) (simp_all add: tcp_new_def)
  moreover have "tcp_open tcp_new = Some ?s1" by (simp add: tcp_open_def tcp_new_def)
  ultimately have r1: "tcp_reachable ?s1" by (intro reach[OF tcp_reachable.new]) (auto simp: tcp_step_def)
  have m1: "may_start False ?s1" by (simp add: may_start_def tcp_new_def)
  have "tcp_client ?s1 (map_option (tcp_at Idle) (tcp_post_wrap False 7 ?s1))" by (rule tcp_client.post_wrap[OF m1]) simp
  moreover obtain s2 where s2: "tcp_post_wrap False 7 ?s1 = Some s2" "tp_running s2" "tp_state s2 = TCP_SOCKET_STATE_CONNECTING" "tp_posted s2"
    by (simp add: tcp_post_wrap_def tcp_start_def tcp_new_def front_ctl_def ctl_new_def ctl_add_attach_def tcp_task_post_def)
  ultimately have "tcp_reachable (tcp_at Idle s2)" by (intro reach[OF r1]) (auto simp: tcp_step_def)
  then show ?thesis using s2 by (intro exI[of _ "tcp_at Idle s2"]) (simp add: tcp_at_def)
qed

lemma reach_closing: "\<exists>s. tcp_reachable s \<and> tp_running s \<and> tp_close_asked s"
proof -
  obtain s where s: "tcp_reachable s" "tp_running s" "tp_state s = TCP_SOCKET_STATE_CONNECTING" using reach_started by blast
  have "tcp_reachable (tcp_post_close s)" by (rule reach[OF s(1)]) (auto simp: tcp_step_def intro: tcp_client.close)
  then show ?thesis using s by (intro exI[of _ "tcp_post_close s"]) (simp add: tcp_post_close_def compromised_def)
qed



lemma tcp_callbacks_witness: "\<exists>s. tcp_reachable s \<and> tp_running s \<and> OnClose \<notin> set (tp_log s)"
proof -
  obtain s where s: "tcp_reachable s" "tp_running s" using reach_started by blast
  with tcp_callbacks[OF s(1)] show ?thesis by blast
qed

lemma tcp_close_completes_witness: "\<exists>s s'. tcp_reachable s \<and> tp_running s \<and> tcp_task_step\<^sup>*\<^sup>* s s' \<and> OnClose \<in> set (tp_log s')"
proof -
  obtain s where s: "tcp_reachable s" "tp_running s" "tp_close_asked s" using reach_closing by blast
  with tcp_close_completes[OF s(1)] show ?thesis by blast
qed

end
